(* ===== verification/Prelude.thy ===== *)
theory Prelude
  imports Main "HOL-Library.Word" "HOL-Library.Monad_Syntax"
begin

text \<open>
  Shared vocabulary of the RayOS development: the C integer types of \<open>src/inc/types.h\<close>, the
  conversions C performs between them, the alignment macro of \<open>src/inc/align.h\<close>, and generic
  lemmas on lists, folds and words.

  Conventions. A C integer that is used as a bit pattern (a bitmap word, a page-table entry, a
  hardware register) is a word of its width. A \<open>size_t\<close> or \<open>uint64_t\<close> that is used as a count or
  an index is a \<open>nat\<close>; every addition, multiplication or subtraction that can leave the range is
  written with \<open>wrap64\<close> or \<open>sub64\<close>. A C \<open>int\<close> is an \<open>int\<close>; a conversion from a wider unsigned
  value is \<open>to_int32\<close>, a conversion from \<open>int\<close> to \<open>size_t\<close> is \<open>of_int32\<close>. A call that may not
  return has an \<open>option\<close> type, with \<open>None\<close> for "does not return" (a spin on a lock nobody
  releases, a processor fault).
\<close>

unbundle bit_operations_syntax

type_synonym u8 = "8 word"
type_synonym u16 = "16 word"
type_synonym u32 = "32 word"
type_synonym u64 = "64 word"
type_synonym size_t = nat
type_synonym bytes = "u8 list"

named_theorems c_int \<open>unfolding rules of the C integer conversions\<close>
named_theorems bounds \<open>range facts of converted values\<close>

section \<open>C integer conversions\<close>

definition wrap64 :: "nat \<Rightarrow> nat" where
  "wrap64 n = n mod 2 ^ 64"

definition sub64 :: "nat \<Rightarrow> nat \<Rightarrow> nat" where
  "sub64 a b = (a + 2 ^ 64 - b) mod 2 ^ 64"

definition wrap32 :: "nat \<Rightarrow> nat" where
  "wrap32 n = n mod 2 ^ 32"

definition to_int32 :: "nat \<Rightarrow> int" where
  "to_int32 n = signed_take_bit 31 (int n)"

definition of_int32 :: "int \<Rightarrow> nat" where
  "of_int32 i = nat (i mod 2 ^ 64)"

lemma wrap64_id [simp]: "n < 2 ^ 64 \<Longrightarrow> wrap64 n = n"
  by (simp add: wrap64_def)

lemma wrap64_bound [bounds]: "wrap64 n < 2 ^ 64"
  by (simp add: wrap64_def)

lemma wrap32_id [simp]: "n < 2 ^ 32 \<Longrightarrow> wrap32 n = n"
  by (simp add: wrap32_def)

lemma sub64_le [simp]: "b \<le> a \<Longrightarrow> a < 2 ^ 64 \<Longrightarrow> sub64 a b = a - b"
  by (metis Nat.add_diff_assoc2 less_imp_diff_less mod_add_self2 mod_less sub64_def)

lemma sub64_gt: "a < b \<Longrightarrow> b < 2 ^ 64 \<Longrightarrow> sub64 a b = 2 ^ 64 + a - b"
  by (simp add: sub64_def)

lemma to_int32_small [simp]: "n < 2 ^ 31 \<Longrightarrow> to_int32 n = int n"
  by (simp add: to_int32_def signed_take_bit_int_eq_self)

lemma of_int32_nat [simp]: "of_int32 (int n) = wrap64 n"
  by (simp add: of_int32_def wrap64_def nat_mod_distrib nat_power_eq)

lemma of_int32_minus1 [simp]: "of_int32 (- 1) = 2 ^ 64 - 1"
  by (simp add: of_int32_def)

section \<open>Alignment\<close>

text \<open>
  \<open>ALIGN_UP(val, align)\<close> of \<open>src/inc/align.h\<close> adds \<open>align\<close> (not \<open>align - 1\<close>) before it clears the
  low bits.
\<close>

definition ALIGN_UP :: "u64 \<Rightarrow> u64 \<Rightarrow> u64" where
  "ALIGN_UP val align = (val + align) AND NOT (align - 1)"

section \<open>Loops as folds\<close>

lemma fold_invariant_upt:
  assumes "P 0 s"
    and "\<And>i t. i < n \<Longrightarrow> P i t \<Longrightarrow> P (Suc i) (f i t)"
  shows "P n (fold f [0..<n] s)"
  using assms by (induction n) simp_all

lemma fold_invariant:
  assumes "P s"
    and "\<And>x t. x \<in> set xs \<Longrightarrow> P t \<Longrightarrow> P (f x t)"
  shows "P (fold f xs s)"
  using assms by (induction xs arbitrary: s) simp_all

section \<open>Words and their bits\<close>

lemma bit_2_pow_word:
  "bit (2 ^ n :: 'a :: len word) k \<longleftrightarrow> k = n \<and> n < LENGTH('a)"
  by (auto simp: bit_exp_iff)

lemma zero_word_bits: "(w :: 'a :: len word) = 0 \<longleftrightarrow> (\<forall>k < LENGTH('a). \<not> bit w k)"
  by (auto simp: bit_eq_iff)

lemma and_2_pow_eq_0:
  "n < LENGTH('a) \<Longrightarrow> (w AND 2 ^ n = 0) \<longleftrightarrow> \<not> bit (w :: 'a :: len word) n"
  by (auto simp: zero_word_bits bit_and_iff bit_2_pow_word)

lemma max_word_bits: "(w :: 'a :: len word) = - 1 \<longleftrightarrow> (\<forall>k < LENGTH('a). bit w k)"
  by (auto simp: bit_eq_iff)

lemma bit_nat_pow_le: "bit (n :: nat) k \<Longrightarrow> 2 ^ k \<le> n"
proof -
  assume "bit n k"
  then have "n div 2 ^ k \<noteq> 0" by (auto simp: bit_iff_odd elim: oddE)
  then show ?thesis by (simp add: div_eq_0_iff)
qed

lemma bit_word_pow_le: "bit (w :: 'a :: len word) k \<Longrightarrow> 2 ^ k \<le> unat w"
  by (rule bit_nat_pow_le) (auto simp: bit_unsigned_iff dest: bit_imp_le_length)

lemma small_word_bits: "unat (w :: 'a :: len word) < 2 ^ n \<Longrightarrow> bit w k \<Longrightarrow> k < n"
proof (rule ccontr)
  assume "unat w < 2 ^ n" "bit w k" "\<not> k < n"
  moreover from this have "(2 :: nat) ^ n \<le> 2 ^ k" by (intro power_increasing) auto
  ultimately show False using bit_word_pow_le [of w k] by linarith
qed

lemma unat_of_nat_small: "m < 2 ^ 64 \<Longrightarrow> unat (of_nat m :: u64) = m"
  by (simp add: unsigned_of_nat take_bit_nat_eq_self)

lemma unat_add_of_nat: "unat (a :: u64) + m < 2 ^ 64 \<Longrightarrow> unat (a + of_nat m) = unat a + m"
proof -
  assume "unat a + m < 2 ^ 64"
  moreover from this have "unat (of_nat m :: u64) = m" by (intro unat_of_nat_small) linarith
  ultimately show ?thesis by (simp add: unat_word_ariths)
qed

end
