(* ===== verification/Bitmap.thy ===== *)
theory Bitmap
  imports Prelude
begin

text \<open>
  The bitmap of \<open>src/src/bitmap.c\<close> and \<open>src/inc/bitmap.h\<close>, the allocation map of the physical
  page allocator. The array behind \<open>bmp->map\<close> is the memory from the data pointer on, a function
  from word indices to 64-bit words. Each operation is one definition; the loops with an early
  exit are recursive functions, the plain counting loops are folds over the counter.

  The locale \<open>bit_store\<close> is the contract of a set of bit numbers with test, set and clear; it is
  interpreted on the plain and on the atomic operations. The lemmas show that every operation
  acts on the set of marked bits as intended: searches return the least hit, range allocation
  returns the first free run and marks exactly that run, the population count is the
  cardinality of the marked set.
\<close>

record bitmap_t =
  bmp_size :: size_t
  bmp_map :: "nat \<Rightarrow> u64"

definition bitmap_words :: "size_t \<Rightarrow> nat" where
  "bitmap_words n = wrap64 (n + 63) div 64"

definition bitmap_init :: "(nat \<Rightarrow> u64) \<Rightarrow> size_t \<Rightarrow> bitmap_t" where
  "bitmap_init data num_bits =
     \<lparr>bmp_size = num_bits,
      bmp_map = fold (\<lambda>i d. d(i := 0)) [0..<bitmap_words num_bits] data\<rparr>"

definition bitmap_set :: "bitmap_t \<Rightarrow> size_t \<Rightarrow> bitmap_t" where
  "bitmap_set bmp k =
     (if bmp_size bmp \<le> k then bmp
      else let word_idx = k div 64; bit_idx = k mod 64
        in bmp\<lparr>bmp_map := (bmp_map bmp)
                 (word_idx := bmp_map bmp word_idx OR push_bit bit_idx 1)\<rparr>)"

definition bitmap_clear :: "bitmap_t \<Rightarrow> size_t \<Rightarrow> bitmap_t" where
  "bitmap_clear bmp k =
     (if bmp_size bmp \<le> k then bmp
      else let word_idx = k div 64; bit_idx = k mod 64
        in bmp\<lparr>bmp_map := (bmp_map bmp)
                 (word_idx := bmp_map bmp word_idx AND NOT (push_bit bit_idx 1))\<rparr>)"

definition bitmap_test :: "bitmap_t \<Rightarrow> size_t \<Rightarrow> bool" where
  "bitmap_test bmp k =
     (if bmp_size bmp \<le> k then False
      else let word_idx = k div 64; bit_idx = k mod 64
        in bmp_map bmp word_idx AND push_bit bit_idx 1 \<noteq> 0)"

text \<open>
  The two searches share their loops: \<open>scan_word\<close> is the loop over \<open>j\<close> inside one word,
  \<open>scan_words\<close> the loop over \<open>i\<close>; \<open>skip\<close> is the word value the search skips and \<open>hit\<close> the test of
  one bit.
\<close>

function scan_word :: "(u64 \<Rightarrow> nat \<Rightarrow> bool) \<Rightarrow> size_t \<Rightarrow> u64 \<Rightarrow> nat \<Rightarrow> nat \<Rightarrow> size_t option" where
  "scan_word hit sz word i j =
     (if j < 64 then
        let bit_pos = i * 64 + j
        in if sz \<le> bit_pos then None
           else if hit word j then Some bit_pos
           else scan_word hit sz word i (Suc j)
      else None)"
  by pat_completeness auto
termination
  by (relation "measure (\<lambda>(hit, sz, word, i, j). 64 - j)") auto

function scan_words :: "u64 \<Rightarrow> (u64 \<Rightarrow> nat \<Rightarrow> bool) \<Rightarrow> bitmap_t \<Rightarrow> nat \<Rightarrow> nat \<Rightarrow> nat \<Rightarrow> size_t option"
where
  "scan_words skip hit bmp word_start bit_start i =
     (if i < bitmap_words (bmp_size bmp) then
        let word = bmp_map bmp i
        in if word = skip then scan_words skip hit bmp word_start bit_start (Suc i)
           else case scan_word hit (bmp_size bmp) word i
                       (if i = word_start then bit_start else 0) of
                  Some pos \<Rightarrow> Some pos
                | None \<Rightarrow> scan_words skip hit bmp word_start bit_start (Suc i)
      else None)"
  by pat_completeness auto
termination
  by (relation "measure (\<lambda>(skip, hit, bmp, ws, bs, i). bitmap_words (bmp_size bmp) - i)") auto

declare scan_word.simps [simp del] scan_words.simps [simp del]

definition bitmap_find_first_zero :: "bitmap_t \<Rightarrow> size_t \<Rightarrow> int" where
  "bitmap_find_first_zero bmp start =
     (case scan_words (- 1) (\<lambda>word j. word AND push_bit j 1 = 0) bmp
             (start div 64) (start mod 64) (start div 64) of
        Some bit_pos \<Rightarrow> to_int32 bit_pos
      | None \<Rightarrow> - 1)"

definition bitmap_find_first_set :: "bitmap_t \<Rightarrow> size_t \<Rightarrow> int" where
  "bitmap_find_first_set bmp start =
     (case scan_words 0 (\<lambda>word j. word AND push_bit j 1 \<noteq> 0) bmp
             (start div 64) (start mod 64) (start div 64) of
        Some bit_pos \<Rightarrow> to_int32 bit_pos
      | None \<Rightarrow> - 1)"

text \<open>
  \<open>bitmap_alloc_range\<close>: the bound \<open>bmp->size - count\<close> is an unsigned subtraction, so it wraps
  when \<open>count\<close> exceeds the size; the counter \<open>i\<close> wraps too, and the loop may then run forever.
\<close>

partial_function (option) alloc_range_loop ::
  "bitmap_t \<Rightarrow> size_t \<Rightarrow> size_t \<Rightarrow> size_t \<Rightarrow> (int \<times> bitmap_t) option" where
  "alloc_range_loop bmp count limit i =
     (if i \<le> limit then
        (if list_all (\<lambda>j. \<not> bitmap_test bmp (wrap64 (i + j))) [0..<count]
         then Some (to_int32 i, fold (\<lambda>j b. bitmap_set b (wrap64 (i + j))) [0..<count] bmp)
         else alloc_range_loop bmp count limit (wrap64 (Suc i)))
      else Some (- 1, bmp))"

definition bitmap_alloc_range :: "bitmap_t \<Rightarrow> size_t \<Rightarrow> size_t \<Rightarrow> (int \<times> bitmap_t) option" where
  "bitmap_alloc_range bmp count start =
     (if count = 0 then Some (- 1, bmp)
      else alloc_range_loop bmp count (sub64 (bmp_size bmp) count) start)"

definition bitmap_free_range :: "bitmap_t \<Rightarrow> size_t \<Rightarrow> size_t \<Rightarrow> bitmap_t" where
  "bitmap_free_range bmp start count =
     fold (\<lambda>i b. if wrap64 (start + i) < bmp_size b then bitmap_clear b (wrap64 (start + i)) else b)
       [0..<count] bmp"

function count_ones :: "size_t \<Rightarrow> u64 \<Rightarrow> size_t" where
  "count_ones count word =
     (if word \<noteq> 0 then count_ones (Suc count) (word AND (word - 1)) else count)"
  by pat_completeness auto
termination
proof (relation "measure (\<lambda>(count, word). unat word)", simp, clarsimp)
  fix word :: u64
  assume "word \<noteq> 0"
  then have "unat (word - 1) < unat word"
    by (simp add: unat_minus_one word_neq_0_conv unat_gt_0)
  moreover have "unat (word AND (word - 1)) \<le> unat (word - 1)"
    using word_and_le1 by (simp add: word_le_nat_alt)
  ultimately show "unat (word AND (word - 1)) < unat word"
    by simp
qed

declare count_ones.simps [simp del]

definition bitmap_count_set :: "bitmap_t \<Rightarrow> size_t" where
  "bitmap_count_set bmp =
     (let total_words = bitmap_words (bmp_size bmp)
      in fold (\<lambda>i count.
                 let word = bmp_map bmp i;
                     valid_bits = bmp_size bmp mod 64;
                     word' = (if i = sub64 total_words 1 \<and> bmp_size bmp mod 64 \<noteq> 0
                              then word AND (push_bit valid_bits 1 - 1) else word)
                 in count_ones count word')
           [0..<total_words] 0)"

text \<open>A division by a size of zero faults: no value is returned.\<close>

definition bitmap_usage_percent :: "bitmap_t \<Rightarrow> int option" where
  "bitmap_usage_percent bmp =
     (let total = bmp_size bmp; used = bitmap_count_set bmp
      in if total = 0 then None else Some (to_int32 (wrap64 (used * 100) div total)))"

text \<open>
  The atomic variants apply \<open>__atomic_fetch_or\<close> and \<open>__atomic_fetch_and\<close>, a single
  read-modify-write of the word.
\<close>

definition bitmap_set_atomic :: "bitmap_t \<Rightarrow> size_t \<Rightarrow> bitmap_t" where
  "bitmap_set_atomic bmp k =
     (if bmp_size bmp \<le> k then bmp
      else let word_idx = k div 64; bit_idx = k mod 64; mask = push_bit bit_idx 1
        in bmp\<lparr>bmp_map := (bmp_map bmp)(word_idx := bmp_map bmp word_idx OR mask)\<rparr>)"

definition bitmap_clear_atomic :: "bitmap_t \<Rightarrow> size_t \<Rightarrow> bitmap_t" where
  "bitmap_clear_atomic bmp k =
     (if bmp_size bmp \<le> k then bmp
      else let word_idx = k div 64; bit_idx = k mod 64; mask = NOT (push_bit bit_idx 1)
        in bmp\<lparr>bmp_map := (bmp_map bmp)(word_idx := bmp_map bmp word_idx AND mask)\<rparr>)"

text \<open>The range loops stop at the first position outside the bitmap.\<close>

function set_range_loop :: "bitmap_t \<Rightarrow> size_t \<Rightarrow> size_t \<Rightarrow> size_t \<Rightarrow> bitmap_t" where
  "set_range_loop bmp start count i =
     (if i < count \<and> wrap64 (start + i) < bmp_size bmp
      then set_range_loop (bitmap_set bmp (wrap64 (start + i))) start count (Suc i)
      else bmp)"
  by pat_completeness auto
termination
  by (relation "measure (\<lambda>(bmp, start, count, i). count - i)") auto

function clear_range_loop :: "bitmap_t \<Rightarrow> size_t \<Rightarrow> size_t \<Rightarrow> size_t \<Rightarrow> bitmap_t" where
  "clear_range_loop bmp start count i =
     (if i < count \<and> wrap64 (start + i) < bmp_size bmp
      then clear_range_loop (bitmap_clear bmp (wrap64 (start + i))) start count (Suc i)
      else bmp)"
  by pat_completeness auto
termination
  by (relation "measure (\<lambda>(bmp, start, count, i). count - i)") auto

declare set_range_loop.simps [simp del] clear_range_loop.simps [simp del]

definition bitmap_set_range :: "bitmap_t \<Rightarrow> size_t \<Rightarrow> size_t \<Rightarrow> bitmap_t" where
  "bitmap_set_range bmp start count = set_range_loop bmp start count 0"

definition bitmap_clear_range :: "bitmap_t \<Rightarrow> size_t \<Rightarrow> size_t \<Rightarrow> bitmap_t" where
  "bitmap_clear_range bmp start count = clear_range_loop bmp start count 0"

section \<open>Single-bit operations\<close>

definition bit_at :: "bitmap_t \<Rightarrow> nat \<Rightarrow> bool" where
  "bit_at bmp k = bit (bmp_map bmp (k div 64)) (k mod 64)"

lemma bitmap_test_iff: "bitmap_test bmp k \<longleftrightarrow> k < bmp_size bmp \<and> bit_at bmp k"
  by (simp add: bitmap_test_def bit_at_def Let_def and_2_pow_eq_0)

lemma bmp_size_set [simp]: "bmp_size (bitmap_set bmp k) = bmp_size bmp"
  and bmp_size_clear [simp]: "bmp_size (bitmap_clear bmp k) = bmp_size bmp"
  by (simp_all add: bitmap_set_def bitmap_clear_def Let_def)

lemma div_mod_64_eq: "(k :: nat) div 64 = i div 64 \<Longrightarrow> k mod 64 = i mod 64 \<Longrightarrow> k = i"
  by (metis div_mult_mod_eq)

lemma bit_at_set: "bit_at (bitmap_set bmp i) k \<longleftrightarrow> bit_at bmp k \<or> (k = i \<and> i < bmp_size bmp)"
  by (auto simp: bit_at_def bitmap_set_def Let_def bit_or_iff bit_2_pow_word dest: div_mod_64_eq)

lemma bit_at_clear: "bit_at (bitmap_clear bmp i) k \<longleftrightarrow> bit_at bmp k \<and> \<not> (k = i \<and> i < bmp_size bmp)"
  by (auto simp: bit_at_def bitmap_clear_def Let_def bit_and_iff bit_not_iff bit_2_pow_word
      dest: div_mod_64_eq)

lemma bitmap_set_atomic_eq: "bitmap_set_atomic = bitmap_set"
  by (intro ext) (simp add: bitmap_set_atomic_def bitmap_set_def Let_def)

lemma bitmap_clear_atomic_eq: "bitmap_clear_atomic = bitmap_clear"
  by (intro ext) (simp add: bitmap_clear_atomic_def bitmap_clear_def Let_def)

text \<open>
  The contract of a bit store. Clients see the predicate \<open>test\<close> and how \<open>set\<close> and \<open>clear\<close>
  change it; positions at or beyond \<open>size\<close> are never marked.
\<close>

locale bit_store =
  fixes bsize :: "'b \<Rightarrow> nat"
    and btest :: "'b \<Rightarrow> nat \<Rightarrow> bool"
    and bset :: "'b \<Rightarrow> nat \<Rightarrow> 'b"
    and bclear :: "'b \<Rightarrow> nat \<Rightarrow> 'b"
  assumes size_set: "bsize (bset b i) = bsize b"
    and size_clear: "bsize (bclear b i) = bsize b"
    and test_bound: "btest b i \<Longrightarrow> i < bsize b"
    and test_set: "btest (bset b i) k \<longleftrightarrow> btest b k \<or> (k = i \<and> i < bsize b)"
    and test_clear: "btest (bclear b i) k \<longleftrightarrow> btest b k \<and> k \<noteq> i"
begin

lemma size_fold_set: "bsize (fold (\<lambda>j b. bset b (f j)) xs b) = bsize b"
  by (induction xs arbitrary: b) (simp_all add: size_set)

lemma test_fold_set:
  "btest (fold (\<lambda>j b. bset b (f j)) xs b) k \<longleftrightarrow> btest b k \<or> (k \<in> f ` set xs \<and> k < bsize b)"
  by (induction xs arbitrary: b) (auto simp: test_set size_set)

lemma size_fold_clear: "bsize (fold (\<lambda>j b. bclear b (f j)) xs b) = bsize b"
  by (induction xs arbitrary: b) (simp_all add: size_clear)

lemma test_fold_clear:
  "btest (fold (\<lambda>j b. bclear b (f j)) xs b) k \<longleftrightarrow> btest b k \<and> k \<notin> f ` set xs"
  by (induction xs arbitrary: b) (auto simp: test_clear)

lemma clear_out_of_range: "bsize b \<le> i \<Longrightarrow> btest (bclear b i) k \<longleftrightarrow> btest b k"
  using test_bound [of b i] by (auto simp: test_clear)

lemma finite_marked: "finite {k. btest b k}"
  by (rule finite_subset [of _ "{..<bsize b}"]) (auto dest: test_bound)

lemma set_clear_undo: "\<not> btest b i \<Longrightarrow> btest (bclear (bset b i) i) k \<longleftrightarrow> btest b k"
  by (auto simp: test_set test_clear)

end

interpretation bm: bit_store bmp_size bitmap_test bitmap_set bitmap_clear
  by unfold_locales (auto simp: bitmap_test_iff bit_at_set bit_at_clear)

interpretation bma: bit_store bmp_size bitmap_test bitmap_set_atomic bitmap_clear_atomic
  by (simp add: bitmap_set_atomic_eq bitmap_clear_atomic_eq bm.bit_store_axioms)

lemma bitmap_init_map:
  "bmp_map (bitmap_init data n) i = (if i < bitmap_words n then 0 else data i)"
  "bmp_size (bitmap_init data n) = n"
proof -
  have "fold (\<lambda>i d. d(i := 0)) [0..<w] data i = (if i < w then 0 else data i)" for w
    by (induction w) auto
  then show "bmp_map (bitmap_init data n) i = (if i < bitmap_words n then 0 else data i)"
    by (simp add: bitmap_init_def)
qed (simp add: bitmap_init_def)

lemma div_64_less_words: "k < n \<Longrightarrow> n + 63 < 2 ^ 64 \<Longrightarrow> k div 64 < bitmap_words n"
  by (simp add: bitmap_words_def)

lemma less_words_div_64: "i < bitmap_words n \<Longrightarrow> n + 63 < 2 ^ 64 \<Longrightarrow> i * 64 < n"
  by (simp add: bitmap_words_def)

lemma bitmap_init_clear:
  assumes "n + 63 < 2 ^ 64"
  shows "\<not> bitmap_test (bitmap_init data n) k"
  using assms div_64_less_words [of k n]
  by (auto simp: bitmap_test_iff bit_at_def bitmap_init_map)

section \<open>Searches\<close>

lemma scan_word_Some:
  assumes "scan_word hit sz word i j = Some p"
  shows "i * 64 + j \<le> p \<and> p < sz \<and> p div 64 = i \<and> hit word (p mod 64) \<and>
    (\<forall>k. i * 64 + j \<le> k \<and> k < p \<longrightarrow> \<not> hit word (k mod 64))"
  using assms
proof (induction hit sz word i j rule: scan_word.induct)
  case (1 hit sz word i j)
  show ?case
  proof (cases "j < 64 \<and> i * 64 + j < sz \<and> \<not> hit word j")
    case True
    with "1.prems" have rec: "scan_word hit sz word i (Suc j) = Some p"
      by (subst (asm) scan_word.simps) (simp add: Let_def)
    have ih: "i * 64 + Suc j \<le> p \<and> p < sz \<and> p div 64 = i \<and> hit word (p mod 64) \<and>
        (\<forall>k. i * 64 + Suc j \<le> k \<and> k < p \<longrightarrow> \<not> hit word (k mod 64))"
      using True rec by (intro "1.IH") auto
    have "\<not> hit word (k mod 64)" if "i * 64 + j \<le> k" "k < p" for k
      using that ih True by (cases "k = i * 64 + j") auto
    with ih show ?thesis by simp
  next
    case False
    with "1.prems" show ?thesis
      by (subst (asm) scan_word.simps) (auto simp: Let_def split: if_splits)
  qed
qed

lemma scan_word_None:
  assumes "scan_word hit sz word i j = None" and "i * 64 + j \<le> k" "k < sz" "k div 64 = i"
  shows "\<not> hit word (k mod 64)"
  using assms
proof (induction hit sz word i j rule: scan_word.induct)
  case (1 hit sz word i j)
  from "1.prems" have j: "j < 64" and lt: "i * 64 + j < sz" by auto
  from "1.prems"(1) j lt have nh: "\<not> hit word j" and rec: "scan_word hit sz word i (Suc j) = None"
    by (subst (asm) scan_word.simps, simp add: Let_def split: if_splits)+
  show ?case
  proof (cases "k = i * 64 + j")
    case True
    with nh j show ?thesis by simp
  next
    case False
    then show ?thesis using "1.IH" [OF j refl] lt nh rec "1.prems" by auto
  qed
qed

text \<open>
  The outer loop: the first position it considers in word \<open>i\<close> is the start position in the first
  word and the beginning of the word afterwards.
\<close>

definition scan_from :: "nat \<Rightarrow> nat \<Rightarrow> nat \<Rightarrow> nat" where
  "scan_from ws bs i = i * 64 + (if i = ws then bs else 0)"

definition hit_at :: "(u64 \<Rightarrow> nat \<Rightarrow> bool) \<Rightarrow> bitmap_t \<Rightarrow> nat \<Rightarrow> bool" where
  "hit_at hit bmp k = hit (bmp_map bmp (k div 64)) (k mod 64)"

lemma scan_from_Suc: "ws \<le> i \<Longrightarrow> scan_from ws bs (Suc i) = Suc i * 64"
  by (simp add: scan_from_def)

lemma scan_from_le: "bs < 64 \<Longrightarrow> scan_from ws bs i \<le> i * 64 + 63"
  by (simp add: scan_from_def)

lemma scan_words_word:
  assumes "bs < 64" and "\<forall>j < 64. \<not> hit skip j"
    and "k < bmp_size bmp" and "k div 64 = i" and "scan_from ws bs i \<le> k"
    and "bmp_map bmp i = skip \<or>
      scan_word hit (bmp_size bmp) (bmp_map bmp i) i (if i = ws then bs else 0) = None"
  shows "\<not> hit_at hit bmp k"
  using assms scan_word_None [of hit "bmp_size bmp" "bmp_map bmp i" i "if i = ws then bs else 0" k]
  by (auto simp: hit_at_def scan_from_def)

lemma scan_words_spec:
  assumes "bmp_size bmp + 63 < 2 ^ 64" and "bs < 64" and "ws \<le> i"
    and "\<forall>j < 64. \<not> hit skip j"
  shows "case scan_words skip hit bmp ws bs i of
      Some p \<Rightarrow> scan_from ws bs i \<le> p \<and> p < bmp_size bmp \<and> hit_at hit bmp p \<and>
        (\<forall>k. scan_from ws bs i \<le> k \<and> k < p \<longrightarrow> \<not> hit_at hit bmp k)
    | None \<Rightarrow> \<forall>k. scan_from ws bs i \<le> k \<and> k < bmp_size bmp \<longrightarrow> \<not> hit_at hit bmp k"
  using assms
proof (induction skip hit bmp ws bs i rule: scan_words.induct)
  case (1 skip hit bmp ws bs i)
  let ?j = "if i = ws then bs else 0"
  let ?res = "scan_word hit (bmp_size bmp) (bmp_map bmp i) i ?j"
  let ?rec = "scan_words skip hit bmp ws bs (Suc i)"
  show ?case
  proof (cases "i < bitmap_words (bmp_size bmp)")
    case False
    then have "bmp_size bmp \<le> i * 64"
      using "1.prems"(1) by (simp add: bitmap_words_def)
    with False show ?thesis
      by (subst scan_words.simps) (auto simp: scan_from_def)
  next
    case True
    show ?thesis
    proof (cases "bmp_map bmp i \<noteq> skip \<and> ?res \<noteq> None")
      case found: True
      then obtain p where p: "?res = Some p" by auto
      have eq: "scan_words skip hit bmp ws bs i = Some p"
        using True found p by (subst scan_words.simps) simp
      have sp: "i * 64 + ?j \<le> p \<and> p < bmp_size bmp \<and> p div 64 = i \<and>
          hit (bmp_map bmp i) (p mod 64) \<and>
          (\<forall>k. i * 64 + ?j \<le> k \<and> k < p \<longrightarrow> \<not> hit (bmp_map bmp i) (k mod 64))"
        using p by (rule scan_word_Some)
      have "k div 64 = i" if "scan_from ws bs i \<le> k" "k < p" for k
        using that sp "1.prems"(2) by (auto simp: scan_from_def split: if_splits)
      with sp show ?thesis unfolding eq by (auto simp: hit_at_def scan_from_def)
    next
      case miss: False
      then have eq: "scan_words skip hit bmp ws bs i = ?rec"
        using True by (subst scan_words.simps) (auto simp: Let_def)
      have ih: "case ?rec of
          Some p \<Rightarrow> scan_from ws bs (Suc i) \<le> p \<and> p < bmp_size bmp \<and> hit_at hit bmp p \<and>
            (\<forall>k. scan_from ws bs (Suc i) \<le> k \<and> k < p \<longrightarrow> \<not> hit_at hit bmp k)
        | None \<Rightarrow> \<forall>k. scan_from ws bs (Suc i) \<le> k \<and> k < bmp_size bmp \<longrightarrow> \<not> hit_at hit bmp k"
      proof (cases "bmp_map bmp i = skip")
        case True
        show ?thesis using "1.prems" by (intro "1.IH"(1) [OF \<open>i < _\<close> refl True]) auto
      next
        case False
        with miss have none: "?res = None" by blast
        show ?thesis using "1.prems" by (intro "1.IH"(2) [OF True refl False none]) auto
      qed
      have here: "\<not> hit_at hit bmp k"
        if "scan_from ws bs i \<le> k" "k < bmp_size bmp" "k < Suc i * 64" for k
        using that miss "1.prems" scan_words_word [of bs hit skip k bmp i ws]
        by (auto simp: scan_from_def split: if_splits)
      have later: "Suc i * 64 \<le> k \<Longrightarrow> scan_from ws bs (Suc i) \<le> k" for k
        using "1.prems"(3) by (simp add: scan_from_Suc)
      have "scan_from ws bs i \<le> Suc i * 64"
        using scan_from_le [OF "1.prems"(2), of ws i] by simp
      then show ?thesis unfolding eq using ih here later "1.prems"(3)
        by (fastforce simp: scan_from_Suc split: option.splits)
    qed
  qed
qed

lemma scan_words_from_start:
  assumes "bmp_size bmp + 63 < 2 ^ 64" and "\<forall>j < 64. \<not> hit skip j"
  shows "case scan_words skip hit bmp (start div 64) (start mod 64) (start div 64) of
      Some p \<Rightarrow> start \<le> p \<and> p < bmp_size bmp \<and> hit_at hit bmp p \<and>
        (\<forall>k. start \<le> k \<and> k < p \<longrightarrow> \<not> hit_at hit bmp k)
    | None \<Rightarrow> \<forall>k. start \<le> k \<and> k < bmp_size bmp \<longrightarrow> \<not> hit_at hit bmp k"
  using scan_words_spec [of bmp "start mod 64" "start div 64" "start div 64" hit skip] assms
  by (simp add: scan_from_def split: option.splits)

lemma hit_at_zero: "hit_at (\<lambda>word j. word AND push_bit j 1 = 0) bmp k \<longleftrightarrow> \<not> bit_at bmp k"
  and hit_at_one: "hit_at (\<lambda>word j. word AND push_bit j 1 \<noteq> 0) bmp k \<longleftrightarrow> bit_at bmp k"
  by (simp_all add: hit_at_def bit_at_def and_2_pow_eq_0)

text \<open>
  \<open>bitmap_find_first_zero\<close> returns the least clear bit at or after the start position, and
  \<open>-1\<close> exactly when every bit from there to the end of the bitmap is set.
\<close>

lemma bitmap_find_first_zero_least:
  assumes "bmp_size bmp < 2 ^ 31"
  shows "if \<forall>k. start \<le> k \<and> k < bmp_size bmp \<longrightarrow> bitmap_test bmp k
    then bitmap_find_first_zero bmp start = - 1
    else \<exists>p. bitmap_find_first_zero bmp start = int p \<and> start \<le> p \<and> p < bmp_size bmp \<and>
      \<not> bitmap_test bmp p \<and> (\<forall>k. start \<le> k \<and> k < p \<longrightarrow> bitmap_test bmp k)"
proof (cases "scan_words (- 1) (\<lambda>word j. word AND push_bit j 1 = 0) bmp
    (start div 64) (start mod 64) (start div 64)")
  case None
  then show ?thesis
    using scan_words_from_start [of bmp "\<lambda>word j. word AND push_bit j 1 = 0" "- 1" start] assms
    unfolding hit_at_zero by (auto simp: bitmap_test_iff bitmap_find_first_zero_def and_2_pow_eq_0)
next
  case (Some p)
  then show ?thesis
    using scan_words_from_start [of bmp "\<lambda>word j. word AND push_bit j 1 = 0" "- 1" start] assms
    unfolding hit_at_zero by (auto simp: bitmap_test_iff bitmap_find_first_zero_def and_2_pow_eq_0)
qed

lemma bitmap_find_first_set_least:
  assumes "bmp_size bmp < 2 ^ 31"
  shows "if \<forall>k. start \<le> k \<longrightarrow> \<not> bitmap_test bmp k
    then bitmap_find_first_set bmp start = - 1
    else \<exists>p. bitmap_find_first_set bmp start = int p \<and> start \<le> p \<and> bitmap_test bmp p \<and>
      (\<forall>k. start \<le> k \<and> k < p \<longrightarrow> \<not> bitmap_test bmp k)"
proof (cases "scan_words 0 (\<lambda>word j. word AND push_bit j 1 \<noteq> 0) bmp
    (start div 64) (start mod 64) (start div 64)")
  case None
  then show ?thesis
    using scan_words_from_start [of bmp "\<lambda>word j. word AND push_bit j 1 \<noteq> 0" 0 start] assms
    unfolding hit_at_one by (auto simp: bitmap_test_iff bitmap_find_first_set_def)
next
  case (Some p)
  then show ?thesis
    using scan_words_from_start [of bmp "\<lambda>word j. word AND push_bit j 1 \<noteq> 0" 0 start] assms
    unfolding hit_at_one by (auto simp: bitmap_test_iff bitmap_find_first_set_def)
qed

section \<open>Range allocation\<close>

definition free_run :: "bitmap_t \<Rightarrow> nat \<Rightarrow> nat \<Rightarrow> bool" where
  "free_run bmp p count \<longleftrightarrow> (\<forall>j < count. \<not> bitmap_test bmp (p + j))"

definition mark_run :: "bitmap_t \<Rightarrow> nat \<Rightarrow> nat \<Rightarrow> bitmap_t" where
  "mark_run bmp p count = fold (\<lambda>j b. bitmap_set b (wrap64 (p + j))) [0..<count] bmp"

lemma wrap64_image_run: "p + count \<le> 2 ^ 64 \<Longrightarrow> (\<lambda>j. wrap64 (p + j)) ` {0..<count} = {p..<p + count}"
proof -
  assume "p + count \<le> 2 ^ 64"
  then have "(\<lambda>j. wrap64 (p + j)) ` {0..<count} = (\<lambda>j. p + j) ` {0..<count}"
    by (intro image_cong) auto
  then show ?thesis by (simp add: image_add_atLeastLessThan add.commute)
qed

lemma bmp_size_mark_run [simp]: "bmp_size (mark_run bmp p count) = bmp_size bmp"
  by (simp add: mark_run_def bm.size_fold_set)

lemma bitmap_test_mark_run:
  "p + count \<le> 2 ^ 64 \<Longrightarrow> bitmap_test (mark_run bmp p count) k \<longleftrightarrow>
    bitmap_test bmp k \<or> (p \<le> k \<and> k < p + count \<and> k < bmp_size bmp)"
  by (auto simp: mark_run_def bm.test_fold_set wrap64_image_run)

lemma found_iff_free_run:
  assumes "p + count \<le> 2 ^ 64"
  shows "list_all (\<lambda>j. \<not> bitmap_test bmp (wrap64 (p + j))) [0..<count] \<longleftrightarrow> free_run bmp p count"
proof -
  have "wrap64 (p + j) = p + j" if "j < count" for j
    using that assms by simp
  then show ?thesis by (auto simp: list_all_iff free_run_def)
qed

lemma alloc_range_loop_spec:
  assumes "limit + count < 2 ^ 64" and "0 < count"
  shows "(alloc_range_loop bmp count limit i = Some (- 1, bmp) \<and>
      (\<forall>p. i \<le> p \<and> p \<le> limit \<longrightarrow> \<not> free_run bmp p count)) \<or>
    (\<exists>p. alloc_range_loop bmp count limit i = Some (to_int32 p, mark_run bmp p count) \<and>
      i \<le> p \<and> p \<le> limit \<and> free_run bmp p count \<and>
      (\<forall>q. i \<le> q \<and> q < p \<longrightarrow> \<not> free_run bmp q count))"
proof (induction "Suc limit - i" arbitrary: i)
  case 0
  then show ?case by (subst (1) alloc_range_loop.simps) auto
next
  case (Suc m)
  then have i: "i \<le> limit" by simp
  then have found: "list_all (\<lambda>j. \<not> bitmap_test bmp (wrap64 (i + j))) [0..<count] \<longleftrightarrow>
      free_run bmp i count"
    using assms by (intro found_iff_free_run) simp
  show ?case
  proof (cases "free_run bmp i count")
    case True
    then have "alloc_range_loop bmp count limit i = Some (to_int32 i, mark_run bmp i count)"
      using i found by (subst alloc_range_loop.simps) (simp add: mark_run_def)
    with True i show ?thesis by auto
  next
    case False
    have "wrap64 (Suc i) = Suc i" using i assms by simp
    with False i found have step:
      "alloc_range_loop bmp count limit i = alloc_range_loop bmp count limit (Suc i)"
      by (subst alloc_range_loop.simps) simp
    from Suc(1) [of "Suc i"] Suc(2) have "(alloc_range_loop bmp count limit (Suc i) = Some (- 1, bmp) \<and>
        (\<forall>p. Suc i \<le> p \<and> p \<le> limit \<longrightarrow> \<not> free_run bmp p count)) \<or>
      (\<exists>p. alloc_range_loop bmp count limit (Suc i) = Some (to_int32 p, mark_run bmp p count) \<and>
        Suc i \<le> p \<and> p \<le> limit \<and> free_run bmp p count \<and>
        (\<forall>q. Suc i \<le> q \<and> q < p \<longrightarrow> \<not> free_run bmp q count))"
      by simp
    moreover have "i \<le> q \<Longrightarrow> q = i \<or> Suc i \<le> q" for q by linarith
    ultimately show ?thesis unfolding step using False by (metis Suc_leD)
  qed
qed

text \<open>
  For a request of at least one and at most all bits, \<open>bitmap_alloc_range\<close> always returns.
  It either returns \<open>-1\<close>, leaves the bitmap alone and there is no free run of that length at or
  after the start position, or it returns the first position of such a run inside the bitmap and
  marks exactly the bits of that run.
\<close>

lemma bitmap_alloc_range_correct:
  assumes "0 < count" and "count \<le> bmp_size bmp" and "bmp_size bmp < 2 ^ 31"
  shows "\<exists>r bmp'. bitmap_alloc_range bmp count start = Some (r, bmp') \<and>
    (if \<forall>p. start \<le> p \<and> p + count \<le> bmp_size bmp \<longrightarrow> \<not> free_run bmp p count
     then r = - 1 \<and> bmp' = bmp
     else \<exists>p. r = int p \<and> start \<le> p \<and> p + count \<le> bmp_size bmp \<and> free_run bmp p count \<and>
       (\<forall>q. start \<le> q \<and> q < p \<longrightarrow> \<not> free_run bmp q count) \<and>
       bmp_size bmp' = bmp_size bmp \<and>
       (\<forall>k. bitmap_test bmp' k \<longleftrightarrow> bitmap_test bmp k \<or> (p \<le> k \<and> k < p + count)))"
proof -
  let ?limit = "bmp_size bmp - count"
  have loop: "bitmap_alloc_range bmp count start = alloc_range_loop bmp count ?limit start"
    using assms by (simp add: bitmap_alloc_range_def)
  have le: "p \<le> ?limit \<longleftrightarrow> p + count \<le> bmp_size bmp" for p
    using assms by linarith
  have "?limit + count < 2 ^ 64" using assms by simp
  then consider (none) "alloc_range_loop bmp count ?limit start = Some (- 1, bmp)"
      "\<forall>p. start \<le> p \<and> p + count \<le> bmp_size bmp \<longrightarrow> \<not> free_run bmp p count"
    | (some) p where "alloc_range_loop bmp count ?limit start = Some (to_int32 p, mark_run bmp p count)"
      "start \<le> p" "p + count \<le> bmp_size bmp" "free_run bmp p count"
      "\<forall>q. start \<le> q \<and> q < p \<longrightarrow> \<not> free_run bmp q count"
    using alloc_range_loop_spec [of ?limit count bmp start] assms(1) unfolding le by auto
  then show ?thesis
  proof cases
    case none
    then show ?thesis unfolding loop by simp
  next
    case some
    then have "to_int32 p = int p" and "p + count \<le> 2 ^ 64"
      using assms by simp_all
    with some show ?thesis unfolding loop
      by (auto simp: bitmap_test_mark_run intro!: exI [of _ p])
  qed
qed

text \<open>
  A request for more bits than the bitmap has is not refused. The bound of the search loop
  wraps around, \<open>bitmap_test\<close> reports every position past the end as clear, and so the request
  "succeeds" at the start position whenever the rest of the bitmap is free.
\<close>

lemma bitmap_alloc_range_overcommit:
  assumes "bmp_size bmp < count" and "start + count < 2 ^ 64"
    and "\<forall>k. start \<le> k \<longrightarrow> \<not> bitmap_test bmp k"
  shows "bitmap_alloc_range bmp count start = Some (to_int32 start, mark_run bmp start count)"
proof -
  have "sub64 (bmp_size bmp) count = 2 ^ 64 + bmp_size bmp - count"
    using assms by (intro sub64_gt) simp_all
  then have "start \<le> sub64 (bmp_size bmp) count" using assms(2) by simp
  moreover have "free_run bmp start count" using assms(3) by (simp add: free_run_def)
  ultimately show ?thesis
    using assms found_iff_free_run [of start count bmp]
    by (simp add: bitmap_alloc_range_def alloc_range_loop.simps mark_run_def)
qed

lemma bitmap_alloc_range_overcommit_example:
  "bitmap_alloc_range \<lparr>bmp_size = 4, bmp_map = (\<lambda>_. 0)\<rparr> 16 1 =
     Some (1, mark_run \<lparr>bmp_size = 4, bmp_map = (\<lambda>_. 0)\<rparr> 1 16)"
  using bitmap_alloc_range_overcommit [of "\<lparr>bmp_size = 4, bmp_map = (\<lambda>_. 0)\<rparr>" 16 1]
  by (simp add: bitmap_test_def)

lemma bmp_size_free_range [simp]: "bmp_size (bitmap_free_range bmp start count) = bmp_size bmp"
  unfolding bitmap_free_range_def
  by (rule fold_invariant [where P = "\<lambda>b. bmp_size b = bmp_size bmp"]) auto

lemma bitmap_test_free_range:
  assumes "start + count \<le> 2 ^ 64"
  shows "bitmap_test (bitmap_free_range bmp start count) k \<longleftrightarrow>
    bitmap_test bmp k \<and> \<not> (start \<le> k \<and> k < start + count)"
proof -
  let ?f = "\<lambda>i b. if wrap64 (start + i) < bmp_size b then bitmap_clear b (wrap64 (start + i)) else b"
  have "bitmap_test (fold ?f xs b) k \<longleftrightarrow> bitmap_test b k \<and> k \<notin> (\<lambda>i. wrap64 (start + i)) ` set xs"
    for xs b
    by (induction xs arbitrary: b) (auto simp: bm.test_clear dest: bm.test_bound)
  from this [of "[0..<count]" bmp] show ?thesis
    using wrap64_image_run [OF assms] by (simp add: bitmap_free_range_def)
qed

text \<open>
  C4: Freeing the run that an allocation returned gives back exactly the marked bits there were
  before, and no other bit changes.
\<close>

theorem bitmap_alloc_free_roundtrip:
  assumes "0 < count" and "count \<le> bmp_size bmp" and "bmp_size bmp < 2 ^ 31"
    and "bitmap_alloc_range bmp count start = Some (int p, bmp')"
  shows "bitmap_test (bitmap_free_range bmp' p count) k \<longleftrightarrow> bitmap_test bmp k"
proof -
  from bitmap_alloc_range_correct [OF assms(1-3), of start] assms(4)
  have run: "free_run bmp p count" and le: "p + count \<le> bmp_size bmp"
    and test: "\<forall>k. bitmap_test bmp' k \<longleftrightarrow> bitmap_test bmp k \<or> (p \<le> k \<and> k < p + count)"
    by (auto split: if_splits)
  have "\<not> bitmap_test bmp k" if "p \<le> k" "k < p + count"
    using run that by (auto simp: free_run_def) (metis add.commute le_add_diff_inverse2 less_diff_conv2)
  moreover have "p + count \<le> 2 ^ 64" using le assms(3) by simp
  ultimately show ?thesis using test by (auto simp: bitmap_test_free_range)
qed

theorem bitmap_alloc_free_roundtrip_witness:
  "\<exists>bmp'. bitmap_alloc_range \<lparr>bmp_size = 4, bmp_map = (\<lambda>_. 1)\<rparr> 2 0 = Some (1, bmp') \<and>
    (\<forall>k. bitmap_test (bitmap_free_range bmp' 1 2) k \<longleftrightarrow>
       bitmap_test \<lparr>bmp_size = 4, bmp_map = (\<lambda>_. 1)\<rparr> k)"
proof -
  let ?b = "\<lparr>bmp_size = 4, bmp_map = (\<lambda>_. 1)\<rparr> :: bitmap_t"
  obtain b' where v: "bitmap_alloc_range ?b 2 0 = Some (int 1, b')"
    by (simp add: bitmap_alloc_range_def alloc_range_loop.simps bitmap_test_def upt_rec)
  have hyps: "(0 :: nat) < 2" "2 \<le> bmp_size ?b" "bmp_size ?b < 2 ^ 31" by simp_all
  from bitmap_alloc_free_roundtrip [OF hyps v] v show ?thesis by auto
qed

lemma set_range_loop_props:
  "bmp_size (set_range_loop bmp start count i) = bmp_size bmp \<and>
    (start + count \<le> 2 ^ 64 \<longrightarrow> bitmap_test (set_range_loop bmp start count i) k \<longleftrightarrow>
       bitmap_test bmp k \<or> (start + i \<le> k \<and> k < start + count \<and> k < bmp_size bmp))"
proof (induction bmp start count i rule: set_range_loop.induct)
  case (1 bmp start count i)
  show ?case
  proof (cases "i < count \<and> wrap64 (start + i) < bmp_size bmp")
    case True
    with "1.IH" show ?thesis
      by (subst (1 2) set_range_loop.simps) (auto simp: bm.test_set)
  next
    case False
    then show ?thesis by (subst (1 2) set_range_loop.simps) auto
  qed
qed

lemma bitmap_test_set_range:
  "start + count \<le> 2 ^ 64 \<Longrightarrow> bitmap_test (bitmap_set_range bmp start count) k \<longleftrightarrow>
    bitmap_test bmp k \<or> (start \<le> k \<and> k < start + count \<and> k < bmp_size bmp)"
  and bmp_size_set_range [simp]: "bmp_size (bitmap_set_range bmp start count) = bmp_size bmp"
  using set_range_loop_props [of bmp start count 0 k] by (simp_all add: bitmap_set_range_def)

lemma clear_range_loop_props:
  "bmp_size (clear_range_loop bmp start count i) = bmp_size bmp \<and>
    (start + count \<le> 2 ^ 64 \<longrightarrow> bitmap_test (clear_range_loop bmp start count i) k \<longleftrightarrow>
       bitmap_test bmp k \<and> \<not> (start + i \<le> k \<and> k < start + count))"
proof (induction bmp start count i rule: clear_range_loop.induct)
  case (1 bmp start count i)
  show ?case
  proof (cases "i < count \<and> wrap64 (start + i) < bmp_size bmp")
    case True
    with "1.IH" show ?thesis
      by (subst (1 2) clear_range_loop.simps) (auto simp: bm.test_clear)
  next
    case False
    then show ?thesis
      by (subst (1 2) clear_range_loop.simps) (auto dest: bm.test_bound)
  qed
qed

lemma bitmap_test_clear_range:
  "start + count \<le> 2 ^ 64 \<Longrightarrow> bitmap_test (bitmap_clear_range bmp start count) k \<longleftrightarrow>
    bitmap_test bmp k \<and> \<not> (start \<le> k \<and> k < start + count)"
  using clear_range_loop_props [of bmp start count 0 k] by (simp add: bitmap_clear_range_def)

section \<open>Population count\<close>

definition pop :: "nat \<Rightarrow> nat" where
  "pop n = card {k. bit n k}"

lemma bit_nat_le: "bit (n :: nat) k \<Longrightarrow> k \<le> n"
  using bit_nat_pow_le [of n k] less_exp [of k] by linarith

lemma finite_bits_nat [simp]: "finite {k. bit (n :: nat) k}"
  by (rule finite_subset [of _ "{..n}"]) (auto dest: bit_nat_le)

lemma bits_double: "{k. bit (2 * m :: nat) k} = Suc ` {k. bit m k}"
proof -
  have "bit (2 * m) k \<longleftrightarrow> (\<exists>j. k = Suc j \<and> bit m j)" for k
    by (cases k) (simp_all add: bit_0 bit_Suc)
  then show ?thesis by auto
qed

lemma bits_double_Suc: "{k. bit (Suc (2 * m) :: nat) k} = insert 0 (Suc ` {k. bit m k})"
proof -
  have "bit (Suc (2 * m)) k \<longleftrightarrow> k = 0 \<or> (\<exists>j. k = Suc j \<and> bit m j)" for k
    by (cases k) (simp_all add: bit_0 bit_Suc)
  then show ?thesis by auto
qed

lemma pop_0 [simp]: "pop 0 = 0"
  by (simp add: pop_def)

lemma pop_double: "pop (2 * m) = pop m" "pop (Suc (2 * m)) = Suc (pop m)"
  by (simp_all add: pop_def bits_double bits_double_Suc card_image)

lemma and_pred_double: "0 < m \<Longrightarrow> (2 * m) AND (2 * m - 1) = 2 * (m AND (m - 1 :: nat))"
proof (rule bit_eqI)
  fix k assume m: "0 < m"
  have half: "(2 * m - Suc 0) div 2 = m - Suc 0" by linarith
  show "bit (2 * m AND (2 * m - 1)) k \<longleftrightarrow> bit (2 * (m AND (m - 1))) k"
    unfolding bit_and_iff by (cases k) (simp_all add: bit_0 bit_Suc bit_and_iff half)
qed

lemma and_pred_double_Suc: "Suc (2 * m) AND (2 * m) = 2 * m"
proof (rule bit_eqI)
  fix k
  show "bit (Suc (2 * m) AND (2 * m)) k \<longleftrightarrow> bit (2 * m) k"
    unfolding bit_and_iff by (cases k) (simp_all add: bit_0 bit_Suc)
qed

text \<open>Kernighan's step: \<open>n & (n - 1)\<close> removes exactly one bit.\<close>

lemma pop_and_pred: "n \<noteq> 0 \<Longrightarrow> pop n = Suc (pop (n AND (n - 1)))"
proof (induction n rule: less_induct)
  case (less n)
  show ?case
  proof (cases "even n")
    case True
    then obtain m where m: "n = 2 * m" by (elim evenE)
    with less.prems have "0 < m" by simp
    with less.IH [of m] m show ?thesis by (simp add: pop_double and_pred_double del: One_nat_def)
  next
    case False
    then obtain m where "n = Suc (2 * m)" by (auto elim: oddE)
    then show ?thesis by (simp add: pop_double and_pred_double_Suc)
  qed
qed

lemma pop_word_step:
  fixes w :: u64
  assumes "w \<noteq> 0"
  shows "pop (unat w) = Suc (pop (unat (w AND (w - 1))))"
  using assms pop_and_pred [of "unat w"]
  by (simp add: unsigned_and_eq unat_minus_one unat_eq_0)

lemma count_ones_pop: "count_ones count w = count + pop (unat w)"
proof (induction count w rule: count_ones.induct)
  case (1 count w)
  then show ?case
    by (subst count_ones.simps) (auto simp: pop_word_step)
qed

lemma pop_unat: "pop (unat (w :: u64)) = card {k. k < 64 \<and> bit w k}"
proof -
  have "{k. bit (unat w) k} = {k. k < 64 \<and> bit w k}"
    by (auto simp: bit_unsigned_iff dest: bit_imp_le_length)
  then show ?thesis by (simp add: pop_def)
qed

definition word_bits :: "bitmap_t \<Rightarrow> nat \<Rightarrow> nat set" where
  "word_bits bmp i = {k. k div 64 = i \<and> bitmap_test bmp k}"

lemma bit_mask_low: "n < 64 \<Longrightarrow> bit (2 ^ n - 1 :: u64) k \<longleftrightarrow> k < n"
  by (auto simp: mask_eq_exp_minus_1 [symmetric] bit_mask_iff)

lemma card_word_bits:
  assumes "\<And>j. j < 64 \<Longrightarrow> bit w j \<longleftrightarrow> bitmap_test bmp (i * 64 + j)"
  shows "card {j. j < 64 \<and> bit (w :: u64) j} = card (word_bits bmp i)"
proof -
  have "word_bits bmp i = (\<lambda>j. i * 64 + j) ` {j. j < 64 \<and> bit w j}"
  proof (intro set_eqI iffI)
    fix k assume "k \<in> word_bits bmp i"
    then have "k = i * 64 + k mod 64" "bitmap_test bmp k"
      by (auto simp: word_bits_def)
    then show "k \<in> (\<lambda>j. i * 64 + j) ` {j. j < 64 \<and> bit w j}"
      using assms [of "k mod 64"] by (intro image_eqI [of _ _ "k mod 64"]) auto
  next
    fix k assume "k \<in> (\<lambda>j. i * 64 + j) ` {j. j < 64 \<and> bit w j}"
    then show "k \<in> word_bits bmp i" using assms by (auto simp: word_bits_def)
  qed
  then show ?thesis by (simp add: card_image inj_on_def)
qed

lemma ceil_div_64: "((n :: nat) + 63) div 64 = n div 64 + (if n mod 64 = 0 then 0 else 1)"
proof -
  have "n mod 64 < 64" by simp
  then have "n mod 64 \<noteq> 0 \<Longrightarrow> (n mod 64 + 63) div 64 = 1"
    by (intro div_nat_eqI) simp_all
  then have "(n mod 64 + 63) div 64 = (if n mod 64 = 0 then 0 else 1)"
    by (cases "n mod 64 = 0") simp_all
  moreover have "n + 63 = n mod 64 + 63 + n div 64 * 64" by simp
  then have "(n + 63) div 64 = n div 64 + (n mod 64 + 63) div 64"
    by (metis div_mult_self1 zero_neq_numeral)
  ultimately show ?thesis by simp
qed

lemma count_ones_word:
  assumes "i < bitmap_words (bmp_size bmp)" and sz: "bmp_size bmp + 63 < 2 ^ 64"
  shows "(let word = bmp_map bmp i; valid_bits = bmp_size bmp mod 64;
             word' = (if i = sub64 (bitmap_words (bmp_size bmp)) 1 \<and> bmp_size bmp mod 64 \<noteq> 0
                      then word AND (push_bit valid_bits 1 - 1) else word)
         in count_ones count word') = count + card (word_bits bmp i)"
proof -
  let ?n = "bmp_size bmp" and ?w = "bmp_map bmp i"
  have words: "bitmap_words ?n = ?n div 64 + (if ?n mod 64 = 0 then 0 else 1)"
    using sz by (simp add: bitmap_words_def ceil_div_64)
  have last: "sub64 (bitmap_words ?n) (Suc 0) = bitmap_words ?n - Suc 0"
    using assms words by (intro sub64_le) auto
  have test: "bitmap_test bmp (i * 64 + j) \<longleftrightarrow> i * 64 + j < ?n \<and> bit ?w j" if "j < 64" for j
    using that by (simp add: bitmap_test_iff bit_at_def)
  show ?thesis
  proof (cases "i = bitmap_words ?n - 1 \<and> ?n mod 64 \<noteq> 0")
    case True
    then have "i = ?n div 64" using words by simp
    then have "i * 64 + j < ?n \<longleftrightarrow> j < ?n mod 64" for j by (metis div_mult_mod_eq nat_add_left_cancel_less)
    then have "bit (?w AND (2 ^ (?n mod 64) - 1)) j \<longleftrightarrow> bitmap_test bmp (i * 64 + j)" if "j < 64" for j
      using that test [of j] by (auto simp: bit_and_iff bit_mask_low)
    then show ?thesis using True card_word_bits [of "?w AND (2 ^ (?n mod 64) - 1)" bmp i]
      by (simp add: last count_ones_pop pop_unat Let_def)
  next
    case False
    then have "Suc i \<le> ?n div 64" using assms(1) words
      by (cases "?n mod 64 = 0") (simp_all del: mod_0_imp_dvd)
    then have "Suc i * 64 \<le> ?n div 64 * 64" by (rule mult_le_mono1)
    then have "i * 64 + 64 \<le> ?n" using div_times_less_eq_dividend [of ?n 64] by simp
    then have "bit ?w j \<longleftrightarrow> bitmap_test bmp (i * 64 + j)" if "j < 64" for j
      using that test [of j] by auto
    then have "card {j. j < 64 \<and> bit ?w j} = card (word_bits bmp i)"
      by (rule card_word_bits)
    with False show ?thesis by (auto simp: last count_ones_pop pop_unat Let_def)
  qed
qed

text \<open>
  \<open>bitmap_count_set\<close> is the number of marked bits: the bits of the last, partial word that lie
  beyond the size are masked out and not counted.
\<close>

lemma bitmap_count_set_card:
  assumes "bmp_size bmp + 63 < 2 ^ 64"
  shows "bitmap_count_set bmp = card {k. bitmap_test bmp k}"
proof -
  let ?words = "bitmap_words (bmp_size bmp)"
  let ?f = "\<lambda>i count. let word = bmp_map bmp i; valid_bits = bmp_size bmp mod 64;
             word' = (if i = sub64 ?words 1 \<and> bmp_size bmp mod 64 \<noteq> 0
                      then word AND (push_bit valid_bits 1 - 1) else word)
         in count_ones count word'"
  have "fold ?f [0..<n] 0 = card (\<Union>i < n. word_bits bmp i)" if "n \<le> ?words" for n
    using that
  proof (induction n)
    case (Suc n)
    have fin: "finite (word_bits bmp i)" for i
      using bm.finite_marked [of bmp] by (rule finite_subset [rotated]) (auto simp: word_bits_def)
    have "(\<Union>i < n. word_bits bmp i) \<inter> word_bits bmp n = {}"
      by (auto simp: word_bits_def)
    then have "card (\<Union>i < Suc n. word_bits bmp i) = card (\<Union>i < n. word_bits bmp i) + card (word_bits bmp n)"
      by (simp add: lessThan_Suc card_Un_disjoint fin Un_commute Int_commute)
    moreover have "?f n count = count + card (word_bits bmp n)" for count
      using Suc.prems assms by (intro count_ones_word) auto
    ultimately show ?case using Suc by simp
  qed simp
  moreover have "(\<Union>i < ?words. word_bits bmp i) = {k. bitmap_test bmp k}"
    using div_64_less_words assms by (auto simp: word_bits_def dest: bm.test_bound)
  ultimately show ?thesis by (simp add: bitmap_count_set_def Let_def)
qed

lemma bitmap_count_set_card_example:
  "bmp_size \<lparr>bmp_size = 3, bmp_map = (\<lambda>_. 13)\<rparr> + 63 < 2 ^ 64 \<and>
    bitmap_count_set \<lparr>bmp_size = 3, bmp_map = (\<lambda>_. 13)\<rparr> = 2 \<and>
    card {k. bitmap_test \<lparr>bmp_size = 3, bmp_map = (\<lambda>_. 13)\<rparr> k} = 2"
proof -
  let ?b = "\<lparr>bmp_size = 3, bmp_map = (\<lambda>_. 13)\<rparr> :: bitmap_t"
  have "bitmap_count_set ?b = 2"
    by (simp add: bitmap_count_set_def bitmap_words_def count_ones.simps)
  with bitmap_count_set_card [of ?b] show ?thesis by simp
qed

end
