(* ===== verification/PageAlloc.thy ===== *)
theory PageAlloc
  imports Bitmap
begin

text \<open>
  The physical page allocator: the order arithmetic of \<open>src/inc/page.h\<close> and \<open>alloc_pages\<close>,
  \<open>free_pages\<close>, \<open>memused\<close> and \<open>memused_percent\<close> of \<open>src/src/page.c\<close>. The state is the bitmap
  \<open>page_alloc_bitmap\<close>; page number \<open>k\<close> stands for the physical addresses from \<open>k * PAGE_SIZE\<close>.
  The lemmas show that \<open>size_to_order\<close> is the least sufficient order, that allocation is first-fit
  over the free pages, never hands out a page twice, and is undone by \<open>free_pages\<close>.
\<close>

section \<open>Orders\<close>

definition PAGE_SIZE :: nat where
  "PAGE_SIZE = 0x1000"

definition PAGE_SHIFT :: nat where
  "PAGE_SHIFT = 12"

definition order_to_pages :: "nat \<Rightarrow> nat" where
  "order_to_pages order = wrap64 (2 ^ order)"

function fls_loop :: "nat \<Rightarrow> nat \<Rightarrow> nat" where
  "fls_loop x r = (if x \<noteq> 0 then fls_loop (x div 2) (Suc r) else r)"
  by pat_completeness auto
termination
  by (relation "measure (\<lambda>(x, r). x)") auto

declare fls_loop.simps [simp del]

definition fls :: "nat \<Rightarrow> nat" where
  "fls x = fls_loop x 0"

definition size_to_order :: "size_t \<Rightarrow> nat" where
  "size_to_order sz =
     (if sz = 0 then 0
      else let pages = sub64 (wrap64 (sz + PAGE_SIZE)) 1 div 2 ^ PAGE_SHIFT
        in fls (sub64 pages 1))"

definition pages_to_order :: "size_t \<Rightarrow> nat" where
  "pages_to_order nr_pages = size_to_order (wrap64 (nr_pages * PAGE_SIZE))"

section \<open>Allocation\<close>

text \<open>
  \<open>alloc_pages\<close> passes the \<open>int\<close> result of the search as the \<open>size_t\<close> start of the range search
  (a full bitmap gives \<open>-1\<close>, the largest \<open>size_t\<close>), and returns a negative result sign-extended.
\<close>

definition alloc_pages :: "bitmap_t \<Rightarrow> nat \<Rightarrow> (u64 \<times> bitmap_t) option" where
  "alloc_pages bmp order =
     (let start = bitmap_find_first_zero bmp 0
      in do {
        (ret, bmp') \<leftarrow> bitmap_alloc_range bmp (order_to_pages order) (of_int32 start);
        Some (if ret < 0 then word_of_int ret else word_of_int ret * of_nat PAGE_SIZE, bmp')
      })"

definition free_pages :: "bitmap_t \<Rightarrow> u64 \<Rightarrow> nat \<Rightarrow> bitmap_t" where
  "free_pages bmp physaddr order =
     bitmap_free_range bmp (unat (drop_bit PAGE_SHIFT physaddr)) (order_to_pages order)"

definition memused :: "bitmap_t \<Rightarrow> size_t" where
  "memused bmp = wrap64 (bitmap_count_set bmp * 4096)"

definition memused_percent :: "bitmap_t \<Rightarrow> size_t option" where
  "memused_percent bmp = map_option of_int32 (bitmap_usage_percent bmp)"

section \<open>Order arithmetic\<close>

lemma order_to_pages_pow [simp]: "order < 64 \<Longrightarrow> order_to_pages order = 2 ^ order"
  unfolding order_to_pages_def by (rule wrap64_id) (rule power_strict_increasing, auto)

lemma fls_loop_bounds:
  "\<exists>n. fls_loop x r = r + n \<and> x < 2 ^ n \<and> (x \<noteq> 0 \<longrightarrow> 0 < n \<and> 2 ^ (n - 1) \<le> x)"
proof (induction x r rule: fls_loop.induct)
  case (1 x r)
  show ?case
  proof (cases "x = 0")
    case True
    then show ?thesis by (simp add: fls_loop.simps)
  next
    case False
    with "1.IH" obtain n where n: "fls_loop (x div 2) (Suc r) = Suc r + n" "x div 2 < 2 ^ n"
      "x div 2 \<noteq> 0 \<longrightarrow> 0 < n \<and> 2 ^ (n - 1) \<le> x div 2" by auto
    have "fls_loop x r = r + Suc n" using False n(1) by (subst fls_loop.simps) simp
    moreover have "x < 2 ^ Suc n" using n(2) by auto
    moreover have "2 ^ n \<le> x"
    proof (cases "x div 2 = 0")
      case True
      then have "x = 1" using False by linarith
      moreover have "fls_loop 0 (Suc r) = Suc r" by (simp add: fls_loop.simps)
      ultimately show ?thesis using n(1) by simp
    next
      case False
      with n(3) have "2 * 2 ^ (n - 1) \<le> x" and "0 < n" by auto
      then show ?thesis by (simp add: power_eq_if)
    qed
    ultimately show ?thesis by (intro exI [of _ "Suc n"]) simp
  qed
qed

lemma fls_bounds: "x < 2 ^ fls x" "x \<noteq> 0 \<Longrightarrow> 0 < fls x \<and> 2 ^ (fls x - 1) \<le> x"
  using fls_loop_bounds [of x 0] by (auto simp: fls_def)

lemma fls_0 [simp]: "fls 0 = 0"
  unfolding fls_def by (subst fls_loop.simps) simp

lemma size_to_order_spec:
  assumes "0 < sz" and "sz + PAGE_SIZE < 2 ^ 64"
  shows "size_to_order sz < 64 \<and> sz \<le> 2 ^ size_to_order sz * PAGE_SIZE \<and>
    (size_to_order sz \<noteq> 0 \<longrightarrow> 2 ^ (size_to_order sz - 1) * PAGE_SIZE < sz)"
proof -
  define pages where "pages = (sz + 4095) div 4096"
  have pages: "0 < pages" "pages * 4096 < sz + 4096" "sz \<le> pages * 4096"
    using assms(1) unfolding pages_def by linarith+
  have lt: "pages < 2 ^ 64" using pages(2) assms(2) by (simp add: PAGE_SIZE_def)
  have eq: "size_to_order sz = fls (pages - 1)"
    using assms lt pages(1) by (simp add: size_to_order_def Let_def PAGE_SIZE_def PAGE_SHIFT_def pages_def add.commute)
  have up: "pages \<le> 2 ^ fls (pages - 1)" using fls_bounds(1) [of "pages - 1"] by linarith
  have low: "fls (pages - 1) \<noteq> 0 \<Longrightarrow> 2 ^ (fls (pages - 1) - 1) \<le> pages - 1"
    using fls_bounds(2) [of "pages - 1"] by (cases "pages - 1 = 0") auto
  have "fls (pages - 1) < 64"
  proof (rule ccontr)
    assume "\<not> ?thesis"
    then have "63 \<le> fls (pages - 1) - 1" and "fls (pages - 1) \<noteq> 0" by auto
    then have "2 ^ 63 \<le> (2 :: nat) ^ (fls (pages - 1) - 1)" and "fls (pages - 1) \<noteq> 0"
      using power_increasing [of 63 "fls (pages - 1) - 1" "2 :: nat"] by auto
    with low pages(2) assms(2) show False by (simp add: PAGE_SIZE_def)
  qed
  moreover have "2 ^ (fls (pages - 1) - 1) * 4096 < sz" if "fls (pages - 1) \<noteq> 0"
    using low [OF that] pages(1,2) by linarith
  moreover have "sz \<le> 2 ^ fls (pages - 1) * 4096" using up pages(3) by linarith
  ultimately show ?thesis unfolding eq by (simp add: PAGE_SIZE_def)
qed

text \<open>
  \<open>size_to_order\<close> returns the least order whose block of \<open>2^order\<close> pages holds \<open>size\<close> bytes,
  for every size from one byte up to the last page-sized step before \<open>size_t\<close> overflows.
\<close>

lemma size_to_order_least:
  assumes "0 < sz" and "sz + PAGE_SIZE < 2 ^ 64"
  shows "size_to_order sz < 64 \<and> sz \<le> 2 ^ size_to_order sz * PAGE_SIZE \<and>
    (size_to_order sz \<noteq> 0 \<longrightarrow> 2 ^ (size_to_order sz - 1) * PAGE_SIZE < sz)"
  using assms by (rule size_to_order_spec)

lemma size_to_order_least_example:
  "size_to_order 4097 = 1 \<and> 4097 \<le> 2 ^ size_to_order 4097 * PAGE_SIZE \<and>
    2 ^ (size_to_order 4097 - 1) * PAGE_SIZE < 4097"
proof -
  have "size_to_order 4097 = 1"
    by (simp add: size_to_order_def PAGE_SIZE_def PAGE_SHIFT_def fls_def fls_loop.simps)
  with size_to_order_least [of 4097] show ?thesis by (simp add: PAGE_SIZE_def)
qed

lemma size_to_order_pow: "order < 31 \<Longrightarrow> size_to_order (2 ^ order * PAGE_SIZE) = order"
proof -
  assume o: "order < 31"
  let ?r = "size_to_order (2 ^ order * PAGE_SIZE)"
  have "(2 :: nat) ^ order < 2 ^ 31" using o by (intro power_strict_increasing) auto
  then have b: "?r < 64" "(2 :: nat) ^ order \<le> 2 ^ ?r" "?r \<noteq> 0 \<longrightarrow> (2 :: nat) ^ (?r - 1) < 2 ^ order"
    using size_to_order_spec [of "2 ^ order * PAGE_SIZE"] by (auto simp: PAGE_SIZE_def)
  then have "order \<le> ?r" by (simp add: power_le_imp_le_exp)
  moreover have "?r \<le> order"
  proof (cases "?r = 0")
    case False
    then have "?r - 1 < order" using b(3) power_strict_increasing_iff [of 2] by simp
    then show ?thesis by simp
  qed simp
  ultimately show ?thesis by simp
qed

section \<open>Allocation and release\<close>

definition page_addr :: "nat \<Rightarrow> u64" where
  "page_addr p = of_nat (p * PAGE_SIZE)"

lemma unat_page_addr: "p < 2 ^ 52 \<Longrightarrow> unat (page_addr p) = p * PAGE_SIZE"
  by (simp add: page_addr_def PAGE_SIZE_def unsigned_of_nat take_bit_nat_eq_self del: of_nat_mult)

lemma page_addr_page: "p < 2 ^ 52 \<Longrightarrow> unat (drop_bit PAGE_SHIFT (page_addr p)) = p"
  by (simp add: drop_bit_eq_div unat_div unat_page_addr PAGE_SHIFT_def PAGE_SIZE_def)

lemma page_addr_not_error: "p < 2 ^ 51 \<Longrightarrow> page_addr p \<noteq> - 1"
proof
  assume p: "p < 2 ^ 51" and "page_addr p = - 1"
  then have "unat (- 1 :: u64) = p * PAGE_SIZE" using unat_page_addr [of p] by simp
  moreover have "p * PAGE_SIZE < 2 ^ 63" using p by (simp add: PAGE_SIZE_def)
  ultimately show False by (simp add: unsigned_minus_1_eq_mask mask_eq_exp_minus_1)
qed

lemma free_run_after_first_zero:
  assumes "bmp_size bmp < 2 ^ 31" and "0 < count"
    and "free_run bmp p count" and "p + count \<le> bmp_size bmp"
  shows "of_int32 (bitmap_find_first_zero bmp 0) \<le> p"
proof -
  have "\<not> bitmap_test bmp p" using assms(2,3) by (auto simp: free_run_def)
  moreover have "p < bmp_size bmp" using assms(2,4) by simp
  ultimately obtain z where z: "bitmap_find_first_zero bmp 0 = int z" "z < bmp_size bmp"
    "\<forall>k < z. bitmap_test bmp k"
    using bitmap_find_first_zero_least [OF assms(1), of 0] by (auto split: if_splits)
  with assms(1) \<open>\<not> bitmap_test bmp p\<close> show ?thesis by (auto simp: not_less [symmetric])
qed

text \<open>
  What a call of \<open>alloc_pages\<close> does: it returns; either no block of that many free pages exists
  and the result is the error value, or the first such block is marked and its address returned.
\<close>

lemma alloc_pages_spec:
  assumes "bmp_size bmp < 2 ^ 31" and "order < 64" and "2 ^ order \<le> bmp_size bmp"
  shows "\<exists>a bmp'. alloc_pages bmp order = Some (a, bmp') \<and>
    (if \<forall>p. p + 2 ^ order \<le> bmp_size bmp \<longrightarrow> \<not> free_run bmp p (2 ^ order)
     then a = - 1 \<and> bmp' = bmp
     else \<exists>p. a = page_addr p \<and> p + 2 ^ order \<le> bmp_size bmp \<and> free_run bmp p (2 ^ order) \<and>
       (\<forall>q < p. \<not> free_run bmp q (2 ^ order)) \<and> bmp_size bmp' = bmp_size bmp \<and>
       (\<forall>k. bitmap_test bmp' k \<longleftrightarrow> bitmap_test bmp k \<or> (p \<le> k \<and> k < p + 2 ^ order)))"
proof -
  let ?n = "2 ^ order :: nat" and ?z = "of_int32 (bitmap_find_first_zero bmp 0)"
  have after: "?z \<le> p" if "free_run bmp p ?n" "p + ?n \<le> bmp_size bmp" for p
    using free_run_after_first_zero [OF assms(1) _ that] by simp
  have none: "(\<forall>p. ?z \<le> p \<and> p + ?n \<le> bmp_size bmp \<longrightarrow> \<not> free_run bmp p ?n) \<longleftrightarrow>
      (\<forall>p. p + ?n \<le> bmp_size bmp \<longrightarrow> \<not> free_run bmp p ?n)"
    using after by blast
  have first: "(\<forall>q. ?z \<le> q \<and> q < p \<longrightarrow> \<not> free_run bmp q ?n) \<longleftrightarrow> (\<forall>q < p. \<not> free_run bmp q ?n)"
    if "p + ?n \<le> bmp_size bmp" for p
    using after that by (meson add_le_mono1 less_imp_le order_trans)
  obtain r bmp' where call: "bitmap_alloc_range bmp ?n ?z = Some (r, bmp')"
    and res: "if \<forall>p. ?z \<le> p \<and> p + ?n \<le> bmp_size bmp \<longrightarrow> \<not> free_run bmp p ?n
      then r = - 1 \<and> bmp' = bmp
      else \<exists>p. r = int p \<and> ?z \<le> p \<and> p + ?n \<le> bmp_size bmp \<and> free_run bmp p ?n \<and>
        (\<forall>q. ?z \<le> q \<and> q < p \<longrightarrow> \<not> free_run bmp q ?n) \<and> bmp_size bmp' = bmp_size bmp \<and>
        (\<forall>k. bitmap_test bmp' k \<longleftrightarrow> bitmap_test bmp k \<or> (p \<le> k \<and> k < p + ?n))"
    using bitmap_alloc_range_correct [of ?n bmp ?z] assms by auto
  show ?thesis
  proof (cases "\<forall>p. p + ?n \<le> bmp_size bmp \<longrightarrow> \<not> free_run bmp p ?n")
    case True
    with res none have "r = - 1" "bmp' = bmp" by auto
    with True call assms(2) show ?thesis by (simp add: alloc_pages_def)
  next
    case False
    with res none obtain p where p: "r = int p" "p + ?n \<le> bmp_size bmp" "free_run bmp p ?n"
      "\<forall>q. ?z \<le> q \<and> q < p \<longrightarrow> \<not> free_run bmp q ?n" "bmp_size bmp' = bmp_size bmp"
      "\<forall>k. bitmap_test bmp' k \<longleftrightarrow> bitmap_test bmp k \<or> (p \<le> k \<and> k < p + ?n)" by auto
    have "alloc_pages bmp order = Some (page_addr p, bmp')"
      using call p(1) assms(2) by (simp add: alloc_pages_def page_addr_def)
    with False p first [OF p(2)] show ?thesis by auto
  qed
qed

lemma alloc_pages_cases:
  assumes "bmp_size bmp < 2 ^ 31" and "order < 64" and "2 ^ order \<le> bmp_size bmp"
  obtains (fail) "alloc_pages bmp order = Some (- 1, bmp)"
      "\<forall>p. p + 2 ^ order \<le> bmp_size bmp \<longrightarrow> \<not> free_run bmp p (2 ^ order)"
    | (block) p bmp' where "alloc_pages bmp order = Some (page_addr p, bmp')"
      "p + 2 ^ order \<le> bmp_size bmp" "free_run bmp p (2 ^ order)"
      "\<forall>q < p. \<not> free_run bmp q (2 ^ order)" "bmp_size bmp' = bmp_size bmp"
      "\<forall>k. bitmap_test bmp' k \<longleftrightarrow> bitmap_test bmp k \<or> (p \<le> k \<and> k < p + 2 ^ order)"
proof (cases "\<forall>p. p + 2 ^ order \<le> bmp_size bmp \<longrightarrow> \<not> free_run bmp p (2 ^ order)")
  case True
  then have "alloc_pages bmp order = Some (- 1, bmp)"
    using alloc_pages_spec [OF assms] by simp
  then show ?thesis using True by (rule fail)
next
  case False
  then obtain p bmp' where "alloc_pages bmp order = Some (page_addr p, bmp')"
    "p + 2 ^ order \<le> bmp_size bmp" "free_run bmp p (2 ^ order)"
    "\<forall>q < p. \<not> free_run bmp q (2 ^ order)" "bmp_size bmp' = bmp_size bmp"
    "\<forall>k. bitmap_test bmp' k \<longleftrightarrow> bitmap_test bmp k \<or> (p \<le> k \<and> k < p + 2 ^ order)"
    using alloc_pages_spec [OF assms] unfolding if_not_P [OF False] by blast
  then show ?thesis by (rule block)
qed

text \<open>
  \<open>alloc_pages\<close> is first-fit and total on every order that fits in the managed memory: it
  returns the address of the lowest block of \<open>2^order\<close> free pages and marks exactly these pages,
  or, when there is no such block, the error value \<open>-1\<close> with the bitmap unchanged.
\<close>

lemma alloc_pages_first_fit:
  assumes "bmp_size bmp < 2 ^ 31" and "order < 64" and "2 ^ order \<le> bmp_size bmp"
  shows "\<exists>a bmp'. alloc_pages bmp order = Some (a, bmp') \<and>
    (if \<forall>p. p + 2 ^ order \<le> bmp_size bmp \<longrightarrow> \<not> free_run bmp p (2 ^ order)
     then a = - 1 \<and> bmp' = bmp
     else \<exists>p. a = page_addr p \<and> p + 2 ^ order \<le> bmp_size bmp \<and> free_run bmp p (2 ^ order) \<and>
       (\<forall>q < p. \<not> free_run bmp q (2 ^ order)) \<and> bmp_size bmp' = bmp_size bmp \<and>
       (\<forall>k. bitmap_test bmp' k \<longleftrightarrow> bitmap_test bmp k \<or> (p \<le> k \<and> k < p + 2 ^ order)))"
  using assms by (rule alloc_pages_spec)

lemma alloc_pages_first_fit_example:
  "\<exists>a bmp'. alloc_pages \<lparr>bmp_size = 8, bmp_map = (\<lambda>_. 5)\<rparr> 1 = Some (a, bmp')"
  using alloc_pages_first_fit [of "\<lparr>bmp_size = 8, bmp_map = (\<lambda>_. 5)\<rparr>" 1] by auto

lemma bitmap_test_free_pages:
  assumes "p < 2 ^ 52" and "order < 52"
  shows "bitmap_test (free_pages bmp (page_addr p) order) k \<longleftrightarrow>
    bitmap_test bmp k \<and> \<not> (p \<le> k \<and> k < p + 2 ^ order)"
proof -
  have "(2 :: nat) ^ order < 2 ^ 52" using assms(2) by (intro power_strict_increasing) auto
  then have "p + 2 ^ order \<le> 2 ^ 64" using assms(1) by simp
  then show ?thesis using assms
    by (simp add: free_pages_def page_addr_page bitmap_test_free_range)
qed

lemma bmp_size_free_pages [simp]: "bmp_size (free_pages bmp a order) = bmp_size bmp"
  by (simp add: free_pages_def)

text \<open>
  \<open>free_pages\<close> with the address and order of an allocation restores the set of used pages.
\<close>

lemma alloc_free_pages_roundtrip:
  assumes "bmp_size bmp < 2 ^ 31" and "order < 31" and "2 ^ order \<le> bmp_size bmp"
    and "alloc_pages bmp order = Some (a, bmp')" and "a \<noteq> - 1"
  shows "bitmap_test (free_pages bmp' a order) k \<longleftrightarrow> bitmap_test bmp k"
proof (rule alloc_pages_cases [OF assms(1) _ assms(3)])
  fix p bmp'' assume block: "alloc_pages bmp order = Some (page_addr p, bmp'')"
    "p + 2 ^ order \<le> bmp_size bmp" "free_run bmp p (2 ^ order)"
    "\<forall>k. bitmap_test bmp'' k \<longleftrightarrow> bitmap_test bmp k \<or> (p \<le> k \<and> k < p + 2 ^ order)"
  have "\<not> bitmap_test bmp k" if "p \<le> k" "k < p + 2 ^ order"
    using block(3) that unfolding free_run_def by (metis le_Suc_ex nat_add_left_cancel_less)
  then show ?thesis
    using block assms by (auto simp: bitmap_test_free_pages)
qed (use assms in auto)

lemma alloc_free_pages_roundtrip_example:
  "\<exists>a bmp'. alloc_pages \<lparr>bmp_size = 8, bmp_map = (\<lambda>_. 5)\<rparr> 1 = Some (a, bmp') \<and> a \<noteq> - 1 \<and>
    (\<forall>k. bitmap_test (free_pages bmp' a 1) k \<longleftrightarrow> bitmap_test \<lparr>bmp_size = 8, bmp_map = (\<lambda>_. 5)\<rparr> k)"
proof -
  let ?b = "\<lparr>bmp_size = 8, bmp_map = (\<lambda>_. 5)\<rparr> :: bitmap_t"
  have "free_run ?b 3 2" by (auto simp: free_run_def bitmap_test_def less_2_cases_iff)
  then obtain p bmp' where "alloc_pages ?b 1 = Some (page_addr p, bmp')" "p + 2 \<le> 8"
    by (rule_tac alloc_pages_cases [of ?b 1]) auto
  moreover from this(2) have "page_addr p \<noteq> - 1"
    by (intro page_addr_not_error) simp
  ultimately show ?thesis
    using alloc_free_pages_roundtrip [of ?b 1 "page_addr p" bmp'] by auto
qed

end
