(* ===== verification/CString.thy ===== *)
theory CString
  imports Prelude
begin

text \<open>
  The string library \<open>src/src/lib/string.c\<close>, on a memory of cells addressed by 64-bit pointers:
  bytes for the \<open>mem*\<close> and \<open>str*\<close> functions, 16-bit units for the \<open>wcs*\<close> functions. A pointer step
  is \<open>+ 1\<close> and wraps at the end of the address space. A loop that is bounded by a count is
  recursive on the count; a loop that is bounded only by a terminator may run forever and is a
  \<open>partial_function (option)\<close>. The byte and the wide functions run the same loops, which are
  defined once over cells of any width.

  The lemmas relate the functions to lists: \<open>cstr m p s\<close> says that the memory at \<open>p\<close> holds the
  terminated string \<open>s\<close>, and each function returns on such a string with the list operation it
  stands for; \<open>memmove\<close> is correct for overlapping regions, and \<open>strncpy\<close> writes one byte more
  than its count allows when the source is shorter than the count.
\<close>

type_synonym 'a cells = "u64 \<Rightarrow> 'a word"
type_synonym mem = "8 cells"

section \<open>Counted loops\<close>

primrec copy_up :: "'a cells \<Rightarrow> u64 \<Rightarrow> u64 \<Rightarrow> nat \<Rightarrow> 'a cells" where
  "copy_up m d s 0 = m"
| "copy_up m d s (Suc n) = copy_up (m(d := m s)) (d + 1) (s + 1) n"

primrec copy_down :: "'a cells \<Rightarrow> u64 \<Rightarrow> u64 \<Rightarrow> nat \<Rightarrow> 'a cells" where
  "copy_down m d s 0 = m"
| "copy_down m d s (Suc n) = copy_down (m(d - 1 := m (s - 1))) (d - 1) (s - 1) n"

primrec fill :: "'a cells \<Rightarrow> u64 \<Rightarrow> 'a word \<Rightarrow> nat \<Rightarrow> 'a cells" where
  "fill m p c 0 = m"
| "fill m p c (Suc n) = fill (m(p := c)) (p + 1) c n"

primrec cmp_count :: "('a :: len) cells \<Rightarrow> u64 \<Rightarrow> u64 \<Rightarrow> nat \<Rightarrow> int" where
  "cmp_count m a b 0 = 0"
| "cmp_count m a b (Suc n) =
     (if m a \<noteq> m b then uint (m a) - uint (m b) else cmp_count m (a + 1) (b + 1) n)"

primrec ncopy :: "('a :: len) cells \<Rightarrow> u64 \<Rightarrow> u64 \<Rightarrow> nat \<Rightarrow> 'a cells" where
  "ncopy m d s 0 = m"
| "ncopy m d s (Suc n) =
     (let m' = m(d := m s)
      in if m s \<noteq> 0 then ncopy m' (d + 1) (s + 1) n else fill m' (d + 1) 0 (Suc n))"

primrec ncmp :: "('a :: len) cells \<Rightarrow> u64 \<Rightarrow> u64 \<Rightarrow> nat \<Rightarrow> int" where
  "ncmp m a b 0 = 0"
| "ncmp m a b (Suc n) =
     (if m a \<noteq> 0 \<and> m a = m b then ncmp m (a + 1) (b + 1) n else uint (m a) - uint (m b))"

section \<open>Loops bounded by a terminator\<close>

partial_function (option) str_end :: "('a :: len) cells \<Rightarrow> u64 \<Rightarrow> u64 option" where
  "str_end m p = (if m p \<noteq> 0 then str_end m (p + 1) else Some p)"

partial_function (option) str_copy :: "('a :: len) cells \<Rightarrow> u64 \<Rightarrow> u64 \<Rightarrow> 'a cells option" where
  "str_copy m d s =
     (let c = m s; m' = m(d := c)
      in if c \<noteq> 0 then str_copy m' (d + 1) (s + 1) else Some m')"

partial_function (option) str_cmp :: "('a :: len) cells \<Rightarrow> u64 \<Rightarrow> u64 \<Rightarrow> int option" where
  "str_cmp m a b =
     (if m a \<noteq> 0 \<and> m a = m b then str_cmp m (a + 1) (b + 1)
      else Some (uint (m a) - uint (m b)))"

text \<open>The searches return the position found, or \<open>None\<close> inside \<open>Some\<close> for the null pointer.\<close>

partial_function (option) str_chr ::
  "('a :: len) cells \<Rightarrow> u64 \<Rightarrow> 'a word \<Rightarrow> u64 option option" where
  "str_chr m s c =
     (if m s \<noteq> 0 then (if m s = c then Some (Some s) else str_chr m (s + 1) c)
      else Some (if c = 0 then Some s else None))"

partial_function (option) str_rchr ::
  "('a :: len) cells \<Rightarrow> u64 \<Rightarrow> 'a word \<Rightarrow> u64 option \<Rightarrow> u64 option option" where
  "str_rchr m s c lst =
     (let lst' = (if m s = c then Some s else lst)
      in if m s \<noteq> 0 then str_rchr m (s + 1) c lst' else Some lst')"

section \<open>The byte functions\<close>

definition memcpy :: "mem \<Rightarrow> u64 \<Rightarrow> u64 \<Rightarrow> size_t \<Rightarrow> mem" where
  "memcpy m dest src n = copy_up m dest src n"

definition memset :: "mem \<Rightarrow> u64 \<Rightarrow> u8 \<Rightarrow> size_t \<Rightarrow> mem" where
  "memset m s c n = fill m s c n"

definition memmove :: "mem \<Rightarrow> u64 \<Rightarrow> u64 \<Rightarrow> size_t \<Rightarrow> mem" where
  "memmove m dest src n =
     (if dest < src then copy_up m dest src n
      else copy_down m (dest + of_nat n) (src + of_nat n) n)"

definition memcmp :: "mem \<Rightarrow> u64 \<Rightarrow> u64 \<Rightarrow> size_t \<Rightarrow> int" where
  "memcmp m s1 s2 n = cmp_count m s1 s2 n"

definition strlen :: "mem \<Rightarrow> u64 \<Rightarrow> size_t option" where
  "strlen m s = map_option (\<lambda>p. unat (p - s)) (str_end m s)"

definition strcpy :: "mem \<Rightarrow> u64 \<Rightarrow> u64 \<Rightarrow> mem option" where
  "strcpy m dest src = str_copy m dest src"

definition strncpy :: "mem \<Rightarrow> u64 \<Rightarrow> u64 \<Rightarrow> size_t \<Rightarrow> mem" where
  "strncpy m dest src n = ncopy m dest src n"

definition strcmp :: "mem \<Rightarrow> u64 \<Rightarrow> u64 \<Rightarrow> int option" where
  "strcmp m s1 s2 = str_cmp m s1 s2"

definition strncmp :: "mem \<Rightarrow> u64 \<Rightarrow> u64 \<Rightarrow> size_t \<Rightarrow> int" where
  "strncmp m s1 s2 n = ncmp m s1 s2 n"

definition strchr :: "mem \<Rightarrow> u64 \<Rightarrow> u8 \<Rightarrow> u64 option option" where
  "strchr m s c = str_chr m s c"

definition strrchr :: "mem \<Rightarrow> u64 \<Rightarrow> u8 \<Rightarrow> u64 option option" where
  "strrchr m s c = str_rchr m s c None"

section \<open>The wide functions\<close>

definition wcslen :: "16 cells \<Rightarrow> u64 \<Rightarrow> size_t option" where
  "wcslen m s = map_option (\<lambda>p. unat (p - s)) (str_end m s)"

definition wcscpy :: "16 cells \<Rightarrow> u64 \<Rightarrow> u64 \<Rightarrow> 16 cells option" where
  "wcscpy m dest src = str_copy m dest src"

definition wcsncpy :: "16 cells \<Rightarrow> u64 \<Rightarrow> u64 \<Rightarrow> size_t \<Rightarrow> 16 cells" where
  "wcsncpy m dest src n = ncopy m dest src n"

definition wcscmp :: "16 cells \<Rightarrow> u64 \<Rightarrow> u64 \<Rightarrow> int option" where
  "wcscmp m s1 s2 = str_cmp m s1 s2"

definition wcsncmp :: "16 cells \<Rightarrow> u64 \<Rightarrow> u64 \<Rightarrow> size_t \<Rightarrow> int" where
  "wcsncmp m s1 s2 n = ncmp m s1 s2 n"

definition wcschr :: "16 cells \<Rightarrow> u64 \<Rightarrow> u16 \<Rightarrow> u64 option option" where
  "wcschr m s c = str_chr m s c"

definition wcsrchr :: "16 cells \<Rightarrow> u64 \<Rightarrow> u16 \<Rightarrow> u64 option option" where
  "wcsrchr m s c = str_rchr m s c None"

text \<open>
  \<open>wcslcpy\<close>: the first loop copies at most \<open>size - 1\<close> units, the second counts what is left of the
  source.
\<close>

primrec lcopy :: "16 cells \<Rightarrow> u64 \<Rightarrow> u64 \<Rightarrow> nat \<Rightarrow> 16 cells \<times> u64 \<times> nat" where
  "lcopy m d s 0 = (m(d := 0), s, 0)"
| "lcopy m d s (Suc n) =
     (if m s \<noteq> 0
      then case lcopy (m(d := m s)) (d + 1) (s + 1) n of (m', s', len) \<Rightarrow> (m', s', Suc len)
      else (m(d := 0), s, 0))"

definition wcslcpy :: "16 cells \<Rightarrow> u64 \<Rightarrow> u64 \<Rightarrow> size_t \<Rightarrow> (size_t \<times> 16 cells) option" where
  "wcslcpy m dst src sz =
     (let (m', src', len) = (if sz \<noteq> 0 then lcopy m dst src (sz - 1) else (m, src, 0))
      in map_option (\<lambda>p. (len + unat (p - src'), m')) (str_end m' src'))"

definition wcscat :: "16 cells \<Rightarrow> u64 \<Rightarrow> u64 \<Rightarrow> 16 cells option" where
  "wcscat m dest src = do { p \<leftarrow> str_end m dest; str_copy m p src }"

section \<open>Strings in memory\<close>

primrec cstr :: "('a :: len) cells \<Rightarrow> u64 \<Rightarrow> 'a word list \<Rightarrow> bool" where
  "cstr m p [] \<longleftrightarrow> m p = 0"
| "cstr m p (c # cs) \<longleftrightarrow> c \<noteq> 0 \<and> m p = c \<and> cstr m (p + 1) cs"

definition region :: "u64 \<Rightarrow> nat \<Rightarrow> u64 set" where
  "region p n = (\<lambda>i. p + of_nat i) ` {..<n}"

lemma unat_ptr_add: "unat (p :: u64) + i < 2 ^ 64 \<Longrightarrow> unat (p + of_nat i) = unat p + i"
  by (simp add: unat_word_ariths unsigned_of_nat take_bit_nat_eq_self)

lemma ptr_add_inj: "i < 2 ^ 64 \<Longrightarrow> j < 2 ^ 64 \<Longrightarrow> (p :: u64) + of_nat i = p + of_nat j \<longleftrightarrow> i = j"
  by (simp add: of_nat_eq_iff word_of_nat_eq_iff take_bit_nat_eq_self)

lemma ptr_Suc: "(p :: u64) + of_nat (Suc i) = p + 1 + of_nat i"
  by simp

lemma region_Suc: "region p (Suc n) = insert p (region (p + 1) n)"
  by (auto simp: region_def lessThan_Suc_eq_insert_0 image_image algebra_simps)

lemma region_last: "region p (Suc n) = insert (p + of_nat n) (region p n)"
  by (auto simp: region_def lessThan_Suc)

lemma region_no_wrap: "p + of_nat i \<notin> region q n"
  if "unat p + i < unat q \<or> unat q + n \<le> unat p + i" "unat p + i < 2 ^ 64" "unat q + n \<le> 2 ^ 64"
proof
  assume "p + of_nat i \<in> region q n"
  then obtain j where "j < n" "p + of_nat i = q + of_nat j" by (auto simp: region_def)
  then have "unat p + i = unat q + j"
    using that unat_ptr_add [of p i] unat_ptr_add [of q j] by simp
  with that \<open>j < n\<close> show False by auto
qed

lemma region_disjoint:
  assumes "unat p + n \<le> unat q" and "unat q + k \<le> 2 ^ 64"
  shows "region p n \<inter> region q k = {}"
proof -
  have "p + of_nat i \<notin> region q k" if "i < n" for i
    using that assms by (intro region_no_wrap) auto
  then show ?thesis by (auto simp: region_def)
qed

lemma fill_spec: "fill m p c n a = (if a \<in> region p n then c else m a)"
  by (induction n arbitrary: m p) (auto simp: region_Suc, simp add: region_def)

lemma copy_up_frame: "a \<notin> region d n \<Longrightarrow> copy_up m d s n a = m a"
  by (induction n arbitrary: m d s) (auto simp: region_Suc)

lemma copy_down_frame: "a \<notin> region d n \<Longrightarrow> copy_down m (d + of_nat n) (s + of_nat n) n a = m a"
proof (induction n arbitrary: m)
  case (Suc n)
  have "d + of_nat (Suc n) - 1 = d + of_nat n" "s + of_nat (Suc n) - 1 = s + of_nat n" by simp_all
  with Suc show ?case by (simp add: region_last)
qed simp

lemma copy_up_copies:
  assumes "unat s + n \<le> 2 ^ 64" and "unat d + n \<le> 2 ^ 64" and "d < s \<or> region d n \<inter> region s n = {}"
    and "i < n"
  shows "copy_up m d s n (d + of_nat i) = m (s + of_nat i)"
  using assms
proof (induction n arbitrary: m d s i)
  case (Suc n)
  let ?m = "m(d := m s)"
  have d_out: "d \<notin> region (d + 1) n"
  proof (cases n)
    case (Suc k)
    then have "unat (d + 1) = unat d + 1" using Suc.prems(2) unat_ptr_add [of d 1] by simp
    then show ?thesis using region_no_wrap [of d 0 "d + 1" n] Suc.prems(2) by simp
  qed (simp add: region_def)
  have d_src: "d \<noteq> s + of_nat (Suc k)" if "k < n" for k
  proof (cases "d < s")
    case True
    have "unat (s + of_nat (Suc k)) = unat s + Suc k"
      using that Suc.prems(1) by (intro unat_ptr_add) simp
    then show ?thesis using True by (auto simp: word_less_nat_alt simp del: of_nat_Suc)
  next
    case False
    have "d \<in> region d (Suc n)" "s + of_nat (Suc k) \<in> region s (Suc n)"
      using that by (auto simp: region_Suc) (simp add: region_def algebra_simps)
    with Suc.prems(3) False show ?thesis by auto
  qed
  show ?case
  proof (cases i)
    case 0
    then show ?thesis using d_out by (simp add: copy_up_frame)
  next
    case (Suc k)
    with Suc.prems(4) have k: "k < n" by simp
    have "unat (s + 1) = unat s + 1" "unat (d + 1) = unat d + 1"
      using k Suc.prems(1,2) unat_ptr_add [of s 1] unat_ptr_add [of d 1] by auto
    moreover from this have "d + 1 < s + 1 \<or> region (d + 1) n \<inter> region (s + 1) n = {}"
      using Suc.prems(3) by (auto simp: region_Suc word_less_nat_alt)
    ultimately have "copy_up ?m (d + 1) (s + 1) n (d + 1 + of_nat k) = ?m (s + 1 + of_nat k)"
      using Suc.prems(1,2) k by (intro Suc.IH) auto
    then show ?thesis using d_src [OF k] Suc by (auto simp: algebra_simps)
  qed
qed simp

lemma copy_down_copies:
  assumes "unat d + n \<le> 2 ^ 64" and "unat s + n \<le> 2 ^ 64" and "s \<le> d" and "i < n"
  shows "copy_down m (d + of_nat n) (s + of_nat n) n (d + of_nat i) = m (s + of_nat i)"
  using assms
proof (induction n arbitrary: m i)
  case (Suc n)
  let ?m = "m(d + of_nat n := m (s + of_nat n))"
  have step: "copy_down m (d + of_nat (Suc n)) (s + of_nat (Suc n)) (Suc n) =
      copy_down ?m (d + of_nat n) (s + of_nat n) n"
    by simp
  show ?case
  proof (cases "i = n")
    case True
    have "d + of_nat n \<notin> region d n"
      using region_no_wrap [of d n d n] Suc.prems(1) by simp
    then show ?thesis unfolding step True by (simp add: copy_down_frame)
  next
    case False
    with Suc.prems have i: "i < n" by simp
    have "unat (s + of_nat i) = unat s + i" "unat (d + of_nat n) = unat d + n"
      using i Suc.prems by (auto intro!: unat_ptr_add)
    then have "s + of_nat i \<noteq> d + of_nat n"
      using i Suc.prems(3) by (auto simp: word_le_nat_alt)
    moreover have "copy_down ?m (d + of_nat n) (s + of_nat n) n (d + of_nat i) = ?m (s + of_nat i)"
      using i Suc.prems by (intro Suc.IH) auto
    ultimately show ?thesis unfolding step by simp
  qed
qed simp

text \<open>
  C5: \<open>memmove\<close> copies correctly whatever the overlap of the two regions: afterwards the
  destination holds the bytes the source held before the call, and every byte outside the
  destination is unchanged (for regions that do not wrap around the address space).
\<close>

theorem memmove_correct:
  assumes "unat dest + n \<le> 2 ^ 64" and "unat src + n \<le> 2 ^ 64"
  shows "(\<forall>i < n. memmove m dest src n (dest + of_nat i) = m (src + of_nat i)) \<and>
    (\<forall>a. a \<notin> region dest n \<longrightarrow> memmove m dest src n a = m a)"
proof (cases "dest < src")
  case True
  then show ?thesis using assms by (auto simp: memmove_def copy_up_copies copy_up_frame)
next
  case False
  then show ?thesis using assms by (auto simp: memmove_def copy_down_copies copy_down_frame)
qed

theorem memmove_correct_witness:
  "memmove (\<lambda>a. ucast a) 11 10 3 (11 + of_nat 2) = 12"
proof -
  have "unat (11 :: u64) + 3 \<le> 2 ^ 64" "unat (10 :: u64) + 3 \<le> 2 ^ 64" by simp_all
  from memmove_correct [OF this, of "\<lambda>a. ucast a"]
  have "\<forall>i < 3. memmove (\<lambda>a. ucast a) 11 10 3 (11 + of_nat i) = (ucast (10 + of_nat i :: u64) :: u8)"
    by blast
  then have "memmove (\<lambda>a. ucast a) 11 10 3 (11 + of_nat 2) = (ucast (10 + of_nat 2 :: u64) :: u8)"
    by (rule allE [of _ 2]) simp
  then show ?thesis by simp
qed

lemma memcpy_copies:
  assumes "unat dest + n \<le> 2 ^ 64" and "unat src + n \<le> 2 ^ 64"
    and "region dest n \<inter> region src n = {}" and "i < n"
  shows "memcpy m dest src n (dest + of_nat i) = m (src + of_nat i)"
  using assms by (simp add: memcpy_def copy_up_copies)

lemma memset_spec: "memset m p c n a = (if a \<in> region p n then c else m a)"
  by (simp add: memset_def fill_spec)

lemma cmp_count_zero_iff:
  "cmp_count m a b n = 0 \<longleftrightarrow> (\<forall>i < n. m (a + of_nat i) = m (b + of_nat i))"
proof (induction n arbitrary: a b)
  case (Suc n)
  have "(\<forall>i < Suc n. m (a + of_nat i) = m (b + of_nat i)) \<longleftrightarrow>
      m a = m b \<and> (\<forall>i < n. m (a + 1 + of_nat i) = m (b + 1 + of_nat i))"
    by (auto simp: less_Suc_eq_0_disj algebra_simps)
  with Suc.IH [of "a + 1" "b + 1"] show ?case by (simp add: word_uint_eq_iff)
qed simp

lemma memcmp_zero_iff: "memcmp m a b n = 0 \<longleftrightarrow> (\<forall>i < n. m (a + of_nat i) = m (b + of_nat i))"
  by (simp add: memcmp_def cmp_count_zero_iff)

section \<open>Terminated strings\<close>

lemma cstr_nth: "cstr m p s \<Longrightarrow> i < length s \<Longrightarrow> m (p + of_nat i) = s ! i \<and> s ! i \<noteq> 0"
proof (induction s arbitrary: p i)
  case (Cons c s)
  then show ?case by (cases i) (auto simp: add.assoc [symmetric])
qed simp

lemma cstr_end: "cstr m p s \<Longrightarrow> m (p + of_nat (length s)) = 0"
  by (induction s arbitrary: p) (auto simp: add.assoc [symmetric])

lemma cstr_length: "cstr m p s \<Longrightarrow> length s < 2 ^ 64"
proof (rule ccontr)
  assume s: "cstr m p s" and "\<not> length s < 2 ^ 64"
  then have "length s - 2 ^ 64 < length s" "(of_nat (length s - 2 ^ 64) :: u64) = of_nat (length s)"
    by (auto simp: word_of_nat_eq_iff take_bit_eq_mod le_mod_geq)
  with cstr_nth [OF s, of "length s - 2 ^ 64"] cstr_end [OF s] show False by simp
qed

lemma str_end_cstr: "cstr m p s \<Longrightarrow> str_end m p = Some (p + of_nat (length s))"
proof (induction s arbitrary: p)
  case Nil
  then show ?case by (simp add: str_end.simps)
next
  case (Cons c s)
  then show ?case by (subst str_end.simps) (simp add: algebra_simps)
qed

lemma strlen_cstr: "cstr m p s \<Longrightarrow> strlen m p = Some (length s)"
  using cstr_length [of m p s] by (simp add: strlen_def str_end_cstr unsigned_of_nat take_bit_nat_eq_self)

lemma wcslen_cstr: "cstr m p s \<Longrightarrow> wcslen m p = Some (length s)"
  using cstr_length [of m p s] by (simp add: wcslen_def str_end_cstr unsigned_of_nat take_bit_nat_eq_self)

primrec list_cmp :: "('a :: len) word list \<Rightarrow> 'a word list \<Rightarrow> int" where
  "list_cmp [] t = - (case t of [] \<Rightarrow> 0 | d # _ \<Rightarrow> uint d)"
| "list_cmp (c # s) t =
     (case t of [] \<Rightarrow> uint c | d # t' \<Rightarrow> if c = d then list_cmp s t' else uint c - uint d)"

lemma list_cmp_0_iff: "0 \<notin> set s \<Longrightarrow> 0 \<notin> set t \<Longrightarrow> list_cmp s t = 0 \<longleftrightarrow> s = t"
proof (induction s arbitrary: t)
  case Nil
  then show ?case by (cases t) (auto simp: uint_0_iff)
next
  case (Cons c s)
  then show ?case by (cases t) (auto simp: word_uint_eq_iff)
qed

lemma cstr_nonzero: "cstr m p s \<Longrightarrow> 0 \<notin> set s"
  by (induction s arbitrary: p) auto

lemma str_cmp_cstr: "cstr m a s \<Longrightarrow> cstr m b t \<Longrightarrow> str_cmp m a b = Some (list_cmp s t)"
proof (induction s arbitrary: a b t)
  case Nil
  then show ?case by (cases t) (auto simp: str_cmp.simps)
next
  case (Cons c s)
  then show ?case
    by (cases t; subst str_cmp.simps) auto
qed

text \<open>
  On terminated strings \<open>strcmp\<close> returns, and its result is zero exactly when the two strings
  are equal.
\<close>

lemma strcmp_correct:
  assumes "cstr m a s" and "cstr m b t"
  shows "\<exists>r. strcmp m a b = Some r \<and> (r = 0 \<longleftrightarrow> s = t)"
  using assms cstr_nonzero [OF assms(1)] cstr_nonzero [OF assms(2)]
  by (simp add: strcmp_def str_cmp_cstr list_cmp_0_iff)

lemma strcmp_correct_example:
  "\<exists>r. strcmp ((\<lambda>_. 0)(1 := 65, 2 := 66, 10 := 65)) 1 10 = Some r \<and> r \<noteq> 0"
  using strcmp_correct [of "(\<lambda>_. 0)(1 := 65, 2 := 66, 10 := 65)" 1 "[65, 66]" 10 "[65]"] by simp

lemma ncmp_cstr:
  "cstr m a s \<Longrightarrow> cstr m b t \<Longrightarrow> ncmp m a b n = 0 \<longleftrightarrow> take n s = take n t"
proof (induction n arbitrary: a b s t)
  case (Suc n)
  show ?case
  proof (cases s)
    case Nil
    with Suc.prems show ?thesis by (cases t) (auto simp: uint_0_iff)
  next
    case (Cons c s')
    with Suc.prems Suc.IH [of "a + 1" s' "b + 1"] show ?thesis
      by (cases t) (auto simp: word_uint_eq_iff)
  qed
qed simp

lemma strncmp_cstr: "cstr m a s \<Longrightarrow> cstr m b t \<Longrightarrow> strncmp m a b n = 0 \<longleftrightarrow> take n s = take n t"
  by (simp add: strncmp_def ncmp_cstr)

lemma cstr_upd: "a \<notin> region p (Suc (length s)) \<Longrightarrow> cstr (m(a := v)) p s \<longleftrightarrow> cstr m p s"
  by (induction s arbitrary: p) (auto simp: region_Suc)

lemma str_copy_cstr:
  assumes "cstr m s xs" and "region d (Suc (length xs)) \<inter> region s (Suc (length xs)) = {}"
  shows "str_copy m d s = Some (copy_up m d s (Suc (length xs)))"
  using assms
proof (induction xs arbitrary: m d s)
  case Nil
  then show ?case by (subst str_copy.simps) simp
next
  case (Cons c xs)
  let ?m = "m(d := c)"
  have "d \<notin> region (s + 1) (Suc (length xs))" using Cons.prems(2) by (auto simp: region_Suc)
  then have "cstr ?m (s + 1) xs" using Cons.prems(1) by (subst cstr_upd) auto
  moreover have "region (d + 1) (Suc (length xs)) \<inter> region (s + 1) (Suc (length xs)) = {}"
    using Cons.prems(2) by (auto simp: region_Suc)
  ultimately have "str_copy ?m (d + 1) (s + 1) = Some (copy_up ?m (d + 1) (s + 1) (Suc (length xs)))"
    by (rule Cons.IH)
  then show ?case using Cons.prems(1) by (subst str_copy.simps) simp
qed

lemma cstr_copy_up:
  assumes "cstr m s xs" and "unat s + Suc (length xs) \<le> 2 ^ 64" and "unat d + Suc (length xs) \<le> 2 ^ 64"
    and "region d (Suc (length xs)) \<inter> region s (Suc (length xs)) = {}"
  shows "cstr (copy_up m d s (Suc (length xs))) d xs"
proof -
  have cells: "copy_up m d s (Suc (length xs)) (d + of_nat i) = m (s + of_nat i)"
    if "i < Suc (length xs)" for i
    using assms that by (intro copy_up_copies) auto
  have "cstr m' q ys" if "\<And>i. i < length ys \<Longrightarrow> m' (q + of_nat i) = ys ! i" "0 \<notin> set ys"
    "m' (q + of_nat (length ys)) = 0" for m' :: "'a cells" and q ys
    using that
  proof (induction ys arbitrary: q)
    case (Cons y ys)
    have "m' q = y" using Cons.prems(1) [of 0] by simp
    moreover have "cstr m' (q + 1) ys"
      using Cons.prems(1) [of "Suc _"] Cons.prems(2,3)
      by (intro Cons.IH) (auto simp: add.assoc)
    ultimately show ?case using Cons.prems(2) by auto
  qed simp
  then show ?thesis
    using cells cstr_nth [OF assms(1)] cstr_end [OF assms(1)] cstr_nonzero [OF assms(1)]
    by (auto simp: less_Suc_eq)
qed

text \<open>
  Copying a terminated string to a disjoint buffer of sufficient size terminates; the buffer
  then holds the same string, and no byte outside its first \<open>strlen + 1\<close> bytes has changed.
\<close>

lemma strcpy_correct:
  assumes "cstr m src xs" and "unat src + Suc (length xs) \<le> 2 ^ 64"
    and "unat dest + Suc (length xs) \<le> 2 ^ 64"
    and "region dest (Suc (length xs)) \<inter> region src (Suc (length xs)) = {}"
  shows "\<exists>m'. strcpy m dest src = Some m' \<and> cstr m' dest xs \<and>
    (\<forall>a. a \<notin> region dest (Suc (length xs)) \<longrightarrow> m' a = m a)"
  using assms by (auto simp: strcpy_def str_copy_cstr cstr_copy_up copy_up_frame simp del: copy_up.simps)

lemma strcpy_correct_example:
  "\<exists>m'. strcpy ((\<lambda>_. 0)(1 := 65, 2 := 66)) 100 1 = Some m' \<and> cstr m' 100 [65, 66]"
proof -
  let ?m = "(\<lambda>_. 0)(1 := 65, 2 := 66) :: mem"
  have "region 100 3 \<inter> region 1 3 = ({} :: u64 set)"
    using region_disjoint [of 1 3 100 3] by (simp add: Int_commute)
  then show ?thesis
    using strcpy_correct [of ?m 1 "[65, 66]" 100] by (auto simp: numeral_3_eq_3)
qed

text \<open>
  \<open>strncpy\<close> overruns its buffer by one byte: when the source string is shorter than the count
  \<open>n\<close>, the byte at offset \<open>n\<close> (the first one after the buffer of \<open>n\<close> bytes) is overwritten with
  zero, whatever it held before. The terminator is copied without decrementing the count, and
  the padding loop then writes one byte too many.
\<close>

lemma strncpy_overrun:
  assumes "cstr m src xs" and "length xs < n" and "region dest n \<inter> region src (Suc (length xs)) = {}"
  shows "strncpy m dest src n (dest + of_nat n) = 0"
proof -
  have "ncopy m d s n (d + of_nat n) = 0"
    if "cstr m s xs" "length xs < n" "region d n \<inter> region s (Suc (length xs)) = {}" for m d s n
    using that
  proof (induction xs arbitrary: m d s n)
    case Nil
    then obtain k where "n = Suc k" by (cases n) auto
    then have "d + of_nat n \<in> region (d + 1) n"
      unfolding region_def by (intro image_eqI [of _ _ k]) auto
    with Nil \<open>n = Suc k\<close> show ?case by (simp add: fill_spec del: fill.simps)
  next
    case (Cons c xs)
    then obtain k where k: "n = Suc k" by (cases n) auto
    have "d \<notin> region (s + 1) (Suc (length xs))"
      using Cons.prems(3) k by (auto simp: region_Suc)
    then have "cstr (m(d := c)) (s + 1) xs" using Cons.prems(1) by (subst cstr_upd) auto
    moreover have "length xs < k" using Cons.prems(2) k by simp
    moreover have "region (d + 1) k \<inter> region (s + 1) (Suc (length xs)) = {}"
      using Cons.prems(3) k by (auto simp: region_Suc)
    ultimately have "ncopy (m(d := c)) (d + 1) (s + 1) k (d + 1 + of_nat k) = 0"
      by (rule Cons.IH)
    then show ?case using Cons.prems(1) k by (simp add: add.assoc)
  qed
  with assms show ?thesis by (simp add: strncpy_def)
qed

lemma strncpy_overrun_example:
  "strncpy ((\<lambda>_. 255)(1 := 65, 2 := 0)) 100 1 4 (100 + of_nat 4) = 0"
proof -
  let ?m = "(\<lambda>_. 255)(1 := 65, 2 := 0) :: mem"
  have "region 100 4 \<inter> region 1 (Suc (length [65 :: u8])) = ({} :: u64 set)"
    using region_disjoint [of 1 "Suc (length [65 :: u8])" 100 4] by (simp add: Int_commute)
  then show ?thesis using strncpy_overrun [of ?m 1 "[65]" 4 100] by simp
qed

lemma str_chr_cstr:
  "cstr m p s \<Longrightarrow> c \<noteq> 0 \<Longrightarrow> str_chr m p c =
    Some (if c \<in> set s then Some (p + of_nat (length (takeWhile (\<lambda>x. x \<noteq> c) s))) else None)"
proof (induction s arbitrary: p)
  case Nil
  then show ?case by (subst str_chr.simps) simp
next
  case (Cons x s)
  then show ?case by (subst str_chr.simps) (auto simp: add.assoc)
qed

lemma strchr_cstr:
  "cstr m p s \<Longrightarrow> c \<noteq> 0 \<Longrightarrow> strchr m p c =
    Some (if c \<in> set s then Some (p + of_nat (length (takeWhile (\<lambda>x. x \<noteq> c) s))) else None)"
  by (simp add: strchr_def str_chr_cstr)

text \<open>The offset of the last occurrence, as \<open>strrchr\<close> finds it.\<close>

definition rindex :: "'a \<Rightarrow> 'a list \<Rightarrow> nat" where
  "rindex c s = length s - Suc (length (takeWhile (\<lambda>x. x \<noteq> c) (rev s)))"

lemma length_takeWhile_neq: "c \<in> set s \<Longrightarrow> length (takeWhile (\<lambda>x. x \<noteq> c) s) < length s"
  by (induction s) auto

lemma takeWhile_rev_snoc:
  "takeWhile (\<lambda>x. x \<noteq> c) (rev (x # s)) =
    (if c \<in> set s then takeWhile (\<lambda>x. x \<noteq> c) (rev s) else if x = c then rev s else rev s @ [x])"
  by (auto simp: takeWhile_append)

lemma rindex_Cons:
  "rindex c (x # s) = (if c \<in> set s then Suc (rindex c s) else 0)" if "c \<in> set (x # s)"
proof (cases "c \<in> set s")
  case True
  then have "length (takeWhile (\<lambda>x. x \<noteq> c) (rev s)) < length s"
    using length_takeWhile_neq [of c "rev s"] by simp
  with True show ?thesis unfolding rindex_def takeWhile_rev_snoc by auto
next
  case False
  with that show ?thesis unfolding rindex_def takeWhile_rev_snoc by auto
qed

lemma str_rchr_cstr:
  "cstr m p s \<Longrightarrow> c \<noteq> 0 \<Longrightarrow> str_rchr m p c lst =
    Some (if c \<in> set s then Some (p + of_nat (rindex c s)) else lst)"
proof (induction s arbitrary: p lst)
  case Nil
  then show ?case by (subst str_rchr.simps) simp
next
  case (Cons x s)
  then show ?case by (subst str_rchr.simps) (auto simp: rindex_Cons add.assoc)
qed

lemma strrchr_cstr:
  "cstr m p s \<Longrightarrow> c \<noteq> 0 \<Longrightarrow> strrchr m p c =
    Some (if c \<in> set s then Some (p + of_nat (rindex c s)) else None)"
  by (simp add: strrchr_def str_rchr_cstr)

end
