(* ===== verification/Sync.thy ===== *)
theory Sync
  imports Prelude
begin

text \<open>
  The atomic operations of \<open>src/src/atomic.c\<close> and the spinlock of \<open>src/src/spinlock.c\<close>. An
  operation is a function of the 64-bit cell it works on and returns its result and the new
  cell. \<open>atomic_compare_exchange\<close> sets only the low byte of its \<open>int\<close> result (\<open>setz %b0\<close>), so the
  other three bytes are what the register held before: the parameter \<open>reg\<close>.

  Run alone, a spin on a held lock does not end, which is \<open>None\<close>. The relation \<open>spin_step\<close> is
  the interleaving of any number of processors that run \<open>spinlock_lock\<close> and \<open>spinlock_unlock\<close> on one
  lock, one compare-and-swap or store per step; its invariant gives mutual exclusion.
\<close>

section \<open>Atomic operations\<close>

definition atomic_load :: "u64 \<Rightarrow> u64" where
  "atomic_load v = v"

definition atomic_store :: "u64 \<Rightarrow> u64 \<Rightarrow> u64" where
  "atomic_store v val = val"

definition atomic_compare_exchange :: "u32 \<Rightarrow> u64 \<Rightarrow> u64 \<Rightarrow> u64 \<Rightarrow> u32 \<times> u64 \<times> u64" where
  "atomic_compare_exchange reg v expected desired =
     (let zf = (v = expected);
          success = (reg AND NOT 0xFF) OR (if zf then 1 else 0)
      in if zf then (success, desired, expected) else (success, v, v))"

definition atomic_fetch_add :: "u64 \<Rightarrow> u64 \<Rightarrow> u64 \<times> u64" where
  "atomic_fetch_add v val = (v, v + val)"

definition atomic_fetch_sub :: "u64 \<Rightarrow> u64 \<Rightarrow> u64 \<times> u64" where
  "atomic_fetch_sub v val = atomic_fetch_add v (- val)"

text \<open>The two read-modify-write loops retry until the compare-and-swap reports success.\<close>

partial_function (option) atomic_fetch_or :: "u32 \<Rightarrow> u64 \<Rightarrow> u64 \<Rightarrow> (u64 \<times> u64) option" where
  "atomic_fetch_or reg v val =
     (let old_val = atomic_load v; new_val = old_val OR val;
          (success, v', old_val') = atomic_compare_exchange reg v old_val new_val
      in if success \<noteq> 0 then Some (old_val', v') else atomic_fetch_or reg v' val)"

partial_function (option) atomic_fetch_and :: "u32 \<Rightarrow> u64 \<Rightarrow> u64 \<Rightarrow> (u64 \<times> u64) option" where
  "atomic_fetch_and reg v val =
     (let old_val = atomic_load v; new_val = old_val AND val;
          (success, v', old_val') = atomic_compare_exchange reg v old_val new_val
      in if success \<noteq> 0 then Some (old_val', v') else atomic_fetch_and reg v' val)"

definition atomic_exchange :: "u64 \<Rightarrow> u64 \<Rightarrow> u64 \<times> u64" where
  "atomic_exchange v val = (v, val)"

section \<open>Spinlock\<close>

definition spinlock_init :: "u64 \<Rightarrow> u64" where
  "spinlock_init lock = atomic_store lock 0"

partial_function (option) spinlock_lock :: "u32 \<Rightarrow> u64 \<Rightarrow> u64 option" where
  "spinlock_lock reg lock =
     (let expected = 0;
          (success, lock', expected') = atomic_compare_exchange reg lock expected 1
      in if success \<noteq> 0 then Some lock' else spinlock_lock reg lock')"

definition spinlock_unlock :: "u64 \<Rightarrow> u64" where
  "spinlock_unlock lock = atomic_store lock 0"

definition spinlock_trylock :: "u32 \<Rightarrow> u64 \<Rightarrow> int \<times> u64" where
  "spinlock_trylock reg lock =
     (let expected = 0;
          (success, lock', expected') = atomic_compare_exchange reg lock expected 1
      in if success \<noteq> 0 then (1, lock') else (0, lock'))"

section \<open>Sequential behaviour\<close>

lemma minus_256: "(- 256 :: u32) = NOT (mask 8)"
  by (simp add: mask_eq_exp_minus_1)

lemma low_byte_clear: "unat (reg :: u32) < 256 \<Longrightarrow> reg AND - 256 = 0"
  using small_word_bits [of reg 8]
  by (auto simp: minus_256 zero_word_bits bit_and_iff bit_not_iff bit_mask_iff)

lemma or_1_nonzero: "(w :: u32) OR 1 \<noteq> 0"
proof
  assume "w OR 1 = 0"
  then have "bit (w OR 1) 0 = bit (0 :: u32) 0" by simp
  then show False by (simp add: bit_or_iff)
qed

lemma cas_clean:
  "unat reg < 256 \<Longrightarrow> atomic_compare_exchange reg v expected desired =
    (if v = expected then (1, desired, expected) else (0, v, v))"
  by (simp add: atomic_compare_exchange_def low_byte_clear Let_def)

lemma spinlock_lock_free: "spinlock_lock reg 0 = Some 1"
  by (subst spinlock_lock.simps) (simp add: atomic_compare_exchange_def Let_def or_1_nonzero)

lemma spinlock_lock_held:
  assumes "unat reg < 256" and "lock \<noteq> 0"
  shows "spinlock_lock reg lock = None"
proof (rule ccontr)
  assume "spinlock_lock reg lock \<noteq> None"
  then obtain r where r: "spinlock_lock reg lock = Some r" by auto
  have "lock \<noteq> 0 \<longrightarrow> unat reg < 256 \<longrightarrow> False"
    by (rule spinlock_lock.raw_induct
        [where P = "\<lambda>reg lock r. lock \<noteq> 0 \<longrightarrow> unat reg < 256 \<longrightarrow> False", OF _ r])
      (auto simp: cas_clean Let_def split: if_splits)
  with assms show False by simp
qed

lemma spinlock_lock_Some:
  "unat reg < 256 \<Longrightarrow> spinlock_lock reg lock = Some lock' \<longleftrightarrow> lock = 0 \<and> lock' = 1"
  by (cases "lock = 0") (auto simp: spinlock_lock_free spinlock_lock_held)

lemma spinlock_trylock_clean:
  "unat reg < 256 \<Longrightarrow> spinlock_trylock reg lock = (if lock = 0 then (1, 1) else (0, lock))"
  by (simp add: spinlock_trylock_def cas_clean)

lemma atomic_fetch_or_result: "atomic_fetch_or reg v val = Some (v, v OR val)"
  by (subst atomic_fetch_or.simps)
    (simp add: atomic_load_def atomic_compare_exchange_def Let_def or_1_nonzero)

lemma atomic_fetch_and_result: "atomic_fetch_and reg v val = Some (v, v AND val)"
  by (subst atomic_fetch_and.simps)
    (simp add: atomic_load_def atomic_compare_exchange_def Let_def or_1_nonzero)

lemma atomic_fetch_sub_result: "atomic_fetch_sub v val = (v, v - val)"
  by (simp add: atomic_fetch_sub_def atomic_fetch_add_def)

text \<open>
  Only the low byte of the result register is written by \<open>atomic_compare_exchange\<close>. If the
  register held a value of 256 or more before, a failed exchange reports success, and
  \<open>spinlock_lock\<close> and \<open>spinlock_trylock\<close> then return as if they had taken a lock that is held.
\<close>

lemma stale_register_takes_held_lock:
  "atomic_compare_exchange 0x100 1 0 1 = (0x100, 1, 1) \<and>
    spinlock_lock 0x100 1 = Some 1 \<and> spinlock_trylock 0x100 1 = (1, 1)"
proof -
  have cas: "atomic_compare_exchange 0x100 1 0 1 = (0x100, 1, 1)"
    by (simp add: atomic_compare_exchange_def)
  then have "spinlock_lock 0x100 1 = Some 1"
    by (subst spinlock_lock.simps) simp
  with cas show ?thesis by (simp add: spinlock_trylock_def)
qed

section \<open>Interleaving\<close>

datatype phase = Outside | Spinning | Critical

record spin_sys =
  lock_cell :: u64
  cpu_phase :: "nat \<Rightarrow> phase"

definition spin_init :: "u64 \<Rightarrow> spin_sys" where
  "spin_init l = \<lparr>lock_cell = spinlock_init l, cpu_phase = (\<lambda>_. Outside)\<rparr>"

inductive spin_step :: "spin_sys \<Rightarrow> spin_sys \<Rightarrow> bool" where
  enter: "cpu_phase s i = Outside \<Longrightarrow>
     spin_step s (s\<lparr>cpu_phase := (cpu_phase s)(i := Spinning)\<rparr>)"
| attempt: "cpu_phase s i = Spinning \<Longrightarrow> unat reg < 256 \<Longrightarrow>
     atomic_compare_exchange reg (lock_cell s) 0 1 = (success, lock', expected') \<Longrightarrow>
     spin_step s (s\<lparr>lock_cell := lock',
       cpu_phase := (cpu_phase s)(i := if success \<noteq> 0 then Critical else Spinning)\<rparr>)"
| trylock: "cpu_phase s i = Outside \<Longrightarrow> unat reg < 256 \<Longrightarrow>
     spinlock_trylock reg (lock_cell s) = (ret, lock') \<Longrightarrow>
     spin_step s (s\<lparr>lock_cell := lock',
       cpu_phase := (cpu_phase s)(i := if ret = 1 then Critical else Outside)\<rparr>)"
| release: "cpu_phase s i = Critical \<Longrightarrow>
     spin_step s (s\<lparr>lock_cell := spinlock_unlock (lock_cell s),
       cpu_phase := (cpu_phase s)(i := Outside)\<rparr>)"

inductive spin_reachable :: "spin_sys \<Rightarrow> bool" where
  start: "spin_reachable (spin_init l)"
| step: "spin_reachable s \<Longrightarrow> spin_step s t \<Longrightarrow> spin_reachable t"

definition spin_inv :: "spin_sys \<Rightarrow> bool" where
  "spin_inv s \<longleftrightarrow> (lock_cell s = 0 \<and> (\<forall>i. cpu_phase s i \<noteq> Critical)) \<or>
     (lock_cell s = 1 \<and> (\<exists>i. \<forall>j. cpu_phase s j = Critical \<longleftrightarrow> j = i))"

lemma spin_inv_init: "spin_inv (spin_init l)"
  by (simp add: spin_inv_def spin_init_def spinlock_init_def atomic_store_def)

lemma spin_inv_move:
  assumes "spin_inv s" and "cpu_phase s i \<noteq> Critical" and "p \<noteq> Critical"
  shows "spin_inv (s\<lparr>cpu_phase := (cpu_phase s)(i := p)\<rparr>)"
proof -
  have "(((cpu_phase s)(i := p)) j = Critical) = (cpu_phase s j = Critical)" for j
    using assms by simp
  then show ?thesis using assms by (simp add: spin_inv_def)
qed

lemma spin_inv_acquire:
  assumes "spin_inv s" and "lock_cell s = 0"
  shows "spin_inv (s\<lparr>lock_cell := 1, cpu_phase := (cpu_phase s)(i := Critical)\<rparr>)"
  using assms by (auto simp: spin_inv_def)

lemma spin_inv_step: "spin_step s t \<Longrightarrow> spin_inv s \<Longrightarrow> spin_inv t"
proof (induction rule: spin_step.induct)
  case (enter s i)
  then show ?case by (simp add: spin_inv_move)
next
  case (attempt s i reg success lock' expected')
  then show ?case
    using spin_inv_move [of s i Spinning] spin_inv_acquire [of s i]
    by (cases "lock_cell s = 0") (auto simp: cas_clean)
next
  case (trylock s i reg ret lock')
  then show ?case
    using spin_inv_move [of s i Outside] spin_inv_acquire [of s i]
    by (cases "lock_cell s = 0") (auto simp: spinlock_trylock_clean)
next
  case (release s i)
  then show ?case by (fastforce simp: spin_inv_def spinlock_unlock_def atomic_store_def)
qed

lemma spin_reachable_inv: "spin_reachable s \<Longrightarrow> spin_inv s"
  by (induction rule: spin_reachable.induct) (auto intro: spin_inv_init spin_inv_step)



text \<open>No processor waits for a free lock: its next attempt succeeds.\<close>

lemma spinning_enters:
  assumes "spin_reachable s" and "cpu_phase s i = Spinning" and "\<forall>k. cpu_phase s k \<noteq> Critical"
  shows "\<exists>t. spin_step s t \<and> cpu_phase t i = Critical"
proof -
  have "lock_cell s = 0" using spin_reachable_inv [OF assms(1)] assms(3) by (auto simp: spin_inv_def)
  then have "atomic_compare_exchange 0 (lock_cell s) 0 1 = (1, 1, 0)" by (simp add: cas_clean)
  from spin_step.attempt [OF assms(2) _ this] show ?thesis by (auto intro!: exI)
qed

end
