(* ===== verification/IntrusiveList.thy ===== *)
theory IntrusiveList
  imports Prelude
begin

text \<open>
  The circular doubly linked lists of \<open>src/src/list.c\<close> and \<open>src/inc/list.h\<close>. The heap holds the two
  pointer fields of every \<open>struct list_head\<close>, by the address of the node; each operation performs the
  pointer writes of the source in their order, so that the aliasing of an empty list (its head is its own
  neighbour) is the aliasing of the code. \<open>dlist h l xs\<close> says that the list headed at \<open>l\<close> has exactly the
  nodes \<open>xs\<close>, in that order, and is closed in both directions; every operation is related to the
  operation on \<open>xs\<close>, and leaves every list it shares no node with unchanged.
\<close>

record list_heap =
  nxt :: "u64 \<Rightarrow> u64"
  prv :: "u64 \<Rightarrow> u64"

section \<open>Operations\<close>

definition set_next :: "u64 \<Rightarrow> u64 \<Rightarrow> list_heap \<Rightarrow> list_heap" where
  "set_next p v h = h\<lparr>nxt := (nxt h)(p := v)\<rparr>"

definition set_prev :: "u64 \<Rightarrow> u64 \<Rightarrow> list_heap \<Rightarrow> list_heap" where
  "set_prev p v h = h\<lparr>prv := (prv h)(p := v)\<rparr>"

definition INIT_LIST_HEAD :: "u64 \<Rightarrow> list_heap \<Rightarrow> list_heap" where
  "INIT_LIST_HEAD l h = set_next l l (set_prev l l h)"

definition list_add :: "u64 \<Rightarrow> u64 \<Rightarrow> list_heap \<Rightarrow> list_heap" where
  "list_add new_node head h =
     (let h = set_next new_node (nxt h head) h;
          h = set_prev new_node head h;
          h = set_prev (nxt h head) new_node h
      in set_next head new_node h)"

definition list_add_tail :: "u64 \<Rightarrow> u64 \<Rightarrow> list_heap \<Rightarrow> list_heap" where
  "list_add_tail new_node head h =
     (let prev = prv h head;
          h = set_next new_node head h;
          h = set_prev new_node prev h;
          h = set_next prev new_node h
      in set_prev head new_node h)"

definition list_del :: "u64 \<Rightarrow> list_heap \<Rightarrow> list_heap" where
  "list_del entry h =
     (let h = set_prev (nxt h entry) (prv h entry) h
      in set_next (prv h entry) (nxt h entry) h)"

definition list_empty :: "u64 \<Rightarrow> list_heap \<Rightarrow> bool" where
  "list_empty head h \<longleftrightarrow> nxt h head = head"

text \<open>
  The traversal \<open>list_for_each (pos, head)\<close>: the nodes visited, or \<open>None\<close> if the chain never comes
  back to the head. \<open>list_for_each_entry_safe\<close> with a body that stops at the first hit is \<open>list_find\<close>.
\<close>

partial_function (option) list_walk :: "list_heap \<Rightarrow> u64 \<Rightarrow> u64 \<Rightarrow> u64 list option" where
  "list_walk h head pos =
     (if pos = head then Some []
      else do { rest \<leftarrow> list_walk h head (nxt h pos); Some (pos # rest) })"

definition list_for_each :: "list_heap \<Rightarrow> u64 \<Rightarrow> u64 list option" where
  "list_for_each h head = list_walk h head (nxt h head)"

partial_function (option) list_find :: "(u64 \<Rightarrow> bool) \<Rightarrow> list_heap \<Rightarrow> u64 \<Rightarrow> u64 \<Rightarrow> u64 option option" where
  "list_find P h head pos =
     (if pos = head then Some None
      else if P pos then Some (Some pos)
      else list_find P h head (nxt h pos))"

section \<open>Representation\<close>

fun links :: "list_heap \<Rightarrow> u64 list \<Rightarrow> bool" where
  "links h (a # b # r) \<longleftrightarrow> nxt h a = b \<and> prv h b = a \<and> links h (b # r)"
| "links h _ \<longleftrightarrow> True"

definition dlist :: "list_heap \<Rightarrow> u64 \<Rightarrow> u64 list \<Rightarrow> bool" where
  "dlist h head xs \<longleftrightarrow> distinct (head # xs) \<and> links h (head # xs @ [head])"

lemma field_simps_list [simp]:
  "nxt (set_next p v h) = (nxt h)(p := v)" "prv (set_next p v h) = prv h"
  "nxt (set_prev p v h) = nxt h" "prv (set_prev p v h) = (prv h)(p := v)"
  by (simp_all add: set_next_def set_prev_def)

lemma links_append: "links h (xs @ a # ys) \<longleftrightarrow> links h (xs @ [a]) \<and> links h (a # ys)"
proof (induction xs)
  case (Cons x xs)
  then show ?case by (cases xs) auto
qed simp

lemma links_cong:
  assumes "\<And>a. a \<in> set (butlast xs) \<Longrightarrow> nxt h' a = nxt h a"
    and "\<And>a. a \<in> set (tl xs) \<Longrightarrow> prv h' a = prv h a"
  shows "links h' xs = links h xs"
  using assms
proof (induction h xs rule: links.induct)
  case (1 h a b r)
  have "links h' (b # r) = links h (b # r)"
    by (rule 1(1)) (use 1(2,3) in \<open>auto dest: in_set_butlastD list.set_sel(2) split: if_splits\<close>)
  then show ?case using 1(2,3) by simp
qed simp_all

lemma links_next: "links h (a # xs @ [b]) \<Longrightarrow> nxt h a = hd (xs @ [b])"
  by (cases xs) auto

lemma links_prev: "links h (a # xs @ [b]) \<Longrightarrow> prv h b = last (a # xs)"
proof (induction xs arbitrary: a)
  case (Cons x xs)
  then show ?case by auto
qed simp

lemma dlist_next: "dlist h l xs \<Longrightarrow> nxt h l = hd (xs @ [l])"
  by (simp add: dlist_def links_next)

lemma dlist_prev: "dlist h l xs \<Longrightarrow> prv h l = last (l # xs)"
  using links_prev [of h l xs l] by (simp add: dlist_def)

lemma dlist_distinct: "dlist h l xs \<Longrightarrow> distinct xs \<and> l \<notin> set xs"
  by (simp add: dlist_def)

text \<open>Nodes outside a list may change freely.\<close>

lemma dlist_frame:
  assumes "dlist h l xs"
    and "\<And>a. a \<in> insert l (set xs) \<Longrightarrow> nxt h' a = nxt h a"
    and "\<And>a. a \<in> insert l (set xs) \<Longrightarrow> prv h' a = prv h a"
  shows "dlist h' l xs"
proof -
  have "links h' (l # xs @ [l]) = links h (l # xs @ [l])"
    by (rule links_cong) (use assms(2,3) in \<open>auto simp: butlast_append\<close>)
  with assms(1) show ?thesis by (simp add: dlist_def)
qed

section \<open>Refinement of the list operations\<close>

lemma dlist_init [intro]: "dlist (INIT_LIST_HEAD l h) l []"
  by (simp add: dlist_def INIT_LIST_HEAD_def)

lemma list_empty_iff: "dlist h l xs \<Longrightarrow> list_empty l h \<longleftrightarrow> xs = []"
  by (cases xs) (auto simp: dlist_def list_empty_def)

lemma links_add_between:
  assumes "links h (xs @ [a])" and "links h (b # ys)" and "nxt h' a = n" "prv h' n = a"
    and "nxt h' n = b" "prv h' b = n"
    and "\<And>p. p \<in> set xs \<union> set (butlast (b # ys)) \<Longrightarrow> nxt h' p = nxt h p"
    and "\<And>p. p \<in> set (tl (xs @ [a])) \<union> set ys \<Longrightarrow> prv h' p = prv h p"
  shows "links h' (xs @ a # n # b # ys)"
proof -
  have "links h' (xs @ [a]) = links h (xs @ [a])"
    by (rule links_cong) (use assms(7,8) in \<open>auto simp: butlast_append\<close>)
  moreover have "links h' (b # ys) = links h (b # ys)"
    by (rule links_cong) (use assms(7,8) in \<open>auto\<close>)
  ultimately show ?thesis using assms(1-6) links_append [of h' xs a "n # b # ys"] by simp
qed

lemma dlist_add:
  assumes "dlist h l xs" and "n \<notin> insert l (set xs)"
  shows "dlist (list_add n l h) l (n # xs)"
proof (cases xs)
  case Nil
  with assms show ?thesis by (auto simp: dlist_def list_add_def Let_def)
next
  case (Cons b ys)
  have "links (list_add n l h) ([] @ l # n # b # ys @ [l])"
    by (rule links_add_between [of h])
      (use assms Cons in \<open>auto simp: dlist_def list_add_def Let_def butlast_append\<close>)
  with assms Cons show ?thesis by (auto simp: dlist_def)
qed

lemma dlist_add_tail:
  assumes "dlist h l xs" and "n \<notin> insert l (set xs)"
  shows "dlist (list_add_tail n l h) l (xs @ [n])"
proof (cases xs rule: rev_cases)
  case Nil
  with assms show ?thesis by (auto simp: dlist_def list_add_tail_def Let_def)
next
  case (snoc ys b)
  have prev: "prv h l = b" using dlist_prev [OF assms(1)] snoc by simp
  have "links h (l # ys @ [b])"
    using assms(1) snoc links_append [of h "l # ys" b "[l]"] by (simp add: dlist_def)
  then have "links (list_add_tail n l h) ((l # ys) @ b # n # l # [])"
    by (intro links_add_between [of h])
      (use assms snoc prev in \<open>auto simp: dlist_def list_add_tail_def Let_def\<close>)
  with assms snoc show ?thesis by (auto simp: dlist_def)
qed

lemma links_remove:
  assumes "links h (zs @ p # e # n # ws)" and "p \<noteq> e" and "n \<noteq> e"
    and "p \<notin> set zs \<union> set (butlast (n # ws))" and "n \<notin> set (tl (zs @ [p])) \<union> set ws"
  shows "links (list_del e h) (zs @ p # n # ws)"
proof -
  have L: "links h (zs @ [p])" and P: "links h (p # e # n # ws)" and R: "links h (n # ws)"
    using assms(1) links_append [of h zs p "e # n # ws"] by simp_all
  have nx: "nxt (list_del e h) = (nxt h)(p := n)" and pr: "prv (list_del e h) = (prv h)(n := p)"
    using P assms(2,3) by (auto simp: list_del_def Let_def)
  have "links (list_del e h) (zs @ [p]) = links h (zs @ [p])"
    by (rule links_cong) (use assms(4,5) in \<open>auto simp: nx pr\<close>)
  moreover have "links (list_del e h) (n # ws) = links h (n # ws)"
    by (rule links_cong) (use assms(4,5) in \<open>auto simp: nx pr\<close>)
  ultimately show ?thesis
    using L R links_append [of "list_del e h" zs p "n # ws"] by (simp add: nx pr)
qed

lemma dlist_del:
  assumes "dlist h l (xs @ e # ys)"
  shows "dlist (list_del e h) l (xs @ ys)"
proof -
  obtain zs p where zs: "l # xs = zs @ [p]" by (metis rev_exhaust list.distinct(1))
  obtain n ws where ws: "ys @ [l] = n # ws" by (cases ys) auto
  have dist: "distinct (l # xs @ e # ys)" and L: "links h ((l # xs) @ e # (ys @ [l]))"
    using assms by (simp_all add: dlist_def)
  from dist zs ws have "p \<noteq> e" "n \<noteq> e" "p \<notin> set zs" "n \<notin> set ws"
    by (cases xs rule: rev_cases; cases ys; auto)+
  moreover from dist zs ws have "p \<notin> set (butlast (n # ws))" "n \<notin> set (tl (zs @ [p]))"
    by (cases xs rule: rev_cases; cases ys; auto simp: tl_append split: list.splits)+
  moreover from L zs ws have "links h (zs @ p # e # n # ws)" by simp
  ultimately have "links (list_del e h) (zs @ p # n # ws)" by (intro links_remove) auto
  moreover have "zs @ p # n # ws = (l # xs) @ ys @ [l]" by (simp add: zs ws)
  ultimately show ?thesis using dist by (simp add: dlist_def)
qed

section \<open>Frame rules\<close>

lemma dlist_add_other:
  assumes "dlist h l' zs" and "dlist h l xs" and "n \<notin> insert l' (set zs)"
    and "insert l (set xs) \<inter> insert l' (set zs) = {}"
  shows "dlist (list_add n l h) l' zs"
proof -
  have "nxt h l \<in> insert l (set xs)" using dlist_next [OF assms(2)] by (cases xs) auto
  then show ?thesis
    by (intro dlist_frame [OF assms(1)]) (use assms(3,4) in \<open>auto simp: list_add_def Let_def\<close>)
qed

lemma dlist_add_tail_other:
  assumes "dlist h l' zs" and "dlist h l xs" and "n \<notin> insert l' (set zs)"
    and "insert l (set xs) \<inter> insert l' (set zs) = {}"
  shows "dlist (list_add_tail n l h) l' zs"
proof -
  have "prv h l \<in> insert l (set xs)"
    using dlist_prev [OF assms(2)] by (auto simp: last_in_set)
  then show ?thesis
    by (intro dlist_frame [OF assms(1)]) (use assms(3,4) in \<open>auto simp: list_add_tail_def Let_def\<close>)
qed

lemma dlist_member_neighbours:
  assumes "dlist h l (xs @ e # ys)"
  shows "nxt h e \<in> insert l (set ys)" and "prv h e \<in> insert l (set xs)"
proof -
  have L: "links h ((l # xs) @ [e])" and R: "links h (e # ys @ [l])"
    using assms links_append [of h "l # xs" e "ys @ [l]"] by (simp_all add: dlist_def)
  show "nxt h e \<in> insert l (set ys)" using links_next [OF R] by (cases ys) auto
  show "prv h e \<in> insert l (set xs)"
    using links_prev [of h l xs e] L last_in_set [of xs] by auto
qed

lemma dlist_del_other:
  assumes "dlist h l' zs" and "dlist h l (xs @ e # ys)"
    and "insert l (set (xs @ e # ys)) \<inter> insert l' (set zs) = {}"
  shows "dlist (list_del e h) l' zs"
  using dlist_member_neighbours [OF assms(2)] assms(3)
  by (intro dlist_frame [OF assms(1)]) (auto simp: list_del_def Let_def)

section \<open>Traversal\<close>

lemma list_walk_links:
  "links h (a # xs @ [l]) \<Longrightarrow> l \<notin> set xs \<Longrightarrow> list_walk h l (nxt h a) = Some xs"
proof (induction xs arbitrary: a)
  case Nil
  then show ?case by (simp add: list_walk.simps)
next
  case (Cons x xs)
  then have "list_walk h l (nxt h x) = Some xs" by simp
  with Cons.prems show ?case by (subst list_walk.simps) auto
qed

lemma list_for_each_dlist: "dlist h l xs \<Longrightarrow> list_for_each h l = Some xs"
  using list_walk_links [of h l xs l] by (simp add: dlist_def list_for_each_def)

lemma list_find_links:
  "links h (a # xs @ [l]) \<Longrightarrow> l \<notin> set xs \<Longrightarrow> list_find P h l (nxt h a) = Some (find P xs)"
proof (induction xs arbitrary: a)
  case Nil
  then show ?case by (simp add: list_find.simps)
next
  case (Cons x xs)
  then have "list_find P h l (nxt h x) = Some (find P xs)" by simp
  with Cons.prems show ?case by (subst list_find.simps) auto
qed

lemma list_find_dlist: "dlist h l xs \<Longrightarrow> list_find P h l (nxt h l) = Some (find P xs)"
  using list_find_links [of h l xs l P] by (simp add: dlist_def)

text \<open>
  C10: The four list operations implement their list-level meaning on a well-formed circular list:
  \<open>list_add\<close> inserts a fresh node at the front, \<open>list_add_tail\<close> at the back, \<open>list_del\<close> removes exactly
  the given node from wherever it is, and traversing the result with \<open>list_for_each\<close> ends and visits
  exactly the remaining nodes in order.
\<close>

theorem list_ops_refine:
  assumes "dlist h l (xs @ e # ys)" and "n \<notin> insert l (set (xs @ e # ys))"
  shows "list_for_each (list_add n l h) l = Some (n # xs @ e # ys) \<and>
    list_for_each (list_add_tail n l h) l = Some (xs @ e # ys @ [n]) \<and>
    list_for_each (list_del e h) l = Some (xs @ ys) \<and>
    dlist (list_del e (list_add_tail n l h)) l (xs @ ys @ [n])"
proof -
  have "dlist (list_add_tail n l h) l (xs @ e # ys @ [n])"
    using dlist_add_tail [OF assms] by simp
  then have "list_for_each (list_add_tail n l h) l = Some (xs @ e # ys @ [n])"
    and "dlist (list_del e (list_add_tail n l h)) l (xs @ ys @ [n])"
    using dlist_del [of "list_add_tail n l h" l xs e "ys @ [n]"] by (simp_all add: list_for_each_dlist)
  with dlist_add [OF assms] dlist_del [OF assms(1)] show ?thesis by (simp add: list_for_each_dlist)
qed

theorem list_ops_refine_witness:
  "\<exists>h. dlist h 1 [2, 3] \<and> list_for_each (list_add 4 1 h) 1 = Some [4, 2, 3] \<and>
    list_for_each (list_del 2 h) 1 = Some [3]"
proof -
  let ?empty = "INIT_LIST_HEAD 1 \<lparr>nxt = (\<lambda>_. 0), prv = (\<lambda>_. 0)\<rparr>"
  let ?h = "list_add_tail 3 1 (list_add_tail 2 1 ?empty)"
  have "dlist (list_add_tail 2 1 ?empty) 1 ([] @ [2])" by (rule dlist_add_tail [OF dlist_init]) simp
  then have "dlist ?h 1 (([] @ [2]) @ [3])" by (rule dlist_add_tail) simp
  then have d: "dlist ?h 1 ([] @ 2 # [3])" by simp
  from list_ops_refine [OF d, of 4] d show ?thesis by (intro exI [of _ ?h]) simp
qed

end
