(* ===== verification/Queue.thy ===== *)
theory Queue
  imports IntrusiveList Sync
begin

text \<open>
  The locked FIFO of \<open>src/src/queue.c\<close>: a list head, an element count and a spinlock. The locale
  \<open>fifo\<close> is what the scheduler, the mutex and the disk driver rely on (first in, first out, no element lost or
  duplicated); it is interpreted on the operations of the code.

  The operations take the lock with a clean result register (see \<open>Sync\<close>); \<open>None\<close> is a call that spins forever
  because the lock is held.
\<close>

record queue_t =
  q_head :: u64
  nr_list :: u32
  q_lock :: u64

definition QUEUE_INIT :: "queue_t \<Rightarrow> list_heap \<Rightarrow> queue_t \<times> list_heap" where
  "QUEUE_INIT q h =
     (let q = q\<lparr>nr_list := 0\<rparr>;
          h = INIT_LIST_HEAD (q_head q) h
      in (q\<lparr>q_lock := spinlock_init (q_lock q)\<rparr>, h))"

definition queue_enqueue :: "queue_t \<Rightarrow> u64 \<Rightarrow> list_heap \<Rightarrow> (queue_t \<times> list_heap) option" where
  "queue_enqueue q node h = do {
     l \<leftarrow> spinlock_lock 0 (q_lock q);
     let q = q\<lparr>q_lock := l, nr_list := nr_list q + 1\<rparr>;
     let h = list_add_tail node (q_head q) h;
     Some (q\<lparr>q_lock := spinlock_unlock (q_lock q)\<rparr>, h) }"

definition queue_dequeue :: "queue_t \<Rightarrow> list_heap \<Rightarrow> (u64 \<times> queue_t \<times> list_heap) option" where
  "queue_dequeue q h = do {
     l \<leftarrow> spinlock_lock 0 (q_lock q);
     let q = q\<lparr>q_lock := l\<rparr>;
     let (node, q, h) =
       (if \<not> list_empty (q_head q) h
        then (let q = q\<lparr>nr_list := nr_list q - 1\<rparr>;
                  node = nxt h (q_head q)
              in (node, q, list_del node h))
        else (0, q, h));
     Some (node, q\<lparr>q_lock := spinlock_unlock (q_lock q)\<rparr>, h) }"

definition queue_empty :: "queue_t \<Rightarrow> list_heap \<Rightarrow> (bool \<times> queue_t) option" where
  "queue_empty q h = do {
     l \<leftarrow> spinlock_lock 0 (q_lock q);
     let is_empty = list_empty (q_head q) h;
     Some (is_empty, q\<lparr>q_lock := spinlock_unlock l\<rparr>) }"

section \<open>The FIFO interface\<close>

text \<open>
  \<open>rep s xs\<close>: the state \<open>s\<close> holds the elements \<open>xs\<close>, oldest first. \<open>ok s x\<close>: the node \<open>x\<close> may be
  enqueued in \<open>s\<close> besides not being there already. Every operation returns.
\<close>

primrec enq_all :: "('a \<Rightarrow> 's \<Rightarrow> 's option) \<Rightarrow> 'a list \<Rightarrow> 's \<Rightarrow> 's option" where
  "enq_all enq [] s = Some s"
| "enq_all enq (x # xs) s = do { s' \<leftarrow> enq x s; enq_all enq xs s' }"

primrec deq_n :: "('s \<Rightarrow> ('a \<times> 's) option) \<Rightarrow> nat \<Rightarrow> 's \<Rightarrow> ('a list \<times> 's) option" where
  "deq_n deq 0 s = Some ([], s)"
| "deq_n deq (Suc n) s = do { (x, s') \<leftarrow> deq s; (xs, s'') \<leftarrow> deq_n deq n s'; Some (x # xs, s'') }"

locale fifo =
  fixes rep :: "'s \<Rightarrow> 'a list \<Rightarrow> bool"
    and ok :: "'s \<Rightarrow> 'a \<Rightarrow> bool"
    and none :: 'a
    and enq :: "'a \<Rightarrow> 's \<Rightarrow> 's option"
    and deq :: "'s \<Rightarrow> ('a \<times> 's) option"
  assumes enq_law: "rep s xs \<Longrightarrow> ok s x \<Longrightarrow> x \<notin> set xs \<Longrightarrow>
      \<exists>s'. enq x s = Some s' \<and> rep s' (xs @ [x]) \<and> (\<forall>y. ok s' y = ok s y)"
    and deq_law: "rep s (x # xs) \<Longrightarrow> \<exists>s'. deq s = Some (x, s') \<and> rep s' xs \<and> (\<forall>y. ok s' y = ok s y)"
    and deq_empty: "rep s [] \<Longrightarrow> deq s = Some (none, s)"
begin

lemma enq_all_rep:
  assumes "rep s xs" and "distinct (xs @ ys)" and "\<forall>y \<in> set ys. ok s y"
  shows "\<exists>s'. enq_all enq ys s = Some s' \<and> rep s' (xs @ ys) \<and> (\<forall>y. ok s' y = ok s y)"
  using assms
proof (induction ys arbitrary: s xs)
  case (Cons y ys)
  then have "y \<notin> set xs" "ok s y" by auto
  from enq_law [OF Cons.prems(1) this(2,1)] obtain s'
    where s': "enq y s = Some s'" "rep s' (xs @ [y])" "\<forall>z. ok s' z = ok s z" by blast
  moreover obtain t where "enq_all enq ys s' = Some t" "rep t ((xs @ [y]) @ ys)" "\<forall>z. ok t z = ok s' z"
    using Cons.IH [OF s'(2)] Cons.prems s'(3) by auto
  ultimately show ?case by auto
qed auto

lemma deq_n_rep:
  "rep s (xs @ ys) \<Longrightarrow> \<exists>s'. deq_n deq (length xs) s = Some (xs, s') \<and> rep s' ys"
proof (induction xs arbitrary: s)
  case (Cons x xs)
  then obtain s' where "deq s = Some (x, s')" "rep s' (xs @ ys)" using deq_law [of s x "xs @ ys"] by auto
  with Cons.IH [of s'] show ?case by auto
qed auto

lemma fifo_order:
  assumes "rep s xs" and "distinct (xs @ ys)" and "\<forall>y \<in> set ys. ok s y"
  shows "\<exists>s' s''. enq_all enq ys s = Some s' \<and> deq_n deq (length (xs @ ys)) s' = Some (xs @ ys, s'') \<and>
    rep s'' [] \<and> deq s'' = Some (none, s'')"
proof -
  obtain s' where "enq_all enq ys s = Some s'" "rep s' ((xs @ ys) @ [])" using enq_all_rep [OF assms] by auto
  with deq_n_rep [of s' "xs @ ys" "[]"] show ?thesis using deq_empty by fastforce
qed

end

section \<open>The code implements it\<close>

definition queue_rep :: "queue_t \<times> list_heap \<Rightarrow> u64 list \<Rightarrow> bool" where
  "queue_rep qh xs \<longleftrightarrow> dlist (snd qh) (q_head (fst qh)) xs \<and> nr_list (fst qh) = of_nat (length xs) \<and>
     q_lock (fst qh) = 0 \<and> 0 \<notin> set xs"

definition queue_node_ok :: "queue_t \<times> list_heap \<Rightarrow> u64 \<Rightarrow> bool" where
  "queue_node_ok qh n \<longleftrightarrow> n \<noteq> q_head (fst qh) \<and> n \<noteq> 0"

definition enqueue_op :: "u64 \<Rightarrow> queue_t \<times> list_heap \<Rightarrow> (queue_t \<times> list_heap) option" where
  "enqueue_op n qh = queue_enqueue (fst qh) n (snd qh)"

definition dequeue_op :: "queue_t \<times> list_heap \<Rightarrow> (u64 \<times> queue_t \<times> list_heap) option" where
  "dequeue_op qh = queue_dequeue (fst qh) (snd qh)"

lemma queue_rep_init: "queue_rep (QUEUE_INIT q h) []"
  by (simp add: queue_rep_def QUEUE_INIT_def Let_def dlist_init spinlock_init_def atomic_store_def)

lemma queue_enqueue_held: "q_lock q \<noteq> 0 \<Longrightarrow> queue_enqueue q n h = None"
  by (simp add: queue_enqueue_def spinlock_lock_held)

lemma queue_enqueue_free:
  "q_lock q = 0 \<Longrightarrow> queue_enqueue q n h =
    Some (q\<lparr>nr_list := nr_list q + 1\<rparr>, list_add_tail n (q_head q) h)"
  by (cases q) (simp add: queue_enqueue_def spinlock_lock_free spinlock_unlock_def atomic_store_def)

lemma queue_dequeue_free:
  "q_lock q = 0 \<Longrightarrow> queue_dequeue q h =
    Some (if list_empty (q_head q) h then (0, q, h)
          else (nxt h (q_head q), q\<lparr>nr_list := nr_list q - 1\<rparr>, list_del (nxt h (q_head q)) h))"
  by (cases q)
    (simp add: queue_dequeue_def spinlock_lock_free spinlock_unlock_def atomic_store_def Let_def)

lemma queue_dequeue_rep_Cons:
  assumes "queue_rep (q, h) (x # xs)"
  shows "queue_dequeue q h = Some (x, q\<lparr>nr_list := nr_list q - 1\<rparr>, list_del x h)"
    and "queue_rep (q\<lparr>nr_list := nr_list q - 1\<rparr>, list_del x h) xs"
proof -
  have d: "dlist h (q_head q) ([] @ x # xs)" using assms by (simp add: queue_rep_def)
  then show "queue_dequeue q h = Some (x, q\<lparr>nr_list := nr_list q - 1\<rparr>, list_del x h)"
    using assms by (simp add: queue_dequeue_free queue_rep_def list_empty_iff dlist_next)
  show "queue_rep (q\<lparr>nr_list := nr_list q - 1\<rparr>, list_del x h) xs"
    using dlist_del [OF d] assms by (simp add: queue_rep_def)
qed

lemma queue_empty_rep:
  "queue_rep (q, h) xs \<Longrightarrow> queue_empty q h = Some (xs = [], q)"
  by (cases q) (simp add: queue_empty_def queue_rep_def spinlock_lock_free spinlock_unlock_def
      atomic_store_def list_empty_iff)

interpretation rq: fifo queue_rep queue_node_ok 0 enqueue_op dequeue_op
proof unfold_locales
  fix s :: "queue_t \<times> list_heap" and xs :: "u64 list" and x
  assume "queue_rep s xs" "queue_node_ok s x" "x \<notin> set xs"
  then show "\<exists>s'. enqueue_op x s = Some s' \<and> queue_rep s' (xs @ [x]) \<and>
      (\<forall>y. queue_node_ok s' y = queue_node_ok s y)"
    using dlist_add_tail [of "snd s" "q_head (fst s)" xs x]
    by (auto simp: enqueue_op_def queue_enqueue_free queue_rep_def queue_node_ok_def)
next
  fix s :: "queue_t \<times> list_heap" and xs :: "u64 list" and x
  assume "queue_rep s (x # xs)"
  then show "\<exists>s'. dequeue_op s = Some (x, s') \<and> queue_rep s' xs \<and>
      (\<forall>y. queue_node_ok s' y = queue_node_ok s y)"
    using queue_dequeue_rep_Cons [of "fst s" "snd s" x xs]
    by (auto simp: dequeue_op_def queue_node_ok_def)
next
  fix s :: "queue_t \<times> list_heap"
  assume "queue_rep s []"
  then have "list_empty (q_head (fst s)) (snd s)" "q_lock (fst s) = 0"
    using list_empty_iff [of "snd s" "q_head (fst s)" "[]"] by (simp_all add: queue_rep_def)
  then show "dequeue_op s = Some (0, s)" by (simp add: dequeue_op_def queue_dequeue_free)
qed

text \<open>
  C9: The queue is first-in first-out and loses nothing. From a fresh queue, enqueueing distinct
  nodes (none of them NULL or the queue's own head) and then dequeueing as many times returns the
  same nodes in the same order, every call returns, and a further dequeue gives NULL.
\<close>

theorem queue_fifo:
  assumes "distinct ys" and "0 \<notin> set ys" and "q_head q \<notin> set ys"
  shows "\<exists>s' s''. enq_all enqueue_op ys (QUEUE_INIT q h) = Some s' \<and>
    deq_n dequeue_op (length ys) s' = Some (ys, s'') \<and> dequeue_op s'' = Some (0, s'') \<and>
    nr_list (fst s'') = 0"
proof -
  have "\<forall>y \<in> set ys. queue_node_ok (QUEUE_INIT q h) y"
    using assms by (auto simp: queue_node_ok_def QUEUE_INIT_def Let_def)
  from rq.fifo_order [OF queue_rep_init, of ys, OF _ this] assms(1)
  show ?thesis by (auto simp: queue_rep_def)
qed

theorem queue_fifo_witness:
  "\<exists>q h s' s''. enq_all enqueue_op [0x20, 0x30] (QUEUE_INIT q h) = Some s' \<and>
    deq_n dequeue_op (length [0x20, 0x30 :: u64]) s' = Some ([0x20, 0x30], s'')"
proof -
  let ?q = "\<lparr>q_head = 0x10, nr_list = 5, q_lock = 1\<rparr>" and ?h = "\<lparr>nxt = (\<lambda>_. 0), prv = (\<lambda>_. 0)\<rparr>"
  have "distinct [0x20, 0x30 :: u64]" "0 \<notin> set [0x20, 0x30 :: u64]" "q_head ?q \<notin> set [0x20, 0x30]"
    by simp_all
  from queue_fifo [OF this] show ?thesis by blast
qed

end
