(* ===== verification/PageTable.thy ===== *)
theory PageTable
  imports PageAlloc
begin

text \<open>
  The page tables of \<open>src/src/page.c\<close>: \<open>map_page_range\<close>, \<open>unmap_page_range\<close>, \<open>get_physaddr\<close>,
  \<open>load_pml4\<close>. The code edits the live tables through the recursive slot 511 of the PML4, so every access
  \<open>map_pd[i]\<close> is a memory access at a virtual address; the model performs it: \<open>translate\<close> is the four-level
  walk of the processor over physical memory (a function of frame number and 8-byte slot), \<open>None\<close> is a page
  fault. The translation caches do not appear: an absent entry is never cached, and the code reloads \<open>cr3\<close> after
  each change of a last-level entry. Only 4 KiB pages occur (no caller sets \<open>PTE_HUGE\<close>).

  The lemmas show that the four recursive addresses reach the four tables of a walk, and that mapping and
  unmapping act on the set of translations as intended, as long as the tables under the PML4 slots in use form
  a tree of allocated frames (the invariant \<open>pt_wf\<close>, which every operation keeps).
\<close>

section \<open>The processor's view\<close>

record vm_state =
  pmem :: "u64 \<Rightarrow> nat \<Rightarrow> u64"
  cr3 :: u64
  page_alloc_bitmap :: bitmap_t

definition frame_of :: "u64 \<Rightarrow> u64" where
  "frame_of e = drop_bit 12 e AND mask 40"

definition present :: "u64 \<Rightarrow> bool" where
  "present e \<longleftrightarrow> e AND 1 \<noteq> 0"

definition next_table :: "vm_state \<Rightarrow> u64 \<Rightarrow> nat \<Rightarrow> u64 option" where
  "next_table s f i = (if present (pmem s f i) then Some (frame_of (pmem s f i)) else None)"

definition tbl_idx :: "nat \<Rightarrow> u64 \<Rightarrow> u64" where
  "tbl_idx sh va = drop_bit sh va AND 0x1FF"

definition translate :: "vm_state \<Rightarrow> u64 \<Rightarrow> (u64 \<times> nat) option" where
  "translate s va = do {
     f3 \<leftarrow> next_table s (frame_of (cr3 s)) (unat (tbl_idx 39 va));
     f2 \<leftarrow> next_table s f3 (unat (tbl_idx 30 va));
     f1 \<leftarrow> next_table s f2 (unat (tbl_idx 21 va));
     f0 \<leftarrow> next_table s f1 (unat (tbl_idx 12 va));
     Some (f0, unat (tbl_idx 3 va)) }"

definition load64 :: "vm_state \<Rightarrow> u64 \<Rightarrow> u64 option" where
  "load64 s va = do { (f, i) \<leftarrow> translate s va; Some (pmem s f i) }"

definition store64 :: "vm_state \<Rightarrow> u64 \<Rightarrow> u64 \<Rightarrow> vm_state option" where
  "store64 s va v = do {
     (f, i) \<leftarrow> translate s va;
     Some (s\<lparr>pmem := (pmem s)(f := (pmem s f)(i := v))\<rparr>) }"

section \<open>The code\<close>

definition PML4_BASE :: u64 where
  "PML4_BASE = 0xFFFFFFFFFFFFF"

definition map_pml4 :: u64 where
  "map_pml4 = push_bit 12 PML4_BASE"

definition map_pdpt :: "u64 \<Rightarrow> u64" where
  "map_pdpt pml4_idx = push_bit 21 PML4_BASE + push_bit 12 pml4_idx"

definition map_pd :: "u64 \<Rightarrow> u64 \<Rightarrow> u64" where
  "map_pd pml4_idx pdpt_idx = push_bit 30 PML4_BASE + push_bit 21 pml4_idx + push_bit 12 pdpt_idx"

definition map_pt :: "u64 \<Rightarrow> u64 \<Rightarrow> u64 \<Rightarrow> u64" where
  "map_pt pml4_idx pdpt_idx pd_idx =
     push_bit 39 PML4_BASE + push_bit 30 pml4_idx + push_bit 21 pdpt_idx + push_bit 12 pd_idx"

definition MAP_ERR_EXIST :: int where
  "MAP_ERR_EXIST = 17"

definition MAP_ERR_NOTMAPPED :: u64 where
  "MAP_ERR_NOTMAPPED = 100"

text \<open>
  The three blocks "if the entry is absent, allocate a page for it and clear the new table" of
  \<open>map_page_range\<close> differ only in the two pointers.
\<close>

definition clear_table :: "vm_state \<Rightarrow> u64 \<Rightarrow> nat \<Rightarrow> vm_state option" where
  "clear_table s table n =
     fold (\<lambda>j so. do { s \<leftarrow> so; store64 s (table + 8 * of_nat j) 0 }) [0..<n] (Some s)"

definition ensure_table :: "vm_state \<Rightarrow> u64 \<Rightarrow> u64 \<Rightarrow> u64 \<Rightarrow> vm_state option" where
  "ensure_table s entry table flags = do {
     e \<leftarrow> load64 s entry;
     if \<not> present e then do {
       (a, bmp) \<leftarrow> alloc_pages (page_alloc_bitmap s) 0;
       s \<leftarrow> store64 (s\<lparr>page_alloc_bitmap := bmp\<rparr>) entry (a OR flags OR 1);
       clear_table s table 512 }
     else Some s }"

definition map_one :: "vm_state \<Rightarrow> u64 \<Rightarrow> u64 \<Rightarrow> u64 \<Rightarrow> (bool \<times> vm_state) option" where
  "map_one s pa va flags =
     (let pml4_idx = tbl_idx 39 va; pdpt_idx = tbl_idx 30 va;
          pd_idx = tbl_idx 21 va; pt_idx = tbl_idx 12 va;
          pdpt = map_pdpt pml4_idx; pd = map_pd pml4_idx pdpt_idx;
          pt = map_pt pml4_idx pdpt_idx pd_idx
      in do {
        s \<leftarrow> ensure_table s (map_pml4 + 8 * pml4_idx) pdpt flags;
        s \<leftarrow> ensure_table s (pdpt + 8 * pdpt_idx) pd flags;
        s \<leftarrow> ensure_table s (pd + 8 * pd_idx) pt flags;
        e \<leftarrow> load64 s (pt + 8 * pt_idx);
        if present e then Some (False, s)
        else do {
          s \<leftarrow> store64 s (pt + 8 * pt_idx) ((pa AND NOT 0xFFF) OR flags OR 1);
          Some (True, s) } })"

definition unmap_one :: "vm_state \<Rightarrow> u64 \<Rightarrow> (bool \<times> vm_state) option" where
  "unmap_one s va =
     (let pml4_idx = tbl_idx 39 va; pdpt_idx = tbl_idx 30 va;
          pd_idx = tbl_idx 21 va; pt_idx = tbl_idx 12 va;
          pdpt = map_pdpt pml4_idx; pd = map_pd pml4_idx pdpt_idx;
          pt = map_pt pml4_idx pdpt_idx pd_idx
      in do {
        e4 \<leftarrow> load64 s (map_pml4 + 8 * pml4_idx);
        if \<not> present e4 then Some (False, s) else do {
        e3 \<leftarrow> load64 s (pdpt + 8 * pdpt_idx);
        if \<not> present e3 then Some (False, s) else do {
        e2 \<leftarrow> load64 s (pd + 8 * pd_idx);
        if \<not> present e2 then Some (False, s) else do {
        e1 \<leftarrow> load64 s (pt + 8 * pt_idx);
        if present e1 then do { s \<leftarrow> store64 s (pt + 8 * pt_idx) 0; Some (True, s) }
        else Some (False, s) }}}})"

function unmap_loop :: "vm_state \<Rightarrow> u64 \<Rightarrow> size_t \<Rightarrow> size_t \<Rightarrow> (int \<times> vm_state) option" where
  "unmap_loop s va len i =
     (if i < len then do {
        (go, s) \<leftarrow> unmap_one s va;
        if go then unmap_loop s (va + 0x1000) len (Suc i) else Some (to_int32 i, s) }
      else Some (to_int32 i, s))"
  by pat_completeness auto
termination
  by (relation "measure (\<lambda>(s, va, len, i). len - i)") auto

definition unmap_page_range :: "vm_state \<Rightarrow> u64 \<Rightarrow> size_t \<Rightarrow> (int \<times> vm_state) option" where
  "unmap_page_range s virtaddr len = unmap_loop s virtaddr len 0"

function map_loop ::
  "vm_state \<Rightarrow> u64 \<Rightarrow> u64 \<Rightarrow> size_t \<Rightarrow> size_t \<Rightarrow> u64 \<Rightarrow> u64 \<Rightarrow> (int \<times> vm_state) option" where
  "map_loop s virtaddr flags len i pa va =
     (if i < len then do {
        (go, s) \<leftarrow> map_one s pa va flags;
        if go then map_loop s virtaddr flags len (Suc i) (pa + 0x1000) (va + 0x1000)
        else do {
          (_, s) \<leftarrow> unmap_page_range s virtaddr i;
          Some (- MAP_ERR_EXIST, s) } }
      else Some (to_int32 i, s))"
  by pat_completeness auto
termination
  by (relation "measure (\<lambda>(s, virtaddr, flags, len, i, pa, va). len - i)") auto

declare unmap_loop.simps [simp del] map_loop.simps [simp del]

definition map_page_range ::
  "vm_state \<Rightarrow> u64 \<Rightarrow> u64 \<Rightarrow> u64 \<Rightarrow> size_t \<Rightarrow> (int \<times> vm_state) option" where
  "map_page_range s physaddr virtaddr flags len =
     map_loop s virtaddr flags len 0 physaddr virtaddr"

definition get_physaddr :: "vm_state \<Rightarrow> u64 \<Rightarrow> u64 option" where
  "get_physaddr s virtaddr =
     (let pml4_idx = tbl_idx 39 virtaddr; pdpt_idx = tbl_idx 30 virtaddr;
          pd_idx = tbl_idx 21 virtaddr; pt_idx = tbl_idx 12 virtaddr;
          pdpt = map_pdpt pml4_idx; pd = map_pd pml4_idx pdpt_idx;
          pt = map_pt pml4_idx pdpt_idx pd_idx
      in do {
        e4 \<leftarrow> load64 s (map_pml4 + 8 * pml4_idx);
        if \<not> present e4 then Some (- MAP_ERR_NOTMAPPED) else do {
        e3 \<leftarrow> load64 s (pdpt + 8 * pdpt_idx);
        if \<not> present e3 then Some (- MAP_ERR_NOTMAPPED) else do {
        e2 \<leftarrow> load64 s (pd + 8 * pd_idx);
        if \<not> present e2 then Some (- MAP_ERR_NOTMAPPED) else do {
        e1 \<leftarrow> load64 s (pt + 8 * pt_idx);
        Some (if present e1 then (e1 AND NOT 0xFFF) + (virtaddr AND 0xFFF)
              else - MAP_ERR_NOTMAPPED) }}}})"

text \<open>
  \<open>page_init\<close>: \<open>total_mem\<close> is the result of \<open>get_total_mem\<close>, \<open>phys_end\<close> and \<open>virt_end\<close> the two linker symbols,
  \<open>data\<close> the memory behind \<open>_kernel_virt_end_aligned\<close>.
\<close>

definition BOOTMAP_LEN :: u64 where
  "BOOTMAP_LEN = 0x1000000"

definition page_init ::
  "vm_state \<Rightarrow> u64 \<Rightarrow> u64 \<Rightarrow> u64 \<Rightarrow> (nat \<Rightarrow> u64) \<Rightarrow> vm_state option" where
  "page_init s total_mem phys_end virt_end data =
     (let mem = ALIGN_UP total_mem (of_nat PAGE_SIZE);
          bits = drop_bit PAGE_SHIFT mem;
          bitmap_data_bytes = ALIGN_UP (drop_bit 3 bits) (of_nat PAGE_SIZE);
          bmp = bitmap_init data (unat bits);
          bmp = bitmap_set_range bmp 0 (unat (drop_bit PAGE_SHIFT (phys_end + bitmap_data_bytes)))
      in do {
        (_, s) \<leftarrow> unmap_page_range (s\<lparr>page_alloc_bitmap := bmp\<rparr>) (virt_end + bitmap_data_bytes)
          (unat (drop_bit PAGE_SHIFT (BOOTMAP_LEN - phys_end - bitmap_data_bytes)));
        Some s })"

definition load_pml4 :: "vm_state \<Rightarrow> u64 \<Rightarrow> vm_state" where
  "load_pml4 s pml4_physaddr = s\<lparr>cr3 := pml4_physaddr\<rparr>"

section \<open>Indices of the recursive addresses\<close>

definition horner :: "nat \<Rightarrow> nat \<Rightarrow> nat \<Rightarrow> nat \<Rightarrow> nat \<Rightarrow> nat" where
  "horner a b c d j = (((((65535 * 512 + a) * 512 + b) * 512 + c) * 512 + d) * 512 + j) * 8"

lemma tbl_idx_unat: "unat (tbl_idx sh va) = unat va div 2 ^ sh mod 512"
proof -
  have m: "(0x1FF :: u64) = mask 9" by (simp add: mask_eq_exp_minus_1)
  have "tbl_idx sh va = take_bit 9 (drop_bit sh va)"
    by (simp only: tbl_idx_def m take_bit_eq_mask)
  then have "unat (tbl_idx sh va) = take_bit 9 (drop_bit sh (unat va))"
    by (simp only: unsigned_take_bit_eq unat_drop_bit_eq)
  then show ?thesis by (simp add: take_bit_eq_mod drop_bit_eq_div)
qed

lemma tbl_idx_bound: "unat (tbl_idx sh va) < 512"
  by (simp add: tbl_idx_unat)

lemma peel_512: "j < 512 \<Longrightarrow> (x * 512 + j :: nat) div 512 = x" "j < 512 \<Longrightarrow> (x * 512 + j) mod 512 = j"
  by simp_all

lemma horner_bound:
  "a < 512 \<Longrightarrow> b < 512 \<Longrightarrow> c < 512 \<Longrightarrow> d < 512 \<Longrightarrow> j < 512 \<Longrightarrow> horner a b c d j < 2 ^ 64"
  unfolding horner_def by simp

lemma horner_digits:
  assumes "a < 512" "b < 512" "c < 512" "d < 512" "j < 512"
  shows "horner a b c d j div 2 ^ 39 mod 512 = a" "horner a b c d j div 2 ^ 30 mod 512 = b"
    "horner a b c d j div 2 ^ 21 mod 512 = c" "horner a b c d j div 2 ^ 12 mod 512 = d"
    "horner a b c d j div 2 ^ 3 mod 512 = j"
proof -
  have split: "(2 :: nat) ^ 12 = 2 ^ 3 * 512" "(2 :: nat) ^ 21 = 2 ^ 3 * 512 * 512"
    "(2 :: nat) ^ 30 = 2 ^ 3 * 512 * 512 * 512" "(2 :: nat) ^ 39 = 2 ^ 3 * 512 * 512 * 512 * 512"
    by simp_all
  have "horner a b c d j div 2 ^ 3 = ((((65535 * 512 + a) * 512 + b) * 512 + c) * 512 + d) * 512 + j"
    by (simp add: horner_def)
  note base = this peel_512 [OF assms(5)] peel_512 [OF assms(4)] peel_512 [OF assms(3)]
    peel_512 [OF assms(2)] peel_512 [OF assms(1)]
  show "horner a b c d j div 2 ^ 3 mod 512 = j" by (simp only: base)
  show "horner a b c d j div 2 ^ 12 mod 512 = d" by (simp only: split div_mult2_eq base)
  show "horner a b c d j div 2 ^ 21 mod 512 = c" by (simp only: split div_mult2_eq base)
  show "horner a b c d j div 2 ^ 30 mod 512 = b" by (simp only: split div_mult2_eq base)
  show "horner a b c d j div 2 ^ 39 mod 512 = a" by (simp only: split div_mult2_eq base)
qed

lemma idx_of_horner:
  assumes "a < 512" "b < 512" "c < 512" "d < 512" "j < 512"
  shows "unat (tbl_idx 39 (of_nat (horner a b c d j))) = a"
    "unat (tbl_idx 30 (of_nat (horner a b c d j))) = b"
    "unat (tbl_idx 21 (of_nat (horner a b c d j))) = c"
    "unat (tbl_idx 12 (of_nat (horner a b c d j))) = d"
    "unat (tbl_idx 3 (of_nat (horner a b c d j))) = j"
proof -
  have "unat (of_nat (horner a b c d j) :: u64) = horner a b c d j"
    using horner_bound [OF assms] by (simp add: unsigned_of_nat take_bit_nat_eq_self)
  note digits = this horner_digits [OF assms]
  show "unat (tbl_idx 39 (of_nat (horner a b c d j))) = a"
    "unat (tbl_idx 30 (of_nat (horner a b c d j))) = b"
    "unat (tbl_idx 21 (of_nat (horner a b c d j))) = c"
    "unat (tbl_idx 12 (of_nat (horner a b c d j))) = d"
    "unat (tbl_idx 3 (of_nat (horner a b c d j))) = j"
    by (simp_all only: tbl_idx_unat digits)
qed

lemma PML4_BASE_shifts:
  "push_bit 12 PML4_BASE = 0xFFFFFFFFFFFFF000" "push_bit 21 PML4_BASE = 0xFFFFFFFFFFE00000"
  "push_bit 30 PML4_BASE = 0xFFFFFFFFC0000000" "push_bit 39 PML4_BASE = 0xFFFFFF8000000000"
  by code_simp+

lemma table_ptr_horner:
  "map_pml4 + 8 * of_nat j = of_nat (horner 511 511 511 511 j)"
  "map_pdpt (of_nat a) + 8 * of_nat j = of_nat (horner 511 511 511 a j)"
  "map_pd (of_nat a) (of_nat b) + 8 * of_nat j = of_nat (horner 511 511 a b j)"
  "map_pt (of_nat a) (of_nat b) (of_nat c) + 8 * of_nat j = of_nat (horner 511 a b c j)"
  unfolding map_pml4_def map_pdpt_def map_pd_def map_pt_def PML4_BASE_shifts horner_def
  by (simp_all add: push_bit_eq_mult algebra_simps)

section \<open>Tables by path\<close>

text \<open>
  A table is named by the indices that lead to it, the last one first: \<open>[]\<close> is the PML4, \<open>[i]\<close> the
  PDPT below entry \<open>i\<close>, up to \<open>[k, j, i]\<close>, a last-level table.
\<close>

fun tbl :: "vm_state \<Rightarrow> nat list \<Rightarrow> u64 option" where
  "tbl s [] = Some (frame_of (cr3 s))"
| "tbl s (i # p) = do { f \<leftarrow> tbl s p; next_table s f i }"

definition leaf :: "vm_state \<Rightarrow> nat list \<Rightarrow> u64 option" where
  "leaf s q = do { f \<leftarrow> tbl s (tl q); if present (pmem s f (hd q)) then Some (pmem s f (hd q)) else None }"

definition path :: "u64 \<Rightarrow> nat list" where
  "path va = [unat (tbl_idx 12 va), unat (tbl_idx 21 va), unat (tbl_idx 30 va), unat (tbl_idx 39 va)]"

definition recursive :: "vm_state \<Rightarrow> bool" where
  "recursive s \<longleftrightarrow> next_table s (frame_of (cr3 s)) 511 = Some (frame_of (cr3 s))"

lemma recursive_cong:
  assumes "recursive s" and "cr3 t = cr3 s"
    and "pmem t (frame_of (cr3 s)) 511 = pmem s (frame_of (cr3 s)) 511"
  shows "recursive t"
  using assms by (simp add: recursive_def next_table_def split: if_splits)

lemma translate_horner:
  assumes "a < 512" "b < 512" "c < 512" "d < 512" "j < 512"
  shows "translate s (of_nat (horner a b c d j)) = map_option (\<lambda>f. (f, j)) (tbl s [d, c, b, a])"
  by (simp add: translate_def idx_of_horner [OF assms] map_conv_bind_option comp_def)

lemma tbl_recursive: "recursive s \<Longrightarrow> tbl s (p @ [511]) = tbl s p"
  by (induction p) (simp_all add: recursive_def)

lemma tbl_recursive4:
  assumes "recursive s"
  shows "tbl s [511, 511, 511, 511] = tbl s []" "tbl s [a, 511, 511, 511] = tbl s [a]"
    "tbl s [b, a, 511, 511] = tbl s [b, a]" "tbl s [c, b, a, 511] = tbl s [c, b, a]"
  using tbl_recursive [OF assms, of "[]"] tbl_recursive [OF assms, of "[511]"]
    tbl_recursive [OF assms, of "[511, 511]"] tbl_recursive [OF assms, of "[511, 511, 511]"]
    tbl_recursive [OF assms, of "[a]"] tbl_recursive [OF assms, of "[a, 511]"]
    tbl_recursive [OF assms, of "[a, 511, 511]"] tbl_recursive [OF assms, of "[b, a]"]
    tbl_recursive [OF assms, of "[b, a, 511]"] tbl_recursive [OF assms, of "[c, b, a]"]
  by (simp_all del: tbl.simps)

text \<open>The recursive addresses reach the tables of the walk.\<close>

lemma translate_tables:
  assumes "recursive s" and "a < 512" "b < 512" "c < 512" "j < 512"
  shows "translate s (map_pml4 + 8 * of_nat j) = map_option (\<lambda>f. (f, j)) (tbl s [])"
    "translate s (map_pdpt (of_nat a) + 8 * of_nat j) = map_option (\<lambda>f. (f, j)) (tbl s [a])"
    "translate s (map_pd (of_nat a) (of_nat b) + 8 * of_nat j) = map_option (\<lambda>f. (f, j)) (tbl s [b, a])"
    "translate s (map_pt (of_nat a) (of_nat b) (of_nat c) + 8 * of_nat j) =
       map_option (\<lambda>f. (f, j)) (tbl s [c, b, a])"
  unfolding table_ptr_horner using assms(2-5) tbl_recursive4(1) [OF assms(1)] tbl_recursive4(2) [OF assms(1), of a]
    tbl_recursive4(3) [OF assms(1), of b a] tbl_recursive4(4) [OF assms(1), of c b a]
  by (simp_all add: translate_horner del: tbl.simps)

section \<open>The invariant\<close>

text \<open>
  \<open>R\<close> is the set of PML4 slots the invariant speaks of. The boot code enters one PDPT at the slots 0 and 256, so
  \<open>R\<close> cannot contain both; 511 is the recursive slot. Below \<open>R\<close> the tables form a tree of distinct frames,
  each of them marked as used in the page bitmap.
\<close>

definition table_path :: "nat set \<Rightarrow> nat list \<Rightarrow> bool" where
  "table_path R p \<longleftrightarrow> length p \<le> 3 \<and> set p \<subseteq> {..<512} \<and> (p \<noteq> [] \<longrightarrow> last p \<in> R)"

definition leaf_path :: "nat set \<Rightarrow> nat list \<Rightarrow> bool" where
  "leaf_path R q \<longleftrightarrow> length q = 4 \<and> set q \<subseteq> {..<512} \<and> last q \<in> R"

definition pt_wf :: "nat set \<Rightarrow> vm_state \<Rightarrow> bool" where
  "pt_wf R s \<longleftrightarrow> 511 \<notin> R \<and> recursive s \<and> 1 \<le> bmp_size (page_alloc_bitmap s) \<and>
     bmp_size (page_alloc_bitmap s) < 2 ^ 31 \<and>
     (\<forall>p q f. table_path R p \<and> table_path R q \<and> tbl s p = Some f \<and> tbl s q = Some f \<longrightarrow> p = q) \<and>
     (\<forall>p f. table_path R p \<and> tbl s p = Some f \<longrightarrow> bitmap_test (page_alloc_bitmap s) (unat f))"

lemma pt_wf_inj:
  "pt_wf R s \<Longrightarrow> table_path R p \<Longrightarrow> table_path R q \<Longrightarrow> tbl s p = Some f \<Longrightarrow> tbl s q = Some f \<Longrightarrow> p = q"
  unfolding pt_wf_def by blast

lemma pt_wf_used: "pt_wf R s \<Longrightarrow> table_path R p \<Longrightarrow> tbl s p = Some f \<Longrightarrow>
    bitmap_test (page_alloc_bitmap s) (unat f)"
  unfolding pt_wf_def by blast

lemma pt_wf_recursive: "pt_wf R s \<Longrightarrow> recursive s"
  by (simp add: pt_wf_def)

lemma table_path_tl: "table_path R (i # p) \<Longrightarrow> table_path R p"
  by (auto simp: table_path_def split: if_splits)

lemma leaf_path_tl: "leaf_path R q \<Longrightarrow> table_path R (tl q) \<and> length (tl q) = 3"
  by (cases q) (auto simp: table_path_def leaf_path_def)

lemma last_path: "last (path va) = unat (tbl_idx 39 va)"
  by (simp add: path_def)

lemma leaf_path_path: "unat (tbl_idx 39 va) \<in> R \<Longrightarrow> leaf_path R (path va)"
  by (simp add: leaf_path_def path_def tbl_idx_bound)

text \<open>
  Entering a fresh frame \<open>g\<close> as the table at \<open>i # p\<close>. While it is being cleared its contents are
  arbitrary, so only the tables that are not below it are known.
\<close>

lemma tbl_enter:
  assumes wf: "pt_wf R s" and ip: "table_path R (i # p)" and f: "tbl s p = Some f"
    and absent: "\<not> present (pmem s f i)" and v: "present v" "frame_of v = g"
    and fresh: "\<And>q. table_path R q \<Longrightarrow> tbl s q \<noteq> Some g"
    and c: "cr3 t = cr3 s"
    and mem: "\<And>f' j. f' \<noteq> g \<Longrightarrow> pmem t f' j = (if f' = f \<and> j = i then v else pmem s f' j)"
    and q: "table_path R q" "length q \<le> Suc (length p) \<or> (\<forall>j < 512. \<not> present (pmem t g j))"
  shows "tbl t q = (if q = i # p then Some g else tbl s q)"
  using q
proof (induction q)
  case Nil
  then show ?case by (simp add: c)
next
  case (Cons j r)
  have r: "table_path R r" using Cons.prems(1) by (rule table_path_tl)
  have IH: "tbl t r = (if r = i # p then Some g else tbl s r)" using Cons.IH [OF r] Cons.prems(2) by auto
  show ?case
  proof (cases "r = i # p")
    case True
    then have "\<not> present (pmem t g j)" using Cons.prems by (auto simp: table_path_def)
    moreover have "tbl s (j # r) = None" using True f absent by (simp add: next_table_def)
    ultimately show ?thesis using IH True by (auto simp: next_table_def)
  next
    case False
    show ?thesis
    proof (cases "tbl s r")
      case None
      then show ?thesis using IH False f by auto
    next
      case (Some f')
      have "f' \<noteq> g" using fresh [OF r] Some by auto
      moreover have "f' = f \<Longrightarrow> r = p" using pt_wf_inj [OF wf r table_path_tl [OF ip]] Some f by auto
      ultimately show ?thesis using IH False Some f v by (auto simp: next_table_def mem)
    qed
  qed
qed

text \<open>
  What an operation may do to the bitmap, to the set of table frames and to memory: pages only become used, new tables come from
  pages that were free, and a used page that is no table keeps its contents.
\<close>

definition table_frames :: "nat set \<Rightarrow> vm_state \<Rightarrow> u64 set" where
  "table_frames R s = {f. \<exists>q. table_path R q \<and> tbl s q = Some f}"

definition enlarges :: "nat set \<Rightarrow> vm_state \<Rightarrow> vm_state \<Rightarrow> bool" where
  "enlarges R s t \<longleftrightarrow> bmp_size (page_alloc_bitmap t) = bmp_size (page_alloc_bitmap s) \<and>
     (\<forall>k. bitmap_test (page_alloc_bitmap s) k \<longrightarrow> bitmap_test (page_alloc_bitmap t) k) \<and>
     table_frames R t \<subseteq> table_frames R s \<union> {f. \<not> bitmap_test (page_alloc_bitmap s) (unat f)} \<and>
     cr3 t = cr3 s \<and> (\<forall>f. bitmap_test (page_alloc_bitmap s) (unat f) \<and> f \<notin> table_frames R s \<longrightarrow> pmem t f = pmem s f)"

lemma enlarges_refl: "enlarges R s s"
  by (simp add: enlarges_def)

lemma enlarges_trans: "enlarges R s t \<Longrightarrow> enlarges R t u \<Longrightarrow> enlarges R s u"
proof -
  assume a: "enlarges R s t" "enlarges R t u"
  have "pmem u f = pmem s f" if "bitmap_test (page_alloc_bitmap s) (unat f)" "f \<notin> table_frames R s" for f
  proof -
    have "bitmap_test (page_alloc_bitmap t) (unat f)" "f \<notin> table_frames R t" "pmem t f = pmem s f" using a(1) that unfolding enlarges_def by auto
    then show ?thesis using a(2) unfolding enlarges_def by simp
  qed
  then show ?thesis using a unfolding enlarges_def by auto
qed

text \<open>Pages allocated one at a time are the lowest free ones: no free page is left below one of them.\<close>

definition low_fill :: "bitmap_t \<Rightarrow> bitmap_t \<Rightarrow> bool" where
  "low_fill b b' \<longleftrightarrow> (\<forall>j k. bitmap_test b' k \<and> \<not> bitmap_test b k \<and> j < k \<longrightarrow> bitmap_test b' j)"

definition extends :: "nat set \<Rightarrow> vm_state \<Rightarrow> vm_state \<Rightarrow> bool" where
  "extends R s t \<longleftrightarrow> enlarges R s t \<and> low_fill (page_alloc_bitmap s) (page_alloc_bitmap t)"

lemma extends_refl: "extends R s s"
  by (auto simp: extends_def enlarges_refl low_fill_def)

lemma extends_trans: "extends R s t \<Longrightarrow> extends R t u \<Longrightarrow> extends R s u"
  using enlarges_trans [of R s t u] unfolding extends_def low_fill_def by (metis enlarges_def)

lemma extendsD: "extends R s t \<Longrightarrow> enlarges R s t" "extends R s t \<Longrightarrow> cr3 t = cr3 s"
  by (simp_all add: extends_def enlarges_def)

text \<open>The finished insertion: the new table is empty, so no translation changes.\<close>

definition enters :: "nat set \<Rightarrow> vm_state \<Rightarrow> nat list \<Rightarrow> u64 \<Rightarrow> vm_state \<Rightarrow> bool" where
  "enters R s q g t \<longleftrightarrow> cr3 t = cr3 s \<and> pt_wf R t \<and> tbl t q = Some g \<and>
     (\<forall>q'. leaf_path R q' \<longrightarrow> leaf t q' = leaf s q') \<and> extends R s t"

lemma enter_table:
  assumes wf: "pt_wf R s" and ip: "table_path R (i # p)" and f: "tbl s p = Some f"
    and absent: "\<not> present (pmem s f i)" and v: "present v" "frame_of v = g"
    and fresh: "\<And>q. table_path R q \<Longrightarrow> tbl s q \<noteq> Some g"
    and c: "cr3 t = cr3 s"
    and mem: "\<And>f' j. f' \<noteq> g \<Longrightarrow> pmem t f' j = (if f' = f \<and> j = i then v else pmem s f' j)"
    and zero: "\<forall>j < 512. \<not> present (pmem t g j)"
    and free: "\<not> bitmap_test (page_alloc_bitmap s) (unat g)" and low: "\<And>k. k < unat g \<Longrightarrow> bitmap_test (page_alloc_bitmap s) k"
    and bmp: "bmp_size (page_alloc_bitmap t) = bmp_size (page_alloc_bitmap s)"
      "\<And>k. bitmap_test (page_alloc_bitmap t) k \<longleftrightarrow> bitmap_test (page_alloc_bitmap s) k \<or> k = unat g"
  shows "enters R s (i # p) g t"
proof -
  have T: "tbl t q = (if q = i # p then Some g else tbl s q)" if "table_path R q" for q
    using tbl_enter [OF wf ip f absent v fresh c mem that] zero by auto
  have p: "table_path R p" using ip by (rule table_path_tl)
  have "f = frame_of (cr3 s) \<Longrightarrow> p = []"
    using pt_wf_inj [OF wf p, of "[]"] f by (simp add: table_path_def)
  then have "\<not> (f = frame_of (cr3 s) \<and> i = 511)" using ip wf by (auto simp: table_path_def pt_wf_def)
  moreover have "frame_of (cr3 s) \<noteq> g" using fresh [of "[]"] by (auto simp: table_path_def)
  ultimately have "pmem t (frame_of (cr3 s)) 511 = pmem s (frame_of (cr3 s)) 511" by (subst mem) auto
  then have "recursive t" by (rule recursive_cong [OF pt_wf_recursive [OF wf] c])
  moreover have "p' = q'" if "table_path R p'" "table_path R q'" "tbl t p' = Some h" "tbl t q' = Some h" for p' q' h
    using that fresh [OF that(1)] fresh [OF that(2)] pt_wf_inj [OF wf that(1,2)]
    by (auto simp: T split: if_splits)
  moreover have "bitmap_test (page_alloc_bitmap t) (unat h)" if "table_path R p'" "tbl t p' = Some h" for p' h
    using that pt_wf_used [OF wf that(1)] by (auto simp: T bmp(2) split: if_splits)
  ultimately have "pt_wf R t" using wf unfolding pt_wf_def bmp(1) by blast
  moreover have "leaf t q' = leaf s q'" if "leaf_path R q'" for q'
  proof -
    have r: "table_path R (tl q')" "length (tl q') = 3" "hd q' < 512"
      using leaf_path_tl [OF that] that by (cases q'; auto simp: leaf_path_def)+
    show ?thesis
    proof (cases "tl q' = i # p")
      case True
      then have "leaf t q' = None" using T [OF r(1)] zero r(3) by (simp add: leaf_def del: tbl.simps)
      moreover have "tbl s (tl q') = None" using True f absent by (simp add: next_table_def)
      ultimately show ?thesis by (simp add: leaf_def)
    next
      case False
      have "f' \<noteq> g \<and> (f' = f \<longrightarrow> tl q' = p)" if "tbl s (tl q') = Some f'" for f'
        using that fresh [OF r(1)] pt_wf_inj [OF wf r(1) p that] f by auto
      moreover have "length p \<le> 2" using ip by (simp add: table_path_def)
      ultimately have "pmem t f' (hd q') = pmem s f' (hd q')" if "tbl s (tl q') = Some f'" for f'
        using that r(2) by (subst mem) auto
      with False T [OF r(1)] show ?thesis by (cases "tbl s (tl q')") (simp_all add: leaf_def)
    qed
  qed
  moreover have "pmem t h = pmem s h" if "bitmap_test (page_alloc_bitmap s) (unat h)" "h \<notin> table_frames R s" for h
    using that free f p by (intro ext, subst mem) (auto simp: table_frames_def)
  then have "enlarges R s t"
    unfolding enlarges_def using bmp free T c by (auto simp: table_frames_def split: if_splits)
  then have "extends R s t" using low by (auto simp: extends_def low_fill_def bmp(2))
  ultimately show ?thesis using T [OF ip] c by (simp add: enters_def)
qed

text \<open>Writing a last-level entry changes one translation.\<close>

lemma leaf_store:
  assumes wf: "pt_wf R s" and q: "leaf_path R q" and f: "tbl s (tl q) = Some f"
    and t: "t = s\<lparr>pmem := (pmem s)(f := (pmem s f)(hd q := v))\<rparr>"
  shows "pt_wf R t \<and> leaf t q = (if present v then Some v else None) \<and>
    (\<forall>q'. leaf_path R q' \<longrightarrow> q' \<noteq> q \<longrightarrow> leaf t q' = leaf s q') \<and> cr3 t = cr3 s \<and>
    page_alloc_bitmap t = page_alloc_bitmap s \<and> table_frames R t = table_frames R s \<and> extends R s t \<and> pmem t (frame_of (cr3 s)) = pmem s (frame_of (cr3 s))"
proof -
  have tq: "table_path R (tl q)" "length (tl q) = 3" using leaf_path_tl [OF q] by auto
  have T: "tbl t p = tbl s p" if "table_path R p" for p
    using that
  proof (induction p)
    case (Cons j r)
    have r: "table_path R r" using Cons.prems by (rule table_path_tl)
    have "tbl s r \<noteq> Some f"
      using pt_wf_inj [OF wf r tq(1) _ f] tq(2) Cons.prems by (auto simp: table_path_def)
    then show ?case using Cons.IH [OF r] by (cases "tbl s r") (auto simp: next_table_def t)
  qed (simp add: t)
  have "f \<noteq> frame_of (cr3 s)"
    using pt_wf_inj [OF wf tq(1), of "[]" f] f tq(2) by (cases "tl q") (auto simp: table_path_def)
  then have "recursive t" by (intro recursive_cong [OF pt_wf_recursive [OF wf]]) (simp_all add: t)
  moreover have b: "page_alloc_bitmap t = page_alloc_bitmap s" by (simp add: t)
  ultimately have "pt_wf R t" using wf T unfolding pt_wf_def b by metis
  moreover have "leaf t q = (if present v then Some v else None)"
    using T [OF tq(1)] f by (simp add: leaf_def t)
  moreover have "leaf t q' = leaf s q'" if "leaf_path R q'" "q' \<noteq> q" for q'
  proof -
    have tq': "table_path R (tl q')" using leaf_path_tl [OF that(1)] by auto
    have "tl q' = tl q \<Longrightarrow> hd q' \<noteq> hd q"
      using that q by (cases q; cases q') (auto simp: leaf_path_def)
    then have "tbl s (tl q') = Some f \<Longrightarrow> hd q' \<noteq> hd q" using pt_wf_inj [OF wf tq' tq(1) _ f] by auto
    then show ?thesis using T [OF tq'] by (cases "tbl s (tl q')") (auto simp: leaf_def t)
  qed
  moreover have tf: "table_frames R t = table_frames R s" unfolding table_frames_def using T by auto
  moreover have "f \<in> table_frames R s" using tq f by (auto simp: table_frames_def)
  then have "extends R s t" using tf unfolding extends_def enlarges_def by (auto simp: t low_fill_def)
  moreover have "pmem t (frame_of (cr3 s)) = pmem s (frame_of (cr3 s))" using \<open>f \<noteq> frame_of (cr3 s)\<close> by (simp add: t)
  ultimately show ?thesis by (simp add: t)
qed

section \<open>Mapping one page\<close>

definition flags_ok :: "u64 \<Rightarrow> bool" where
  "flags_ok flags \<longleftrightarrow> flags AND NOT 0xFFF = 0"

definition free_count :: "bitmap_t \<Rightarrow> nat" where
  "free_count bmp = card {k. k < bmp_size bmp \<and> \<not> bitmap_test bmp k}"

lemma low_mask: "(0xFFF :: u64) = mask 12"
  by (simp add: mask_eq_exp_minus_1)

lemma flags_ok_bits: "flags_ok flags \<Longrightarrow> bit flags n \<Longrightarrow> n < 12"
  using bit_imp_le_length [of flags n]
  by (auto simp: flags_ok_def low_mask zero_word_bits bit_and_iff bit_not_iff bit_mask_iff simp del: mask_numeral)

lemma present_iff_bit: "present e \<longleftrightarrow> bit e 0"
  using and_2_pow_eq_0 [of 0 e] by (simp add: present_def)

lemma bit_page_addr: "bit (page_addr k) (n + 12) \<longleftrightarrow> bit (of_nat k :: u64) n \<and> n + 12 < 64"
proof -
  have "page_addr k = push_bit 12 (of_nat k)"
    by (simp add: page_addr_def PAGE_SIZE_def push_bit_eq_mult)
  then show ?thesis by (auto simp: bit_push_bit_iff)
qed

lemma frame_of_new_entry:
  assumes "k < 2 ^ 40" and "flags_ok flags"
  shows "frame_of (page_addr k OR flags OR 1) = of_nat k"
proof (rule bit_word_eqI)
  fix n assume n: "n < LENGTH(64)"
  have k: "n < 40" if "bit (of_nat k :: u64) n"
    using small_word_bits [of "of_nat k :: u64" 40 n] that assms(1)
    by (simp add: unsigned_of_nat take_bit_nat_eq_self)
  show "bit (frame_of (page_addr k OR flags OR 1)) n \<longleftrightarrow> bit (of_nat k :: u64) n"
    using flags_ok_bits [OF assms(2), of "n + 12"] k
    by (auto simp: frame_of_def bit_and_iff bit_drop_bit_eq bit_or_iff bit_mask_iff add.commute
        bit_page_addr [unfolded add.commute [of n]] bit_1_iff)
qed

lemma alloc_page_fresh:
  assumes wf: "pt_wf R s" and free: "0 < free_count (page_alloc_bitmap s)"
  obtains k bmp where "alloc_pages (page_alloc_bitmap s) 0 = Some (page_addr k, bmp)"
    "k < 2 ^ 31" "bmp_size bmp = bmp_size (page_alloc_bitmap s)"
    "\<not> bitmap_test (page_alloc_bitmap s) k"
    "\<And>j. bitmap_test bmp j \<longleftrightarrow> bitmap_test (page_alloc_bitmap s) j \<or> j = k"
    "free_count bmp = free_count (page_alloc_bitmap s) - 1" "\<And>j. j < k \<Longrightarrow> bitmap_test (page_alloc_bitmap s) j"
proof -
  let ?b = "page_alloc_bitmap s"
  have sz: "bmp_size ?b < 2 ^ 31" "2 ^ 0 \<le> bmp_size ?b" using wf by (auto simp: pt_wf_def)
  obtain k0 where "k0 < bmp_size ?b" "\<not> bitmap_test ?b k0"
    using free by (auto simp: free_count_def card_gt_0_iff)
  then have ex: "\<exists>p. p + 2 ^ 0 \<le> bmp_size ?b \<and> free_run ?b p (2 ^ 0)"
    by (intro exI [of _ k0]) (simp add: free_run_def)
  from alloc_pages_cases [OF sz(1) _ sz(2)] ex obtain k bmp where
    *: "alloc_pages ?b 0 = Some (page_addr k, bmp)" "k + 2 ^ 0 \<le> bmp_size ?b" "free_run ?b k (2 ^ 0)"
    "bmp_size bmp = bmp_size ?b" "\<forall>j. bitmap_test bmp j \<longleftrightarrow> bitmap_test ?b j \<or> (k \<le> j \<and> j < k + 2 ^ 0)"
    "\<forall>q < k. \<not> free_run ?b q (2 ^ 0)"
    by (metis zero_less_numeral)
  have low: "bitmap_test ?b j" if "j < k" for j using *(6) that by (simp add: free_run_def)
  have free_k: "\<not> bitmap_test ?b k" using *(3) by (auto simp: free_run_def)
  have t: "bitmap_test bmp j \<longleftrightarrow> bitmap_test ?b j \<or> j = k" for j using *(5) by auto
  have "{j. j < bmp_size bmp \<and> \<not> bitmap_test bmp j} = {j. j < bmp_size ?b \<and> \<not> bitmap_test ?b j} - {k}"
    using t *(4) by auto
  then have "free_count bmp = free_count ?b - 1"
    using free_k *(2) by (simp add: free_count_def)
  with * free_k t low sz that show ?thesis by auto
qed

lemma clear_table_zeroes:
  assumes "\<And>t j. j < n \<Longrightarrow> cr3 t = cr3 s \<Longrightarrow> (\<And>f'. f' \<noteq> g \<Longrightarrow> pmem t f' = pmem s f') \<Longrightarrow>
      translate t (table + 8 * of_nat j) = Some (g, j)"
  shows "clear_table s table n = Some (s\<lparr>pmem := (pmem s)(g := (\<lambda>j. if j < n then 0 else pmem s g j))\<rparr>)"
  using assms
proof (induction n)
  case 0
  then show ?case by (simp add: clear_table_def)
next
  case (Suc n)
  let ?t = "s\<lparr>pmem := (pmem s)(g := (\<lambda>j. if j < n then 0 else pmem s g j))\<rparr>"
  have "clear_table s table (Suc n) =
      do { t \<leftarrow> clear_table s table n; store64 t (table + 8 * of_nat n) 0 }"
    by (simp add: clear_table_def)
  also have "clear_table s table n = Some ?t" by (rule Suc.IH) (use Suc.prems in auto)
  also have "do { t \<leftarrow> Some ?t; store64 t (table + 8 * of_nat n) 0 } = store64 ?t (table + 8 * of_nat n) 0"
    by (simp only: Option.bind_lunit)
  also have "\<dots> = Some (?t\<lparr>pmem := (pmem ?t)(g := (pmem ?t g)(n := 0))\<rparr>)"
    using Suc.prems [of n ?t] by (simp add: store64_def)
  also have "(pmem ?t g)(n := 0) = (\<lambda>j. if j < Suc n then 0 else pmem s g j)" by (auto simp: less_Suc_eq)
  finally show ?case by (simp add: fun_upd_def cong: if_cong)
qed

text \<open>
  Reading the entry at \<open>i\<close> of the table at \<open>p\<close>, and accessing the table below it, through the recursive slot.
\<close>

definition reaches :: "u64 \<Rightarrow> nat list \<Rightarrow> nat \<Rightarrow> bool" where
  "reaches ptr p i \<longleftrightarrow> (\<forall>t. recursive t \<longrightarrow> translate t ptr = map_option (\<lambda>f. (f, i)) (tbl t p))"

lemma reachesD: "reaches ptr p i \<Longrightarrow> recursive t \<Longrightarrow> translate t ptr = map_option (\<lambda>f. (f, i)) (tbl t p)"
  by (simp add: reaches_def)

lemma enters_refl: "pt_wf R s \<Longrightarrow> tbl s q = Some g \<Longrightarrow> enters R s q g s"
  by (simp add: enters_def extends_refl)

lemma ensure_table_spec:
  assumes wf: "pt_wf R s" and ip: "table_path R (i # p)" and f: "tbl s p = Some f"
    and fl: "flags_ok flags" and free: "0 < free_count (page_alloc_bitmap s)"
    and ptr: "reaches entry p i" and tab: "\<And>j. j < 512 \<Longrightarrow> reaches (table + 8 * of_nat j) (i # p) j"
  shows "\<exists>t g. ensure_table s entry table flags = Some t \<and> enters R s (i # p) g t \<and>
    free_count (page_alloc_bitmap s) - 1 \<le> free_count (page_alloc_bitmap t)"
proof (cases "present (pmem s f i)")
  case True
  then have "ensure_table s entry table flags = Some s"
    using reachesD [OF ptr pt_wf_recursive [OF wf]] f by (simp add: ensure_table_def load64_def)
  moreover have "tbl s (i # p) = Some (frame_of (pmem s f i))" using f True by (simp add: next_table_def)
  ultimately show ?thesis using enters_refl [OF wf] by fastforce
next
  case False
  obtain k bmp where k: "alloc_pages (page_alloc_bitmap s) 0 = Some (page_addr k, bmp)"
    "k < 2 ^ 31" "bmp_size bmp = bmp_size (page_alloc_bitmap s)" "\<not> bitmap_test (page_alloc_bitmap s) k"
    "\<And>j. bitmap_test bmp j \<longleftrightarrow> bitmap_test (page_alloc_bitmap s) j \<or> j = k"
    "free_count bmp = free_count (page_alloc_bitmap s) - 1" "\<And>j. j < k \<Longrightarrow> bitmap_test (page_alloc_bitmap s) j"
    using alloc_page_fresh [OF wf free] by metis
  define g :: u64 where "g = of_nat k"
  have ug: "unat g = k" using k(2) by (simp add: g_def unsigned_of_nat take_bit_nat_eq_self)
  let ?v = "page_addr k OR flags OR 1"
  have v: "present ?v" "frame_of ?v = g"
    using frame_of_new_entry [OF _ fl, of k] k(2) by (auto simp: present_iff_bit bit_or_iff g_def)
  have fresh: "tbl s q \<noteq> Some g" if "table_path R q" for q using pt_wf_used [OF wf that] k(4) ug by auto
  let ?s1 = "s\<lparr>page_alloc_bitmap := bmp, pmem := (pmem s)(f := (pmem s f)(i := ?v))\<rparr>"
  have fg: "f \<noteq> g" using fresh [OF table_path_tl [OF ip]] f by auto
  have tr: "translate t (table + 8 * of_nat j) = Some (g, j)"
    if "j < 512" "cr3 t = cr3 ?s1" "\<And>f'. f' \<noteq> g \<Longrightarrow> pmem t f' = pmem ?s1 f'" for t j
  proof -
    have mem: "pmem t f' j' = (if f' = f \<and> j' = i then ?v else pmem s f' j')" if "f' \<noteq> g" for f' j'
      using \<open>\<And>f'. f' \<noteq> g \<Longrightarrow> pmem t f' = pmem ?s1 f'\<close> [OF that] by simp
    have c: "cr3 t = cr3 s" using that(2) by simp
    have "tbl t (i # p) = Some g" using tbl_enter [OF wf ip f False v fresh c mem ip] by simp
    moreover have "recursive t"
    proof -
      have root: "table_path R []" by (simp add: table_path_def)
      have "frame_of (cr3 s) \<noteq> g" using fresh [OF root] by auto
      moreover have "f = frame_of (cr3 s) \<Longrightarrow> i \<noteq> 511"
        using pt_wf_inj [OF wf table_path_tl [OF ip] root f] ip wf by (auto simp: table_path_def pt_wf_def)
      ultimately have "pmem t (frame_of (cr3 s)) 511 = pmem s (frame_of (cr3 s)) 511"
        by (subst mem) auto
      then show ?thesis by (rule recursive_cong [OF pt_wf_recursive [OF wf] c])
    qed
    ultimately show ?thesis using reachesD [OF tab [OF that(1)]] by simp
  qed
  let ?t = "?s1\<lparr>pmem := (pmem ?s1)(g := (\<lambda>j. if j < 512 then 0 else pmem ?s1 g j))\<rparr>"
  have "translate s entry = Some (f, i)" using reachesD [OF ptr pt_wf_recursive [OF wf]] f by simp
  moreover have "translate (s\<lparr>page_alloc_bitmap := bmp\<rparr>) entry = translate s entry"
    by (simp add: translate_def next_table_def)
  moreover have "clear_table ?s1 table 512 = Some ?t" using tr by (rule clear_table_zeroes)
  ultimately have "ensure_table s entry table flags = Some ?t"
    using False k(1) by (simp add: ensure_table_def load64_def store64_def)
  moreover have "enters R s (i # p) g ?t"
    by (rule enter_table [OF wf ip f False v fresh])
      (use k fg ug in \<open>auto simp: present_def\<close>)
  ultimately show ?thesis using k(6) by (intro exI [of _ ?t] exI [of _ g]) simp
qed

text \<open>The pointers of a walk, for any address.\<close>

lemma reaches_tables:
  defines "a \<equiv> \<lambda>va. unat (tbl_idx 39 va)" and "b \<equiv> \<lambda>va. unat (tbl_idx 30 va)"
    and "c \<equiv> \<lambda>va. unat (tbl_idx 21 va)" and "d \<equiv> \<lambda>va. unat (tbl_idx 12 va)"
  shows "reaches (map_pml4 + 8 * tbl_idx 39 va) [] (a va)"
    "j < 512 \<Longrightarrow> reaches (map_pdpt (tbl_idx 39 va) + 8 * of_nat j) [a va] j"
    "reaches (map_pdpt (tbl_idx 39 va) + 8 * tbl_idx 30 va) [a va] (b va)"
    "j < 512 \<Longrightarrow> reaches (map_pd (tbl_idx 39 va) (tbl_idx 30 va) + 8 * of_nat j) [b va, a va] j"
    "reaches (map_pd (tbl_idx 39 va) (tbl_idx 30 va) + 8 * tbl_idx 21 va) [b va, a va] (c va)"
    "j < 512 \<Longrightarrow> reaches (map_pt (tbl_idx 39 va) (tbl_idx 30 va) (tbl_idx 21 va) + 8 * of_nat j) [c va, b va, a va] j"
    "reaches (map_pt (tbl_idx 39 va) (tbl_idx 30 va) (tbl_idx 21 va) + 8 * tbl_idx 12 va) [c va, b va, a va] (d va)"
proof -
  have lt: "a va < 512" "b va < 512" "c va < 512" "d va < 512"
    by (simp_all add: a_def b_def c_def d_def tbl_idx_bound)
  have w: "tbl_idx 39 va = of_nat (a va)" "tbl_idx 30 va = of_nat (b va)" "tbl_idx 21 va = of_nat (c va)"
    "tbl_idx 12 va = of_nat (d va)" by (simp_all add: a_def b_def c_def d_def)
  show "reaches (map_pml4 + 8 * tbl_idx 39 va) [] (a va)"
    "j < 512 \<Longrightarrow> reaches (map_pdpt (tbl_idx 39 va) + 8 * of_nat j) [a va] j"
    "reaches (map_pdpt (tbl_idx 39 va) + 8 * tbl_idx 30 va) [a va] (b va)"
    "j < 512 \<Longrightarrow> reaches (map_pd (tbl_idx 39 va) (tbl_idx 30 va) + 8 * of_nat j) [b va, a va] j"
    "reaches (map_pd (tbl_idx 39 va) (tbl_idx 30 va) + 8 * tbl_idx 21 va) [b va, a va] (c va)"
    "j < 512 \<Longrightarrow> reaches (map_pt (tbl_idx 39 va) (tbl_idx 30 va) (tbl_idx 21 va) + 8 * of_nat j) [c va, b va, a va] j"
    "reaches (map_pt (tbl_idx 39 va) (tbl_idx 30 va) (tbl_idx 21 va) + 8 * tbl_idx 12 va) [c va, b va, a va] (d va)"
    unfolding w reaches_def using lt by (blast intro: translate_tables)+
qed

lemma path_Cons: "path va = hd (path va) # tl (path va)"
  by (simp add: path_def)

lemma map_one_spec:
  assumes wf: "pt_wf R s" and R: "unat (tbl_idx 39 va) \<in> R"
    and fl: "flags_ok flags" and free: "3 \<le> free_count (page_alloc_bitmap s)"
  shows "\<exists>t. map_one s pa va flags = Some (leaf s (path va) = None, t) \<and> pt_wf R t \<and>
    leaf t (path va) = Some (case leaf s (path va) of None \<Rightarrow> (pa AND NOT 0xFFF) OR flags OR 1 | Some e \<Rightarrow> e) \<and>
    (\<forall>q. leaf_path R q \<longrightarrow> q \<noteq> path va \<longrightarrow> leaf t q = leaf s q) \<and>
    free_count (page_alloc_bitmap s) - 3 \<le> free_count (page_alloc_bitmap t) \<and> extends R s t"
proof -
  let ?a = "unat (tbl_idx 39 va)" and ?b = "unat (tbl_idx 30 va)" and ?c = "unat (tbl_idx 21 va)"
  let ?fc = "\<lambda>s. free_count (page_alloc_bitmap s)"
  have tp: "table_path R [?a]" "table_path R [?b, ?a]" "table_path R [?c, ?b, ?a]"
    using R by (simp_all add: table_path_def tbl_idx_bound)
  note P = reaches_tables [where va = va]
  obtain s1 g1 where 1: "ensure_table s (map_pml4 + 8 * tbl_idx 39 va) (map_pdpt (tbl_idx 39 va)) flags = Some s1"
    "enters R s [?a] g1 s1" "?fc s - 1 \<le> ?fc s1"
    using ensure_table_spec [OF wf tp(1) _ fl _ P(1) P(2)] free by force
  then have w1: "pt_wf R s1" "tbl s1 [?a] = Some g1" by (auto simp: enters_def simp del: tbl.simps)
  obtain s2 g2 where 2: "ensure_table s1 (map_pdpt (tbl_idx 39 va) + 8 * tbl_idx 30 va)
      (map_pd (tbl_idx 39 va) (tbl_idx 30 va)) flags = Some s2"
    "enters R s1 [?b, ?a] g2 s2" "?fc s1 - 1 \<le> ?fc s2"
    using ensure_table_spec [OF w1(1) tp(2) w1(2) fl _ P(3) P(4)] free 1(3) by force
  then have w2: "pt_wf R s2" "tbl s2 [?b, ?a] = Some g2" by (auto simp: enters_def simp del: tbl.simps)
  obtain s3 g3 where 3: "ensure_table s2 (map_pd (tbl_idx 39 va) (tbl_idx 30 va) + 8 * tbl_idx 21 va)
      (map_pt (tbl_idx 39 va) (tbl_idx 30 va) (tbl_idx 21 va)) flags = Some s3"
    "enters R s2 [?c, ?b, ?a] g3 s3" "?fc s2 - 1 \<le> ?fc s3"
    using ensure_table_spec [OF w2(1) tp(3) w2(2) fl _ P(5) P(6)] free 1(3) 2(3) by force
  then have w3: "pt_wf R s3" "tbl s3 (tl (path va)) = Some g3" by (auto simp: enters_def path_def simp del: tbl.simps)
  have same: "leaf s3 q = leaf s q" if "leaf_path R q" for q
    using that 1(2) 2(2) 3(2) by (simp add: enters_def)
  have ext: "extends R s s3"
    using 1(2) 2(2) 3(2) extends_trans unfolding enters_def by blast
  let ?pt = "map_pt (tbl_idx 39 va) (tbl_idx 30 va) (tbl_idx 21 va) + 8 * tbl_idx 12 va"
  have tr: "translate s3 ?pt = Some (g3, hd (path va))"
    using reachesD [OF P(7) pt_wf_recursive [OF w3(1)]] w3(2) by (simp add: path_def)
  have lp: "leaf_path R (path va)" using R by (rule leaf_path_path)
  have l3: "leaf s (path va) = (if present (pmem s3 g3 (hd (path va))) then Some (pmem s3 g3 (hd (path va))) else None)"
    using same [OF lp] w3(2) by (simp add: leaf_def)
  have steps: "map_one s pa va flags = do { e \<leftarrow> load64 s3 ?pt;
      if present e then Some (False, s3)
      else do { s \<leftarrow> store64 s3 ?pt ((pa AND NOT 0xFFF) OR flags OR 1); Some (True, s) } }"
    by (simp add: map_one_def 1(1) 2(1) 3(1) Let_def)
  show ?thesis
  proof (cases "leaf s (path va)")
    case (Some e)
    then have "map_one s pa va flags = Some (False, s3)"
      using steps tr l3 by (auto simp: load64_def split: if_splits)
    with Some w3(1) same lp 1(3) 2(3) 3(3) ext show ?thesis by auto
  next
    case None
    let ?v = "(pa AND NOT 0xFFF) OR flags OR 1"
    let ?t = "s3\<lparr>pmem := (pmem s3)(g3 := (pmem s3 g3)(hd (path va) := ?v))\<rparr>"
    have "map_one s pa va flags = Some (True, ?t)"
      using steps tr l3 None by (auto simp: load64_def store64_def split: if_splits)
    moreover have "present ?v" by (simp add: present_iff_bit bit_or_iff)
    ultimately show ?thesis
      using leaf_store [OF w3(1) lp w3(2) refl, of ?v] extends_trans [OF ext] None same 1(3) 2(3) 3(3)
      by auto
  qed
qed

section \<open>Reading and removing translations\<close>

text \<open>The three tests before the last-level access are the walk itself.\<close>

lemma load64_reaches:
  "reaches ptr p i \<Longrightarrow> recursive s \<Longrightarrow> load64 s ptr = map_option (\<lambda>f. pmem s f i) (tbl s p)"
  by (cases "tbl s p") (simp_all add: load64_def reachesD)

lemma walk_cases:
  fixes s :: vm_state and va :: u64
  defines "a \<equiv> unat (tbl_idx 39 va)" and "b \<equiv> unat (tbl_idx 30 va)" and "c \<equiv> unat (tbl_idx 21 va)"
  assumes "recursive s"
  obtains (l4) e4 where "load64 s (map_pml4 + 8 * tbl_idx 39 va) = Some e4" "\<not> present e4" "leaf s (path va) = None"
  | (l3) e4 e3 where "load64 s (map_pml4 + 8 * tbl_idx 39 va) = Some e4" "present e4"
      "load64 s (map_pdpt (tbl_idx 39 va) + 8 * tbl_idx 30 va) = Some e3" "\<not> present e3"
      "leaf s (path va) = None"
  | (l2) e4 e3 e2 where "load64 s (map_pml4 + 8 * tbl_idx 39 va) = Some e4" "present e4"
      "load64 s (map_pdpt (tbl_idx 39 va) + 8 * tbl_idx 30 va) = Some e3" "present e3"
      "load64 s (map_pd (tbl_idx 39 va) (tbl_idx 30 va) + 8 * tbl_idx 21 va) = Some e2" "\<not> present e2"
      "leaf s (path va) = None"
  | (l1) e4 e3 e2 f e1 where "load64 s (map_pml4 + 8 * tbl_idx 39 va) = Some e4" "present e4"
      "load64 s (map_pdpt (tbl_idx 39 va) + 8 * tbl_idx 30 va) = Some e3" "present e3"
      "load64 s (map_pd (tbl_idx 39 va) (tbl_idx 30 va) + 8 * tbl_idx 21 va) = Some e2" "present e2"
      "load64 s (map_pt (tbl_idx 39 va) (tbl_idx 30 va) (tbl_idx 21 va) + 8 * tbl_idx 12 va) = Some e1"
      "translate s (map_pt (tbl_idx 39 va) (tbl_idx 30 va) (tbl_idx 21 va) + 8 * tbl_idx 12 va) =
        Some (f, hd (path va))" "tbl s (tl (path va)) = Some f"
      "leaf s (path va) = (if present e1 then Some e1 else None)"
proof -
  note P = reaches_tables [where va = va, folded a_def b_def c_def]
  note L = load64_reaches [OF _ assms(4)]
  let ?e4 = "pmem s (frame_of (cr3 s)) a"
  let ?e3 = "pmem s (frame_of ?e4) b"
  let ?e2 = "pmem s (frame_of ?e3) c"
  let ?e1 = "pmem s (frame_of ?e2) (hd (path va))"
  have path: "path va = [unat (tbl_idx 12 va), c, b, a]" by (simp add: path_def a_def b_def c_def)
  have t1: "tbl s [a] = (if present ?e4 then Some (frame_of ?e4) else None)" by (simp add: next_table_def)
  have t2: "tbl s [b, a] = (if present ?e4 \<and> present ?e3 then Some (frame_of ?e3) else None)"
    by (simp add: next_table_def)
  have t3: "tbl s [c, b, a] = (if present ?e4 \<and> present ?e3 \<and> present ?e2 then Some (frame_of ?e2) else None)"
    by (simp add: next_table_def)
  note r = L [OF P(1)] L [OF P(3)] L [OF P(5)] L [OF P(7)] reachesD [OF P(7) assms(4)]
  show thesis
  proof (cases "present ?e4")
    case False
    then show thesis using l4 [of ?e4] r t3 by (simp add: leaf_def path del: tbl.simps(2))
  next
    case p4: True
    show thesis
    proof (cases "present ?e3")
      case False
      then show thesis using p4 l3 [of ?e4 ?e3] r t1 t3 by (simp add: leaf_def path del: tbl.simps(2))
    next
      case p3: True
      show thesis
      proof (cases "present ?e2")
        case False
        then show thesis using p4 p3 l2 [of ?e4 ?e3 ?e2] r t1 t2 t3 by (simp add: leaf_def path del: tbl.simps(2))
      next
        case True
        then show thesis using p4 p3 l1 [of ?e4 ?e3 ?e2 ?e1 "frame_of ?e2"] r t1 t2 t3
          by (simp add: leaf_def path del: tbl.simps(2))
      qed
    qed
  qed
qed

lemma get_physaddr_leaf:
  assumes "recursive s"
  shows "get_physaddr s va = Some (case leaf s (path va) of
    None \<Rightarrow> - MAP_ERR_NOTMAPPED | Some e \<Rightarrow> (e AND NOT 0xFFF) + (va AND 0xFFF))"
  by (rule walk_cases [OF assms, of va]) (simp_all add: get_physaddr_def Let_def)

lemma unmap_one_spec:
  assumes wf: "pt_wf R s" and R: "unat (tbl_idx 39 va) \<in> R"
  shows "\<exists>t. unmap_one s va = Some (leaf s (path va) \<noteq> None, t) \<and> pt_wf R t \<and> leaf t (path va) = None \<and>
    (\<forall>q. leaf_path R q \<longrightarrow> q \<noteq> path va \<longrightarrow> leaf t q = leaf s q) \<and>
    page_alloc_bitmap t = page_alloc_bitmap s \<and> table_frames R t = table_frames R s \<and> extends R s t \<and> pmem t (frame_of (cr3 s)) = pmem s (frame_of (cr3 s))"
proof (rule walk_cases [OF pt_wf_recursive [OF wf], of va])
  fix e4 e3 e2 f e1
  assume l1: "load64 s (map_pml4 + 8 * tbl_idx 39 va) = Some e4" "present e4"
    "load64 s (map_pdpt (tbl_idx 39 va) + 8 * tbl_idx 30 va) = Some e3" "present e3"
    "load64 s (map_pd (tbl_idx 39 va) (tbl_idx 30 va) + 8 * tbl_idx 21 va) = Some e2" "present e2"
    "load64 s (map_pt (tbl_idx 39 va) (tbl_idx 30 va) (tbl_idx 21 va) + 8 * tbl_idx 12 va) = Some e1"
    "translate s (map_pt (tbl_idx 39 va) (tbl_idx 30 va) (tbl_idx 21 va) + 8 * tbl_idx 12 va) =
      Some (f, hd (path va))" "tbl s (tl (path va)) = Some f"
    "leaf s (path va) = (if present e1 then Some e1 else None)"
  show ?thesis
  proof (cases "present e1")
    case True
    let ?t = "s\<lparr>pmem := (pmem s)(f := (pmem s f)(hd (path va) := 0))\<rparr>"
    have "unmap_one s va = Some (True, ?t)" using l1 True by (simp add: unmap_one_def store64_def Let_def)
    with leaf_store [OF wf leaf_path_path [OF R] l1(9) refl, of 0] True l1(10)
    show ?thesis by (simp add: present_def)
  next
    case False
    with l1 wf show ?thesis by (auto simp: unmap_one_def Let_def extends_refl)
  qed
qed (use wf in \<open>auto simp: unmap_one_def Let_def extends_refl\<close>)

section \<open>Ranges\<close>

definition page_at :: "u64 \<Rightarrow> nat \<Rightarrow> u64" where
  "page_at a k = a + of_nat k * 0x1000"

lemma page_at_0 [simp]: "page_at a 0 = a"
  by (simp add: page_at_def)

lemma page_at_step: "page_at (a + 0x1000) k = page_at a (Suc k)"
  by (simp add: page_at_def algebra_simps)

lemma mod_by_digits: "(x :: nat) mod 2 ^ 36 =
    ((x div 2 ^ 27 mod 512 * 512 + x div 2 ^ 18 mod 512) * 512 + x div 2 ^ 9 mod 512) * 512 + x mod 512"
proof -
  have "x mod (512 * (512 * (512 * 512))) =
    512 * (512 * (512 * (x div 512 div 512 div 512 mod 512) + x div 512 div 512 mod 512) + x div 512 mod 512) + x mod 512"
    by (simp only: mod_mult2_eq)
  moreover have "x div 512 div 512 = x div 2 ^ 18" "x div 512 div 512 div 512 = x div 2 ^ 27"
    by (simp_all add: div_mult2_eq [symmetric])
  ultimately show ?thesis by (simp add: algebra_simps)
qed

lemma path_page: "path va = path vb \<Longrightarrow> unat va div 2 ^ 12 mod 2 ^ 36 = unat vb div 2 ^ 12 mod 2 ^ 36"
proof -
  have d: "(n :: nat) div 2 ^ 39 = n div 2 ^ 12 div 2 ^ 27" "n div 2 ^ 30 = n div 2 ^ 12 div 2 ^ 18"
    "n div 2 ^ 21 = n div 2 ^ 12 div 2 ^ 9" for n
    by (simp_all only: div_mult2_eq [symmetric] power_add [symmetric]) simp_all
  assume "path va = path vb"
  then show ?thesis by (simp only: path_def tbl_idx_unat d mod_by_digits [of "_ div 2 ^ 12"] list.inject)
qed

lemma unat_page_at: "unat (page_at a k) div 2 ^ 12 mod 2 ^ 36 = (unat a div 2 ^ 12 + k) mod 2 ^ 36"
proof -
  have "unat (page_at a k) = (unat a + k * 2 ^ 12) mod (2 ^ 12 * 2 ^ 52)"
    by (simp add: page_at_def unat_word_ariths unsigned_of_nat take_bit_eq_mod mod_simps)
  also have "\<dots> div 2 ^ 12 = (unat a div 2 ^ 12 + k) mod 2 ^ 52"
    by (subst mod_mult2_eq) (simp add: add.commute)
  also have "\<dots> mod 2 ^ 36 = (unat a div 2 ^ 12 + k) mod 2 ^ 36"
    by (rule mod_mod_cancel) simp
  finally show ?thesis .
qed

lemma mod_add_inj: "(x + j) mod n = (x + k) mod n \<Longrightarrow> j < n \<Longrightarrow> k < n \<Longrightarrow> j = (k :: nat)"
proof (induction j k rule: linorder_wlog)
  case (le j k)
  then have "n dvd (x + k) - (x + j)" using mod_eq_dvd_iff_nat [of "x + j" "x + k" n] by simp
  then have "n dvd k - j" by simp
  then show ?case using le nat_dvd_not_less [of "k - j" n] by fastforce
qed auto

lemma path_page_at_inj:
  assumes "path (page_at a j) = path (page_at a k)" and "j < 2 ^ 36" "k < 2 ^ 36"
  shows "j = k"
proof -
  have "(unat a div 2 ^ 12 + j) mod 2 ^ 36 = (unat a div 2 ^ 12 + k) mod 2 ^ 36"
    using path_page [OF assms(1)] by (simp only: unat_page_at)
  then show ?thesis using assms(2,3) by (rule mod_add_inj)
qed

lemma map_loop_prefix:
  assumes "pt_wf R s" and "flags_ok flags" and "m < 2 ^ 36" and "i + m \<le> len"
    and "3 * m \<le> free_count (page_alloc_bitmap s)"
    and "\<forall>k < m. unat (tbl_idx 39 (page_at va k)) \<in> R \<and> leaf s (path (page_at va k)) = None"
  shows "\<exists>t. map_loop s va0 flags len i pa va =
      map_loop t va0 flags len (i + m) (page_at pa m) (page_at va m) \<and> pt_wf R t \<and>
    (\<forall>k < m. leaf t (path (page_at va k)) = Some ((page_at pa k AND NOT 0xFFF) OR flags OR 1)) \<and>
    (\<forall>q. leaf_path R q \<longrightarrow> q \<notin> (\<lambda>k. path (page_at va k)) ` {..<m} \<longrightarrow> leaf t q = leaf s q) \<and>
    free_count (page_alloc_bitmap s) - 3 * m \<le> free_count (page_alloc_bitmap t) \<and> extends R s t"
  using assms
proof (induction m arbitrary: s i pa va)
  case 0
  then show ?case by (auto simp: extends_refl)
next
  case (Suc m)
  have va: "unat (tbl_idx 39 va) \<in> R" "leaf s (path va) = None" using Suc.prems(6) by force+
  obtain s1 where 1: "map_one s pa va flags = Some (True, s1)" "pt_wf R s1"
    "leaf s1 (path va) = Some ((pa AND NOT 0xFFF) OR flags OR 1)"
    "\<forall>q. leaf_path R q \<longrightarrow> q \<noteq> path va \<longrightarrow> leaf s1 q = leaf s q"
    "free_count (page_alloc_bitmap s) - 3 \<le> free_count (page_alloc_bitmap s1)" "extends R s s1"
    using map_one_spec [OF Suc.prems(1) va(1) Suc.prems(2), of pa] Suc.prems(5) va(2) by auto
  have other: "path (page_at va (Suc k)) \<noteq> path va" if "k < m" for k
    using path_page_at_inj [of va "Suc k" 0] that Suc.prems(3) by auto
  have R': "unat (tbl_idx 39 (page_at (va + 0x1000) k)) \<in> R \<and> leaf s1 (path (page_at (va + 0x1000) k)) = None"
    if "k < m" for k
    using Suc.prems(6) 1(4) other [OF that] that leaf_path_path [of "page_at va (Suc k)" R]
    by (auto simp: page_at_step)
  have step: "map_loop s va0 flags len i pa va =
      map_loop s1 va0 flags len (Suc i) (pa + 0x1000) (va + 0x1000)"
    using 1(1) Suc.prems(4) by (subst map_loop.simps) simp
  have fc: "3 * m \<le> free_count (page_alloc_bitmap s1)" using 1(5) Suc.prems(5) by simp
  obtain t where t: "map_loop s1 va0 flags len (Suc i) (pa + 0x1000) (va + 0x1000) =
      map_loop t va0 flags len (Suc i + m) (page_at (pa + 0x1000) m) (page_at (va + 0x1000) m)"
    "pt_wf R t"
    "\<forall>k < m. leaf t (path (page_at (va + 0x1000) k)) = Some ((page_at (pa + 0x1000) k AND NOT 0xFFF) OR flags OR 1)"
    "\<forall>q. leaf_path R q \<longrightarrow> q \<notin> (\<lambda>k. path (page_at (va + 0x1000) k)) ` {..<m} \<longrightarrow> leaf t q = leaf s1 q"
    "free_count (page_alloc_bitmap s1) - 3 * m \<le> free_count (page_alloc_bitmap t)" "extends R s1 t"
    using Suc.IH [of s1 "Suc i" "va + 0x1000" "pa + 0x1000"] 1(2) fc R' Suc.prems(2-4) by auto
  have "path va \<notin> (\<lambda>k. path (page_at (va + 0x1000) k)) ` {..<m}"
    using other by (force simp: page_at_step)
  then have keep: "leaf t (path va) = leaf s1 (path va)" using t(4) leaf_path_path [OF va(1)] by blast
  have "leaf t (path (page_at va k)) = Some ((page_at pa k AND NOT 0xFFF) OR flags OR 1)" if "k < Suc m" for k
    using that keep 1(3) t(3) by (cases k) (auto simp: page_at_step)
  moreover have "leaf t q = leaf s q"
    if "leaf_path R q" "q \<notin> (\<lambda>k. path (page_at va k)) ` {..<Suc m}" for q
    using that t(4) 1(4) by (auto simp: lessThan_Suc_eq_insert_0 image_image page_at_step)
  ultimately show ?case
    using step t(1,2,5) 1(5) extends_trans [OF 1(6) t(6)] by (intro exI [of _ t]) (auto simp: page_at_step)
qed

lemma unmap_loop_prefix:
  assumes "pt_wf R s" and "m < 2 ^ 36" and "i + m \<le> len"
    and "\<forall>k < m. unat (tbl_idx 39 (page_at va k)) \<in> R \<and> leaf s (path (page_at va k)) \<noteq> None"
  shows "\<exists>t. unmap_loop s va len i = unmap_loop t (page_at va m) len (i + m) \<and> pt_wf R t \<and>
    (\<forall>k < m. leaf t (path (page_at va k)) = None) \<and>
    (\<forall>q. leaf_path R q \<longrightarrow> q \<notin> (\<lambda>k. path (page_at va k)) ` {..<m} \<longrightarrow> leaf t q = leaf s q) \<and>
    page_alloc_bitmap t = page_alloc_bitmap s \<and> table_frames R t = table_frames R s \<and> extends R s t \<and> pmem t (frame_of (cr3 s)) = pmem s (frame_of (cr3 s))"
  using assms
proof (induction m arbitrary: s i va)
  case 0
  then show ?case by (auto simp: extends_refl)
next
  case (Suc m)
  have va: "unat (tbl_idx 39 va) \<in> R" "leaf s (path va) \<noteq> None" using Suc.prems(4) by force+
  obtain s1 where 1: "unmap_one s va = Some (True, s1)" "pt_wf R s1" "leaf s1 (path va) = None"
    "\<forall>q. leaf_path R q \<longrightarrow> q \<noteq> path va \<longrightarrow> leaf s1 q = leaf s q" "page_alloc_bitmap s1 = page_alloc_bitmap s" "table_frames R s1 = table_frames R s" "extends R s s1"
    "pmem s1 (frame_of (cr3 s)) = pmem s (frame_of (cr3 s))"
    using unmap_one_spec [OF Suc.prems(1) va(1)] va(2) by auto
  have other: "path (page_at va (Suc k)) \<noteq> path va" if "k < m" for k
    using path_page_at_inj [of va "Suc k" 0] that Suc.prems(2) by auto
  have R': "unat (tbl_idx 39 (page_at (va + 0x1000) k)) \<in> R \<and> leaf s1 (path (page_at (va + 0x1000) k)) \<noteq> None"
    if "k < m" for k
    using Suc.prems(4) 1(4) other [OF that] that leaf_path_path [of "page_at va (Suc k)" R]
    by (auto simp: page_at_step)
  have step: "unmap_loop s va len i = unmap_loop s1 (va + 0x1000) len (Suc i)"
    using 1(1) Suc.prems(3) by (subst unmap_loop.simps) simp
  obtain t where t: "unmap_loop s1 (va + 0x1000) len (Suc i) =
      unmap_loop t (page_at (va + 0x1000) m) len (Suc i + m)" "pt_wf R t"
    "\<forall>k < m. leaf t (path (page_at (va + 0x1000) k)) = None"
    "\<forall>q. leaf_path R q \<longrightarrow> q \<notin> (\<lambda>k. path (page_at (va + 0x1000) k)) ` {..<m} \<longrightarrow> leaf t q = leaf s1 q"
    "page_alloc_bitmap t = page_alloc_bitmap s1" "table_frames R t = table_frames R s1" "extends R s1 t"
    "pmem t (frame_of (cr3 s1)) = pmem s1 (frame_of (cr3 s1))"
    using Suc.IH [of s1 "Suc i" "va + 0x1000"] 1(2) R' Suc.prems(2,3) by auto
  have "path va \<notin> (\<lambda>k. path (page_at (va + 0x1000) k)) ` {..<m}"
    using other by (force simp: page_at_step)
  then have keep: "leaf t (path va) = None" using t(4) leaf_path_path [OF va(1)] 1(3) by simp
  have "leaf t (path (page_at va k)) = None" if "k < Suc m" for k
    using that keep t(3) by (cases k) (auto simp: page_at_step)
  moreover have "leaf t q = leaf s q"
    if "leaf_path R q" "q \<notin> (\<lambda>k. path (page_at va k)) ` {..<Suc m}" for q
    using that t(4) 1(4) by (auto simp: lessThan_Suc_eq_insert_0 image_image page_at_step)
  ultimately show ?case
    using step t(1,2,5,6,8) 1(5,6,8) extends_trans [OF 1(7) t(7)] extendsD(2) [OF 1(7)] by (intro exI [of _ t]) (auto simp: page_at_step)
qed

text \<open>A whole range, on the level of the last-level entries.\<close>

lemma map_page_range_full:
  assumes "pt_wf R s" and "flags_ok flags" and "n < 2 ^ 31"
    and "3 * n \<le> free_count (page_alloc_bitmap s)"
    and "\<forall>k < n. unat (tbl_idx 39 (page_at va k)) \<in> R \<and> leaf s (path (page_at va k)) = None"
  obtains t where "map_page_range s pa va flags n = Some (int n, t)" "pt_wf R t"
    "\<forall>k < n. leaf t (path (page_at va k)) = Some ((page_at pa k AND NOT 0xFFF) OR flags OR 1)"
    "\<forall>q. leaf_path R q \<longrightarrow> q \<notin> (\<lambda>k. path (page_at va k)) ` {..<n} \<longrightarrow> leaf t q = leaf s q"
    "extends R s t" "free_count (page_alloc_bitmap s) - 3 * n \<le> free_count (page_alloc_bitmap t)"
proof -
  obtain t where t: "map_loop s va flags n 0 pa va = map_loop t va flags n (0 + n) (page_at pa n) (page_at va n)"
    "pt_wf R t" "\<forall>k < n. leaf t (path (page_at va k)) = Some ((page_at pa k AND NOT 0xFFF) OR flags OR 1)"
    "\<forall>q. leaf_path R q \<longrightarrow> q \<notin> (\<lambda>k. path (page_at va k)) ` {..<n} \<longrightarrow> leaf t q = leaf s q" "extends R s t"
    "free_count (page_alloc_bitmap s) - 3 * n \<le> free_count (page_alloc_bitmap t)"
    using map_loop_prefix [OF assms(1,2), of n 0 n va va pa] assms(3-5) by auto
  have "map_page_range s pa va flags n = Some (int n, t)"
    using t(1) assms(3) by (simp add: map_page_range_def map_loop.simps [of t])
  then show thesis using that t by blast
qed

lemma map_page_range_leaf:
  assumes "pt_wf R s" and "flags_ok flags" and "n < 2 ^ 31"
    and "3 * n \<le> free_count (page_alloc_bitmap s)"
    and "\<forall>k < n. unat (tbl_idx 39 (page_at va k)) \<in> R \<and> leaf s (path (page_at va k)) = None"
  obtains t where "map_page_range s pa va flags n = Some (int n, t)" "pt_wf R t"
    "\<forall>k < n. leaf t (path (page_at va k)) = Some ((page_at pa k AND NOT 0xFFF) OR flags OR 1)"
    "\<forall>q. leaf_path R q \<longrightarrow> q \<notin> (\<lambda>k. path (page_at va k)) ` {..<n} \<longrightarrow> leaf t q = leaf s q"
    "extends R s t"
  using map_page_range_full [OF assms, where pa = pa] that by metis

lemma unmap_page_range_full:
  assumes "pt_wf R s" and "n < 2 ^ 31"
    and "\<forall>k < n. unat (tbl_idx 39 (page_at va k)) \<in> R \<and> leaf s (path (page_at va k)) \<noteq> None"
  obtains t where "unmap_page_range s va n = Some (int n, t)" "pt_wf R t"
    "\<forall>k < n. leaf t (path (page_at va k)) = None"
    "\<forall>q. leaf_path R q \<longrightarrow> q \<notin> (\<lambda>k. path (page_at va k)) ` {..<n} \<longrightarrow> leaf t q = leaf s q"
    "page_alloc_bitmap t = page_alloc_bitmap s" "table_frames R t = table_frames R s" "extends R s t" "pmem t (frame_of (cr3 s)) = pmem s (frame_of (cr3 s))"
proof -
  obtain t where t: "unmap_loop s va n 0 = unmap_loop t (page_at va n) n (0 + n)" "pt_wf R t"
    "\<forall>k < n. leaf t (path (page_at va k)) = None"
    "\<forall>q. leaf_path R q \<longrightarrow> q \<notin> (\<lambda>k. path (page_at va k)) ` {..<n} \<longrightarrow> leaf t q = leaf s q"
    "page_alloc_bitmap t = page_alloc_bitmap s" "table_frames R t = table_frames R s" "extends R s t" "pmem t (frame_of (cr3 s)) = pmem s (frame_of (cr3 s))"
    using unmap_loop_prefix [OF assms(1), of n 0 n va] assms(2,3) by auto
  have "unmap_page_range s va n = Some (int n, t)"
    using t(1) assms(2) by (simp add: unmap_page_range_def unmap_loop.simps [of t])
  then show thesis using that t by blast
qed

lemma unmap_page_range_leaf:
  assumes "pt_wf R s" and "n < 2 ^ 31"
    and "\<forall>k < n. unat (tbl_idx 39 (page_at va k)) \<in> R \<and> leaf s (path (page_at va k)) \<noteq> None"
  obtains t where "unmap_page_range s va n = Some (int n, t)" "pt_wf R t"
    "\<forall>k < n. leaf t (path (page_at va k)) = None"
    "\<forall>q. leaf_path R q \<longrightarrow> q \<notin> (\<lambda>k. path (page_at va k)) ` {..<n} \<longrightarrow> leaf t q = leaf s q"
    "page_alloc_bitmap t = page_alloc_bitmap s" "table_frames R t = table_frames R s"
  using unmap_page_range_full [OF assms] that by metis

section \<open>What the operations do to the address space\<close>

lemma translate_leaf:
  "translate s va = map_option (\<lambda>e. (frame_of e, unat (tbl_idx 3 va))) (leaf s (path va))"
proof -
  have "translate s va = do { f1 \<leftarrow> tbl s (tl (path va)); f0 \<leftarrow> next_table s f1 (hd (path va));
      Some (f0, unat (tbl_idx 3 va)) }"
    by (simp add: translate_def path_def)
  then show ?thesis by (cases "tbl s (tl (path va))") (simp_all add: leaf_def next_table_def)
qed

lemma frame_of_mapped: "flags_ok flags \<Longrightarrow> frame_of ((pa AND NOT 0xFFF) OR flags OR 1) = frame_of pa"
  by (rule bit_word_eqI)
    (auto simp: frame_of_def low_mask bit_and_iff bit_drop_bit_eq bit_or_iff bit_not_iff bit_mask_iff
      bit_1_iff dest: flags_ok_bits simp del: mask_numeral)

lemma mapped_base: "flags_ok flags \<Longrightarrow> ((pa AND NOT 0xFFF) OR flags OR 1) AND NOT 0xFFF = pa AND NOT 0xFFF"
  by (rule bit_word_eqI)
    (auto simp: low_mask bit_and_iff bit_or_iff bit_not_iff bit_mask_iff
      bit_1_iff dest: flags_ok_bits simp del: mask_numeral)

text \<open>
  C2: Mapping a range of \<open>n\<close> unmapped pages succeeds when three free pages are left for each of them (for the tables
  it may have to create): it returns \<open>n\<close>, the processor then translates every address of page \<open>k\<close> to frame \<open>k\<close> of the
  physical range, \<open>get_physaddr\<close> reports that address, every other translation under the slots \<open>R\<close> is as before,
  and the table tree stays well formed. No access on the way faults.
\<close>

theorem map_page_range_correct:
  assumes "pt_wf R s" and "flags_ok flags" and "n < 2 ^ 31"
    and "3 * n \<le> free_count (page_alloc_bitmap s)"
    and "\<forall>k < n. unat (tbl_idx 39 (page_at va k)) \<in> R \<and> leaf s (path (page_at va k)) = None"
  shows "\<exists>t. map_page_range s pa va flags n = Some (int n, t) \<and> pt_wf R t \<and>
    (\<forall>k < n. translate t (page_at va k) =
        Some (frame_of (page_at pa k), unat (tbl_idx 3 (page_at va k))) \<and>
      get_physaddr t (page_at va k) = Some ((page_at pa k AND NOT 0xFFF) + (page_at va k AND 0xFFF))) \<and>
    (\<forall>vb. unat (tbl_idx 39 vb) \<in> R \<and> (\<forall>k < n. path vb \<noteq> path (page_at va k)) \<longrightarrow>
      translate t vb = translate s vb \<and> get_physaddr t vb = get_physaddr s vb)"
proof -
  obtain t where t: "map_page_range s pa va flags n = Some (int n, t)"
    "pt_wf R t" "\<forall>k < n. leaf t (path (page_at va k)) = Some ((page_at pa k AND NOT 0xFFF) OR flags OR 1)"
    "\<forall>q. leaf_path R q \<longrightarrow> q \<notin> (\<lambda>k. path (page_at va k)) ` {..<n} \<longrightarrow> leaf t q = leaf s q"
    by (rule map_page_range_leaf [OF assms, where pa = pa])
  have "translate t (page_at va k) = Some (frame_of (page_at pa k), unat (tbl_idx 3 (page_at va k))) \<and>
      get_physaddr t (page_at va k) = Some ((page_at pa k AND NOT 0xFFF) + (page_at va k AND 0xFFF))"
    if "k < n" for k
    using t(3) that get_physaddr_leaf [OF pt_wf_recursive [OF t(2)], of "page_at va k"]
      frame_of_mapped [OF assms(2)] mapped_base [OF assms(2)] by (simp add: translate_leaf)
  moreover have "translate t vb = translate s vb \<and> get_physaddr t vb = get_physaddr s vb"
    if "unat (tbl_idx 39 vb) \<in> R" "\<forall>k < n. path vb \<noteq> path (page_at va k)" for vb
  proof -
    have "leaf t (path vb) = leaf s (path vb)" using t(4) leaf_path_path [OF that(1)] that(2) by auto
    then show ?thesis
      using get_physaddr_leaf pt_wf_recursive t(2) assms(1) by (simp add: translate_leaf)
  qed
  ultimately show ?thesis using t(1,2) by blast
qed

definition small_vm :: vm_state where
  "small_vm = \<lparr>pmem = (\<lambda>f i. if f = 1 \<and> i = 511 then 0x1003 else 0), cr3 = 0x1000,
     page_alloc_bitmap = \<lparr>bmp_size = 12, bmp_map = (\<lambda>_. 3)\<rparr>\<rparr>"

lemma small_vm_tbl: "511 \<notin> R \<Longrightarrow> table_path R p \<Longrightarrow> tbl small_vm p = Some f \<Longrightarrow> p = [] \<and> f = 1"
proof (induction p arbitrary: f)
  case Nil
  then show ?case by (simp add: small_vm_def frame_of_def mask_eq_exp_minus_1)
next
  case (Cons i p)
  obtain f' where f': "tbl small_vm p = Some f'" using Cons.prems(3) by (cases "tbl small_vm p") auto
  then have "p = []" using Cons.IH Cons.prems(1) table_path_tl [OF Cons.prems(2)] by blast
  then show ?case using Cons.prems
    by (auto simp: table_path_def small_vm_def next_table_def present_def split: if_splits)
qed

lemma small_vm_used: "bitmap_test (page_alloc_bitmap small_vm) k \<longleftrightarrow> k < 2"
proof -
  have "(3 :: u64) = mask 2" by (simp add: mask_eq_exp_minus_1)
  then have b: "bit (3 :: u64) n \<longleftrightarrow> n < 2" for n by (simp only: bit_mask_iff) auto
  have "bit_at (page_alloc_bitmap small_vm) k \<longleftrightarrow> k mod 64 < 2"
    by (simp only: bit_at_def small_vm_def vm_state.simps bitmap_t.simps b)
  moreover have "bmp_size (page_alloc_bitmap small_vm) = 12" by (simp add: small_vm_def)
  ultimately show ?thesis by (cases "k < 12") (simp_all add: bitmap_test_iff)
qed

lemma small_vm_wf: "511 \<notin> R \<Longrightarrow> pt_wf R small_vm"
proof -
  assume R: "511 \<notin> R"
  have "recursive small_vm"
    by (simp add: recursive_def small_vm_def next_table_def frame_of_def present_def mask_eq_exp_minus_1)
  moreover have "p = q" if "table_path R p" "table_path R q" "tbl small_vm p = Some f" "tbl small_vm q = Some f" for p q f
    using small_vm_tbl [OF R that(1,3)] small_vm_tbl [OF R that(2,4)] by simp
  moreover have "bitmap_test (page_alloc_bitmap small_vm) (unat f)"
    if "table_path R p" "tbl small_vm p = Some f" for p f
    using small_vm_tbl [OF R that] by (simp add: small_vm_used)
  moreover have "bmp_size (page_alloc_bitmap small_vm) = 12" by (simp add: small_vm_def)
  ultimately show ?thesis using R unfolding pt_wf_def by auto
qed

lemma small_vm_leaf: "511 \<notin> R \<Longrightarrow> unat (tbl_idx 39 va) \<in> R \<Longrightarrow> leaf small_vm (path va) = None"
  using small_vm_tbl [of R "tl (path va)"] leaf_path_tl [OF leaf_path_path, of va R]
  by (cases "tbl small_vm (tl (path va))") (auto simp: leaf_def)

lemma small_vm_free: "free_count (page_alloc_bitmap small_vm) = 10"
proof -
  have "{k. k < bmp_size (page_alloc_bitmap small_vm) \<and> \<not> bitmap_test (page_alloc_bitmap small_vm) k} = {2..<12}"
    by (auto simp: small_vm_used) (auto simp: small_vm_def)
  then show ?thesis by (simp add: free_count_def)
qed

lemma small_wf: "pt_wf {256} small_vm"
  by (rule small_vm_wf) simp

theorem map_page_range_correct_witness:
  "\<exists>t. map_page_range small_vm 0x5ABC 0xFFFF800000003ABC 3 2 = Some (2, t) \<and>
    get_physaddr t 0xFFFF800000004ABC = Some 0x6ABC"
proof -
  have R: "unat (tbl_idx 39 (page_at 0xFFFF800000003ABC k)) \<in> {256}" if "k < 2" for k
    using that by (auto simp: less_2_cases_iff page_at_def tbl_idx_unat)
  then have un: "\<forall>k < 2. unat (tbl_idx 39 (page_at 0xFFFF800000003ABC k)) \<in> {256} \<and>
      leaf small_vm (path (page_at 0xFFFF800000003ABC k)) = None" using small_vm_leaf [of "{256}"] by auto
  have fl: "flags_ok 3" and n: "(2 :: nat) < 2 ^ 31" and free: "3 * 2 \<le> free_count (page_alloc_bitmap small_vm)"
    by (simp_all add: flags_ok_def small_vm_free)
  from map_page_range_correct [where pa = "0x5ABC", OF small_wf fl n free un] obtain t where
    t: "map_page_range small_vm 0x5ABC 0xFFFF800000003ABC 3 2 = Some (int 2, t)"
    and pages: "\<forall>k < 2. translate t (page_at 0xFFFF800000003ABC k) =
        Some (frame_of (page_at 0x5ABC k), unat (tbl_idx 3 (page_at 0xFFFF800000003ABC k))) \<and>
      get_physaddr t (page_at 0xFFFF800000003ABC k) =
        Some ((page_at 0x5ABC k AND NOT 0xFFF) + (page_at 0xFFFF800000003ABC k AND 0xFFF))" by blast
  from pages have "get_physaddr t (page_at 0xFFFF800000003ABC 1) =
      Some ((page_at 0x5ABC 1 AND NOT 0xFFF) + (page_at 0xFFFF800000003ABC 1 AND 0xFFF))"
    by simp
  with t show ?thesis by (auto simp: page_at_def)
qed

text \<open>
  C7: Mapping a range that runs into an already mapped page fails cleanly: after \<open>m\<close> unmapped pages the mapped one is
  found, the call returns \<open>-MAP_ERR_EXIST\<close>, and every translation is what it was before the call.
\<close>

theorem map_page_range_rollback:
  assumes "pt_wf R s" and "flags_ok flags" and "m < n" and "n < 2 ^ 31"
    and "3 * Suc m \<le> free_count (page_alloc_bitmap s)"
    and "\<forall>k < m. leaf s (path (page_at va k)) = None" and "leaf s (path (page_at va m)) \<noteq> None"
    and "\<forall>k \<le> m. unat (tbl_idx 39 (page_at va k)) \<in> R"
  shows "\<exists>t. map_page_range s pa va flags n = Some (- MAP_ERR_EXIST, t) \<and> pt_wf R t \<and>
    (\<forall>vb. unat (tbl_idx 39 vb) \<in> R \<longrightarrow> translate t vb = translate s vb)"
proof -
  obtain t1 where 1: "map_loop s va flags n 0 pa va = map_loop t1 va flags n (0 + m) (page_at pa m) (page_at va m)"
    "pt_wf R t1" "\<forall>k < m. leaf t1 (path (page_at va k)) = Some ((page_at pa k AND NOT 0xFFF) OR flags OR 1)"
    "\<forall>q. leaf_path R q \<longrightarrow> q \<notin> (\<lambda>k. path (page_at va k)) ` {..<m} \<longrightarrow> leaf t1 q = leaf s q"
    "free_count (page_alloc_bitmap s) - 3 * m \<le> free_count (page_alloc_bitmap t1)"
    using map_loop_prefix [OF assms(1,2), of m 0 n va va pa] assms(3-8) by auto
  have R: "unat (tbl_idx 39 (page_at va m)) \<in> R" using assms(8) by simp
  have "path (page_at va m) \<notin> (\<lambda>k. path (page_at va k)) ` {..<m}"
    using path_page_at_inj [of va m] assms(3,4) by force
  then have here: "leaf t1 (path (page_at va m)) \<noteq> None"
    using 1(4) leaf_path_path [OF R] assms(7) by simp
  have "3 \<le> free_count (page_alloc_bitmap t1)" using 1(5) assms(5) by simp
  from map_one_spec [OF 1(2) R assms(2) this, of "page_at pa m"] here obtain t2 where
    2: "map_one t1 (page_at pa m) (page_at va m) flags = Some (False, t2)" "pt_wf R t2"
    "leaf t2 (path (page_at va m)) = leaf t1 (path (page_at va m))"
    "\<forall>q. leaf_path R q \<longrightarrow> q \<noteq> path (page_at va m) \<longrightarrow> leaf t2 q = leaf t1 q" by auto
  have t2: "leaf t2 q = leaf t1 q" if "leaf_path R q" for q
    using 2(3,4) that by (cases "q = path (page_at va m)") auto
  have "leaf t2 (path (page_at va k)) \<noteq> None" if "k < m" for k
    using t2 [OF leaf_path_path, of "page_at va k"] assms(8) 1(3) that by simp
  then obtain t where 3: "unmap_loop t2 va m 0 = unmap_loop t (page_at va m) m (0 + m)" "pt_wf R t"
    "\<forall>k < m. leaf t (path (page_at va k)) = None"
    "\<forall>q. leaf_path R q \<longrightarrow> q \<notin> (\<lambda>k. path (page_at va k)) ` {..<m} \<longrightarrow> leaf t q = leaf t2 q"
    using unmap_loop_prefix [OF 2(2), of m 0 m va] assms(3,4,8) by auto
  have "map_page_range s pa va flags n = Some (- MAP_ERR_EXIST, t)"
    using 1(1) 2(1) 3(1) assms(3)
    by (simp add: map_page_range_def map_loop.simps [of t1] unmap_page_range_def unmap_loop.simps [of t])
  moreover have "leaf t q = leaf s q" if "leaf_path R q" for q
  proof (cases "q \<in> (\<lambda>k. path (page_at va k)) ` {..<m}")
    case True
    then show ?thesis using 3(3) assms(6) by auto
  next
    case False
    then show ?thesis using that 1(4) t2 3(4) by simp
  qed
  ultimately show ?thesis using 3(2) leaf_path_path by (auto simp: translate_leaf)
qed

theorem map_page_range_rollback_witness:
  "\<exists>s t. leaf s (path 0xFFFF800000004000) \<noteq> None \<and>
    map_page_range s 0x5000 0xFFFF800000003000 3 2 = Some (- MAP_ERR_EXIST, t) \<and>
    translate t 0xFFFF800000003000 = translate s 0xFFFF800000003000"
proof -
  have R: "unat (tbl_idx 39 (page_at 0xFFFF800000003000 k)) \<in> {256}" if "k \<le> 1" for k
    using that by (auto simp: le_Suc_eq page_at_def tbl_idx_unat)
  let ?u = "page_at 0xFFFF800000003000"
  obtain s where s: "map_one small_vm 0x9000 (?u 1) 3 = Some (True, s)" "pt_wf {256} s"
    "leaf s (path (?u 1)) \<noteq> None" "leaf s (path (?u 0)) = None" "7 \<le> free_count (page_alloc_bitmap s)"
  proof -
    have "leaf_path {256} (path (?u 0))" "path (?u 0) \<noteq> path (?u 1)"
      using leaf_path_path [OF R, of 0] path_page_at_inj [of "0xFFFF800000003000" 0 1] by auto
    then show ?thesis
      using that map_one_spec [OF small_wf R, of 1 3 "0x9000"] small_vm_leaf [OF _ R, of 0] small_vm_leaf [OF _ R, of 1]
      by (auto simp: flags_ok_def small_vm_free)
  qed
  have un: "\<forall>k < 1. leaf s (path (?u k)) = None" using s(4) by simp
  have side: "flags_ok 3" "(1 :: nat) < 2" "(2 :: nat) < 2 ^ 31" "3 * Suc 1 \<le> free_count (page_alloc_bitmap s)"
    using s(5) by (simp_all add: flags_ok_def)
  have all: "\<forall>k \<le> 1. unat (tbl_idx 39 (?u k)) \<in> {256}" using R by blast
  from map_page_range_rollback [where pa = "0x5000", OF s(2) side un s(3) all] obtain t where
    "map_page_range s 0x5000 0xFFFF800000003000 3 2 = Some (- MAP_ERR_EXIST, t)"
    "\<forall>vb. unat (tbl_idx 39 vb) \<in> {256} \<longrightarrow> translate t vb = translate s vb" by blast
  then show ?thesis using s(3) R [of 0] by (auto simp: page_at_def)
qed

text \<open>
  C8: Unmapping removes exactly the mapped prefix of the range: with \<open>m\<close> mapped pages followed by an unmapped one (or by
  the end of the range), it returns \<open>m\<close>, these pages no longer translate, all others do as before, and the page
  bitmap is untouched (the frames are not released).
\<close>

theorem unmap_page_range_correct:
  assumes "pt_wf R s" and "m \<le> n" and "n < 2 ^ 31"
    and "\<forall>k < m. leaf s (path (page_at va k)) \<noteq> None"
    and "m < n \<longrightarrow> leaf s (path (page_at va m)) = None"
    and "\<forall>k \<le> m. unat (tbl_idx 39 (page_at va k)) \<in> R"
  shows "\<exists>t. unmap_page_range s va n = Some (int m, t) \<and> pt_wf R t \<and>
    (\<forall>k < m. translate t (page_at va k) = None \<and> get_physaddr t (page_at va k) = Some (- MAP_ERR_NOTMAPPED)) \<and>
    (\<forall>vb. unat (tbl_idx 39 vb) \<in> R \<and> (\<forall>k < m. path vb \<noteq> path (page_at va k)) \<longrightarrow> translate t vb = translate s vb) \<and>
    page_alloc_bitmap t = page_alloc_bitmap s"
proof -
  obtain t where t: "unmap_loop s va n 0 = unmap_loop t (page_at va m) n (0 + m)" "pt_wf R t"
    "\<forall>k < m. leaf t (path (page_at va k)) = None"
    "\<forall>q. leaf_path R q \<longrightarrow> q \<notin> (\<lambda>k. path (page_at va k)) ` {..<m} \<longrightarrow> leaf t q = leaf s q"
    "page_alloc_bitmap t = page_alloc_bitmap s"
    using unmap_loop_prefix [OF assms(1), of m 0 n va] assms(2-6) by auto
  have "\<exists>t'. unmap_loop t (page_at va m) n m = Some (int m, t') \<and> pt_wf R t' \<and>
      (\<forall>q. leaf_path R q \<longrightarrow> leaf t' q = leaf t q) \<and> page_alloc_bitmap t' = page_alloc_bitmap t"
  proof (cases "m = n")
    case True
    then show ?thesis using t(2) assms(3) by (subst unmap_loop.simps) simp
  next
    case False
    have R: "unat (tbl_idx 39 (page_at va m)) \<in> R" using assms(6) by simp
    have "path (page_at va m) \<notin> (\<lambda>k. path (page_at va k)) ` {..<m}"
      using path_page_at_inj [of va m] assms(2,3) by force
    then have none: "leaf t (path (page_at va m)) = None"
      using t(4) leaf_path_path [OF R] assms(2,5) False by simp
    with unmap_one_spec [OF t(2) R] obtain t' where t': "unmap_one t (page_at va m) = Some (False, t')"
      "pt_wf R t'" "leaf t' (path (page_at va m)) = None"
      "\<forall>q. leaf_path R q \<longrightarrow> q \<noteq> path (page_at va m) \<longrightarrow> leaf t' q = leaf t q"
      "page_alloc_bitmap t' = page_alloc_bitmap t" by auto
    have "leaf t' q = leaf t q" if "leaf_path R q" for q
      using t'(3,4) none that by (cases "q = path (page_at va m)") auto
    then show ?thesis using t' False assms(2,3) by (subst unmap_loop.simps) auto
  qed
  then obtain t' where t': "unmap_loop t (page_at va m) n m = Some (int m, t')" "pt_wf R t'"
    "\<And>q. leaf_path R q \<Longrightarrow> leaf t' q = leaf t q" "page_alloc_bitmap t' = page_alloc_bitmap t" by blast
  have "translate t' (page_at va k) = None \<and> get_physaddr t' (page_at va k) = Some (- MAP_ERR_NOTMAPPED)"
    if "k < m" for k
    using t'(3) [OF leaf_path_path, of "page_at va k"] assms(6) t(3) that
      get_physaddr_leaf [OF pt_wf_recursive [OF t'(2)], of "page_at va k"] by (simp add: translate_leaf)
  moreover have "translate t' vb = translate s vb"
    if "unat (tbl_idx 39 vb) \<in> R" "\<forall>k < m. path vb \<noteq> path (page_at va k)" for vb
    using t'(3) t(4) leaf_path_path [OF that(1)] that(2) by (auto simp: translate_leaf)
  ultimately show ?thesis using t t' by (auto simp: unmap_page_range_def)
qed

theorem unmap_page_range_correct_witness:
  "\<exists>t. unmap_page_range small_vm 0xFFFF800000003000 5 = Some (int 0, t) \<and>
    page_alloc_bitmap t = page_alloc_bitmap small_vm"
proof -
  have R: "\<forall>k \<le> 0. unat (tbl_idx 39 (page_at 0xFFFF800000003000 k)) \<in> {256}"
    by (simp add: tbl_idx_unat)
  then have un: "0 < (5 :: nat) \<longrightarrow> leaf small_vm (path (page_at 0xFFFF800000003000 0)) = None"
    using small_vm_leaf [of "{256}"] by auto
  have side: "(0 :: nat) \<le> 5" "(5 :: nat) < 2 ^ 31"
    "\<forall>k < 0. leaf small_vm (path (page_at 0xFFFF800000003000 k)) \<noteq> None" by simp_all
  from unmap_page_range_correct [OF small_wf side un R] show ?thesis by blast
qed

section \<open>Initialisation\<close>

lemma store64_bitmap: "store64 s va v = Some t \<Longrightarrow> page_alloc_bitmap t = page_alloc_bitmap s"
  by (auto simp: store64_def bind_eq_Some_conv)

lemma unmap_one_bitmap: "unmap_one s va = Some (b, t) \<Longrightarrow> page_alloc_bitmap t = page_alloc_bitmap s"
  by (auto simp: unmap_one_def Let_def bind_eq_Some_conv store64_bitmap split: if_splits)

lemma unmap_loop_bitmap:
  "unmap_loop s va len i = Some (r, t) \<Longrightarrow> page_alloc_bitmap t = page_alloc_bitmap s"
proof (induction s va len i rule: unmap_loop.induct)
  case (1 s va len i)
  show ?case
  proof (cases "i < len")
    case True
    then obtain b u where u: "unmap_one s va = Some (b, u)"
      using "1.prems" by (subst (asm) unmap_loop.simps) (auto simp: bind_eq_Some_conv)
    then have "b \<Longrightarrow> unmap_loop u (va + 0x1000) len (Suc i) = Some (r, t)" "\<not> b \<Longrightarrow> t = u"
      using "1.prems" True by (auto simp: unmap_loop.simps [of s])
    then show ?thesis using "1.IH" [OF True u refl] unmap_one_bitmap [OF u] by (cases b) auto
  next
    case False
    then show ?thesis using "1.prems" by (auto simp: unmap_loop.simps [of s])
  qed
qed

text \<open>After \<open>page_init\<close> exactly the pages below the end of the bitmap are in use.\<close>

lemma page_init_used:
  assumes "page_init s mem phys_end virt_end data = Some t"
  defines "bits \<equiv> drop_bit PAGE_SHIFT (ALIGN_UP mem (of_nat PAGE_SIZE))"
  shows "bitmap_test (page_alloc_bitmap t) k \<longleftrightarrow> k < unat bits \<and>
    k < unat (drop_bit PAGE_SHIFT (phys_end + ALIGN_UP (drop_bit 3 bits) (of_nat PAGE_SIZE)))"
proof -
  let ?n = "unat (drop_bit PAGE_SHIFT (phys_end + ALIGN_UP (drop_bit 3 bits) (of_nat PAGE_SIZE)))"
  have small: "unat (drop_bit PAGE_SHIFT w) < 2 ^ 52" for w :: u64
    using unsigned_less [of w, where 'a = nat]
    by (simp add: drop_bit_eq_div unat_div PAGE_SHIFT_def less_mult_imp_div_less)
  have "page_alloc_bitmap t = bitmap_set_range (bitmap_init data (unat bits)) 0 ?n"
    using assms(1) unmap_loop_bitmap
    by (auto simp: page_init_def Let_def bits_def unmap_page_range_def bind_eq_Some_conv)
  then show ?thesis
    using small [of "ALIGN_UP mem (of_nat PAGE_SIZE)"]
      small [of "phys_end + ALIGN_UP (drop_bit 3 bits) (of_nat PAGE_SIZE)"]
    by (subst \<open>page_alloc_bitmap t = _\<close>, subst bitmap_test_set_range)
      (auto simp: bitmap_init_clear bitmap_init_map bits_def)
qed

end
