(* ===== verification/MemPool.thy ===== *)
theory MemPool
  imports PageAlloc
begin

text \<open>
  The fixed-size object pool of \<open>src/src/mm/mempool.c\<close>. The free objects are chained through their first
  word; memory is a function from addresses to 64-bit words. The locale \<open>object_pool\<close> is the contract the kernel
  allocator relies on; it is interpreted on \<open>pool_alloc\<close> and \<open>pool_free\<close>.
\<close>

record mem_pool =
  free_list :: u64
  obj_size :: size_t
  pool_total :: size_t
  pool_used :: size_t

definition pool_slot :: "u64 \<Rightarrow> size_t \<Rightarrow> nat \<Rightarrow> u64" where
  "pool_slot page sz i = page + of_nat (i * sz)"

text \<open>
  \<open>pool_init\<close> chains the slots from the last to the first; the counter is an \<open>int\<close>. A zero object size is a
  division fault.
\<close>

definition pool_push :: "u64 \<Rightarrow> size_t \<Rightarrow> nat \<Rightarrow> mem_pool \<times> (u64 \<Rightarrow> u64) \<Rightarrow> mem_pool \<times> (u64 \<Rightarrow> u64)" where
  "pool_push page sz i s =
     (let slot = pool_slot page sz i
      in ((fst s)\<lparr>free_list := slot\<rparr>, (snd s)(slot := free_list (fst s))))"

definition pool_init ::
  "mem_pool \<Rightarrow> u64 \<Rightarrow> size_t \<Rightarrow> size_t \<Rightarrow> (u64 \<Rightarrow> u64) \<Rightarrow> (mem_pool \<times> (u64 \<Rightarrow> u64)) option" where
  "pool_init pool page nr_pages sz mem =
     (if sz = 0 then None
      else let n = wrap64 (nr_pages * PAGE_SIZE) div sz;
               pool = pool\<lparr>obj_size := sz, pool_total := n, pool_used := 0, free_list := 0\<rparr>
        in Some (fold (pool_push page sz) (rev [0..<nat (to_int32 (sub64 n 1) + 1)]) (pool, mem)))"

definition pool_alloc :: "mem_pool \<Rightarrow> (u64 \<Rightarrow> u64) \<Rightarrow> u64 \<times> mem_pool" where
  "pool_alloc pool mem =
     (if free_list pool = 0 then (0, pool)
      else let obj = free_list pool
        in (obj, pool\<lparr>free_list := mem obj, pool_used := wrap64 (pool_used pool + 1)\<rparr>))"

definition pool_free :: "mem_pool \<Rightarrow> u64 \<Rightarrow> (u64 \<Rightarrow> u64) \<Rightarrow> mem_pool \<times> (u64 \<Rightarrow> u64)" where
  "pool_free pool obj mem =
     (pool\<lparr>free_list := obj, pool_used := sub64 (pool_used pool) 1\<rparr>, mem(obj := free_list pool))"

section \<open>The free chain\<close>

fun free_chain :: "(u64 \<Rightarrow> u64) \<Rightarrow> u64 \<Rightarrow> u64 list \<Rightarrow> bool" where
  "free_chain mem p [] \<longleftrightarrow> p = 0"
| "free_chain mem p (x # xs) \<longleftrightarrow> p = x \<and> x \<noteq> 0 \<and> x \<notin> set xs \<and> free_chain mem (mem x) xs"

lemma free_chain_distinct: "free_chain mem p xs \<Longrightarrow> distinct xs \<and> 0 \<notin> set xs"
  by (induction mem p xs rule: free_chain.induct) auto

lemma free_chain_cong:
  "(\<And>x. x \<in> set xs \<Longrightarrow> mem' x = mem x) \<Longrightarrow> free_chain mem' p xs = free_chain mem p xs"
  by (induction mem p xs rule: free_chain.induct) auto

lemma free_chain_upd [simp]: "a \<notin> set xs \<Longrightarrow> free_chain (mem(a := v)) p xs = free_chain mem p xs"
  by (rule free_chain_cong) auto

section \<open>The pool interface\<close>

text \<open>
  \<open>holds s xs\<close>: the objects \<open>xs\<close> are free, the next one to be handed out first. The client owns an object between its
  allocation and its release and may write to it (\<open>scribble\<close>).
\<close>

fun alloc_n :: "('s \<Rightarrow> 'a \<times> 's) \<Rightarrow> nat \<Rightarrow> 's \<Rightarrow> 'a list \<times> 's" where
  "alloc_n alloc 0 s = ([], s)"
| "alloc_n alloc (Suc n) s = (let (x, s) = alloc s; (xs, s) = alloc_n alloc n s in (x # xs, s))"

locale object_pool =
  fixes holds :: "'s \<Rightarrow> 'a list \<Rightarrow> bool"
    and null :: 'a
    and alloc :: "'s \<Rightarrow> 'a \<times> 's"
    and release :: "'a \<Rightarrow> 's \<Rightarrow> 's"
    and scribble :: "'a \<Rightarrow> 'v \<Rightarrow> 's \<Rightarrow> 's"
  assumes holds_valid: "holds s xs \<Longrightarrow> distinct xs \<and> null \<notin> set xs"
    and alloc_empty: "holds s [] \<Longrightarrow> alloc s = (null, s)"
    and alloc_next: "holds s (x # xs) \<Longrightarrow> \<exists>s'. alloc s = (x, s') \<and> holds s' xs"
    and release_law: "holds s xs \<Longrightarrow> x \<noteq> null \<Longrightarrow> x \<notin> set xs \<Longrightarrow> holds (release x s) (x # xs)"
    and scribble_law: "holds s xs \<Longrightarrow> x \<notin> set xs \<Longrightarrow> holds (scribble x v s) xs"
begin

lemma alloc_n_holds: "holds s (xs @ ys) \<Longrightarrow> \<exists>s'. alloc_n alloc (length xs) s = (xs, s') \<and> holds s' ys"
proof (induction xs arbitrary: s)
  case (Cons x xs)
  then obtain s' where "alloc s = (x, s')" "holds s' (xs @ ys)" using alloc_next [of s x "xs @ ys"] by auto
  with Cons.IH [of s'] show ?case by auto
qed auto

lemma alloc_some_iff: "holds s xs \<Longrightarrow> fst (alloc s) \<noteq> null \<longleftrightarrow> xs \<noteq> []"
proof (cases xs)
  case (Cons x ys)
  assume h: "holds s xs"
  then obtain s' where "alloc s = (x, s')" using Cons alloc_next [of s x ys] by auto
  with holds_valid [OF h] Cons show ?thesis by auto
qed (auto simp: alloc_empty)

lemma alloc_scribble_release:
  assumes "holds s (x # xs)"
  obtains s' where "alloc s = (x, s')" "holds (release x (scribble x v s')) (x # xs)"
proof -
  obtain s' where s': "alloc s = (x, s')" "holds s' xs" using alloc_next [OF assms] by auto
  moreover have "x \<notin> set xs" "x \<noteq> null" using holds_valid [OF assms] by auto
  ultimately show thesis using that release_law scribble_law by metis
qed

end

definition pool_holds :: "mem_pool \<times> (u64 \<Rightarrow> u64) \<Rightarrow> u64 list \<Rightarrow> bool" where
  "pool_holds s xs \<longleftrightarrow> free_chain (snd s) (free_list (fst s)) xs"

definition pool_alloc_op :: "mem_pool \<times> (u64 \<Rightarrow> u64) \<Rightarrow> u64 \<times> mem_pool \<times> (u64 \<Rightarrow> u64)" where
  "pool_alloc_op s = (case pool_alloc (fst s) (snd s) of (obj, pool) \<Rightarrow> (obj, pool, snd s))"

definition pool_free_op :: "u64 \<Rightarrow> mem_pool \<times> (u64 \<Rightarrow> u64) \<Rightarrow> mem_pool \<times> (u64 \<Rightarrow> u64)" where
  "pool_free_op obj s = pool_free (fst s) obj (snd s)"

definition pool_write :: "u64 \<Rightarrow> u64 \<Rightarrow> mem_pool \<times> (u64 \<Rightarrow> u64) \<Rightarrow> mem_pool \<times> (u64 \<Rightarrow> u64)" where
  "pool_write obj v s = (fst s, (snd s)(obj := v))"

interpretation mp: object_pool pool_holds 0 pool_alloc_op pool_free_op pool_write
proof unfold_locales
  fix s xs assume "pool_holds s xs"
  then show "distinct xs \<and> 0 \<notin> set xs" by (auto simp: pool_holds_def dest: free_chain_distinct)
next
  fix s assume "pool_holds s []"
  then show "pool_alloc_op s = (0, s)" by (simp add: pool_holds_def pool_alloc_op_def pool_alloc_def)
next
  fix s x xs assume "pool_holds s (x # xs)"
  then show "\<exists>s'. pool_alloc_op s = (x, s') \<and> pool_holds s' xs"
    by (auto simp: pool_holds_def pool_alloc_op_def pool_alloc_def Let_def)
next
  fix s xs and x :: u64 assume "pool_holds s xs" "x \<noteq> 0" "x \<notin> set xs"
  then show "pool_holds (pool_free_op x s) (x # xs)"
    by (simp add: pool_holds_def pool_free_op_def pool_free_def)
next
  fix s xs and x v :: u64 assume "pool_holds s xs" "x \<notin> set xs"
  then show "pool_holds (pool_write x v s) xs" by (simp add: pool_holds_def pool_write_def)
qed

section \<open>Initialisation\<close>

lemma unat_pool_slot:
  assumes "unat page + n * sz \<le> 2 ^ 64" and "0 < sz" and "i < n"
  shows "unat (pool_slot page sz i) = unat page + i * sz"
proof -
  have "i * sz < n * sz" using assms(2,3) by simp
  then show ?thesis unfolding pool_slot_def using assms(1) by (intro unat_add_of_nat) linarith
qed

lemma pool_slot_inj:
  assumes "unat page + n * sz \<le> 2 ^ 64" and "0 < sz" and "i < n" and "j < n"
    and "pool_slot page sz i = pool_slot page sz j"
  shows "i = j"
proof -
  have "unat page + i * sz = unat page + j * sz"
    using unat_pool_slot [OF assms(1,2,3)] unat_pool_slot [OF assms(1,2,4)] unfolding assms(5) by (rule trans [OF sym])
  then show ?thesis using assms(2) by simp
qed

lemma pool_slot_nonzero:
  assumes "unat page + n * sz \<le> 2 ^ 64" and "0 < sz" and "page \<noteq> 0" and "i < n"
  shows "pool_slot page sz i \<noteq> 0"
proof -
  have "0 < unat page" using assms(3) by (simp add: unat_gt_0)
  then show ?thesis using unat_pool_slot [OF assms(1,2,4)] by auto
qed

lemma pool_init_loop:
  assumes "unat page + n * sz \<le> 2 ^ 64" and "0 < sz" and "page \<noteq> 0" and "m \<le> n" and "pool_holds s []"
  shows "pool_holds (fold (pool_push page sz) (rev [n - m..<n]) s) (map (pool_slot page sz) [n - m..<n])"
  using assms(4)
proof (induction m)
  case 0
  then show ?case using assms(5) by simp
next
  case (Suc m)
  let ?i = "n - Suc m" and ?s = "pool_slot page sz (n - Suc m)"
  have up: "[?i..<n] = ?i # [n - m..<n]" using Suc.prems by (simp add: upt_conv_Cons Suc_diff_Suc)
  have "?s \<notin> set (map (pool_slot page sz) [n - m..<n])"
    using pool_slot_inj [OF assms(1,2), of ?i] Suc.prems by fastforce
  moreover have "?s \<noteq> 0" using pool_slot_nonzero [OF assms(1-3)] Suc.prems by simp
  ultimately show ?case using Suc unfolding up
    by (simp add: pool_holds_def pool_push_def Let_def)
qed

lemma pool_push_fields:
  "pool_total (fst (fold (pool_push page sz) is s)) = pool_total (fst s)"
  "pool_used (fst (fold (pool_push page sz) is s)) = pool_used (fst s)"
  by (induction "is" arbitrary: s) (simp_all add: pool_push_def Let_def)

lemma pool_init_holds:
  assumes "0 < sz" and "nr_pages * PAGE_SIZE < 2 ^ 31" and "sz \<le> nr_pages * PAGE_SIZE" and "page \<noteq> 0"
    and "unat page + nr_pages * PAGE_SIZE \<le> 2 ^ 64"
  shows "\<exists>s. pool_init pool page nr_pages sz mem = Some s \<and>
    pool_holds s (map (pool_slot page sz) [0..<nr_pages * PAGE_SIZE div sz]) \<and>
    pool_used (fst s) = 0 \<and> pool_total (fst s) = nr_pages * PAGE_SIZE div sz"
proof -
  let ?n = "nr_pages * PAGE_SIZE div sz"
  have le: "?n \<le> nr_pages * PAGE_SIZE" by simp
  have n: "0 < ?n" "?n < 2 ^ 31" using assms(1-3) le by (auto simp: div_greater_zero_iff intro: le_less_trans [OF le])
  have "?n * sz \<le> nr_pages * PAGE_SIZE" by simp
  then have room: "unat page + ?n * sz \<le> 2 ^ 64" using assms(5) by linarith
  have cnt: "nat (to_int32 (sub64 ?n (Suc 0)) + 1) = ?n" using n by simp
  have w: "wrap64 (nr_pages * PAGE_SIZE) = nr_pages * PAGE_SIZE" using assms(2) by simp
  let ?p = "pool\<lparr>obj_size := sz, pool_total := ?n, pool_used := 0, free_list := 0\<rparr>"
  have "pool_holds (?p, mem) []" by (simp add: pool_holds_def)
  from pool_init_loop [OF room assms(1,4) order_refl this] show ?thesis
    using assms(1) by (simp add: pool_init_def w cnt pool_push_fields Let_def)
qed

text \<open>
  A freshly initialised pool hands out exactly its \<open>total\<close> slots: distinct, non-null, inside the given pages, in
  address order; the next request gets NULL, and an object that the client has written to and released is handed out
  again by the next request.
\<close>

lemma pool_init_alloc_all:
  assumes "0 < sz" and "nr_pages * PAGE_SIZE < 2 ^ 31" and "sz \<le> nr_pages * PAGE_SIZE" and "page \<noteq> 0"
    and "unat page + nr_pages * PAGE_SIZE \<le> 2 ^ 64"
  shows "\<exists>s s'. pool_init pool page nr_pages sz mem = Some s \<and>
    alloc_n pool_alloc_op (nr_pages * PAGE_SIZE div sz) s = (map (pool_slot page sz) [0..<nr_pages * PAGE_SIZE div sz], s') \<and>
    distinct (map (pool_slot page sz) [0..<nr_pages * PAGE_SIZE div sz]) \<and>
    fst (pool_alloc_op s') = 0 \<and>
    (\<forall>i < nr_pages * PAGE_SIZE div sz. \<forall>v. fst (pool_alloc_op
        (pool_free_op (pool_slot page sz i) (pool_write (pool_slot page sz i) v s'))) = pool_slot page sz i)"
proof -
  let ?xs = "map (pool_slot page sz) [0..<nr_pages * PAGE_SIZE div sz]"
  obtain s where s: "pool_init pool page nr_pages sz mem = Some s" "pool_holds s ?xs"
    using pool_init_holds [OF assms] by blast
  obtain s' where s': "alloc_n pool_alloc_op (length ?xs) s = (?xs, s')" "pool_holds s' []"
    using mp.alloc_n_holds [of s ?xs "[]"] s(2) by auto
  have "fst (pool_alloc_op (pool_free_op x (pool_write x v s'))) = x" if "x \<in> set ?xs" for x v
  proof -
    have "x \<noteq> 0" using mp.holds_valid [OF s(2)] that by auto
    then have "pool_holds (pool_free_op x (pool_write x v s')) [x]"
      using mp.release_law [OF mp.scribble_law [OF s'(2)], of x] by simp
    then show ?thesis using mp.alloc_next by fastforce
  qed
  then have again: "fst (pool_alloc_op (pool_free_op (pool_slot page sz i) (pool_write (pool_slot page sz i) v s'))) =
      pool_slot page sz i" if "i < nr_pages * PAGE_SIZE div sz" for i v using that by simp
  show ?thesis
    by (rule exI [of _ s], rule exI [of _ s'])
      (use s s' again mp.holds_valid [OF s(2)] mp.alloc_empty [OF s'(2)] in simp)
qed

lemma pool_init_alloc_all_example:
  "\<exists>s s'. pool_init \<lparr>free_list = 0, obj_size = 0, pool_total = 0, pool_used = 0\<rparr> 0x10000 1 2048 (\<lambda>_. 0) = Some s \<and>
    alloc_n pool_alloc_op 2 s = ([0x10000, 0x10800], s') \<and> fst (pool_alloc_op s') = 0"
proof -
  have "(0 :: nat) < 2048" "1 * PAGE_SIZE < 2 ^ 31" "2048 \<le> 1 * PAGE_SIZE" "(0x10000 :: u64) \<noteq> 0"
    "unat (0x10000 :: u64) + 1 * PAGE_SIZE \<le> 2 ^ 64" by (simp_all add: PAGE_SIZE_def)
  from pool_init_alloc_all [OF this, of "\<lparr>free_list = 0, obj_size = 0, pool_total = 0, pool_used = 0\<rparr>" "\<lambda>_. 0"]
  show ?thesis by (auto simp: PAGE_SIZE_def pool_slot_def upt_rec numeral_2_eq_2)
qed

end
