(* ===== verification/KMem.thy ===== *)
theory KMem
  imports PageTable MemPool Queue CString
begin

text \<open>
  The kernel allocator of \<open>src/src/mm/mm.c\<close>: \<open>kmalloc\<close> takes physical pages, maps them at \<open>KMEM_BASE\<close> plus their
  physical address and records the block in a \<open>vmap_area\<close> from an object pool; \<open>kfree\<close> finds the record, releases the
  pages and removes the mapping. The state joins the page tables with their bitmap, the pool, the words of the pool objects
  (\<open>va_start\<close> at offset 0 shares its word with the pool's free chain, \<open>va_nrpages\<close> at 16), the list nodes at offset 24,
  the lock and the bytes of kernel memory.

  The invariant \<open>kmem_inv\<close> ties the recorded blocks to the bitmap and to the page tables; \<open>kmalloc\<close> and \<open>kfree\<close> keep it,
  blocks never overlap, and every block is backed by its own physical pages. The error returns that leave the lock
  held are in the model too: after one of them no further call returns.
\<close>

record kmem =
  kvm :: vm_state
  vmap_area_pool :: mem_pool
  area_mem :: "u64 \<Rightarrow> u64"
  area_links :: list_heap
  vmap_area_list :: u64
  mm_spinlock :: u64
  kbytes :: mem

definition KMEM_BASE :: u64 where
  "KMEM_BASE = 0xffff900000000000"

definition MAP_KERN_RW :: u64 where
  "MAP_KERN_RW = 3"

definition VMAP_AREA_POOL_NR_PAGES :: nat where
  "VMAP_AREA_POOL_NR_PAGES = 32"

definition vmap_area_size :: nat where
  "vmap_area_size = 40"

definition vmap_area_alloc :: "kmem \<Rightarrow> u64 \<Rightarrow> u64 \<Rightarrow> u64 \<times> kmem" where
  "vmap_area_alloc s start nr_pages =
     (let (vm, pool) = pool_alloc (vmap_area_pool s) (area_mem s);
          s = s\<lparr>vmap_area_pool := pool\<rparr>
      in if vm = 0 then (0, s)
         else let s = s\<lparr>area_mem := (area_mem s)(vm := start)\<rparr>;
                  s = s\<lparr>area_mem := (area_mem s)(vm + 16 := nr_pages)\<rparr>;
                  s = s\<lparr>area_mem := (area_mem s)(vm + 8 := start + area_mem s (vm + 16) * of_nat PAGE_SIZE)\<rparr>;
                  s = s\<lparr>area_links := list_add_tail (vm + 24) (vmap_area_list s) (area_links s)\<rparr>
              in (vm, s))"

definition kmem_map :: "kmem \<Rightarrow> nat \<Rightarrow> (u64 \<times> kmem) option" where
  "kmem_map s nr_order = do {
     (pa, bmp) \<leftarrow> alloc_pages (page_alloc_bitmap (kvm s)) nr_order;
     let s = s\<lparr>kvm := (kvm s)\<lparr>page_alloc_bitmap := bmp\<rparr>\<rparr>;
     if sint pa < 0 then Some (0, s)
     else do {
       let va = KMEM_BASE + pa;
       (ret, v) \<leftarrow> map_page_range (kvm s) pa va MAP_KERN_RW (order_to_pages nr_order);
       let s = s\<lparr>kvm := v\<rparr>;
       if of_int32 ret < order_to_pages nr_order then Some (0, s) else Some (va, s) } }"

definition find_vmap_area :: "kmem \<Rightarrow> u64 \<Rightarrow> u64 option" where
  "find_vmap_area s va = do {
     r \<leftarrow> list_find (\<lambda>node. area_mem s (node - 24) = va) (area_links s) (vmap_area_list s)
           (nxt (area_links s) (vmap_area_list s));
     Some (case r of None \<Rightarrow> 0 | Some node \<Rightarrow> node - 24) }"

definition kmalloc :: "kmem \<Rightarrow> size_t \<Rightarrow> (u64 \<times> kmem) option" where
  "kmalloc s sz = do {
     l \<leftarrow> spinlock_lock 0 (mm_spinlock s);
     let s = s\<lparr>mm_spinlock := l\<rparr>;
     if sz = 0 then Some (0, s)
     else do {
       let nr_order = size_to_order sz;
       (va, s) \<leftarrow> kmem_map s nr_order;
       if va = 0 then Some (0, s)
       else let (vm, s) = vmap_area_alloc s va (of_nat (order_to_pages nr_order))
         in if vm = 0 then Some (0, s)
            else let s = s\<lparr>mm_spinlock := spinlock_unlock (mm_spinlock s)\<rparr>
              in Some (area_mem s vm, s) } }"

definition kzalloc :: "kmem \<Rightarrow> size_t \<Rightarrow> (u64 \<times> kmem) option" where
  "kzalloc s sz = do {
     (ret_ptr, s) \<leftarrow> kmalloc s sz;
     if ret_ptr = 0 then Some (ret_ptr, s)
     else Some (ret_ptr, s\<lparr>kbytes := memset (kbytes s) ret_ptr 0 sz\<rparr>) }"

definition kfree :: "kmem \<Rightarrow> u64 \<Rightarrow> (int \<times> kmem) option" where
  "kfree s virtaddr = do {
     l \<leftarrow> spinlock_lock 0 (mm_spinlock s);
     let s = s\<lparr>mm_spinlock := l\<rparr>;
     vm \<leftarrow> find_vmap_area s virtaddr;
     if vm = 0 then Some (- 1, s)
     else do {
       let s = s\<lparr>area_links := list_del (vm + 24) (area_links s)\<rparr>;
       let order = size_to_order (unat (area_mem s (vm + 16) * of_nat PAGE_SIZE));
       physaddr \<leftarrow> get_physaddr (kvm s) virtaddr;
       let s = s\<lparr>kvm := (kvm s)\<lparr>page_alloc_bitmap := free_pages (page_alloc_bitmap (kvm s)) physaddr order\<rparr>\<rparr>;
       (_, v) \<leftarrow> unmap_page_range (kvm s) virtaddr (unat (area_mem s (vm + 16)));
       let s = s\<lparr>kvm := v\<rparr>;
       let (pool, m) = pool_free (vmap_area_pool s) vm (area_mem s);
       let s = s\<lparr>vmap_area_pool := pool, area_mem := m\<rparr>;
       Some (0, s\<lparr>mm_spinlock := spinlock_unlock (mm_spinlock s)\<rparr>) } }"

definition krealloc :: "kmem \<Rightarrow> u64 \<Rightarrow> size_t \<Rightarrow> (u64 \<times> kmem) option" where
  "krealloc s p new_size =
     (if p = 0 then Some (0, s)
      else do {
        (new_p, s) \<leftarrow> kmalloc s new_size;
        if new_p = 0 then Some (0, s)
        else do {
          let s = s\<lparr>kbytes := memcpy (kbytes s) new_p p new_size\<rparr>;
          (_, s) \<leftarrow> kfree s p;
          Some (new_p, s) } })"

definition mm_init :: "kmem \<Rightarrow> kmem option" where
  "mm_init s = do {
     (pa, bmp) \<leftarrow> alloc_pages (page_alloc_bitmap (kvm s)) (pages_to_order VMAP_AREA_POOL_NR_PAGES);
     let va = pa + KMEM_BASE;
     (_, v) \<leftarrow> map_page_range ((kvm s)\<lparr>page_alloc_bitmap := bmp\<rparr>) pa va MAP_KERN_RW VMAP_AREA_POOL_NR_PAGES;
     (pool, m) \<leftarrow> pool_init (vmap_area_pool s) va VMAP_AREA_POOL_NR_PAGES vmap_area_size (area_mem s);
     Some (s\<lparr>kvm := v, vmap_area_pool := pool, area_mem := m, mm_spinlock := spinlock_init (mm_spinlock s)\<rparr>) }"

section \<open>The invariant\<close>

text \<open>
  A live block is recorded as \<open>(vm, k, order)\<close>: the address of its \<open>vmap_area\<close>, its first page and its order. \<open>F\<close> is the pool's
  free chain. \<open>R\<close> contains the PML4 slots of the \<open>KMEM_BASE\<close> window (288 to 303).
\<close>

type_synonym area = "u64 \<times> nat \<times> nat"

definition area_pages :: "area \<Rightarrow> nat set" where
  "area_pages x = (case x of (vm, k, order) \<Rightarrow> {k..<k + 2 ^ order})"

definition kpage :: "nat \<Rightarrow> u64" where
  "kpage j = page_at KMEM_BASE j"

definition area_ok :: "kmem \<Rightarrow> area \<Rightarrow> bool" where
  "area_ok s x \<longleftrightarrow> (case x of (vm, k, order) \<Rightarrow>
     area_mem s vm = kpage k \<and> area_mem s (vm + 16) = of_nat (2 ^ order) \<and> order < 31 \<and>
     k + 2 ^ order \<le> bmp_size (page_alloc_bitmap (kvm s)))"

definition backed :: "kmem \<Rightarrow> nat \<Rightarrow> bool" where
  "backed s j \<longleftrightarrow> bitmap_test (page_alloc_bitmap (kvm s)) j \<and>
     (\<exists>e. leaf (kvm s) (path (kpage j)) = Some e \<and> e AND NOT 0xFFF = page_addr j)"

definition separate :: "u64 \<Rightarrow> u64 set \<Rightarrow> bool" where
  "separate head S \<longleftrightarrow> 0 \<notin> S \<and> head \<notin> (\<lambda>p. p + 24) ` S \<and> (\<forall>x \<in> S. \<forall>y \<in> S. y \<noteq> x + 8 \<and> y \<noteq> x + 16)"

definition kmem_window :: "nat set \<Rightarrow> bool" where
  "kmem_window R \<longleftrightarrow> {288..<304} \<subseteq> R"

definition kmem_inv :: "nat set \<Rightarrow> kmem \<Rightarrow> area list \<Rightarrow> u64 list \<Rightarrow> bool" where
  "kmem_inv R s A F \<longleftrightarrow> kmem_window R \<and> pt_wf R (kvm s) \<and> mm_spinlock s = 0 \<and>
     dlist (area_links s) (vmap_area_list s) (map (\<lambda>x. fst x + 24) A) \<and>
     pool_holds (vmap_area_pool s, area_mem s) F \<and>
     set F \<inter> fst ` set A = {} \<and> separate (vmap_area_list s) (set F \<union> fst ` set A) \<and>
     (\<forall>x \<in> set A. area_ok s x) \<and>
     (\<forall>x \<in> set A. \<forall>y \<in> set A. x \<noteq> y \<longrightarrow> area_pages x \<inter> area_pages y = {}) \<and>
     (\<forall>x \<in> set A. \<forall>j \<in> area_pages x. backed s j \<and> of_nat j \<notin> table_frames R (kvm s)) \<and>
     (\<forall>j < bmp_size (page_alloc_bitmap (kvm s)).
        \<not> bitmap_test (page_alloc_bitmap (kvm s)) j \<longrightarrow> leaf (kvm s) (path (kpage j)) = None)"

section \<open>Addresses of the window\<close>

lemma kpage_addr: "KMEM_BASE + page_addr k = kpage k"
  by (simp add: kpage_def page_at_def page_addr_def PAGE_SIZE_def)

lemma page_at_add: "page_at (page_at a k) j = page_at a (k + j)"
  by (simp add: page_at_def algebra_simps)

lemma page_at_kpage: "page_at (kpage k) j = kpage (k + j)"
  by (simp add: kpage_def page_at_add)

lemma page_at_page_addr: "page_at (page_addr k) j = page_addr (k + j)"
  by (simp add: page_at_def page_addr_def PAGE_SIZE_def algebra_simps)

lemma unat_kpage: "j < 2 ^ 31 \<Longrightarrow> unat (kpage j) = 0xffff900000000000 + j * 4096"
proof -
  assume j: "j < 2 ^ 31"
  have "kpage j = KMEM_BASE + of_nat (j * 4096)" by (simp add: kpage_def page_at_def)
  moreover have "unat KMEM_BASE = 0xffff900000000000" by (simp add: KMEM_BASE_def)
  ultimately show ?thesis using j unat_add_of_nat [of KMEM_BASE "j * 4096"] by simp
qed

lemma kpage_slot: "kmem_window R \<Longrightarrow> j < 2 ^ 31 \<Longrightarrow> unat (tbl_idx 39 (kpage j)) \<in> R"
proof -
  assume w: "kmem_window R" and j: "j < 2 ^ 31"
  have "(0xffff900000000000 + j * 4096) div 2 ^ 39 = 0x1FFFF20 + j div 2 ^ 27"
    by (simp add: div_mult2_eq [of _ 4096, symmetric] div_add1_eq)
  moreover have "j div 2 ^ 27 < 16" using j by (simp add: less_mult_imp_div_less)
  moreover have "(0x1FFFF20 + d) mod 512 = 288 + d" if "d < 16" for d :: nat
  proof -
    have "0x1FFFF20 + d = 65535 * 512 + (288 + d)" by simp
    then show ?thesis using that by (simp only: mod_mult_self3) simp
  qed
  ultimately have "unat (tbl_idx 39 (kpage j)) = 288 + j div 2 ^ 27"
    using j by (simp only: tbl_idx_unat unat_kpage)
  with \<open>j div 2 ^ 27 < 16\<close> w show ?thesis by (auto simp: kmem_window_def)
qed

lemma kpage_inj: "path (kpage j) = path (kpage k) \<Longrightarrow> j < 2 ^ 31 \<Longrightarrow> k < 2 ^ 31 \<Longrightarrow> j = k"
  unfolding kpage_def by (rule path_page_at_inj) auto

lemma kpage_offset: "kpage j AND 0xFFF = 0"
proof -
  have "kpage j = push_bit 12 (of_nat j + 0xffff900000000)"
    by (simp add: kpage_def page_at_def KMEM_BASE_def push_bit_eq_mult algebra_simps)
  then show ?thesis
    by (simp only: low_mask zero_word_bits) (auto simp: bit_and_iff bit_mask_iff bit_push_bit_iff simp del: mask_numeral)
qed

lemma page_addr_base: "page_addr k AND NOT 0xFFF = page_addr k"
proof -
  have "page_addr k = push_bit 12 (of_nat k)"
    by (simp add: page_addr_def PAGE_SIZE_def push_bit_eq_mult)
  then show ?thesis
    by (simp only: low_mask)
      (rule bit_word_eqI, auto simp: bit_and_iff bit_not_iff bit_mask_iff bit_push_bit_iff simp del: mask_numeral)
qed

lemma kpage_nonzero: "j < 2 ^ 31 \<Longrightarrow> kpage j \<noteq> 0"
  using unat_kpage [of j] by auto

section \<open>Taking and returning physical pages\<close>

lemma next_table_bitmap [simp]: "next_table (s\<lparr>page_alloc_bitmap := b\<rparr>) = next_table s"
  by (simp add: next_table_def fun_eq_iff cong: if_cong)

lemma tbl_bitmap [simp]: "tbl (s\<lparr>page_alloc_bitmap := b\<rparr>) p = tbl s p"
  by (induction p) simp_all

lemma leaf_bitmap [simp]: "leaf (s\<lparr>page_alloc_bitmap := b\<rparr>) q = leaf s q"
  by (simp add: leaf_def cong: if_cong)

lemma table_frames_bitmap [simp]: "table_frames R (s\<lparr>page_alloc_bitmap := b\<rparr>) = table_frames R s"
  by (simp add: table_frames_def)

lemma pt_wf_bitmap:
  assumes "pt_wf R s" and "bmp_size b = bmp_size (page_alloc_bitmap s)"
    and "\<And>f. f \<in> table_frames R s \<Longrightarrow> bitmap_test b (unat f)"
  shows "pt_wf R (s\<lparr>page_alloc_bitmap := b\<rparr>)"
proof -
  have "recursive (s\<lparr>page_alloc_bitmap := b\<rparr>) = recursive s" by (simp add: recursive_def)
  then show ?thesis using assms unfolding pt_wf_def tbl_bitmap table_frames_def by auto
qed

lemma pt_wf_table_used: "pt_wf R s \<Longrightarrow> f \<in> table_frames R s \<Longrightarrow> bitmap_test (page_alloc_bitmap s) (unat f)"
  by (auto simp: table_frames_def intro: pt_wf_used)

lemma free_run_free:
  assumes "free_run b k n" and "j \<in> {k..<k + n}"
  shows "\<not> bitmap_test b j"
proof -
  have "j - k < n" "k + (j - k) = j" using assms(2) by auto
  then show ?thesis using assms(1) unfolding free_run_def by metis
qed

lemma free_count_block:
  assumes "bmp_size b' = bmp_size b" and "k + n \<le> bmp_size b" and "free_run b k n"
    and "\<forall>j. bitmap_test b' j \<longleftrightarrow> bitmap_test b j \<or> (k \<le> j \<and> j < k + n)"
  shows "free_count b' = free_count b - n"
proof -
  have sub: "{k..<k + n} \<subseteq> {j. j < bmp_size b \<and> \<not> bitmap_test b j}"
  proof
    fix j assume "j \<in> {k..<k + n}"
    then show "j \<in> {j. j < bmp_size b \<and> \<not> bitmap_test b j}"
      using assms(2) free_run_free [OF assms(3)] by auto
  qed
  have "{j. j < bmp_size b' \<and> \<not> bitmap_test b' j} = {j. j < bmp_size b \<and> \<not> bitmap_test b j} - {k..<k + n}"
    using assms(1) by (auto simp: assms(4) [rule_format])
  then show ?thesis using card_Diff_subset [OF _ sub] by (simp add: free_count_def)
qed

lemma sint_page_addr: "k < 2 ^ 31 \<Longrightarrow> 0 \<le> sint (page_addr k)"
proof -
  assume "k < 2 ^ 31"
  then have "unat (page_addr k) < 2 ^ 63" using unat_page_addr [of k] by (simp add: PAGE_SIZE_def)
  then have "\<not> bit (page_addr k) 63" using bit_word_pow_le [of "page_addr k" 63] by auto
  then show ?thesis using bit_last_iff [of "page_addr k"] by simp
qed

text \<open>
  A successful \<open>__kmem_map\<close>: a run of free pages becomes used and is mapped in the window at its own address.
\<close>

lemma kmem_map_spec:
  assumes w: "kmem_window R" and wf: "pt_wf R (kvm s)" and order: "order < 31"
    and run: "\<exists>p. p + 2 ^ order \<le> bmp_size (page_alloc_bitmap (kvm s)) \<and>
        free_run (page_alloc_bitmap (kvm s)) p (2 ^ order)"
    and room: "4 * 2 ^ order \<le> free_count (page_alloc_bitmap (kvm s))"
    and un: "\<forall>j < bmp_size (page_alloc_bitmap (kvm s)).
        \<not> bitmap_test (page_alloc_bitmap (kvm s)) j \<longrightarrow> leaf (kvm s) (path (kpage j)) = None"
  obtains k v where "kmem_map s order = Some (kpage k, s\<lparr>kvm := v\<rparr>)" "pt_wf R v"
    "k + 2 ^ order \<le> bmp_size (page_alloc_bitmap (kvm s))"
    "\<forall>j \<in> {k..<k + 2 ^ order}. \<not> bitmap_test (page_alloc_bitmap (kvm s)) j \<and> backed (s\<lparr>kvm := v\<rparr>) j \<and>
        of_nat j \<notin> table_frames R v"
    "\<forall>j < 2 ^ 31. j \<notin> {k..<k + 2 ^ order} \<longrightarrow> leaf v (path (kpage j)) = leaf (kvm s) (path (kpage j))"
    "enlarges R (kvm s) v"
proof -
  let ?b = "page_alloc_bitmap (kvm s)" and ?n = "2 ^ order :: nat"
  have sz: "bmp_size ?b < 2 ^ 31" using wf by (simp add: pt_wf_def)
  have n: "?n < 2 ^ 31" using order by (intro power_strict_increasing) auto
  obtain p where p: "p + ?n \<le> bmp_size ?b" "free_run ?b p ?n" using run by blast
  have o: "order < 64" "?n \<le> bmp_size ?b" using order p(1) by auto
  obtain k b' where
    A: "alloc_pages ?b order = Some (page_addr k, b')" "k + ?n \<le> bmp_size ?b" "free_run ?b k ?n"
      "bmp_size b' = bmp_size ?b" "\<forall>j. bitmap_test b' j \<longleftrightarrow> bitmap_test ?b j \<or> (k \<le> j \<and> j < k + ?n)"
    by (rule_tac alloc_pages_cases [OF sz o]) (use p in blast)+
  let ?v = "(kvm s)\<lparr>page_alloc_bitmap := b'\<rparr>"
  have k: "k < 2 ^ 31" using A(2) sz by linarith
  have wf': "pt_wf R ?v" using A(4,5) pt_wf_table_used [OF wf] by (intro pt_wf_bitmap [OF wf]) auto
  have fc: "3 * ?n \<le> free_count (page_alloc_bitmap ?v)"
    using free_count_block [OF A(4,2,3,5)] room by simp
  have pages: "\<forall>i < ?n. unat (tbl_idx 39 (page_at (kpage k) i)) \<in> R \<and> leaf ?v (path (page_at (kpage k) i)) = None"
  proof (intro allI impI)
    fix i assume i: "i < ?n"
    then have "k + i < bmp_size ?b" "\<not> bitmap_test ?b (k + i)" using A(2,3) by (auto simp: free_run_def)
    then show "unat (tbl_idx 39 (page_at (kpage k) i)) \<in> R \<and> leaf ?v (path (page_at (kpage k) i)) = None"
      using un sz kpage_slot [OF w, of "k + i"] by (simp add: page_at_kpage)
  qed
  have fl: "flags_ok MAP_KERN_RW" by (simp add: flags_ok_def MAP_KERN_RW_def)
  obtain v where V: "map_page_range ?v (page_addr k) (kpage k) MAP_KERN_RW ?n = Some (int ?n, v)" "pt_wf R v"
    "\<forall>i < ?n. leaf v (path (page_at (kpage k) i)) = Some ((page_at (page_addr k) i AND NOT 0xFFF) OR MAP_KERN_RW OR 1)"
    "\<forall>q. leaf_path R q \<longrightarrow> q \<notin> (\<lambda>i. path (page_at (kpage k) i)) ` {..<?n} \<longrightarrow> leaf v q = leaf ?v q"
    "extends R ?v v"
    by (rule map_page_range_leaf [OF wf' fl n fc pages, where pa = "page_addr k"])
  have ret: "of_int32 (2 ^ order) = ?n" using n of_int32_nat [of ?n] by simp
  have "kmem_map s order = Some (kpage k, s\<lparr>kvm := v\<rparr>)"
    using A(1) V(1) sint_page_addr [OF k] ret order by (simp add: kmem_map_def kpage_addr Let_def)
  moreover have "\<not> bitmap_test ?b j \<and> backed (s\<lparr>kvm := v\<rparr>) j \<and> of_nat j \<notin> table_frames R v"
    if j: "j \<in> {k..<k + ?n}" for j
  proof -
    from j obtain i where i: "j = k + i" "i < ?n" by (auto simp: le_iff_add)
    have "leaf v (path (kpage j)) = Some ((page_addr j AND NOT 0xFFF) OR MAP_KERN_RW OR 1)"
      using V(3) i by (simp add: page_at_kpage page_at_page_addr)
    moreover have used: "bitmap_test b' j" using A(5) j by auto
    then have "bitmap_test (page_alloc_bitmap v) j" using V(5) by (simp add: extends_def enlarges_def)
    ultimately have "backed (s\<lparr>kvm := v\<rparr>) j"
      using mapped_base [OF fl, of "page_addr j"] page_addr_base [of j] by (simp add: backed_def)
    moreover have "of_nat j \<notin> table_frames R (kvm s)"
      using pt_wf_table_used [OF wf, of "of_nat j"] free_run_free [OF A(3) j] j A(2) sz by (auto simp: unat_of_nat_small)
    then have "of_nat j \<notin> table_frames R v"
      using V(5) used j A(2) sz by (auto simp: extends_def enlarges_def unat_of_nat_small)
    ultimately show ?thesis using free_run_free [OF A(3) j] by simp
  qed
  moreover have "leaf v (path (kpage j)) = leaf (kvm s) (path (kpage j))" if "j < 2 ^ 31" "j \<notin> {k..<k + ?n}" for j
  proof -
    have "path (kpage j) \<noteq> path (page_at (kpage k) i)" if "i < ?n" for i
    proof
      assume "path (kpage j) = path (page_at (kpage k) i)"
      then have "j = k + i"
        using kpage_inj [of j "k + i"] \<open>j < 2 ^ 31\<close> A(2) sz that by (simp add: page_at_kpage)
      then show False using \<open>j \<notin> _\<close> that by simp
    qed
    then have "path (kpage j) \<notin> (\<lambda>i. path (page_at (kpage k) i)) ` {..<?n}" by auto
    then show ?thesis using V(4) leaf_path_path [OF kpage_slot [OF w that(1)]] by simp
  qed
  moreover have "enlarges R (kvm s) v"
    using V(5) A(4,5) unfolding extends_def enlarges_def by auto
  ultimately show thesis using that V(2) A(2) by blast
qed

section \<open>kmalloc\<close>

lemma word_offsets: "(p :: u64) + 8 \<noteq> p" "p + 16 \<noteq> p" "p + 16 \<noteq> p + 8" "p + 24 \<noteq> p"
  by simp_all

lemma vmap_area_alloc_spec:
  assumes "pool_holds (vmap_area_pool s, area_mem s) (p # F)" and "p + 8 \<notin> set F" "p + 16 \<notin> set F"
  obtains s' where "vmap_area_alloc s start nr = (p, s')"
    "s' = s\<lparr>vmap_area_pool := vmap_area_pool s', area_mem := area_mem s',
       area_links := list_add_tail (p + 24) (vmap_area_list s) (area_links s)\<rparr>"
    "pool_holds (vmap_area_pool s', area_mem s') F"
    "area_mem s' p = start" "area_mem s' (p + 16) = nr"
    "\<And>y. y \<noteq> p \<Longrightarrow> y \<noteq> p + 8 \<Longrightarrow> y \<noteq> p + 16 \<Longrightarrow> area_mem s' y = area_mem s y"
proof -
  obtain pool where a: "pool_alloc (vmap_area_pool s) (area_mem s) = (p, pool)" "pool_holds (pool, area_mem s) F"
    using mp.alloc_next [OF assms(1)] by (auto simp: pool_alloc_op_def split: prod.splits)
  have p: "p \<noteq> 0" "p \<notin> set F" using mp.holds_valid [OF assms(1)] by auto
  define m where "m = (area_mem s)(p := start, p + 16 := nr, p + 8 := start + nr * of_nat PAGE_SIZE)"
  let ?s = "s\<lparr>vmap_area_pool := pool, area_mem := m,
      area_links := list_add_tail (p + 24) (vmap_area_list s) (area_links s)\<rparr>"
  have "vmap_area_alloc s start nr = (p, ?s)"
    using a(1) p(1) by (simp add: vmap_area_alloc_def m_def)
  moreover have "pool_holds (pool, m) F" using a(2) p(2) assms(2,3) by (simp add: pool_holds_def m_def)
  ultimately show thesis by (rule_tac that [of ?s]) (auto simp: m_def)
qed

lemma kmem_invD:
  assumes "kmem_inv R s A F"
  shows "kmem_window R" "pt_wf R (kvm s)" "mm_spinlock s = 0"
    "dlist (area_links s) (vmap_area_list s) (map (\<lambda>x. fst x + 24) A)"
    "pool_holds (vmap_area_pool s, area_mem s) F" "set F \<inter> fst ` set A = {}"
    "separate (vmap_area_list s) (set F \<union> fst ` set A)"
    "\<And>x. x \<in> set A \<Longrightarrow> area_ok s x"
    "\<And>x y. x \<in> set A \<Longrightarrow> y \<in> set A \<Longrightarrow> x \<noteq> y \<Longrightarrow> area_pages x \<inter> area_pages y = {}"
    "\<And>x j. x \<in> set A \<Longrightarrow> j \<in> area_pages x \<Longrightarrow> backed s j \<and> of_nat j \<notin> table_frames R (kvm s)"
    "\<forall>j < bmp_size (page_alloc_bitmap (kvm s)).
        \<not> bitmap_test (page_alloc_bitmap (kvm s)) j \<longrightarrow> leaf (kvm s) (path (kpage j)) = None"
  using assms unfolding kmem_inv_def by blast+

lemma kmem_invI:
  assumes "kmem_window R" "pt_wf R (kvm s)" "mm_spinlock s = 0"
    "dlist (area_links s) (vmap_area_list s) (map (\<lambda>x. fst x + 24) A)"
    "pool_holds (vmap_area_pool s, area_mem s) F" "set F \<inter> fst ` set A = {}"
    "separate (vmap_area_list s) (set F \<union> fst ` set A)"
    "\<And>x. x \<in> set A \<Longrightarrow> area_ok s x"
    "\<And>x y. x \<in> set A \<Longrightarrow> y \<in> set A \<Longrightarrow> x \<noteq> y \<Longrightarrow> area_pages x \<inter> area_pages y = {}"
    "\<And>x j. x \<in> set A \<Longrightarrow> j \<in> area_pages x \<Longrightarrow> backed s j \<and> of_nat j \<notin> table_frames R (kvm s)"
    "\<And>j. j < bmp_size (page_alloc_bitmap (kvm s)) \<Longrightarrow>
        \<not> bitmap_test (page_alloc_bitmap (kvm s)) j \<Longrightarrow> leaf (kvm s) (path (kpage j)) = None"
  shows "kmem_inv R s A F"
  using assms unfolding kmem_inv_def by blast

lemma area_page_bound:
  "kmem_inv R s A F \<Longrightarrow> x \<in> set A \<Longrightarrow> j \<in> area_pages x \<Longrightarrow> j < bmp_size (page_alloc_bitmap (kvm s)) \<and> j < 2 ^ 31"
  using kmem_invD(8) [of R s A F x] kmem_invD(2) [of R s A F]
  by (auto simp: area_ok_def area_pages_def pt_wf_def split: prod.splits)

lemma kmalloc_spec:
  assumes inv: "kmem_inv R s A (p # F)" and sz: "0 < sz" "sz + PAGE_SIZE < 2 ^ 64"
    and order: "order = size_to_order sz" "order < 31"
    and run: "\<exists>p. p + 2 ^ order \<le> bmp_size (page_alloc_bitmap (kvm s)) \<and>
        free_run (page_alloc_bitmap (kvm s)) p (2 ^ order)"
    and room: "4 * 2 ^ order \<le> free_count (page_alloc_bitmap (kvm s))"
  obtains k s' where "kmalloc s sz = Some (kpage k, s')" "kmem_inv R s' (A @ [(p, k, order)]) F"
    "kbytes s' = kbytes s" "k < 2 ^ 31"
    "\<forall>x \<in> set A. area_pages x \<inter> area_pages (p, k, order) = {}"
proof -
  note I = kmem_invD [OF inv]
  let ?s1 = "s\<lparr>mm_spinlock := 1\<rparr>"
  obtain k v where K: "kmem_map ?s1 order = Some (kpage k, ?s1\<lparr>kvm := v\<rparr>)" "pt_wf R v"
    "k + 2 ^ order \<le> bmp_size (page_alloc_bitmap (kvm s))"
    "\<forall>j \<in> {k..<k + 2 ^ order}. \<not> bitmap_test (page_alloc_bitmap (kvm s)) j \<and> backed (?s1\<lparr>kvm := v\<rparr>) j \<and>
        of_nat j \<notin> table_frames R v"
    "\<forall>j < 2 ^ 31. j \<notin> {k..<k + 2 ^ order} \<longrightarrow> leaf v (path (kpage j)) = leaf (kvm s) (path (kpage j))"
    "enlarges R (kvm s) v"
    by (rule kmem_map_spec [of R ?s1 order]) (use I order run room in simp_all)
  have szb: "bmp_size (page_alloc_bitmap (kvm s)) < 2 ^ 31" using I(2) by (simp add: pt_wf_def)
  have k: "k < 2 ^ 31" using K(3) szb by (metis add_leD1 le_less_trans less_trans not_less order.strict_trans1)
  let ?s2 = "?s1\<lparr>kvm := v\<rparr>"
  have sep: "p \<noteq> 0" "p + 24 \<noteq> vmap_area_list s" "\<And>y. y \<in> set F \<union> fst ` set A \<Longrightarrow> y \<noteq> p + 8 \<and> y \<noteq> p + 16"
    "\<And>y. y \<in> set F \<union> fst ` set A \<Longrightarrow> p \<noteq> y + 8 \<and> p \<noteq> y + 16"
    using I(7) unfolding separate_def by auto
  obtain s3 where S: "vmap_area_alloc ?s2 (kpage k) (of_nat (2 ^ order)) = (p, s3)"
    "s3 = ?s2\<lparr>vmap_area_pool := vmap_area_pool s3, area_mem := area_mem s3,
       area_links := list_add_tail (p + 24) (vmap_area_list ?s2) (area_links ?s2)\<rparr>"
    "pool_holds (vmap_area_pool s3, area_mem s3) F"
    "area_mem s3 p = kpage k" "area_mem s3 (p + 16) = of_nat (2 ^ order)"
    "\<And>y. y \<noteq> p \<Longrightarrow> y \<noteq> p + 8 \<Longrightarrow> y \<noteq> p + 16 \<Longrightarrow> area_mem s3 y = area_mem ?s2 y"
    by (rule vmap_area_alloc_spec [of ?s2 p F "kpage k" "of_nat (2 ^ order)"]) (use I(5) sep(3) in auto)
  let ?s4 = "s3\<lparr>mm_spinlock := 0\<rparr>"
  have f3: "kvm s3 = v" "vmap_area_list s3 = vmap_area_list s" "kbytes s3 = kbytes s"
    "area_links s3 = list_add_tail (p + 24) (vmap_area_list s) (area_links s)"
    using arg_cong [OF S(2), of kvm] arg_cong [OF S(2), of vmap_area_list] arg_cong [OF S(2), of kbytes]
      arg_cong [OF S(2), of area_links] by simp_all
  have call: "kmalloc s sz = Some (kpage k, ?s4)"
    using I(3) sz(1) K(1) S(1,4) sep(1) kpage_nonzero [OF k] order
    by (simp add: kmalloc_def spinlock_lock_free spinlock_unlock_def atomic_store_def Let_def)
  have size_v: "bmp_size (page_alloc_bitmap v) = bmp_size (page_alloc_bitmap (kvm s))"
    and used_v: "\<And>j. bitmap_test (page_alloc_bitmap (kvm s)) j \<Longrightarrow> bitmap_test (page_alloc_bitmap v) j"
    using K(6) by (auto simp: extends_def enlarges_def)
  have disj: "area_pages x \<inter> area_pages (p, k, order) = {}" if "x \<in> set A" for x
    using I(10) [OF that] K(4) by (fastforce simp: backed_def area_pages_def)
  have pA: "p \<notin> fst ` set A" using I(6) by auto
  have links: "dlist (area_links s3) (vmap_area_list s) (map (\<lambda>x. fst x + 24) A @ [p + 24])"
    unfolding f3 using I(4) sep(2) pA by (intro dlist_add_tail) (auto simp: image_iff)
  have okA: "area_ok ?s4 x" if "x \<in> set A" for x
  proof -
    have "fst x \<in> fst ` set A" using that by simp
    then have "fst x \<noteq> p" "fst x \<noteq> p + 8" "fst x \<noteq> p + 16" "p \<noteq> fst x + 8" "p \<noteq> fst x + 16"
      using sep(3,4) pA by auto
    then have "area_mem s3 (fst x) = area_mem s (fst x)" "area_mem s3 (fst x + 16) = area_mem s (fst x + 16)"
      using S(6) by (auto simp: algebra_simps)
    then show ?thesis using I(8) [OF that] by (auto simp: area_ok_def f3 size_v split: prod.splits)
  qed
  have okp: "area_ok ?s4 (p, k, order)"
    using S(4,5) order(2) K(3) by (simp add: area_ok_def f3 size_v)
  have bA: "backed ?s4 j \<and> of_nat j \<notin> table_frames R v" if "x \<in> set A" "j \<in> area_pages x" for x j
  proof -
    have b: "backed s j" "of_nat j \<notin> table_frames R (kvm s)" "j < 2 ^ 31"
      using I(10) [OF that] area_page_bound [OF inv that] by auto
    have "j \<notin> {k..<k + 2 ^ order}" using disj [OF that(1)] that(2) by (auto simp: area_pages_def)
    then have "backed ?s4 j" using b K(5) used_v by (auto simp: backed_def f3)
    moreover have "of_nat j \<notin> table_frames R v"
      using b K(6) by (auto simp: extends_def enlarges_def backed_def unat_of_nat_small)
    ultimately show ?thesis by simp
  qed
  have bp: "backed ?s4 j \<and> of_nat j \<notin> table_frames R v" if "j \<in> area_pages (p, k, order)" for j
    using K(4) that by (auto simp: area_pages_def backed_def f3)
  have un: "leaf v (path (kpage j)) = None"
    if "j < bmp_size (page_alloc_bitmap v)" "\<not> bitmap_test (page_alloc_bitmap v) j" for j
  proof -
    have "j \<notin> {k..<k + 2 ^ order}" using K(4) that(2) by (auto simp: backed_def)
    moreover have "\<not> bitmap_test (page_alloc_bitmap (kvm s)) j" using used_v that(2) by blast
    ultimately show ?thesis using K(5) I(11) that(1) szb by (simp add: size_v)
  qed
  have dis: "area_pages x \<inter> area_pages y = {}"
    if "x \<in> set (A @ [(p, k, order)])" "y \<in> set (A @ [(p, k, order)])" "x \<noteq> y" for x y
  proof -
    note xy = that
    consider "x \<in> set A" "y \<in> set A" | "x \<in> set A" "y = (p, k, order)" | "x = (p, k, order)" "y \<in> set A"
      using xy by auto
    then show ?thesis using I(9) [OF _ _ xy(3)] disj by cases blast+
  qed
  have "kmem_inv R ?s4 (A @ [(p, k, order)]) F"
  proof (rule kmem_invI)
    show "set F \<inter> fst ` set (A @ [(p, k, order)]) = {}" using I(6) mp.holds_valid [OF I(5)] by auto
    show "separate (vmap_area_list ?s4) (set F \<union> fst ` set (A @ [(p, k, order)]))"
      using I(7) by (simp add: f3)
    show "\<And>x. x \<in> set (A @ [(p, k, order)]) \<Longrightarrow> area_ok ?s4 x" using okA okp by auto
    show "\<And>x j. x \<in> set (A @ [(p, k, order)]) \<Longrightarrow> j \<in> area_pages x \<Longrightarrow>
        backed ?s4 j \<and> of_nat j \<notin> table_frames R (kvm ?s4)" using bA bp by (auto simp: f3)
  qed (use I(1) K(2) S(3) links un dis in \<open>simp_all add: f3\<close>)
  with call disj k f3(3) show thesis by (intro that [of k ?s4]) auto
qed

section \<open>kfree\<close>

lemma find_first: "P y \<Longrightarrow> (\<And>x. x \<in> set xs \<Longrightarrow> \<not> P x) \<Longrightarrow> find P (xs @ y # ys) = Some y"
  by (induction xs) auto

lemma kpage_eq: "j < 2 ^ 31 \<Longrightarrow> k < 2 ^ 31 \<Longrightarrow> kpage j = kpage k \<longleftrightarrow> j = k"
  using unat_kpage [of j] unat_kpage [of k]
  by (metis add_left_imp_eq mult_right_cancel zero_neq_numeral)

lemma area_start_unique:
  assumes inv: "kmem_inv R s A F" and "x \<in> set A" "y \<in> set A" and "area_mem s (fst x) = area_mem s (fst y)"
  shows "x = y"
proof -
  obtain p k a q l b where xy: "x = (p, k, a)" "y = (q, l, b)" by (cases x, cases y)
  have mem: "k \<in> area_pages x" "l \<in> area_pages y" by (auto simp: xy area_pages_def)
  have "kpage k = kpage l"
    using assms(2-4) kmem_invD(8) [OF inv] by (auto simp: xy area_ok_def)
  then have "k = l"
    using kpage_eq [of k l] area_page_bound [OF inv assms(2) mem(1)] area_page_bound [OF inv assms(3) mem(2)] by auto
  then show ?thesis using kmem_invD(9) [OF inv assms(2,3)] mem by auto
qed

lemma find_vmap_area_spec:
  assumes inv: "kmem_inv R s A F"
  shows "find_vmap_area s va = Some (case find (\<lambda>x. area_mem s (fst x) = va) A of None \<Rightarrow> 0 | Some x \<Rightarrow> fst x)"
proof -
  have "find (\<lambda>node. area_mem s (node - 24) = va) (map (\<lambda>x. fst x + 24) A) =
      map_option (\<lambda>x. fst x + 24) (find (\<lambda>x. area_mem s (fst x) = va) A)"
    by (induction A) auto
  then show ?thesis
    using list_find_dlist [OF kmem_invD(4) [OF inv]]
    by (simp add: find_vmap_area_def option.case_eq_if option.map_sel split: option.split)
qed

lemma kfree_spec:
  assumes inv: "kmem_inv R s (A1 @ (p, k, order) # A2) F"
  obtains s' where "kfree s (kpage k) = Some (0, s')" "kmem_inv R s' (A1 @ A2) (p # F)" "kbytes s' = kbytes s"
    "\<And>j. bitmap_test (page_alloc_bitmap (kvm s')) j \<longleftrightarrow>
      bitmap_test (page_alloc_bitmap (kvm s)) j \<and> j \<notin> {k..<k + 2 ^ order}"
proof -
  let ?x = "(p, k, order)" and ?A = "A1 @ (p, k, order) # A2" and ?n = "2 ^ order :: nat"
  note I = kmem_invD [OF inv]
  have x: "?x \<in> set ?A" by simp
  have ok: "area_mem s p = kpage k" "area_mem s (p + 16) = of_nat ?n" "order < 31"
    "k + ?n \<le> bmp_size (page_alloc_bitmap (kvm s))"
    using I(8) [OF x] by (auto simp: area_ok_def)
  have szb: "bmp_size (page_alloc_bitmap (kvm s)) < 2 ^ 31" using I(2) by (simp add: pt_wf_def)
  have n: "?n < 2 ^ 31" using ok(3) by (intro power_strict_increasing) auto
  have bound: "j < 2 ^ 31" if "j \<in> {k..<k + ?n}" for j using that ok(4) szb by auto
  have k: "k < 2 ^ 31" by (rule bound) simp
  have nodes: "distinct (map (\<lambda>x. fst x + 24) ?A)" using dlist_distinct [OF I(4)] by blast
  have pA: "p \<notin> fst ` set (A1 @ A2)" using nodes by (auto simp: image_iff)
  have p: "p \<noteq> 0" using I(7) by (auto simp: separate_def)
  let ?s1 = "s\<lparr>mm_spinlock := 1\<rparr>"
  have "find (\<lambda>x. area_mem s (fst x) = kpage k) ?A = Some ?x"
  proof (rule find_first)
    fix y assume y: "y \<in> set A1"
    show "area_mem s (fst y) \<noteq> kpage k"
    proof
      assume "area_mem s (fst y) = kpage k"
      then have "y = ?x" using area_start_unique [OF inv, of y ?x] y ok(1) by simp
      then show False using pA y by force
    qed
  qed (simp add: ok(1))
  then have found: "find_vmap_area ?s1 (kpage k) = Some p"
    using find_vmap_area_spec [OF inv, of "kpage k"] by (simp add: find_vmap_area_def)
  have backed: "backed s j" "of_nat j \<notin> table_frames R (kvm s)" if "j \<in> {k..<k + ?n}" for j
    using I(10) [OF x, of j] that by (auto simp: area_pages_def)
  obtain e where e: "leaf (kvm s) (path (kpage k)) = Some e" "e AND NOT 0xFFF = page_addr k"
    using backed(1) [of k] by (auto simp: backed_def)
  have phys: "get_physaddr (kvm s) (kpage k) = Some (page_addr k)"
    using get_physaddr_leaf [OF pt_wf_recursive [OF I(2)], of "kpage k"] e kpage_offset [of k] by simp
  have un: "unat (of_nat ?n :: u64) = ?n" using n by (intro unat_of_nat_small) simp
  have "unat (of_nat ?n * of_nat PAGE_SIZE :: u64) = ?n * PAGE_SIZE"
    using n unat_of_nat_small [of "?n * PAGE_SIZE"] by (simp add: PAGE_SIZE_def)
  then have ord: "size_to_order (unat (of_nat ?n * of_nat PAGE_SIZE :: u64)) = order"
    using size_to_order_pow [OF ok(3)] by simp
  let ?b = "free_pages (page_alloc_bitmap (kvm s)) (page_addr k) order"
  have free: "bitmap_test ?b j \<longleftrightarrow> bitmap_test (page_alloc_bitmap (kvm s)) j \<and> j \<notin> {k..<k + ?n}" for j
    using bitmap_test_free_pages [of k order] k ok(3) by auto
  let ?v = "(kvm s)\<lparr>page_alloc_bitmap := ?b\<rparr>"
  have wf: "pt_wf R ?v"
  proof (rule pt_wf_bitmap [OF I(2)])
    fix f assume f: "f \<in> table_frames R (kvm s)"
    have "unat f \<notin> {k..<k + ?n}" using backed(2) [of "unat f"] f by auto
    then show "bitmap_test ?b (unat f)" using pt_wf_table_used [OF I(2) f] free by simp
  qed simp
  have mapped: "\<forall>i < ?n. unat (tbl_idx 39 (page_at (kpage k) i)) \<in> R \<and> leaf ?v (path (page_at (kpage k) i)) \<noteq> None"
  proof (intro allI impI)
    fix i assume "i < ?n"
    then have j: "k + i \<in> {k..<k + ?n}" by simp
    show "unat (tbl_idx 39 (page_at (kpage k) i)) \<in> R \<and> leaf ?v (path (page_at (kpage k) i)) \<noteq> None"
      using backed(1) [OF j] kpage_slot [OF I(1) bound [OF j]] by (auto simp: backed_def page_at_kpage)
  qed
  obtain v where V: "unmap_page_range ?v (kpage k) ?n = Some (int ?n, v)" "pt_wf R v"
    "\<forall>i < ?n. leaf v (path (page_at (kpage k) i)) = None"
    "\<forall>q. leaf_path R q \<longrightarrow> q \<notin> (\<lambda>i. path (page_at (kpage k) i)) ` {..<?n} \<longrightarrow> leaf v q = leaf ?v q"
    "page_alloc_bitmap v = page_alloc_bitmap ?v" "table_frames R v = table_frames R ?v"
    by (rule unmap_page_range_leaf [OF wf n mapped])
  obtain pool m where pf: "pool_free (vmap_area_pool s) p (area_mem s) = (pool, m)" by force
  have holds: "pool_holds (pool, m) (p # F)"
    using mp.release_law [OF I(5), of p] I(6) p pf by (auto simp: pool_free_op_def)
  have m: "m y = area_mem s y" if "y \<noteq> p" for y using pf that by (auto simp: pool_free_def)
  let ?s' = "s\<lparr>area_links := list_del (p + 24) (area_links s), kvm := v, vmap_area_pool := pool, area_mem := m\<rparr>"
  have call: "kfree s (kpage k) = Some (0, ?s')"
    using I(3) found p phys ok(2) un ord V(1) pf
    by (simp add: kfree_def spinlock_lock_free spinlock_unlock_def atomic_store_def Let_def)
  have keep: "leaf v (path (kpage j)) = leaf (kvm s) (path (kpage j))"
    if "j < 2 ^ 31" "j \<notin> {k..<k + ?n}" for j
  proof -
    have "path (kpage j) \<noteq> path (page_at (kpage k) i)" if "i < ?n" for i
      using kpage_inj [of j "k + i"] \<open>j < 2 ^ 31\<close> \<open>j \<notin> _\<close> bound [of "k + i"] that by (auto simp: page_at_kpage)
    then have "path (kpage j) \<notin> (\<lambda>i. path (page_at (kpage k) i)) ` {..<?n}" by auto
    then show ?thesis using V(4) leaf_path_path [OF kpage_slot [OF I(1) that(1)]] by simp
  qed
  have gone: "leaf v (path (kpage j)) = None" if "j \<in> {k..<k + ?n}" for j
  proof -
    have "j = k + (j - k)" "j - k < ?n" using that by auto
    then show ?thesis using V(3) by (metis page_at_kpage)
  qed
  have sub: "x \<in> set ?A" "area_pages x \<inter> {k..<k + ?n} = {}" if "x \<in> set (A1 @ A2)" for x
  proof -
    show "x \<in> set ?A" using that by auto
    moreover have "x \<noteq> ?x" using pA that by force
    ultimately show "area_pages x \<inter> {k..<k + ?n} = {}" using I(9) [of x ?x] x by (simp add: area_pages_def)
  qed
  have "kmem_inv R ?s' (A1 @ A2) (p # F)"
  proof (rule kmem_invI)
    show "dlist (area_links ?s') (vmap_area_list ?s') (map (\<lambda>x. fst x + 24) (A1 @ A2))"
      using dlist_del [of "area_links s" "vmap_area_list s" "map (\<lambda>x. fst x + 24) A1" "p + 24"
          "map (\<lambda>x. fst x + 24) A2"] I(4) by simp
    show "set (p # F) \<inter> fst ` set (A1 @ A2) = {}" using I(6) pA by auto
    have "set (p # F) \<union> fst ` set (A1 @ A2) = set F \<union> fst ` set ?A" by auto
    then show "separate (vmap_area_list ?s') (set (p # F) \<union> fst ` set (A1 @ A2))" using I(7) by simp
    show "area_ok ?s' x" if "x \<in> set (A1 @ A2)" for x
    proof -
      have "fst x \<in> set F \<union> fst ` set ?A" "p \<in> set F \<union> fst ` set ?A" using sub(1) [OF that] by auto
      then have "p \<noteq> fst x + 16" using I(7) unfolding separate_def by blast
      moreover have "fst x \<noteq> p" using pA that by auto
      ultimately show ?thesis
        using I(8) [OF sub(1) [OF that]] m V(5) by (auto simp: area_ok_def split: prod.splits)
    qed
    show "area_pages x \<inter> area_pages y = {}" if "x \<in> set (A1 @ A2)" "y \<in> set (A1 @ A2)" "x \<noteq> y" for x y
      using I(9) [OF sub(1) [OF that(1)] sub(1) [OF that(2)] that(3)] .
    show "backed ?s' j \<and> of_nat j \<notin> table_frames R (kvm ?s')" if xj: "x \<in> set (A1 @ A2)" "j \<in> area_pages x" for x j
    proof -
      have j: "j \<notin> {k..<k + ?n}" using sub(2) [OF xj(1)] xj(2) by auto
      have b: "backed s j" "of_nat j \<notin> table_frames R (kvm s)" "j < 2 ^ 31"
        using I(10) [OF sub(1) [OF xj(1)] xj(2)] area_page_bound [OF inv sub(1) [OF xj(1)] xj(2)] by auto
      then show ?thesis using keep [OF b(3) j] j V(5,6) by (simp add: backed_def free)
    qed
    show "leaf (kvm ?s') (path (kpage j)) = None"
      if jb: "j < bmp_size (page_alloc_bitmap (kvm ?s'))" "\<not> bitmap_test (page_alloc_bitmap (kvm ?s')) j" for j
    proof (cases "j \<in> {k..<k + ?n}")
      case False
      then have "j < 2 ^ 31" "leaf (kvm s) (path (kpage j)) = None"
        using jb szb V(5) I(11) by (auto simp: free)
      then show ?thesis using keep [OF _ False] by simp
    qed (simp add: gone)
  qed (use I(1,3) V(2) holds in simp_all)
  moreover have "bitmap_test (page_alloc_bitmap (kvm ?s')) j \<longleftrightarrow>
      bitmap_test (page_alloc_bitmap (kvm s)) j \<and> j \<notin> {k..<k + ?n}" for j
    using V(5) by (simp add: free)
  ultimately show thesis by (intro that [of ?s']) (simp_all add: call)
qed

section \<open>The allocator interface\<close>

text \<open>
  What the file systems and the scheduler rely on: \<open>live s B\<close> says that the blocks \<open>B\<close> (start address and number of bytes) are
  allocated in \<open>s\<close>; \<open>room s n\<close> that a request of \<open>n\<close> bytes can be satisfied.
\<close>

locale allocator =
  fixes live :: "'s \<Rightarrow> (u64 \<times> nat) list \<Rightarrow> bool"
    and room :: "'s \<Rightarrow> nat \<Rightarrow> bool"
    and alloc :: "'s \<Rightarrow> nat \<Rightarrow> (u64 \<times> 's) option"
    and dealloc :: "'s \<Rightarrow> u64 \<Rightarrow> (int \<times> 's) option"
  assumes live_disjoint: "live s B \<Longrightarrow> i < j \<Longrightarrow> j < length B \<Longrightarrow>
      region (fst (B ! i)) (snd (B ! i)) \<inter> region (fst (B ! j)) (snd (B ! j)) = {}"
    and alloc_law: "live s B \<Longrightarrow> room s n \<Longrightarrow>
      \<exists>p m s'. alloc s n = Some (p, s') \<and> p \<noteq> 0 \<and> n \<le> m \<and> live s' (B @ [(p, m)])"
    and dealloc_law: "live s (B @ (p, m) # C) \<Longrightarrow> \<exists>s'. dealloc s p = Some (0, s') \<and> live s' (B @ C)"
begin

lemma alloc_fresh:
  assumes "live s B" and "room s n"
  shows "\<exists>p s'. alloc s n = Some (p, s') \<and> p \<noteq> 0 \<and>
    (\<forall>b \<in> set B. region (fst b) (snd b) \<inter> region p n = {})"
proof -
  obtain p m s' where a: "alloc s n = Some (p, s')" "p \<noteq> 0" "n \<le> m" "live s' (B @ [(p, m)])"
    using alloc_law [OF assms] by blast
  have "region (fst b) (snd b) \<inter> region p n = {}" if "b \<in> set B" for b
  proof -
    obtain i where "i < length B" "b = B ! i" using \<open>b \<in> set B\<close> by (metis in_set_conv_nth)
    then have "region (fst b) (snd b) \<inter> region p m = {}"
      using live_disjoint [OF a(4), of i "length B"] by (simp add: nth_append)
    moreover have "region p n \<subseteq> region p m" using a(3) by (auto simp: region_def)
    ultimately show ?thesis by blast
  qed
  with a show ?thesis by blast
qed

lemma alloc_dealloc:
  assumes "live s B" and "room s n"
  shows "\<exists>p s' s''. alloc s n = Some (p, s') \<and> dealloc s' p = Some (0, s'') \<and> live s'' B"
  using alloc_law [OF assms] dealloc_law [of _ B _ _ "[]"] by fastforce

end

definition area_block :: "area \<Rightarrow> u64 \<times> nat" where
  "area_block x = (case x of (vm, k, order) \<Rightarrow> (kpage k, 2 ^ order * PAGE_SIZE))"

definition kmem_live :: "nat set \<Rightarrow> kmem \<Rightarrow> (u64 \<times> nat) list \<Rightarrow> bool" where
  "kmem_live R s B \<longleftrightarrow> (\<exists>A F. kmem_inv R s A F \<and> B = map area_block A)"

definition kmem_room :: "kmem \<Rightarrow> nat \<Rightarrow> bool" where
  "kmem_room s n \<longleftrightarrow> 0 < n \<and> n + PAGE_SIZE < 2 ^ 64 \<and> size_to_order n < 31 \<and> free_list (vmap_area_pool s) \<noteq> 0 \<and>
     4 * 2 ^ size_to_order n \<le> free_count (page_alloc_bitmap (kvm s)) \<and>
     (\<exists>p. p + 2 ^ size_to_order n \<le> bmp_size (page_alloc_bitmap (kvm s)) \<and>
        free_run (page_alloc_bitmap (kvm s)) p (2 ^ size_to_order n))"

lemma region_kpage:
  assumes "k + n \<le> 2 ^ 31" and "a \<in> region (kpage k) (n * PAGE_SIZE)"
  shows "(unat a - 0xffff900000000000) div 4096 \<in> {k..<k + n}"
proof -
  obtain i where i: "a = kpage k + of_nat i" "i < n * 4096"
    using assms(2) by (auto simp: region_def PAGE_SIZE_def)
  then have n: "0 < n" by (cases n) auto
  have "unat (kpage k) = 0xffff900000000000 + k * 4096" using assms(1) n by (intro unat_kpage) simp
  moreover have "unat (kpage k) + i < 2 ^ 64" using calculation assms(1) i(2) by simp
  ultimately have "unat a = 0xffff900000000000 + (k * 4096 + i)" using i(1) by (simp add: unat_add_of_nat)
  moreover have "(k * 4096 + i) div 4096 = k + i div 4096" by simp
  moreover have "i div 4096 < n" using i(2) by (simp add: less_mult_imp_div_less)
  ultimately show ?thesis by simp
qed

lemma area_block_disjoint:
  assumes inv: "kmem_inv R s A F" and xy: "x \<in> set A" "y \<in> set A" "x \<noteq> y"
  shows "region (fst (area_block x)) (snd (area_block x)) \<inter> region (fst (area_block y)) (snd (area_block y)) = {}"
proof -
  have page: "(unat a - 0xffff900000000000) div 4096 \<in> area_pages z"
    if "z \<in> set A" "a \<in> region (fst (area_block z)) (snd (area_block z))" for a z
  proof -
    obtain p k order where z: "z = (p, k, order)" by (cases z)
    have "k + 2 ^ order \<le> bmp_size (page_alloc_bitmap (kvm s))"
      using kmem_invD(8) [OF inv that(1)] by (simp add: z area_ok_def)
    moreover have "bmp_size (page_alloc_bitmap (kvm s)) < 2 ^ 31" using kmem_invD(2) [OF inv] by (simp add: pt_wf_def)
    ultimately have "k + 2 ^ order \<le> 2 ^ 31" by linarith
    from region_kpage [OF this] that(2) show ?thesis by (simp add: z area_block_def area_pages_def)
  qed
  show ?thesis using page [OF xy(1)] page [OF xy(2)] kmem_invD(9) [OF inv xy] by blast
qed

interpretation km: allocator "kmem_live R" kmem_room kmalloc kfree for R
proof unfold_locales
  fix s B i j assume B: "kmem_live R s B" and ij: "i < j" "j < length B"
  obtain A F where A: "kmem_inv R s A F" "B = map area_block A" using B by (auto simp: kmem_live_def)
  have "distinct A" using dlist_distinct [OF kmem_invD(4) [OF A(1)]] by (auto simp: distinct_map)
  then have "A ! i \<noteq> A ! j" using ij A(2) by (simp add: nth_eq_iff_index_eq)
  then show "region (fst (B ! i)) (snd (B ! i)) \<inter> region (fst (B ! j)) (snd (B ! j)) = {}"
    using area_block_disjoint [OF A(1), of "A ! i" "A ! j"] ij A(2) by simp
next
  fix s B n assume B: "kmem_live R s B" and room: "kmem_room s n"
  obtain A F where A: "kmem_inv R s A F" "B = map area_block A" using B by (auto simp: kmem_live_def)
  obtain p F' where F: "F = p # F'"
    using kmem_invD(5) [OF A(1)] room by (cases F) (auto simp: pool_holds_def kmem_room_def)
  obtain k s' where "kmalloc s n = Some (kpage k, s')" "kmem_inv R s' (A @ [(p, k, size_to_order n)]) F'" "k < 2 ^ 31"
    by (rule kmalloc_spec [OF A(1) [unfolded F], of n "size_to_order n"]) (use room in \<open>auto simp: kmem_room_def\<close>)
  moreover have "n \<le> 2 ^ size_to_order n * PAGE_SIZE" using size_to_order_spec [of n] room by (simp add: kmem_room_def)
  ultimately show "\<exists>p m s'. kmalloc s n = Some (p, s') \<and> p \<noteq> 0 \<and> n \<le> m \<and> kmem_live R s' (B @ [(p, m)])"
    using A(2) kpage_nonzero unfolding kmem_live_def
    by (intro exI [of _ "kpage k"] exI [of _ "2 ^ size_to_order n * PAGE_SIZE"] exI [of _ s'])
      (force simp: area_block_def)
next
  fix s B p m C assume B: "kmem_live R s (B @ (p, m) # C)"
  obtain A F where A: "kmem_inv R s A F" "B @ (p, m) # C = map area_block A" using B by (auto simp: kmem_live_def)
  obtain A1 x A2 where A': "A = A1 @ x # A2" "B = map area_block A1" "(p, m) = area_block x" "C = map area_block A2"
  proof -
    from A(2) [symmetric] obtain A1 A3 where a: "A = A1 @ A3" "B = map area_block A1" "(p, m) # C = map area_block A3"
      by (auto simp: map_eq_append_conv)
    then obtain x A2 where "A3 = x # A2" "(p, m) = area_block x" "C = map area_block A2" by (cases A3) auto
    with a that show thesis by blast
  qed
  obtain vm k order where x: "x = (vm, k, order)" by (cases x)
  obtain s' where "kfree s (kpage k) = Some (0, s')" "kmem_inv R s' (A1 @ A2) (vm # F)"
    by (rule kfree_spec [OF A(1) [unfolded A'(1) x]])
  then show "\<exists>s'. kfree s p = Some (0, s') \<and> kmem_live R s' (B @ C)"
    using A' x by (auto simp: kmem_live_def area_block_def)
qed

section \<open>Properties\<close>

text \<open>A small kernel with twelve pages, two of them used, and two free records.\<close>

definition small_kmem :: kmem where
  "small_kmem = \<lparr>kvm = small_vm,
     vmap_area_pool = \<lparr>free_list = 0x100, obj_size = 40, pool_total = 2, pool_used = 0\<rparr>,
     area_mem = (\<lambda>_. 0)(0x100 := 0x200), area_links = INIT_LIST_HEAD 0x50 \<lparr>nxt = (\<lambda>_. 0), prv = (\<lambda>_. 0)\<rparr>,
     vmap_area_list = 0x50, mm_spinlock = 0, kbytes = (\<lambda>_. 0xAA)\<rparr>"

lemma small_kmem_inv: "kmem_inv {288..<304} small_kmem [] [0x100, 0x200]"
proof (rule kmem_invI)
  show "leaf (kvm small_kmem) (path (kpage j)) = None"
    if "j < bmp_size (page_alloc_bitmap (kvm small_kmem))" for j
  proof -
    have "j < 2 ^ 31" using that by (simp add: small_kmem_def small_vm_def)
    then have "unat (tbl_idx 39 (kpage j)) \<in> {288..<304}" by (intro kpage_slot) (simp_all add: kmem_window_def)
    then show ?thesis using small_vm_leaf [of "{288..<304}" "kpage j"] by (simp add: small_kmem_def)
  qed
qed (auto simp: kmem_window_def small_kmem_def small_vm_wf dlist_init pool_holds_def separate_def)

lemma small_kmem_room: "0 < n \<Longrightarrow> n \<le> PAGE_SIZE \<Longrightarrow> kmem_room small_kmem n"
proof -
  assume n: "0 < n" "n \<le> PAGE_SIZE"
  have "size_to_order n = 0"
  proof (rule ccontr)
    assume "size_to_order n \<noteq> 0"
    then have "2 ^ (size_to_order n - 1) * PAGE_SIZE < n" using size_to_order_spec [of n] n by (simp add: PAGE_SIZE_def)
    moreover have "1 * PAGE_SIZE \<le> 2 ^ (size_to_order n - 1) * PAGE_SIZE" by (rule mult_le_mono1) simp
    ultimately show False using n(2) by linarith
  qed
  moreover have "\<not> bitmap_test (page_alloc_bitmap small_vm) 2" by (simp add: small_vm_used)
  moreover have "bmp_size (page_alloc_bitmap small_vm) = 12" by (simp add: small_vm_def)
  ultimately show ?thesis using n
    by (auto simp: kmem_room_def small_kmem_def small_vm_free free_run_def PAGE_SIZE_def intro!: exI [of _ 2])
qed

text \<open>
  C1: \<open>kmalloc\<close> is a correct allocator. In every state of the allocator in which the request can be met (free pages for the block and
  for the page tables it may need, a free record), the call returns a non-null address whose block of that size overlaps
  no live block, and the block is recorded as live: a later \<open>kfree\<close> of that address returns 0 and restores the set of
  live blocks.
\<close>

theorem kmalloc_kfree_correct:
  assumes "kmem_live R s B" and "kmem_room s n"
  shows "\<exists>p s' s''. kmalloc s n = Some (p, s') \<and> p \<noteq> 0 \<and>
    (\<forall>b \<in> set B. region (fst b) (snd b) \<inter> region p n = {}) \<and>
    kfree s' p = Some (0, s'') \<and> kmem_live R s'' B"
  using km.alloc_fresh [OF assms] km.alloc_dealloc [OF assms] by fastforce

theorem kmalloc_kfree_correct_witness:
  "\<exists>p s' s''. kmalloc small_kmem 100 = Some (p, s') \<and> p \<noteq> 0 \<and> kfree s' p = Some (0, s'')"
proof -
  have "kmem_live {288..<304} small_kmem []" using small_kmem_inv unfolding kmem_live_def by blast
  moreover have "kmem_room small_kmem 100" by (rule small_kmem_room) (simp_all add: PAGE_SIZE_def)
  ultimately show ?thesis using kmalloc_kfree_correct [of "{288..<304}" small_kmem "[]" 100] by blast
qed

text \<open>
  C6: Every page of a block returned by \<open>kmalloc\<close> is backed by its own physical page: the processor translates page \<open>i\<close> of the block to
  frame \<open>k + i\<close>, where these frames were free before and are marked used afterwards; the block is large enough.
\<close>

theorem kmalloc_backed:
  assumes "kmem_inv R s A (r # F)" and "kmem_room s n"
  shows "\<exists>k s'. kmalloc s n = Some (kpage k, s') \<and> n \<le> 2 ^ size_to_order n * PAGE_SIZE \<and>
    (\<forall>i < 2 ^ size_to_order n. translate (kvm s') (kpage (k + i)) = Some (of_nat (k + i), 0) \<and>
      bitmap_test (page_alloc_bitmap (kvm s')) (k + i)) \<and>
    (\<forall>x \<in> set A. area_pages x \<inter> {k..<k + 2 ^ size_to_order n} = {})"
proof -
  obtain k s' where K: "kmalloc s n = Some (kpage k, s')" "kmem_inv R s' (A @ [(r, k, size_to_order n)]) F"
    "\<forall>x \<in> set A. area_pages x \<inter> area_pages (r, k, size_to_order n) = {}"
    by (rule kmalloc_spec [OF assms(1), of n "size_to_order n"]) (use assms(2) in \<open>auto simp: kmem_room_def\<close>)
  have "translate (kvm s') (kpage j) = Some (of_nat j, 0) \<and> bitmap_test (page_alloc_bitmap (kvm s')) j"
    if "j \<in> area_pages (r, k, size_to_order n)" for j
  proof -
    have b: "backed s' j" "j < 2 ^ 31"
      using kmem_invD(10) [OF K(2) _ that] area_page_bound [OF K(2) _ that] by auto
    then obtain e where e: "leaf (kvm s') (path (kpage j)) = Some e" "e AND NOT 0xFFF = page_addr j"
      by (auto simp: backed_def)
    have "frame_of e = of_nat j"
      using frame_of_mapped [of 0 e] e(2) frame_of_new_entry [of j 0] b(2) by (simp add: flags_ok_def)
    moreover have "unat (tbl_idx 3 (kpage j)) = 0"
      using unat_kpage [OF b(2)] by (simp add: tbl_idx_unat)
    ultimately show ?thesis using e(1) b(1) by (simp add: translate_leaf backed_def)
  qed
  moreover have "n \<le> 2 ^ size_to_order n * PAGE_SIZE" using size_to_order_spec [of n] assms(2) by (simp add: kmem_room_def)
  ultimately show ?thesis using K(1,3) by (intro exI [of _ k] exI [of _ s']) (auto simp: area_pages_def)
qed

theorem kmalloc_backed_witness:
  "\<exists>k s'. kmalloc small_kmem 4096 = Some (kpage k, s') \<and> 4096 \<le> 2 ^ size_to_order 4096 * PAGE_SIZE"
proof -
  have "kmem_room small_kmem 4096" by (rule small_kmem_room) (simp_all add: PAGE_SIZE_def)
  from kmalloc_backed [OF small_kmem_inv this] show ?thesis by blast
qed



text \<open>
  \<open>kzalloc\<close> returns zeroed memory: every byte of the requested size is 0 and no byte of a live block changes.
\<close>

lemma kzalloc_zeroed:
  assumes "kmem_live R s B" and "kmem_room s n"
  shows "\<exists>p s'. kzalloc s n = Some (p, s') \<and> p \<noteq> 0 \<and> (\<forall>a \<in> region p n. kbytes s' a = 0) \<and>
    (\<forall>b \<in> set B. \<forall>a \<in> region (fst b) (snd b). kbytes s' a = kbytes s a)"
proof -
  obtain A F where A: "kmem_inv R s A F" using assms(1) by (auto simp: kmem_live_def)
  obtain p s1 where p: "kmalloc s n = Some (p, s1)" "p \<noteq> 0"
    "\<forall>b \<in> set B. region (fst b) (snd b) \<inter> region p n = {}" using km.alloc_fresh [OF assms] by blast
  obtain r F' where F: "F = r # F'"
    using kmem_invD(5) [OF A] assms(2) by (cases F) (auto simp: pool_holds_def kmem_room_def)
  have "kbytes s1 = kbytes s"
    using p(1) by (rule_tac kmalloc_spec [OF A [unfolded F], of n "size_to_order n"])
      (use assms(2) in \<open>auto simp: kmem_room_def\<close>)
  then show ?thesis using p by (auto simp: kzalloc_def memset_spec)
qed

lemma kzalloc_zeroed_example:
  "\<exists>p s'. kzalloc small_kmem 64 = Some (p, s') \<and> p \<noteq> 0 \<and> kbytes s' ` region p 64 \<subseteq> {0}"
proof -
  have "kmem_live {288..<304} small_kmem []" using small_kmem_inv unfolding kmem_live_def by blast
  moreover have "kmem_room small_kmem 64" by (rule small_kmem_room) (simp_all add: PAGE_SIZE_def)
  ultimately show ?thesis using kzalloc_zeroed [of "{288..<304}" small_kmem "[]" 64] by auto
qed

end
