(* ===== verification/KHeap.thy ===== *)
theory KHeap
  imports KMem
begin

text \<open>
  The kernel heap as its clients see it. The objects a client allocates are values of its own state, so what is left of
  \<open>kmalloc\<close> and \<open>kfree\<close> (\<open>src/src/mm/mm.c\<close>) is whether a call returns and whether it delivers memory: \<open>oom h k\<close> says that
  the \<open>k\<close>-th call finds no memory, \<open>mm_held\<close> that the lock \<open>mm_spinlock\<close> was left taken by a failed call, after
  which no call returns. The lemma \<open>kheap_simulates_kmalloc\<close> connects this view with the allocator of theory \<open>KMem\<close>.
\<close>

record kheap =
  oom :: "nat \<Rightarrow> bool"
  calls :: nat
  mm_held :: bool

definition kh_alloc :: "kheap \<Rightarrow> size_t \<Rightarrow> (bool \<times> kheap) option" where
  "kh_alloc h n =
     (if mm_held h then None
      else if n = 0 \<or> oom h (calls h) then Some (False, h\<lparr>calls := Suc (calls h), mm_held := True\<rparr>)
      else Some (True, h\<lparr>calls := Suc (calls h)\<rparr>))"

definition kh_free :: "kheap \<Rightarrow> kheap option" where
  "kh_free h = (if mm_held h then None else Some h)"

text \<open>\<open>kfree\<close> of an address that is no live block returns with the lock held.\<close>

definition kh_free_unknown :: "kheap \<Rightarrow> kheap option" where
  "kh_free_unknown h = (if mm_held h then None else Some (h\<lparr>mm_held := True\<rparr>))"

text \<open>A heap with memory for every call.\<close>

definition roomy :: "kheap \<Rightarrow> bool" where
  "roomy h \<longleftrightarrow> \<not> mm_held h \<and> (\<forall>k. \<not> oom h k)"

definition fresh_heap :: kheap where
  "fresh_heap = \<lparr>oom = (\<lambda>_. False), calls = 0, mm_held = False\<rparr>"

lemma roomy_fresh [simp]: "roomy fresh_heap"
  by (simp add: roomy_def fresh_heap_def)

lemma kh_alloc_SomeE:
  assumes "kh_alloc h n = Some (ok, h')"
  obtains "ok" "n \<noteq> 0" "h' = h\<lparr>calls := Suc (calls h)\<rparr>" "\<not> mm_held h"
  | "\<not> ok" "mm_held h'"
  using assms by (auto simp: kh_alloc_def split: if_splits)

lemma kh_alloc_roomy:
  "roomy h \<Longrightarrow> 0 < n \<Longrightarrow> \<exists>h'. kh_alloc h n = Some (True, h') \<and> roomy h'"
  by (simp add: kh_alloc_def roomy_def)

lemma kh_free_roomy [simp]: "roomy h \<Longrightarrow> kh_free h = Some h"
  by (simp add: kh_free_def roomy_def)

lemma kh_after_failure:
  "mm_held h \<Longrightarrow> kh_alloc h n = None \<and> kh_free h = None"
  by (simp add: kh_alloc_def kh_free_def)

section \<open>The allocator behind it\<close>

definition kheap_rel :: "kmem \<Rightarrow> kheap \<Rightarrow> bool" where
  "kheap_rel s h \<longleftrightarrow> mm_held h = (mm_spinlock s \<noteq> 0)"

lemma kmem_map_lock: "kmem_map s order = Some (va, s') \<Longrightarrow> mm_spinlock s' = mm_spinlock s"
  by (auto simp: kmem_map_def Let_def split: Option.bind_splits if_splits prod.splits)

lemma vmap_area_alloc_lock: "vmap_area_alloc s va n = (vm, s') \<Longrightarrow> mm_spinlock s' = mm_spinlock s"
  by (auto simp: vmap_area_alloc_def Let_def split: if_splits prod.splits)

lemma vmap_area_alloc_start:
  "vmap_area_alloc s va n = (vm, s') \<Longrightarrow> vm \<noteq> 0 \<Longrightarrow> area_mem s' vm = va"
  by (auto simp: vmap_area_alloc_def Let_def split: if_splits prod.splits)

text \<open>Every run of \<open>kmalloc\<close> on the full memory model is a run of \<open>kh_alloc\<close> on a heap that is out of memory exactly when \<open>kmalloc\<close> returns NULL.\<close>

lemma kheap_simulates_kmalloc:
  assumes "kmalloc s n = Some (p, s')" and "kheap_rel s h" and "oom h (calls h) \<longleftrightarrow> p = 0"
  shows "\<exists>h'. kh_alloc h n = Some (p \<noteq> 0, h') \<and> kheap_rel s' h'"
proof -
  have free: "mm_spinlock s = 0"
    using assms(1) spinlock_lock_held [of 0 "mm_spinlock s"] by (auto simp: kmalloc_def split: Option.bind_splits)
  have "if p = 0 then mm_spinlock s' = 1 else mm_spinlock s' = 0 \<and> n \<noteq> 0"
    using assms(1) unfolding kmalloc_def free
    by (auto simp: spinlock_lock_free Let_def spinlock_unlock_def atomic_store_def
        dest!: kmem_map_lock split: Option.bind_splits if_splits prod.splits
        dest: vmap_area_alloc_lock vmap_area_alloc_start)
  then show ?thesis
    using assms(2,3) free by (auto simp: kh_alloc_def kheap_rel_def)
qed

end
