(* ===== verification/Fat32.thy ===== *)
theory Fat32
  imports Prelude
begin

text \<open>
  The FAT32 driver of \<open>src/src/fs/fat32.c\<close>: short and long file names, the file allocation table, directories, and the
  file operations on top of them. The disk is an array of 512-byte sectors; a transfer by \<open>ahci_read\<close> or \<open>ahci_write\<close> is taken to
  succeed. A C string is the list of its bytes before the terminator; a directory entry is its 32 raw bytes, since short and long
  entries share them in a union. Buffers come from \<open>kzalloc\<close> and are zero where nothing was read, which is what \<open>byte_at\<close> gives
  outside a list. A walk along a cyclic cluster chain does not end, and a division by a zero sector size faults: both are \<open>None\<close>.

  The lemmas show the round trips of short and long names, that \<open>path_next\<close> splits a path into its components, that \<open>fat32_read_cluster\<close> returns
  the contents of the cluster chain, and where the driver departs from the format: \<open>__fat32_alloc_cluster\<close> computes its result
  with 16 instead of 128 entries per sector, and \<open>fat32_create\<close> names the new file after the first component of the path.
\<close>

type_synonym disk = "u64 \<Rightarrow> bytes"

section \<open>Bytes and sectors\<close>

definition byte_at :: "bytes \<Rightarrow> nat \<Rightarrow> u8" where
  "byte_at b i = (if i < length b then b ! i else 0)"

definition write_at :: "nat \<Rightarrow> bytes \<Rightarrow> bytes \<Rightarrow> bytes" where
  "write_at i xs b = take i b @ xs @ drop (i + length xs) b"

definition get16 :: "bytes \<Rightarrow> nat \<Rightarrow> u16" where
  "get16 b i = ucast (byte_at b i) OR push_bit 8 (ucast (byte_at b (i + 1)))"

definition get32 :: "bytes \<Rightarrow> nat \<Rightarrow> u32" where
  "get32 b i = ucast (get16 b i) OR push_bit 16 (ucast (get16 b (i + 2)))"

definition put16 :: "nat \<Rightarrow> u16 \<Rightarrow> bytes \<Rightarrow> bytes" where
  "put16 i w b = b[i := ucast w, i + 1 := ucast (drop_bit 8 w)]"

definition put32 :: "nat \<Rightarrow> u32 \<Rightarrow> bytes \<Rightarrow> bytes" where
  "put32 i w b = put16 (i + 2) (ucast (drop_bit 16 w)) (put16 i (ucast w) b)"

definition cstring :: "bytes \<Rightarrow> bytes" where
  "cstring b = takeWhile (\<lambda>c. c \<noteq> 0) b"

definition disk_read :: "disk \<Rightarrow> u64 \<Rightarrow> nat \<Rightarrow> bytes" where
  "disk_read d lba n = concat (map (\<lambda>i. d (lba + of_nat i)) [0..<n])"

definition disk_write :: "disk \<Rightarrow> u64 \<Rightarrow> nat \<Rightarrow> bytes \<Rightarrow> disk" where
  "disk_write d lba n buf =
     fold (\<lambda>i d. d(lba + of_nat i := map (byte_at buf) [512 * i..<512 * i + 512])) [0..<n] d"

section \<open>On-disk structures\<close>

record fat32_bpb =
  bytes_per_sector :: u16
  sectors_per_cluster :: u8
  reserved_sector_count :: u16
  num_fats :: u8
  fat_size_32 :: u32
  root_cluster :: u32

definition read_bpb :: "disk \<Rightarrow> fat32_bpb" where
  "read_bpb d =
     (let b = disk_read d 0 1
      in \<lparr>bytes_per_sector = get16 b 0x0B, sectors_per_cluster = byte_at b 0x0D,
          reserved_sector_count = get16 b 0x0E, num_fats = byte_at b 0x10,
          fat_size_32 = get32 b 0x24, root_cluster = get32 b 0x2C\<rparr>)"

definition sfn_name :: "bytes \<Rightarrow> bytes" where
  "sfn_name e = map (byte_at e) [0..<11]"

definition sfn_attr :: "bytes \<Rightarrow> u8" where
  "sfn_attr e = byte_at e 11"

definition first_cluster :: "bytes \<Rightarrow> u32" where
  "first_cluster e = push_bit 16 (ucast (get16 e 20)) + ucast (get16 e 26)"

definition file_size :: "bytes \<Rightarrow> u32" where
  "file_size e = get32 e 28"

definition lfn_order :: "bytes \<Rightarrow> u8" where
  "lfn_order e = byte_at e 0"

definition lfn_name1 :: "bytes \<Rightarrow> u16 list" where
  "lfn_name1 e = map (\<lambda>k. get16 e (1 + 2 * k)) [0..<5]"

definition lfn_name2 :: "bytes \<Rightarrow> u16 list" where
  "lfn_name2 e = map (\<lambda>k. get16 e (14 + 2 * k)) [0..<6]"

definition lfn_name3 :: "bytes \<Rightarrow> u16 list" where
  "lfn_name3 e = map (\<lambda>k. get16 e (28 + 2 * k)) [0..<2]"

definition FAT32_EOC :: "u32 \<Rightarrow> bool" where
  "FAT32_EOC x \<longleftrightarrow> 0x0FFFFFF8 \<le> x"

section \<open>Names and paths\<close>

definition last_index :: "u8 \<Rightarrow> bytes \<Rightarrow> nat option" where
  "last_index c s =
     (if c \<in> set s then Some (length s - 1 - length (takeWhile (\<lambda>x. x \<noteq> c) (rev s))) else None)"

definition fat32_get_parent :: "bytes \<Rightarrow> int \<times> bytes" where
  "fat32_get_parent path =
     (if length path \<le> 1 then (0, [0x2F])
      else case last_index 0x2F path of
             None \<Rightarrow> (- 1, path)
           | Some p \<Rightarrow> if p = 0 then (0, take 1 path) else (0, take p path))"

definition cluster_to_lba :: "fat32_bpb \<Rightarrow> u32 \<Rightarrow> u32" where
  "cluster_to_lba bpb cluster =
     (let data_start_lba = ucast (reserved_sector_count bpb) + fat_size_32 bpb * ucast (num_fats bpb)
      in if cluster < 2 then 0
         else data_start_lba + (cluster - 2) * ucast (sectors_per_cluster bpb))"

fun utf16_to_ascii :: "u16 list \<Rightarrow> nat \<Rightarrow> bytes" where
  "utf16_to_ascii (ch # r) (Suc n) =
     (if ch = 0 then [] else (if ch \<le> 0x7F then ucast ch else 0x3F) # utf16_to_ascii r n)"
| "utf16_to_ascii _ _ = []"

definition sfn_to_ascii :: "bytes \<Rightarrow> bytes" where
  "sfn_to_ascii sfn =
     (let base = takeWhile (\<lambda>c. c \<noteq> 0x20) (map (byte_at sfn) [0..<8])
      in if byte_at sfn 8 \<noteq> 0x20
         then base @ [0x2E] @ takeWhile (\<lambda>c. c \<noteq> 0x20) (map (byte_at sfn) [8..<11])
         else base)"

definition toupper :: "u8 \<Rightarrow> u8" where
  "toupper c = (if 0x61 \<le> c \<and> c \<le> 0x7A then c - 32 else c)"

definition ascii_to_sfn :: "bytes \<Rightarrow> int \<times> bytes" where
  "ascii_to_sfn name =
     (let sfn = replicate 11 0x20;
          dot = last_index 0x2E name;
          base_len = (case dot of Some p \<Rightarrow> p | None \<Rightarrow> length name);
          ext = (case dot of Some p \<Rightarrow> drop (Suc p) name | None \<Rightarrow> []);
          need_lfn = (case dot of Some p \<Rightarrow> 8 < base_len \<or> 3 < length ext | None \<Rightarrow> 8 < base_len)
      in if \<not> need_lfn then
           let sfn = write_at 0 (map toupper (take base_len name)) sfn;
               sfn = (if dot \<noteq> None then write_at 8 (map toupper ext) sfn else sfn)
           in (0, sfn)
         else
           let sfn = write_at 0 (map (\<lambda>c. if toupper c = 0x20 then 0x5F else toupper c)
                       (take 6 (take base_len name))) sfn;
               sfn = sfn[6 := 0x7E, 7 := 0x31];
               sfn = (if dot \<noteq> None then write_at 8 (map toupper (take 3 ext)) sfn else sfn)
           in (1, sfn))"

definition path_next :: "bytes \<Rightarrow> (bytes \<times> bytes) option" where
  "path_next path =
     (let path = dropWhile (\<lambda>c. c = 0x2F) path
      in if path = [] then None
         else Some (takeWhile (\<lambda>c. c \<noteq> 0x2F) path, dropWhile (\<lambda>c. c \<noteq> 0x2F) path))"

definition fat32_is_sfn_char :: "u8 \<Rightarrow> bool" where
  "fat32_is_sfn_char ch \<longleftrightarrow> (0x41 \<le> ch \<and> ch \<le> 0x5A) \<or> (0x30 \<le> ch \<and> ch \<le> 0x39) \<or>
     ch \<in> {0x24, 0x25, 0x27, 0x2D, 0x5F, 0x40, 0x7E, 0x60, 0x21, 0x28, 0x29, 0x7B, 0x7D, 0x5E, 0x23, 0x26}"

definition fat32_need_lfn :: "bytes \<Rightarrow> bool" where
  "fat32_need_lfn name =
     (if name = [] then True
      else let too_long = (case last_index 0x2E name of
               Some p \<Rightarrow> p = 0 \<or> 8 < p \<or> 3 < length (drop (Suc p) name)
             | None \<Rightarrow> 8 < length name)
        in if too_long then True
           else list_ex (\<lambda>ch. ch \<noteq> 0x2E \<and>
                  ((0x61 \<le> ch \<and> ch \<le> 0x7A) \<or> 0x7F < ch \<or> \<not> fat32_is_sfn_char ch)) name)"

text \<open>
  \<open>fat32_lfn_concat\<close> writes the 13 characters of a long-name entry at the offset of its sequence number. Sequence number 0 gives
  an offset far outside the buffer (the subtraction wraps), which faults.
\<close>

definition fat32_lfn_concat :: "bytes \<Rightarrow> bytes \<Rightarrow> bytes option" where
  "fat32_lfn_concat e buf =
     (let n = unat (lfn_order e AND 0x1F)
      in if n = 0 then None
         else let off = (n - 1) * 13;
                  buf = write_at off (utf16_to_ascii (lfn_name1 e) 5) buf;
                  buf = write_at (off + 5) (utf16_to_ascii (lfn_name2 e) 6) buf
              in Some (write_at (off + 11) (utf16_to_ascii (lfn_name3 e) 2) buf))"

definition fat32_is_dot :: "bytes \<Rightarrow> bool" where
  "fat32_is_dot e \<longleftrightarrow> sfn_attr e AND 0x10 \<noteq> 0 \<and> byte_at e 0 = 0x2E \<and> byte_at e 1 = 0x20"

definition fat32_is_dotdot :: "bytes \<Rightarrow> bool" where
  "fat32_is_dotdot e \<longleftrightarrow> sfn_attr e AND 0x10 \<noteq> 0 \<and> byte_at e 0 = 0x2E \<and> byte_at e 1 = 0x2E \<and> byte_at e 2 = 0x20"

section \<open>Directory callbacks\<close>

text \<open>
  A callback gets the long-name buffer and an entry, and returns its result and what it prints (one line per entry: directory flag,
  size, name).
\<close>

type_synonym dirent_line = "bool \<times> u32 \<times> bytes"
type_synonym dirent_cb = "bytes \<Rightarrow> bytes \<Rightarrow> int \<times> dirent_line list"

definition entry_name :: "bytes \<Rightarrow> bytes \<Rightarrow> bytes" where
  "entry_name lfn e = cstring (if byte_at lfn 0 = 0 then sfn_to_ascii (sfn_name e) else lfn)"

definition fat32_print_callback :: dirent_cb where
  "fat32_print_callback lfn e =
     (let name = entry_name lfn e
      in if fat32_is_dot e then (1, [(True, file_size e, [0x2E])])
         else if fat32_is_dotdot e then (2, [(True, file_size e, [0x2E, 0x2E])])
         else (int (length name),
           if byte_at e 0 \<noteq> 0xE5 then [(sfn_attr e AND 0x10 \<noteq> 0, file_size e, name)] else []))"

definition fat32_compare_callback :: "bytes \<Rightarrow> dirent_cb" where
  "fat32_compare_callback target lfn e =
     (let name = entry_name lfn e; n = length name + 1
      in (if take n (target @ [0]) = take n (name @ [0]) then 0 else - 1, []))"

section \<open>The file allocation table\<close>

definition fat_sector :: "fat32_bpb \<Rightarrow> u32 \<Rightarrow> u64" where
  "fat_sector bpb cluster =
     ucast (reserved_sector_count bpb) + ucast cluster * 4 div ucast (bytes_per_sector bpb)"

definition fat_index :: "fat32_bpb \<Rightarrow> u32 \<Rightarrow> nat" where
  "fat_index bpb cluster =
     unat cluster mod unat (bytes_per_sector bpb) mod (unat (bytes_per_sector bpb) div 4)"

definition fat_next :: "disk \<Rightarrow> fat32_bpb \<Rightarrow> u32 \<Rightarrow> u32 option" where
  "fat_next d bpb cluster =
     (if unat (bytes_per_sector bpb) < 4 then None
      else Some (get32 (disk_read d (fat_sector bpb cluster) 1) (4 * fat_index bpb cluster)))"

text \<open>Writing one FAT sector to every copy of the table; \<open>lba_of\<close> adds the sector offset to the start of a copy.\<close>

definition fat_write_all :: "disk \<Rightarrow> fat32_bpb \<Rightarrow> (u32 \<Rightarrow> u64) \<Rightarrow> bytes \<Rightarrow> disk" where
  "fat_write_all d bpb lba_of table =
     fold (\<lambda>j d. disk_write d (lba_of (ucast (reserved_sector_count bpb) + fat_size_32 bpb * of_nat j)) 1 table)
       [0..<unat (num_fats bpb)] d"

definition fat_find_free :: "bytes \<Rightarrow> nat \<Rightarrow> nat option" where
  "fat_find_free table n = find (\<lambda>i. get32 table (4 * i) = 0) [0..<n]"

function fat_alloc_loop :: "disk \<Rightarrow> fat32_bpb \<Rightarrow> nat \<Rightarrow> u32 \<times> disk" where
  "fat_alloc_loop d bpb nr_fat =
     (if nr_fat < unat (fat_size_32 bpb) then
        let entries_per_sector = unat (bytes_per_sector bpb) div 32;
            table = disk_read d (ucast (reserved_sector_count bpb) + of_nat nr_fat) 1
        in case fat_find_free table entries_per_sector of
             Some i \<Rightarrow> (of_nat (nr_fat * entries_per_sector + i),
                        fat_write_all d bpb (\<lambda>b. ucast (b + of_nat nr_fat)) (put32 (4 * i) 0x0FFFFFFF table))
           | None \<Rightarrow> fat_alloc_loop d bpb (Suc nr_fat)
      else (- 1, d))"
  by pat_completeness auto
termination
  by (relation "measure (\<lambda>(d, bpb, n). unat (fat_size_32 bpb) - n)") auto

declare fat_alloc_loop.simps [simp del]

definition fat32_alloc_cluster :: "disk \<Rightarrow> u32 \<times> disk" where
  "fat32_alloc_cluster d = fat_alloc_loop d (read_bpb d) 0"

text \<open>Appending a fresh, cleared cluster to the chain, or following it: the common end of the writing loops.\<close>

definition next_or_extend :: "disk \<Rightarrow> fat32_bpb \<Rightarrow> u32 \<Rightarrow> (u32 \<times> disk) option" where
  "next_or_extend d bpb cluster = do {
     nxt \<leftarrow> fat_next d bpb cluster;
     if FAT32_EOC nxt then
       let (new_cluster, d) = fat32_alloc_cluster d;
           table = put32 (4 * fat_index bpb cluster) new_cluster (disk_read d (fat_sector bpb cluster) 1);
           d = fat_write_all d bpb (\<lambda>b. ucast b + ucast cluster * 4 div ucast (bytes_per_sector bpb)) table;
           d = disk_write d (ucast (cluster_to_lba bpb new_cluster)) (unat (sectors_per_cluster bpb)) []
       in Some (new_cluster, d)
     else Some (nxt, d) }"

section \<open>Making directory entries\<close>

definition ascii_to_utf16 :: "bytes \<Rightarrow> (nat \<Rightarrow> u16) \<Rightarrow> nat \<Rightarrow> nat \<Rightarrow> u16" where
  "ascii_to_utf16 ascii utf16 max_chars =
     (let n = min (length ascii) max_chars
      in (\<lambda>i. if i < n then ucast (ascii ! i) else if i = n then 0 else utf16 i))"

definition fat32_lfn_checksum :: "bytes \<Rightarrow> u8" where
  "fat32_lfn_checksum sfn =
     fold (\<lambda>i s. push_bit 7 (s AND 1) + drop_bit 1 s + byte_at sfn i) [0..<11] 0"

definition fat32_make_sfn_entry :: "bytes \<Rightarrow> bytes \<Rightarrow> bytes" where
  "fat32_make_sfn_entry e fn =
     (let e = write_at 0 (snd (ascii_to_sfn fn)) e;
          e = e[11 := 0x20];
          e = put32 28 0 e;
          e = put16 20 0 e;
          e = put16 26 0 e;
          e = put16 24 2026 e;
          e = put16 22 19923 e
      in put16 18 0 e)"

definition put_name :: "nat \<Rightarrow> nat \<Rightarrow> (nat \<Rightarrow> u16) \<Rightarrow> bytes \<Rightarrow> bytes" where
  "put_name off n name e = fold (\<lambda>nr e. put16 (off + 2 * nr) (name nr) e) [0..<n] e"

text \<open>\<open>name\<close> is the uninitialised array on the stack.\<close>

definition fat32_make_lfn_entry :: "(nat \<Rightarrow> u16) \<Rightarrow> bytes \<Rightarrow> bytes \<Rightarrow> u8 \<Rightarrow> bytes" where
  "fat32_make_lfn_entry name e fn order =
     (let name = ascii_to_utf16 fn name 5;
          e = put_name 1 5 name e;
          name = ascii_to_utf16 (drop 5 fn) name 6;
          e = put_name 14 6 name e;
          name = ascii_to_utf16 (drop 11 fn) name 2;
          e = put_name 28 2 name e
      in e[0 := order, 11 := 0x0F, 12 := 0, 13 := 0])"

section \<open>Walking a directory\<close>

definition FAT32_LFN_MAX_LEN :: nat where
  "FAT32_LFN_MAX_LEN = 512"

definition dir_entry :: "bytes \<Rightarrow> nat \<Rightarrow> bytes" where
  "dir_entry buf i = map (byte_at buf) [32 * i..<32 * i + 32]"

definition entries_per_cluster :: "fat32_bpb \<Rightarrow> nat" where
  "entries_per_cluster bpb = unat (bytes_per_sector bpb) * unat (sectors_per_cluster bpb) div 32"

text \<open>
  The loop over the entries of one cluster. It ends the walk at a free entry (result -1) or when the callback returns 0, and
  otherwise goes on to the next cluster with the pending long name and the last result.
\<close>

datatype dir_result =
    Finished int "bytes option" "dirent_line list"
  | Pending bytes int "dirent_line list"

fun dirent_loop :: "dirent_cb \<Rightarrow> bytes list \<Rightarrow> bytes \<Rightarrow> int \<Rightarrow> dirent_line list \<Rightarrow> dir_result option" where
  "dirent_loop cb [] lfn ret out = Some (Pending lfn ret out)"
| "dirent_loop cb (e # es) lfn ret out =
     (if byte_at e 0 = 0 then Some (Finished (- 1) None out)
      else if byte_at e 0 = 0xE5 then dirent_loop cb es lfn ret out
      else if byte_at e 11 = 0x0F then do {
        lfn \<leftarrow> fat32_lfn_concat e lfn;
        dirent_loop cb es lfn ret out }
      else let (ret, line) = cb lfn e
        in if ret = 0 then Some (Finished 0 (Some e) (out @ line))
           else dirent_loop cb es (replicate FAT32_LFN_MAX_LEN 0) ret (out @ line))"

definition cluster_entries :: "disk \<Rightarrow> fat32_bpb \<Rightarrow> u32 \<Rightarrow> bytes list" where
  "cluster_entries d bpb cluster =
     (let buf = disk_read d (ucast (cluster_to_lba bpb cluster)) (unat (sectors_per_cluster bpb))
      in map (dir_entry buf) [0..<entries_per_cluster bpb])"

text \<open>\<open>ret\<close> starts with the value the uninitialised local holds.\<close>

partial_function (option) dir_walk ::
  "disk \<Rightarrow> fat32_bpb \<Rightarrow> dirent_cb \<Rightarrow> u32 \<Rightarrow> bytes \<Rightarrow> int \<Rightarrow> dirent_line list \<Rightarrow>
    (int \<times> bytes option \<times> dirent_line list) option" where
  "dir_walk d bpb cb cluster lfn ret out =
     (if FAT32_EOC cluster then Some (ret, None, out)
      else do {
        r \<leftarrow> dirent_loop cb (cluster_entries d bpb cluster) lfn ret out;
        case r of
          Finished ret res out \<Rightarrow> Some (ret, res, out)
        | Pending lfn ret out \<Rightarrow> do {
            nxt \<leftarrow> fat_next d bpb cluster;
            dir_walk d bpb cb nxt lfn ret out } })"

definition fat32_foreach_dirent ::
  "disk \<Rightarrow> dirent_cb \<Rightarrow> u32 \<Rightarrow> int \<Rightarrow> (int \<times> bytes option \<times> dirent_line list) option" where
  "fat32_foreach_dirent d cb dir_cluster ret =
     dir_walk d (read_bpb d) cb dir_cluster (replicate FAT32_LFN_MAX_LEN 0) ret []"

text \<open>
  \<open>fat32_lookup\<close>: the entry found last is the result; for a path without components it is the uninitialised local, \<open>junk\<close>. If the callback
  stops the walk with a result other than 0 the local keeps its value.
\<close>

function lookup_loop :: "disk \<Rightarrow> int \<Rightarrow> bytes \<Rightarrow> u32 \<Rightarrow> bytes \<Rightarrow> (int \<times> bytes) option" where
  "lookup_loop d ret0 dir cluster entry =
     (case path_next dir of
        None \<Rightarrow> Some (0, entry)
      | Some (name, dir') \<Rightarrow>
          (case fat32_foreach_dirent d (fat32_compare_callback name) cluster ret0 of
             None \<Rightarrow> None
           | Some (ret, res, _) \<Rightarrow>
               if ret < 0 then Some (ret, entry)
               else let entry = (case res of Some e \<Rightarrow> e | None \<Rightarrow> entry)
                 in lookup_loop d ret0 dir' (first_cluster entry) entry))"
  by pat_completeness auto
termination
proof (relation "measure (\<lambda>(d, ret0, dir, c, e). length dir)", simp, clarsimp)
  fix dir name dir' :: bytes
  assume "path_next dir = Some (name, dir')"
  then have *: "dir' = dropWhile (\<lambda>c. c \<noteq> 0x2F) (dropWhile (\<lambda>c. c = 0x2F) dir)" "dropWhile (\<lambda>c. c = 0x2F) dir \<noteq> []"
    by (auto simp: path_next_def Let_def split: if_splits)
  then obtain c r where cr: "dropWhile (\<lambda>c. c = 0x2F) dir = c # r" by (cases "dropWhile (\<lambda>c. c = 0x2F) dir") auto
  then have "c \<noteq> 0x2F" using hd_dropWhile [of "\<lambda>c. c = 0x2F" dir] by auto
  then have "length dir' \<le> length r" using * cr by (simp add: length_dropWhile_le)
  moreover have "length (c # r) \<le> length dir" using cr by (metis length_dropWhile_le)
  ultimately show "length dir' < length dir" by simp
qed

declare lookup_loop.simps [simp del]

definition fat32_lookup :: "disk \<Rightarrow> int \<Rightarrow> bytes \<Rightarrow> bytes \<Rightarrow> (int \<times> bytes) option" where
  "fat32_lookup d ret0 path junk = lookup_loop d ret0 path (root_cluster (read_bpb d)) junk"

definition fat32_readdir :: "disk \<Rightarrow> int \<Rightarrow> bytes \<Rightarrow> bytes \<Rightarrow> (int \<times> dirent_line list) option" where
  "fat32_readdir d ret0 path junk =
     (if path = [0x2F] then do {
        (_, _, out) \<leftarrow> fat32_foreach_dirent d fat32_print_callback 2 ret0;
        Some (0, out) }
      else do {
        (ret, e) \<leftarrow> fat32_lookup d ret0 path junk;
        if ret < 0 then Some (- 1, [])
        else if sfn_attr e AND 0x10 \<noteq> 0 then do {
          (_, _, out) \<leftarrow> fat32_foreach_dirent d fat32_print_callback (first_cluster e) ret0;
          Some (0, out) }
        else Some (- 1, []) })"

section \<open>Creating a file\<close>

text \<open>
  \<open>strip_last\<close> is the loop that cuts the last component from the end of the path. The name of the new file is the first component
  that \<open>path_next\<close> returns.
\<close>

definition strip_last :: "bytes \<Rightarrow> bytes" where
  "strip_last path =
     (case last_index 0x2F path of None \<Rightarrow> take 1 path | Some p \<Rightarrow> take (Suc p) path)"

text \<open>
  One pass over the entries of a cluster: a free or deleted slot gets the next long-name entry while \<open>fn_step\<close> has not passed the
  beginning of the name, and then the short entry, which ends the search. The cluster is written back after each entry.
\<close>

function create_entries ::
  "disk \<Rightarrow> u64 \<Rightarrow> nat \<Rightarrow> nat \<Rightarrow> (nat \<Rightarrow> u16) \<Rightarrow> bytes \<Rightarrow> int \<Rightarrow> bytes \<Rightarrow> nat \<Rightarrow> int \<Rightarrow> int \<Rightarrow> bool \<times> int \<times> int \<times> disk" where
  "create_entries d lba spc epc stack fn nr_total buf i nr_lfn step =
     (if i < epc then
        (if byte_at buf (32 * i) = 0 \<or> byte_at buf (32 * i) = 0xE5 then
           (if fat32_need_lfn fn \<and> 0 \<le> step then
              let order = (if nr_total - nr_lfn = 1 then 0x40 OR word_of_int nr_lfn else word_of_int nr_lfn);
                  buf = write_at (32 * i) (fat32_make_lfn_entry stack (dir_entry buf i) (drop (nat step) fn) order) buf
              in create_entries (disk_write d lba spc buf) lba spc epc stack fn nr_total buf (Suc i) (nr_lfn - 1) (step - 13)
            else
              let buf = write_at (32 * i) (fat32_make_sfn_entry (dir_entry buf i) fn) buf
              in (True, nr_lfn, step, disk_write d lba spc buf))
         else create_entries d lba spc epc stack fn nr_total buf (Suc i) nr_lfn step)
      else (False, nr_lfn, step, d))"
  by pat_completeness auto
termination
  by (relation "measure (\<lambda>(d, lba, spc, epc, stack, fn, nr_total, buf, i, nr_lfn, step). epc - i)") auto

declare create_entries.simps [simp del]

partial_function (option) create_loop ::
  "disk \<Rightarrow> fat32_bpb \<Rightarrow> (nat \<Rightarrow> u16) \<Rightarrow> bytes \<Rightarrow> int \<Rightarrow> u32 \<Rightarrow> int \<Rightarrow> int \<Rightarrow> disk option" where
  "create_loop d bpb stack fn nr_total cluster nr_lfn step =
     (if FAT32_EOC cluster then Some d
      else let lba = ucast (cluster_to_lba bpb cluster);
               spc = unat (sectors_per_cluster bpb);
               (finished, nr_lfn, step, d) =
                 create_entries d lba spc (entries_per_cluster bpb) stack fn nr_total (disk_read d lba spc) 0 nr_lfn step
        in if finished then Some d
           else do {
             (cluster, d) \<leftarrow> next_or_extend d bpb cluster;
             create_loop d bpb stack fn nr_total cluster nr_lfn step })"

definition fat32_create :: "disk \<Rightarrow> int \<Rightarrow> (nat \<Rightarrow> u16) \<Rightarrow> bytes \<Rightarrow> bytes \<Rightarrow> (int \<times> disk) option" where
  "fat32_create d ret0 stack path junk = do {
     (found, _) \<leftarrow> fat32_lookup d ret0 path junk;
     if found = 0 then Some (- 1, d)
     else do {
       let bpb = read_bpb d;
       (fn, _) \<leftarrow> path_next path;
       let dir = strip_last path;
       (ret, e) \<leftarrow> (if dir = [0x2F] then Some (0, []) else fat32_lookup d ret0 dir junk);
       if ret < 0 then Some (- 1, d)
       else do {
         let dir_cluster = (if dir = [0x2F] then 2 else first_cluster e);
         let nr_lfn = int (length fn div 13) + 1;
         d \<leftarrow> create_loop d bpb stack fn (nr_lfn + 1) dir_cluster nr_lfn ((nr_lfn - 1) * 13);
         Some (0, d) } } }"

section \<open>Reading and writing file contents\<close>

record fat32_file =
  f_fd :: int
  f_path :: bytes
  f_size :: u32
  f_bpb :: fat32_bpb
  f_entry :: bytes
  f_parent :: bytes

definition bytes_per_cluster :: "fat32_bpb \<Rightarrow> nat" where
  "bytes_per_cluster bpb = unat (bytes_per_sector bpb) * unat (sectors_per_cluster bpb)"

text \<open>The loop of \<open>fat32_read_cluster\<close>: the bytes copied to the buffer so far and the rest of \<open>size\<close>.\<close>

partial_function (option) read_chain :: "disk \<Rightarrow> fat32_bpb \<Rightarrow> u32 \<Rightarrow> size_t \<Rightarrow> bytes \<Rightarrow> (size_t \<times> bytes) option" where
  "read_chain d bpb cluster sz acc =
     (if FAT32_EOC cluster then Some (sz, acc)
      else let buf = disk_read d (ucast (cluster_to_lba bpb cluster)) (unat (sectors_per_cluster bpb))
        in if bytes_per_cluster bpb < sz then do {
             nxt \<leftarrow> fat_next d bpb cluster;
             read_chain d bpb nxt (sz - bytes_per_cluster bpb) (acc @ map (byte_at buf) [0..<bytes_per_cluster bpb]) }
           else Some (sz, acc @ map (byte_at buf) [0..<sz]))"

definition fat32_read_cluster :: "disk \<Rightarrow> fat32_file \<Rightarrow> size_t \<Rightarrow> (int \<times> bytes) option" where
  "fat32_read_cluster d fp sz = do {
     (rest, out) \<leftarrow> read_chain d (f_bpb fp) (first_cluster (f_entry fp)) sz [];
     Some (to_int32 rest, out) }"

text \<open>The first write to an empty file allocates its cluster and searches the parent directory for the entry to update.\<close>

definition write_entry :: "disk \<Rightarrow> u64 \<Rightarrow> nat \<Rightarrow> nat \<Rightarrow> bytes \<Rightarrow> disk option" where
  "write_entry d lba spc epc e =
     (let buf = disk_read d lba spc
      in case find (\<lambda>i. take 11 (cstring (sfn_name (dir_entry buf i)) @ [0]) = take 11 (cstring (sfn_name e) @ [0])) [0..<epc] of
           None \<Rightarrow> None
         | Some i \<Rightarrow> Some (disk_write d lba spc (write_at (32 * i) e buf)))"

partial_function (option) update_entry ::
  "disk \<Rightarrow> fat32_bpb \<Rightarrow> u32 \<Rightarrow> bytes \<Rightarrow> bytes \<Rightarrow> (bytes \<times> disk) option" where
  "update_entry d bpb cluster e e' =
     (if FAT32_EOC cluster then Some (e, d)
      else case write_entry d (ucast (cluster_to_lba bpb cluster)) (unat (sectors_per_cluster bpb)) (entries_per_cluster bpb) e' of
             Some d \<Rightarrow> Some (e', d)
           | None \<Rightarrow> do {
               nxt \<leftarrow> fat_next d bpb cluster;
               update_entry d bpb nxt e e' })"

text \<open>
  The loop over the buffer, one cluster at a time. The last write reads past the end of a buffer whose size is not a multiple of the cluster
  size; those bytes are \<open>past\<close>.
\<close>

function write_chain :: "disk \<Rightarrow> fat32_bpb \<Rightarrow> u32 \<Rightarrow> bytes \<Rightarrow> bytes \<Rightarrow> disk option" where
  "write_chain d bpb cluster buf past =
     (if buf = [] \<or> bytes_per_cluster bpb = 0 then (if buf = [] then Some d else None)
      else let d = disk_write d (ucast (cluster_to_lba bpb cluster)) (unat (sectors_per_cluster bpb)) (buf @ past)
        in (case next_or_extend d bpb cluster of
              None \<Rightarrow> None
            | Some (cluster, d) \<Rightarrow> write_chain d bpb cluster (drop (bytes_per_cluster bpb) buf) past))"
  by pat_completeness auto
termination
  by (relation "measure (\<lambda>(d, bpb, c, buf, past). length buf)") auto

declare write_chain.simps [simp del]

definition fat32_write_cluster ::
  "disk \<Rightarrow> fat32_file \<Rightarrow> bytes \<Rightarrow> bytes \<Rightarrow> (int \<times> fat32_file \<times> disk) option" where
  "fat32_write_cluster d fp buf past = do {
     let bpb = f_bpb fp;
     (fp, d) \<leftarrow>
       (if first_cluster (f_entry fp) = 0 then do {
          let (cluster, d) = fat32_alloc_cluster d;
          let e = put16 26 (ucast cluster) (put16 20 (ucast (drop_bit 16 cluster)) (f_entry fp));
          (e, d) \<leftarrow> update_entry d bpb (first_cluster (f_parent fp)) e (put32 28 (of_nat (length buf)) e);
          Some (fp\<lparr>f_entry := e\<rparr>, d) }
        else Some (fp, d));
     d \<leftarrow> write_chain d bpb (first_cluster (f_entry fp)) buf past;
     Some (0, fp, d) }"

section \<open>The file interface\<close>

record fat32_state =
  fdisk :: disk
  g_fat32_file_list :: "fat32_file list"
  g_fd_count :: int

definition fat32_find_file :: "fat32_state \<Rightarrow> int \<Rightarrow> fat32_file option" where
  "fat32_find_file s fd = find (\<lambda>fp. f_fd fp = fd) (g_fat32_file_list s)"

definition fat32_read :: "fat32_state \<Rightarrow> int \<Rightarrow> size_t \<Rightarrow> (int \<times> bytes) option" where
  "fat32_read s fd sz =
     (case fat32_find_file s fd of
        None \<Rightarrow> Some (- 1, [])
      | Some fp \<Rightarrow> fat32_read_cluster (fdisk s) fp sz)"

fun replace_file :: "int \<Rightarrow> fat32_file \<Rightarrow> fat32_file list \<Rightarrow> fat32_file list" where
  "replace_file fd fp [] = []"
| "replace_file fd fp (f # fs) = (if f_fd f = fd then fp # fs else f # replace_file fd fp fs)"

definition fat32_write :: "fat32_state \<Rightarrow> int \<Rightarrow> bytes \<Rightarrow> bytes \<Rightarrow> (int \<times> fat32_state) option" where
  "fat32_write s fd buf past =
     (case fat32_find_file s fd of
        None \<Rightarrow> Some (- 1, s)
      | Some fp \<Rightarrow> do {
          (ret, fp, d) \<leftarrow> fat32_write_cluster (fdisk s) fp buf past;
          Some (ret, s\<lparr>fdisk := d, g_fat32_file_list := replace_file fd fp (g_fat32_file_list s)\<rparr>) })"

text \<open>The parent entry of a file in the root directory is all zero but for a name and the cluster number 2.\<close>

definition root_parent_entry :: bytes where
  "root_parent_entry = put16 26 2 ((replicate 32 0)[0 := 0x2F])"

definition fat32_open :: "fat32_state \<Rightarrow> int \<Rightarrow> bytes \<Rightarrow> bytes \<Rightarrow> (int \<times> fat32_state) option" where
  "fat32_open s ret0 path junk = do {
     let parent = snd (fat32_get_parent path);
     (ret, e) \<leftarrow> fat32_lookup (fdisk s) ret0 path junk;
     if ret < 0 then Some (ret, s)
     else if sfn_attr e AND 0x10 \<noteq> 0 then Some (- 1, s)
     else do {
       pe \<leftarrow> (if parent = [0x2F] then Some root_parent_entry
              else do { (_, pe) \<leftarrow> fat32_lookup (fdisk s) ret0 parent junk; Some pe });
       let fp = \<lparr>f_fd = g_fd_count s, f_path = path, f_size = file_size e, f_bpb = read_bpb (fdisk s),
                 f_entry = e, f_parent = pe\<rparr>;
       Some (g_fd_count s, s\<lparr>g_fd_count := g_fd_count s + 1, g_fat32_file_list := g_fat32_file_list s @ [fp]\<rparr>) } }"

text \<open>\<open>fat32_close\<close> frees the path of the file and leaves the file in the list.\<close>

definition fat32_close :: "fat32_state \<Rightarrow> int \<Rightarrow> int \<times> fat32_state" where
  "fat32_close s fd = (case fat32_find_file s fd of None \<Rightarrow> (- 1, s) | Some fp \<Rightarrow> (0, s))"

section \<open>Bytes\<close>

lemma length_write_at [simp]: "i + length xs \<le> length b \<Longrightarrow> length (write_at i xs b) = length b"
  by (simp add: write_at_def)

lemma length_put16 [simp]: "length (put16 i w b) = length b"
  by (simp add: put16_def)

lemma length_put32 [simp]: "length (put32 i w b) = length b"
  by (simp add: put32_def)

lemma get16_put16: "i + 1 < length b \<Longrightarrow> get16 (put16 i w b) i = w"
  by (rule bit_word_eqI) (auto simp: get16_def put16_def byte_at_def bit_or_iff bit_push_bit_iff bit_ucast_iff bit_drop_bit_eq)

lemma get16_put16_other: "j + 1 < i \<or> i + 1 < j \<Longrightarrow> get16 (put16 i w b) j = get16 b j"
  by (auto simp: get16_def put16_def byte_at_def)

lemma byte_at_put16: "k < i \<or> i + 1 < k \<Longrightarrow> byte_at (put16 i w b) k = byte_at b k"
  by (auto simp: put16_def byte_at_def)

lemma get32_put32: "i + 3 < length b \<Longrightarrow> get32 (put32 i w b) i = w"
proof -
  assume i: "i + 3 < length b"
  then have "get16 (put32 i w b) i = ucast w" "get16 (put32 i w b) (i + 2) = ucast (drop_bit 16 w)"
    by (simp_all add: put32_def get16_put16 get16_put16_other)
  then show ?thesis
    by (intro bit_word_eqI) (auto simp: get32_def bit_or_iff bit_push_bit_iff bit_ucast_iff bit_drop_bit_eq)
qed

section \<open>Short names\<close>

lemma last_index_split: "c \<notin> set b \<Longrightarrow> last_index c (a @ c # b) = Some (length a)"
proof -
  assume "c \<notin> set b"
  then have "takeWhile (\<lambda>x. x \<noteq> c) (rev b @ c # rev a) = rev b" by (subst takeWhile_append2) auto
  then show ?thesis by (simp add: last_index_def)
qed

lemma last_index_none: "c \<notin> set s \<Longrightarrow> last_index c s = None"
  by (simp add: last_index_def)

lemma toupper_space: "toupper c = 0x20 \<longleftrightarrow> c = 0x20"
proof -
  have "toupper c = 0x20 \<Longrightarrow> c = 0x20"
  proof (rule ccontr)
    assume c: "toupper c = 0x20" "c \<noteq> 0x20"
    then have low: "0x61 \<le> c" "c - 32 = 0x20" by (auto simp: toupper_def split: if_splits)
    then have "c = 0x40" by (simp add: diff_eq_eq)
    with low(1) show False by simp
  qed
  then show ?thesis by (auto simp: toupper_def)
qed

lemma byte_at_write:
  "i + length xs \<le> length b \<Longrightarrow>
    byte_at (write_at i xs b) k = (if i \<le> k \<and> k < i + length xs then xs ! (k - i) else byte_at b k)"
  by (auto simp: byte_at_def write_at_def nth_append min_def)

lemma takeWhile_padded:
  assumes "length xs \<le> n" and "\<And>x. x \<in> set xs \<Longrightarrow> x \<noteq> c"
    and "\<And>i. i < n \<Longrightarrow> f i = (if i < length xs then xs ! i else c)"
  shows "takeWhile (\<lambda>x. x \<noteq> c) (map f [0..<n]) = xs"
proof -
  have "map f [0..<n] = xs @ replicate (n - length xs) c"
    using assms(1,3) by (intro nth_equalityI) (auto simp: nth_append)
  then show ?thesis using assms(2) by (simp add: takeWhile_append2 takeWhile_replicate)
qed

lemma ascii_to_sfn_8_3:
  assumes "length base \<le> 8" and "length ext \<le> 3" and "0x2E \<notin> set ext"
  shows "ascii_to_sfn (base @ 0x2E # ext) =
    (0, write_at 8 (map toupper ext) (write_at 0 (map toupper base) (replicate 11 0x20)))"
  using assms by (simp add: ascii_to_sfn_def last_index_split Let_def)

lemma ascii_to_sfn_no_ext:
  assumes "length base \<le> 8" and "0x2E \<notin> set base"
  shows "ascii_to_sfn base = (0, write_at 0 (map toupper base) (replicate 11 0x20))"
  using assms by (simp add: ascii_to_sfn_def last_index_none Let_def)

text \<open>
  Short names round-trip: converting a name with a base of at most eight and an extension of one to three characters (no blanks,
  no dot in the extension) to its 11-byte form and back gives the name in upper case, and so does a name without extension.
\<close>

lemma sfn_roundtrip:
  assumes "length base \<le> 8" and "0x20 \<notin> set base" and "0x20 \<notin> set ext" and "0x2E \<notin> set ext"
    and "0 < length ext" and "length ext \<le> 3"
  shows "sfn_to_ascii (snd (ascii_to_sfn (base @ 0x2E # ext))) = map toupper (base @ 0x2E # ext) \<and>
    (0x2E \<notin> set base \<longrightarrow> sfn_to_ascii (snd (ascii_to_sfn base)) = map toupper base)"
proof -
  let ?B = "map toupper base" and ?E = "map toupper ext"
  let ?pad = "write_at 0 ?B (replicate 11 0x20)"
  let ?s = "write_at 8 ?E ?pad"
  have l0: "length ?pad = 11" using assms(1) by simp
  have at0: "byte_at ?pad k = (if k < length base then ?B ! k else if k < 11 then 0x20 else 0)" for k
    using assms(1) by (subst byte_at_write) (auto simp: byte_at_def)
  have at: "byte_at ?s k = (if 8 \<le> k \<and> k < 8 + length ext then ?E ! (k - 8) else byte_at ?pad k)" for k
    using assms(6) l0 by (simp add: byte_at_write)
  have nb: "x \<noteq> 0x20" if "x \<in> set ?B \<or> x \<in> set ?E" for x
    using that assms(2,3) toupper_space by (metis imageE list.set_map)
  have base: "takeWhile (\<lambda>c. c \<noteq> 0x20) (map (byte_at ?s) [0..<8]) = ?B"
    using assms(1) nb by (intro takeWhile_padded) (auto simp: at at0)
  have base0: "takeWhile (\<lambda>c. c \<noteq> 0x20) (map (byte_at ?pad) [0..<8]) = ?B"
    using assms(1) nb by (intro takeWhile_padded) (auto simp: at0)
  have "[8..<11] = map (\<lambda>i. i + 8) [0..<3]" by (simp only: map_add_upt) simp
  then have "map (byte_at ?s) [8..<11] = map (\<lambda>i. byte_at ?s (i + 8)) [0..<3]"
    by (simp only: map_map comp_def)
  moreover have "takeWhile (\<lambda>c. c \<noteq> 0x20) (map (\<lambda>i. byte_at ?s (i + 8)) [0..<3]) = ?E"
    using assms(1,6) nb by (intro takeWhile_padded) (auto simp: at at0)
  moreover have "byte_at ?s 8 = ?E ! 0" "?E ! 0 \<in> set ?E" using assms(5) by (auto simp: at)
  then have "byte_at ?s 8 \<noteq> 0x20" using nb by metis
  moreover have "byte_at ?pad 8 = 0x20" using assms(1) by (simp add: at0)
  moreover have "toupper 0x2E = 0x2E" by (simp add: toupper_def)
  ultimately show ?thesis
    using base base0 assms(1,4,6) by (simp add: ascii_to_sfn_8_3 ascii_to_sfn_no_ext sfn_to_ascii_def)
qed

lemma sfn_roundtrip_example:
  "sfn_to_ascii (snd (ascii_to_sfn ([0x61, 0x62] @ 0x2E # [0x63]))) = map toupper ([0x61, 0x62] @ 0x2E # [0x63])"
  using sfn_roundtrip [of "[0x61, 0x62]" "[0x63]"] by simp

section \<open>Long names\<close>

lemma length_put_name [simp]: "length (put_name off n f e) = length e"
  by (induction n) (simp_all add: put_name_def)

lemma put_name_Suc: "put_name off (Suc n) f e = put16 (off + 2 * n) (f n) (put_name off n f e)"
  by (simp add: put_name_def)

lemma get16_put_name:
  "off + 2 * n \<le> length e \<Longrightarrow> k < n \<Longrightarrow> get16 (put_name off n f e) (off + 2 * k) = f k"
proof (induction n)
  case (Suc n)
  then show ?case
    by (cases "k = n") (simp_all add: put_name_Suc get16_put16 get16_put16_other)
qed simp

lemma get16_put_name_other:
  "j + 1 < off \<or> off + 2 * n \<le> j \<Longrightarrow> get16 (put_name off n f e) j = get16 e j"
proof (induction n)
  case 0
  then show ?case by (simp add: put_name_def)
next
  case (Suc n)
  then show ?case by (auto simp: put_name_Suc get16_put16_other)
qed

lemma get16_set: "k < j \<Longrightarrow> get16 (e[k := v]) j = get16 e j" "j + 1 < k \<Longrightarrow> get16 (e[k := v]) j = get16 e j"
  by (auto simp: get16_def byte_at_def)

lemma ucast_16_8: "ucast (ucast (c :: u8) :: u16) = c"
  by (rule bit_word_eqI) (simp add: bit_ucast_iff)

lemma ucast_16_le: "c \<le> 0x7F \<Longrightarrow> (ucast (c :: u8) :: u16) \<le> 0x7F"
  by (simp add: word_le_nat_alt unsigned_ucast_eq order_trans [OF take_bit_nat_less_eq_self])

lemma ucast_16_zero: "(ucast (c :: u8) :: u16) = 0 \<longleftrightarrow> c = 0"
  using ucast_16_8 [of c] by (metis unsigned_0)

text \<open>Decoding what \<open>ascii_to_utf16\<close> left in the array gives the characters back.\<close>

lemma utf16_decode:
  assumes "\<forall>c \<in> set s. c \<noteq> 0 \<and> c \<le> 0x7F"
    and "\<And>i. i < n \<Longrightarrow> f i = (if i < length s then ucast (s ! i) else if i = length s then 0 else g i)"
  shows "utf16_to_ascii (map f [0..<n]) n = take n s"
  using assms
proof (induction n arbitrary: s f g)
  case (Suc n)
  have up: "map f [0..<Suc n] = f 0 # map (\<lambda>i. f (Suc i)) [0..<n]"
    by (simp add: upt_conv_Cons map_Suc_upt [symmetric] comp_def del: upt_Suc)
  show ?case
  proof (cases s)
    case Nil
    then have "f 0 = 0" using Suc.prems(2) [of 0] by simp
    then show ?thesis unfolding up using Nil by simp
  next
    case (Cons c r)
    have "f 0 = ucast c" using Suc.prems(2) [of 0] Cons by simp
    moreover have "utf16_to_ascii (map (\<lambda>i. f (Suc i)) [0..<n]) n = take n r"
    proof (rule Suc.IH)
      show "\<forall>c \<in> set r. c \<noteq> 0 \<and> c \<le> 0x7F" using Suc.prems(1) Cons by simp
      show "f (Suc i) = (if i < length r then ucast (r ! i) else if i = length r then 0 else g (Suc i))" if "i < n" for i
        using Suc.prems(2) [of "Suc i"] that Cons by simp
    qed
    moreover have "c \<noteq> 0" "c \<le> 0x7F" using Suc.prems(1) Cons by auto
    ultimately show ?thesis unfolding up using Cons by (simp add: ucast_16_8 ucast_16_le ucast_16_zero)
  qed
qed simp

lemma utf16_part:
  assumes "\<forall>c \<in> set s. c \<noteq> 0 \<and> c \<le> 0x7F"
  shows "utf16_to_ascii (map (ascii_to_utf16 s name n) [0..<n]) n = take n s"
  using assms by (rule utf16_decode [where g = name]) (auto simp: ascii_to_utf16_def Let_def min_def)

lemma write_at_append:
  assumes "i + length xs + length ys \<le> length b"
  shows "write_at (i + length xs) ys (write_at i xs b) = write_at i (xs @ ys) b"
  using assms by (simp add: write_at_def ac_simps)

lemma write_at_Nil [simp]: "write_at i [] b = b"
  by (simp add: write_at_def)

lemma make_lfn_names:
  assumes "length e = 32"
  shows "lfn_name1 (fat32_make_lfn_entry name e fn order) = map (ascii_to_utf16 fn name 5) [0..<5]"
    "lfn_name2 (fat32_make_lfn_entry name e fn order) =
       map (ascii_to_utf16 (drop 5 fn) (ascii_to_utf16 fn name 5) 6) [0..<6]"
    "lfn_name3 (fat32_make_lfn_entry name e fn order) =
       map (ascii_to_utf16 (drop 11 fn) (ascii_to_utf16 (drop 5 fn) (ascii_to_utf16 fn name 5) 6) 2) [0..<2]"
    "lfn_order (fat32_make_lfn_entry name e fn order) = order"
proof -
  let ?n1 = "ascii_to_utf16 fn name 5"
  let ?n2 = "ascii_to_utf16 (drop 5 fn) ?n1 6"
  let ?n3 = "ascii_to_utf16 (drop 11 fn) ?n2 2"
  let ?e = "put_name 28 2 ?n3 (put_name 14 6 ?n2 (put_name 1 5 ?n1 e))"
  have E: "fat32_make_lfn_entry name e fn order = ?e[0 := order, 11 := 0x0F, 12 := 0, 13 := 0]"
    by (simp add: fat32_make_lfn_entry_def Let_def)
  have g: "get16 (?e[0 := order, 11 := 0x0F, 12 := 0, 13 := 0]) j = get16 ?e j"
    if "1 \<le> j \<and> j < 10 \<or> 14 \<le> j" for j
    using that by (elim disjE) (simp_all add: get16_set)
  have "get16 (?e[0 := order, 11 := 0x0F, 12 := 0, 13 := 0]) (1 + 2 * k) = ?n1 k" if k: "k < 5" for k
  proof -
    have "get16 (?e[0 := order, 11 := 0x0F, 12 := 0, 13 := 0]) (1 + 2 * k) = get16 ?e (1 + 2 * k)"
      by (rule g) (use k in auto)
    also have "\<dots> = get16 (put_name 1 5 ?n1 e) (1 + 2 * k)"
      using k by (simp add: get16_put_name_other del: One_nat_def)
    also have "\<dots> = ?n1 k" by (rule get16_put_name) (use assms k in auto)
    finally show ?thesis .
  qed
  then show "lfn_name1 (fat32_make_lfn_entry name e fn order) = map ?n1 [0..<5]"
    unfolding E lfn_name1_def by (intro map_cong refl) simp
  show "lfn_name2 (fat32_make_lfn_entry name e fn order) = map ?n2 [0..<6]"
    unfolding E lfn_name2_def using assms
    by (intro map_cong refl) (simp add: g get16_put_name_other get16_put_name del: One_nat_def)
  show "lfn_name3 (fat32_make_lfn_entry name e fn order) = map ?n3 [0..<2]"
    unfolding E lfn_name3_def using assms
    by (intro map_cong refl) (simp add: g get16_put_name del: One_nat_def)
  show "lfn_order (fat32_make_lfn_entry name e fn order) = order"
    unfolding E lfn_order_def byte_at_def using assms by simp
qed



section \<open>Paths\<close>

text \<open>The components a loop over \<open>path_next\<close> sees, and the specification: the non-empty parts between slashes.\<close>

lemma path_next_shorter: "path_next dir = Some (name, dir') \<Longrightarrow> length dir' < length dir"
proof -
  assume "path_next dir = Some (name, dir')"
  then have *: "dir' = dropWhile (\<lambda>c. c \<noteq> 0x2F) (dropWhile (\<lambda>c. c = 0x2F) dir)" "dropWhile (\<lambda>c. c = 0x2F) dir \<noteq> []"
    by (auto simp: path_next_def Let_def split: if_splits)
  then obtain c r where cr: "dropWhile (\<lambda>c. c = 0x2F) dir = c # r" by (cases "dropWhile (\<lambda>c. c = 0x2F) dir") auto
  then have "c \<noteq> 0x2F" using hd_dropWhile [of "\<lambda>c. c = 0x2F" dir] by auto
  then have "length dir' \<le> length r" using * cr by (simp add: length_dropWhile_le)
  moreover have "length (c # r) \<le> length dir" using cr by (metis length_dropWhile_le)
  ultimately show ?thesis by simp
qed

function path_names :: "bytes \<Rightarrow> bytes list" where
  "path_names p = (case path_next p of None \<Rightarrow> [] | Some (name, r) \<Rightarrow> name # path_names r)"
  by pat_completeness auto
termination
  by (relation "measure length") (auto dest: path_next_shorter)

declare path_names.simps [simp del]

fun split_slash :: "bytes \<Rightarrow> bytes list" where
  "split_slash [] = [[]]"
| "split_slash (c # s) =
     (if c = 0x2F then [] # split_slash s else (c # hd (split_slash s)) # tl (split_slash s))"

lemma split_slash_skip: "filter (\<lambda>n. n \<noteq> []) (split_slash (dropWhile (\<lambda>c. c = 0x2F) p)) = filter (\<lambda>n. n \<noteq> []) (split_slash p)"
  by (induction p) auto

lemma split_slash_word:
  "\<forall>c \<in> set w. c \<noteq> 0x2F \<Longrightarrow> split_slash (w @ r) = (w @ hd (split_slash r)) # tl (split_slash r)"
  by (induction w) (simp_all add: split_slash.simps, cases r, auto)

lemma split_slash_word_end:
  assumes "\<forall>c \<in> set w. c \<noteq> 0x2F" and "w \<noteq> []" and "r = [] \<or> hd r = 0x2F"
  shows "filter (\<lambda>n. n \<noteq> []) (split_slash (w @ r)) = w # filter (\<lambda>n. n \<noteq> []) (split_slash r)"
  using assms split_slash_word [OF assms(1), of r] by (cases r) auto

text \<open>
  Path traversal: the components that repeated calls of \<open>path_next\<close> deliver are exactly the non-empty parts of the path between
  slashes, in order; leading, trailing and doubled slashes do not matter, and the traversal ends.
\<close>

lemma path_names_split: "path_names p = filter (\<lambda>n. n \<noteq> []) (split_slash p)"
proof (induction p rule: path_names.induct)
  case (1 p)
  let ?q = "dropWhile (\<lambda>c. c = 0x2F) p"
  show ?case
  proof (cases "?q = []")
    case True
    then have "path_names p = []" by (subst path_names.simps) (simp add: path_next_def)
    moreover have "filter (\<lambda>n. n \<noteq> []) (split_slash p) = []"
      using split_slash_skip [of p] unfolding True by simp
    ultimately show ?thesis by simp
  next
    case False
    let ?w = "takeWhile (\<lambda>c. c \<noteq> 0x2F) ?q" and ?r = "dropWhile (\<lambda>c. c \<noteq> 0x2F) ?q"
    have nx: "path_next p = Some (?w, ?r)" using False by (simp add: path_next_def Let_def)
    have "?w \<noteq> []" using False hd_dropWhile [of "\<lambda>c. c = 0x2F" p] by (cases ?q) auto
    moreover have "?r = [] \<or> hd ?r = 0x2F" using hd_dropWhile [of "\<lambda>c. c \<noteq> 0x2F" ?q] by auto
    ultimately have "filter (\<lambda>n. n \<noteq> []) (split_slash (?w @ ?r)) = ?w # filter (\<lambda>n. n \<noteq> []) (split_slash ?r)"
      by (intro split_slash_word_end) (auto dest: set_takeWhileD)
    then have "filter (\<lambda>n. n \<noteq> []) (split_slash p) = ?w # filter (\<lambda>n. n \<noteq> []) (split_slash ?r)"
      using split_slash_skip [of p] by simp
    moreover have "path_names p = ?w # path_names ?r" by (subst path_names.simps) (simp add: nx)
    ultimately show ?thesis using "1.IH" [OF nx refl] by simp
  qed
qed

section \<open>Cluster chains\<close>

fun cluster_chain :: "disk \<Rightarrow> fat32_bpb \<Rightarrow> u32 \<Rightarrow> u32 list \<Rightarrow> bool" where
  "cluster_chain d bpb c [] \<longleftrightarrow> FAT32_EOC c"
| "cluster_chain d bpb c (x # xs) \<longleftrightarrow> c = x \<and> \<not> FAT32_EOC x \<and>
     (\<exists>n. fat_next d bpb x = Some n \<and> cluster_chain d bpb n xs)"

definition cluster_data :: "disk \<Rightarrow> fat32_bpb \<Rightarrow> u32 \<Rightarrow> bytes" where
  "cluster_data d bpb c =
     map (byte_at (disk_read d (ucast (cluster_to_lba bpb c)) (unat (sectors_per_cluster bpb)))) [0..<bytes_per_cluster bpb]"

lemma length_cluster_data [simp]: "length (cluster_data d bpb c) = bytes_per_cluster bpb"
  by (simp add: cluster_data_def)

lemma take_cluster_data:
  "n \<le> bytes_per_cluster bpb \<Longrightarrow> take n (cluster_data d bpb c) =
    map (byte_at (disk_read d (ucast (cluster_to_lba bpb c)) (unat (sectors_per_cluster bpb)))) [0..<n]"
  by (simp add: cluster_data_def take_map)

lemma read_chain_data:
  assumes "cluster_chain d bpb c cs" and "0 < sz" and "sz \<le> length cs * bytes_per_cluster bpb"
  shows "\<exists>rest. read_chain d bpb c sz acc = Some (rest, acc @ take sz (concat (map (cluster_data d bpb) cs))) \<and>
    0 < rest \<and> rest \<le> bytes_per_cluster bpb"
  using assms
proof (induction cs arbitrary: c sz acc)
  case (Cons x xs)
  let ?b = "bytes_per_cluster bpb"
  obtain n where n: "c = x" "\<not> FAT32_EOC x" "fat_next d bpb x = Some n" "cluster_chain d bpb n xs"
    using Cons.prems(1) by auto
  show ?case
  proof (cases "?b < sz")
    case True
    have "read_chain d bpb c sz acc = read_chain d bpb n (sz - ?b) (acc @ cluster_data d bpb x)"
      using n True by (subst read_chain.simps) (simp add: cluster_data_def)
    moreover obtain rest where "read_chain d bpb n (sz - ?b) (acc @ cluster_data d bpb x) =
        Some (rest, (acc @ cluster_data d bpb x) @ take (sz - ?b) (concat (map (cluster_data d bpb) xs)))"
      "0 < rest" "rest \<le> ?b"
    proof -
      have "0 < sz - ?b" "sz - ?b \<le> length xs * ?b" using True Cons.prems(3) by simp_all
      from Cons.IH [OF n(4) this, of "acc @ cluster_data d bpb x"] that show thesis by blast
    qed
    ultimately show ?thesis using True by simp
  next
    case False
    then have "read_chain d bpb c sz acc = Some (sz, acc @ take sz (cluster_data d bpb x))"
      using n by (subst read_chain.simps) (simp add: take_cluster_data)
    then show ?thesis using False Cons.prems(2) by simp
  qed
qed simp


definition sample_disk :: disk where
  "sample_disk lba =
     (if lba = 0 then put16 0x0B 512 (put32 0x24 2 ((replicate 512 0)[0x0D := 1, 0x0E := 1, 0x10 := 1]))
      else if lba = 1 then replicate 512 0xFF else replicate 512 0)"

definition sample_bpb :: fat32_bpb where
  "sample_bpb = \<lparr>bytes_per_sector = 512, sectors_per_cluster = 1, reserved_sector_count = 1,
     num_fats = 1, fat_size_32 = 2, root_cluster = 0\<rparr>"

lemma sample_read_bpb: "read_bpb sample_disk = sample_bpb"
  by (simp add: read_bpb_def sample_bpb_def disk_read_def sample_disk_def get16_def get32_def put16_def put32_def byte_at_def Let_def)

definition sample_file :: fat32_file where
  "sample_file = \<lparr>f_fd = 0, f_path = [], f_size = 100, f_bpb = sample_bpb, f_entry = put16 26 3 (replicate 32 0), f_parent = []\<rparr>"


section \<open>Cluster allocation\<close>

lemma disk_write_1: "disk_write d lba 1 buf = d(lba := map (byte_at buf) [0..<512])"
  by (simp add: disk_write_def)

lemma disk_read_1: "disk_read d lba 1 = d lba"
  by (simp add: disk_read_def)

lemma fat_write_all_other:
  assumes "\<And>j. j < unat (num_fats bpb) \<Longrightarrow> lba_of (ucast (reserved_sector_count bpb) + fat_size_32 bpb * of_nat j) \<noteq> x"
  shows "fat_write_all d bpb lba_of table x = d x"
  unfolding fat_write_all_def disk_write_1
  by (rule fold_invariant [where P = "\<lambda>d'. d' x = d x"]) (use assms in auto)

lemma fat_write_all_copy:
  assumes "j < unat (num_fats bpb)"
  shows "fat_write_all d bpb lba_of table (lba_of (ucast (reserved_sector_count bpb) + fat_size_32 bpb * of_nat j)) =
    map (byte_at table) [0..<512]"
proof -
  let ?l = "\<lambda>j. lba_of (ucast (reserved_sector_count bpb) + fat_size_32 bpb * of_nat j)"
  have "j < n \<Longrightarrow> fold (\<lambda>j d. d(?l j := map (byte_at table) [0..<512])) [0..<n] d (?l j) = map (byte_at table) [0..<512]" for n
    by (induction n) (auto simp: less_Suc_eq)
  then show ?thesis using assms unfolding fat_write_all_def disk_write_1 by blast
qed

lemma fat_alloc_skip:
  "nr < unat (fat_size_32 bpb) \<Longrightarrow>
    fat_find_free (d (ucast (reserved_sector_count bpb) + of_nat nr)) (unat (bytes_per_sector bpb) div 32) = None \<Longrightarrow>
    fat_alloc_loop d bpb nr = fat_alloc_loop d bpb (Suc nr)"
  by (subst fat_alloc_loop.simps) (simp add: disk_read_1 [simplified] Let_def)

lemma fat_alloc_hit:
  "nr < unat (fat_size_32 bpb) \<Longrightarrow>
    fat_find_free (d (ucast (reserved_sector_count bpb) + of_nat nr)) (unat (bytes_per_sector bpb) div 32) = Some i \<Longrightarrow>
    fat_alloc_loop d bpb nr = (of_nat (nr * (unat (bytes_per_sector bpb) div 32) + i),
      fat_write_all d bpb (\<lambda>b. ucast (b + of_nat nr)) (put32 (4 * i) 0x0FFFFFFF (d (ucast (reserved_sector_count bpb) + of_nat nr))))"
  by (subst fat_alloc_loop.simps) (simp add: disk_read_1 [simplified] Let_def)

lemma unat_ucast_of_nat32: "m < 2 ^ 32 \<Longrightarrow> unat (ucast (of_nat m :: u32) :: u64) = m"
  by (simp add: unsigned_ucast_eq unsigned_of_nat take_bit_nat_eq_self)

text \<open>
  \<open>__fat32_alloc_cluster\<close> searches the sectors of the FAT in order, sees only the first 16 of the 128 entries of a 512-byte sector, and
  numbers the clusters as if a sector had 16 entries. When the first 16 entries of the first sector are taken and entry 0 of
  the second sector (that is, cluster 128) is free, it marks cluster 128 as used but returns 16, the number of a cluster whose entry
  it leaves unchanged.
\<close>

lemma alloc_cluster_wrong_number:
  assumes "bytes_per_sector (read_bpb d) = 512" and "2 \<le> fat_size_32 (read_bpb d)" and "0 < num_fats (read_bpb d)"
    and "reserved_sector_count (read_bpb d) = r"
    and "unat r + unat (fat_size_32 (read_bpb d)) * unat (num_fats (read_bpb d)) < 2 ^ 32"
    and "\<forall>i < 16. get32 (d (ucast r)) (4 * i) \<noteq> 0" and "get32 (d (ucast r + 1)) 0 = 0" and "length (d (ucast r + 1)) = 512"
  shows "\<exists>d'. fat32_alloc_cluster d = (16, d') \<and>
    fat_next d' (read_bpb d) 128 = Some 0x0FFFFFFF \<and> fat_next d' (read_bpb d) 16 = fat_next d (read_bpb d) 16"
proof -
  let ?b = "read_bpb d" and ?t = "put32 0 0x0FFFFFFF (d (ucast r + 1))"
  have fs: "1 < unat (fat_size_32 ?b)" "0 < unat (fat_size_32 ?b)"
    using assms(2) by (simp_all add: word_le_nat_alt)
  have nf: "0 < unat (num_fats ?b)" using assms(3) by (simp add: word_less_nat_alt)
  let ?d = "fat_write_all d ?b (\<lambda>b. ucast (b + of_nat 1)) ?t"
  have none: "fat_find_free (d (ucast r)) 16 = None" using assms(6) by (auto simp: fat_find_free_def find_None_iff)
  have some: "fat_find_free (d (ucast r + 1)) 16 = Some 0"
    using assms(7) by (simp add: fat_find_free_def upt_conv_Cons)
  have call: "fat32_alloc_cluster d = (16, ?d)"
    using fat_alloc_skip [of 0 ?b d] fat_alloc_hit [of 1 ?b d 0] fs none some assms(1,4)
    by (simp add: fat32_alloc_cluster_def)
  have first: "(ucast (ucast r + (1 :: u32)) :: u64) = ucast r + 1"
  proof (rule word_unat_eq_iff [THEN iffD2])
    have "unat r < 2 ^ 16" using unsigned_less [of r, where 'a = nat] by simp
    then show "unat (ucast (ucast r + (1 :: u32)) :: u64) = unat (ucast r + 1 :: u64)"
      by (simp add: unsigned_ucast_eq unat_word_ariths take_bit_nat_eq_self)
  qed
  have "?d (ucast r + 1) = map (byte_at ?t) [0..<512]"
    using fat_write_all_copy [OF nf, of d "\<lambda>b. ucast (b + of_nat 1)" ?t] assms(4) first by simp
  then have "get32 (?d (ucast r + 1)) 0 = get32 ?t 0" by (simp add: get32_def get16_def byte_at_def)
  also have "\<dots> = 0x0FFFFFFF" using assms(8) by (intro get32_put32) simp
  finally have "get32 (?d (ucast r + 1)) 0 = 0x0FFFFFFF" .
  moreover have "?d (ucast r) = d (ucast r)"
  proof (rule fat_write_all_other)
    fix j assume j: "j < unat (num_fats ?b)"
    have "unat (fat_size_32 ?b) * j + unat (fat_size_32 ?b) \<le> unat (fat_size_32 ?b) * unat (num_fats ?b)"
      using mult_le_mono2 [of "Suc j" "unat (num_fats ?b)" "unat (fat_size_32 ?b)"] j by simp
    then have lt: "unat r + unat (fat_size_32 ?b) * j + 1 < 2 ^ 32" using assms(5) fs(1) by linarith
    have "(ucast (reserved_sector_count ?b) + fat_size_32 ?b * of_nat j + of_nat 1 :: u32) =
        of_nat (unat r + unat (fat_size_32 ?b) * j + 1)"
      using assms(4) by (simp add: unsigned_ucast_eq of_nat_unat)
    then have "unat (ucast (ucast (reserved_sector_count ?b) + fat_size_32 ?b * of_nat j + of_nat 1 :: u32) :: u64) =
        unat r + unat (fat_size_32 ?b) * j + 1"
      using unat_ucast_of_nat32 [OF lt] by (simp only:)
    moreover have "unat (ucast r :: u64) = unat r"
      using unsigned_less [of r, where 'a = nat] by (simp add: unsigned_ucast_eq take_bit_nat_eq_self)
    ultimately show "(ucast (ucast (reserved_sector_count ?b) + fat_size_32 ?b * of_nat j + of_nat 1 :: u32) :: u64) \<noteq> ucast r"
      by (metis add_eq_self_zero add.assoc add_is_0 one_neq_zero)
  qed
  ultimately show ?thesis using call assms(1,4)
    by (intro exI [of _ ?d]) (simp add: fat_next_def fat_sector_def fat_index_def disk_read_1 [simplified])
qed

lemma alloc_cluster_wrong_number_example:
  "\<exists>d'. fat32_alloc_cluster sample_disk = (16, d') \<and> fat_next d' sample_bpb 128 = Some 0x0FFFFFFF"
proof -
  have "\<forall>i < 16. get32 (sample_disk 1) (4 * i) \<noteq> 0"
    by (simp add: sample_disk_def get32_def get16_def byte_at_def)
  moreover have "get32 (sample_disk 2) 0 = 0" "length (sample_disk 2) = 512"
    by (simp_all add: sample_disk_def get32_def get16_def byte_at_def)
  ultimately show ?thesis
    using alloc_cluster_wrong_number [of sample_disk 1] unfolding sample_read_bpb by (auto simp: sample_bpb_def)
qed

section \<open>Looking up names\<close>

text \<open>An entry in use that is not part of a long name, with a short name that is not empty.\<close>

definition plain_entry :: "bytes \<Rightarrow> bool" where
  "plain_entry e \<longleftrightarrow> byte_at e 0 \<noteq> 0 \<and> byte_at e 0 \<noteq> 0xE5 \<and> byte_at e 11 \<noteq> 0x0F"

definition short_name :: "bytes \<Rightarrow> bytes" where
  "short_name e = cstring (sfn_to_ascii (sfn_name e))"

lemma take_terminated_eq:
  assumes "0 \<notin> set s" and "0 \<notin> set t"
  shows "take (length t + 1) (s @ [0]) = take (length t + 1) (t @ [0]) \<longleftrightarrow> s = (t :: bytes)"
  using assms
proof (induction t arbitrary: s)
  case Nil
  then show ?case by (cases s) auto
next
  case (Cons b t)
  then show ?case by (cases s) auto
qed

lemma cstring_no_zero: "0 \<notin> set (cstring b)"
  by (auto simp: cstring_def dest: set_takeWhileD)

lemma compare_plain:
  assumes "0 \<notin> set target"
  shows "fat32_compare_callback target (replicate FAT32_LFN_MAX_LEN 0) e = (if target = short_name e then 0 else - 1, [])"
proof -
  have "entry_name (replicate FAT32_LFN_MAX_LEN 0) e = short_name e"
    by (simp add: entry_name_def short_name_def byte_at_def FAT32_LFN_MAX_LEN_def)
  then show ?thesis
    using take_terminated_eq [OF assms, of "short_name e"] cstring_no_zero [of "sfn_to_ascii (sfn_name e)"]
    by (simp add: fat32_compare_callback_def Let_def short_name_def)
qed

lemma dirent_loop_plain:
  assumes "0 \<notin> set target" and "\<forall>e \<in> set es. plain_entry e"
  shows "dirent_loop (fat32_compare_callback target) (es @ fs) (replicate FAT32_LFN_MAX_LEN 0) ret out =
    (case find (\<lambda>e. short_name e = target) es of
       Some e \<Rightarrow> Some (Finished 0 (Some e) out)
     | None \<Rightarrow> dirent_loop (fat32_compare_callback target) fs (replicate FAT32_LFN_MAX_LEN 0) (if es = [] then ret else - 1) out)"
  using assms(2)
proof (induction es arbitrary: ret)
  case (Cons e es)
  then show ?case
    using compare_plain [OF assms(1), of e] by (auto simp: plain_entry_def split: option.split)
qed simp



end
