(* ===== verification/Tmpfs.thy ===== *)
theory Tmpfs
  imports KHeap "HOL-Library.Sublist"
begin

text \<open>
  The in-memory file system of \<open>src/src/fs/tmpfs.c\<close>. A \<open>struct tmpfs_dentry\<close> is a node of the map \<open>td_nodes\<close>, its address the
  key; \<open>tmpfs_root\<close> is node 0. The list \<open>children\<close>, linked through \<open>sibling\<close>, is the list of its nodes (theory
  \<open>IntrusiveList\<close> shows that the pointer operations implement append and removal), \<open>nmlen\<close> is the length of \<open>td_name\<close>. A pathname is
  the list of its bytes before the terminator. Memory comes from the heap of theory \<open>KHeap\<close>. \<open>None\<close> is a call that does not
  return: it waits for the heap lock a failed allocation left held, or it uses a node after it was freed, whose pages are unmapped.

  The lemmas relate the pointer walks to a map from paths to nodes (\<open>view\<close>), and show what each operation does to it.
\<close>

datatype dentry_type = DENTRY_FILE | DENTRY_DIR

record tmpfs_dentry =
  td_name :: bytes
  td_type :: dentry_type
  td_size :: nat
  td_parent :: "nat option"
  td_children :: "nat list"
  td_data :: "bytes option"

record tmpfs =
  td_nodes :: "nat \<Rightarrow> tmpfs_dentry option"
  td_next :: nat
  td_heap :: kheap

definition FS_NAME_MAX :: nat where
  "FS_NAME_MAX = 255"

definition TMPFS_OK :: int where "TMPFS_OK = 0"
definition TMPFS_ERR_INVAL :: int where "TMPFS_ERR_INVAL = - 1"
definition TMPFS_ERR_NOMEM :: int where "TMPFS_ERR_NOMEM = - 2"
definition TMPFS_ERR_TOOLONG :: int where "TMPFS_ERR_TOOLONG = - 3"
definition TMPFS_ERR_ISDIR :: int where "TMPFS_ERR_ISDIR = - 4"
definition TMPFS_ERR_NOTDIR :: int where "TMPFS_ERR_NOTDIR = - 5"
definition TMPFS_ERR_NOENT :: int where "TMPFS_ERR_NOENT = - 6"
definition TMPFS_ERR_NOTEMPTY :: int where "TMPFS_ERR_NOTEMPTY = - 7"

lemmas tmpfs_errors = TMPFS_OK_def TMPFS_ERR_INVAL_def TMPFS_ERR_NOMEM_def TMPFS_ERR_TOOLONG_def
  TMPFS_ERR_ISDIR_def TMPFS_ERR_NOTDIR_def TMPFS_ERR_NOENT_def TMPFS_ERR_NOTEMPTY_def

abbreviation slash :: u8 where
  "slash \<equiv> 0x2F"

section \<open>Nodes\<close>

definition tmpfs_root :: tmpfs_dentry where
  "tmpfs_root = \<lparr>td_name = [slash], td_type = DENTRY_DIR, td_size = 0, td_parent = None, td_children = [], td_data = None\<rparr>"

definition upd_node :: "nat \<Rightarrow> (tmpfs_dentry \<Rightarrow> tmpfs_dentry) \<Rightarrow> tmpfs \<Rightarrow> tmpfs option" where
  "upd_node i f s = (case td_nodes s i of None \<Rightarrow> None | Some n \<Rightarrow> Some (s\<lparr>td_nodes := (td_nodes s)(i \<mapsto> f n)\<rparr>))"

definition tmpfs_alloc_dentry :: "tmpfs \<Rightarrow> nat \<Rightarrow> bytes \<Rightarrow> dentry_type \<Rightarrow> (nat option \<times> tmpfs) option" where
  "tmpfs_alloc_dentry s parent name type = do {
     (ok, h) \<leftarrow> kh_alloc (td_heap s) 72;
     let s = s\<lparr>td_heap := h\<rparr>;
     if \<not> ok then Some (None, s)
     else do {
       (ok, h) \<leftarrow> kh_alloc (td_heap s) (length name + 1);
       let s = s\<lparr>td_heap := h\<rparr>;
       if \<not> ok then do { h \<leftarrow> kh_free (td_heap s); Some (None, s\<lparr>td_heap := h\<rparr>) }
       else do {
         let td = td_next s;
         let s = s\<lparr>td_nodes := (td_nodes s)(td \<mapsto> \<lparr>td_name = name, td_type = type, td_size = 0, td_parent = Some parent,
                      td_children = [], td_data = None\<rparr>), td_next := Suc td\<rparr>;
         s \<leftarrow> upd_node parent (td_children_update (\<lambda>cs. cs @ [td])) s;
         Some (Some td, s) } } }"

text \<open>The loop over \<open>children\<close> that lookup, creat, mkdir and rename share.\<close>

primrec find_child :: "tmpfs \<Rightarrow> nat list \<Rightarrow> bytes \<Rightarrow> nat option option" where
  "find_child s [] name = Some None"
| "find_child s (pos # rest) name = do {
     n \<leftarrow> td_nodes s pos;
     if td_name n = name then Some (Some pos) else find_child s rest name }"

section \<open>Path walks\<close>

text \<open>A path component: \<open>p\<close> after the leading slashes, up to the next slash.\<close>

definition skip_slashes :: "bytes \<Rightarrow> bytes" where
  "skip_slashes p = dropWhile (\<lambda>c. c = slash) p"

definition component :: "bytes \<Rightarrow> bytes" where
  "component p = takeWhile (\<lambda>c. c \<noteq> slash) p"

definition has_slash :: "bytes \<Rightarrow> bool" where
  "has_slash p \<longleftrightarrow> slash \<in> set p"

lemma skip_component_less:
  "skip_slashes p \<noteq> [] \<Longrightarrow> length (drop (length (component (skip_slashes p))) (skip_slashes p)) < length p"
proof -
  assume a: "skip_slashes p \<noteq> []"
  have "hd (skip_slashes p) \<noteq> slash" using a hd_dropWhile [of "\<lambda>c. c = slash" p] by (simp add: skip_slashes_def)
  then have "component (skip_slashes p) \<noteq> []" using a by (cases "skip_slashes p") (auto simp: component_def)
  then have "0 < length (component (skip_slashes p))" by simp
  moreover have "length (skip_slashes p) \<le> length p" by (simp add: skip_slashes_def length_dropWhile_le)
  ultimately show ?thesis using a by (cases "skip_slashes p") (auto simp: component_def split: if_splits)
qed

function tmpfs_lookup_loop :: "tmpfs \<Rightarrow> nat \<Rightarrow> bytes \<Rightarrow> nat option option" where
  "tmpfs_lookup_loop s cur p =
     (let p = skip_slashes p in
      if p = [] then Some (Some cur)
      else let name = component p in
        if length name > FS_NAME_MAX then Some None
        else do {
          n \<leftarrow> td_nodes s cur;
          child \<leftarrow> find_child s (td_children n) name;
          case child of None \<Rightarrow> Some None
          | Some child \<Rightarrow> tmpfs_lookup_loop s child (drop (length name) p) })"
  by pat_completeness auto
termination by (relation "measure (\<lambda>(_, _, p). length p)") (simp_all add: skip_component_less [simplified])

definition tmpfs_lookup :: "tmpfs \<Rightarrow> bytes \<Rightarrow> nat option option" where
  "tmpfs_lookup s pathname =
     (if pathname = [] \<or> hd pathname \<noteq> slash then Some None
      else if length pathname = 1 then Some (Some 0)
      else tmpfs_lookup_loop s 0 (tl pathname))"

function creat_loop :: "tmpfs \<Rightarrow> nat \<Rightarrow> bytes \<Rightarrow> (int \<times> tmpfs) option" where
  "creat_loop s cur p =
     (let p = skip_slashes p in
      if p = [] then Some (TMPFS_OK, s)
      else let name = component p in
        if length name > FS_NAME_MAX then Some (TMPFS_ERR_TOOLONG, s)
        else do {
          n \<leftarrow> td_nodes s cur;
          child \<leftarrow> find_child s (td_children n) name;
          case child of
            None \<Rightarrow> do {
              (new, s) \<leftarrow> tmpfs_alloc_dentry s cur name (if has_slash p then DENTRY_DIR else DENTRY_FILE);
              case new of None \<Rightarrow> Some (TMPFS_ERR_NOMEM, s)
              | Some child \<Rightarrow> creat_loop s child (drop (length name) p) }
          | Some child \<Rightarrow> do {
              c \<leftarrow> td_nodes s child;
              if \<not> has_slash p \<and> td_type c = DENTRY_DIR then Some (TMPFS_ERR_ISDIR, s)
              else creat_loop s child (drop (length name) p) } })"
  by pat_completeness auto
termination by (relation "measure (\<lambda>(_, _, p). length p)") (simp_all add: skip_component_less [simplified])

definition bad_path :: "bytes \<Rightarrow> bool" where
  "bad_path pathname \<longleftrightarrow> pathname = [] \<or> hd pathname \<noteq> slash \<or> length pathname = 1"

definition tmpfs_creat :: "tmpfs \<Rightarrow> bytes \<Rightarrow> (int \<times> tmpfs) option" where
  "tmpfs_creat s pathname =
     (if bad_path pathname then Some (TMPFS_ERR_INVAL, s) else creat_loop s 0 (tl pathname))"

function mkdir_loop :: "tmpfs \<Rightarrow> nat \<Rightarrow> bytes \<Rightarrow> (int \<times> tmpfs) option" where
  "mkdir_loop s cur p =
     (let p = skip_slashes p in
      if p = [] then Some (TMPFS_OK, s)
      else let name = component p in
        if length name > FS_NAME_MAX then Some (TMPFS_ERR_TOOLONG, s)
        else do {
          n \<leftarrow> td_nodes s cur;
          child \<leftarrow> find_child s (td_children n) name;
          case child of
            None \<Rightarrow> do {
              (new, s) \<leftarrow> tmpfs_alloc_dentry s cur name DENTRY_DIR;
              case new of None \<Rightarrow> Some (TMPFS_ERR_NOMEM, s)
              | Some child \<Rightarrow> mkdir_loop s child (drop (length name) p) }
          | Some child \<Rightarrow> do {
              c \<leftarrow> td_nodes s child;
              if td_type c \<noteq> DENTRY_DIR then Some (TMPFS_ERR_NOTDIR, s)
              else mkdir_loop s child (drop (length name) p) } })"
  by pat_completeness auto
termination by (relation "measure (\<lambda>(_, _, p). length p)") (simp_all add: skip_component_less [simplified])

declare tmpfs_lookup_loop.simps [simp del] creat_loop.simps [simp del] mkdir_loop.simps [simp del]

definition tmpfs_mkdir :: "tmpfs \<Rightarrow> bytes \<Rightarrow> (int \<times> tmpfs) option" where
  "tmpfs_mkdir s pathname =
     (if bad_path pathname then Some (TMPFS_ERR_INVAL, s) else mkdir_loop s 0 (tl pathname))"

section \<open>Reading and writing\<close>

text \<open>
  \<open>td\<close> is the \<open>private_data\<close> of the file's dentry, \<open>None\<close> for NULL. The result carries the bytes put into \<open>buf\<close>.
\<close>

definition tmpfs_read :: "tmpfs \<Rightarrow> nat option \<Rightarrow> nat \<Rightarrow> (int \<times> bytes) option" where
  "tmpfs_read s td len =
     (case td of None \<Rightarrow> Some (TMPFS_ERR_INVAL, [])
      | Some td \<Rightarrow> do {
          n \<leftarrow> td_nodes s td;
          case td_data n of
            Some data \<Rightarrow>
              if td_type n \<noteq> DENTRY_FILE then Some (TMPFS_ERR_INVAL, [])
              else let len = (if len > td_size n then td_size n else len)
                in Some (int len, take len data)
          | None \<Rightarrow> Some (TMPFS_ERR_INVAL, []) })"

text \<open>
  \<open>krealloc\<close> copies the new length from the old block, whose size is the old length rounded up to a power of two of pages;
  a copy that leaves the block is a fault.
\<close>

definition block_bytes :: "nat \<Rightarrow> nat" where
  "block_bytes n = order_to_pages (size_to_order n) * PAGE_SIZE"

definition tmpfs_write :: "tmpfs \<Rightarrow> nat option \<Rightarrow> bytes \<Rightarrow> (int \<times> tmpfs) option" where
  "tmpfs_write s td buf =
     (case td of None \<Rightarrow> Some (TMPFS_ERR_INVAL, s)
      | Some td \<Rightarrow> do {
          n \<leftarrow> td_nodes s td;
          if td_type n \<noteq> DENTRY_FILE then Some (TMPFS_ERR_INVAL, s)
          else do {
            (ok, h) \<leftarrow> kh_alloc (td_heap s) (length buf);
            h \<leftarrow> (case td_data n of None \<Rightarrow> Some h
                  | Some data \<Rightarrow> if \<not> ok then Some h
                                else if length buf > block_bytes (length data) then None else kh_free h);
            let s = s\<lparr>td_heap := h\<rparr>;
            if \<not> ok \<and> length buf > 0 then Some (TMPFS_ERR_NOMEM, s)
            else do {
              s \<leftarrow> upd_node td (\<lambda>n. n\<lparr>td_data := (if ok then Some buf else None), td_size := length buf\<rparr>) s;
              Some (int (length buf), s) } } })"

text \<open>\<open>tmpfs_readdir\<close> prints each entry; the second component is what it prints.\<close>

definition tmpfs_readdir :: "tmpfs \<Rightarrow> bytes \<Rightarrow> (int \<times> (bytes \<times> bool) list) option" where
  "tmpfs_readdir s pathname = do {
     dir \<leftarrow> tmpfs_lookup s pathname;
     case dir of None \<Rightarrow> Some (TMPFS_ERR_NOENT, [])
     | Some dir \<Rightarrow> do {
         n \<leftarrow> td_nodes s dir;
         if td_type n \<noteq> DENTRY_DIR then Some (TMPFS_ERR_NOTDIR, [])
         else do {
           des \<leftarrow> those (map (td_nodes s) (td_children n));
           Some (TMPFS_OK, map (\<lambda>de. (td_name de, td_type de = DENTRY_DIR)) des) } } }"

section \<open>Removing and moving\<close>

definition list_del_sibling :: "nat \<Rightarrow> tmpfs \<Rightarrow> tmpfs option" where
  "list_del_sibling td s = do {
     n \<leftarrow> td_nodes s td;
     case td_parent n of None \<Rightarrow> Some s
     | Some parent \<Rightarrow> upd_node parent (td_children_update (remove1 td)) s }"

definition tmpfs_free_dentry :: "nat \<Rightarrow> tmpfs \<Rightarrow> tmpfs option" where
  "tmpfs_free_dentry td s = do {
     s \<leftarrow> list_del_sibling td s;
     n \<leftarrow> td_nodes s td;
     h \<leftarrow> kh_free (td_heap s);
     h \<leftarrow> (if td_data n \<noteq> None \<and> td_type n = DENTRY_FILE then kh_free h else Some h);
     h \<leftarrow> kh_free h;
     Some (s\<lparr>td_nodes := (td_nodes s)(td := None), td_heap := h\<rparr>) }"

definition tmpfs_unlink :: "tmpfs \<Rightarrow> bytes \<Rightarrow> (int \<times> tmpfs) option" where
  "tmpfs_unlink s pathname =
     (if bad_path pathname then Some (TMPFS_ERR_INVAL, s)
      else do {
        target \<leftarrow> tmpfs_lookup s pathname;
        case target of None \<Rightarrow> Some (TMPFS_ERR_NOENT, s)
        | Some target \<Rightarrow>
            if target = 0 then Some (TMPFS_ERR_INVAL, s)
            else do {
              n \<leftarrow> td_nodes s target;
              if td_type n = DENTRY_DIR \<and> td_children n \<noteq> [] then Some (TMPFS_ERR_NOTEMPTY, s)
              else do { s \<leftarrow> tmpfs_free_dentry target s; Some (TMPFS_OK, s) } } })"

definition tmpfs_stat :: "tmpfs \<Rightarrow> bytes \<Rightarrow> (int \<times> nat option) option" where
  "tmpfs_stat s pathname = do {
     de \<leftarrow> tmpfs_lookup s pathname;
     case de of None \<Rightarrow> Some (TMPFS_ERR_NOENT, None)
     | Some de \<Rightarrow> do { n \<leftarrow> td_nodes s de; Some (TMPFS_OK, Some (td_size n)) } }"

text \<open>The last component of \<open>newpath\<close> and what stands before its slash.\<close>

definition after_last_slash :: "bytes \<Rightarrow> bytes" where
  "after_last_slash p = rev (component (rev p))"

definition before_last_slash :: "bytes \<Rightarrow> bytes" where
  "before_last_slash p = take (length p - length (after_last_slash p) - 1) p"

definition rename_parent :: "tmpfs \<Rightarrow> bytes \<Rightarrow> ((int + nat) \<times> tmpfs) option" where
  "rename_parent s newpath =
     (if before_last_slash newpath = [] then Some (Inr 0, s)
      else do {
        (ok, h) \<leftarrow> kh_alloc (td_heap s) (length (before_last_slash newpath) + 1);
        let s = s\<lparr>td_heap := h\<rparr>;
        if \<not> ok then Some (Inl TMPFS_ERR_NOMEM, s)
        else do {
          new_parent \<leftarrow> tmpfs_lookup s (before_last_slash newpath);
          h \<leftarrow> kh_free (td_heap s);
          let s = s\<lparr>td_heap := h\<rparr>;
          Some (case new_parent of None \<Rightarrow> (Inl TMPFS_ERR_NOENT, s) | Some p \<Rightarrow> (Inr p, s)) } })"

text \<open>The name of the root is a string literal, which \<open>kfree\<close> does not know.\<close>

definition rename_move :: "tmpfs \<Rightarrow> nat \<Rightarrow> nat \<Rightarrow> bytes \<Rightarrow> (int \<times> tmpfs) option" where
  "rename_move s src new_parent new_name = do {
     (ok, h) \<leftarrow> kh_alloc (td_heap s) (length new_name + 1);
     let s = s\<lparr>td_heap := h\<rparr>;
     if \<not> ok then Some (TMPFS_ERR_NOMEM, s)
     else do {
       s \<leftarrow> list_del_sibling src s;
       h \<leftarrow> (if src = 0 then kh_free_unknown (td_heap s) else kh_free (td_heap s));
       let s = s\<lparr>td_heap := h\<rparr>;
       s \<leftarrow> upd_node src (\<lambda>n. n\<lparr>td_name := new_name, td_parent := Some new_parent\<rparr>) s;
       s \<leftarrow> upd_node new_parent (td_children_update (\<lambda>cs. cs @ [src])) s;
       Some (TMPFS_OK, s) } }"

definition tmpfs_rename :: "tmpfs \<Rightarrow> bytes \<Rightarrow> bytes \<Rightarrow> (int \<times> tmpfs) option" where
  "tmpfs_rename s oldpath newpath =
     (if oldpath = [] \<or> newpath = [] \<or> hd oldpath \<noteq> slash \<or> hd newpath \<noteq> slash then Some (TMPFS_ERR_INVAL, s)
      else if length oldpath = 1 then Some (TMPFS_ERR_INVAL, s)
      else do {
        src \<leftarrow> tmpfs_lookup s oldpath;
        case src of None \<Rightarrow> Some (TMPFS_ERR_NOENT, s)
        | Some src \<Rightarrow>
          let new_name = after_last_slash newpath in
          if length new_name = 0 \<or> length new_name > FS_NAME_MAX then Some (TMPFS_ERR_INVAL, s)
          else do {
            (r, s) \<leftarrow> rename_parent s newpath;
            case r of Inl err \<Rightarrow> Some (err, s)
            | Inr new_parent \<Rightarrow> do {
                np \<leftarrow> td_nodes s new_parent;
                if td_type np \<noteq> DENTRY_DIR then Some (TMPFS_ERR_NOTDIR, s)
                else do {
                  exist \<leftarrow> find_child s (td_children np) new_name;
                  case exist of None \<Rightarrow> rename_move s src new_parent new_name
                  | Some e \<Rightarrow> do {
                      n \<leftarrow> td_nodes s e;
                      if td_type n = DENTRY_DIR \<and> td_children n \<noteq> [] then Some (TMPFS_ERR_NOTEMPTY, s)
                      else do {
                        s \<leftarrow> tmpfs_free_dentry e s;
                        rename_move s src new_parent new_name } } } } } })"

text \<open>\<open>tmpfs_open\<close> looks the name of the node up as if it were a path.\<close>

definition ENOENT :: int where "ENOENT = 2"

definition tmpfs_open :: "tmpfs \<Rightarrow> nat \<Rightarrow> int option" where
  "tmpfs_open s td = do {
     n \<leftarrow> td_nodes s td;
     t \<leftarrow> tmpfs_lookup s (td_name n);
     Some (if t = None then - ENOENT else 0) }"

definition tmpfs_release :: "tmpfs \<Rightarrow> nat \<Rightarrow> int" where
  "tmpfs_release s td = 0"

definition tmpfs_init_state :: "kheap \<Rightarrow> tmpfs" where
  "tmpfs_init_state h = \<lparr>td_nodes = [0 \<mapsto> tmpfs_root], td_next = 1, td_heap = h\<rparr>"

section \<open>The tree\<close>

text \<open>
  \<open>edge s i nm c\<close>: node \<open>c\<close> is the child of \<open>i\<close> with name \<open>nm\<close>. \<open>view\<close> maps a list of names to the node it leads to from the root:
  the abstract name space the operations are specified on.
\<close>

definition edge :: "tmpfs \<Rightarrow> nat \<Rightarrow> bytes \<Rightarrow> nat \<Rightarrow> bool" where
  "edge s i nm c \<longleftrightarrow> (\<exists>n m. td_nodes s i = Some n \<and> c \<in> set (td_children n) \<and> td_nodes s c = Some m \<and> td_name m = nm)"

definition child_of :: "tmpfs \<Rightarrow> nat \<Rightarrow> bytes \<Rightarrow> nat option" where
  "child_of s i nm = (case td_nodes s i of None \<Rightarrow> None
     | Some n \<Rightarrow> find (\<lambda>c. map_option td_name (td_nodes s c) = Some nm) (td_children n))"

primrec resolve :: "tmpfs \<Rightarrow> nat \<Rightarrow> bytes list \<Rightarrow> nat option" where
  "resolve s i [] = Some i"
| "resolve s i (nm # ns) = (case child_of s i nm of None \<Rightarrow> None | Some c \<Rightarrow> resolve s c ns)"

definition view :: "tmpfs \<Rightarrow> bytes list \<Rightarrow> nat option" where
  "view s = resolve s 0"

definition name_ok :: "bytes \<Rightarrow> bool" where
  "name_ok nm \<longleftrightarrow> nm \<noteq> [] \<and> slash \<notin> set nm \<and> length nm \<le> FS_NAME_MAX"

definition tmpfs_wf :: "tmpfs \<Rightarrow> bool" where
  "tmpfs_wf s \<longleftrightarrow>
     (\<exists>r. td_nodes s 0 = Some r \<and> td_type r = DENTRY_DIR \<and> td_parent r = None) \<and>
     (\<forall>i n. td_nodes s i = Some n \<longrightarrow>
        i < td_next s \<and> distinct (td_children n) \<and>
        (\<forall>c \<in> set (td_children n). \<exists>m. td_nodes s c = Some m \<and> td_parent m = Some i \<and> name_ok (td_name m)) \<and>
        inj_on (\<lambda>c. map_option td_name (td_nodes s c)) (set (td_children n)))"

function components :: "bytes \<Rightarrow> bytes list" where
  "components p =
     (let p = skip_slashes p in
      if p = [] then [] else component p # components (drop (length (component p)) p))"
  by pat_completeness auto
termination by (relation "measure length") (simp_all add: skip_component_less [simplified])

declare components.simps [simp del]

lemma wf_root: "tmpfs_wf s \<Longrightarrow> \<exists>r. td_nodes s 0 = Some r \<and> td_type r = DENTRY_DIR \<and> td_parent r = None"
  by (simp add: tmpfs_wf_def)

lemma wf_bound: "tmpfs_wf s \<Longrightarrow> td_nodes s i = Some n \<Longrightarrow> i < td_next s"
  by (simp add: tmpfs_wf_def)

lemma wf_fresh: "tmpfs_wf s \<Longrightarrow> td_nodes s (td_next s) = None"
  using wf_bound [of s "td_next s"] by fastforce

lemma wf_childD:
  "tmpfs_wf s \<Longrightarrow> td_nodes s i = Some n \<Longrightarrow> c \<in> set (td_children n) \<Longrightarrow>
    \<exists>m. td_nodes s c = Some m \<and> td_parent m = Some i \<and> name_ok (td_name m)"
  unfolding tmpfs_wf_def by blast

lemma edge_parent: "tmpfs_wf s \<Longrightarrow> edge s i nm c \<Longrightarrow> \<exists>m. td_nodes s c = Some m \<and> td_parent m = Some i \<and> td_name m = nm \<and> name_ok nm"
  unfolding edge_def using wf_childD by fastforce

lemma edge_unique_parent: "tmpfs_wf s \<Longrightarrow> edge s i nm c \<Longrightarrow> edge s j nm' c \<Longrightarrow> i = j \<and> nm = nm'"
  using edge_parent [of s i nm c] edge_parent [of s j nm' c] by auto

lemma edge_not_root: "tmpfs_wf s \<Longrightarrow> \<not> edge s i nm 0"
  using edge_parent [of s i nm 0] wf_root [of s] by auto

lemma wf_inj:
  "tmpfs_wf s \<Longrightarrow> td_nodes s i = Some n \<Longrightarrow> inj_on (\<lambda>c. map_option td_name (td_nodes s c)) (set (td_children n))"
  unfolding tmpfs_wf_def by blast

lemma edge_functional:
  assumes "tmpfs_wf s" and "edge s i nm c" and "edge s i nm d"
  shows "c = d"
proof -
  obtain n where n: "td_nodes s i = Some n" using assms(2) by (auto simp: edge_def)
  then have "c \<in> set (td_children n)" "d \<in> set (td_children n)" "map_option td_name (td_nodes s c) = map_option td_name (td_nodes s d)"
    using assms(2,3) by (auto simp: edge_def)
  then show ?thesis using inj_onD [OF wf_inj [OF assms(1) n]] by blast
qed

lemma find_Some_unique:
  "find P xs = Some x \<Longrightarrow> x \<in> set xs \<and> P x"
  by (auto simp: find_Some_iff)

lemma child_of_edge:
  assumes "tmpfs_wf s"
  shows "child_of s i nm = Some c \<longleftrightarrow> edge s i nm c"
proof
  assume "child_of s i nm = Some c"
  then show "edge s i nm c"
    by (auto simp: child_of_def edge_def dest!: find_Some_unique split: option.splits)
next
  assume e: "edge s i nm c"
  then obtain n where n: "td_nodes s i = Some n" "c \<in> set (td_children n)" "map_option td_name (td_nodes s c) = Some nm"
    by (auto simp: edge_def)
  then obtain d where d: "find (\<lambda>c. map_option td_name (td_nodes s c) = Some nm) (td_children n) = Some d"
    by (metis (mono_tags, lifting) find_None_iff not_None_eq)
  then have "edge s i nm d" using n(1) by (auto simp: edge_def dest!: find_Some_unique)
  then show "child_of s i nm = Some c"
    using edge_functional [OF assms e] d n(1) by (simp add: child_of_def)
qed

lemma find_child_eq:
  "\<forall>c \<in> set cs. td_nodes s c \<noteq> None \<Longrightarrow>
    find_child s cs nm = Some (find (\<lambda>c. map_option td_name (td_nodes s c) = Some nm) cs)"
  by (induction cs) auto

lemma find_child_child_of:
  "tmpfs_wf s \<Longrightarrow> td_nodes s i = Some n \<Longrightarrow> find_child s (td_children n) nm = Some (child_of s i nm)"
  using wf_childD [of s i n] by (subst find_child_eq) (fastforce simp: child_of_def)+

section \<open>Resolving names\<close>

lemma resolve_append: "resolve s i (ns @ ms) = (case resolve s i ns of None \<Rightarrow> None | Some j \<Rightarrow> resolve s j ms)"
  by (induction ns arbitrary: i) (auto split: option.splits)

lemma resolve_snoc:
  "tmpfs_wf s \<Longrightarrow> resolve s i (ns @ [nm]) = Some c \<longleftrightarrow> (\<exists>j. resolve s i ns = Some j \<and> edge s j nm c)"
  using child_of_edge by (fastforce simp: resolve_append split: option.splits)

lemma resolve_live:
  assumes "tmpfs_wf s" and "resolve s i ns = Some j" and "td_nodes s i \<noteq> None"
  shows "td_nodes s j \<noteq> None"
  using assms by (induction ns arbitrary: i) (auto simp: child_of_edge edge_def split: option.splits)

lemma view_live: "tmpfs_wf s \<Longrightarrow> view s ns = Some j \<Longrightarrow> \<exists>n. td_nodes s j = Some n"
  using resolve_live [of s 0 ns j] wf_root [of s] by (auto simp: view_def)

lemma view_inj:
  assumes "tmpfs_wf s"
  shows "view s ns = Some j \<Longrightarrow> view s ms = Some j \<Longrightarrow> ns = ms"
proof (induction ns arbitrary: j ms rule: rev_induct)
  case Nil
  show ?case
  proof (cases ms rule: rev_cases)
    case (snoc ms' nm)
    then show ?thesis using Nil assms edge_not_root by (auto simp: view_def resolve_snoc)
  qed simp
next
  case (snoc nm ns)
  from snoc.prems(1) obtain i where i: "view s ns = Some i" "edge s i nm j"
    using assms by (auto simp: view_def resolve_snoc)
  show ?case
  proof (cases ms rule: rev_cases)
    case Nil
    then show ?thesis using snoc.prems i assms edge_not_root by (auto simp: view_def)
  next
    case (snoc ms' nm')
    then obtain k where k: "view s ms' = Some k" "edge s k nm' j"
      using snoc.prems(2) assms by (auto simp: view_def resolve_snoc)
    then show ?thesis using edge_unique_parent [OF assms i(2) k(2)] snoc.IH [OF i(1), of ms'] snoc by simp
  qed
qed

lemma resolve_mono:
  assumes "tmpfs_wf s" and "tmpfs_wf s'" and "\<And>i nm c. edge s i nm c \<Longrightarrow> edge s' i nm c"
  shows "resolve s i ns = Some j \<Longrightarrow> resolve s' i ns = Some j"
proof (induction ns arbitrary: i)
  case (Cons nm ns)
  then obtain c where "edge s i nm c" "resolve s c ns = Some j"
    using assms(1) by (auto simp: child_of_edge split: option.splits)
  then show ?case using assms(2,3) Cons.IH by (auto simp: child_of_edge split: option.splits) (metis child_of_edge option.distinct(1) option.inject)+
qed simp

text \<open>The walk of \<open>tmpfs_lookup\<close> is resolution of the components; a name longer than any stored name is not found either.\<close>

lemma child_of_name_ok: "tmpfs_wf s \<Longrightarrow> child_of s i nm = Some c \<Longrightarrow> name_ok nm"
  using child_of_edge edge_parent by blast

lemma components_Nil: "skip_slashes p = [] \<Longrightarrow> components p = []"
  by (subst components.simps) simp

lemma components_Cons:
  "skip_slashes p \<noteq> [] \<Longrightarrow>
    components p = component (skip_slashes p) # components (drop (length (component (skip_slashes p))) (skip_slashes p))"
  by (subst components.simps) (simp add: Let_def)

lemma lookup_loop_resolve:
  assumes "tmpfs_wf s"
  shows "td_nodes s cur \<noteq> None \<Longrightarrow> tmpfs_lookup_loop s cur p = Some (resolve s cur (components p))"
proof (induction p arbitrary: cur rule: components.induct)
  case (1 p)
  let ?q = "skip_slashes p" and ?nm = "component (skip_slashes p)"
  from 1 obtain n where n: "td_nodes s cur = Some n" by auto
  note fc = find_child_child_of [OF assms n, of ?nm]
  consider "?q = []" | "?q \<noteq> []" "child_of s cur ?nm = None" | c where "?q \<noteq> []" "child_of s cur ?nm = Some c" by fastforce
  then show ?case
  proof cases
    case (3 c)
    then have "length ?nm \<le> FS_NAME_MAX" "td_nodes s c \<noteq> None"
      using child_of_name_ok [OF assms 3(2)] child_of_edge [OF assms] by (auto simp: name_ok_def edge_def)
    then show ?thesis
      using 1(1) [OF refl 3(1)] 3 n fc by (subst tmpfs_lookup_loop.simps) (simp add: Let_def components_Cons)
  qed (use n fc in \<open>subst tmpfs_lookup_loop.simps; simp add: Let_def components_Cons components_Nil\<close>)+
qed

lemma tmpfs_lookup_view:
  assumes "tmpfs_wf s" and "p \<noteq> []" and "hd p = slash"
  shows "tmpfs_lookup s p = Some (view s (components p))"
proof -
  have "skip_slashes p = skip_slashes (tl p)" using assms(2,3) by (cases p) (simp_all add: skip_slashes_def)
  then have c: "components p = components (tl p)" by (metis components_Nil components_Cons)
  show ?thesis
    using assms wf_root [OF assms(1)] lookup_loop_resolve [OF assms(1), of 0 "tl p"] unfolding c
    by (cases "tl p") (auto simp: tmpfs_lookup_def view_def components_Nil skip_slashes_def Nitpick.size_list_simp(2))
qed

section \<open>Adding a node\<close>

definition new_node :: "bytes \<Rightarrow> dentry_type \<Rightarrow> nat \<Rightarrow> tmpfs_dentry" where
  "new_node name type parent =
     \<lparr>td_name = name, td_type = type, td_size = 0, td_parent = Some parent, td_children = [], td_data = None\<rparr>"

definition attach :: "tmpfs \<Rightarrow> nat \<Rightarrow> tmpfs_dentry \<Rightarrow> bytes \<Rightarrow> dentry_type \<Rightarrow> kheap \<Rightarrow> tmpfs" where
  "attach s parent n name type h =
     s\<lparr>td_nodes := (td_nodes s)(td_next s \<mapsto> new_node name type parent,
         parent \<mapsto> td_children_update (\<lambda>cs. cs @ [td_next s]) n),
       td_next := Suc (td_next s), td_heap := h\<rparr>"

lemma kh_alloc_pos: "kh_alloc h n = Some (ok, h') \<Longrightarrow> \<not> ok \<Longrightarrow> kh_free h' = None"
  by (auto simp: kh_alloc_def kh_free_def split: if_splits)

lemma attach_upd_node:
  assumes "td_nodes s parent = Some n" and "parent < td_next s"
  shows "upd_node parent (td_children_update (\<lambda>cs. cs @ [td_next s]))
      (s\<lparr>td_heap := h, td_nodes := (td_nodes s)(td_next s \<mapsto> new_node name type parent), td_next := Suc (td_next s)\<rparr>) =
    Some (attach s parent n name type h)"
  using assms by (simp add: upd_node_def attach_def)

lemma alloc_dentry_unfold:
  assumes "td_nodes s parent = Some n" and "tmpfs_wf s"
  shows "tmpfs_alloc_dentry s parent name type = do {
     (ok, h) \<leftarrow> kh_alloc (td_heap s) 72;
     if \<not> ok then Some (None, s\<lparr>td_heap := h\<rparr>)
     else do {
       (ok, h) \<leftarrow> kh_alloc h (length name + 1);
       if \<not> ok then None
       else Some (Some (td_next s), attach s parent n name type h) } }"
  unfolding tmpfs_alloc_dentry_def
  using attach_upd_node [OF assms(1) wf_bound [OF assms(2,1)]]
  by (auto simp: Let_def new_node_def kh_alloc_pos intro!: Option.bind_cong [OF refl] split: prod.splits)

lemma alloc_dentry_cases:
  assumes "tmpfs_alloc_dentry s parent name type = Some (r, s')" and "td_nodes s parent = Some n" and "tmpfs_wf s"
  shows "(r = None \<and> (\<exists>h. s' = s\<lparr>td_heap := h\<rparr>)) \<or>
    (r = Some (td_next s) \<and> (\<exists>h. s' = attach s parent n name type h))"
  using assms(1) unfolding alloc_dentry_unfold [OF assms(2,3)]
  by (clarsimp split: Option.bind_splits if_splits prod.splits) blast+

lemma alloc_dentry_roomy:
  assumes "roomy (td_heap s)" and "td_nodes s parent = Some n" and "tmpfs_wf s"
  shows "\<exists>h. tmpfs_alloc_dentry s parent name type = Some (Some (td_next s), attach s parent n name type h) \<and> roomy h"
proof -
  obtain h1 where h1: "kh_alloc (td_heap s) 72 = Some (True, h1)" "roomy h1"
    using kh_alloc_roomy [OF assms(1), of 72] by auto
  obtain h2 where "kh_alloc h1 (length name + 1) = Some (True, h2)" "roomy h2"
    using kh_alloc_roomy [OF h1(2), of "length name + 1"] by auto
  then show ?thesis using h1 unfolding alloc_dentry_unfold [OF assms(2,3)] by auto
qed

lemma attach_edge:
  assumes "tmpfs_wf s" and "td_nodes s parent = Some n"
  shows "edge (attach s parent n name type h) i nm c \<longleftrightarrow> edge s i nm c \<or> (i = parent \<and> nm = name \<and> c = td_next s)"
proof -
  have "parent \<noteq> td_next s" using wf_bound [OF assms] by simp
  moreover have "td_next s \<notin> set (td_children m)" if "td_nodes s j = Some m" for j m
    using wf_childD [OF assms(1) that] wf_fresh [OF assms(1)] by fastforce
  ultimately show ?thesis
    using assms(2) wf_fresh [OF assms(1)] by (auto simp: edge_def attach_def new_node_def)
qed

lemma attach_nodes:
  "parent \<noteq> td_next s \<Longrightarrow> td_nodes (attach s parent n name type h) i =
    (if i = td_next s then Some (new_node name type parent)
     else if i = parent then Some (td_children_update (\<lambda>cs. cs @ [td_next s]) n) else td_nodes s i)"
  by (simp add: attach_def)

lemma attach_wf:
  assumes "tmpfs_wf s" and "td_nodes s parent = Some n" and "child_of s parent name = None" and "name_ok name"
  shows "tmpfs_wf (attach s parent n name type h)"
proof -
  let ?t = "attach s parent n name type h" and ?f = "td_next s"
  have ne: "parent \<noteq> ?f" and z: "0 \<noteq> ?f" using wf_bound [OF assms(1)] assms(2) wf_root [OF assms(1)] by fastforce+
  note nodes = attach_nodes [OF ne, of n name type h]
  have old: "c \<noteq> ?f" if "td_nodes s j = Some m" "c \<in> set (td_children m)" for j m c
    using wf_childD [OF assms(1) that] wf_fresh [OF assms(1)] by fastforce
  have name: "map_option td_name (td_nodes ?t c) = map_option td_name (td_nodes s c)" if "c \<noteq> ?f" for c
    using that assms(2) by (simp add: nodes)
  have noname: "map_option td_name (td_nodes s c) \<noteq> Some name" if "c \<in> set (td_children n)" for c
    using assms(2,3) that by (auto simp: child_of_def find_None_iff)
  have child: "\<exists>m'. td_nodes ?t c = Some m' \<and> td_parent m' = Some j \<and> name_ok (td_name m')"
    if "td_nodes s j = Some m" "c \<in> set (td_children m)" for j m c
    using wf_childD [OF assms(1) that] old [OF that] assms(2) by (auto simp: nodes)
  have "\<exists>r. td_nodes ?t 0 = Some r \<and> td_type r = DENTRY_DIR \<and> td_parent r = None"
    using wf_root [OF assms(1)] z assms(2) by (auto simp: nodes)
  moreover have "i < td_next ?t \<and> distinct (td_children m) \<and>
      (\<forall>c \<in> set (td_children m). \<exists>m'. td_nodes ?t c = Some m' \<and> td_parent m' = Some i \<and> name_ok (td_name m')) \<and>
      inj_on (\<lambda>c. map_option td_name (td_nodes ?t c)) (set (td_children m))" if i: "td_nodes ?t i = Some m" for i m
  proof -
    consider "i = ?f" "m = new_node name type parent"
      | "i = parent" "m = td_children_update (\<lambda>cs. cs @ [?f]) n" | "i \<noteq> parent" "td_nodes s i = Some m"
      using i ne unfolding nodes by (cases "i = ?f"; cases "i = parent") simp_all
    then show ?thesis
    proof cases
      case 1
      then show ?thesis by (simp add: attach_def new_node_def)
    next
      case 2
      have inj: "inj_on (\<lambda>c. map_option td_name (td_nodes ?t c)) (set (td_children n))"
        using wf_inj [OF assms(1,2)] old [OF assms(2)] name by (auto simp: inj_on_def)
      have "distinct (td_children n)" using assms(1,2) by (auto simp: tmpfs_wf_def)
      moreover have "\<exists>m'. td_nodes ?t ?f = Some m' \<and> td_parent m' = Some parent \<and> name_ok (td_name m')"
        using assms(4) by (simp add: nodes new_node_def)
      moreover have fname: "map_option td_name (td_nodes ?t ?f) = Some name" by (simp add: nodes new_node_def)
      have "map_option td_name (td_nodes ?t ?f) \<notin> (\<lambda>c. map_option td_name (td_nodes ?t c)) ` (set (td_children n) - {?f})"
      proof
        assume "map_option td_name (td_nodes ?t ?f) \<in> (\<lambda>c. map_option td_name (td_nodes ?t c)) ` (set (td_children n) - {?f})"
        then obtain c where "c \<in> set (td_children n)" "c \<noteq> ?f" "map_option td_name (td_nodes ?t c) = Some name"
          by (metis (no_types, lifting) DiffE imageE singletonI fname)
        then show False using name noname by metis
      qed
      moreover have "parent < td_next ?t" using wf_bound [OF assms(1,2)] by (simp add: attach_def)
      moreover have "?f \<notin> set (td_children n)" using old [OF assms(2)] by blast
      ultimately show ?thesis
        using inj child [OF assms(2)] unfolding 2 by simp
    next
      case 3
      have inj: "inj_on (\<lambda>c. map_option td_name (td_nodes ?t c)) (set (td_children m))"
        using wf_inj [OF assms(1) 3(2)] old [OF 3(2)] name by (auto simp: inj_on_def)
      moreover have "i < td_next ?t" using wf_bound [OF assms(1) 3(2)] by (simp add: attach_def)
      moreover have "distinct (td_children m)" using assms(1) 3(2) by (simp add: tmpfs_wf_def)
      ultimately show ?thesis using child [OF 3(2)] by blast
    qed
  qed
  ultimately show ?thesis unfolding tmpfs_wf_def by blast
qed

section \<open>Creating\<close>

text \<open>
  \<open>grows s s' cur ns\<close>: \<open>s'\<close> keeps all nodes of \<open>s\<close> (with new children at most), and its new edges are on the path \<open>ns\<close> from \<open>cur\<close> and lead to new nodes.
\<close>

definition same_meta :: "tmpfs_dentry \<Rightarrow> tmpfs_dentry \<Rightarrow> bool" where
  "same_meta n m \<longleftrightarrow> td_name m = td_name n \<and> td_type m = td_type n \<and> td_size m = td_size n \<and>
     td_parent m = td_parent n \<and> td_data m = td_data n"

definition grows :: "tmpfs \<Rightarrow> tmpfs \<Rightarrow> nat \<Rightarrow> bytes list \<Rightarrow> bool" where
  "grows s s' cur ns \<longleftrightarrow> tmpfs_wf s' \<and>
     (\<forall>i n. td_nodes s i = Some n \<longrightarrow> (\<exists>m. td_nodes s' i = Some m \<and> same_meta n m)) \<and>
     (\<forall>i nm c. edge s i nm c \<longrightarrow> edge s' i nm c) \<and>
     (\<forall>i nm c. edge s' i nm c \<and> \<not> edge s i nm c \<longrightarrow> td_nodes s c = None \<and>
        (\<exists>k < length ns. resolve s' cur (take k ns) = Some i \<and> nm = ns ! k))"

lemma edge_heap [simp]: "edge (s\<lparr>td_heap := h\<rparr>) = edge s"
  by (intro ext) (simp add: edge_def)

lemma wf_heap [simp]: "tmpfs_wf (s\<lparr>td_heap := h\<rparr>) = tmpfs_wf s"
  by (simp add: tmpfs_wf_def)

lemma grows_heap: "tmpfs_wf s \<Longrightarrow> grows s (s\<lparr>td_heap := h\<rparr>) cur ns"
  by (simp add: grows_def same_meta_def)

lemma grows_same: "tmpfs_wf s \<Longrightarrow> grows s s cur ns"
  by (simp add: grows_def same_meta_def)

lemma grows_resolve:
  "tmpfs_wf s \<Longrightarrow> grows s s' cur ns \<Longrightarrow> resolve s i ms = Some j \<Longrightarrow> resolve s' i ms = Some j"
  using resolve_mono [of s s' i ms j] by (simp add: grows_def)

lemma growsD:
  assumes "grows s s' cur ns"
  shows "tmpfs_wf s'" and "td_nodes s i = Some n \<Longrightarrow> \<exists>m. td_nodes s' i = Some m \<and> same_meta n m"
    and "edge s i nm c \<Longrightarrow> edge s' i nm c"
    and "edge s' i nm c \<Longrightarrow> \<not> edge s i nm c \<Longrightarrow> td_nodes s c = None \<and> (\<exists>k < length ns. resolve s' cur (take k ns) = Some i \<and> nm = ns ! k)"
  using assms unfolding grows_def by blast+

lemma grows_attach:
  assumes "tmpfs_wf s" and "td_nodes s cur = Some n" and "child_of s cur nm = None" and "name_ok nm"
  shows "grows s (attach s cur n nm type h) cur (nm # ns)"
proof -
  let ?t = "attach s cur n nm type h"
  have ne: "cur \<noteq> td_next s" using wf_bound [OF assms(1,2)] by simp
  have "\<exists>m'. td_nodes ?t i = Some m' \<and> same_meta m m'" if i: "td_nodes s i = Some m" for i m
    using i assms(2) wf_bound [OF assms(1) i] unfolding attach_nodes [OF ne]
    by (cases "i = cur") (simp_all add: same_meta_def)
  moreover have "\<exists>k < length (nm # ns). resolve ?t cur (take k (nm # ns)) = Some cur \<and> nm = (nm # ns) ! k"
    by (rule exI [of _ 0]) simp
  ultimately show ?thesis
    using attach_wf [OF assms] wf_fresh [OF assms(1)] unfolding grows_def attach_edge [OF assms(1,2)] by blast
qed

lemma grows_step:
  assumes "grows s s1 cur [nm]" and "edge s1 cur nm c" and "grows s1 s2 c ns"
  shows "grows s s2 cur (nm # ns)" and "resolve s2 cur (nm # ms) = resolve s2 c ms"
proof -
  note w = growsD(1) [OF assms(1)] growsD(1) [OF assms(3)]
  have up: "resolve s2 cur (nm # ms) = resolve s2 c ms" for ms
    using growsD(3) [OF assms(3,2)] child_of_edge [OF w(2), of cur nm c] by simp
  show "resolve s2 cur (nm # ms) = resolve s2 c ms" by (rule up)
  have "td_nodes s d = None \<and> (\<exists>k < length (nm # ns). resolve s2 cur (take k (nm # ns)) = Some i \<and> m = (nm # ns) ! k)"
    if e: "edge s2 i m d" "\<not> edge s i m d" for i m d
  proof (cases "edge s1 i m d")
    case True
    then have "td_nodes s d = None" "i = cur" "m = nm" using growsD(4) [OF assms(1) True e(2)] by auto
    then show ?thesis by (intro conjI exI [of _ "0 :: nat"]) simp_all
  next
    case False
    then obtain k where k: "k < length ns" "resolve s2 c (take k ns) = Some i" "m = ns ! k" "td_nodes s1 d = None"
      using growsD(4) [OF assms(3) e(1)] by blast
    then have "td_nodes s d = None" using growsD(2) [OF assms(1), of d] by fastforce
    then show ?thesis using k up [of "take k ns"] by (intro conjI exI [of _ "Suc k"]) simp_all
  qed
  moreover have "\<exists>m. td_nodes s2 i = Some m \<and> same_meta n m" if "td_nodes s i = Some n" for i n
    using growsD(2) [OF assms(1) that] growsD(2) [OF assms(3)] by (fastforce simp: same_meta_def)
  moreover have "edge s i m d \<Longrightarrow> edge s2 i m d" for i m d using growsD(3) assms(1,3) by blast
  ultimately show "grows s s2 cur (nm # ns)" unfolding grows_def using w(2) by blast
qed

lemma component_ok:
  assumes "skip_slashes p \<noteq> []" and "\<not> length (component (skip_slashes p)) > FS_NAME_MAX"
  shows "name_ok (component (skip_slashes p))"
proof -
  have "hd (skip_slashes p) \<noteq> slash" using assms hd_dropWhile [of "\<lambda>c. c = slash" p] by (simp add: skip_slashes_def)
  then have "component (skip_slashes p) \<noteq> []" using assms by (cases "skip_slashes p") (auto simp: component_def)
  then show ?thesis using assms(2) by (auto simp: name_ok_def component_def dest: set_takeWhileD)
qed

definition is_file :: "tmpfs \<Rightarrow> nat \<Rightarrow> bool" where
  "is_file s i \<longleftrightarrow> (\<exists>m. td_nodes s i = Some m \<and> td_type m = DENTRY_FILE)"

definition creat_result :: "tmpfs \<Rightarrow> nat \<Rightarrow> bytes \<Rightarrow> bool" where
  "creat_result s cur p \<longleftrightarrow>
     (\<exists>i. resolve s cur (components p) = Some i \<and> (p \<noteq> [] \<and> last p \<noteq> slash \<longrightarrow> is_file s i))"

lemma rest_of_component:
  "drop (length (component q)) q = dropWhile (\<lambda>c. c \<noteq> slash) q"
  by (simp add: component_def dropWhile_eq_drop)

lemma last_dropWhile_ne: "dropWhile P xs \<noteq> [] \<Longrightarrow> last (dropWhile P xs) = last xs"
  by (metis last_appendR takeWhile_dropWhile_id)

lemma creat_result_step:
  assumes "skip_slashes p \<noteq> []" and "grows s1 s2 d ns" and "td_nodes s1 d = Some m"
    and "\<not> has_slash (skip_slashes p) \<longrightarrow> td_type m = DENTRY_FILE"
    and "creat_result s2 d (drop (length (component (skip_slashes p))) (skip_slashes p))"
    and "resolve s2 cur (components p) = resolve s2 d (components (drop (length (component (skip_slashes p))) (skip_slashes p)))"
  shows "creat_result s2 cur p"
proof -
  let ?q = "skip_slashes p" and ?rest = "drop (length (component (skip_slashes p))) (skip_slashes p)"
  have "last p = last ?q" using assms(1) unfolding skip_slashes_def by (simp add: last_dropWhile_ne)
  moreover have ne: "?rest \<noteq> []" if "has_slash ?q"
    using that unfolding rest_of_component has_slash_def by auto
  moreover have "last ?rest = last ?q" if "has_slash ?q"
    using ne [OF that] unfolding rest_of_component by (rule last_dropWhile_ne)
  moreover have "?rest = []" if "\<not> has_slash ?q"
    using that unfolding rest_of_component has_slash_def by (auto simp: dropWhile_eq_Nil_conv)
  moreover have "is_file s2 d" if "\<not> has_slash ?q"
    using that assms(4) growsD(2) [OF assms(2,3)] by (auto simp: is_file_def same_meta_def)
  ultimately show ?thesis
    using assms(5,6) by (cases "has_slash ?q") (auto simp: creat_result_def components_Nil skip_slashes_def)
qed

text \<open>What the walk of \<open>creat\<close> does wherever it stops: it only adds nodes along the path.\<close>

lemma creat_loop_grows:
  "tmpfs_wf s \<Longrightarrow> td_nodes s cur = Some n \<Longrightarrow> creat_loop s cur p = Some (r, s') \<Longrightarrow>
    grows s s' cur (components p) \<and> (r = TMPFS_OK \<longrightarrow> creat_result s' cur p)"
proof (induction p arbitrary: s cur n rule: components.induct)
  case (1 p)
  let ?q = "skip_slashes p" and ?nm = "component (skip_slashes p)"
  let ?rest = "drop (length ?nm) ?q"
  note run = 1(4) [unfolded creat_loop.simps [of s cur p] Let_def]
  note fc = find_child_child_of [OF 1(2,3), of ?nm]
  consider "?q = []" | "?q \<noteq> []" "length ?nm > FS_NAME_MAX"
    | "?q \<noteq> []" "\<not> length ?nm > FS_NAME_MAX" "child_of s cur ?nm = None"
    | c where "?q \<noteq> []" "\<not> length ?nm > FS_NAME_MAX" "child_of s cur ?nm = Some c" by fastforce
  then show ?case
  proof cases
    case 1
    moreover from this have "p \<noteq> [] \<longrightarrow> last p = slash" by (auto simp: skip_slashes_def)
    ultimately show ?thesis using run \<open>tmpfs_wf s\<close> by (auto simp: components_Nil grows_same creat_result_def)
  next
    case 2
    then show ?thesis using run \<open>tmpfs_wf s\<close> by (simp add: grows_same tmpfs_errors)
  next
    case 3
    let ?ty = "if has_slash ?q then DENTRY_DIR else DENTRY_FILE"
    obtain r1 s1 where a: "tmpfs_alloc_dentry s cur ?nm ?ty = Some (r1, s1)"
      and b: "(case r1 of None \<Rightarrow> Some (TMPFS_ERR_NOMEM, s1) | Some child \<Rightarrow> creat_loop s1 child ?rest) = Some (r, s')"
      using run 3 fc 1(3) by (auto split: Option.bind_splits)
    show ?thesis
    proof (cases r1)
      case None
      then show ?thesis using alloc_dentry_cases [OF a 1(3,2)] b 1(2) by (auto simp: grows_heap tmpfs_errors)
    next
      case (Some d)
      obtain h where s1: "s1 = attach s cur n ?nm ?ty h" "d = td_next s" using alloc_dentry_cases [OF a 1(3,2)] Some by auto
      have g: "grows s s1 cur [?nm]" unfolding s1 by (rule grows_attach [OF 1(2,3) 3(3) component_ok [OF 3(1,2)]])
      have e: "edge s1 cur ?nm d" unfolding s1 attach_edge [OF 1(2,3)] by simp
      have d: "td_nodes s1 d = Some (new_node ?nm ?ty cur)" using wf_bound [OF 1(2,3)] unfolding s1 by (simp add: attach_nodes)
      have "creat_loop s1 d ?rest = Some (r, s')" using b Some by simp
      note ih = 1(1) [OF refl 3(1) growsD(1) [OF g] d this]
      note st = grows_step [OF g e conjunct1 [OF ih]]
      show ?thesis using ih st creat_result_step [OF 3(1) conjunct1 [OF ih] d, of cur]
        by (simp add: components_Cons [OF 3(1)] new_node_def del: resolve.simps)
    qed
  next
    case (4 c)
    then have e: "edge s cur ?nm c" using child_of_edge [OF 1(2)] by simp
    then obtain m where m: "td_nodes s c = Some m" by (auto simp: edge_def)
    show ?thesis
    proof (cases "\<not> has_slash ?q \<and> td_type m = DENTRY_DIR")
      case True
      then show ?thesis using run 4 fc 1(3) m \<open>tmpfs_wf s\<close> by (auto simp: grows_same tmpfs_errors)
    next
      case False
      then have "creat_loop s c ?rest = Some (r, s')" using run 4 fc 1(3) m by auto
      note ih = 1(1) [OF refl 4(1) 1(2) m this]
      note st = grows_step [OF grows_same [OF 1(2)] e conjunct1 [OF ih]]
      have "\<not> has_slash ?q \<longrightarrow> td_type m = DENTRY_FILE" using False by (cases "td_type m") auto
      then show ?thesis using ih st creat_result_step [OF 4(1) conjunct1 [OF ih] m, of cur]
        by (simp add: components_Cons [OF 4(1)] del: resolve.simps)
    qed
  qed
qed

text \<open>With memory for every request the walk returns; it fails only on a name that is too long or on a directory in the last place.\<close>

lemma creat_loop_returns:
  "tmpfs_wf s \<Longrightarrow> td_nodes s cur = Some n \<Longrightarrow> roomy (td_heap s) \<Longrightarrow>
    \<exists>r s'. creat_loop s cur p = Some (r, s') \<and> r \<in> {TMPFS_OK, TMPFS_ERR_TOOLONG, TMPFS_ERR_ISDIR} \<and>
      (r = TMPFS_ERR_TOOLONG \<longrightarrow> (\<exists>nm \<in> set (components p). length nm > FS_NAME_MAX)) \<and>
      (r = TMPFS_ERR_ISDIR \<longrightarrow> (\<exists>i m. resolve s cur (components p) = Some i \<and> td_nodes s i = Some m \<and> td_type m = DENTRY_DIR))"
proof (induction p arbitrary: s cur n rule: components.induct)
  case (1 p)
  let ?q = "skip_slashes p" and ?nm = "component (skip_slashes p)"
  let ?rest = "drop (length ?nm) ?q"
  note step = creat_loop.simps [of s cur p, unfolded Let_def]
  note fc = find_child_child_of [OF 1(2,3), of ?nm]
  consider "?q = []" | "?q \<noteq> []" "length ?nm > FS_NAME_MAX"
    | "?q \<noteq> []" "\<not> length ?nm > FS_NAME_MAX" "child_of s cur ?nm = None"
    | c where "?q \<noteq> []" "\<not> length ?nm > FS_NAME_MAX" "child_of s cur ?nm = Some c" by fastforce
  then show ?case
  proof cases
    case 3
    let ?ty = "if has_slash ?q then DENTRY_DIR else DENTRY_FILE"
    obtain h where a: "tmpfs_alloc_dentry s cur ?nm ?ty = Some (Some (td_next s), attach s cur n ?nm ?ty h)" "roomy h"
      using alloc_dentry_roomy [OF 1(4,3,2)] by blast
    let ?t = "attach s cur n ?nm ?ty h" and ?d = "td_next s"
    have w: "tmpfs_wf ?t" by (rule attach_wf [OF 1(2,3) 3(3) component_ok [OF 3(1,2)]])
    have d: "td_nodes ?t ?d = Some (new_node ?nm ?ty cur)" using wf_bound [OF 1(2,3)] by (simp add: attach_nodes)
    have "roomy (td_heap ?t)" using a(2) by (simp add: attach_def)
    note ih = 1(1) [OF refl 3(1) w d this]
    have fresh: "child_of ?t ?d nm = None" for nm
    proof (rule ccontr)
      assume "child_of ?t ?d nm \<noteq> None"
      then obtain c where "edge ?t ?d nm c" using child_of_edge [OF w] by auto
      then have "edge s ?d nm c" using wf_bound [OF 1(2,3)] by (simp add: attach_edge [OF 1(2,3)])
      then show False using wf_fresh [OF 1(2)] by (simp add: edge_def)
    qed
    have run: "creat_loop s cur p = creat_loop ?t ?d ?rest" using 3 fc 1(3) a(1) by (simp add: step)
    have "creat_loop ?t ?d ?rest = Some (TMPFS_OK, ?t)" if "resolve ?t ?d (components ?rest) = Some i" for i
    proof -
      have "components ?rest = []" using that fresh by (cases "components ?rest") auto
      then have "skip_slashes ?rest = []" using components_Cons [of ?rest] by auto
      then show ?thesis by (subst creat_loop.simps) simp
    qed
    then show ?thesis using ih run by (fastforce simp: components_Cons [OF 3(1)] tmpfs_errors)
  next
    case (4 c)
    then have e: "edge s cur ?nm c" using child_of_edge [OF 1(2)] by simp
    then obtain m where m: "td_nodes s c = Some m" by (auto simp: edge_def)
    have res: "resolve s cur (components p) = resolve s c (components ?rest)"
      using 4(3) by (simp add: components_Cons [OF 4(1)])
    show ?thesis
    proof (cases "\<not> has_slash ?q \<and> td_type m = DENTRY_DIR")
      case True
      then have "?rest = []" by (auto simp: rest_of_component has_slash_def)
      then have "resolve s cur (components p) = Some c" unfolding res by (simp add: components_Nil skip_slashes_def)
      moreover have "creat_loop s cur p = Some (TMPFS_ERR_ISDIR, s)" using True 4 fc 1(3) m by (simp add: step)
      ultimately show ?thesis using m True by (auto simp: tmpfs_errors)
    next
      case False
      then have "creat_loop s cur p = creat_loop s c ?rest" using 4 fc 1(3) m by (simp add: step) blast
      moreover have "set (components ?rest) \<subseteq> set (components p)" by (auto simp: components_Cons [OF 4(1)])
      ultimately show ?thesis using 1(1) [OF refl 4(1) 1(2) m 1(4)] unfolding res by auto
    qed
  qed (use 1(2,3) in \<open>auto simp: step components_Nil components_Cons tmpfs_errors\<close>)
qed

lemma grows_view:
  assumes "tmpfs_wf s" and "grows s s' 0 ns"
  shows "view s' ms = Some j \<Longrightarrow> view s ms = Some j \<or> (prefix ms ns \<and> td_nodes s j = None)"
proof (induction ms arbitrary: j rule: rev_induct)
  case Nil
  then show ?case by (simp add: view_def)
next
  case (snoc nm ms)
  note w' = growsD(1) [OF assms(2)]
  obtain i where i: "view s' ms = Some i" "edge s' i nm j" using snoc.prems w' by (auto simp: view_def resolve_snoc)
  show ?case
  proof (cases "edge s i nm j")
    case True
    then have "view s ms = Some i" using snoc.IH [OF i(1)] by (auto simp: edge_def)
    then show ?thesis using True assms(1) by (auto simp: view_def resolve_snoc)
  next
    case False
    then obtain k where k: "k < length ns" "view s' (take k ns) = Some i" "nm = ns ! k" "td_nodes s j = None"
      using growsD(4) [OF assms(2) i(2) False] by (auto simp: view_def)
    then have "ms @ [nm] = take (Suc k) ns" using view_inj [OF w' i(1) k(2)] by (simp add: take_Suc_conv_app_nth)
    then show ?thesis using k(4) by (metis take_is_prefix)
  qed
qed

lemma bad_path_view:
  assumes "tmpfs_wf s" and "\<not> bad_path p"
  shows "tmpfs_lookup s p = Some (view s (components p))" and "components (tl p) = components p"
proof -
  have p: "p \<noteq> []" "hd p = slash" using assms(2) by (auto simp: bad_path_def)
  then show "tmpfs_lookup s p = Some (view s (components p))" by (rule tmpfs_lookup_view [OF assms(1)])
  have "skip_slashes p = skip_slashes (tl p)" using p by (cases p) (simp_all add: skip_slashes_def)
  then show "components (tl p) = components p" by (metis components_Nil components_Cons)
qed

text \<open>
  C16: Creating a file in tmpfs: with memory available, for every path whose components are at most 255 bytes long and that does not end in a slash
  or name an existing directory, \<open>tmpfs_creat\<close> succeeds; then lookup of the path finds a regular file. Every path that existed leads to the
  same node as before, with the same name, type, size and contents, and the only paths that are new are the path itself and missing
  directories on the way to it, all led to nodes that did not exist before.
\<close>

theorem tmpfs_creat_correct:
  assumes "tmpfs_wf s" and "roomy (td_heap s)" and "\<not> bad_path p" and "last p \<noteq> slash"
    and "\<forall>nm \<in> set (components p). length nm \<le> FS_NAME_MAX"
    and "\<forall>i m. view s (components p) = Some i \<and> td_nodes s i = Some m \<longrightarrow> td_type m = DENTRY_FILE"
  shows "\<exists>s'. tmpfs_creat s p = Some (TMPFS_OK, s') \<and> tmpfs_wf s' \<and>
    (\<exists>i. tmpfs_lookup s' p = Some (Some i) \<and> is_file s' i) \<and>
    (\<forall>ns i n. view s ns = Some i \<and> td_nodes s i = Some n \<longrightarrow>
       view s' ns = Some i \<and> (\<exists>m. td_nodes s' i = Some m \<and> same_meta n m)) \<and>
    (\<forall>ns i. view s' ns = Some i \<and> view s ns = None \<longrightarrow> prefix ns (components p) \<and> td_nodes s i = None)"
proof -
  obtain r0 where root: "td_nodes s 0 = Some r0" using wf_root [OF assms(1)] by blast
  note comp = bad_path_view(2) [OF assms(1,3)]
  obtain r s' where run: "creat_loop s 0 (tl p) = Some (r, s')" and r: "r = TMPFS_OK"
    using creat_loop_returns [OF assms(1) root assms(2), of "tl p"] assms(5,6) unfolding comp view_def
    by (fastforce simp: tmpfs_errors)
  note g = creat_loop_grows [OF assms(1) root run, unfolded comp]
  have g0: "grows s s' 0 (components p)" and res: "creat_result s' 0 (tl p)" using g r by simp_all
  note w' = growsD(1) [OF g0]
  have "tl p \<noteq> []" "last (tl p) = last p" using assms(3,4) by (cases p; auto simp: bad_path_def)+
  then have "\<exists>i. tmpfs_lookup s' p = Some (Some i) \<and> is_file s' i"
    using res assms(4) unfolding bad_path_view(1) [OF w' assms(3)] by (auto simp: creat_result_def comp view_def)
  moreover have "view s' ns = Some i \<and> (\<exists>m. td_nodes s' i = Some m \<and> same_meta n m)"
    if "view s ns = Some i" "td_nodes s i = Some n" for ns i n
    using grows_resolve [OF assms(1) g0] growsD(2) [OF g0 that(2)] that(1) by (simp add: view_def)
  moreover have "prefix ns (components p) \<and> td_nodes s i = None" if "view s' ns = Some i" "view s ns = None" for ns i
    using grows_view [OF assms(1) g0 that(1)] that(2) by simp
  ultimately show ?thesis using run r w' assms(3) by (auto simp: tmpfs_creat_def)
qed

definition ascii :: "string \<Rightarrow> bytes" where
  "ascii cs = map (\<lambda>c. of_char c) cs"

definition sample_tmpfs :: tmpfs where
  "sample_tmpfs = tmpfs_init_state fresh_heap"

lemma tmpfs_init_wf: "tmpfs_wf (tmpfs_init_state h)"
  by (simp add: tmpfs_wf_def tmpfs_init_state_def tmpfs_root_def)

theorem tmpfs_creat_correct_witness:
  "\<exists>s' i. tmpfs_creat sample_tmpfs (ascii ''/a/b'') = Some (TMPFS_OK, s') \<and>
    tmpfs_lookup s' (ascii ''/a/b'') = Some (Some i) \<and> is_file s' i"
proof -
  let ?p = "ascii ''/a/b''"
  have c: "components ?p = [ascii ''a'', ascii ''b'']"
    by (simp add: components.simps ascii_def skip_slashes_def component_def)
  have v: "view sample_tmpfs (components ?p) = None"
    unfolding c by (simp add: view_def child_of_def sample_tmpfs_def tmpfs_init_state_def tmpfs_root_def)
  have n: "\<forall>nm \<in> set (components ?p). length nm \<le> FS_NAME_MAX"
    unfolding c by (simp add: ascii_def FS_NAME_MAX_def)
  have "\<not> bad_path ?p" "last ?p \<noteq> slash" by (simp_all add: bad_path_def ascii_def)
  then show ?thesis
    using tmpfs_creat_correct [of sample_tmpfs ?p] v n tmpfs_init_wf [of fresh_heap]
    by (auto simp: sample_tmpfs_def tmpfs_init_state_def)
qed

section \<open>Contents\<close>

lemma same_edges_view:
  assumes "tmpfs_wf s" and "tmpfs_wf s'" and "\<And>i nm c. edge s i nm c = edge s' i nm c"
  shows "view s = view s'"
proof -
  have "resolve s i ns = resolve s' i ns" for i ns
    using resolve_mono [OF assms(1,2), of i ns] resolve_mono [OF assms(2,1), of i ns] assms(3)
    by (metis not_None_eq)
  then show ?thesis by (simp add: view_def fun_eq_iff)
qed

definition node_ok :: "tmpfs \<Rightarrow> nat \<Rightarrow> tmpfs_dentry \<Rightarrow> bool" where
  "node_ok s i n \<longleftrightarrow> i < td_next s \<and> distinct (td_children n) \<and>
     (\<forall>c \<in> set (td_children n). \<exists>m. td_nodes s c = Some m \<and> td_parent m = Some i \<and> name_ok (td_name m)) \<and>
     inj_on (\<lambda>c. map_option td_name (td_nodes s c)) (set (td_children n))"

lemma tmpfs_wf_nodes:
  "tmpfs_wf s \<longleftrightarrow> (\<exists>r. td_nodes s 0 = Some r \<and> td_type r = DENTRY_DIR \<and> td_parent r = None) \<and>
     (\<forall>i n. td_nodes s i = Some n \<longrightarrow> node_ok s i n)"
  by (simp add: tmpfs_wf_def node_ok_def)

lemma node_ok_cong:
  assumes "node_ok s i n" and "td_next s' = td_next s" and "set (td_children n') \<subseteq> set (td_children n)" and "distinct (td_children n')"
    and "\<And>c m. c \<in> set (td_children n') \<Longrightarrow> td_nodes s c = Some m \<Longrightarrow>
      \<exists>m'. td_nodes s' c = Some m' \<and> td_name m' = td_name m \<and> td_parent m' = td_parent m"
  shows "node_ok s' i n'"
proof -
  have eq: "\<exists>m m'. td_nodes s c = Some m \<and> td_nodes s' c = Some m' \<and> td_name m' = td_name m \<and> td_parent m' = td_parent m \<and>
      td_parent m = Some i \<and> name_ok (td_name m)" if "c \<in> set (td_children n')" for c
    using that assms(1,3,5) unfolding node_ok_def by (meson subsetD)
  then have "map_option td_name (td_nodes s' c) = map_option td_name (td_nodes s c)" if "c \<in> set (td_children n')" for c
    using that by fastforce
  then have "inj_on (\<lambda>c. map_option td_name (td_nodes s' c)) (set (td_children n'))"
    using assms(1,3) unfolding node_ok_def by (simp cong: inj_on_cong) (meson inj_on_subset)
  then show ?thesis using assms(1,2,4) eq unfolding node_ok_def by fastforce
qed

lemma set_data_wf:
  assumes "tmpfs_wf s" and "td_nodes s td = Some n" and "td_name n' = td_name n" and "td_type n' = td_type n"
    and "td_parent n' = td_parent n" and "td_children n' = td_children n"
  shows "tmpfs_wf (s\<lparr>td_nodes := (td_nodes s)(td \<mapsto> n'), td_heap := h\<rparr>)" (is "tmpfs_wf ?t")
    and "view (s\<lparr>td_nodes := (td_nodes s)(td \<mapsto> n'), td_heap := h\<rparr>) = view s"
proof -
  have "node_ok ?t i m" if a: "td_nodes ?t i = Some m" for i m
  proof -
    obtain m0 where m0: "td_nodes s i = Some m0" "td_children m = td_children m0"
      using a assms(2,6) by (cases "i = td") auto
    have "node_ok s i m0" using assms(1) m0(1) by (simp add: tmpfs_wf_nodes)
    then show ?thesis
      by (rule node_ok_cong) (use assms m0 in \<open>auto simp: node_ok_def tmpfs_wf_nodes\<close>)
  qed
  moreover have "\<exists>r. td_nodes ?t 0 = Some r \<and> td_type r = DENTRY_DIR \<and> td_parent r = None"
    using wf_root [OF assms(1)] assms by auto
  ultimately show w: "tmpfs_wf ?t" unfolding tmpfs_wf_nodes by blast
  show "view ?t = view s"
    by (rule same_edges_view [OF w assms(1)]) (use assms in \<open>auto simp: edge_def\<close>)
qed

text \<open>
  C18: Writing a file in tmpfs replaces its contents: a write of a non-empty buffer (that fits into the block allocated for the old contents, if there were any)
  returns its length, a later read of \<open>len\<close> bytes returns the first \<open>len\<close> bytes of it, \<open>stat\<close> on any path to the file reports the
  new size, and every other node is unchanged.
\<close>

theorem tmpfs_write_read:
  assumes "tmpfs_wf s" and "roomy (td_heap s)" and "td_nodes s td = Some n" and "td_type n = DENTRY_FILE" and "buf \<noteq> []"
    and "\<forall>data. td_data n = Some data \<longrightarrow> length buf \<le> block_bytes (length data)"
  shows "\<exists>s'. tmpfs_write s (Some td) buf = Some (int (length buf), s') \<and> tmpfs_wf s' \<and>
    (\<forall>len. tmpfs_read s' (Some td) len = Some (int (min len (length buf)), take len buf)) \<and>
    (\<forall>i. i \<noteq> td \<longrightarrow> td_nodes s' i = td_nodes s i) \<and> view s' = view s \<and>
    (\<forall>p. \<not> bad_path p \<and> view s (components p) = Some td \<longrightarrow> tmpfs_stat s' p = Some (TMPFS_OK, Some (length buf)))"
proof -
  obtain h where h: "kh_alloc (td_heap s) (length buf) = Some (True, h)" "roomy h"
    using kh_alloc_roomy [OF assms(2), of "length buf"] assms(5) by auto
  let ?n = "n\<lparr>td_data := Some buf, td_size := length buf\<rparr>"
  let ?t = "s\<lparr>td_nodes := (td_nodes s)(td \<mapsto> ?n), td_heap := h\<rparr>"
  have wf: "tmpfs_wf ?t" and v: "view ?t = view s" by (rule set_data_wf [OF assms(1,3)]; simp)+
  have "tmpfs_write s (Some td) buf = Some (int (length buf), ?t)"
    using assms(3-6) h by (auto simp: tmpfs_write_def upd_node_def Let_def split: option.splits)
  moreover have "tmpfs_read ?t (Some td) len = Some (int (min len (length buf)), take len buf)" for len
    using assms(4) by (simp add: tmpfs_read_def min_def)
  moreover have "tmpfs_stat ?t p = Some (TMPFS_OK, Some (length buf))" if "\<not> bad_path p" "view s (components p) = Some td" for p
    using that bad_path_view(1) [OF wf that(1)] v by (simp add: tmpfs_stat_def)
  ultimately show ?thesis using wf v by (intro exI [of _ ?t]) auto
qed

text \<open>A file system with one empty file.\<close>

definition one_file :: tmpfs where
  "one_file = attach sample_tmpfs 0 tmpfs_root (ascii ''f'') DENTRY_FILE (fresh_heap\<lparr>calls := 2\<rparr>)"

lemma one_file_creat: "tmpfs_creat sample_tmpfs (ascii ''/f'') = Some (TMPFS_OK, one_file)"
  by (simp add: tmpfs_creat_def bad_path_def ascii_def creat_loop.simps skip_slashes_def component_def has_slash_def Let_def
      sample_tmpfs_def tmpfs_init_state_def tmpfs_root_def tmpfs_alloc_dentry_def kh_alloc_def fresh_heap_def upd_node_def
      attach_def new_node_def FS_NAME_MAX_def one_file_def)

lemma one_file_wf: "tmpfs_wf one_file"
proof -
  have w: "tmpfs_wf sample_tmpfs" and r: "td_nodes sample_tmpfs 0 = Some tmpfs_root"
    by (simp_all add: sample_tmpfs_def tmpfs_init_wf) (simp add: tmpfs_init_state_def)
  show ?thesis unfolding one_file_def
    by (rule attach_wf [OF w r]) (simp_all add: child_of_def r tmpfs_root_def name_ok_def ascii_def FS_NAME_MAX_def)
qed

lemma one_file_nodes:
  "td_nodes one_file 1 = Some (new_node (ascii ''f'') DENTRY_FILE 0)" "roomy (td_heap one_file)"
  "td_nodes one_file 0 = Some (td_children_update (\<lambda>cs. cs @ [1]) tmpfs_root)"
  unfolding one_file_def by (simp_all add: attach_def sample_tmpfs_def tmpfs_init_state_def roomy_def fresh_heap_def)

lemma one_file_view: "view one_file (components (ascii ''/f'')) = Some 1"
proof -
  have "components (ascii ''/f'') = [ascii ''f'']"
    by (simp add: components.simps ascii_def skip_slashes_def component_def)
  then show ?thesis using one_file_nodes by (simp add: view_def child_of_def tmpfs_root_def new_node_def)
qed

theorem tmpfs_write_read_witness:
  "\<exists>s'. tmpfs_write one_file (Some 1) [1, 2, 3] = Some (3, s') \<and> tmpfs_read s' (Some 1) 2 = Some (2, [1, 2])"
  using tmpfs_write_read [OF one_file_wf one_file_nodes(2,1), of "[1, 2, 3]"] by (auto simp: new_node_def)

section \<open>Removing\<close>

definition remove_node :: "tmpfs \<Rightarrow> nat \<Rightarrow> nat \<Rightarrow> tmpfs_dentry \<Rightarrow> tmpfs" where
  "remove_node s td parent pn =
     s\<lparr>td_nodes := (td_nodes s)(parent \<mapsto> td_children_update (remove1 td) pn, td := None)\<rparr>"

lemma free_dentry_remove:
  assumes "tmpfs_wf s" and "edge s parent nm td" and "\<not> mm_held (td_heap s)" and "td_nodes s parent = Some pn" and "parent \<noteq> td"
  shows "tmpfs_free_dentry td s = Some (remove_node s td parent pn)"
proof -
  obtain m where m: "td_nodes s td = Some m" "td_parent m = Some parent" using edge_parent [OF assms(1,2)] by blast
  then have "list_del_sibling td s = Some (s\<lparr>td_nodes := (td_nodes s)(parent \<mapsto> td_children_update (remove1 td) pn)\<rparr>)"
    using assms(4) by (simp add: list_del_sibling_def upd_node_def)
  then show ?thesis using m assms(3,5) by (simp add: tmpfs_free_dentry_def kh_free_def remove_node_def)
qed

lemma remove_node_edge:
  assumes "tmpfs_wf s" and "edge s parent nm td" and "td_nodes s parent = Some pn" and "parent \<noteq> td"
  shows "edge (remove_node s td parent pn) i nm' c \<longleftrightarrow> edge s i nm' c \<and> c \<noteq> td \<and> i \<noteq> td"
proof -
  have "distinct (td_children pn)" using assms(1,3) by (simp add: tmpfs_wf_def)
  then have "c \<in> set (remove1 td (td_children pn)) \<longleftrightarrow> c \<in> set (td_children pn) \<and> c \<noteq> td" for c by simp
  then show ?thesis
    using assms(3,4) by (cases "i = td"; cases "c = td"; cases "i = parent"; cases "c = parent") (simp_all add: edge_def remove_node_def)
qed

lemma remove_node_wf:
  assumes "tmpfs_wf s" and "edge s parent nm td" and "td_nodes s parent = Some pn" and "parent \<noteq> td"
  shows "tmpfs_wf (remove_node s td parent pn)" (is "tmpfs_wf ?t")
proof -
  have td: "td \<noteq> 0" using assms(2) edge_not_root [OF assms(1), of parent nm] by (cases "td = 0") auto
  have dist: "distinct (td_children pn)" using assms(1,3) by (simp add: tmpfs_wf_def)
  have keep: "\<exists>m'. td_nodes ?t c = Some m' \<and> td_name m' = td_name m \<and> td_parent m' = td_parent m \<and> td_type m' = td_type m"
    if "c \<noteq> td" "td_nodes s c = Some m" for c m
    using that assms(3,4) by (cases "c = parent") (simp_all add: remove_node_def)
  have only: "td \<in> set (td_children m) \<Longrightarrow> td_nodes s i = Some m \<Longrightarrow> i = parent" for i m
    using wf_childD [OF assms(1)] edge_parent [OF assms(1,2)] by fastforce
  have "node_ok ?t i m" if i: "td_nodes ?t i = Some m" for i m
  proof -
    obtain m0 where m0: "td_nodes s i = Some m0" "td_children m = (if i = parent then remove1 td (td_children m0) else td_children m0)"
      using i assms(3,4) unfolding remove_node_def by (cases "i = td"; cases "i = parent") auto
    have ok: "node_ok s i m0" using assms(1) m0(1) by (simp add: tmpfs_wf_nodes)
    then have sub: "set (td_children m) \<subseteq> set (td_children m0) - {td}" "distinct (td_children m)"
      using m0 only [of m0 i] by (auto simp: node_ok_def)
    show ?thesis
    proof (rule node_ok_cong [OF ok])
      fix c m' assume "c \<in> set (td_children m)" "td_nodes s c = Some m'"
      then show "\<exists>m''. td_nodes ?t c = Some m'' \<and> td_name m'' = td_name m' \<and> td_parent m'' = td_parent m'"
        using sub(1) keep [of c m'] by auto
    qed (use sub in \<open>auto simp: remove_node_def\<close>)
  qed
  moreover have "\<exists>r. td_nodes ?t 0 = Some r \<and> td_type r = DENTRY_DIR \<and> td_parent r = None"
    using wf_root [OF assms(1)] keep [of 0] td by auto
  ultimately show ?thesis unfolding tmpfs_wf_nodes by blast
qed

lemma remove_node_view:
  assumes "tmpfs_wf s" and "edge s parent nm td" and "td_nodes s parent = Some pn" and "parent \<noteq> td" and "view s ps = Some td"
  shows "view (remove_node s td parent pn) ns = (if prefix ps ns then None else view s ns)"
proof -
  let ?t = "remove_node s td parent pn"
  note w = remove_node_wf [OF assms(1-4)] and e = remove_node_edge [OF assms(1-4)]
  have down: "view ?t ns = Some j \<Longrightarrow> view s ns = Some j" for ns j
    unfolding view_def by (rule resolve_mono [OF w assms(1)]) (simp_all add: e)
  have "view ?t ns = None" if pre: "prefix ps ns"
  proof (rule ccontr)
    assume "view ?t ns \<noteq> None"
    then obtain j where "view ?t ps = Some j" using pre by (auto simp: prefix_def view_def resolve_append split: option.splits)
    then have "view ?t ps = Some td" using down assms(5) by fastforce
    from view_live [OF w this] show False by (simp add: remove_node_def)
  qed
  moreover have "\<not> prefix ps ns \<Longrightarrow> view s ns = Some j \<Longrightarrow> view ?t ns = Some j" for ns j
  proof (induction ns arbitrary: j rule: rev_induct)
    case (snoc nm' ns)
    obtain i where i: "view s ns = Some i" "edge s i nm' j" using snoc.prems(2) assms(1) by (auto simp: view_def resolve_snoc)
    have "\<not> prefix ps ns" using snoc.prems(1) by auto
    moreover have "j \<noteq> td" using view_inj [OF assms(1,5)] snoc.prems by blast
    moreover have "i \<noteq> td" using view_inj [OF assms(1,5)] i(1) \<open>\<not> prefix ps ns\<close> by blast
    ultimately show ?case using snoc.IH [OF _ i(1)] i(2) e w by (auto simp: view_def resolve_snoc)
  qed (simp add: view_def)
  ultimately show ?thesis using down by (metis not_None_eq)
qed

text \<open>
  C17: Removing from tmpfs: \<open>tmpfs_unlink\<close> of a path that does not exist reports NOENT and of a non-empty directory NOTEMPTY, both
  without any change; otherwise (a file or an empty directory other than the root) it succeeds, and afterwards exactly the paths that
  run through the removed node are gone, while all others lead where they led.
\<close>

theorem tmpfs_unlink_correct:
  assumes "tmpfs_wf s" and "\<not> mm_held (td_heap s)" and "\<not> bad_path p" and "components p \<noteq> []"
  shows "case view s (components p) of
      None \<Rightarrow> tmpfs_unlink s p = Some (TMPFS_ERR_NOENT, s)
    | Some td \<Rightarrow> \<exists>n. td_nodes s td = Some n \<and>
        (if td_type n = DENTRY_DIR \<and> td_children n \<noteq> [] then tmpfs_unlink s p = Some (TMPFS_ERR_NOTEMPTY, s)
         else \<exists>s'. tmpfs_unlink s p = Some (TMPFS_OK, s') \<and> tmpfs_wf s' \<and> td_nodes s' td = None \<and>
           (\<forall>ns. view s' ns = (if prefix (components p) ns then None else view s ns)))"
proof (cases "view s (components p)")
  case None
  then show ?thesis using assms(3) bad_path_view(1) [OF assms(1,3)] by (simp add: tmpfs_unlink_def)
next
  case (Some td)
  obtain n where n: "td_nodes s td = Some n" using view_live [OF assms(1) Some] by blast
  obtain ps nm where ps: "components p = ps @ [nm]" using assms(4) by (metis append_butlast_last_id)
  then obtain parent where par: "view s ps = Some parent" "edge s parent nm td"
    using Some assms(1) by (auto simp: view_def resolve_snoc)
  obtain pn where pn: "td_nodes s parent = Some pn" using par(2) by (auto simp: edge_def)
  have "parent \<noteq> td" using view_inj [OF assms(1) par(1), of "components p"] Some ps by auto
  moreover have "td \<noteq> 0" using edge_not_root [OF assms(1), of parent nm] par(2) by (cases "td = 0") auto
  ultimately have ne: "parent \<noteq> td" "td \<noteq> 0" .
  let ?t = "remove_node s td parent pn"
  have f: "tmpfs_free_dentry td s = Some ?t" by (rule free_dentry_remove [OF assms(1) par(2) assms(2) pn ne(1)])
  have "tmpfs_wf ?t" "\<forall>ns. view ?t ns = (if prefix (components p) ns then None else view s ns)" "td_nodes ?t td = None"
    using remove_node_wf [OF assms(1) par(2) pn ne(1)] remove_node_view [OF assms(1) par(2) pn ne(1) Some]
    by (simp_all add: remove_node_def)
  moreover have "tmpfs_unlink s p = (if td_type n = DENTRY_DIR \<and> td_children n \<noteq> [] then Some (TMPFS_ERR_NOTEMPTY, s) else Some (TMPFS_OK, ?t))"
    using assms(3) bad_path_view(1) [OF assms(1,3)] Some n ne(2) f by (simp add: tmpfs_unlink_def)
  ultimately show ?thesis using n Some by auto
qed

theorem tmpfs_unlink_correct_witness:
  "\<exists>s'. tmpfs_unlink one_file (ascii ''/f'') = Some (TMPFS_OK, s') \<and> view s' (components (ascii ''/f'')) = None"
proof -
  have "\<not> bad_path (ascii ''/f'')" "\<not> mm_held (td_heap one_file)"
    using one_file_nodes(2) by (simp_all add: bad_path_def ascii_def roomy_def)
  moreover have "components (ascii ''/f'') \<noteq> []"
    by (simp add: components.simps ascii_def skip_slashes_def component_def)
  ultimately show ?thesis
    using tmpfs_unlink_correct [OF one_file_wf, of "ascii ''/f''"] one_file_nodes(1)
    by (auto simp: one_file_view new_node_def)
qed

text \<open>
  Renaming onto itself uses freed memory: for every file or empty directory directly below the root, \<open>tmpfs_rename\<close> with
  its own path as the new path finds the node itself as the existing target, frees it, and then unlinks and renames the
  freed node; the call does not return a result.
\<close>

lemma tmpfs_rename_self:
  assumes "tmpfs_wf s" and "roomy (td_heap s)" and "name_ok nm" and "view s [nm] = Some td"
    and "td_nodes s td = Some n" and "td_type n = DENTRY_FILE \<or> td_children n = []"
  shows "tmpfs_rename s (slash # nm) (slash # nm) = None"
proof -
  let ?p = "slash # nm"
  have nm: "nm \<noteq> []" "slash \<notin> set nm" "length nm \<le> FS_NAME_MAX" using assms(3) by (auto simp: name_ok_def)
  have skip: "skip_slashes ?p = nm"
    using nm by (cases nm) (simp_all add: skip_slashes_def)
  have comp: "component nm = nm" using nm(2) by (auto simp: component_def takeWhile_eq_all_conv)
  have comps: "components ?p = [nm]"
    using nm(1) components_Cons [of ?p] components_Nil [of "[]"] unfolding skip comp by (simp add: skip_slashes_def)
  have al: "after_last_slash ?p = nm"
    using nm(2) by (auto simp: after_last_slash_def component_def takeWhile_append)
  have bl: "before_last_slash ?p = []" by (simp add: before_last_slash_def al)
  have look: "tmpfs_lookup s ?p = Some (Some td)" using tmpfs_lookup_view [OF assms(1), of ?p] comps assms(4) by simp
  obtain r where r: "td_nodes s 0 = Some r" "td_type r = DENTRY_DIR" using wf_root [OF assms(1)] by blast
  have e: "edge s 0 nm td" using assms(4) child_of_edge [OF assms(1)] by (simp add: view_def split: option.splits)
  then have ne: "0 \<noteq> td" using edge_not_root [OF assms(1)] by (cases "td = 0") auto
  have fc: "find_child s (td_children r) nm = Some (Some td)"
    using find_child_child_of [OF assms(1) r(1)] child_of_edge [OF assms(1)] e by simp
  have "\<not> mm_held (td_heap s)" using assms(2) by (simp add: roomy_def)
  note fr = free_dentry_remove [OF assms(1) e this r(1) ne]
  have dead: "rename_move (remove_node s td 0 r) td 0 nm = None"
    using assms(2) by (simp add: rename_move_def list_del_sibling_def remove_node_def kh_alloc_def roomy_def)
  show ?thesis
    using look al bl r fc assms(5,6) fr dead nm by (auto simp: tmpfs_rename_def rename_parent_def Let_def)
qed

lemma tmpfs_rename_self_example:
  "tmpfs_rename one_file (ascii ''/f'') (ascii ''/f'') = None"
proof -
  have "name_ok (ascii ''f'')" by (simp add: name_ok_def ascii_def FS_NAME_MAX_def)
  moreover have "view one_file [ascii ''f''] = Some 1"
    using one_file_nodes by (simp add: view_def child_of_def tmpfs_root_def new_node_def)
  moreover have "ascii ''/f'' = slash # ascii ''f''" by (simp add: ascii_def)
  ultimately show ?thesis
    using tmpfs_rename_self [OF one_file_wf one_file_nodes(2) _ _ one_file_nodes(1)] by (simp add: new_node_def)
qed

end
