(* ===== verification/Vfs.thy ===== *)
theory Vfs
  imports Tmpfs Sync
begin

text \<open>
  The virtual file system: the registry of file-system types (\<open>src/src/fs/fs.c\<close>), the mount table (\<open>src/src/fs/mount.c\<close>), the dentry
  cache and the file operations (\<open>src/src/fs/vfs.c\<close>), and the file descriptors of the system calls (\<open>src/src/syscalls.c\<close>).

  A file system is a record of operations on its own state \<open>'f\<close> and on the kernel heap; an absent operation (a NULL function pointer the
  code tests for) is \<open>None\<close>. The \<open>private_data\<close> of a dentry is a number the file system gives a meaning to. Lists linked through \<open>list_head\<close> are
  lists; a \<open>struct dentry\<close> lives in the map \<open>dentries\<close>, so that files share it. Every mount operation of the repository ends in \<open>mount_nodev\<close>; \<open>op_mount\<close> is
  what it does before. A call that faults or waits for ever is \<open>None\<close>.

  The lemmas show that the reference count of every dentry is the number of open files on it, over any sequence of open and close calls, that
  descriptors are unique, and how the mount lookup matches.
\<close>

definition EBADF :: int where "EBADF = 9"
definition ENOMEM :: int where "ENOMEM = 12"
definition ENODEV :: int where "ENODEV = 19"
definition ESTALE :: int where "ESTALE = 116"

record 'f fs_operations =
  op_mount :: "kheap \<Rightarrow> 'f \<Rightarrow> (kheap \<times> 'f) option"
  op_lookup :: "(kheap \<Rightarrow> 'f \<Rightarrow> bytes \<Rightarrow> (nat option \<times> kheap \<times> 'f) option) option"
  op_open :: "kheap \<Rightarrow> 'f \<Rightarrow> nat \<Rightarrow> u32 \<Rightarrow> (int \<times> kheap \<times> 'f) option"
  op_release :: "kheap \<Rightarrow> 'f \<Rightarrow> nat \<Rightarrow> (int \<times> kheap \<times> 'f) option"
  op_creat :: "kheap \<Rightarrow> 'f \<Rightarrow> bytes \<Rightarrow> u32 \<Rightarrow> (int \<times> kheap \<times> 'f) option"
  op_read :: "(kheap \<Rightarrow> 'f \<Rightarrow> nat \<Rightarrow> size_t \<Rightarrow> (int \<times> bytes \<times> kheap \<times> 'f) option) option"
  op_write :: "(kheap \<Rightarrow> 'f \<Rightarrow> nat \<Rightarrow> bytes \<Rightarrow> (int \<times> kheap \<times> 'f) option) option"
  op_stat :: "(kheap \<Rightarrow> 'f \<Rightarrow> bytes \<Rightarrow> (int \<times> nat option \<times> kheap \<times> 'f) option) option"
  op_sync :: "(kheap \<Rightarrow> 'f \<Rightarrow> nat \<Rightarrow> (kheap \<times> 'f) option) option"

record 'f file_system_type =
  fs_name :: bytes
  fs_nmlen :: nat
  fs_ops :: "'f fs_operations"

record 'f mount =
  mnt_path :: bytes
  mnt_pathlen :: nat
  mnt_fstype :: "'f file_system_type"

record 'f dentry =
  d_pathname :: bytes
  d_pathlen :: nat
  d_mnt :: "'f mount"
  d_ref :: u64
  d_private :: nat

record open_file =
  f_fd :: u32
  f_dentry :: nat

record 'f vfs =
  fs_type_list :: "'f file_system_type list"
  mount_list :: "'f mount list"
  dentries :: "nat \<Rightarrow> 'f dentry option"
  dentry_list :: "nat list"
  d_next :: nat
  file_list :: "open_file list"
  fd_count :: u32
  vheap :: kheap
  fs_state :: 'f

section \<open>File-system types and mounts\<close>

text \<open>\<open>strncmp (a, b, n) == 0\<close> on strings without their terminators.\<close>

definition strn_eq :: "bytes \<Rightarrow> bytes \<Rightarrow> nat \<Rightarrow> bool" where
  "strn_eq a b n \<longleftrightarrow> take n a = take n b"

definition register_filesystem :: "'f vfs \<Rightarrow> 'f file_system_type \<Rightarrow> int \<times> 'f vfs" where
  "register_filesystem s fs =
     (0, s\<lparr>fs_type_list := fs_type_list s @ [fs\<lparr>fs_nmlen := length (fs_name fs)\<rparr>]\<rparr>)"

definition unregister_filesystem :: "'f vfs \<Rightarrow> 'f file_system_type \<Rightarrow> 'f vfs" where
  "unregister_filesystem s fs = s\<lparr>fs_type_list := filter (\<lambda>t. fs_name t \<noteq> fs_name fs) (fs_type_list s)\<rparr>"

definition fs_get_by_name :: "'f vfs \<Rightarrow> bytes \<Rightarrow> 'f file_system_type option" where
  "fs_get_by_name s name = find (\<lambda>t. strn_eq (fs_name t) name (fs_nmlen t)) (fs_type_list s)"

text \<open>
  The loop that removes slashes from the end of the mount path runs below the buffer when the path is empty or made of slashes
  only; \<open>below\<close> is the byte there, \<open>None\<close> if that page is not mapped. The second allocation is not checked.
\<close>

definition strip_slashes :: "bytes \<Rightarrow> bytes" where
  "strip_slashes p = rev (dropWhile (\<lambda>c. c = slash) (rev p))"

definition mount_nodev :: "u8 option \<Rightarrow> 'f vfs \<Rightarrow> 'f file_system_type \<Rightarrow> bytes \<Rightarrow> (int \<times> 'f vfs) option" where
  "mount_nodev below s fstype pathname = do {
     (ok, h) \<leftarrow> kh_alloc (vheap s) 48;
     let s = s\<lparr>vheap := h\<rparr>;
     if \<not> ok then Some (- 1, s)
     else do {
       (ok, h) \<leftarrow> kh_alloc h (length pathname + 1);
       if \<not> ok \<or> (strip_slashes pathname = [] \<and> (below = None \<or> below = Some slash)) then None
       else
         let mnt = \<lparr>mnt_path = strip_slashes pathname, mnt_pathlen = length pathname + 1, mnt_fstype = fstype\<rparr>
         in Some (0, s\<lparr>vheap := h, mount_list := mount_list s @ [mnt]\<rparr>) } }"

text \<open>The path is cut at its last slash, again and again; each time the first mount whose path \<^emph>\<open>starts with\<close> what is left is taken.\<close>

function mount_match :: "'f mount list \<Rightarrow> bytes \<Rightarrow> 'f mount option" where
  "mount_match mounts path_buff =
     (if has_slash path_buff then
        let match_path = before_last_slash path_buff in
        case find (\<lambda>pos. strn_eq (mnt_path pos) match_path (length match_path)) mounts of
          Some pos \<Rightarrow> Some pos
        | None \<Rightarrow> mount_match mounts match_path
      else None)"
  by pat_completeness auto
termination
  by (relation "measure (\<lambda>(_, p). length p)") (auto simp: has_slash_def before_last_slash_def dest!: length_pos_if_in_set)

declare mount_match.simps [simp del]

text \<open>The buffer is one byte too short for the terminator: \<open>strcpy\<close> writes past the block when the length is a multiple of the block size.\<close>

definition mount_get_by_name :: "'f vfs \<Rightarrow> bytes \<Rightarrow> ('f mount option \<times> 'f vfs) option" where
  "mount_get_by_name s pathname = do {
     (ok, h) \<leftarrow> kh_alloc (vheap s) (length pathname);
     if \<not> ok \<or> length pathname + 1 > block_bytes (length pathname) then None
     else do {
       h \<leftarrow> kh_free h;
       Some (mount_match (mount_list s) pathname, s\<lparr>vheap := h\<rparr>) } }"

section \<open>The virtual file system\<close>

definition vfs_init :: "u8 option \<Rightarrow> 'f vfs \<Rightarrow> 'f vfs option" where
  "vfs_init below s = do {
     fstype \<leftarrow> fs_get_by_name s (ascii ''fatfs'');
     (h, f) \<leftarrow> op_mount (fs_ops fstype) (vheap s) (fs_state s);
     (_, s) \<leftarrow> mount_nodev below (s\<lparr>vheap := h, fs_state := f\<rparr>) fstype [];
     Some s }"

definition find_dentry :: "'f vfs \<Rightarrow> bytes \<Rightarrow> nat option" where
  "find_dentry s pathname = find (\<lambda>d. map_option d_pathname (dentries s d) = Some pathname) (dentry_list s)"

definition upd_dentry :: "nat \<Rightarrow> ('f dentry \<Rightarrow> 'f dentry) \<Rightarrow> 'f vfs \<Rightarrow> 'f vfs option" where
  "upd_dentry d f s = (case dentries s d of None \<Rightarrow> None | Some x \<Rightarrow> Some (s\<lparr>dentries := (dentries s)(d \<mapsto> f x)\<rparr>))"

text \<open>Result: the return value, \<open>filp->dentry\<close> and the state. \<open>kfree (filp)\<close> after a failed allocation waits for the lock of the heap.\<close>

definition vfs_open_new :: "'f vfs \<Rightarrow> 'f mount \<Rightarrow> bytes \<Rightarrow> u32 \<Rightarrow> (int \<times> nat \<times> 'f vfs) option" where
  "vfs_open_new s mount pathbuff mode = do {
     (ok, h) \<leftarrow> kh_alloc (vheap s) 56;
     let s = s\<lparr>vheap := h\<rparr>;
     if \<not> ok then Some (- ENOMEM, 0, s)
     else (case op_lookup (fs_ops (mnt_fstype mount)) of
       None \<Rightarrow> do { h \<leftarrow> kh_free (vheap s); Some (- ENODEV, 0, s\<lparr>vheap := h\<rparr>) }
     | Some lookup \<Rightarrow> do {
         (r, h, f) \<leftarrow> lookup (vheap s) (fs_state s) pathbuff;
         let s = s\<lparr>vheap := h, fs_state := f\<rparr>;
         case r of None \<Rightarrow> do { h \<leftarrow> kh_free (vheap s); Some (- ENOENT, 0, s\<lparr>vheap := h\<rparr>) }
         | Some private \<Rightarrow> do {
             let d = d_next s;
             let dentry = \<lparr>d_pathname = pathbuff, d_pathlen = length pathbuff + 1, d_mnt = mount, d_ref = 0, d_private = private\<rparr>;
             (ret, h, f) \<leftarrow> op_open (fs_ops (mnt_fstype mount)) (vheap s) (fs_state s) private mode;
             let s = s\<lparr>vheap := h, fs_state := f\<rparr>;
             if ret < 0 then do {
               h \<leftarrow> kh_free (vheap s);
               h \<leftarrow> kh_free h;
               Some (ret, 0, s\<lparr>vheap := h\<rparr>) }
             else Some (0, d, s\<lparr>d_next := Suc d,
                     dentries := (dentries s)(d \<mapsto> dentry\<lparr>d_ref := atomic_store (d_ref dentry) 1\<rparr>),
                     dentry_list := dentry_list s @ [d]\<rparr>) } }) }"

definition vfs_open :: "'f vfs \<Rightarrow> bytes \<Rightarrow> u32 \<Rightarrow> (int \<times> nat \<times> 'f vfs) option" where
  "vfs_open s pathname mode = do {
     (mount, s) \<leftarrow> mount_get_by_name s pathname;
     case mount of None \<Rightarrow> Some (- ENODEV, 0, s)
     | Some mount \<Rightarrow> do {
         (ok, h) \<leftarrow> kh_alloc (vheap s) (length pathname + 1);
         let s = s\<lparr>vheap := h\<rparr>;
         if \<not> ok then do { h \<leftarrow> kh_free h; Some (- ENOMEM, 0, s\<lparr>vheap := h\<rparr>) }
         else (case find_dentry s pathname of
           Some d \<Rightarrow> do {
             h \<leftarrow> kh_free (vheap s);
             s \<leftarrow> upd_dentry d (\<lambda>x. x\<lparr>d_ref := snd (atomic_fetch_add (d_ref x) 1)\<rparr>) (s\<lparr>vheap := h\<rparr>);
             Some (0, d, s) }
         | None \<Rightarrow> vfs_open_new s mount pathname mode) } }"

definition vfs_close :: "'f vfs \<Rightarrow> nat \<Rightarrow> (int \<times> 'f vfs) option" where
  "vfs_close s d = do {
     dentry \<leftarrow> dentries s d;
     (mount, s) \<leftarrow> mount_get_by_name s (d_pathname dentry);
     case mount of None \<Rightarrow> Some (- ENODEV, s)
     | Some mount \<Rightarrow>
         if find_dentry s (d_pathname dentry) = None then Some (- ESTALE, s)
         else do {
           let ref = snd (atomic_fetch_sub (d_ref dentry) 1);
           s \<leftarrow> upd_dentry d (\<lambda>x. x\<lparr>d_ref := ref\<rparr>) s;
           if atomic_load ref = 0 then do {
             (_, h, f) \<leftarrow> op_release (fs_ops (mnt_fstype mount)) (vheap s) (fs_state s) (d_private dentry);
             h \<leftarrow> kh_free h;
             h \<leftarrow> kh_free h;
             Some (0, s\<lparr>vheap := h, fs_state := f, dentry_list := remove1 d (dentry_list s), dentries := (dentries s)(d := None)\<rparr>) }
           else Some (0, s) } }"

definition vfs_read :: "'f vfs \<Rightarrow> nat \<Rightarrow> size_t \<Rightarrow> (int \<times> bytes \<times> 'f vfs) option" where
  "vfs_read s d len = do {
     dentry \<leftarrow> dentries s d;
     (mount, s) \<leftarrow> mount_get_by_name s (d_pathname dentry);
     case mount of None \<Rightarrow> Some (- ENODEV, [], s)
     | Some mount \<Rightarrow> (case op_read (fs_ops (mnt_fstype mount)) of
         None \<Rightarrow> Some (- ENODEV, [], s)
       | Some rd \<Rightarrow> do {
           (ret, buf, h, f) \<leftarrow> rd (vheap s) (fs_state s) (d_private dentry) len;
           Some (ret, buf, s\<lparr>vheap := h, fs_state := f\<rparr>) }) }"

definition vfs_write :: "'f vfs \<Rightarrow> nat \<Rightarrow> bytes \<Rightarrow> (int \<times> 'f vfs) option" where
  "vfs_write s d buf = do {
     dentry \<leftarrow> dentries s d;
     (mount, s) \<leftarrow> mount_get_by_name s (d_pathname dentry);
     case mount of None \<Rightarrow> Some (- ENODEV, s)
     | Some mount \<Rightarrow> (case op_write (fs_ops (mnt_fstype mount)) of
         None \<Rightarrow> Some (- ENODEV, s)
       | Some wr \<Rightarrow> do {
           (ret, h, f) \<leftarrow> wr (vheap s) (fs_state s) (d_private dentry) buf;
           Some (ret, s\<lparr>vheap := h, fs_state := f\<rparr>) }) }"

definition vfs_stat :: "'f vfs \<Rightarrow> bytes \<Rightarrow> (int \<times> nat option \<times> 'f vfs) option" where
  "vfs_stat s pathname = do {
     (mnt, s) \<leftarrow> mount_get_by_name s pathname;
     case mnt of None \<Rightarrow> Some (- 1, None, s)
     | Some mnt \<Rightarrow> (case op_stat (fs_ops (mnt_fstype mnt)) of
         None \<Rightarrow> Some (- ENODEV, None, s)
       | Some st \<Rightarrow> do {
           (ret, sz, h, f) \<leftarrow> st (vheap s) (fs_state s) pathname;
           Some (ret, sz, s\<lparr>vheap := h, fs_state := f\<rparr>) }) }"

primrec sync_loop :: "'f file_system_type \<Rightarrow> bytes \<Rightarrow> nat list \<Rightarrow> 'f vfs \<Rightarrow> 'f vfs option" where
  "sync_loop type pathname [] s = Some s"
| "sync_loop type pathname (pos # rest) s = do {
     p \<leftarrow> dentries s pos;
     s \<leftarrow> (if pathname = d_pathname p then
             (case op_sync (fs_ops type) of None \<Rightarrow> Some s
              | Some sync \<Rightarrow> do {
                  (h, f) \<leftarrow> sync (vheap s) (fs_state s) (d_private p);
                  Some (s\<lparr>vheap := h, fs_state := f\<rparr>) })
           else Some s);
     sync_loop type pathname rest s }"

definition vfs_sync :: "'f vfs \<Rightarrow> nat \<Rightarrow> 'f vfs option" where
  "vfs_sync s d = do {
     dentry \<leftarrow> dentries s d;
     (mnt, s) \<leftarrow> mount_get_by_name s (d_pathname dentry);
     case mnt of None \<Rightarrow> Some s
     | Some mnt \<Rightarrow> sync_loop (mnt_fstype mnt) (d_pathname dentry) (dentry_list s) s }"

definition vfs_creat :: "'f vfs \<Rightarrow> bytes \<Rightarrow> u32 \<Rightarrow> (int \<times> 'f vfs) option" where
  "vfs_creat s pathname mode = do {
     (mount, s) \<leftarrow> mount_get_by_name s pathname;
     case mount of None \<Rightarrow> Some (- ENODEV, s)
     | Some mount \<Rightarrow> do {
         (ret, h, f) \<leftarrow> op_creat (fs_ops (mnt_fstype mount)) (vheap s) (fs_state s) pathname mode;
         Some (ret, s\<lparr>vheap := h, fs_state := f\<rparr>) } }"

section \<open>System calls\<close>

definition sys_open :: "'f vfs \<Rightarrow> bytes \<Rightarrow> u32 \<Rightarrow> (int \<times> 'f vfs) option" where
  "sys_open s pathname mode = do {
     (ok, h) \<leftarrow> kh_alloc (vheap s) 40;
     let s = s\<lparr>vheap := h\<rparr>;
     if \<not> ok then Some (- ENOMEM, s)
     else do {
       (ret, d, s) \<leftarrow> vfs_open s pathname mode;
       if ret < 0 then do { h \<leftarrow> kh_free (vheap s); Some (ret, s\<lparr>vheap := h\<rparr>) }
       else Some (sint (fd_count s),
              s\<lparr>fd_count := fd_count s + 1, file_list := file_list s @ [\<lparr>f_fd = fd_count s, f_dentry = d\<rparr>]\<rparr>) } }"

definition find_file :: "'f vfs \<Rightarrow> int \<Rightarrow> open_file option" where
  "find_file s fd = find (\<lambda>filp. f_fd filp = word_of_int fd) (file_list s)"

definition sys_close :: "'f vfs \<Rightarrow> int \<Rightarrow> (int \<times> 'f vfs) option" where
  "sys_close s fd =
     (case find_file s fd of None \<Rightarrow> Some (- EBADF, s)
      | Some filp \<Rightarrow> do {
          (ret, s) \<leftarrow> vfs_close s (f_dentry filp);
          if ret < 0 then Some (ret, s)
          else do {
            h \<leftarrow> kh_free (vheap s);
            Some (0, s\<lparr>vheap := h, file_list := remove1 filp (file_list s)\<rparr>) } })"

definition sys_read :: "'f vfs \<Rightarrow> int \<Rightarrow> size_t \<Rightarrow> (int \<times> bytes \<times> 'f vfs) option" where
  "sys_read s fd sz =
     (case find_file s fd of None \<Rightarrow> Some (- ENOENT, [], s) | Some filp \<Rightarrow> vfs_read s (f_dentry filp) sz)"

definition sys_write :: "'f vfs \<Rightarrow> int \<Rightarrow> bytes \<Rightarrow> (int \<times> 'f vfs) option" where
  "sys_write s fd buf =
     (case find_file s fd of None \<Rightarrow> Some (- ENOENT, s) | Some filp \<Rightarrow> vfs_write s (f_dentry filp) buf)"

definition sys_stat :: "'f vfs \<Rightarrow> bytes \<Rightarrow> (int \<times> nat option \<times> 'f vfs) option" where
  "sys_stat s pathname = vfs_stat s pathname"

definition sys_sync :: "'f vfs \<Rightarrow> 'f vfs option" where
  "sys_sync s = fold (\<lambda>filp r. Option.bind r (\<lambda>s. vfs_sync s (f_dentry filp))) (file_list s) (Some s)"

definition sys_creat :: "'f vfs \<Rightarrow> bytes \<Rightarrow> u32 \<Rightarrow> (int \<times> 'f vfs) option" where
  "sys_creat s pathname mode = do {
     (ok, h) \<leftarrow> kh_alloc (vheap s) (length pathname + 1);
     let s = s\<lparr>vheap := h\<rparr>;
     if \<not> ok then Some (- ENOMEM, s)
     else do {
       (ret, s) \<leftarrow> vfs_creat s pathname mode;
       h \<leftarrow> kh_free (vheap s);
       Some (ret, s\<lparr>vheap := h\<rparr>) } }"

section \<open>Reference counts\<close>

text \<open>
  \<open>refs_ok s F\<close>: the cached dentries are exactly the live ones, their paths are distinct, and the count of each is the number of times it occurs in the list \<open>F\<close> of
  references, which is not zero.
\<close>

definition refs_ok :: "'f vfs \<Rightarrow> nat list \<Rightarrow> bool" where
  "refs_ok s F \<longleftrightarrow> distinct (dentry_list s) \<and> dom (dentries s) = set (dentry_list s) \<and> set F = set (dentry_list s) \<and>
     (\<forall>d x. dentries s d = Some x \<longrightarrow> d < d_next s \<and> unat (d_ref x) = count_list F d) \<and>
     inj_on (\<lambda>d. map_option d_pathname (dentries s d)) (set (dentry_list s))"

lemma refs_okD:
  assumes "refs_ok s F"
  shows "distinct (dentry_list s)" and "dom (dentries s) = set (dentry_list s)" and "set F = set (dentry_list s)"
    and "dentries s d = Some x \<Longrightarrow> d < d_next s \<and> unat (d_ref x) = count_list F d"
    and "inj_on (\<lambda>d. map_option d_pathname (dentries s d)) (set (dentry_list s))"
  using assms unfolding refs_ok_def by blast+

text \<open>States that agree on the dentry cache.\<close>

definition same_cache :: "'f vfs \<Rightarrow> 'f vfs \<Rightarrow> bool" where
  "same_cache s t \<longleftrightarrow> dentries t = dentries s \<and> dentry_list t = dentry_list s \<and> d_next t = d_next s \<and>
     file_list t = file_list s \<and> fd_count t = fd_count s \<and> mount_list t = mount_list s"

lemma same_cache_refl [simp]: "same_cache s s"
  by (simp add: same_cache_def)

lemma same_cache_heap [simp]: "same_cache s (t\<lparr>vheap := h\<rparr>) = same_cache s t" "same_cache s (t\<lparr>fs_state := f\<rparr>) = same_cache s t"
  by (simp_all add: same_cache_def)

lemma same_cache_refs: "same_cache s t \<Longrightarrow> refs_ok s F \<Longrightarrow> refs_ok t F"
  by (simp add: same_cache_def refs_ok_def)

lemma mount_get_cache: "mount_get_by_name s p = Some (m, s') \<Longrightarrow> same_cache s s'"
  by (auto simp: mount_get_by_name_def split: Option.bind_splits if_splits)

lemma find_dentry_Some: "find_dentry s p = Some d \<Longrightarrow> d \<in> set (dentry_list s) \<and> (\<exists>x. dentries s d = Some x \<and> d_pathname x = p)"
  by (auto simp: find_dentry_def dest!: find_Some_unique)

lemma find_dentry_None: "find_dentry s p = None \<Longrightarrow> d \<in> set (dentry_list s) \<Longrightarrow> dentries s d = Some x \<Longrightarrow> d_pathname x \<noteq> p"
  by (auto simp: find_dentry_def find_None_iff)

lemma in_set_count: "d \<in> set F \<longleftrightarrow> 0 < count_list F d"
  using count_list_0_iff [of F d] by auto

lemma set_remove1_count: "set (remove1 d F) = (if count_list F d = 1 then set F - {d} else set F)"
  by (auto simp: in_set_count split: if_splits)

lemma refs_ok_share:
  assumes "refs_ok s F" and "dentries s d = Some x" and "length F < 2 ^ 32"
  shows "refs_ok (s\<lparr>vheap := h, dentries := (dentries s)(d \<mapsto> x\<lparr>d_ref := d_ref x + 1\<rparr>)\<rparr>) (d # F)"
proof -
  note r = refs_okD [OF assms(1)]
  have "count_list F d \<le> length F" by (induction F) auto
  then have "unat (d_ref x) + 1 < 2 ^ 64" using r(4) [OF assms(2)] assms(3) by simp
  then have one: "unat (d_ref x + 1) = unat (d_ref x) + 1" using unat_add_of_nat [of "d_ref x" 1] by simp
  have path: "map_option d_pathname (((dentries s)(d \<mapsto> x\<lparr>d_ref := d_ref x + 1\<rparr>)) e) = map_option d_pathname (dentries s e)" for e
    using assms(2) by simp
  have "d \<in> set (dentry_list s)" using r(2) assms(2) by auto
  then show ?thesis
    using r(1-3,5) r(4) one assms(2) unfolding refs_ok_def by (auto simp: path insert_absorb simp del: fun_upd_apply) (auto split: if_splits)
qed

lemma refs_ok_new:
  assumes "refs_ok s F" and "find_dentry s (d_pathname x) = None" and "d_ref x = 1"
  shows "refs_ok (s\<lparr>d_next := Suc (d_next s), dentries := (dentries s)(d_next s \<mapsto> x), dentry_list := dentry_list s @ [d_next s]\<rparr>)
    (d_next s # F)"
proof -
  note r = refs_okD [OF assms(1)]
  let ?d = "d_next s" and ?D = "(dentries s)(d_next s \<mapsto> x)"
  have fresh: "?d \<notin> set (dentry_list s)" using r(2,4) by fastforce
  then have zero: "count_list F ?d = 0" using r(3) by (simp add: count_list_0_iff)
  have path: "map_option d_pathname (?D e) = map_option d_pathname (dentries s e)" if "e \<in> set (dentry_list s)" for e
    using that fresh by auto
  have new: "map_option d_pathname (dentries s e) \<noteq> Some (d_pathname x)" if "e \<in> set (dentry_list s)" for e
    using find_dentry_None [OF assms(2) that] by auto
  have "inj_on (\<lambda>e. map_option d_pathname (?D e)) (set (dentry_list s))" using r(5) path by (simp cong: inj_on_cong)
  moreover have "map_option d_pathname (?D ?d) \<notin> (\<lambda>e. map_option d_pathname (?D e)) ` (set (dentry_list s) - {?d})"
  proof
    assume "map_option d_pathname (?D ?d) \<in> (\<lambda>e. map_option d_pathname (?D e)) ` (set (dentry_list s) - {?d})"
    then obtain e where "map_option d_pathname (?D ?d) = map_option d_pathname (?D e)" and e: "e \<in> set (dentry_list s) - {?d}"
      by (rule imageE)
    then show False using new [of e] by simp
  qed
  ultimately have "inj_on (\<lambda>e. map_option d_pathname (?D e)) (set (dentry_list s @ [?d]))" by (simp add: inj_on_insert)
  moreover have "e < Suc ?d \<and> unat (d_ref y) = count_list (?d # F) e" if "?D e = Some y" for e y
    using that r(4) [of e y] zero assms(3) by (cases "e = ?d") auto
  moreover have "dom ?D = set (dentry_list s @ [?d])" using r(2) by auto
  ultimately show ?thesis using r(1,3) fresh unfolding refs_ok_def by simp
qed

lemma refs_ok_drop:
  assumes "refs_ok s F" and "dentries s d = Some x" and "d_ref x \<noteq> 1"
  shows "refs_ok (s\<lparr>dentries := (dentries s)(d \<mapsto> x\<lparr>d_ref := d_ref x - 1\<rparr>)\<rparr>) (remove1 d F)"
proof -
  note r = refs_okD [OF assms(1)]
  let ?D = "(dentries s)(d \<mapsto> x\<lparr>d_ref := d_ref x - 1\<rparr>)"
  have d: "d \<in> set (dentry_list s)" using r(2) assms(2) by auto
  then have pos: "0 < count_list F d" using r(3) in_set_count by metis
  have ref: "unat (d_ref x) = count_list F d" using r(4) [OF assms(2)] by simp
  then have "d_ref x \<noteq> 0" using pos by auto
  then have one: "unat (d_ref x - 1) = count_list F d - 1" using ref by (simp add: unat_minus_one)
  have "count_list F d \<noteq> 1" using ref assms(3) by (metis unat_1 word_unat_eq_iff)
  then have set: "set (remove1 d F) = set F" by (simp add: set_remove1_count)
  have path: "map_option d_pathname (?D e) = map_option d_pathname (dentries s e)" for e using assms(2) by simp
  have "e < d_next s \<and> unat (d_ref y) = count_list (remove1 d F) e" if "?D e = Some y" for e y
    using that r(4) [of e] one assms(2) by (cases "e = d") (auto simp: count_list_remove1)
  moreover have "dom ?D = set (dentry_list s)" using r(2) d by auto
  ultimately show ?thesis using r(1,3,5) set unfolding refs_ok_def by (simp add: path del: fun_upd_apply)
qed

lemma refs_ok_last:
  assumes "refs_ok s F" and "dentries s d = Some x" and "d_ref x = 1"
  shows "refs_ok (s\<lparr>vheap := h, fs_state := f, dentry_list := remove1 d (dentry_list s), dentries := (dentries s)(d := None)\<rparr>)
    (remove1 d F)"
proof -
  note r = refs_okD [OF assms(1)]
  have "count_list F d = 1" using r(4) [OF assms(2)] assms(3) by simp
  then have set: "set (remove1 d F) = set F - {d}" by (simp add: set_remove1_count)
  have "inj_on (\<lambda>e. map_option d_pathname (((dentries s)(d := None)) e)) (set (dentry_list s) - {d})"
    using inj_on_diff [OF r(5), of "{d}"] by (rule inj_on_cong [THEN iffD1, rotated]) auto
  moreover have "count_list (remove1 d F) e = count_list F e" if "e \<noteq> d" for e using that by (simp add: count_list_remove1)
  ultimately show ?thesis using r(1-4) set unfolding refs_ok_def by (auto split: if_splits)
qed

text \<open>Opening and closing at the level of dentries.\<close>

definition new_dentry :: "bytes \<Rightarrow> 'f mount \<Rightarrow> nat \<Rightarrow> 'f dentry" where
  "new_dentry p mount priv = \<lparr>d_pathname = p, d_pathlen = length p + 1, d_mnt = mount, d_ref = 1, d_private = priv\<rparr>"

lemma vfs_open_new_cases:
  assumes "vfs_open_new s mount p mode = Some (r, d, s')"
  shows "(r < 0 \<and> same_cache s s') \<or> (r = 0 \<and> d = d_next s \<and> (\<exists>priv. same_cache (s\<lparr>d_next := Suc (d_next s),
    dentries := (dentries s)(d_next s \<mapsto> new_dentry p mount priv), dentry_list := dentry_list s @ [d_next s]\<rparr>) s'))"
proof (cases "op_lookup (fs_ops (mnt_fstype mount))")
  case None
  then show ?thesis using assms
    by (auto simp: vfs_open_new_def Let_def ENOMEM_def ENODEV_def split: Option.bind_splits if_splits)
next
  case (Some lookup)
  obtain ok h where a: "kh_alloc (vheap s) 56 = Some (ok, h)" using assms by (auto simp: vfs_open_new_def split: Option.bind_splits)
  show ?thesis
  proof (cases ok)
    case False
    then show ?thesis using assms a by (auto simp: vfs_open_new_def ENOMEM_def)
  next
    case True
    then obtain rr h1 f1 where l: "lookup h (fs_state s) p = Some (rr, h1, f1)"
      using assms a Some by (auto simp: vfs_open_new_def split: Option.bind_splits)
    show ?thesis
    proof (cases rr)
      case None
      then show ?thesis using assms a True Some l by (auto simp: vfs_open_new_def ENOENT_def split: Option.bind_splits)
    next
      case (Some priv)
      obtain ret h2 f2 where o: "op_open (fs_ops (mnt_fstype mount)) h1 f1 priv mode = Some (ret, h2, f2)"
        using assms a True \<open>op_lookup (fs_ops (mnt_fstype mount)) = Some lookup\<close> l Some
        by (auto simp: vfs_open_new_def Let_def split: Option.bind_splits)
      note run = assms a True \<open>op_lookup (fs_ops (mnt_fstype mount)) = Some lookup\<close> l Some o
      show ?thesis
      proof (cases "ret < 0")
        case True
        then show ?thesis using run by (auto simp: vfs_open_new_def Let_def split: Option.bind_splits)
      next
        case False
        have "same_cache (s\<lparr>d_next := Suc (d_next s), dentries := (dentries s)(d_next s \<mapsto> new_dentry p mount priv),
            dentry_list := dentry_list s @ [d_next s]\<rparr>) s'" "r = 0" "d = d_next s"
          using False run by (auto simp: vfs_open_new_def Let_def same_cache_def new_dentry_def atomic_store_def)
        then show ?thesis by blast
      qed
    qed
  qed
qed

lemma vfs_open_new_refs:
  assumes "vfs_open_new s mount p mode = Some (r, d, s')" and "refs_ok s F" and "find_dentry s p = None"
  shows "(r < 0 \<and> same_cache s s') \<or> (r = 0 \<and> refs_ok s' (d # F) \<and> file_list s' = file_list s \<and> fd_count s' = fd_count s)"
  using vfs_open_new_cases [OF assms(1)]
proof (elim disjE conjE exE)
  fix priv
  let ?t = "s\<lparr>d_next := Suc (d_next s), dentries := (dentries s)(d_next s \<mapsto> new_dentry p mount priv), dentry_list := dentry_list s @ [d_next s]\<rparr>"
  assume r: "r = 0" "d = d_next s" and c: "same_cache ?t s'"
  have "refs_ok ?t (d # F)"
    unfolding r by (rule refs_ok_new [OF assms(2)]) (simp_all add: new_dentry_def assms(3))
  from same_cache_refs [OF c this] show ?thesis using r c by (simp add: same_cache_def)
qed simp

lemma vfs_open_refs:
  assumes "vfs_open s p mode = Some (r, d, s')" and "refs_ok s F" and "length F < 2 ^ 32"
  shows "(r < 0 \<and> same_cache s s') \<or> (r = 0 \<and> refs_ok s' (d # F) \<and> file_list s' = file_list s \<and> fd_count s' = fd_count s)"
proof -
  obtain m s1 where m: "mount_get_by_name s p = Some (m, s1)" using assms(1) by (auto simp: vfs_open_def split: Option.bind_splits)
  have c1: "same_cache s s1" by (rule mount_get_cache [OF m])
  show ?thesis
  proof (cases m)
    case None
    then show ?thesis using assms(1) m c1 by (auto simp: vfs_open_def ENODEV_def)
  next
    case (Some mnt)
    obtain ok h where a: "kh_alloc (vheap s1) (length p + 1) = Some (ok, h)"
      using assms(1) m Some by (auto simp: vfs_open_def split: Option.bind_splits)
    have ok: "ok" using assms(1) m Some a kh_alloc_pos [OF a] by (cases ok) (auto simp: vfs_open_def)
    let ?s = "s1\<lparr>vheap := h\<rparr>"
    have r1: "refs_ok ?s F" using same_cache_refs [OF c1 assms(2)] by (simp add: refs_ok_def)
    show ?thesis
    proof (cases "find_dentry ?s p")
      case None
      then have "vfs_open_new ?s mnt p mode = Some (r, d, s')" using assms(1) m Some a ok by (simp add: vfs_open_def)
      from vfs_open_new_refs [OF this r1 None] show ?thesis using c1 by (auto simp: same_cache_def)
    next
      case d: (Some d')
      obtain x where x: "dentries ?s d' = Some x" using find_dentry_Some [OF d] by blast
      obtain h' where "d = d'" "r = 0" and s': "s' = ?s\<lparr>vheap := h', dentries := (dentries ?s)(d' \<mapsto> x\<lparr>d_ref := d_ref x + 1\<rparr>)\<rparr>"
        using assms(1) m Some a ok d x
        by (auto simp: vfs_open_def upd_dentry_def atomic_fetch_add_def split: Option.bind_splits)
      then show ?thesis using refs_ok_share [OF r1 x assms(3), of h'] c1 unfolding s' by (simp add: same_cache_def)
    qed
  qed
qed

lemma vfs_close_refs:
  assumes "vfs_close s d = Some (r, s')" and "refs_ok s F" and "d \<in> set F"
  shows "(r < 0 \<and> same_cache s s') \<or> (r = 0 \<and> refs_ok s' (remove1 d F) \<and> file_list s' = file_list s \<and> fd_count s' = fd_count s)"
proof -
  note rk = refs_okD [OF assms(2)]
  obtain x where x: "dentries s d = Some x" using assms(3) rk(2,3) by auto
  obtain m s1 where m: "mount_get_by_name s (d_pathname x) = Some (m, s1)"
    using assms(1) x by (auto simp: vfs_close_def split: Option.bind_splits)
  have c1: "same_cache s s1" by (rule mount_get_cache [OF m])
  have x1: "dentries s1 d = Some x" and r1: "refs_ok s1 F" using x c1 same_cache_refs [OF c1 assms(2)] by (simp_all add: same_cache_def)
  have f: "find_dentry s1 (d_pathname x) \<noteq> None"
    using find_dentry_None [of s1 "d_pathname x" d x] x1 refs_okD(2) [OF r1] by auto
  have sub: "snd (atomic_fetch_sub (d_ref x) 1) = d_ref x - 1" by (simp add: atomic_fetch_sub_def atomic_fetch_add_def)
  show ?thesis
  proof (cases m)
    case None
    then show ?thesis using assms(1) m x c1 by (auto simp: vfs_close_def ENODEV_def)
  next
    case (Some mnt)
    show ?thesis
    proof (cases "d_ref x = 1")
      case False
      then have "d_ref x - 1 \<noteq> 0" by simp
      then have "r = 0" and s': "s' = s1\<lparr>dentries := (dentries s1)(d \<mapsto> x\<lparr>d_ref := d_ref x - 1\<rparr>)\<rparr>"
        using assms(1) x x1 m Some f sub by (auto simp: vfs_close_def upd_dentry_def atomic_load_def)
      then show ?thesis using refs_ok_drop [OF r1 x1 False] c1 by (simp add: same_cache_def)
    next
      case True
      then obtain h g where "r = 0" and s': "s' = s1\<lparr>vheap := h, fs_state := g, dentry_list := remove1 d (dentry_list s1), dentries := (dentries s1)(d := None)\<rparr>"
        using assms(1) x x1 m Some f sub by (auto simp: vfs_close_def upd_dentry_def atomic_load_def split: Option.bind_splits)
      then show ?thesis using refs_ok_last [OF r1 x1 True] c1 by (simp add: same_cache_def)
    qed
  qed
qed

section \<open>Sequences of system calls\<close>

definition vfs_inv :: "'f vfs \<Rightarrow> bool" where
  "vfs_inv s \<longleftrightarrow> refs_ok s (map f_dentry (file_list s)) \<and> distinct (map f_fd (file_list s)) \<and>
     (\<forall>filp \<in> set (file_list s). f_fd filp < fd_count s) \<and> length (file_list s) \<le> unat (fd_count s)"

lemma refs_ok_perm: "refs_ok s F \<Longrightarrow> (\<And>d. count_list G d = count_list F d) \<Longrightarrow> refs_ok s G"
  using in_set_count [of _ G] in_set_count [of _ F] unfolding refs_ok_def by (auto simp: set_eq_iff)

lemma same_cache_inv: "same_cache s t \<Longrightarrow> vfs_inv s \<Longrightarrow> vfs_inv t"
  using same_cache_refs [of s t] by (simp add: vfs_inv_def same_cache_def)

lemma sys_open_inv:
  assumes "sys_open s p mode = Some (r, s')" and "vfs_inv s" and "unat (fd_count s) + 1 < 2 ^ 32"
  shows "vfs_inv s'"
proof -
  obtain ok h where a: "kh_alloc (vheap s) 40 = Some (ok, h)" using assms(1) by (auto simp: sys_open_def split: Option.bind_splits)
  let ?s = "s\<lparr>vheap := h\<rparr>"
  have i1: "vfs_inv ?s" using same_cache_inv [of s ?s] assms(2) by simp
  show ?thesis
  proof (cases ok)
    case False
    then show ?thesis using assms(1) a i1 by (simp add: sys_open_def)
  next
    case True
    then obtain ret d s1 where o: "vfs_open ?s p mode = Some (ret, d, s1)"
      using assms(1) a by (auto simp: sys_open_def split: Option.bind_splits)
    have len: "length (map f_dentry (file_list ?s)) < 2 ^ 32" using assms(2,3) by (simp add: vfs_inv_def)
    from vfs_open_refs [OF o _ len] i1 consider "ret < 0" "same_cache ?s s1"
      | "ret = 0" "refs_ok s1 (d # map f_dentry (file_list ?s))" "file_list s1 = file_list s" "fd_count s1 = fd_count s"
      by (auto simp: vfs_inv_def)
    then show ?thesis
    proof cases
      case 1
      then have "same_cache ?s s'" using assms(1) a True o by (auto simp: sys_open_def split: Option.bind_splits)
      then show ?thesis using i1 by (rule same_cache_inv)
    next
      case 2
      then have s': "s' = s1\<lparr>fd_count := fd_count s + 1, file_list := file_list s @ [\<lparr>f_fd = fd_count s, f_dentry = d\<rparr>]\<rparr>"
        using assms(1) a True o by (simp add: sys_open_def)
      have up: "unat (fd_count s + 1) = unat (fd_count s) + 1" using assms(3) by (simp add: unat_word_ariths)
      have "refs_ok s1 (map f_dentry (file_list s) @ [d])" by (rule refs_ok_perm [OF 2(2)]) simp
      moreover have "f_fd filp < fd_count s + 1 \<and> f_fd filp \<noteq> fd_count s" if "filp \<in> set (file_list s)" for filp
        using assms(2) that up by (auto simp: vfs_inv_def word_less_nat_alt)
      moreover have "fd_count s < fd_count s + 1" using up by (simp add: word_less_nat_alt)
      ultimately show ?thesis using assms(2) up unfolding s' by (auto simp: vfs_inv_def refs_ok_def)
    qed
  qed
qed

lemma sys_close_inv:
  assumes "sys_close s fd = Some (r, s')" and "vfs_inv s"
  shows "vfs_inv s'"
proof (cases "find_file s fd")
  case None
  then show ?thesis using assms by (simp add: sys_close_def)
next
  case (Some filp)
  then have filp: "filp \<in> set (file_list s)" by (auto simp: find_file_def dest!: find_Some_unique)
  obtain ret s1 where c: "vfs_close s (f_dentry filp) = Some (ret, s1)"
    using assms(1) Some by (auto simp: sys_close_def split: Option.bind_splits)
  have d: "f_dentry filp \<in> set (map f_dentry (file_list s))" and r: "refs_ok s (map f_dentry (file_list s))"
    using filp assms(2) by (auto simp: vfs_inv_def)
  from vfs_close_refs [OF c r d] consider "ret < 0" "same_cache s s1"
    | "ret = 0" "refs_ok s1 (remove1 (f_dentry filp) (map f_dentry (file_list s)))" "file_list s1 = file_list s" "fd_count s1 = fd_count s"
    by blast
  then show ?thesis
  proof cases
    case 1
    then show ?thesis using assms Some c same_cache_inv [of s s1] by (simp add: sys_close_def)
  next
    case 2
    obtain h where s': "s' = s1\<lparr>vheap := h, file_list := remove1 filp (file_list s)\<rparr>"
      using assms(1) Some c 2 by (auto simp: sys_close_def split: Option.bind_splits)
    have cnt: "count_list (map f_dentry fs) e = count_list (map f_dentry (remove1 filp fs)) e + (if f_dentry filp = e then 1 else 0)"
      if "filp \<in> set fs" for e fs using that by (induction fs) auto
    have "refs_ok s1 (map f_dentry (remove1 filp (file_list s)))"
      by (rule refs_ok_perm [OF 2(2)]) (simp add: cnt [OF filp])
    moreover have "distinct (map f_fd (remove1 filp (file_list s)))"
      using assms(2) by (auto simp: vfs_inv_def distinct_map intro: inj_on_subset dest: notin_set_remove1)
    ultimately show ?thesis
      using assms(2) 2(4) unfolding s' by (auto simp: vfs_inv_def refs_ok_def length_remove1 dest: notin_set_remove1)
  qed
qed

text \<open>The states a system reaches by opening and closing files and by the calls that move data; the counter of descriptors does not wrap around.\<close>

inductive vfs_step :: "'f vfs \<Rightarrow> 'f vfs \<Rightarrow> bool" where
  open_call: "sys_open s p mode = Some (r, s') \<Longrightarrow> unat (fd_count s) + 1 < 2 ^ 32 \<Longrightarrow> vfs_step s s'"
| close_call: "sys_close s fd = Some (r, s') \<Longrightarrow> vfs_step s s'"
| read_call: "sys_read s fd n = Some (r, buf, s') \<Longrightarrow> vfs_step s s'"
| write_call: "sys_write s fd buf = Some (r, s') \<Longrightarrow> vfs_step s s'"
| stat_call: "sys_stat s p = Some (r, sz, s') \<Longrightarrow> vfs_step s s'"
| creat_call: "sys_creat s p mode = Some (r, s') \<Longrightarrow> vfs_step s s'"
| sync_call: "sys_sync s = Some s' \<Longrightarrow> vfs_step s s'"

inductive_cases vfs_stepE: "vfs_step s s'"

definition no_files :: "'f vfs \<Rightarrow> bool" where
  "no_files s \<longleftrightarrow> dentries s = (\<lambda>_. None) \<and> dentry_list s = [] \<and> file_list s = [] \<and> fd_count s = 0"

inductive vfs_reachable :: "'f vfs \<Rightarrow> bool" where
  start: "no_files s \<Longrightarrow> vfs_reachable s"
| step: "vfs_reachable s \<Longrightarrow> vfs_step s s' \<Longrightarrow> vfs_reachable s'"

lemma same_cache_trans: "same_cache s t \<Longrightarrow> same_cache t u \<Longrightarrow> same_cache s u"
  by (simp add: same_cache_def)

lemma sys_read_cache: "sys_read s fd n = Some (r, buf, s') \<Longrightarrow> same_cache s s'"
  by (auto simp: sys_read_def vfs_read_def split: option.splits Option.bind_splits) (erule mount_get_cache)+

lemma sys_write_cache: "sys_write s fd buf = Some (r, s') \<Longrightarrow> same_cache s s'"
  by (auto simp: sys_write_def vfs_write_def split: option.splits Option.bind_splits) (erule mount_get_cache)+

lemma sys_stat_cache: "sys_stat s p = Some (r, sz, s') \<Longrightarrow> same_cache s s'"
  by (auto simp: sys_stat_def vfs_stat_def split: option.splits Option.bind_splits) (erule mount_get_cache)+

lemma vfs_creat_cache: "vfs_creat s p mode = Some (r, s') \<Longrightarrow> same_cache s s'"
  by (auto simp: vfs_creat_def split: option.splits Option.bind_splits) (erule mount_get_cache)+

lemma same_cache_heap_left [simp]: "same_cache (s\<lparr>vheap := h\<rparr>) t = same_cache s t"
  by (simp add: same_cache_def)

lemma sys_creat_cache: "sys_creat s p mode = Some (r, s') \<Longrightarrow> same_cache s s'"
  by (auto simp: sys_creat_def Let_def dest!: vfs_creat_cache split: Option.bind_splits if_splits)

lemma sync_loop_cache: "sync_loop ty p ds s = Some s' \<Longrightarrow> same_cache s s'"
proof (induction ds arbitrary: s)
  case (Cons d ds)
  then obtain s1 where "sync_loop ty p ds s1 = Some s'" "same_cache s s1"
    by (auto split: Option.bind_splits if_splits option.splits)
  then show ?case using Cons.IH same_cache_trans by blast
qed simp

lemma vfs_sync_cache: "vfs_sync s d = Some s' \<Longrightarrow> same_cache s s'"
  by (auto simp: vfs_sync_def split: option.splits Option.bind_splits)
    (metis mount_get_cache sync_loop_cache same_cache_trans)+

lemma sync_fold_None: "fold (\<lambda>filp r. Option.bind r (\<lambda>s. vfs_sync s (f_dentry filp))) fs None = None"
  by (induction fs) auto

lemma sync_fold_cache:
  "fold (\<lambda>filp r. Option.bind r (\<lambda>s. vfs_sync s (f_dentry filp))) fs (Some s) = Some s' \<Longrightarrow> same_cache s s'"
proof (induction fs arbitrary: s)
  case (Cons filp fs)
  then obtain s1 where s1: "vfs_sync s (f_dentry filp) = Some s1"
    by (cases "vfs_sync s (f_dentry filp)") (auto simp: sync_fold_None)
  then have "same_cache s1 s'" using Cons by simp
  then show ?case using vfs_sync_cache [OF s1] same_cache_trans by blast
qed simp

lemma sys_sync_cache: "sys_sync s = Some s' \<Longrightarrow> same_cache s s'"
  by (auto simp: sys_sync_def dest: sync_fold_cache)

lemmas call_caches = sys_read_cache sys_write_cache sys_stat_cache sys_creat_cache sys_sync_cache

lemma vfs_step_inv: "vfs_step s s' \<Longrightarrow> vfs_inv s \<Longrightarrow> vfs_inv s'"
  by (erule vfs_stepE) (auto intro: sys_open_inv sys_close_inv dest!: call_caches elim: same_cache_inv)

lemma no_files_inv: "no_files s \<Longrightarrow> vfs_inv s"
  by (simp add: no_files_def vfs_inv_def refs_ok_def)

lemma vfs_reachable_inv: "vfs_reachable s \<Longrightarrow> vfs_inv s"
  by (induction rule: vfs_reachable.induct) (auto intro: vfs_step_inv no_files_inv)

text \<open>
  C19: Reference counting of dentries: in every state reached by system calls, a dentry exists exactly while some open file
  refers to it, and its reference count is the number of those files; the cache holds it once and no two cached dentries have the same
  path; all descriptors differ.
\<close>

theorem vfs_refcount:
  assumes "vfs_reachable s"
  shows "(case dentries s d of
      Some x \<Rightarrow> unat (d_ref x) = length (filter (\<lambda>filp. f_dentry filp = d) (file_list s)) \<and> d_ref x \<noteq> 0 \<and> d \<in> set (dentry_list s)
    | None \<Rightarrow> d \<notin> f_dentry ` set (file_list s) \<and> d \<notin> set (dentry_list s)) \<and>
    distinct (dentry_list s) \<and> distinct (map f_fd (file_list s)) \<and>
    inj_on (\<lambda>d. map_option d_pathname (dentries s d)) (set (dentry_list s))"
proof -
  have i: "vfs_inv s" by (rule vfs_reachable_inv [OF assms])
  then have r: "refs_ok s (map f_dentry (file_list s))" by (simp add: vfs_inv_def)
  note rk = refs_okD [OF r]
  have len: "count_list (map f_dentry fs) d = length (filter (\<lambda>filp. f_dentry filp = d) fs)" for fs :: "open_file list"
    by (induction fs) auto
  have "case dentries s d of
      Some x \<Rightarrow> unat (d_ref x) = length (filter (\<lambda>filp. f_dentry filp = d) (file_list s)) \<and> d_ref x \<noteq> 0 \<and> d \<in> set (dentry_list s)
    | None \<Rightarrow> d \<notin> f_dentry ` set (file_list s) \<and> d \<notin> set (dentry_list s)"
  proof (cases "dentries s d")
    case None
    then have "d \<notin> set (dentry_list s)" using rk(2) by (metis domIff)
    then show ?thesis using None rk(3) by simp
  next
    case (Some x)
    then have mem: "d \<in> set (dentry_list s)" using rk(2) by auto
    then have "0 < count_list (map f_dentry (file_list s)) d" using rk(3) in_set_count by metis
    then show ?thesis using rk(4) [OF Some] mem Some by (auto simp: len)
  qed
  then show ?thesis using i rk(1,5) by (simp add: vfs_inv_def)
qed

section \<open>Open and close\<close>

lemma find_append_None: "find P xs = None \<Longrightarrow> find P (xs @ ys) = find P ys"
  by (induction xs) (auto split: if_splits)

lemma find_file_new:
  assumes "vfs_inv s" and "file_list s1 = file_list s @ [\<lparr>f_fd = fd_count s, f_dentry = d\<rparr>]"
  shows "find_file s1 (sint (fd_count s)) = Some \<lparr>f_fd = fd_count s, f_dentry = d\<rparr>"
proof -
  have "find (\<lambda>filp. f_fd filp = fd_count s) (file_list s) = None"
    using assms(1) by (auto simp: find_None_iff vfs_inv_def)
  then show ?thesis unfolding find_file_def assms(2) by (simp add: find_append_None)
qed

lemma mount_get_roomy:
  assumes "roomy (vheap s)" and "p \<noteq> []" and "length p + 1 \<le> block_bytes (length p)"
  shows "\<exists>h. mount_get_by_name s p = Some (mount_match (mount_list s) p, s\<lparr>vheap := h\<rparr>) \<and> roomy h"
  using kh_alloc_roomy [OF assms(1), of "length p"] assms(2,3) by (auto simp: mount_get_by_name_def)

lemma mount_get_result:
  assumes "mount_get_by_name s p = Some (m, s')"
  shows "m = mount_match (mount_list s) p" and "p \<noteq> []" and "length p + 1 \<le> block_bytes (length p)"
  using assms by (auto simp: mount_get_by_name_def kh_alloc_def split: Option.bind_splits if_splits)

definition opened :: "'f vfs \<Rightarrow> bytes \<Rightarrow> nat \<Rightarrow> 'f vfs \<Rightarrow> bool" where
  "opened s p d s' \<longleftrightarrow> mount_list s' = mount_list s \<and> file_list s' = file_list s \<and> fd_count s' = fd_count s \<and>
     (\<exists>mnt \<in> set (mount_list s). mount_match (mount_list s) p = Some mnt) \<and> p \<noteq> [] \<and> length p + 1 \<le> block_bytes (length p) \<and>
     ((\<exists>x. dentries s d = Some x \<and> d_pathname x = p \<and> dentries s' = (dentries s)(d \<mapsto> x\<lparr>d_ref := d_ref x + 1\<rparr>) \<and>
         dentry_list s' = dentry_list s) \<or>
      (d = d_next s \<and> (\<exists>mnt priv. dentries s' = (dentries s)(d \<mapsto> new_dentry p mnt priv)) \<and> dentry_list s' = dentry_list s @ [d]))"

lemma mount_match_mem: "mount_match ms p = Some mnt \<Longrightarrow> mnt \<in> set ms"
proof (induction ms p rule: mount_match.induct)
  case (1 ms p)
  then show ?case
    by (subst (asm) mount_match.simps) (auto simp: Let_def split: if_splits option.splits dest!: find_Some_unique)
qed

lemma vfs_open_opened:
  assumes "vfs_open s p mode = Some (r, d, s')" and "\<not> r < 0"
  shows "opened s p d s'"
proof -
  obtain m s1 where m: "mount_get_by_name s p = Some (m, s1)" using assms(1) by (auto simp: vfs_open_def split: Option.bind_splits)
  note c1 = mount_get_cache [OF m] and res = mount_get_result [OF m]
  obtain mnt where Some: "m = Some mnt" using assms m by (cases m) (auto simp: vfs_open_def ENODEV_def)
  have mem: "\<exists>mnt \<in> set (mount_list s). mount_match (mount_list s) p = Some mnt"
    using res(1) Some mount_match_mem [of "mount_list s" p mnt] by (intro bexI [of _ mnt]) simp_all
  obtain ok h where a: "kh_alloc (vheap s1) (length p + 1) = Some (ok, h)"
    using assms(1) m Some by (auto simp: vfs_open_def split: Option.bind_splits)
  have ok: "ok" using assms(1) m Some a kh_alloc_pos [OF a] by (cases ok) (auto simp: vfs_open_def)
  let ?s = "s1\<lparr>vheap := h\<rparr>"
  show ?thesis
  proof (cases "find_dentry ?s p")
    case None
    then have "vfs_open_new ?s mnt p mode = Some (r, d, s')" using assms(1) m Some a ok by (simp add: vfs_open_def)
    from vfs_open_new_cases [OF this] assms(2) show ?thesis
      using c1 res mem by (auto simp: same_cache_def opened_def)
  next
    case d: (Some d')
    obtain x where x: "dentries ?s d' = Some x" "d_pathname x = p" using find_dentry_Some [OF d] by blast
    obtain h' where "d = d'" "r = 0" and s': "s' = ?s\<lparr>vheap := h', dentries := (dentries ?s)(d' \<mapsto> x\<lparr>d_ref := d_ref x + 1\<rparr>)\<rparr>"
      using assms(1) m Some a ok d x
      by (auto simp: vfs_open_def upd_dentry_def atomic_fetch_add_def split: Option.bind_splits)
    then show ?thesis using c1 res x mem unfolding s' by (auto simp: same_cache_def opened_def)
  qed
qed

text \<open>What closing relies on: releasing any dentry returns and leaves the heap usable.\<close>

definition releases :: "'f vfs \<Rightarrow> bool" where
  "releases s \<longleftrightarrow> (\<forall>d x m h. dentries s d = Some x \<and> mount_match (mount_list s) (d_pathname x) = Some m \<and> roomy h \<longrightarrow>
     (\<exists>r h' f'. op_release (fs_ops (mnt_fstype m)) h (fs_state s) (d_private x) = Some (r, h', f') \<and> roomy h'))"

lemma vfs_close_opened:
  assumes "opened s p d s0" and "refs_ok s F"
    and s1: "dentries s1 = dentries s0" "dentry_list s1 = dentry_list s0" "mount_list s1 = mount_list s0" and "roomy (vheap s1)"
    and "releases s1"
  shows "\<exists>s2. vfs_close s1 d = Some (0, s2) \<and> dentries s2 = dentries s \<and> dentry_list s2 = dentry_list s \<and>
    file_list s2 = file_list s1 \<and> roomy (vheap s2)"
proof -
  note o = assms(1) [unfolded opened_def] and rk = refs_okD [OF assms(2)]
  obtain mnt where mnt: "mnt \<in> set (mount_list s)" "mount_match (mount_list s) p = Some mnt" using o by blast
  obtain h where h: "mount_get_by_name s1 p = Some (Some mnt, s1\<lparr>vheap := h\<rparr>)" "roomy h"
    using mount_get_roomy [OF assms(6), of p] o mnt(2) s1(3) by auto
  consider x where "dentries s d = Some x" "d_pathname x = p" "dentries s0 = (dentries s)(d \<mapsto> x\<lparr>d_ref := d_ref x + 1\<rparr>)" "dentry_list s0 = dentry_list s"
    | m priv where "d = d_next s" "dentries s0 = (dentries s)(d \<mapsto> new_dentry p m priv)" "dentry_list s0 = dentry_list s @ [d]"
    using o by blast
  then show ?thesis
  proof cases
    case (1 x)
    have d: "d \<in> set (dentry_list s)" using rk(2) 1(1) by auto
    then have "0 < count_list F d" using rk(3) in_set_count by metis
    then have nz: "d_ref x \<noteq> 0" using rk(4) [OF 1(1)] by auto
    have f: "find_dentry (s1\<lparr>vheap := h\<rparr>) p \<noteq> None"
      using d 1 s1 by (auto simp: find_dentry_def find_None_iff)
    let ?s2 = "s1\<lparr>vheap := h, dentries := (dentries s1)(d \<mapsto> x)\<rparr>"
    have "vfs_close s1 d = Some (0, ?s2)"
      using 1 s1 h f nz by (auto simp: vfs_close_def upd_dentry_def atomic_load_def atomic_fetch_sub_def atomic_fetch_add_def)
    then show ?thesis using 1 s1 h(2) by auto
  next
    case (2 m priv)
    have fresh: "d \<notin> set (dentry_list s)" "dentries s d = None" using rk(2,4) 2(1) by (fastforce, metis domIff less_irrefl not_None_eq)
    have f: "find_dentry (s1\<lparr>vheap := h\<rparr>) p \<noteq> None"
      using 2 s1 by (auto simp: find_dentry_def find_None_iff new_dentry_def)
    obtain r h' f' where rel: "op_release (fs_ops (mnt_fstype mnt)) h (fs_state s1) priv = Some (r, h', f')" "roomy h'"
    proof -
      have "dentries s1 d = Some (new_dentry p m priv)" "mount_match (mount_list s1) p = Some mnt" using 2(2) s1 mnt(2) o by simp_all
      then show thesis using assms(7) h(2) that unfolding releases_def by (fastforce simp: new_dentry_def)
    qed
    let ?s2 = "s1\<lparr>vheap := h', fs_state := f', dentry_list := remove1 d (dentry_list s1), dentries := (dentries s1)(d := None)\<rparr>"
    have "vfs_close s1 d = Some (0, ?s2)"
      using 2 s1 h f rel by (auto simp: vfs_close_def upd_dentry_def atomic_load_def atomic_fetch_sub_def atomic_fetch_add_def new_dentry_def)
    then show ?thesis using 2 s1 rel(2) fresh by (auto simp: remove1_append fun_eq_iff)
  qed
qed

lemma open_close_restores:
  assumes "vfs_reachable s" and "sys_open s p mode = Some (fd, s1)" and "0 \<le> fd" and "roomy (vheap s1)" and "releases s1"
  shows "\<exists>s2. sys_close s1 fd = Some (0, s2) \<and> file_list s2 = file_list s \<and> dentry_list s2 = dentry_list s \<and>
    dentries s2 = dentries s"
proof -
  have i: "vfs_inv s" by (rule vfs_reachable_inv [OF assms(1)])
  obtain h where a: "kh_alloc (vheap s) 40 = Some (True, h)"
    using assms(2,3) by (auto simp: sys_open_def Let_def ENOMEM_def split: Option.bind_splits if_splits)
  obtain ret d s0 where o: "vfs_open (s\<lparr>vheap := h\<rparr>) p mode = Some (ret, d, s0)"
    using assms(2) a by (auto simp: sys_open_def split: Option.bind_splits)
  have ret: "\<not> ret < 0" using assms(2,3) a o by (auto simp: sys_open_def split: Option.bind_splits if_splits)
  let ?filp = "\<lparr>f_fd = fd_count s0, f_dentry = d\<rparr>"
  have fd: "fd = sint (fd_count s0)" and s1: "s1 = s0\<lparr>fd_count := fd_count s0 + 1, file_list := file_list s0 @ [?filp]\<rparr>"
    using assms(2) a o ret by (auto simp: sys_open_def)
  have op: "opened (s\<lparr>vheap := h\<rparr>) p d s0" by (rule vfs_open_opened [OF o ret])
  then have lists: "file_list s0 = file_list s" "fd_count s0 = fd_count s" by (simp_all add: opened_def)
  have r: "refs_ok (s\<lparr>vheap := h\<rparr>) (map f_dentry (file_list s))" using i by (simp add: vfs_inv_def refs_ok_def)
  obtain s2 where s2: "vfs_close s1 d = Some (0, s2)" "dentries s2 = dentries s" "dentry_list s2 = dentry_list s"
      "file_list s2 = file_list s1" "roomy (vheap s2)"
    using vfs_close_opened [OF op r _ _ _ assms(4,5)] s1 by auto
  have f: "find_file s1 fd = Some ?filp"
    using find_file_new [OF i, of s1 d] lists unfolding fd s1 by simp
  have "?filp \<notin> set (file_list s)" using i lists(2) by (auto simp: vfs_inv_def)
  then have "remove1 ?filp (file_list s1) = file_list s" unfolding s1 by (simp add: lists remove1_append)
  then show ?thesis using s2 f by (auto simp: sys_close_def)
qed

text \<open>
  Opening and closing a file leaves no trace: in every reachable state, if an open succeeds (and the heap is not exhausted, and the file
  systems can release the dentries that are open), closing the descriptor returns 0, and the open files, the dentry cache, all dentries and their reference
  counts are what they were before.
\<close>

lemma sys_open_close:
  assumes "vfs_reachable s" and "sys_open s p mode = Some (fd, s1)" and "0 \<le> fd" and "roomy (vheap s1)"
    and "\<forall>d x m h. dentries s1 d = Some x \<and> mount_match (mount_list s1) (d_pathname x) = Some m \<and> roomy h \<longrightarrow>
      (\<exists>r h' f'. op_release (fs_ops (mnt_fstype m)) h (fs_state s1) (d_private x) = Some (r, h', f') \<and> roomy h')"
  shows "\<exists>s2. sys_close s1 fd = Some (0, s2) \<and> file_list s2 = file_list s \<and> dentry_list s2 = dentry_list s \<and>
    dentries s2 = dentries s"
  using assms by (intro open_close_restores) (simp_all add: releases_def)

text \<open>
  The part of a file system's contract that closing needs: releasing a handle that is \<open>valid\<close> returns, and the handle of a successful
  open is valid.
\<close>

locale releasing_fs =
  fixes ops :: "'f fs_operations" and valid :: "'f \<Rightarrow> nat \<Rightarrow> bool"
  assumes release_returns: "roomy h \<Longrightarrow> valid f q \<Longrightarrow> \<exists>r h' f'. op_release ops h f q = Some (r, h', f') \<and> roomy h'"
    and open_valid: "op_open ops h f q mode = Some (r, h', f') \<Longrightarrow> 0 \<le> r \<Longrightarrow> valid f' q"
begin

lemma valid_releases:
  assumes "\<And>m. m \<in> set (mount_list s) \<Longrightarrow> fs_ops (mnt_fstype m) = ops"
    and "\<And>d x. dentries s d = Some x \<Longrightarrow> valid (fs_state s) (d_private x)"
  shows "releases s"
  unfolding releases_def using assms release_returns mount_match_mem by metis

lemma close_after_open:
  assumes "vfs_reachable s" and "sys_open s p mode = Some (fd, s1)" and "0 \<le> fd" and "roomy (vheap s1)"
    and "\<And>m. m \<in> set (mount_list s1) \<Longrightarrow> fs_ops (mnt_fstype m) = ops"
    and "\<And>d x. dentries s1 d = Some x \<Longrightarrow> valid (fs_state s1) (d_private x)"
  shows "\<exists>s2. sys_close s1 fd = Some (0, s2) \<and> file_list s2 = file_list s"
proof -
  have "releases s1" using assms(5,6) by (rule valid_releases)
  from open_close_restores [OF assms(1-4) this] show ?thesis by blast
qed

end

text \<open>A file system that knows a fixed list of paths, as an example of the operations table.\<close>

definition sample_ops :: "bytes list fs_operations" where
  "sample_ops = \<lparr>
     op_mount = (\<lambda>h f. Some (h, f)),
     op_lookup = Some (\<lambda>h f p. Some (if p \<in> set f then Some 7 else None, h, f)),
     op_open = (\<lambda>h f q mode. Some (0, h, f)),
     op_release = (\<lambda>h f q. Some (0, h, f)),
     op_creat = (\<lambda>h f p mode. Some (0, h, f @ [p])),
     op_read = None, op_write = None, op_stat = None, op_sync = None\<rparr>"

definition sample_vfs :: "bytes list vfs" where
  "sample_vfs = \<lparr>fs_type_list = [],
     mount_list = [\<lparr>mnt_path = [], mnt_pathlen = 1, mnt_fstype = \<lparr>fs_name = [], fs_nmlen = 0, fs_ops = sample_ops\<rparr>\<rparr>],
     dentries = (\<lambda>_. None), dentry_list = [], d_next = 0, file_list = [], fd_count = 0, vheap = fresh_heap,
     fs_state = [ascii ''/a'']\<rparr>"

lemma block_bytes_2: "block_bytes (Suc (Suc 0)) = 4096"
  by (simp add: block_bytes_def size_to_order_def order_to_pages_def PAGE_SIZE_def PAGE_SHIFT_def)

lemma sample_match: "mount_match (mount_list sample_vfs) (ascii ''/a'') = Some (hd (mount_list sample_vfs))"
  by (subst mount_match.simps)
    (simp add: has_slash_def ascii_def before_last_slash_def after_last_slash_def component_def strn_eq_def sample_vfs_def)

lemma sample_open:
  "\<exists>s1. sys_open sample_vfs (ascii ''/a'') 0 = Some (0, s1) \<and> roomy (vheap s1) \<and>
    file_list s1 = [\<lparr>f_fd = 0, f_dentry = 0\<rparr>] \<and> mount_list s1 = mount_list sample_vfs"
proof -
  let ?p = "ascii ''/a''" and ?m = "hd (mount_list sample_vfs)"
  have p: "length ?p = Suc (Suc 0)" by (simp add: ascii_def)
  have f: "dentry_list sample_vfs = []" "d_next sample_vfs = 0" "file_list sample_vfs = []" "fd_count sample_vfs = 0"
    "fs_state sample_vfs = [?p]" "op_open (fs_ops (mnt_fstype ?m)) = (\<lambda>h f q mode. Some (0, h, f))"
    "op_lookup (fs_ops (mnt_fstype ?m)) = Some (\<lambda>h f p. Some (if p \<in> set f then Some 7 else None, h, f))"
    by (simp_all add: sample_vfs_def sample_ops_def)
  obtain h1 where h1: "kh_alloc (vheap sample_vfs) 40 = Some (True, h1)" "roomy h1"
    using kh_alloc_roomy [of "vheap sample_vfs" 40] by (auto simp: sample_vfs_def)
  obtain h2 where h2: "mount_get_by_name (sample_vfs\<lparr>vheap := h1\<rparr>) ?p = Some (Some (hd (mount_list sample_vfs)), sample_vfs\<lparr>vheap := h2\<rparr>)" "roomy h2"
    using mount_get_roomy [of "sample_vfs\<lparr>vheap := h1\<rparr>" ?p] h1(2) p block_bytes_2 sample_match by fastforce
  obtain h3 where h3: "kh_alloc h2 (length ?p + 1) = Some (True, h3)" "roomy h3"
    using kh_alloc_roomy [OF h2(2), of "length ?p + 1"] by auto
  obtain h4 where h4: "kh_alloc h3 56 = Some (True, h4)" "roomy h4" using kh_alloc_roomy [OF h3(2), of 56] by auto
  have "\<exists>s1. vfs_open (sample_vfs\<lparr>vheap := h1\<rparr>) ?p 0 = Some (0, 0, s1) \<and> roomy (vheap s1) \<and> file_list s1 = [] \<and>
    fd_count s1 = 0 \<and> mount_list s1 = mount_list sample_vfs"
    using h2 h3 h4 by (simp add: vfs_open_def vfs_open_new_def find_dentry_def Let_def f)
  then show ?thesis using h1 by (auto simp: sys_open_def)
qed

theorem vfs_refcount_witness:
  "\<exists>(s :: bytes list vfs) x. vfs_reachable s \<and> dentries s 0 = Some x \<and> d_ref x \<noteq> 0"
proof -
  obtain s1 where s1: "sys_open sample_vfs (ascii ''/a'') 0 = Some (0, s1)" "file_list s1 = [\<lparr>f_fd = 0, f_dentry = 0\<rparr>]"
    using sample_open by blast
  have "vfs_reachable sample_vfs" by (rule vfs_reachable.start) (simp add: no_files_def sample_vfs_def)
  then have r: "vfs_reachable s1"
    by (rule vfs_reachable.step) (rule vfs_step.open_call [OF s1(1)], simp add: sample_vfs_def)
  from vfs_refcount [OF r, of 0] s1(2) have "\<exists>x. dentries s1 0 = Some x \<and> d_ref x \<noteq> 0" by (auto split: option.splits)
  then show ?thesis using r by blast
qed

lemma sys_open_close_example:
  "\<exists>s1 s2. sys_open sample_vfs (ascii ''/a'') 0 = Some (0, s1) \<and> sys_close s1 0 = Some (0, s2) \<and> file_list s2 = []"
proof -
  obtain s1 where s1: "sys_open sample_vfs (ascii ''/a'') 0 = Some (0, s1)" "roomy (vheap s1)"
    and ms: "mount_list s1 = mount_list sample_vfs" using sample_open by blast
  have "vfs_reachable sample_vfs" by (rule vfs_reachable.start) (simp add: no_files_def sample_vfs_def)
  moreover have "fs_ops (mnt_fstype m) = sample_ops" if "mount_match (mount_list s1) q = Some m" for q m
    using mount_match_mem [OF that] ms by (simp add: sample_vfs_def)
  then have "\<forall>d x m h. dentries s1 d = Some x \<and> mount_match (mount_list s1) (d_pathname x) = Some m \<and> roomy h \<longrightarrow>
      (\<exists>r h' f'. op_release (fs_ops (mnt_fstype m)) h (fs_state s1) (d_private x) = Some (r, h', f') \<and> roomy h')"
    by (auto simp: sample_ops_def)
  ultimately have "\<exists>s2. sys_close s1 0 = Some (0, s2) \<and> file_list s2 = file_list sample_vfs"
    using sys_open_close [of sample_vfs "ascii ''/a''" 0 0 s1] s1 by blast
  then show ?thesis using s1(1) by (auto simp: sample_vfs_def)
qed

section \<open>The tmpfs operations table\<close>

definition tmpfs_ops :: "tmpfs fs_operations" where
  "tmpfs_ops = \<lparr>
     op_mount = (\<lambda>h f. Some (h, f)),
     op_lookup = None,
     op_open = (\<lambda>h f td mode. do { r \<leftarrow> tmpfs_open (f\<lparr>td_heap := h\<rparr>) td; Some (r, h, f) }),
     op_release = (\<lambda>h f td. Some (tmpfs_release f td, h, f)),
     op_creat = (\<lambda>h f p mode. do { (r, f) \<leftarrow> tmpfs_creat (f\<lparr>td_heap := h\<rparr>) p; Some (r, td_heap f, f) }),
     op_read = Some (\<lambda>h f td len. do { (r, buf) \<leftarrow> tmpfs_read f (Some td) len; Some (r, buf, h, f) }),
     op_write = Some (\<lambda>h f td buf. do { (r, f) \<leftarrow> tmpfs_write (f\<lparr>td_heap := h\<rparr>) (Some td) buf; Some (r, td_heap f, f) }),
     op_stat = Some (\<lambda>h f p. do { (r, sz) \<leftarrow> tmpfs_stat f p; Some (r, sz, h, f) }),
     op_sync = None\<rparr>"

definition tmpfs_type :: "tmpfs file_system_type" where
  "tmpfs_type = \<lparr>fs_name = ascii ''tmpfs'', fs_nmlen = 0, fs_ops = tmpfs_ops\<rparr>"

definition tmpfs_mount :: "u8 option \<Rightarrow> tmpfs vfs \<Rightarrow> tmpfs file_system_type \<Rightarrow> bytes \<Rightarrow> (int \<times> tmpfs vfs) option" where
  "tmpfs_mount below s fstype pathname = mount_nodev below s fstype pathname"

definition tmpfs_init :: "tmpfs vfs \<Rightarrow> int \<times> tmpfs vfs" where
  "tmpfs_init s = register_filesystem s tmpfs_type"

definition tmpfs_exit :: "tmpfs vfs \<Rightarrow> tmpfs vfs" where
  "tmpfs_exit s = unregister_filesystem s tmpfs_type"

interpretation tmpfs_fs: releasing_fs tmpfs_ops "\<lambda>_ _. True"
  by unfold_locales (simp_all add: tmpfs_ops_def)

text \<open>
  A file on tmpfs cannot be opened through the virtual file system: the operations table of tmpfs has no \<open>lookup\<close>, so when no tmpfs file is open
  (which then stays so) every \<open>sys_open\<close> of a path below a tmpfs mount returns -ENODEV and opens nothing, even if the file was created before.
\<close>

lemma tmpfs_open_enodev:
  assumes "roomy (vheap s)" and "mount_match (mount_list s) p = Some mnt" and "fs_ops (mnt_fstype mnt) = tmpfs_ops"
    and "find_dentry s p = None" and "p \<noteq> []" and "length p + 1 \<le> block_bytes (length p)"
  shows "\<exists>s'. sys_open s p mode = Some (- ENODEV, s') \<and> file_list s' = file_list s \<and> dentries s' = dentries s \<and>
    dentry_list s' = dentry_list s \<and> roomy (vheap s')"
proof -
  obtain h1 where h1: "kh_alloc (vheap s) 40 = Some (True, h1)" "roomy h1" using kh_alloc_roomy [OF assms(1), of 40] by auto
  obtain h2 where h2: "mount_get_by_name (s\<lparr>vheap := h1\<rparr>) p = Some (Some mnt, s\<lparr>vheap := h2\<rparr>)" "roomy h2"
    using mount_get_roomy [of "s\<lparr>vheap := h1\<rparr>" p] h1(2) assms(2,5,6) by auto
  obtain h3 where h3: "kh_alloc h2 (length p + 1) = Some (True, h3)" "roomy h3"
    using kh_alloc_roomy [OF h2(2), of "length p + 1"] by auto
  obtain h4 where h4: "kh_alloc h3 56 = Some (True, h4)" "roomy h4" using kh_alloc_roomy [OF h3(2), of 56] by auto
  have "vfs_open_new (s\<lparr>vheap := h3\<rparr>) mnt p mode = Some (- ENODEV, 0, s\<lparr>vheap := h4\<rparr>)"
    using h4 assms(3) by (simp add: vfs_open_new_def tmpfs_ops_def)
  moreover have "find_dentry (s\<lparr>vheap := h3\<rparr>) p = None" using assms(4) by (simp add: find_dentry_def)
  ultimately have "vfs_open (s\<lparr>vheap := h1\<rparr>) p mode = Some (- ENODEV, 0, s\<lparr>vheap := h4\<rparr>)"
    using h2 h3 by (simp add: vfs_open_def)
  then have "sys_open s p mode = Some (- ENODEV, s\<lparr>vheap := h4\<rparr>)"
    using h1 h4(2) by (simp add: sys_open_def ENODEV_def)
  then show ?thesis using h4(2) by (intro exI [of _ "s\<lparr>vheap := h4\<rparr>"]) simp
qed

definition tmpfs_vfs :: "tmpfs vfs" where
  "tmpfs_vfs = \<lparr>fs_type_list = [tmpfs_type],
     mount_list = [\<lparr>mnt_path = [], mnt_pathlen = 1, mnt_fstype = tmpfs_type\<rparr>],
     dentries = (\<lambda>_. None), dentry_list = [], d_next = 0, file_list = [], fd_count = 0, vheap = fresh_heap,
     fs_state = one_file\<rparr>"

lemma tmpfs_open_enodev_example:
  "tmpfs_lookup (fs_state tmpfs_vfs) (ascii ''/f'') = Some (Some 1) \<and>
    (\<exists>s'. sys_open tmpfs_vfs (ascii ''/f'') 0 = Some (- ENODEV, s'))"
proof -
  have "mount_match (mount_list tmpfs_vfs) (ascii ''/f'') = Some (hd (mount_list tmpfs_vfs))"
    by (subst mount_match.simps)
      (simp add: has_slash_def ascii_def before_last_slash_def after_last_slash_def component_def strn_eq_def tmpfs_vfs_def)
  moreover have "ascii ''/f'' \<noteq> []" "length (ascii ''/f'') + 1 \<le> block_bytes (length (ascii ''/f''))"
    using block_bytes_2 by (simp_all add: ascii_def)
  moreover have "fs_ops (mnt_fstype (hd (mount_list tmpfs_vfs))) = tmpfs_ops" "roomy (vheap tmpfs_vfs)"
    "find_dentry tmpfs_vfs (ascii ''/f'') = None"
    by (simp_all add: tmpfs_vfs_def tmpfs_type_def find_dentry_def)
  ultimately have "\<exists>s'. sys_open tmpfs_vfs (ascii ''/f'') 0 = Some (- ENODEV, s')"
    using tmpfs_open_enodev [of tmpfs_vfs "ascii ''/f''"] by blast
  moreover have "tmpfs_lookup one_file (ascii ''/f'') = Some (Some 1)"
    using tmpfs_lookup_view [OF one_file_wf, of "ascii ''/f''"] one_file_view by (simp add: ascii_def)
  ultimately show ?thesis by (simp add: tmpfs_vfs_def)
qed

text \<open>
  The match is by prefix of the mount's path, not of the file's: a path below \<open>q\<close> is given to the first mount whose path starts with \<open>q\<close>, whether or not
  it is the directory \<open>q\<close>. With a mount at \<open>/mnt\<close> the file \<open>/m/x\<close> is looked up there.
\<close>

lemma mount_match_prefix:
  assumes "slash \<notin> set nm" and "find (\<lambda>m. prefix q (mnt_path m)) ms = Some mnt"
  shows "mount_match ms (q @ slash # nm) = Some mnt"
proof -
  have "after_last_slash (q @ slash # nm) = nm"
    using assms(1) by (auto simp: after_last_slash_def component_def takeWhile_append)
  then have "before_last_slash (q @ slash # nm) = q" by (simp add: before_last_slash_def)
  moreover have "strn_eq p q (length q) = prefix q p" for p
    by (auto simp: strn_eq_def prefix_def intro: exI [of _ "drop (length q) p"] simp flip: append_take_drop_id) (metis append_take_drop_id)
  ultimately show ?thesis using assms(2) by (subst mount_match.simps) (simp add: has_slash_def)
qed

end
