(* ===== verification/Fatfs.thy ===== *)
theory Fatfs
  imports Vfs
begin

text \<open>
  The adapter between the virtual file system and the FatFs library, \<open>src/src/fs/fatfs.c\<close>. The library itself (\<open>ff.c\<close>, a third-party package) is the record
  \<open>ff\<close> of functions on a volume \<open>'v\<close>, an open file object \<open>'h\<close> (\<open>FIL\<close>) and a directory object \<open>'d\<close> (\<open>DIR\<close>), each returning its result code \<open>FRESULT\<close> as a number. \<open>O_SYNC\<close> comes from the
  C library and is a parameter too. The loops that repeat \<open>f_sync\<close> until it succeeds may not end.

  The state of the adapter is the volume, the \<open>fatfs_dentry\<close> objects, and the \<open>FIL\<close> objects on the heap. The interpretation of \<open>releasing_fs\<close> shows that
  files opened through it can be closed, whatever the library answers.
\<close>

record ('v, 'h, 'd) ff =
  ff_stat :: "'v \<Rightarrow> bytes \<Rightarrow> nat \<times> u8 \<times> nat"
  ff_open :: "'v \<Rightarrow> bytes \<Rightarrow> u8 \<Rightarrow> nat \<times> 'h \<times> 'v"
  ff_close :: "'v \<Rightarrow> 'h \<Rightarrow> nat \<times> 'v"
  ff_sync :: "'v \<Rightarrow> 'h \<Rightarrow> nat \<times> 'h \<times> 'v"
  ff_read :: "'v \<Rightarrow> 'h \<Rightarrow> nat \<Rightarrow> nat \<times> bytes \<times> 'h \<times> 'v"
  ff_write :: "'v \<Rightarrow> 'h \<Rightarrow> bytes \<Rightarrow> nat \<times> nat \<times> 'h \<times> 'v"
  ff_opendir :: "'v \<Rightarrow> bytes \<Rightarrow> nat \<times> 'd"
  ff_readdir :: "'v \<Rightarrow> 'd \<Rightarrow> nat \<times> (bytes \<times> u8 \<times> nat) \<times> 'd"
  ff_unlink :: "'v \<Rightarrow> bytes \<Rightarrow> nat \<times> 'v"
  ff_mkdir :: "'v \<Rightarrow> bytes \<Rightarrow> nat \<times> 'v"
  ff_rename :: "'v \<Rightarrow> bytes \<Rightarrow> bytes \<Rightarrow> nat \<times> 'v"
  ff_mount :: "'v \<Rightarrow> nat \<times> 'v"
  ff_FIL_size :: nat

record fatfs_dentry =
  fd_name :: bytes
  fd_data :: "nat option"

record ('v, 'h) fatfs =
  vol :: 'v
  fds :: "nat \<Rightarrow> fatfs_dentry option"
  fils :: "nat \<Rightarrow> 'h option"
  fat_next_obj :: nat

definition FR_OK :: nat where "FR_OK = 0"
definition FR_EXIST :: nat where "FR_EXIST = 8"
definition AM_DIR :: u8 where "AM_DIR = 0x10"
definition FA_CREATE_NEW :: u8 where "FA_CREATE_NEW = 4"

section \<open>Operations\<close>

definition fatfs_lookup :: "('v, 'h, 'd) ff \<Rightarrow> kheap \<Rightarrow> ('v, 'h) fatfs \<Rightarrow> bytes \<Rightarrow> (nat option \<times> kheap \<times> ('v, 'h) fatfs) option" where
  "fatfs_lookup L h s pathname =
     (if fst (ff_stat L (vol s) pathname) = FR_OK then do {
        (ok, h) \<leftarrow> kh_alloc h 32;
        if \<not> ok then Some (None, h, s)
        else let q = fat_next_obj s in
          Some (Some q, h, s\<lparr>fds := (fds s)(q \<mapsto> \<lparr>fd_name = pathname, fd_data = None\<rparr>), fat_next_obj := Suc q\<rparr>) }
      else Some (None, h, s))"

partial_function (option) sync_until :: "('v, 'h, 'd) ff \<Rightarrow> 'v \<Rightarrow> 'h \<Rightarrow> ('h \<times> 'v) option" where
  "sync_until L v fp =
     (let (res, fp, v) = ff_sync L v fp in if res = FR_OK then Some (fp, v) else sync_until L v fp)"

definition fatfs_creat :: "u32 \<Rightarrow> ('v, 'h, 'd) ff \<Rightarrow> ('v, 'h) fatfs \<Rightarrow> bytes \<Rightarrow> u32 \<Rightarrow> (int \<times> ('v, 'h) fatfs) option" where
  "fatfs_creat O_SYNC L s pathname mode =
     (let (res, fp, v) = ff_open L (vol s) pathname FA_CREATE_NEW in
      if res \<noteq> FR_OK then Some (int res, s\<lparr>vol := v\<rparr>)
      else do {
        (fp, v) \<leftarrow> (if mode AND O_SYNC \<noteq> 0 then sync_until L v fp else Some (fp, v));
        let (res, v) = ff_close L v fp;
        if res \<noteq> FR_OK then Some (int res, s\<lparr>vol := v\<rparr>) else Some (0, s\<lparr>vol := v\<rparr>) })"

definition fatfs_open :: "('v, 'h, 'd) ff \<Rightarrow> kheap \<Rightarrow> ('v, 'h) fatfs \<Rightarrow> nat \<Rightarrow> u32 \<Rightarrow> (int \<times> kheap \<times> ('v, 'h) fatfs) option" where
  "fatfs_open L h s q mode = do {
     fd \<leftarrow> fds s q;
     (ok, h) \<leftarrow> kh_alloc h (ff_FIL_size L);
     if \<not> ok then Some (- 1, h, s)
     else
       let (res, fp, v) = ff_open L (vol s) (fd_name fd) (ucast mode); s = s\<lparr>vol := v\<rparr> in
       if res \<noteq> FR_OK then do { h \<leftarrow> kh_free h; Some (- 1, h, s) }
       else let p = fat_next_obj s in
         Some (0, h, s\<lparr>fds := (fds s)(q \<mapsto> fd\<lparr>fd_data := Some p\<rparr>), fils := (fils s)(p \<mapsto> fp), fat_next_obj := Suc p\<rparr>) }"

definition fatfs_release :: "('v, 'h, 'd) ff \<Rightarrow> kheap \<Rightarrow> ('v, 'h) fatfs \<Rightarrow> nat \<Rightarrow> (int \<times> kheap \<times> ('v, 'h) fatfs) option" where
  "fatfs_release L h s q = do {
     fd \<leftarrow> fds s q;
     p \<leftarrow> fd_data fd;
     fp \<leftarrow> fils s p;
     let (_, v) = ff_close L (vol s) fp;
     h \<leftarrow> kh_free h;
     h \<leftarrow> kh_free h;
     Some (0, h, s\<lparr>vol := v, fds := (fds s)(q := None), fils := (fils s)(p := None)\<rparr>) }"

text \<open>An error code of the library is positive and is returned as if it were a byte count.\<close>

definition fatfs_read :: "('v, 'h, 'd) ff \<Rightarrow> ('v, 'h) fatfs \<Rightarrow> nat \<Rightarrow> size_t \<Rightarrow> (int \<times> bytes \<times> ('v, 'h) fatfs) option" where
  "fatfs_read L s q len = do {
     fd \<leftarrow> fds s q;
     p \<leftarrow> fd_data fd;
     fp \<leftarrow> fils s p;
     let (res, buf, fp, v) = ff_read L (vol s) fp (wrap32 len);
     let s = s\<lparr>vol := v, fils := (fils s)(p \<mapsto> fp)\<rparr>;
     if res \<noteq> FR_OK then Some (int res, buf, s) else Some (int (length buf), buf, s) }"

definition fatfs_write :: "('v, 'h, 'd) ff \<Rightarrow> ('v, 'h) fatfs \<Rightarrow> nat \<Rightarrow> bytes \<Rightarrow> (int \<times> ('v, 'h) fatfs) option" where
  "fatfs_write L s q buf = do {
     fd \<leftarrow> fds s q;
     p \<leftarrow> fd_data fd;
     fp \<leftarrow> fils s p;
     let (res, n, fp, v) = ff_write L (vol s) fp (take (wrap32 (length buf)) buf);
     let s = s\<lparr>vol := v, fils := (fils s)(p \<mapsto> fp)\<rparr>;
     if res \<noteq> FR_OK then Some (int res, s) else Some (int n, s) }"

text \<open>The entries are printed: name, whether a directory, size.\<close>

partial_function (option) readdir_loop :: "('v, 'h, 'd) ff \<Rightarrow> 'v \<Rightarrow> 'd \<Rightarrow> (bytes \<times> bool \<times> nat) list \<Rightarrow> (int \<times> (bytes \<times> bool \<times> nat) list) option" where
  "readdir_loop L v dir out =
     (let (res, (fname, attr, sz), dir) = ff_readdir L v dir in
      if res \<noteq> FR_OK \<or> fname = [] then Some (int res, out)
      else readdir_loop L v dir (out @ [(fname, attr AND AM_DIR \<noteq> 0, sz)]))"

definition fatfs_readdir :: "('v, 'h, 'd) ff \<Rightarrow> ('v, 'h) fatfs \<Rightarrow> bytes \<Rightarrow> (int \<times> (bytes \<times> bool \<times> nat) list) option" where
  "fatfs_readdir L s pathname =
     (let (res, dir) = ff_opendir L (vol s) pathname in
      if res \<noteq> FR_OK then Some (int res, []) else readdir_loop L (vol s) dir [])"

definition fatfs_unlink :: "('v, 'h, 'd) ff \<Rightarrow> ('v, 'h) fatfs \<Rightarrow> bytes \<Rightarrow> int \<times> ('v, 'h) fatfs" where
  "fatfs_unlink L s pathname = (let (res, v) = ff_unlink L (vol s) pathname in (int res, s\<lparr>vol := v\<rparr>))"

text \<open>\<open>pre\<close> is the part of \<open>work_path\<close> before \<open>p\<close>; the path up to the next slash is created, level by level.\<close>

function mkdir_levels :: "('v, 'h, 'd) ff \<Rightarrow> 'v \<Rightarrow> bytes \<Rightarrow> bytes \<Rightarrow> nat \<times> 'v" where
  "mkdir_levels L v pre p =
     (let level = component p;
          (res, v) = ff_mkdir L v (pre @ level)
      in if res \<noteq> FR_OK \<and> res \<noteq> FR_EXIST then (res, v)
         else if \<not> has_slash p then (FR_OK, v)
         else mkdir_levels L v (pre @ level @ [slash]) (drop (length level + 1) p))"
  by pat_completeness auto
termination
  by (relation "measure (\<lambda>(L, v, pre, p). length p)") (auto simp: has_slash_def dest!: length_pos_if_in_set)

declare mkdir_levels.simps [simp del]

definition mkdir_start :: "bytes \<Rightarrow> nat" where
  "mkdir_start w =
     (if length w > 2 \<and> w ! 1 = 0x3A \<and> w ! 2 = slash then 3 else if w \<noteq> [] \<and> hd w = slash then 1 else 0)"

definition fatfs_mkdir :: "('v, 'h, 'd) ff \<Rightarrow> ('v, 'h) fatfs \<Rightarrow> bytes \<Rightarrow> int \<times> ('v, 'h) fatfs" where
  "fatfs_mkdir L s pathname =
     (let work_path = take 255 pathname;
          k = mkdir_start work_path;
          (res, v) = mkdir_levels L (vol s) (take k work_path) (drop k work_path)
      in (int res, s\<lparr>vol := v\<rparr>))"

definition fatfs_stat :: "('v, 'h, 'd) ff \<Rightarrow> ('v, 'h) fatfs \<Rightarrow> bytes \<Rightarrow> int \<times> nat option" where
  "fatfs_stat L s pathname =
     (let (res, attr, sz) = ff_stat L (vol s) pathname
      in (int res, if res = FR_OK \<and> attr AND AM_DIR = 0 then Some sz else None))"

definition fatfs_rename :: "('v, 'h, 'd) ff \<Rightarrow> ('v, 'h) fatfs \<Rightarrow> bytes \<Rightarrow> bytes \<Rightarrow> int \<times> ('v, 'h) fatfs" where
  "fatfs_rename L s oldpath newpath = (let (res, v) = ff_rename L (vol s) oldpath newpath in (int res, s\<lparr>vol := v\<rparr>))"

definition fatfs_sync :: "('v, 'h, 'd) ff \<Rightarrow> ('v, 'h) fatfs \<Rightarrow> nat \<Rightarrow> ('v, 'h) fatfs option" where
  "fatfs_sync L s q = do {
     fd \<leftarrow> fds s q;
     case fd_data fd of None \<Rightarrow> Some s
     | Some p \<Rightarrow> do {
         fp \<leftarrow> fils s p;
         (fp, v) \<leftarrow> sync_until L (vol s) fp;
         Some (s\<lparr>vol := v, fils := (fils s)(p \<mapsto> fp)\<rparr>) } }"

section \<open>The operations table\<close>

definition fatfs_ops :: "u32 \<Rightarrow> ('v, 'h, 'd) ff \<Rightarrow> ('v, 'h) fatfs fs_operations" where
  "fatfs_ops O_SYNC L = \<lparr>
     op_mount = (\<lambda>h s. Some (h, s\<lparr>vol := snd (ff_mount L (vol s))\<rparr>)),
     op_lookup = Some (fatfs_lookup L),
     op_open = fatfs_open L,
     op_release = fatfs_release L,
     op_creat = (\<lambda>h s p mode. do { (r, s) \<leftarrow> fatfs_creat O_SYNC L s p mode; Some (r, h, s) }),
     op_read = Some (\<lambda>h s q len. do { (r, buf, s) \<leftarrow> fatfs_read L s q len; Some (r, buf, h, s) }),
     op_write = Some (\<lambda>h s q buf. do { (r, s) \<leftarrow> fatfs_write L s q buf; Some (r, h, s) }),
     op_stat = Some (\<lambda>h s p. let (r, sz) = fatfs_stat L s p in Some (r, sz, h, s)),
     op_sync = Some (\<lambda>h s q. do { s \<leftarrow> fatfs_sync L s q; Some (h, s) })\<rparr>"

definition fatfs_type :: "u32 \<Rightarrow> ('v, 'h, 'd) ff \<Rightarrow> ('v, 'h) fatfs file_system_type" where
  "fatfs_type O_SYNC L = \<lparr>fs_name = ascii ''fatfs'', fs_nmlen = 0, fs_ops = fatfs_ops O_SYNC L\<rparr>"

definition fatfs_mount :: "u8 option \<Rightarrow> ('v, 'h, 'd) ff \<Rightarrow> ('v, 'h) fatfs vfs \<Rightarrow> ('v, 'h) fatfs file_system_type \<Rightarrow> bytes \<Rightarrow> (int \<times> ('v, 'h) fatfs vfs) option" where
  "fatfs_mount below L s fstype pathname =
     mount_nodev below (s\<lparr>fs_state := (fs_state s)\<lparr>vol := snd (ff_mount L (vol (fs_state s)))\<rparr>\<rparr>) fstype pathname"

definition fatfs_init :: "u32 \<Rightarrow> ('v, 'h, 'd) ff \<Rightarrow> ('v, 'h) fatfs vfs \<Rightarrow> int \<times> ('v, 'h) fatfs vfs" where
  "fatfs_init O_SYNC L s = register_filesystem s (fatfs_type O_SYNC L)"

definition fatfs_exit :: "u32 \<Rightarrow> ('v, 'h, 'd) ff \<Rightarrow> ('v, 'h) fatfs vfs \<Rightarrow> ('v, 'h) fatfs vfs" where
  "fatfs_exit O_SYNC L s = unregister_filesystem s (fatfs_type O_SYNC L)"

text \<open>A handle is valid while its \<open>fatfs_dentry\<close> and its \<open>FIL\<close> object are live.\<close>

definition fatfs_valid :: "('v, 'h) fatfs \<Rightarrow> nat \<Rightarrow> bool" where
  "fatfs_valid s q \<longleftrightarrow> (\<exists>fd p fp. fds s q = Some fd \<and> fd_data fd = Some p \<and> fils s p = Some fp)"

interpretation fatfs_fs: releasing_fs "fatfs_ops O_SYNC L" fatfs_valid for O_SYNC L
  by unfold_locales
    (auto simp: fatfs_ops_def fatfs_release_def fatfs_open_def fatfs_valid_def Let_def
      split: Option.bind_splits if_splits prod.splits)

text \<open>A failed read is reported as a positive number, which a caller cannot tell from a byte count.\<close>

lemma fatfs_read_error_positive:
  assumes "fds s q = Some fd" and "fd_data fd = Some p" and "fils s p = Some fp"
    and "ff_read L (vol s) fp (wrap32 len) = (res, buf, fp', v)" and "res \<noteq> FR_OK"
  shows "\<exists>s'. fatfs_read L s q len = Some (int res, buf, s') \<and> 0 < int res"
  using assms by (auto simp: fatfs_read_def FR_OK_def)

end
