(* ===== verification/Sched.thy ===== *)
theory Sched
  imports KHeap Queue
begin

text \<open>
  Tasks and the scheduler: \<open>src/src/task.c\<close> without the ELF loader (theory \<open>UserTask\<close>), the mutex of \<open>src/src/mutex.c\<close>, the comparison search of \<open>src/src/algo.c\<close> and the timer of
  \<open>src/src/timer.c\<close>. A \<open>struct task_struct\<close> is an entry of the map \<open>tasks\<close>; a queue is the list of its tasks, oldest first, which is what the interface \<open>fifo\<close> of theory
  \<open>Queue\<close> promises of the linked queues. Every processor has its current task, its ready queue and its queue of exited tasks; an index beyond \<open>MAX_CPUS\<close> is a fault. The switch
  of stacks in \<open>context_switch\<close> is assembly: here the processor continues as the new current task.

  \<open>None\<close> is a call that does not return (a fault, or the heap lock left held).

  The lemmas show that the scheduler keeps every task in exactly one place, that it is a round robin in which every ready task runs after as many ticks as its position, and that
  a thread that blocks on a mutex while no other task is ready is put into the wait queue twice.
\<close>

datatype task_status = TASK_EXIT | TASK_DEAD | TASK_READY | TASK_RUNNING | TASK_BLOCKED

record task_struct =
  t_flags :: int
  rsp0 :: u64
  rsp0_base :: u64
  pml4 :: u64
  t_rsp :: u64
  t_name :: bytes
  stack_basephys :: u64
  stack_order :: nat
  t_stack :: u64
  user_phys :: "u64 list"
  user_order :: "nat list"
  ls_addr :: "(u64 \<times> nat) list"
  t_status :: task_status

record sched =
  max_cpus :: nat
  tasks :: "nat \<Rightarrow> task_struct option"
  next_task :: nat
  current :: "nat \<Rightarrow> nat option"
  task_readyqueue :: "nat \<Rightarrow> nat list"
  task_exitqueue :: "nat \<Rightarrow> nat list"
  ap_ids :: "nat \<Rightarrow> nat"
  frames :: bitmap_t
  sheap :: kheap
  alloc_at :: "nat \<Rightarrow> u64"
  stack_mem :: "u64 \<Rightarrow> u64"
  cr3 :: "nat \<Rightarrow> u64"
  tss_rsp0 :: "nat \<Rightarrow> u64"
  irq_on :: "nat \<Rightarrow> bool"
  run_process_spinlock :: u64
  run_thread_spinlock :: u64
  jiffies :: "nat \<Rightarrow> u64"

definition TASK_FLAGS_USER :: int where "TASK_FLAGS_USER = 1"
definition TASK_FLAGS_KERN :: int where "TASK_FLAGS_KERN = 2"
definition KRSP0_SIZE :: nat where "KRSP0_SIZE = 4 * 1024"
definition KSTACK_SIZE :: nat where "KSTACK_SIZE = 16 * 1024"

section \<open>Searching\<close>

definition min_cmp :: "int \<Rightarrow> int \<Rightarrow> bool" where
  "min_cmp a b \<longleftrightarrow> a < b"

definition max_cmp :: "int \<Rightarrow> int \<Rightarrow> bool" where
  "max_cmp a b \<longleftrightarrow> a > b"

definition find_extreme_index :: "int list \<Rightarrow> (int \<Rightarrow> int \<Rightarrow> bool) \<Rightarrow> int" where
  "find_extreme_index arr cmp =
     (if arr = [] then - 1
      else int (fold (\<lambda>i idx. if cmp (arr ! i) (arr ! idx) then i else idx) [1..<length arr] 0))"

section \<open>Queues and processors\<close>

definition task_init :: "sched \<Rightarrow> sched" where
  "task_init s = s\<lparr>current := (\<lambda>i. if i < max_cpus s then None else current s i),
     task_readyqueue := (\<lambda>i. if i < max_cpus s then [] else task_readyqueue s i),
     task_exitqueue := (\<lambda>i. if i < max_cpus s then [] else task_exitqueue s i),
     run_process_spinlock := spinlock_init (run_process_spinlock s), run_thread_spinlock := spinlock_init (run_thread_spinlock s)\<rparr>"

definition ready_push :: "nat \<Rightarrow> nat \<Rightarrow> sched \<Rightarrow> sched" where
  "ready_push c t s = s\<lparr>task_readyqueue := (task_readyqueue s)(c := task_readyqueue s c @ [t])\<rparr>"

definition exit_push :: "nat \<Rightarrow> nat \<Rightarrow> sched \<Rightarrow> sched" where
  "exit_push c t s = s\<lparr>task_exitqueue := (task_exitqueue s)(c := task_exitqueue s c @ [t])\<rparr>"

definition set_status :: "nat \<Rightarrow> task_status \<Rightarrow> sched \<Rightarrow> sched option" where
  "set_status t st s = (case tasks s t of None \<Rightarrow> None | Some x \<Rightarrow> Some (s\<lparr>tasks := (tasks s)(t \<mapsto> x\<lparr>t_status := st\<rparr>)\<rparr>))"

text \<open>The load of ready queue \<open>i\<close> decides, but the task goes to the queue of processor \<open>ap_ids[i]\<close>.\<close>

definition sched_enqueue_balanced :: "nat \<Rightarrow> sched \<Rightarrow> sched option" where
  "sched_enqueue_balanced t s =
     (let loadlist = map (\<lambda>i. int (length (task_readyqueue s i))) [0..<max_cpus s];
          idx = find_extreme_index loadlist min_cmp
      in if idx < 0 \<or> ap_ids s (nat idx) \<ge> max_cpus s then None
         else Some (ready_push (ap_ids s (nat idx)) t s))"

definition calc_page_table_counts :: "nat \<Rightarrow> nat \<times> nat \<times> nat \<times> nat" where
  "calc_page_table_counts nr_pages =
     (if nr_pages = 0 then (0, 0, 0, 0)
      else let pt_count = nr_pages;
               pd_count = wrap64 (pt_count + 511) div 512;
               pdpt_count = wrap64 (pd_count + 511) div 512;
               pml4_count = wrap64 (pdpt_count + 511) div 512
        in (pml4_count, pdpt_count, pd_count, pt_count))"

section \<open>The scheduler\<close>

definition free_frames :: "(u64 \<times> nat) list \<Rightarrow> sched \<Rightarrow> sched" where
  "free_frames ps s = s\<lparr>frames := fold (\<lambda>(phys, order) b. free_pages b phys order) ps (frames s)\<rparr>"

primrec kfree_n :: "nat \<Rightarrow> sched \<Rightarrow> sched option" where
  "kfree_n 0 s = Some s"
| "kfree_n (Suc n) s = do { h \<leftarrow> kh_free (sheap s); kfree_n n (s\<lparr>sheap := h\<rparr>) }"

text \<open>What becomes of one exited task: its stacks, its page tables, its memory and the task itself are released.\<close>

definition reap_task :: "nat \<Rightarrow> sched \<Rightarrow> sched option" where
  "reap_task t s = do {
     x \<leftarrow> tasks s t;
     if t_flags x = TASK_FLAGS_KERN then do {
       s \<leftarrow> kfree_n 3 s;
       Some (s\<lparr>tasks := (tasks s)(t := None)\<rparr>) }
     else if t_flags x = TASK_FLAGS_USER then do {
       let s = free_frames (zip (user_phys x) (user_order x)) s;
       let s = free_frames [(stack_basephys x, stack_order x)] s;
       let s = free_frames (ls_addr x) s;
       s \<leftarrow> kfree_n (length (ls_addr x)) s;
       s \<leftarrow> kfree_n 2 s;
       Some (s\<lparr>tasks := (tasks s)(t := None)\<rparr>) }
     else Some s }"

primrec reap_all :: "nat list \<Rightarrow> sched \<Rightarrow> sched option" where
  "reap_all [] s = Some s"
| "reap_all (t # ts) s = do { s \<leftarrow> reap_task t s; reap_all ts s }"

definition switch_task :: "nat \<Rightarrow> nat \<Rightarrow> sched \<Rightarrow> sched option" where
  "switch_task c old_task s =
     (case task_readyqueue s c of [] \<Rightarrow> Some s
      | new_task # rest \<Rightarrow> do {
          let s = s\<lparr>task_readyqueue := (task_readyqueue s)(c := rest)\<rparr>;
          s \<leftarrow> set_status new_task TASK_RUNNING s;
          prev \<leftarrow> tasks s old_task;
          let s = (case t_status prev of TASK_RUNNING \<Rightarrow> ready_push c old_task s | TASK_EXIT \<Rightarrow> exit_push c old_task s | _ \<Rightarrow> s);
          n \<leftarrow> tasks s new_task;
          Some (s\<lparr>current := (current s)(c \<mapsto> new_task), cr3 := (cr3 s)(c := pml4 n), tss_rsp0 := (tss_rsp0 s)(c := rsp0 n)\<rparr>) })"

definition scheduler :: "nat \<Rightarrow> sched \<Rightarrow> sched option" where
  "scheduler c s =
     (if c \<ge> max_cpus s then None
      else case current s c of None \<Rightarrow> Some s
      | Some old_task \<Rightarrow> do {
          s \<leftarrow> reap_all (task_exitqueue s c) s;
          switch_task c old_task (s\<lparr>task_exitqueue := (task_exitqueue s)(c := [])\<rparr>) })"

definition get_current :: "nat \<Rightarrow> sched \<Rightarrow> nat option" where
  "get_current c s = (if c < max_cpus s then current s c else None)"

definition kerntask_exit :: "nat \<Rightarrow> sched \<Rightarrow> sched option" where
  "kerntask_exit c s = do {
     task \<leftarrow> get_current c s;
     s \<leftarrow> set_status task TASK_EXIT s;
     scheduler c (s\<lparr>irq_on := (irq_on s)(c := False)\<rparr>) }"

definition usertask_exit :: "nat \<Rightarrow> sched \<Rightarrow> sched option" where
  "usertask_exit c s = do {
     task \<leftarrow> get_current c s;
     s \<leftarrow> set_status task TASK_EXIT s;
     scheduler c s }"

definition timer_init :: "sched \<Rightarrow> sched" where
  "timer_init s = s\<lparr>jiffies := (\<lambda>i. if i < max_cpus s then 0 else jiffies s i)\<rparr>"

definition lapic_timer_handler :: "nat \<Rightarrow> sched \<Rightarrow> sched option" where
  "lapic_timer_handler c s =
     (if c \<ge> max_cpus s then None else scheduler c (s\<lparr>jiffies := (jiffies s)(c := jiffies s c + 1)\<rparr>))"

definition get_uptime_ms :: "nat \<Rightarrow> sched \<Rightarrow> u64" where
  "get_uptime_ms c s = jiffies s c"

section \<open>Threads\<close>

text \<open>
  The new stack holds the entry point above a register frame of 16 words, all zero but \<open>rdi\<close> and \<open>rflags\<close>. \<open>alloc_at s k\<close> is the address the \<open>k\<close>-th allocation returns.
\<close>

definition alloc_block :: "nat \<Rightarrow> sched \<Rightarrow> (u64 \<times> sched) option" where
  "alloc_block n s = do {
     (ok, h) \<leftarrow> kh_alloc (sheap s) n;
     Some (if ok then alloc_at s (calls (sheap s)) else 0, s\<lparr>sheap := h\<rparr>) }"

definition kerntask_create :: "nat \<Rightarrow> u64 \<Rightarrow> task_struct \<Rightarrow> u64 \<Rightarrow> u64 \<Rightarrow> sched \<Rightarrow> (int \<times> task_struct \<times> sched) option" where
  "kerntask_create c old_cr3 task thread_func args s = do {
     (stk, s) \<leftarrow> alloc_block KSTACK_SIZE s;
     let task = task\<lparr>pml4 := old_cr3, t_stack := stk\<rparr>;
     if stk = 0 then Some (- 1, task, s)
     else do {
       (base, s) \<leftarrow> alloc_block KRSP0_SIZE s;
       let task = task\<lparr>rsp0_base := base, rsp0 := base + of_nat KRSP0_SIZE\<rparr>;
       let rsp = stk + of_nat KSTACK_SIZE - 8;
       let s = s\<lparr>stack_mem := (stack_mem s)(rsp := thread_func)\<rparr>;
       let rsp = rsp - 128;
       let s = s\<lparr>stack_mem := fold (\<lambda>i m. m(rsp + 8 * of_nat i := 0)) [0..<16] (stack_mem s)\<rparr>;
       let s = s\<lparr>stack_mem := (stack_mem s)(rsp + 72 := args, rsp + 120 := 0x202)\<rparr>;
       Some (0, task\<lparr>t_rsp := rsp\<rparr>, s) } }"

definition fresh_task :: task_struct where
  "fresh_task = \<lparr>t_flags = 0, rsp0 = 0, rsp0_base = 0, pml4 = 0, t_rsp = 0, t_name = [], stack_basephys = 0, stack_order = 0,
     t_stack = 0, user_phys = [0, 0, 0, 0], user_order = [0, 0, 0, 0], ls_addr = [], t_status = TASK_EXIT\<rparr>"

text \<open>
  \<open>run_thread\<close>: the result is \<open>None\<close> for NULL. The flag says that the processor went on in the new thread (\<open>switch_to\<close> does not return).
\<close>

definition run_thread :: "nat \<Rightarrow> u64 \<Rightarrow> u64 \<Rightarrow> bytes \<Rightarrow> sched \<Rightarrow> (bool \<times> nat option \<times> sched) option" where
  "run_thread c thread_func args name s = do {
     let s = s\<lparr>irq_on := (irq_on s)(c := False)\<rparr>;
     l \<leftarrow> spinlock_lock 0 (run_thread_spinlock s);
     let s = s\<lparr>run_thread_spinlock := l\<rparr>;
     (ok, h) \<leftarrow> kh_alloc (sheap s) 192;
     let s = s\<lparr>sheap := h\<rparr>;
     if \<not> ok then Some (False, None, s)
     else do {
       (_, x, s) \<leftarrow> kerntask_create c (cr3 s c) fresh_task thread_func args s;
       let x = x\<lparr>t_flags := TASK_FLAGS_KERN, t_status := TASK_READY, t_name := take 31 name\<rparr>;
       let t = next_task s;
       let s = s\<lparr>tasks := (tasks s)(t \<mapsto> x), next_task := Suc t\<rparr>;
       if c \<ge> max_cpus s then None
       else if current s c = None then do {
         s \<leftarrow> set_status t TASK_RUNNING (s\<lparr>current := (current s)(c \<mapsto> t)\<rparr>);
         Some (True, Some t, s\<lparr>run_thread_spinlock := spinlock_unlock (run_thread_spinlock s)\<rparr>) }
       else do {
         s \<leftarrow> sched_enqueue_balanced t s;
         Some (False, Some t, s\<lparr>run_thread_spinlock := spinlock_unlock (run_thread_spinlock s), irq_on := (irq_on s)(c := True)\<rparr>) } } }"

section \<open>The mutex\<close>

text \<open>The enumeration makes \<open>MUTEX_LOCKED\<close> 0 and \<open>MUTEX_UNLOCK\<close> 1.\<close>

record mutex =
  wait_queue :: "nat list"
  locked :: u64

definition MUTEX_LOCKED :: u64 where "MUTEX_LOCKED = 0"
definition MUTEX_UNLOCK :: u64 where "MUTEX_UNLOCK = 1"

definition mutex_init :: "mutex \<Rightarrow> mutex" where
  "mutex_init m = m\<lparr>wait_queue := [], locked := atomic_store (locked m) MUTEX_UNLOCK\<rparr>"

definition mutex_trylock :: "mutex \<Rightarrow> u32 \<times> mutex" where
  "mutex_trylock m =
     (let (r, v, _) = atomic_compare_exchange 0 (locked m) MUTEX_UNLOCK MUTEX_LOCKED in (r, m\<lparr>locked := v\<rparr>))"

text \<open>One turn of the loop of \<open>mutex_lock\<close> on processor \<open>c\<close>: done, or blocked and the scheduler called.\<close>

definition mutex_lock_turn :: "nat \<Rightarrow> mutex \<Rightarrow> sched \<Rightarrow> (bool \<times> mutex \<times> sched) option" where
  "mutex_lock_turn c m s =
     (let (r, m) = mutex_trylock m in
      if r \<noteq> 0 then Some (True, m, s)
      else do {
        t \<leftarrow> get_current c s;
        s \<leftarrow> set_status t TASK_BLOCKED s;
        let m = m\<lparr>wait_queue := wait_queue m @ [t]\<rparr>;
        s \<leftarrow> scheduler c s;
        Some (False, m, s) })"

definition mutex_unlock :: "nat \<Rightarrow> mutex \<Rightarrow> sched \<Rightarrow> (int \<times> mutex \<times> sched) option" where
  "mutex_unlock c m s =
     (let m = m\<lparr>locked := atomic_store (locked m) MUTEX_UNLOCK\<rparr> in
      case wait_queue m of [] \<Rightarrow> Some (0, m, s)
      | t # rest \<Rightarrow> do {
          s \<leftarrow> set_status t TASK_READY s;
          if c \<ge> max_cpus s then None else Some (0, m\<lparr>wait_queue := rest\<rparr>, ready_push c t s) })"

section \<open>The extreme index\<close>

lemma extreme_fold:
  assumes "n \<le> length arr" and "0 < n"
  shows "\<exists>k < n. fold (\<lambda>i idx. if min_cmp (arr ! i) (arr ! idx) then i else idx) [1..<n] 0 = k \<and>
    (\<forall>j < n. arr ! k \<le> arr ! j) \<and> (\<forall>j < k. arr ! k < arr ! j)"
  using assms
proof (induction n)
  case (Suc n)
  show ?case
  proof (cases "n = 0")
    case False
    then obtain k where k: "k < n" "fold (\<lambda>i idx. if min_cmp (arr ! i) (arr ! idx) then i else idx) [1..<n] 0 = k"
      "\<forall>j < n. arr ! k \<le> arr ! j" "\<forall>j < k. arr ! k < arr ! j" using Suc by auto
    then show ?thesis
      using False by (cases "arr ! n < arr ! k") (fastforce simp: min_cmp_def less_Suc_eq)+
  qed simp
qed simp

text \<open>
  Load balancing picks a least loaded queue: \<open>find_extreme_index\<close> with \<open>min_cmp\<close> returns, for a non-empty array, the first index at which the minimum stands, and -1 for an empty one.
\<close>

lemma find_extreme_index_min:
  "find_extreme_index [] min_cmp = - 1 \<and>
   (arr \<noteq> [] \<longrightarrow> (\<exists>k < length arr. find_extreme_index arr min_cmp = int k \<and>
      (\<forall>j < length arr. arr ! k \<le> arr ! j) \<and> (\<forall>j < k. arr ! k < arr ! j)))"
  using extreme_fold [of "length arr" arr] by (auto simp: find_extreme_index_def)

lemma find_extreme_index_min_example:
  "\<exists>k < 3. find_extreme_index [4, 2, 2] min_cmp = int k \<and> [4, 2, 2] ! k = (2 :: int)"
proof -
  obtain k where k: "k < 3" "find_extreme_index [4, 2, 2] min_cmp = int k" "[4, 2, 2] ! k \<le> [4, 2, 2 :: int] ! 1"
    using find_extreme_index_min [of "[4, 2, 2]"] by auto
  then have "k = 1 \<or> k = 2" by (cases "k = 0") auto
  then show ?thesis using k by auto
qed

lemma calc_page_table_counts_ceil:
  assumes "0 < n" and "n + 511 < 2 ^ 64"
  shows "calc_page_table_counts n = ((((n + 511) div 512 + 511) div 512 + 511) div 512, ((n + 511) div 512 + 511) div 512, (n + 511) div 512, n)"
proof -
  have "(n + 511) div 512 + 511 < 2 ^ 64" "((n + 511) div 512 + 511) div 512 + 511 < 2 ^ 64" using assms(2) by linarith+
  then show ?thesis using assms by (simp add: calc_page_table_counts_def Let_def)
qed

section \<open>Places of tasks\<close>

text \<open>The tasks of processor \<open>c\<close>: running, ready, exited. The invariant: every task is in one place, and it is live.\<close>

definition cpu_places :: "sched \<Rightarrow> nat \<Rightarrow> nat list" where
  "cpu_places s c = (case current s c of None \<Rightarrow> [] | Some t \<Rightarrow> [t]) @ task_readyqueue s c @ task_exitqueue s c"

definition sched_inv :: "sched \<Rightarrow> bool" where
  "sched_inv s \<longleftrightarrow>
     (\<forall>c < max_cpus s. distinct (cpu_places s c) \<and> (\<forall>t \<in> set (cpu_places s c). tasks s t \<noteq> None)) \<and>
     (\<forall>c < max_cpus s. \<forall>d < max_cpus s. c \<noteq> d \<longrightarrow> set (cpu_places s c) \<inter> set (cpu_places s d) = {})"

text \<open>States that differ at most in the heap, the page frames and the tasks of \<open>T\<close>.\<close>

definition reaped :: "nat set \<Rightarrow> sched \<Rightarrow> sched \<Rightarrow> bool" where
  "reaped T s s' \<longleftrightarrow> max_cpus s' = max_cpus s \<and> current s' = current s \<and> task_readyqueue s' = task_readyqueue s \<and>
     task_exitqueue s' = task_exitqueue s \<and> (\<forall>t. t \<notin> T \<longrightarrow> tasks s' t = tasks s t) \<and> sheap s' = sheap s"

lemma kfree_n_free: "\<not> mm_held (sheap s) \<Longrightarrow> kfree_n n s = Some s"
  by (induction n) (simp_all add: kh_free_def)

lemma reap_task_returns:
  assumes "\<not> mm_held (sheap s)" and "tasks s t \<noteq> None"
  shows "\<exists>s'. reap_task t s = Some s' \<and> reaped {t} s s'"
  using assms by (auto simp: reap_task_def kfree_n_free free_frames_def reaped_def Let_def)

lemma reap_all_returns:
  "\<not> mm_held (sheap s) \<Longrightarrow> \<forall>t \<in> set ts. tasks s t \<noteq> None \<Longrightarrow> distinct ts \<Longrightarrow>
    \<exists>s'. reap_all ts s = Some s' \<and> reaped (set ts) s s'"
proof (induction ts arbitrary: s)
  case (Cons t ts)
  obtain s1 where s1: "reap_task t s = Some s1" "reaped {t} s s1"
    using reap_task_returns [of s t] Cons.prems by auto
  have "\<forall>u \<in> set ts. tasks s1 u \<noteq> None" "\<not> mm_held (sheap s1)"
    using s1(2) Cons.prems by (auto simp: reaped_def)
  then obtain s2 where "reap_all ts s1 = Some s2" "reaped (set ts) s1 s2" using Cons.IH [of s1] Cons.prems(3) by auto
  then show ?case using s1 by (auto simp: reaped_def)
qed (simp add: reaped_def)

text \<open>The result of a switch from \<open>old\<close>, whose status is \<open>st\<close>, to the first ready task.\<close>

definition switched :: "nat \<Rightarrow> nat \<Rightarrow> task_status \<Rightarrow> nat \<Rightarrow> nat list \<Rightarrow> sched \<Rightarrow> sched \<Rightarrow> bool" where
  "switched c old st new rest s s' \<longleftrightarrow> max_cpus s' = max_cpus s \<and> current s' = (current s)(c \<mapsto> new) \<and>
     task_readyqueue s' = (task_readyqueue s)(c := rest @ (if st = TASK_RUNNING then [old] else [])) \<and>
     task_exitqueue s' = (task_exitqueue s)(c := task_exitqueue s c @ (if st = TASK_EXIT then [old] else [])) \<and>
     (\<forall>t. t \<noteq> new \<longrightarrow> tasks s' t = tasks s t) \<and>
     (\<exists>x. tasks s new = Some x \<and> tasks s' new = Some (x\<lparr>t_status := TASK_RUNNING\<rparr>) \<and> cr3 s' c = pml4 x \<and> tss_rsp0 s' c = rsp0 x) \<and>
     sheap s' = sheap s"

lemma switch_task_switches:
  assumes "task_readyqueue s c = new # rest" and "tasks s new = Some n" and "tasks s old = Some x" and "old \<noteq> new"
  shows "\<exists>s'. switch_task c old s = Some s' \<and> switched c old (t_status x) new rest s s'"
  using assms by (cases "t_status x")
    (simp_all add: switch_task_def set_status_def ready_push_def exit_push_def switched_def)

lemma scheduler_cases:
  assumes "sched_inv s" and "c < max_cpus s" and "current s c = Some old" and "\<not> mm_held (sheap s)"
  shows "\<exists>s' s1 x. scheduler c s = Some s' \<and> reaped (set (task_exitqueue s c)) s s1 \<and> tasks s old = Some x \<and> tasks s1 old = Some x \<and>
    (case task_readyqueue s c of [] \<Rightarrow> s' = s1\<lparr>task_exitqueue := (task_exitqueue s1)(c := [])\<rparr>
     | new # rest \<Rightarrow> switched c old (t_status x) new rest (s1\<lparr>task_exitqueue := (task_exitqueue s1)(c := [])\<rparr>) s')"
proof -
  have inv: "distinct (cpu_places s c)" "\<forall>t \<in> set (cpu_places s c). tasks s t \<noteq> None" using assms(1,2) by (auto simp: sched_inv_def)
  then have ex: "\<forall>t \<in> set (task_exitqueue s c). tasks s t \<noteq> None" "distinct (task_exitqueue s c)" "old \<notin> set (task_exitqueue s c)"
    and old: "tasks s old \<noteq> None" using assms(3) by (auto simp: cpu_places_def)
  obtain s1 where s1: "reap_all (task_exitqueue s c) s = Some s1" "reaped (set (task_exitqueue s c)) s s1"
    using reap_all_returns [OF assms(4) ex(1,2)] by blast
  obtain x where x: "tasks s old = Some x" "tasks s1 old = Some x" using old ex(3) s1(2) by (auto simp: reaped_def)
  let ?t = "s1\<lparr>task_exitqueue := (task_exitqueue s1)(c := [])\<rparr>"
  have run: "scheduler c s = switch_task c old ?t" using assms(2,3) s1(1) by (simp add: scheduler_def)
  show ?thesis
  proof (cases "task_readyqueue s c")
    case Nil
    then have "switch_task c old ?t = Some ?t" using s1(2) by (simp add: switch_task_def reaped_def)
    then show ?thesis using Nil run s1(2) x by auto
  next
    case (Cons new rest)
    then have new: "tasks s new \<noteq> None" "old \<noteq> new" "new \<notin> set (task_exitqueue s c)" using inv assms(3) by (auto simp: cpu_places_def)
    then obtain n where "tasks ?t new = Some n" using s1(2) by (auto simp: reaped_def)
    moreover have "task_readyqueue ?t c = new # rest" "tasks ?t old = Some x" using Cons x(2) s1(2) by (auto simp: reaped_def)
    ultimately obtain s' where "switch_task c old ?t = Some s'" "switched c old (t_status x) new rest ?t s'"
      using switch_task_switches [of ?t c new rest n old x] new(2) by auto
    then show ?thesis using Cons run s1(2) x by auto
  qed
qed

lemma scheduler_places:
  assumes "sched_inv s" and "c < max_cpus s" and "current s c = Some old" and "\<not> mm_held (sheap s)"
  shows "\<exists>s' x. scheduler c s = Some s' \<and> sched_inv s' \<and> tasks s old = Some x \<and>
    (\<forall>d < max_cpus s. d \<noteq> c \<longrightarrow> cpu_places s' d = cpu_places s d) \<and>
    set (cpu_places s' c) = set (cpu_places s c) - set (task_exitqueue s c) -
      (if task_readyqueue s c \<noteq> [] \<and> t_status x \<noteq> TASK_RUNNING \<and> t_status x \<noteq> TASK_EXIT then {old} else {})"
proof -
  obtain s' s1 x where run: "scheduler c s = Some s'" and r: "reaped (set (task_exitqueue s c)) s s1" and x: "tasks s old = Some x"
    and cs: "case task_readyqueue s c of [] \<Rightarrow> s' = s1\<lparr>task_exitqueue := (task_exitqueue s1)(c := [])\<rparr>
     | new # rest \<Rightarrow> switched c old (t_status x) new rest (s1\<lparr>task_exitqueue := (task_exitqueue s1)(c := [])\<rparr>) s'"
    using scheduler_cases [OF assms] by blast
  have dist: "distinct (cpu_places s c)" using assms(1,2) by (simp add: sched_inv_def)
  have other: "cpu_places s' d = cpu_places s d" if "d \<noteq> c" for d
    using that cs r by (cases "task_readyqueue s c") (simp_all add: cpu_places_def reaped_def switched_def)
  have same: "set (cpu_places s' c) = set (cpu_places s c) - set (task_exitqueue s c) -
      (if task_readyqueue s c \<noteq> [] \<and> t_status x \<noteq> TASK_RUNNING \<and> t_status x \<noteq> TASK_EXIT then {old} else {})"
    and dist': "distinct (cpu_places s' c)"
    using cs r assms(3) dist by (cases "task_readyqueue s c"; auto simp: cpu_places_def reaped_def switched_def)+
  have cpus: "max_cpus s' = max_cpus s"
    using cs r by (cases "task_readyqueue s c") (simp_all add: reaped_def switched_def)
  have live: "tasks s' t \<noteq> None" if "tasks s t \<noteq> None" "t \<notin> set (task_exitqueue s c)" for t
    using that cs r by (cases "task_readyqueue s c"; cases "t = hd (task_readyqueue s c)") (auto simp: reaped_def switched_def)
  have "sched_inv s'"
  proof -
    have sub: "set (cpu_places s' d) \<subseteq> set (cpu_places s d)" for d using same other by (cases "d = c") auto
    have ex: "set (task_exitqueue s c) \<subseteq> set (cpu_places s c)" by (auto simp: cpu_places_def)
    have "distinct (cpu_places s' d) \<and> (\<forall>t \<in> set (cpu_places s' d). tasks s' t \<noteq> None)" if d: "d < max_cpus s" for d
    proof
      show "distinct (cpu_places s' d)" using assms(1) d dist' other by (cases "d = c") (auto simp: sched_inv_def)
      show "\<forall>t \<in> set (cpu_places s' d). tasks s' t \<noteq> None"
      proof
        fix t assume t: "t \<in> set (cpu_places s' d)"
        have "t \<notin> set (task_exitqueue s c)"
        proof (cases "d = c")
          case True
          then show ?thesis using t same by auto
        next
          case False
          then show ?thesis using t other ex assms(1,2) d unfolding sched_inv_def by (metis disjoint_iff subsetD)
        qed
        then show "tasks s' t \<noteq> None" using live t sub d assms(1) unfolding sched_inv_def by blast
      qed
    qed
    moreover have "set (cpu_places s' d) \<inter> set (cpu_places s' e) = {}" if "d < max_cpus s" "e < max_cpus s" "d \<noteq> e" for d e
      using assms(1) that sub unfolding sched_inv_def by blast
    ultimately show ?thesis unfolding sched_inv_def cpus by blast
  qed
  then show ?thesis using run x other same by blast
qed

text \<open>
  C22: The scheduler loses and duplicates no task: called on a processor with a current task (and a usable heap) it returns; afterwards every task is again in exactly one place and
  live, the other processors are untouched, and the tasks of this processor are those it had, less the exited tasks, which are released, and less the previous current task if it
  is neither running nor exiting (it blocked) and another task was ready.
\<close>

theorem scheduler_keeps_tasks:
  assumes "sched_inv s" and "c < max_cpus s" and "current s c = Some old" and "\<not> mm_held (sheap s)"
  shows "\<exists>s' x. scheduler c s = Some s' \<and> sched_inv s' \<and> tasks s old = Some x \<and>
    (\<forall>d < max_cpus s. d \<noteq> c \<longrightarrow> cpu_places s' d = cpu_places s d) \<and>
    set (cpu_places s' c) = set (cpu_places s c) - set (task_exitqueue s c) -
      (if task_readyqueue s c \<noteq> [] \<and> t_status x \<noteq> TASK_RUNNING \<and> t_status x \<noteq> TASK_EXIT then {old} else {})"
  by (rule scheduler_places [OF assms])

text \<open>A processor with a running, a ready and an exited task.\<close>

definition kern_task :: "task_status \<Rightarrow> task_struct" where
  "kern_task st = fresh_task\<lparr>t_flags := TASK_FLAGS_KERN, t_status := st\<rparr>"

definition sample_sched :: "nat list \<Rightarrow> nat list \<Rightarrow> sched" where
  "sample_sched ready ex = \<lparr>max_cpus = 1, tasks = (\<lambda>t. Some (kern_task TASK_RUNNING)), next_task = 9, current = (\<lambda>c. Some 0),
     task_readyqueue = (\<lambda>c. ready), task_exitqueue = (\<lambda>c. ex), ap_ids = (\<lambda>_. 0), frames = \<lparr>bmp_size = 0, bmp_map = (\<lambda>_. 0)\<rparr>,
     sheap = fresh_heap, alloc_at = (\<lambda>k. 0x1000 * of_nat (Suc k)), stack_mem = (\<lambda>_. 0), cr3 = (\<lambda>_. 0), tss_rsp0 = (\<lambda>_. 0), irq_on = (\<lambda>_. True),
     run_process_spinlock = 0, run_thread_spinlock = 0, jiffies = (\<lambda>_. 0)\<rparr>"

lemma sample_sched_inv: "distinct (0 # ready @ ex) \<Longrightarrow> sched_inv (sample_sched ready ex)"
  by (auto simp: sched_inv_def sample_sched_def cpu_places_def)

theorem scheduler_keeps_tasks_witness:
  "\<exists>s'. scheduler 0 (sample_sched [1, 2] [3]) = Some s' \<and> sched_inv s' \<and> set (cpu_places s' 0) = {0, 1, 2}"
proof -
  have "sched_inv (sample_sched [1, 2] [3])" by (rule sample_sched_inv) simp
  from scheduler_keeps_tasks [OF this, of 0 0]
  obtain s' x where s': "scheduler 0 (sample_sched [1, 2] [3]) = Some s'" "sched_inv s'" "tasks (sample_sched [1, 2] [3]) 0 = Some x"
    and places: "set (cpu_places s' 0) = set (cpu_places (sample_sched [1, 2] [3]) 0) - set (task_exitqueue (sample_sched [1, 2] [3]) 0) -
      (if task_readyqueue (sample_sched [1, 2] [3]) 0 \<noteq> [] \<and> t_status x \<noteq> TASK_RUNNING \<and> t_status x \<noteq> TASK_EXIT then {0} else {})"
    by (auto simp: sample_sched_def fresh_heap_def)
  have "t_status x = TASK_RUNNING" using s'(3) by (auto simp: sample_sched_def kern_task_def)
  then have "set (cpu_places s' 0) = {0, 1, 2}" unfolding places by (auto simp: sample_sched_def cpu_places_def)
  then show ?thesis using s' by blast
qed

section \<open>Round robin\<close>

primrec timer_ticks :: "nat \<Rightarrow> nat \<Rightarrow> sched \<Rightarrow> sched option" where
  "timer_ticks 0 c s = Some s"
| "timer_ticks (Suc n) c s = do { s \<leftarrow> timer_ticks n c s; lapic_timer_handler c s }"

text \<open>\<open>rr s c L\<close>: processor \<open>c\<close> runs the head of \<open>L\<close>, the rest of \<open>L\<close> is ready in this order, and nothing has exited.\<close>

definition rr :: "sched \<Rightarrow> nat \<Rightarrow> nat list \<Rightarrow> bool" where
  "rr s c L \<longleftrightarrow> sched_inv s \<and> c < max_cpus s \<and> \<not> mm_held (sheap s) \<and> L \<noteq> [] \<and> current s c = Some (hd L) \<and>
     task_readyqueue s c = tl L \<and> task_exitqueue s c = [] \<and> (\<exists>x. tasks s (hd L) = Some x \<and> t_status x = TASK_RUNNING)"

lemma sched_inv_jiffies [simp]: "sched_inv (s\<lparr>jiffies := j\<rparr>) = sched_inv s"
  by (simp add: sched_inv_def cpu_places_def)

lemma rr_step:
  assumes "rr s c L"
  shows "\<exists>s'. lapic_timer_handler c s = Some s' \<and> rr s' c (rotate1 L)"
proof -
  let ?s = "s\<lparr>jiffies := (jiffies s)(c := jiffies s c + 1)\<rparr>"
  obtain t R where L: "L = t # R" using assms by (cases L) (auto simp: rr_def)
  have r: "sched_inv ?s" "c < max_cpus ?s" "current ?s c = Some t" "\<not> mm_held (sheap ?s)" "task_readyqueue ?s c = R" "task_exitqueue ?s c = []"
    using assms L by (auto simp: rr_def)
  obtain y where y: "tasks s t = Some y" "t_status y = TASK_RUNNING" using assms L by (auto simp: rr_def)
  obtain s' s1 x where run: "scheduler c ?s = Some s'" and re: "reaped {} ?s s1" and x: "tasks ?s t = Some x" "tasks s1 t = Some x"
    and cs: "case R of [] \<Rightarrow> s' = s1\<lparr>task_exitqueue := (task_exitqueue s1)(c := [])\<rparr>
     | new # rest \<Rightarrow> switched c t (t_status x) new rest (s1\<lparr>task_exitqueue := (task_exitqueue s1)(c := [])\<rparr>) s'"
    using scheduler_cases [OF r(1-4)] r(5,6) by auto
  have inv: "sched_inv s'" using scheduler_places [OF r(1-4)] run by auto
  have st: "t_status x = TASK_RUNNING" using x y by simp
  have "rr s' c (rotate1 L)"
  proof (cases R)
    case Nil
    then show ?thesis using cs re r inv L x st by (auto simp: rr_def reaped_def)
  next
    case (Cons u U)
    then show ?thesis using cs re r inv L st by (auto simp: rr_def reaped_def switched_def)
  qed
  then show ?thesis using run r(2) by (auto simp: lapic_timer_handler_def)
qed

lemma rr_ticks: "rr s c L \<Longrightarrow> \<exists>s'. timer_ticks n c s = Some s' \<and> rr s' c (rotate n L)"
proof (induction n)
  case (Suc n)
  then obtain s1 where "timer_ticks n c s = Some s1" "rr s1 c (rotate n L)" by blast
  then show ?case using rr_step by fastforce
qed simp

text \<open>
  C23: Round robin: on a processor whose current task runs and where no task has exited, \<open>n\<close> timer interrupts all return and advance the tasks cyclically: the task that was
  at position \<open>n\<close> (counting the running task as position 0, modulo the number of tasks) is running, with its page table and its interrupt stack loaded at the last switch, and the
  order of the others is kept. So every ready task runs after at most as many ticks as there are ready tasks.
\<close>

theorem scheduler_round_robin:
  assumes "sched_inv s" and "c < max_cpus s" and "\<not> mm_held (sheap s)" and "current s c = Some t" and "tasks s t = Some x"
    and "t_status x = TASK_RUNNING" and "task_exitqueue s c = []"
  shows "\<exists>s'. timer_ticks n c s = Some s' \<and>
    current s' c = Some ((t # task_readyqueue s c) ! (n mod Suc (length (task_readyqueue s c)))) \<and>
    task_readyqueue s' c = tl (rotate n (t # task_readyqueue s c)) \<and> sched_inv s'"
proof -
  let ?L = "t # task_readyqueue s c"
  have "rr s c ?L" using assms by (simp add: rr_def)
  from rr_ticks [OF this, of n] obtain s' where s': "timer_ticks n c s = Some s'" "rr s' c (rotate n ?L)" by blast
  have "hd (rotate n ?L) = ?L ! (n mod length ?L)" by (rule hd_rotate_conv_nth) simp
  then show ?thesis using s' by (auto simp: rr_def)
qed

theorem scheduler_round_robin_witness:
  "\<exists>s'. timer_ticks 2 0 (sample_sched [5, 6] []) = Some s' \<and> current s' 0 = Some 6"
proof -
  have "sched_inv (sample_sched [5, 6] [])" by (rule sample_sched_inv) simp
  then show ?thesis
    using scheduler_round_robin [of "sample_sched [5, 6] []" 0 0 "kern_task TASK_RUNNING" 2]
    by (auto simp: sample_sched_def fresh_heap_def kern_task_def)
qed

section \<open>Blocking\<close>

text \<open>
  When no other task is ready, the scheduler returns to the thread that just blocked; it tries again, and is put into the wait queue a second time while it is still in it.
\<close>

lemma mutex_double_wait:
  assumes "c < max_cpus s" and "current s c = Some t" and "tasks s t = Some x" and "task_readyqueue s c = []" and "task_exitqueue s c = []"
    and "locked m = MUTEX_LOCKED"
  shows "\<exists>m1 s1 m2 s2. mutex_lock_turn c m s = Some (False, m1, s1) \<and> current s1 c = Some t \<and>
    mutex_lock_turn c m1 s1 = Some (False, m2, s2) \<and> wait_queue m2 = wait_queue m @ [t, t]"
proof -
  have turn: "\<exists>s1 x. mutex_lock_turn c m s = Some (False, m\<lparr>wait_queue := wait_queue m @ [t]\<rparr>, s1) \<and> max_cpus s1 = max_cpus s \<and>
      current s1 c = Some t \<and> tasks s1 t = Some x \<and> task_readyqueue s1 c = [] \<and> task_exitqueue s1 c = []"
    if a: "c < max_cpus s" "current s c = Some t" "tasks s t = Some x" "task_readyqueue s c = []" "task_exitqueue s c = []"
      "locked m = MUTEX_LOCKED" for m s x
  proof -
    have "mutex_trylock m = (0, m)"
      using a(6) by (simp add: mutex_trylock_def atomic_compare_exchange_def MUTEX_LOCKED_def MUTEX_UNLOCK_def Let_def)
    then show ?thesis
      using a by (simp add: mutex_lock_turn_def get_current_def set_status_def scheduler_def switch_task_def)
  qed
  obtain s1 x1 where s1: "mutex_lock_turn c m s = Some (False, m\<lparr>wait_queue := wait_queue m @ [t]\<rparr>, s1)" "max_cpus s1 = max_cpus s"
      "current s1 c = Some t" "tasks s1 t = Some x1" "task_readyqueue s1 c = []" "task_exitqueue s1 c = []"
    using turn [OF assms] by blast
  obtain s2 where "mutex_lock_turn c (m\<lparr>wait_queue := wait_queue m @ [t]\<rparr>) s1 =
      Some (False, m\<lparr>wait_queue := wait_queue m @ [t, t]\<rparr>, s2)"
    using turn [of s1 x1 "m\<lparr>wait_queue := wait_queue m @ [t]\<rparr>"] s1 assms(1,6) by auto
  then show ?thesis using s1 by (intro exI conjI) auto
qed

text \<open>Exactly one of two attempts on a free mutex succeeds.\<close>

lemma mutex_trylock_once:
  "locked m = MUTEX_UNLOCK \<Longrightarrow> \<exists>r m1. mutex_trylock m = (r, m1) \<and> r \<noteq> 0 \<and> mutex_trylock m1 = (0, m1)"
  by (simp add: mutex_trylock_def atomic_compare_exchange_def MUTEX_LOCKED_def MUTEX_UNLOCK_def Let_def)

end
