(* ===== verification/Uart.thy ===== *)
theory Uart
  imports KHeap "HOL-Library.Sublist"
begin

text \<open>
  The serial port driver \<open>src/src/uart.c\<close>. The device behind the port instructions \<open>inb\<close> and \<open>outb\<close> is a 16550 at the address of COM1, a record of its registers with
  the bytes that have arrived and are not read yet, the bytes that have gone out, and the number of status reads for which the transmit register stays occupied after a byte was
  written; a byte written while it is occupied is lost. The busy waits are loops that may run forever and are \<open>partial_function (option)\<close>.

  The receive buffer is filled by the interrupt handler and emptied by \<open>uart_getc\<close>. The lemmas show that it is a bounded first-in first-out queue, also when the handler
  interrupts \<open>uart_getc\<close> between its two accesses, that output is never lost, and what \<open>uart_gets\<close> returns for the keys typed.
\<close>

section \<open>The device\<close>

record com1 =
  ier :: u8
  fcr :: u8
  lcr :: u8
  mcr :: u8
  dll :: u8
  dlm :: u8
  rx_fifo :: bytes
  tx_line :: bytes
  tx_busy :: nat
  tx_time :: nat

definition UART_BUF_SIZE :: nat where "UART_BUF_SIZE = 2048"
definition UART_COM1_BASE :: u16 where "UART_COM1_BASE = 0x3F8"
definition UART_RHR :: u16 where "UART_RHR = 0"
definition UART_THR :: u16 where "UART_THR = 0"
definition UART_DLL :: u16 where "UART_DLL = 0"
definition UART_IER :: u16 where "UART_IER = 1"
definition UART_DLM :: u16 where "UART_DLM = 1"
definition UART_FCR :: u16 where "UART_FCR = 2"
definition UART_LCR :: u16 where "UART_LCR = 3"
definition UART_MCR :: u16 where "UART_MCR = 4"
definition UART_LSR :: u16 where "UART_LSR = 5"
definition UART_LCR_DLAB :: u8 where "UART_LCR_DLAB = 0x80"
definition UART_LCR_8BIT :: u8 where "UART_LCR_8BIT = 0x03"
definition UART_LSR_EMPTY :: u8 where "UART_LSR_EMPTY = 0x20"
definition UART_LSR_READY :: u8 where "UART_LSR_READY = 0x01"

lemmas uart_regs = UART_COM1_BASE_def UART_RHR_def UART_THR_def UART_DLL_def UART_IER_def UART_DLM_def UART_FCR_def UART_LCR_def UART_MCR_def UART_LSR_def
  UART_LCR_DLAB_def UART_LCR_8BIT_def UART_LSR_EMPTY_def UART_LSR_READY_def

text \<open>Reading and writing the ports of the device; offsets 0 and 1 are the divisor latch while \<open>DLAB\<close> is set.\<close>

definition dlab :: "com1 \<Rightarrow> bool" where
  "dlab d \<longleftrightarrow> lcr d AND 0x80 \<noteq> 0"

definition inb :: "u16 \<Rightarrow> com1 \<Rightarrow> u8 \<times> com1" where
  "inb port d =
     (if port = 0x3FD then
        ((if rx_fifo d = [] then 0 else 0x01) OR (if tx_busy d = 0 then 0x20 else 0), d\<lparr>tx_busy := tx_busy d - 1\<rparr>)
      else if port = 0x3F8 then
        (if dlab d then (dll d, d) else case rx_fifo d of [] \<Rightarrow> (0, d) | c # cs \<Rightarrow> (c, d\<lparr>rx_fifo := cs\<rparr>))
      else if port = 0x3F9 then (if dlab d then dlm d else ier d, d)
      else if port = 0x3FB then (lcr d, d)
      else if port = 0x3FC then (mcr d, d)
      else (0, d))"

definition outb :: "u16 \<Rightarrow> u8 \<Rightarrow> com1 \<Rightarrow> com1" where
  "outb port v d =
     (if port = 0x3F8 then
        (if dlab d then d\<lparr>dll := v\<rparr> else if tx_busy d = 0 then d\<lparr>tx_line := tx_line d @ [v], tx_busy := tx_time d\<rparr> else d)
      else if port = 0x3F9 then (if dlab d then d\<lparr>dlm := v\<rparr> else d\<lparr>ier := v\<rparr>)
      else if port = 0x3FA then d\<lparr>fcr := v, rx_fifo := (if v AND 2 \<noteq> 0 then [] else rx_fifo d)\<rparr>
      else if port = 0x3FB then d\<lparr>lcr := v\<rparr>
      else if port = 0x3FC then d\<lparr>mcr := v\<rparr>
      else d)"

section \<open>Output\<close>

partial_function (option) uart_wait_for_transmit_empty :: "com1 \<Rightarrow> com1 option" where
  "uart_wait_for_transmit_empty d =
     (let (v, d) = inb (UART_COM1_BASE + UART_LSR) d
      in if v AND UART_LSR_EMPTY = 0 then uart_wait_for_transmit_empty d else Some d)"

definition uart_putc :: "u8 \<Rightarrow> com1 \<Rightarrow> com1 option" where
  "uart_putc c d = do {
     d \<leftarrow> (if c = 0x0A then do {
             d \<leftarrow> uart_wait_for_transmit_empty d;
             Some (outb (UART_COM1_BASE + UART_THR) 0x0D d) }
           else if c = 0x0D then do {
             d \<leftarrow> uart_wait_for_transmit_empty d;
             Some (outb (UART_COM1_BASE + UART_THR) 0x0A d) }
           else Some d);
     d \<leftarrow> uart_wait_for_transmit_empty d;
     Some (outb (UART_COM1_BASE + UART_THR) c d) }"

primrec uart_puts :: "bytes \<Rightarrow> com1 \<Rightarrow> com1 option" where
  "uart_puts [] d = Some d"
| "uart_puts (c # str) d = do { d \<leftarrow> uart_putc c d; uart_puts str d }"

section \<open>The receive buffer\<close>

text \<open>The array is allocated by \<open>uart_init\<close>; \<open>[]\<close> stands for a null pointer, whose use faults.\<close>

record uart =
  com :: com1
  rx_data :: bytes
  head :: nat
  tail :: nat

definition uart_enable_irq :: "uart \<Rightarrow> uart" where
  "uart_enable_irq u = u\<lparr>com := outb (UART_COM1_BASE + UART_IER) 0x01 (com u)\<rparr>"

definition uart_disable_irq :: "uart \<Rightarrow> uart" where
  "uart_disable_irq u = u\<lparr>com := outb (UART_COM1_BASE + UART_IER) 0x00 (com u)\<rparr>"

definition uart_init :: "kheap \<Rightarrow> uart \<Rightarrow> (kheap \<times> uart) option" where
  "uart_init h u = do {
     (ok, h) \<leftarrow> kh_alloc h UART_BUF_SIZE;
     let d = com u;
     let d = outb (UART_COM1_BASE + UART_IER) 0x00 d;
     let d = outb (UART_COM1_BASE + UART_LCR) UART_LCR_DLAB d;
     let d = outb (UART_COM1_BASE + UART_DLL) 0x01 d;
     let d = outb (UART_COM1_BASE + UART_DLM) 0x00 d;
     let d = outb (UART_COM1_BASE + UART_LCR) UART_LCR_8BIT d;
     let d = outb (UART_COM1_BASE + UART_FCR) 0xC7 d;
     let d = outb (UART_COM1_BASE + UART_MCR) 0x0B d;
     let d = outb (UART_COM1_BASE + UART_IER) 0x01 d;
     Some (h, u\<lparr>com := d, rx_data := (if ok then replicate UART_BUF_SIZE 0 else []), head := 0, tail := 0\<rparr>) }"

partial_function (option) uart_isr_receive :: "uart \<Rightarrow> uart option" where
  "uart_isr_receive u =
     (let (lsr, d) = inb (UART_COM1_BASE + UART_LSR) (com u)
      in if lsr AND UART_LSR_READY \<noteq> 0 then
           let (ch, d) = inb (UART_COM1_BASE + UART_RHR) d;
               next_head = wrap64 (head u + 1) mod UART_BUF_SIZE
           in if next_head \<noteq> tail u then
                (if head u < length (rx_data u)
                 then uart_isr_receive (u\<lparr>com := d, rx_data := (rx_data u)[head u := ch], head := next_head\<rparr>)
                 else None)
              else uart_isr_receive (u\<lparr>com := d\<rparr>)
         else Some (u\<lparr>com := d\<rparr>))"

text \<open>
  \<open>uart_getc\<close> spins on an empty buffer until the interrupt handler has stored a byte. Called with an empty buffer and no interrupt it does not return.
\<close>

definition uart_getc :: "uart \<Rightarrow> (u8 \<times> uart) option" where
  "uart_getc u =
     (if head u = tail u then None
      else if tail u < length (rx_data u) then
        (let ch = rx_data u ! tail u
         in Some (ch, u\<lparr>tail := wrap64 (tail u + 1) mod UART_BUF_SIZE\<rparr>))
      else None)"

text \<open>The buffer \<open>s\<close> of the caller is a function of the index; the result is true for \<open>s\<close> and false for the null pointer.\<close>

partial_function (option) uart_gets_loop :: "nat \<Rightarrow> (nat \<Rightarrow> u8) \<Rightarrow> uart \<Rightarrow> (bool \<times> (nat \<Rightarrow> u8) \<times> uart) option" where
  "uart_gets_loop count s u =
     (if count < UART_BUF_SIZE then do {
        (ch, u) \<leftarrow> uart_getc u;
        if 32 \<le> ch \<and> ch \<le> 127 then do {
          d \<leftarrow> uart_putc ch (com u);
          uart_gets_loop (count + 1) (s(count := ch)) (u\<lparr>com := d\<rparr>) }
        else if ch = 0x0D \<or> ch = 0x0A \<or> ch = 0 then do {
          d \<leftarrow> uart_putc ch (com u);
          Some (True, s(count := ch), u\<lparr>com := d\<rparr>) }
        else if ch = 0x08 then
          (if count \<noteq> 0 then do {
             d \<leftarrow> uart_putc ch (com u);
             uart_gets_loop (count - 1) s (u\<lparr>com := d\<rparr>) }
           else uart_gets_loop count s u)
        else uart_gets_loop count s u }
      else Some (False, s, u))"

definition uart_gets :: "(nat \<Rightarrow> u8) \<Rightarrow> uart \<Rightarrow> (bool \<times> (nat \<Rightarrow> u8) \<times> uart) option" where
  "uart_gets s u = uart_gets_loop 0 s u"

section \<open>Output is never lost\<close>

text \<open>The line with its carriage returns: what the terminal receives for a character.\<close>

definition crlf :: "u8 \<Rightarrow> bytes" where
  "crlf c = (if c = 0x0A then [0x0D, 0x0A] else if c = 0x0D then [0x0A, 0x0D] else [c])"

lemma wait_returns:
  "\<exists>d'. uart_wait_for_transmit_empty d = Some d' \<and> tx_busy d' = 0 \<and> d' = d\<lparr>tx_busy := 0\<rparr>"
proof (induction "tx_busy d" arbitrary: d)
  case 0
  then show ?case by (subst uart_wait_for_transmit_empty.simps) (simp add: inb_def uart_regs)
next
  case (Suc n)
  from Suc.hyps(1) [of "d\<lparr>tx_busy := n\<rparr>"] show ?case
    using Suc.hyps(2) [symmetric] by (subst uart_wait_for_transmit_empty.simps) (simp add: inb_def uart_regs)
qed

lemma wait_Some: "uart_wait_for_transmit_empty d = Some (d\<lparr>tx_busy := 0\<rparr>)"
  using wait_returns [of d] by auto

lemma send_free: "\<not> dlab d \<Longrightarrow> tx_busy d = 0 \<Longrightarrow>
    outb (UART_COM1_BASE + UART_THR) c d = d\<lparr>tx_line := tx_line d @ [c], tx_busy := tx_time d\<rparr>"
  by (simp add: outb_def uart_regs)

lemma dlab_irrelevant [simp]:
  "dlab (d\<lparr>tx_busy := n\<rparr>) = dlab d" "dlab (d\<lparr>tx_line := l\<rparr>) = dlab d" "dlab (d\<lparr>rx_fifo := r\<rparr>) = dlab d"
  by (simp_all add: dlab_def)

lemma uart_putc_sends:
  assumes "\<not> dlab d"
  shows "uart_putc c d = Some (d\<lparr>tx_line := tx_line d @ crlf c, tx_busy := tx_time d\<rparr>)"
  using assms by (simp add: uart_putc_def wait_Some send_free crlf_def)

lemma uart_puts_sends:
  "\<not> dlab d \<Longrightarrow> \<exists>n. uart_puts str d = Some (d\<lparr>tx_line := tx_line d @ concat (map crlf str), tx_busy := n\<rparr>)"
proof (induction str arbitrary: d)
  case Nil
  show ?case by (rule exI [of _ "tx_busy d"]) simp
next
  case (Cons c str)
  let ?d = "d\<lparr>tx_line := tx_line d @ crlf c, tx_busy := tx_time d\<rparr>"
  from Cons.IH [of ?d] Cons.prems obtain n where
    "uart_puts str ?d = Some (?d\<lparr>tx_line := tx_line ?d @ concat (map crlf str), tx_busy := n\<rparr>)" by auto
  then show ?case using Cons.prems by (intro exI [of _ n]) (simp add: uart_putc_sends)
qed

lemma uart_init_line:
  assumes "uart_init h u = Some (h', u')"
  shows "\<not> dlab (com u')" "lcr (com u') = 0x03" "dll (com u') = 1" "dlm (com u') = 0" "ier (com u') = 1" "rx_fifo (com u') = []"
  using assms by (auto simp: uart_init_def outb_def uart_regs dlab_def Let_def split: Option.bind_splits)

section \<open>The receive buffer is a bounded queue\<close>

definition ring_len :: "uart \<Rightarrow> nat" where
  "ring_len u = (head u + UART_BUF_SIZE - tail u) mod UART_BUF_SIZE"

definition ring :: "uart \<Rightarrow> bytes" where
  "ring u = map (\<lambda>i. rx_data u ! ((tail u + i) mod UART_BUF_SIZE)) [0..<ring_len u]"

definition ring_wf :: "uart \<Rightarrow> bool" where
  "ring_wf u \<longleftrightarrow> length (rx_data u) = UART_BUF_SIZE \<and> head u < UART_BUF_SIZE \<and> tail u < UART_BUF_SIZE \<and> \<not> dlab (com u)"

lemma length_ring [simp]: "length (ring u) = ring_len u"
  by (simp add: ring_def)

lemma ring_len_max: "ring_wf u \<Longrightarrow> ring_len u \<le> 2047"
  by (simp add: ring_len_def UART_BUF_SIZE_def)

lemma ring_len_cases:
  "ring_wf u \<Longrightarrow> ring_len u = (if tail u \<le> head u then head u - tail u else head u + UART_BUF_SIZE - tail u)"
  by (auto simp: ring_len_def ring_wf_def mod_if UART_BUF_SIZE_def)

lemma ring_empty: "ring_wf u \<Longrightarrow> (head u = tail u) = (ring u = [])"
  by (auto simp: ring_def ring_len_cases ring_wf_def)

lemma ring_full: "ring_wf u \<Longrightarrow> (wrap64 (head u + 1) mod UART_BUF_SIZE = tail u) = (ring_len u = 2047)"
  by (auto simp: ring_len_cases ring_wf_def UART_BUF_SIZE_def mod_if split: if_splits)

lemma ring_put:
  fixes u :: uart and c :: u8
  assumes "ring_wf u" and "ring_len u < 2047"
  defines "u' \<equiv> u\<lparr>rx_data := (rx_data u)[head u := c], head := wrap64 (head u + 1) mod UART_BUF_SIZE\<rparr>"
  shows "ring u' = ring u @ [c] \<and> ring_wf u'"
proof -
  have wf: "ring_wf u'" using assms(1) by (simp add: ring_wf_def u'_def UART_BUF_SIZE_def)
  have len: "ring_len u' = Suc (ring_len u)"
    using assms(1,2) ring_len_cases [OF wf] ring_len_cases [OF assms(1)]
    by (auto simp: u'_def ring_wf_def UART_BUF_SIZE_def mod_if split: if_splits)
  have at: "(tail u + ring_len u) mod UART_BUF_SIZE = head u"
    using assms(1) by (cases "tail u \<le> head u") (simp_all add: ring_len_cases ring_wf_def)
  have ne: "(tail u + i) mod UART_BUF_SIZE \<noteq> head u" if "i < ring_len u" for i
  proof (cases "tail u + i < UART_BUF_SIZE")
    case True
    then show ?thesis using assms(1) that by (auto simp: ring_len_cases ring_wf_def split: if_splits)
  next
    case False
    moreover from this have "tail u + i < 2 * UART_BUF_SIZE" using assms(1) that by (auto simp: ring_len_cases ring_wf_def split: if_splits)
    ultimately have "(tail u + i) mod UART_BUF_SIZE = tail u + i - UART_BUF_SIZE" by (simp add: le_mod_geq)
    then show ?thesis using assms(1) that False by (auto simp: ring_len_cases ring_wf_def split: if_splits)
  qed
  have "ring u' = map (\<lambda>i. (rx_data u)[head u := c] ! ((tail u + i) mod UART_BUF_SIZE)) [0..<Suc (ring_len u)]"
    by (simp add: ring_def len) (simp add: u'_def)
  also have "\<dots> = ring u @ [c]"
    using ne [THEN not_sym] at assms(1) by (auto simp: ring_def ring_wf_def)
  finally show ?thesis using wf by simp
qed

lemma ring_get:
  assumes "ring_wf u" and "ring u \<noteq> []"
  shows "uart_getc u = Some (hd (ring u), u\<lparr>tail := wrap64 (tail u + 1) mod UART_BUF_SIZE\<rparr>)"
    and "ring (u\<lparr>tail := wrap64 (tail u + 1) mod UART_BUF_SIZE\<rparr>) = tl (ring u)"
    and "ring_wf (u\<lparr>tail := wrap64 (tail u + 1) mod UART_BUF_SIZE\<rparr>)"
proof -
  let ?u = "u\<lparr>tail := wrap64 (tail u + 1) mod UART_BUF_SIZE\<rparr>"
  have b: "tail u < UART_BUF_SIZE" "length (rx_data u) = UART_BUF_SIZE" using assms(1) by (simp_all add: ring_wf_def)
  have ne: "head u \<noteq> tail u" using ring_empty [OF assms(1)] assms(2) by simp
  have pos: "0 < ring_len u" using assms(2) by (metis length_ring length_greater_0_conv)
  then have up: "[0..<ring_len u] = 0 # [1..<ring_len u]" by (simp add: upt_rec)
  show wf: "ring_wf ?u" using assms(1) by (simp add: ring_wf_def UART_BUF_SIZE_def)
  show "uart_getc u = Some (hd (ring u), ?u)"
    using ne b up by (simp add: uart_getc_def Let_def ring_def)
  have len: "ring_len ?u = ring_len u - 1"
    using ne assms(1) ring_len_cases [OF wf] ring_len_cases [OF assms(1)]
    by (auto simp: ring_wf_def UART_BUF_SIZE_def mod_if split: if_splits)
  have w: "wrap64 (Suc (tail u)) = Suc (tail u)" using b(1) by (intro wrap64_id) (simp add: UART_BUF_SIZE_def)
  have "ring ?u = map (\<lambda>i. rx_data u ! ((Suc (tail u) mod UART_BUF_SIZE + i) mod UART_BUF_SIZE)) [0..<ring_len u - 1]"
    unfolding ring_def len using w by simp
  also have "\<dots> = map (\<lambda>i. rx_data u ! ((tail u + Suc i) mod UART_BUF_SIZE)) [0..<ring_len u - 1]"
    by (simp add: mod_add_left_eq)
  also have "\<dots> = map (\<lambda>i. rx_data u ! ((tail u + i) mod UART_BUF_SIZE)) [1..<ring_len u]"
    using pos map_Suc_upt [of 0 "ring_len u - 1"] by (metis (no_types, lifting) One_nat_def Suc_pred map_map comp_apply map_cong)
  also have "\<dots> = tl (ring u)" using up by (simp add: ring_def)
  finally show "ring ?u = tl (ring u)" .
qed

lemma ring_com [simp]: "ring (u\<lparr>com := d\<rparr>) = ring u" "ring_len (u\<lparr>com := d\<rparr>) = ring_len u"
  by (simp_all add: ring_def ring_len_def)

text \<open>The handler drains the device; what does not fit is dropped.\<close>

lemma uart_isr_receive_spec:
  "ring_wf u \<Longrightarrow> \<exists>u'. uart_isr_receive u = Some u' \<and> ring_wf u' \<and> rx_fifo (com u') = [] \<and>
    ring u' = ring u @ take (2047 - ring_len u) (rx_fifo (com u)) \<and> tx_line (com u') = tx_line (com u)"
proof (induction "rx_fifo (com u)" arbitrary: u)
  case Nil
  from Nil(2) have "ring_wf (u\<lparr>com := (com u)\<lparr>tx_busy := tx_busy (com u) - 1\<rparr>\<rparr>)" by (simp add: ring_wf_def)
  then show ?case using Nil(1) [symmetric]
    by (subst uart_isr_receive.simps) (simp add: inb_def uart_regs)
next
  case (Cons c cs)
  let ?d = "(com u)\<lparr>tx_busy := tx_busy (com u) - 1, rx_fifo := cs\<rparr>"
  have nd: "\<not> dlab (com u)" using Cons.prems by (simp add: ring_wf_def)
  have step: "uart_isr_receive u =
      (if ring_len u = 2047 then uart_isr_receive (u\<lparr>com := ?d\<rparr>)
       else uart_isr_receive (u\<lparr>com := ?d, rx_data := (rx_data u)[head u := c], head := wrap64 (head u + 1) mod UART_BUF_SIZE\<rparr>))"
    using Cons.hyps(2) [symmetric] nd ring_full [OF Cons.prems] Cons.prems
    by (subst uart_isr_receive.simps) (simp add: inb_def uart_regs ring_wf_def Let_def)
  have wf: "ring_wf (u\<lparr>com := ?d\<rparr>)" using Cons.prems by (simp add: ring_wf_def)
  show ?case
  proof (cases "ring_len u = 2047")
    case True
    from Cons.hyps(1) [of "u\<lparr>com := ?d\<rparr>"] wf step True show ?thesis by simp
  next
    case False
    then have room: "ring_len (u\<lparr>com := ?d\<rparr>) < 2047" using ring_len_max [OF Cons.prems] by simp
    let ?u = "u\<lparr>com := ?d, rx_data := (rx_data u)[head u := c], head := wrap64 (head u + 1) mod UART_BUF_SIZE\<rparr>"
    from ring_put [OF wf room, of c] have put: "ring ?u = ring u @ [c]" "ring_wf ?u" by simp_all
    then have "ring_len ?u = Suc (ring_len u)" by (metis length_append_singleton length_ring)
    moreover have "2047 - ring_len u = Suc (2047 - Suc (ring_len u))" using room by simp
    ultimately show ?thesis using Cons.hyps(1) [of ?u] Cons.hyps(2) [symmetric] put step False by simp
  qed
qed

section \<open>The handler and the reader together\<close>

text \<open>
  A run of the system: bytes arrive at the device, the interrupt handler runs, and a thread is in \<open>uart_getc\<close>, which reads the byte at \<open>tail\<close> and advances \<open>tail\<close> in
  two separate steps, with the handler possibly in between. \<open>arrived\<close> and \<open>delivered\<close> are the histories of input and of results, \<open>overrun\<close> says that the handler
  has met a full buffer.
\<close>

record uart_sys =
  port :: uart
  fetched :: "u8 option"
  arrived :: bytes
  delivered :: bytes
  overrun :: bool

inductive uart_step :: "uart_sys \<Rightarrow> uart_sys \<Rightarrow> bool" where
  arrive: "uart_step s (s\<lparr>port := (port s)\<lparr>com := (com (port s))\<lparr>rx_fifo := rx_fifo (com (port s)) @ [c]\<rparr>\<rparr>, arrived := arrived s @ [c]\<rparr>)"
| interrupt: "uart_isr_receive (port s) = Some u \<Longrightarrow>
    uart_step s (s\<lparr>port := u, overrun := (overrun s \<or> 2047 < ring_len (port s) + length (rx_fifo (com (port s))))\<rparr>)"
| fetch: "fetched s = None \<Longrightarrow> head (port s) \<noteq> tail (port s) \<Longrightarrow>
    uart_step s (s\<lparr>fetched := Some (rx_data (port s) ! tail (port s))\<rparr>)"
| advance: "fetched s = Some c \<Longrightarrow>
    uart_step s (s\<lparr>port := (port s)\<lparr>tail := wrap64 (tail (port s) + 1) mod UART_BUF_SIZE\<rparr>, fetched := None, delivered := delivered s @ [c]\<rparr>)"

inductive uart_run :: "uart_sys \<Rightarrow> bool" where
  start: "ring_wf u \<Longrightarrow> head u = tail u \<Longrightarrow> rx_fifo (com u) = [] \<Longrightarrow>
    uart_run \<lparr>port = u, fetched = None, arrived = [], delivered = [], overrun = False\<rparr>"
| step: "uart_run s \<Longrightarrow> uart_step s t \<Longrightarrow> uart_run t"

definition uart_inv :: "uart_sys \<Rightarrow> bool" where
  "uart_inv s \<longleftrightarrow> ring_wf (port s) \<and>
    (\<forall>c. fetched s = Some c \<longrightarrow> ring (port s) \<noteq> [] \<and> c = hd (ring (port s))) \<and>
    (let seen = delivered s @ ring (port s) @ rx_fifo (com (port s))
     in subseq seen (arrived s) \<and> (\<not> overrun s \<longrightarrow> seen = arrived s))"

lemma uart_step_inv: "uart_step s t \<Longrightarrow> uart_inv s \<Longrightarrow> uart_inv t"
proof (induction rule: uart_step.induct)
  case (arrive s c)
  have "subseq ((delivered s @ ring (port s) @ rx_fifo (com (port s))) @ [c]) (arrived s @ [c])"
    using arrive.prems by (intro list_emb_append_mono) (simp_all add: uart_inv_def Let_def)
  then show ?case using arrive.prems by (auto simp: uart_inv_def Let_def ring_wf_def)
next
  case (interrupt s u)
  let ?r = "ring (port s)" and ?x = "rx_fifo (com (port s))"
  have wf: "ring_wf (port s)" using interrupt.prems by (simp add: uart_inv_def)
  from uart_isr_receive_spec [OF wf] interrupt.hyps
  have u: "ring_wf u" "rx_fifo (com u) = []" "ring u = ?r @ take (2047 - ring_len (port s)) ?x" by auto
  have "subseq (delivered s @ ?r @ take (2047 - ring_len (port s)) ?x) (delivered s @ ?r @ ?x)"
    by (intro list_emb_append_mono subseq_order.refl prefix_imp_subseq take_is_prefix)
  moreover have "subseq (delivered s @ ?r @ ?x) (arrived s)" using interrupt.prems by (simp add: uart_inv_def Let_def)
  ultimately have "subseq (delivered s @ ring u @ rx_fifo (com u)) (arrived s)"
    unfolding u using subseq_order.trans by auto
  then show ?case using interrupt.prems u by (auto simp: uart_inv_def Let_def)
next
  case (fetch s)
  have wf: "ring_wf (port s)" using fetch.prems by (simp add: uart_inv_def)
  have ne: "ring (port s) \<noteq> []" using ring_empty [OF wf] fetch.hyps by simp
  have "hd (ring (port s)) = rx_data (port s) ! tail (port s)"
    using ring_get(1) [OF wf ne] by (auto simp: uart_getc_def Let_def split: if_splits)
  then show ?case using fetch ne by (simp add: uart_inv_def)
next
  case (advance s c)
  have wf: "ring_wf (port s)" and c: "ring (port s) \<noteq> []" "c = hd (ring (port s))"
    using advance by (auto simp: uart_inv_def)
  then obtain cs where "ring (port s) = c # cs" by (cases "ring (port s)") auto
  then show ?case using advance.prems ring_get(2,3) [OF wf c(1)] by (simp add: uart_inv_def Let_def)
qed

lemma uart_run_inv: "uart_run s \<Longrightarrow> uart_inv s"
proof (induction rule: uart_run.induct)
  case (start u)
  then show ?case using ring_empty [of u] by (simp add: uart_inv_def)
next
  case (step s t)
  then show ?case by (blast intro: uart_step_inv)
qed

text \<open>
  C24: The receive path delivers input in order: for every run of arriving bytes, interrupts and reads, where the handler may run between the two accesses of \<open>uart_getc\<close>, the bytes
  delivered so far, followed by those in the buffer and those still in the device, are a subsequence of what arrived (nothing is invented, repeated or reordered), and all of
  it as long as the handler never met a full buffer. The buffer holds at most 2047 bytes and its indices stay in the array.
\<close>

theorem uart_receive_fifo:
  assumes "uart_run s"
  shows "subseq (delivered s @ ring (port s) @ rx_fifo (com (port s))) (arrived s) \<and>
    (overrun s \<or> delivered s @ ring (port s) @ rx_fifo (com (port s)) = arrived s) \<and>
    length (ring (port s)) \<le> 2047 \<and> head (port s) < length (rx_data (port s)) \<and> tail (port s) < length (rx_data (port s))"
proof -
  have i: "uart_inv s" by (rule uart_run_inv [OF assms])
  then have "ring_wf (port s)" by (simp add: uart_inv_def)
  then show ?thesis using i ring_len_max [of "port s"] by (auto simp: uart_inv_def Let_def ring_wf_def)
qed

definition idle_port :: uart where
  "idle_port = \<lparr>com = \<lparr>ier = 1, fcr = 0xC7, lcr = 3, mcr = 0x0B, dll = 1, dlm = 0, rx_fifo = [], tx_line = [], tx_busy = 0, tx_time = 5\<rparr>,
     rx_data = replicate UART_BUF_SIZE 0, head = 0, tail = 0\<rparr>"

lemma idle_port_wf [simp]: "ring_wf idle_port"
  by (simp add: ring_wf_def idle_port_def dlab_def UART_BUF_SIZE_def)

theorem uart_receive_fifo_witness:
  "\<exists>s. uart_run s \<and> arrived s = [65, 66] \<and> delivered s @ ring (port s) @ rx_fifo (com (port s)) = [65, 66]"
proof -
  let ?s0 = "\<lparr>port = idle_port, fetched = None, arrived = [], delivered = [], overrun = False\<rparr>"
  have "uart_run ?s0" by (rule uart_run.start [OF idle_port_wf]) (simp_all add: idle_port_def)
  from uart_run.step [OF uart_run.step [OF this uart_step.arrive [of _ 65]] uart_step.arrive [of _ 66]]
  obtain s where s: "uart_run s" "arrived s = [65, 66]" "\<not> overrun s" by fastforce
  from uart_receive_fifo [OF s(1)] s show ?thesis by auto
qed

section \<open>Reading a line\<close>

text \<open>The line a sequence of keys stands for: printable bytes are added, backspace removes the last one, everything else is ignored.\<close>

definition key_edit :: "bytes \<Rightarrow> u8 \<Rightarrow> bytes" where
  "key_edit l c = (if 32 \<le> c \<and> c \<le> 127 then l @ [c] else if c = 8 then butlast l else l)"

definition line_end :: "u8 \<Rightarrow> bool" where
  "line_end c \<longleftrightarrow> c = 0x0D \<or> c = 0x0A \<or> c = 0"

fun key_echo :: "bytes \<Rightarrow> bytes \<Rightarrow> bytes" where
  "key_echo l [] = []"
| "key_echo l (c # cs) = (if 32 \<le> c \<and> c \<le> 127 \<or> c = 8 \<and> l \<noteq> [] then [c] else []) @ key_echo (key_edit l c) cs"

lemma line_end_not_key: "line_end c \<Longrightarrow> \<not> (32 \<le> c \<and> c \<le> 127)"
  by (auto simp: line_end_def word_le_nat_alt)

lemma crlf_key: "\<not> line_end c \<Longrightarrow> crlf c = [c]"
  by (auto simp: crlf_def line_end_def)

lemma key_edit_length: "length (key_edit l c) \<le> Suc (length l)"
  by (cases l) (auto simp: key_edit_def)

lemma ring_getc:
  assumes "ring_wf u" and "ring u = c # cs"
  obtains u' where "uart_getc u = Some (c, u')" "ring u' = cs" "ring_wf u'" "com u' = com u"
  using ring_get [OF assms(1)] assms(2) by simp

definition holds_line :: "(nat \<Rightarrow> u8) \<Rightarrow> bytes \<Rightarrow> bool" where
  "holds_line s l \<longleftrightarrow> (\<forall>i < length l. s i = l ! i)"

lemma holds_line_snoc: "holds_line s l \<Longrightarrow> holds_line (s(length l := c)) (l @ [c])"
  by (auto simp: holds_line_def nth_append)

lemma holds_line_butlast: "holds_line s l \<Longrightarrow> holds_line s (butlast l)"
  by (auto simp: holds_line_def nth_butlast)

lemma uart_gets_loop_step:
  assumes "ring_wf u" and "ring u = c # cs" and "length l < UART_BUF_SIZE" and "\<not> line_end c" and "holds_line s l"
  shows "\<exists>s' u'. uart_gets_loop (length l) s u = uart_gets_loop (length (key_edit l c)) s' u' \<and> ring_wf u' \<and> ring u' = cs \<and>
    holds_line s' (key_edit l c) \<and> tx_line (com u') = tx_line (com u) @ (if 32 \<le> c \<and> c \<le> 127 \<or> c = 8 \<and> l \<noteq> [] then [c] else [])"
proof -
  obtain u1 where u1: "uart_getc u = Some (c, u1)" "ring u1 = cs" "ring_wf u1" "com u1 = com u"
    by (rule ring_getc [OF assms(1,2)])
  let ?u = "u1\<lparr>com := (com u1)\<lparr>tx_line := tx_line (com u1) @ [c], tx_busy := tx_time (com u1)\<rparr>\<rparr>"
  have put: "uart_putc c (com u1) = Some (com ?u)" "ring_wf ?u"
    using u1(3) uart_putc_sends [of "com u1" c] crlf_key [OF assms(4)] by (simp_all add: ring_wf_def)
  consider "32 \<le> c \<and> c \<le> 127" | "c = 8" "l \<noteq> []" "\<not> (32 \<le> c \<and> c \<le> 127)"
    | "\<not> (32 \<le> c \<and> c \<le> 127)" "c = 8 \<Longrightarrow> l = []" by blast
  then show ?thesis
  proof cases
    case 1
    then have "uart_gets_loop (length l) s u = uart_gets_loop (length (l @ [c])) (s(length l := c)) ?u"
      using assms(3) u1(1) put(1) by (subst uart_gets_loop.simps) simp
    then show ?thesis using 1 put(2) u1 holds_line_snoc [OF assms(5), of c] by (fastforce simp: key_edit_def)
  next
    case 2
    then have "uart_gets_loop (length l) s u = uart_gets_loop (length (butlast l)) s ?u"
      using assms(3) u1(1) put(1) by (subst uart_gets_loop.simps) simp
    then show ?thesis using 2 put(2) u1 holds_line_butlast [OF assms(5)] by (fastforce simp: key_edit_def)
  next
    case 3
    then have "uart_gets_loop (length l) s u = uart_gets_loop (length l) s u1"
      using assms(3,4) u1(1) by (subst uart_gets_loop.simps) (auto simp: line_end_def)
    moreover have "key_edit l c = l" using 3 by (auto simp: key_edit_def)
    ultimately show ?thesis using 3 u1 assms(5) by (intro exI [of _ s] exI [of _ u1]) auto
  qed
qed

lemma uart_gets_loop_end:
  assumes "ring_wf u" and "ring u = c # cs" and "length l < UART_BUF_SIZE" and "line_end c" and "holds_line s l"
  shows "\<exists>u'. uart_gets_loop (length l) s u = Some (True, s(length l := c), u') \<and> ring_wf u' \<and> ring u' = cs \<and>
    tx_line (com u') = tx_line (com u) @ crlf c"
proof -
  obtain u1 where u1: "uart_getc u = Some (c, u1)" "ring u1 = cs" "ring_wf u1" "com u1 = com u"
    by (rule ring_getc [OF assms(1,2)])
  then show ?thesis
    using assms(3,4) line_end_not_key [OF assms(4)] uart_putc_sends [of "com u1" c]
    by (subst uart_gets_loop.simps) (auto simp: ring_wf_def line_end_def)
qed

lemma uart_gets_loop_line:
  assumes "ring_wf u" and "ring u = keys @ t # rest" and "list_all (\<lambda>c. \<not> line_end c) keys" and "line_end t"
    and "length l + length keys < UART_BUF_SIZE" and "holds_line s l"
  shows "\<exists>s' u'. uart_gets_loop (length l) s u = Some (True, s', u') \<and> ring_wf u' \<and> ring u' = rest \<and>
    holds_line s' (foldl key_edit l keys @ [t]) \<and> tx_line (com u') = tx_line (com u) @ key_echo l keys @ crlf t"
  using assms
proof (induction keys arbitrary: l s u)
  case Nil
  then show ?case using uart_gets_loop_end [of u t rest l s] holds_line_snoc [of s l t] by fastforce
next
  case (Cons c keys)
  then have c: "ring u = c # keys @ t # rest" "\<not> line_end c" "length l < UART_BUF_SIZE" by simp_all
  from uart_gets_loop_step [OF Cons.prems(1) c(1,3,2) Cons.prems(6)] obtain s1 u1 where
    1: "uart_gets_loop (length l) s u = uart_gets_loop (length (key_edit l c)) s1 u1" "ring_wf u1" "ring u1 = keys @ t # rest"
    "holds_line s1 (key_edit l c)"
    "tx_line (com u1) = tx_line (com u) @ (if 32 \<le> c \<and> c \<le> 127 \<or> c = 8 \<and> l \<noteq> [] then [c] else [])" by blast
  have "length (key_edit l c) + length keys < UART_BUF_SIZE" using Cons.prems(5) key_edit_length [of l c] by simp
  from Cons.IH [OF 1(2,3) _ Cons.prems(4) this 1(4)] Cons.prems(3) 1(1,5) show ?case by auto
qed

text \<open>
  Reading a line from the console: when the receive buffer holds keys followed by a line end (carriage return, newline or zero), \<open>uart_gets\<close> returns its buffer, which then
  holds the line the keys stand for (printable bytes, with backspace removing the last one) followed by the line end itself; the rest of the input stays in the receive buffer, and
  what was typed has been echoed to the terminal.
\<close>

lemma uart_gets_line:
  assumes "ring_wf u" and "ring u = keys @ t # rest" and "list_all (\<lambda>c. \<not> line_end c) keys" and "line_end t"
  shows "\<exists>s' u'. uart_gets s u = Some (True, s', u') \<and> ring u' = rest \<and> ring_wf u' \<and>
    (let line = foldl key_edit [] keys in map s' [0..<length line] = line \<and> s' (length line) = t) \<and>
    tx_line (com u') = tx_line (com u) @ key_echo [] keys @ crlf t"
proof -
  have "length keys < UART_BUF_SIZE"
    using ring_len_max [OF assms(1)] arg_cong [OF assms(2), of length] by (simp add: UART_BUF_SIZE_def)
  then obtain s' u' where r: "uart_gets s u = Some (True, s', u')" "ring_wf u'" "ring u' = rest"
    "holds_line s' (foldl key_edit [] keys @ [t])" "tx_line (com u') = tx_line (com u) @ key_echo [] keys @ crlf t"
    using uart_gets_loop_line [OF assms, of "[]" s] by (auto simp: uart_gets_def holds_line_def)
  let ?l = "foldl key_edit [] keys"
  from r(4) have "s' i = (?l @ [t]) ! i" if "i < Suc (length ?l)" for i using that by (simp add: holds_line_def)
  then have "map s' [0..<length ?l] = ?l \<and> s' (length ?l) = t" by (auto simp: nth_append intro!: nth_equalityI)
  then show ?thesis using r by (auto simp: Let_def)
qed

definition typed_port :: uart where
  "typed_port = idle_port\<lparr>rx_data := [108, 120, 8, 115, 13] @ replicate 2043 0, head := 5\<rparr>"

lemma uart_gets_line_example:
  "\<exists>s' u'. uart_gets (\<lambda>_. 0) typed_port = Some (True, s', u') \<and> s' 0 = 108 \<and> s' 1 = 115 \<and> s' (Suc 1) = 13 \<and>
    tx_line (com u') = [108, 120, 8, 115, 10, 13]"
proof -
  have r: "ring typed_port = [108, 120, 8, 115] @ 13 # []"
    by (simp add: ring_def ring_len_def typed_port_def idle_port_def UART_BUF_SIZE_def upt_rec)
  have wf: "ring_wf typed_port" by (simp add: ring_wf_def typed_port_def idle_port_def dlab_def UART_BUF_SIZE_def)
  have "list_all (\<lambda>c. \<not> line_end c) [108, 120, 8, 115]" by (simp add: line_end_def)
  from uart_gets_line [OF wf r this, of "\<lambda>_. 0"] show ?thesis
    by (auto simp: line_end_def Let_def key_edit_def crlf_def typed_port_def idle_port_def upt_rec)
qed

end
