(* ===== verification/Printf.thy ===== *)
theory Printf
  imports Uart CString
begin

text \<open>
  Formatted output, \<open>src/src/lib/printf.c\<close>. An output function takes the character, the buffer pointer, the index and the limit, as \<open>out_fct_type\<close> does, and the state it acts on:
  the memory for \<open>_out_buffer\<close>, the serial port for \<open>_out_char\<close>. The variable arguments are a list of the 64-bit slots \<open>va_arg\<close> reads; an argument that is used as a string is
  the string it points to, which must not overlap the output. A format is a C string without its terminator. \<open>None\<close> stands for a call that does not return or leaves what C defines:
  a missing argument, an argument of the wrong kind, or a format that ends inside a directive, after which the code reads past the terminator.

  The lemmas show that every output function receives the same text (\<open>format_text\<close>), that \<open>snprintf\<close> stores as much of it as fits and touches nothing else, and that integers are printed as
  the C standard says.
\<close>

section \<open>Output functions\<close>

type_synonym 'w out_fct_type = "u8 \<Rightarrow> u64 \<Rightarrow> u64 \<Rightarrow> u64 \<Rightarrow> 'w \<Rightarrow> 'w option"
type_synonym 'w put = "u8 \<Rightarrow> u64 \<Rightarrow> 'w \<Rightarrow> 'w option"

definition out_buffer :: "mem out_fct_type" where
  "out_buffer character buffer idx maxlen m = Some (if idx < maxlen then m(buffer + idx := character) else m)"

definition out_null :: "'w out_fct_type" where
  "out_null character buffer idx maxlen w = Some w"

definition putchar :: "u8 \<Rightarrow> com1 \<Rightarrow> com1 option" where
  "putchar character d = uart_putc character d"

definition out_char :: "com1 out_fct_type" where
  "out_char character buffer idx maxlen d = (if character \<noteq> 0 then putchar character d else Some d)"

text \<open>The wrapper of \<open>fctprintf\<close>: the user's function with its argument.\<close>

definition out_fct :: "(u8 \<Rightarrow> u64 \<Rightarrow> 'w \<Rightarrow> 'w option) \<Rightarrow> u64 \<Rightarrow> 'w out_fct_type" where
  "out_fct fct arg character buffer idx maxlen w = (if character \<noteq> 0 then fct character arg w else Some w)"

text \<open>The statement \<open>out(c, buffer, idx++, maxlen)\<close>, with \<open>out\<close>, \<open>buffer\<close> and \<open>maxlen\<close> fixed.\<close>

fun emit :: "'w put \<Rightarrow> u8 \<Rightarrow> u64 \<times> 'w \<Rightarrow> (u64 \<times> 'w) option" where
  "emit put c (idx, w) = do { w \<leftarrow> put c idx w; Some (idx + 1, w) }"

section \<open>Helpers\<close>

primrec strnlen_s :: "bytes \<Rightarrow> nat \<Rightarrow> nat" where
  "strnlen_s [] maxsize = 0"
| "strnlen_s (c # str) maxsize = (if c \<noteq> 0 \<and> maxsize \<noteq> 0 then Suc (strnlen_s str (maxsize - 1)) else 0)"

definition is_digit :: "u8 \<Rightarrow> bool" where
  "is_digit ch \<longleftrightarrow> 0x30 \<le> ch \<and> ch \<le> 0x39"

fun atoi :: "u32 \<Rightarrow> bytes \<Rightarrow> u32 \<times> bytes" where
  "atoi i [] = (i, [])"
| "atoi i (c # str) = (if is_digit c then atoi (i * 10 + ucast (c - 0x30)) str else (i, c # str))"

definition FLAGS_ZEROPAD :: u32 where "FLAGS_ZEROPAD = 0x001"
definition FLAGS_LEFT :: u32 where "FLAGS_LEFT = 0x002"
definition FLAGS_PLUS :: u32 where "FLAGS_PLUS = 0x004"
definition FLAGS_SPACE :: u32 where "FLAGS_SPACE = 0x008"
definition FLAGS_HASH :: u32 where "FLAGS_HASH = 0x010"
definition FLAGS_UPPERCASE :: u32 where "FLAGS_UPPERCASE = 0x020"
definition FLAGS_CHAR :: u32 where "FLAGS_CHAR = 0x040"
definition FLAGS_SHORT :: u32 where "FLAGS_SHORT = 0x080"
definition FLAGS_LONG :: u32 where "FLAGS_LONG = 0x100"
definition FLAGS_LONG_LONG :: u32 where "FLAGS_LONG_LONG = 0x200"
definition FLAGS_PRECISION :: u32 where "FLAGS_PRECISION = 0x400"
definition PRINTF_NTOA_BUFFER_SIZE :: nat where "PRINTF_NTOA_BUFFER_SIZE = 32"

lemmas flag_values = FLAGS_ZEROPAD_def FLAGS_LEFT_def FLAGS_PLUS_def FLAGS_SPACE_def FLAGS_HASH_def FLAGS_UPPERCASE_def
  FLAGS_CHAR_def FLAGS_SHORT_def FLAGS_LONG_def FLAGS_LONG_LONG_def FLAGS_PRECISION_def

abbreviation has :: "u32 \<Rightarrow> u32 \<Rightarrow> bool" where
  "has flags f \<equiv> flags AND f \<noteq> 0"

section \<open>Integers\<close>

function pad_for :: "'w put \<Rightarrow> nat \<Rightarrow> nat \<Rightarrow> u64 \<times> 'w \<Rightarrow> (u64 \<times> 'w) option" where
  "pad_for put i width st = (if i < width then do { st \<leftarrow> emit put 0x20 st; pad_for put (Suc i) width st } else Some st)"
  by pat_completeness auto
termination by (relation "measure (\<lambda>(_, i, width, _). width - i)") auto

primrec out_reversed :: "'w put \<Rightarrow> bytes \<Rightarrow> nat \<Rightarrow> u64 \<times> 'w \<Rightarrow> (u64 \<times> 'w) option" where
  "out_reversed put buf 0 st = Some st"
| "out_reversed put buf (Suc len) st = do { st \<leftarrow> emit put (buf ! len) st; out_reversed put buf len st }"

lemma unat_step: "unat (x :: u64) < unat (n :: u32) \<Longrightarrow> unat (x + 1) = Suc (unat x)"
proof -
  assume "unat x < unat n"
  moreover have "unat n < 2 ^ 32" using unsigned_less [of n] by simp
  ultimately have "unat x + 1 < 2 ^ 64" by simp
  then show ?thesis using unat_add_of_nat [of x 1] by simp
qed

function pad_until :: "'w put \<Rightarrow> u64 \<Rightarrow> u32 \<Rightarrow> u64 \<Rightarrow> 'w \<Rightarrow> (u64 \<times> 'w) option" where
  "pad_until put start_idx width idx w =
     (if unat (idx - start_idx) < unat width then do { w \<leftarrow> put 0x20 idx w; pad_until put start_idx width (idx + 1) w }
      else Some (idx, w))"
  by pat_completeness auto
termination
proof (relation "measure (\<lambda>(_, start_idx, width, idx, _). unat width - unat (idx - start_idx))", goal_cases)
  case (2 put start_idx width idx w x)
  then have "unat (idx + 1 - start_idx) = Suc (unat (idx - start_idx))"
    using unat_step [of "idx - start_idx" width] by (simp add: algebra_simps)
  then show ?case using 2 by simp
qed simp

definition out_rev :: "'w put \<Rightarrow> bytes \<Rightarrow> u32 \<Rightarrow> u32 \<Rightarrow> u64 \<times> 'w \<Rightarrow> (u64 \<times> 'w) option" where
  "out_rev put buf width flags st = do {
     let start_idx = fst st;
     st \<leftarrow> (if \<not> has flags FLAGS_LEFT \<and> \<not> has flags FLAGS_ZEROPAD then pad_for put (length buf) (unat width) st else Some st);
     (idx, w) \<leftarrow> out_reversed put buf (length buf) st;
     if has flags FLAGS_LEFT then pad_until put start_idx width idx w else Some (idx, w) }"

text \<open>The array \<open>buf\<close> of 32 bytes is the list of the bytes written so far: \<open>buf[len++] = c\<close> appends, \<open>len--\<close> removes.\<close>

function zero_pad :: "nat \<Rightarrow> bytes \<Rightarrow> bytes" where
  "zero_pad n buf = (if length buf < n \<and> length buf < PRINTF_NTOA_BUFFER_SIZE then zero_pad n (buf @ [0x30]) else buf)"
  by pat_completeness auto
termination by (relation "measure (\<lambda>(n, buf). n - length buf)") auto

definition push :: "u8 \<Rightarrow> bytes \<Rightarrow> bytes" where
  "push c buf = (if length buf < PRINTF_NTOA_BUFFER_SIZE then buf @ [c] else buf)"

definition ntoa_hash :: "u64 \<Rightarrow> u32 \<Rightarrow> u32 \<Rightarrow> u32 \<Rightarrow> bytes \<Rightarrow> bytes" where
  "ntoa_hash base prec width flags buf =
     (let buf = (if \<not> has flags FLAGS_PRECISION \<and> buf \<noteq> [] \<and> (length buf = unat prec \<or> length buf = unat width)
                 then (let buf = butlast buf in if buf \<noteq> [] \<and> base = 16 then butlast buf else buf) else buf);
          buf = (if base = 16 \<and> \<not> has flags FLAGS_UPPERCASE \<and> length buf < PRINTF_NTOA_BUFFER_SIZE then buf @ [0x78]
                 else if base = 16 \<and> has flags FLAGS_UPPERCASE \<and> length buf < PRINTF_NTOA_BUFFER_SIZE then buf @ [0x58]
                 else if base = 2 \<and> length buf < PRINTF_NTOA_BUFFER_SIZE then buf @ [0x62] else buf)
      in push 0x30 buf)"

definition ntoa_sign :: "bool \<Rightarrow> u32 \<Rightarrow> bytes \<Rightarrow> bytes" where
  "ntoa_sign negative flags buf =
     (if negative then push 0x2D buf else if has flags FLAGS_PLUS then push 0x2B buf
      else if has flags FLAGS_SPACE then push 0x20 buf else buf)"

definition ntoa_fill :: "bytes \<Rightarrow> bool \<Rightarrow> u64 \<Rightarrow> u32 \<Rightarrow> u32 \<Rightarrow> u32 \<Rightarrow> bytes \<times> u32" where
  "ntoa_fill buf negative base prec width flags =
     (let width = (if \<not> has flags FLAGS_LEFT \<and> width \<noteq> 0 \<and> has flags FLAGS_ZEROPAD \<and> (negative \<or> has flags (FLAGS_PLUS OR FLAGS_SPACE))
                   then width - 1 else width);
          buf = (if has flags FLAGS_LEFT then buf
                 else let buf = zero_pad (unat prec) buf
                   in if has flags FLAGS_ZEROPAD then zero_pad (unat width) buf else buf);
          buf = (if has flags FLAGS_HASH then ntoa_hash base prec width flags buf else buf)
      in (ntoa_sign negative flags buf, width))"

definition ntoa_format :: "'w put \<Rightarrow> bytes \<Rightarrow> bool \<Rightarrow> u64 \<Rightarrow> u32 \<Rightarrow> u32 \<Rightarrow> u32 \<Rightarrow> u64 \<times> 'w \<Rightarrow> (u64 \<times> 'w) option" where
  "ntoa_format put buf negative base prec width flags st =
     (let (buf, width) = ntoa_fill buf negative base prec width flags
      in out_rev put buf width flags st)"

definition digit_char :: "u32 \<Rightarrow> u8 \<Rightarrow> u8" where
  "digit_char flags digit = (if digit < 10 then 0x30 + digit else (if has flags FLAGS_UPPERCASE then 0x41 else 0x61) + digit - 10)"

function ntoa_digits :: "u64 \<Rightarrow> u32 \<Rightarrow> u64 \<Rightarrow> bytes \<Rightarrow> bytes" where
  "ntoa_digits base flags val buf =
     (let buf = buf @ [digit_char flags (ucast (val mod base))];
          val = val div base
      in if val \<noteq> 0 \<and> length buf < PRINTF_NTOA_BUFFER_SIZE then ntoa_digits base flags val buf else buf)"
  by pat_completeness auto
termination by (relation "measure (\<lambda>(base, flags, val, buf). PRINTF_NTOA_BUFFER_SIZE - length buf)") auto

definition ntoa_long :: "'w put \<Rightarrow> u64 \<Rightarrow> bool \<Rightarrow> u64 \<Rightarrow> u32 \<Rightarrow> u32 \<Rightarrow> u32 \<Rightarrow> u64 \<times> 'w \<Rightarrow> (u64 \<times> 'w) option" where
  "ntoa_long put val negative base prec width flags st =
     (let flags = (if val = 0 then flags AND NOT FLAGS_HASH else flags);
          buf = (if \<not> has flags FLAGS_PRECISION \<or> val \<noteq> 0 then ntoa_digits base flags val [] else [])
      in ntoa_format put buf negative base prec width flags st)"

definition ntoa_long_long :: "'w put \<Rightarrow> u64 \<Rightarrow> bool \<Rightarrow> u64 \<Rightarrow> u32 \<Rightarrow> u32 \<Rightarrow> u32 \<Rightarrow> u64 \<times> 'w \<Rightarrow> (u64 \<times> 'w) option" where
  "ntoa_long_long put val negative base prec width flags st =
     (let flags = (if val = 0 then flags AND NOT FLAGS_HASH else flags);
          buf = (if \<not> has flags FLAGS_PRECISION \<or> val \<noteq> 0 then ntoa_digits base flags val [] else [])
      in ntoa_format put buf negative base prec width flags st)"

section \<open>Directives\<close>

datatype vararg = Arg_word u64 | Arg_str bytes

fun va_word :: "vararg list \<Rightarrow> (u64 \<times> vararg list) option" where
  "va_word (Arg_word w # va) = Some (w, va)"
| "va_word _ = None"

fun va_str :: "vararg list \<Rightarrow> (bytes \<times> vararg list) option" where
  "va_str (Arg_str s # va) = Some (s, va)"
| "va_str _ = None"

definition cur :: "bytes \<Rightarrow> u8" where
  "cur fmt = (case fmt of [] \<Rightarrow> 0 | c # _ \<Rightarrow> c)"

fun parse_flags :: "u32 \<Rightarrow> bytes \<Rightarrow> u32 \<times> bytes" where
  "parse_flags flags [] = (flags, [])"
| "parse_flags flags (c # fmt) =
     (if c = 0x30 then parse_flags (flags OR FLAGS_ZEROPAD) fmt
      else if c = 0x2D then parse_flags (flags OR FLAGS_LEFT) fmt
      else if c = 0x2B then parse_flags (flags OR FLAGS_PLUS) fmt
      else if c = 0x20 then parse_flags (flags OR FLAGS_SPACE) fmt
      else if c = 0x23 then parse_flags (flags OR FLAGS_HASH) fmt
      else (flags, c # fmt))"

definition parse_width :: "u32 \<Rightarrow> bytes \<Rightarrow> vararg list \<Rightarrow> (u32 \<times> u32 \<times> bytes \<times> vararg list) option" where
  "parse_width flags fmt va =
     (if is_digit (cur fmt) then let (width, fmt) = atoi 0 fmt in Some (width, flags, fmt, va)
      else if cur fmt = 0x2A then do {
        (x, va) \<leftarrow> va_word va;
        let w = (ucast x :: u32);
        if sint w < 0 then Some (- w, flags OR FLAGS_LEFT, tl fmt, va) else Some (w, flags, tl fmt, va) }
      else Some (0, flags, fmt, va))"

definition parse_precision :: "u32 \<Rightarrow> bytes \<Rightarrow> vararg list \<Rightarrow> (u32 \<times> u32 \<times> bytes \<times> vararg list) option" where
  "parse_precision flags fmt va =
     (if cur fmt = 0x2E then
        (let flags = flags OR FLAGS_PRECISION; fmt = tl fmt
         in if is_digit (cur fmt) then let (precision, fmt) = atoi 0 fmt in Some (precision, flags, fmt, va)
            else if cur fmt = 0x2A then do {
              (x, va) \<leftarrow> va_word va;
              let prec = (ucast x :: u32);
              Some (if 0 < sint prec then prec else 0, flags, tl fmt, va) }
            else Some (0, flags, fmt, va))
      else Some (0, flags, fmt, va))"

definition parse_length :: "u32 \<Rightarrow> bytes \<Rightarrow> u32 \<times> bytes" where
  "parse_length flags fmt =
     (if cur fmt = 0x6C then
        (if cur (tl fmt) = 0x6C then (flags OR FLAGS_LONG OR FLAGS_LONG_LONG, tl (tl fmt)) else (flags OR FLAGS_LONG, tl fmt))
      else if cur fmt = 0x68 then
        (if cur (tl fmt) = 0x68 then (flags OR FLAGS_SHORT OR FLAGS_CHAR, tl (tl fmt)) else (flags OR FLAGS_SHORT, tl fmt))
      else if cur fmt = 0x74 \<or> cur fmt = 0x6A \<or> cur fmt = 0x7A then (flags OR FLAGS_LONG, tl fmt)
      else (flags, fmt))"

text \<open>
  The conversions \<open>d i u x X o b\<close>. Negating the smallest value wraps to its magnitude, as the compiled code does.
\<close>

definition int_base :: "u8 \<Rightarrow> u64" where
  "int_base c = (if c = 0x78 \<or> c = 0x58 then 16 else if c = 0x6F then 8 else if c = 0x62 then 2 else 10)"

definition int_flags :: "u8 \<Rightarrow> u32 \<Rightarrow> u32" where
  "int_flags c flags =
     (let flags = (if int_base c = 10 then flags AND NOT FLAGS_HASH else flags);
          flags = (if c = 0x58 then flags OR FLAGS_UPPERCASE else flags);
          flags = (if c \<noteq> 0x69 \<and> c \<noteq> 0x64 then flags AND NOT (FLAGS_PLUS OR FLAGS_SPACE) else flags)
      in if has flags FLAGS_PRECISION then flags AND NOT FLAGS_ZEROPAD else flags)"

definition conv_int :: "'w put \<Rightarrow> u8 \<Rightarrow> u32 \<Rightarrow> u32 \<Rightarrow> u32 \<Rightarrow> vararg list \<Rightarrow> u64 \<times> 'w \<Rightarrow> (vararg list \<times> u64 \<times> 'w) option" where
  "conv_int put c flags width precision va st = do {
     let base = int_base c;
     let flags = int_flags c flags;
     (x, va) \<leftarrow> va_word va;
     st \<leftarrow> (if c = 0x69 \<or> c = 0x64 then
             (if has flags FLAGS_LONG_LONG then
                ntoa_long_long put (if 0 < sint x then x else - x) (sint x < 0) base precision width flags st
              else if has flags FLAGS_LONG then
                ntoa_long put (if 0 < sint x then x else - x) (sint x < 0) base precision width flags st
              else let v = (if has flags FLAGS_CHAR then scast (ucast x :: u8)
                            else if has flags FLAGS_SHORT then scast (ucast x :: u16) else (ucast x :: u32))
                in ntoa_long put (ucast (if 0 < sint v then v else - v)) (sint v < 0) base precision width flags st)
           else
             (if has flags FLAGS_LONG_LONG then ntoa_long_long put x False base precision width flags st
              else if has flags FLAGS_LONG then ntoa_long put x False base precision width flags st
              else let v = (if has flags FLAGS_CHAR then ucast (ucast x :: u8)
                            else if has flags FLAGS_SHORT then ucast (ucast x :: u16) else (ucast x :: u32))
                in ntoa_long put (ucast v) False base precision width flags st));
     Some (va, st) }"

definition conv_char :: "'w put \<Rightarrow> u32 \<Rightarrow> u32 \<Rightarrow> vararg list \<Rightarrow> u64 \<times> 'w \<Rightarrow> (vararg list \<times> u64 \<times> 'w) option" where
  "conv_char put flags width va st = do {
     st \<leftarrow> (if has flags FLAGS_LEFT then Some st else pad_for put 1 (unat width) st);
     (x, va) \<leftarrow> va_word va;
     st \<leftarrow> emit put (ucast x) st;
     st \<leftarrow> (if has flags FLAGS_LEFT then pad_for put 1 (unat width) st else Some st);
     Some (va, st) }"

primrec out_str :: "'w put \<Rightarrow> bool \<Rightarrow> nat \<Rightarrow> bytes \<Rightarrow> u64 \<times> 'w \<Rightarrow> (u64 \<times> 'w) option" where
  "out_str put limited precision [] st = Some st"
| "out_str put limited precision (c # p) st =
     (if c \<noteq> 0 \<and> (\<not> limited \<or> precision \<noteq> 0) then do { st \<leftarrow> emit put c st; out_str put limited (precision - 1) p st } else Some st)"

definition conv_str :: "'w put \<Rightarrow> u32 \<Rightarrow> u32 \<Rightarrow> u32 \<Rightarrow> vararg list \<Rightarrow> u64 \<times> 'w \<Rightarrow> (vararg list \<times> u64 \<times> 'w) option" where
  "conv_str put flags width precision va st = do {
     (p, va) \<leftarrow> va_str va;
     let l = wrap32 (strnlen_s p (if precision \<noteq> 0 then unat precision else 2 ^ 64 - 1));
     let l = (if has flags FLAGS_PRECISION then min l (unat precision) else l);
     st \<leftarrow> (if has flags FLAGS_LEFT then Some st else pad_for put l (unat width) st);
     st \<leftarrow> out_str put (has flags FLAGS_PRECISION) (unat precision) p st;
     st \<leftarrow> (if has flags FLAGS_LEFT then pad_for put l (unat width) st else Some st);
     Some (va, st) }"

definition conv_ptr :: "'w put \<Rightarrow> u32 \<Rightarrow> u32 \<Rightarrow> vararg list \<Rightarrow> u64 \<times> 'w \<Rightarrow> (vararg list \<times> u64 \<times> 'w) option" where
  "conv_ptr put flags precision va st = do {
     (x, va) \<leftarrow> va_word va;
     st \<leftarrow> ntoa_long_long put x False 16 precision 16 (flags OR FLAGS_ZEROPAD OR FLAGS_UPPERCASE) st;
     Some (va, st) }"

definition convert :: "'w put \<Rightarrow> u8 \<Rightarrow> u32 \<Rightarrow> u32 \<Rightarrow> u32 \<Rightarrow> vararg list \<Rightarrow> u64 \<times> 'w \<Rightarrow> (vararg list \<times> u64 \<times> 'w) option" where
  "convert put c flags width precision va st =
     (if c \<in> set [0x64, 0x69, 0x75, 0x78, 0x58, 0x6F, 0x62] then conv_int put c flags width precision va st
      else if c = 0x63 then conv_char put flags width va st
      else if c = 0x73 then conv_str put flags width precision va st
      else if c = 0x70 then conv_ptr put flags precision va st
      else do { st \<leftarrow> emit put c st; Some (va, st) })"

text \<open>A directive, from the byte after the percent sign on: what is parsed, then the conversion.\<close>

definition parse_directive :: "bytes \<Rightarrow> vararg list \<Rightarrow> (u8 \<times> u32 \<times> u32 \<times> u32 \<times> bytes \<times> vararg list) option" where
  "parse_directive fmt va = do {
     let (flags, fmt) = parse_flags 0 fmt;
     (width, flags, fmt, va) \<leftarrow> parse_width flags fmt va;
     (precision, flags, fmt, va) \<leftarrow> parse_precision flags fmt va;
     let (flags, fmt) = parse_length flags fmt;
     if cur fmt = 0 then None else Some (cur fmt, flags, width, precision, tl fmt, va) }"

definition directive :: "'w put \<Rightarrow> bytes \<Rightarrow> vararg list \<Rightarrow> u64 \<times> 'w \<Rightarrow> (bytes \<times> vararg list \<times> u64 \<times> 'w) option" where
  "directive put fmt va st = do {
     (c, flags, width, precision, fmt, va) \<leftarrow> parse_directive fmt va;
     (va, st) \<leftarrow> convert put c flags width precision va st;
     Some (fmt, va, st) }"

lemma parse_flags_shorter: "length (snd (parse_flags flags fmt)) \<le> length fmt"
  by (induction flags fmt rule: parse_flags.induct) auto

lemma atoi_shorter: "length (snd (atoi i fmt)) \<le> length fmt"
  by (induction i fmt rule: atoi.induct) auto

lemma parse_width_shorter: "parse_width flags fmt va = Some (w, fl, fmt', va') \<Longrightarrow> length fmt' \<le> length fmt"
  using atoi_shorter [of 0 fmt] by (auto simp: parse_width_def Let_def split: if_splits prod.splits Option.bind_splits)

lemma parse_precision_shorter: "parse_precision flags fmt va = Some (w, fl, fmt', va') \<Longrightarrow> length fmt' \<le> length fmt"
  using atoi_shorter [of 0 "tl fmt"] by (auto simp: parse_precision_def Let_def split: if_splits prod.splits Option.bind_splits)

lemma parse_length_shorter: "length (snd (parse_length flags fmt)) \<le> length fmt"
  by (auto simp: parse_length_def)

lemma parse_directive_shorter:
  assumes "parse_directive fmt va = Some (c, flags, width, precision, fmt', va')"
  shows "length fmt' < length fmt"
proof -
  obtain fl1 f1 where 1: "parse_flags 0 fmt = (fl1, f1)" by fastforce
  from assms 1 obtain w fl2 f2 va2 where 2: "parse_width fl1 f1 va = Some (w, fl2, f2, va2)"
    by (auto simp: parse_directive_def split: Option.bind_splits)
  from assms 1 2 obtain p fl3 f3 va3 where 3: "parse_precision fl2 f2 va2 = Some (p, fl3, f3, va3)"
    by (auto simp: parse_directive_def split: Option.bind_splits)
  obtain fl4 f4 where 4: "parse_length fl3 f3 = (fl4, f4)" by fastforce
  from assms 1 2 3 4 have "cur f4 \<noteq> 0" "fmt' = tl f4" by (auto simp: parse_directive_def split: Option.bind_splits if_splits)
  then have "length fmt' < length f4" by (cases f4) (simp_all add: cur_def)
  then show ?thesis
    using parse_flags_shorter [of 0 fmt] parse_width_shorter [OF 2] parse_precision_shorter [OF 3] parse_length_shorter [of fl3 f3] 1 4 by simp
qed

lemma directive_shorter:
  "directive put fmt va st = Some (fmt', va', st') \<Longrightarrow> length fmt' < length fmt"
  by (auto simp: directive_def dest: parse_directive_shorter split: Option.bind_splits)

function vs_loop :: "'w put \<Rightarrow> bytes \<Rightarrow> vararg list \<Rightarrow> u64 \<times> 'w \<Rightarrow> (u64 \<times> 'w) option" where
  "vs_loop put fmt va st =
     (if cur fmt = 0 then Some st
      else if cur fmt \<noteq> 0x25 then do { st \<leftarrow> emit put (cur fmt) st; vs_loop put (tl fmt) va st }
      else do { (fmt, va, st) \<leftarrow> directive put (tl fmt) va st; vs_loop put fmt va st })"
  by pat_completeness auto
termination
proof (relation "measure (\<lambda>(_, fmt, _, _). length fmt)", goal_cases)
  case (2 put fmt va st x)
  then show ?case by (cases fmt) (simp_all add: cur_def)
next
  case (3 put fmt va st d f y va' st')
  then show ?case using directive_shorter [of put "tl fmt" va st] by fastforce
qed simp

definition vsnprintf_out :: "'w out_fct_type \<Rightarrow> u64 \<Rightarrow> u64 \<Rightarrow> bytes \<Rightarrow> vararg list \<Rightarrow> 'w \<Rightarrow> (int \<times> 'w) option" where
  "vsnprintf_out out buffer maxlen fmt va w = do {
     let out = (if buffer = 0 then out_null else out);
     (idx, w) \<leftarrow> vs_loop (\<lambda>c idx. out c buffer idx maxlen) fmt va (0, w);
     w \<leftarrow> out 0 buffer (if idx < maxlen then idx else maxlen - 1) maxlen w;
     Some (sint (ucast idx :: u32), w) }"

text \<open>The local array of \<open>printf\<close> only has to be a pointer that is not null.\<close>

definition printf :: "bytes \<Rightarrow> vararg list \<Rightarrow> com1 \<Rightarrow> (int \<times> com1) option" where
  "printf fmt va d = vsnprintf_out out_char 1 (- 1) fmt va d"

definition vprintf :: "bytes \<Rightarrow> vararg list \<Rightarrow> com1 \<Rightarrow> (int \<times> com1) option" where
  "vprintf fmt va d = vsnprintf_out out_char 1 (- 1) fmt va d"

definition sprintf :: "u64 \<Rightarrow> bytes \<Rightarrow> vararg list \<Rightarrow> mem \<Rightarrow> (int \<times> mem) option" where
  "sprintf buffer fmt va m = vsnprintf_out out_buffer buffer (- 1) fmt va m"

definition snprintf :: "u64 \<Rightarrow> u64 \<Rightarrow> bytes \<Rightarrow> vararg list \<Rightarrow> mem \<Rightarrow> (int \<times> mem) option" where
  "snprintf buffer count fmt va m = vsnprintf_out out_buffer buffer count fmt va m"

definition vsnprintf :: "u64 \<Rightarrow> u64 \<Rightarrow> bytes \<Rightarrow> vararg list \<Rightarrow> mem \<Rightarrow> (int \<times> mem) option" where
  "vsnprintf buffer count fmt va m = vsnprintf_out out_buffer buffer count fmt va m"

definition fctprintf :: "(u8 \<Rightarrow> u64 \<Rightarrow> 'w \<Rightarrow> 'w option) \<Rightarrow> u64 \<Rightarrow> bytes \<Rightarrow> vararg list \<Rightarrow> 'w \<Rightarrow> (int \<times> 'w) option" where
  "fctprintf fct arg fmt va w = vsnprintf_out (out_fct fct arg) 1 (- 1) fmt va w"

declare pad_for.simps [simp del] pad_until.simps [simp del] zero_pad.simps [simp del] ntoa_digits.simps [simp del] vs_loop.simps [simp del]

section \<open>The text of a format\<close>

text \<open>What is printed, without reference to an output function.\<close>

primrec emits :: "'w put \<Rightarrow> bytes \<Rightarrow> u64 \<times> 'w \<Rightarrow> (u64 \<times> 'w) option" where
  "emits put [] st = Some st"
| "emits put (c # cs) st = do { st \<leftarrow> emit put c st; emits put cs st }"

definition rev_text :: "bytes \<Rightarrow> u32 \<Rightarrow> u32 \<Rightarrow> bytes" where
  "rev_text buf width flags =
     (let pad = replicate (unat width - length buf) 0x20
      in if has flags FLAGS_LEFT then rev buf @ pad else if has flags FLAGS_ZEROPAD then rev buf else pad @ rev buf)"

definition ntoa_text :: "u64 \<Rightarrow> bool \<Rightarrow> u64 \<Rightarrow> u32 \<Rightarrow> u32 \<Rightarrow> u32 \<Rightarrow> bytes" where
  "ntoa_text val negative base prec width flags =
     (let flags = (if val = 0 then flags AND NOT FLAGS_HASH else flags);
          buf = (if \<not> has flags FLAGS_PRECISION \<or> val \<noteq> 0 then ntoa_digits base flags val [] else []);
          (buf, width) = ntoa_fill buf negative base prec width flags
      in rev_text buf width flags)"

text \<open>The argument of an integer conversion as a number, by its length flags.\<close>

definition signed_arg :: "u32 \<Rightarrow> u64 \<Rightarrow> int" where
  "signed_arg flags x =
     (if has flags FLAGS_LONG_LONG \<or> has flags FLAGS_LONG then sint x
      else if has flags FLAGS_CHAR then sint (ucast x :: u8)
      else if has flags FLAGS_SHORT then sint (ucast x :: u16) else sint (ucast x :: u32))"

definition unsigned_arg :: "u32 \<Rightarrow> u64 \<Rightarrow> int" where
  "unsigned_arg flags x =
     (if has flags FLAGS_LONG_LONG \<or> has flags FLAGS_LONG then uint x
      else if has flags FLAGS_CHAR then uint (ucast x :: u8)
      else if has flags FLAGS_SHORT then uint (ucast x :: u16) else uint (ucast x :: u32))"

definition int_arg :: "u8 \<Rightarrow> u32 \<Rightarrow> u64 \<Rightarrow> int" where
  "int_arg c flags x = (if c = 0x69 \<or> c = 0x64 then signed_arg flags x else unsigned_arg flags x)"

definition int_text :: "u8 \<Rightarrow> u32 \<Rightarrow> u32 \<Rightarrow> u32 \<Rightarrow> u64 \<Rightarrow> bytes" where
  "int_text c flags width precision x =
     (let v = int_arg c flags x in ntoa_text (of_int \<bar>v\<bar>) (v < 0) (int_base c) precision width (int_flags c flags))"

definition str_text :: "u32 \<Rightarrow> u32 \<Rightarrow> u32 \<Rightarrow> bytes \<Rightarrow> bytes" where
  "str_text flags width precision p =
     (let p = takeWhile (\<lambda>c. c \<noteq> 0) p;
          l = wrap32 (if precision \<noteq> 0 then min (length p) (unat precision) else min (length p) (2 ^ 64 - 1));
          l = (if has flags FLAGS_PRECISION then min l (unat precision) else l);
          t = (if has flags FLAGS_PRECISION then take (unat precision) p else p);
          pad = replicate (unat width - l) 0x20
      in if has flags FLAGS_LEFT then t @ pad else pad @ t)"

definition convert_text :: "u8 \<Rightarrow> u32 \<Rightarrow> u32 \<Rightarrow> u32 \<Rightarrow> vararg list \<Rightarrow> (vararg list \<times> bytes) option" where
  "convert_text c flags width precision va =
     (if c \<in> set [0x64, 0x69, 0x75, 0x78, 0x58, 0x6F, 0x62] then
        map_option (\<lambda>(x, va). (va, int_text c flags width precision x)) (va_word va)
      else if c = 0x63 then
        map_option (\<lambda>(x, va). (va, let pad = replicate (unat width - 1) 0x20
          in if has flags FLAGS_LEFT then ucast x # pad else pad @ [ucast x])) (va_word va)
      else if c = 0x73 then map_option (\<lambda>(p, va). (va, str_text flags width precision p)) (va_str va)
      else if c = 0x70 then
        map_option (\<lambda>(x, va). (va, ntoa_text x False 16 precision 16 (flags OR FLAGS_ZEROPAD OR FLAGS_UPPERCASE))) (va_word va)
      else Some (va, [c]))"

function format_text :: "bytes \<Rightarrow> vararg list \<Rightarrow> bytes option" where
  "format_text fmt va =
     (if cur fmt = 0 then Some []
      else if cur fmt \<noteq> 0x25 then map_option (\<lambda>t. cur fmt # t) (format_text (tl fmt) va)
      else do {
        (c, flags, width, precision, fmt, va) \<leftarrow> parse_directive (tl fmt) va;
        (va, t) \<leftarrow> convert_text c flags width precision va;
        map_option (\<lambda>t'. t @ t') (format_text fmt va) })"
  by pat_completeness auto
termination
proof (relation "measure (\<lambda>(fmt, _). length fmt)", goal_cases)
  case (2 fmt va)
  then show ?case by (cases fmt) (simp_all add: cur_def)
next
  case 3
  then show ?case by (auto dest!: parse_directive_shorter)
qed simp

declare format_text.simps [simp del]

lemma emits_append: "emits put (a @ b) st = emits put a st \<bind> emits put b"
  by (induction a arbitrary: st) (simp_all add: Option.bind_assoc)

lemma emits_single: "emits put [c] st = emit put c st"
  by simp

lemma emits_idx: "emits put cs (idx, w) = Some (idx', w') \<Longrightarrow> idx' = idx + of_nat (length cs)"
proof (induction cs arbitrary: idx w)
  case (Cons c cs)
  then obtain w1 where "put c idx w = Some w1" "emits put cs (idx + 1, w1) = Some (idx', w')"
    by (auto split: Option.bind_splits)
  from Cons.IH [OF this(2)] show ?case by simp
qed simp

lemma pad_for_emits: "pad_for put i width st = emits put (replicate (width - i) 0x20) st"
proof (induction put i width st rule: pad_for.induct)
  case (1 put i width st)
  show ?case
  proof (cases "i < width")
    case True
    then have "width - i = Suc (width - Suc i)" by simp
    moreover have "pad_for put i width st = do { st \<leftarrow> emit put 0x20 st; emits put (replicate (width - Suc i) 0x20) st }"
      using True 1 by (subst pad_for.simps) (auto intro!: Option.bind_cong)
    ultimately show ?thesis by simp
  qed (simp add: pad_for.simps)
qed

lemma out_reversed_emits: "n \<le> length buf \<Longrightarrow> out_reversed put buf n st = emits put (rev (take n buf)) st"
  by (induction n arbitrary: st) (simp_all add: take_Suc_conv_app_nth)

lemma pad_until_emits:
  "pad_until put start_idx width idx w = emits put (replicate (unat width - unat (idx - start_idx)) 0x20) (idx, w)"
proof (induction put start_idx width idx w rule: pad_until.induct)
  case (1 put start_idx width idx w)
  show ?case
  proof (cases "unat (idx - start_idx) < unat width")
    case True
    have "unat (idx + 1 - start_idx) = Suc (unat (idx - start_idx))"
      using unat_step [OF True] by (simp add: algebra_simps)
    moreover have "unat width - unat (idx - start_idx) = Suc (unat width - Suc (unat (idx - start_idx)))" using True by simp
    ultimately show ?thesis using True 1
      by (subst pad_until.simps) (auto simp: Option.bind_assoc intro!: Option.bind_cong)
  qed (simp add: pad_until.simps)
qed

lemma out_rev_emits:
  assumes "length buf < 2 ^ 64"
  shows "out_rev put buf width flags st = emits put (rev_text buf width flags) st"
proof (cases "has flags FLAGS_LEFT")
  case True
  obtain i w where st: "st = (i, w)" by fastforce
  have "pad_until put i width idx w' = emits put (replicate (unat width - length buf) 0x20) (idx, w')"
    if "emits put (rev buf) (i, w) = Some (idx, w')" for idx w'
    using emits_idx [OF that] assms unat_of_nat_small [of "length buf"] by (simp add: pad_until_emits)
  then show ?thesis using True unfolding st
    by (auto simp: out_rev_def rev_text_def Let_def out_reversed_emits emits_append intro!: Option.bind_cong)
next
  case False
  then show ?thesis
    by (auto simp: out_rev_def rev_text_def Let_def out_reversed_emits pad_for_emits emits_append intro!: Option.bind_cong split: prod.splits)
qed

lemma zero_pad_eq: "zero_pad n buf = buf @ replicate (min n 32 - length buf) 0x30"
proof (induction n buf rule: zero_pad.induct)
  case (1 n buf)
  show ?case
  proof (cases "length buf < n \<and> length buf < 32")
    case True
    then have "min n 32 - length buf = Suc (min n 32 - Suc (length buf))" by linarith
    then show ?thesis using True 1 by (subst zero_pad.simps) (simp add: PRINTF_NTOA_BUFFER_SIZE_def)
  next
    case False
    then have "min n 32 - length buf = 0" by auto
    then show ?thesis using False by (subst zero_pad.simps) (auto simp: PRINTF_NTOA_BUFFER_SIZE_def)
  qed
qed

lemma push_length: "length buf \<le> 32 \<Longrightarrow> length (push c buf) \<le> 32"
  by (simp add: push_def PRINTF_NTOA_BUFFER_SIZE_def)

lemma ntoa_hash_length: "length buf \<le> 32 \<Longrightarrow> length (ntoa_hash base prec width flags buf) \<le> 32"
  unfolding ntoa_hash_def Let_def by (rule push_length) (auto simp: PRINTF_NTOA_BUFFER_SIZE_def)

lemma ntoa_sign_length: "length buf \<le> 32 \<Longrightarrow> length (ntoa_sign negative flags buf) \<le> 32"
  by (simp add: ntoa_sign_def push_length)

lemma zero_pad_length: "length buf \<le> 32 \<Longrightarrow> length (zero_pad n buf) \<le> 32"
  by (simp add: zero_pad_eq)

lemma ntoa_fill_length: "length buf \<le> 32 \<Longrightarrow> length (fst (ntoa_fill buf negative base prec width flags)) \<le> 32"
  unfolding ntoa_fill_def Let_def fst_conv
  by (intro ntoa_sign_length) (auto intro!: ntoa_hash_length zero_pad_length)

lemma ntoa_digits_length: "length buf < 32 \<Longrightarrow> length (ntoa_digits base flags val buf) \<le> 32"
proof (induction base flags val buf rule: ntoa_digits.induct)
  case (1 base flags val buf)
  then show ?case by (subst ntoa_digits.simps) (auto simp: Let_def PRINTF_NTOA_BUFFER_SIZE_def)
qed

lemma ntoa_long_emits:
  "ntoa_long put val negative base prec width flags st = emits put (ntoa_text val negative base prec width flags) st"
proof -
  let ?fl = "if val = 0 then flags AND NOT FLAGS_HASH else flags"
  let ?buf = "if \<not> has ?fl FLAGS_PRECISION \<or> val \<noteq> 0 then ntoa_digits base ?fl val [] else []"
  obtain buf w where f: "ntoa_fill ?buf negative base prec width ?fl = (buf, w)" by fastforce
  have "length ?buf \<le> 32" using ntoa_digits_length [of "[]"] by simp
  then have "length buf < 2 ^ 64" using ntoa_fill_length [of ?buf negative base prec width ?fl] f by simp
  then show ?thesis
    using f by (simp add: ntoa_long_def ntoa_text_def ntoa_format_def Let_def out_rev_emits)
qed

lemma ntoa_long_long_emits:
  "ntoa_long_long put val negative base prec width flags st = emits put (ntoa_text val negative base prec width flags) st"
  unfolding ntoa_long_emits [symmetric] by (simp add: ntoa_long_long_def ntoa_long_def)

text \<open>The flags as bits.\<close>

lemma has_bits:
  "has flags FLAGS_ZEROPAD = bit flags 0" "has flags FLAGS_LEFT = bit flags 1" "has flags FLAGS_PLUS = bit flags 2"
  "has flags FLAGS_SPACE = bit flags 3" "has flags FLAGS_HASH = bit flags 4" "has flags FLAGS_UPPERCASE = bit flags 5"
  "has flags FLAGS_CHAR = bit flags 6" "has flags FLAGS_SHORT = bit flags 7" "has flags FLAGS_LONG = bit flags 8"
  "has flags FLAGS_LONG_LONG = bit flags 9" "has flags FLAGS_PRECISION = bit flags 10"
  using and_2_pow_eq_0 [of 0 flags] and_2_pow_eq_0 [of 1 flags] and_2_pow_eq_0 [of 2 flags] and_2_pow_eq_0 [of 3 flags] and_2_pow_eq_0 [of 4 flags]
    and_2_pow_eq_0 [of 5 flags] and_2_pow_eq_0 [of 6 flags] and_2_pow_eq_0 [of 7 flags] and_2_pow_eq_0 [of 8 flags] and_2_pow_eq_0 [of 9 flags]
    and_2_pow_eq_0 [of 10 flags]
  by (simp_all add: flag_values)

lemma flag_bits:
  "bit FLAGS_ZEROPAD k = (k = 0)" "bit FLAGS_LEFT k = (k = 1)" "bit FLAGS_PLUS k = (k = 2)" "bit FLAGS_SPACE k = (k = 3)"
  "bit FLAGS_HASH k = (k = 4)" "bit FLAGS_UPPERCASE k = (k = 5)" "bit FLAGS_PRECISION k = (k = 10)"
  using bit_2_pow_word [where 'a = 32, of 0 k] bit_2_pow_word [where 'a = 32, of 1 k] bit_2_pow_word [where 'a = 32, of 2 k]
    bit_2_pow_word [where 'a = 32, of 3 k] bit_2_pow_word [where 'a = 32, of 4 k] bit_2_pow_word [where 'a = 32, of 5 k]
    bit_2_pow_word [where 'a = 32, of 10 k]
  by (simp_all add: flag_values)

lemma int_flags_bits:
  "bit (int_flags c flags) k \<longleftrightarrow> k < 32 \<and>
    (if k = 4 then bit flags 4 \<and> int_base c \<noteq> 10 else if k = 5 then bit flags 5 \<or> c = 0x58
     else if k = 2 \<or> k = 3 then bit flags k \<and> (c = 0x69 \<or> c = 0x64)
     else if k = 0 then bit flags 0 \<and> \<not> bit flags 10 else bit flags k)"
  by (auto simp: int_flags_def Let_def has_bits bit_and_iff bit_or_iff bit_not_iff flag_bits dest: bit_imp_le_length)

lemma magnitude: "(if 0 < sint x then x else - x) = (of_int \<bar>sint x\<bar> :: 'a :: len word)"
proof -
  have x: "of_int (sint x) = x" by simp
  then have "x = 0" if "sint x = 0" using that by (metis of_int_0)
  then show ?thesis by (auto simp: abs_if not_less)
qed

lemma widen_magnitude:
  "(ucast (of_int \<bar>sint (v :: u32)\<bar> :: u32) :: u64) = of_int \<bar>sint v\<bar>"
  "(ucast (of_int \<bar>sint (y :: u8)\<bar> :: u32) :: u64) = of_int \<bar>sint y\<bar>"
  "(ucast (of_int \<bar>sint (z :: u16)\<bar> :: u32) :: u64) = of_int \<bar>sint z\<bar>"
proof -
  have "\<bar>sint v\<bar> < 2 ^ 32" "\<bar>sint y\<bar> < 2 ^ 32" "\<bar>sint z\<bar> < 2 ^ 32"
    using sint_greater_eq [of v] sint_less [of v] sint_greater_eq [of y] sint_less [of y] sint_greater_eq [of z] sint_less [of z] by auto
  then show "(ucast (of_int \<bar>sint v\<bar> :: u32) :: u64) = of_int \<bar>sint v\<bar>"
    "(ucast (of_int \<bar>sint y\<bar> :: u32) :: u64) = of_int \<bar>sint y\<bar>" "(ucast (of_int \<bar>sint z\<bar> :: u32) :: u64) = of_int \<bar>sint z\<bar>"
    by (simp_all add: unsigned_of_int take_bit_int_eq_self)
qed

lemma widen_unsigned:
  "(ucast (ucast (y :: u8) :: u32) :: u64) = ucast y" "(ucast (ucast (z :: u16) :: u32) :: u64) = ucast z"
  by (simp_all add: ucast_up_ucast is_up)

lemma sint_scast_up: "sint (scast (y :: u8) :: u32) = sint y" "sint (scast (z :: u16) :: u32) = sint z"
  using sint_greater_eq [of y] sint_less [of y] sint_greater_eq [of z] sint_less [of z]
  by (simp_all add: signed_scast_eq signed_take_bit_int_eq_self)

lemma uint_ucast_up: "uint (ucast (y :: u8) :: u32) = uint y" "uint (ucast (z :: u16) :: u32) = uint z"
  by (simp_all add: uint_up_ucast is_up)

lemma conv_int_emits:
  "conv_int put c flags width precision va st =
    do { (x, va) \<leftarrow> va_word va; map_option (Pair va) (emits put (int_text c flags width precision x) st) }"
proof -
  have pair: "(r \<bind> (\<lambda>st. Some (va, st))) = map_option (Pair va) r" for r :: "(u64 \<times> 'a) option" and va :: "vararg list"
    by (cases r) simp_all
  show ?thesis
    unfolding conv_int_def Let_def int_text_def int_arg_def signed_arg_def unsigned_arg_def ntoa_long_emits ntoa_long_long_emits
      pair magnitude sint_scast_up
    by (auto simp: has_bits int_flags_bits uint_ucast_up sint_scast_up widen_magnitude widen_unsigned intro!: Option.bind_cong)
qed

lemma strnlen_s_eq: "strnlen_s p n = min (length (takeWhile (\<lambda>c. c \<noteq> 0) p)) n"
  by (induction p arbitrary: n) (auto simp: min_def)

lemma out_str_emits:
  "out_str put limited n p st =
    emits put (let t = takeWhile (\<lambda>c. c \<noteq> 0) p in if limited then take n t else t) st"
  by (induction p arbitrary: n st) (auto simp: Let_def take_Cons' intro!: Option.bind_cong)

lemma bind_pair: "(r \<bind> (\<lambda>st. Some (va, st))) = map_option (Pair va) r"
  by (cases r) simp_all

lemma convert_emits:
  "convert put c flags width precision va st =
    do { (va, t) \<leftarrow> convert_text c flags width precision va; map_option (Pair va) (emits put t st) }"
proof -
  have str: "conv_str put flags width precision va st =
      do { (va, t) \<leftarrow> map_option (\<lambda>(p, va). (va, str_text flags width precision p)) (va_str va); map_option (Pair va) (emits put t st) }"
    by (cases "va_str va")
      (auto simp: conv_str_def str_text_def Let_def pad_for_emits out_str_emits strnlen_s_eq emits_append bind_pair Option.bind_assoc
        simp flip: bind_pair)
  have chr: "conv_char put flags width va st =
      do { (x, va) \<leftarrow> va_word va; map_option (Pair va)
        (emits put (let pad = replicate (unat width - 1) 0x20 in if has flags FLAGS_LEFT then ucast x # pad else pad @ [ucast x]) st) }"
    by (cases "va_word va")
      (auto simp: conv_char_def Let_def pad_for_emits emits_append Option.bind_assoc simp flip: bind_pair split: Option.bind_splits)
  show ?thesis
    unfolding convert_def convert_text_def str chr conv_int_emits
    by (cases "va_word va") (auto simp: conv_ptr_def ntoa_long_long_emits bind_pair)
qed

lemma vs_loop_emits: "vs_loop put fmt va st = do { t \<leftarrow> format_text fmt va; emits put t st }"
proof (induction put fmt va st rule: vs_loop.induct)
  case (1 put fmt va st)
  consider "cur fmt = 0" | "cur fmt \<noteq> 0" "cur fmt \<noteq> 0x25" | "cur fmt = 0x25" by blast
  then show ?case
  proof cases
    case 1
    then show ?thesis by (subst vs_loop.simps, subst format_text.simps) simp
  next
    case 2
    have "vs_loop put fmt va st = emit put (cur fmt) st \<bind> (\<lambda>st. format_text (tl fmt) va \<bind> (\<lambda>t. emits put t st))"
      using 2 1(1) by (subst vs_loop.simps) (auto intro!: Option.bind_cong)
    then show ?thesis using 2
      by (subst format_text.simps) (cases "format_text (tl fmt) va"; simp)
  next
    case 3
    have "vs_loop put fmt va st =
        directive put (tl fmt) va st \<bind> (\<lambda>(fmt, va, st). format_text fmt va \<bind> (\<lambda>t. emits put t st))"
      using 3 1(2) by (subst vs_loop.simps) (auto intro!: Option.bind_cong)
    also have "\<dots> = format_text fmt va \<bind> (\<lambda>t. emits put t st)"
    proof (cases "parse_directive (tl fmt) va")
      case None
      then show ?thesis using 3 by (subst format_text.simps) (simp add: directive_def)
    next
      case (Some d)
      obtain c flags width precision f va' where d: "d = (c, flags, width, precision, f, va')" by (cases d)
      show ?thesis
      proof (cases "convert_text c flags width precision va'")
        case None
        then show ?thesis using 3 Some d by (subst format_text.simps) (simp add: directive_def convert_emits)
      next
        case (Some r)
        obtain va'' t where "r = (va'', t)" by fastforce
        then show ?thesis using 3 \<open>parse_directive (tl fmt) va = Some d\<close> d Some
          by (subst format_text.simps, cases "format_text f va''"; cases "emits put t st")
            (auto simp: directive_def convert_emits emits_append)
      qed
    qed
    finally show ?thesis .
  qed
qed

lemma vsnprintf_out_text:
  "buffer \<noteq> 0 \<Longrightarrow> vsnprintf_out out buffer maxlen fmt va w = do {
     t \<leftarrow> format_text fmt va;
     (idx, w) \<leftarrow> emits (\<lambda>c idx. out c buffer idx maxlen) t (0, w);
     w \<leftarrow> out 0 buffer (if idx < maxlen then idx else maxlen - 1) maxlen w;
     Some (sint (ucast idx :: u32), w) }"
  by (simp add: vsnprintf_out_def vs_loop_emits Option.bind_assoc)

lemma sint_ucast_length: "sint (ucast (of_nat n :: u64) :: u32) = to_int32 n"
proof -
  have "(ucast (of_nat n :: u64) :: u32) = of_nat n" by (simp add: unsigned_of_nat word_of_nat_eq_iff)
  then show ?thesis by (simp add: to_int32_def signed_of_nat)
qed

section \<open>Printing into memory\<close>

lemma out_buffer_emits:
  assumes "unat i + length t \<le> 2 ^ 64"
  shows "\<exists>m'. emits (\<lambda>c idx. out_buffer c buffer idx maxlen) t (i, m) = Some (i + of_nat (length t), m') \<and>
    (\<forall>a. let k = unat (a - buffer) in
      m' a = (if unat i \<le> k \<and> k < unat i + length t \<and> k < unat maxlen then t ! (k - unat i) else m a))"
  using assms
proof (induction t arbitrary: i m)
  case Nil
  then show ?case by (auto simp: Let_def)
next
  case (Cons c t)
  let ?m = "if i < maxlen then m(buffer + i := c) else m"
  have e: "emits (\<lambda>c idx. out_buffer c buffer idx maxlen) (c # t) (i, m) = emits (\<lambda>c idx. out_buffer c buffer idx maxlen) t (i + 1, ?m)"
    by (simp add: out_buffer_def)
  have first: "?m a = (if unat (a - buffer) = unat i \<and> unat i < unat maxlen then c else m a)" for a
    by (auto simp: word_less_nat_alt algebra_simps dest: word_unat_eq_iff [THEN iffD2] split: if_splits)
  show ?case
  proof (cases "t = []")
    case True
    then show ?thesis unfolding e using first by (auto simp: Let_def)
  next
    case False
    then have "Suc (unat i) < 2 ^ 64" using Cons.prems by (cases t) auto
    then have u: "unat (i + 1) = Suc (unat i)" using unat_add_of_nat [of i 1] by simp
    then have "unat (i + 1) + length t \<le> 2 ^ 64" using Cons.prems by simp
    from Cons.IH [OF this, of ?m] obtain m' where m': "emits (\<lambda>c idx. out_buffer c buffer idx maxlen) t (i + 1, ?m) = Some (i + 1 + of_nat (length t), m')"
      "\<forall>a. m' a = (if Suc (unat i) \<le> unat (a - buffer) \<and> unat (a - buffer) < Suc (unat i + length t) \<and> unat (a - buffer) < unat maxlen
          then t ! (unat (a - buffer) - Suc (unat i)) else ?m a)"
      unfolding u Let_def by (auto simp del: fun_upd_apply)
    have "m' a = (if unat i \<le> unat (a - buffer) \<and> unat (a - buffer) < unat i + length (c # t) \<and> unat (a - buffer) < unat maxlen
        then (c # t) ! (unat (a - buffer) - unat i) else m a)" for a
      unfolding m'(2) [rule_format, of a] first by (auto simp: nth_Cons' Suc_diff_Suc)
    then show ?thesis unfolding e using m'(1) by (auto simp: Let_def add.commute)
  qed
qed

lemma out_buffer_text:
  assumes "format_text fmt va = Some t" and "buffer \<noteq> 0" and "count \<noteq> 0" and "length t < 2 ^ 64"
  shows "\<exists>m'. vsnprintf_out out_buffer buffer count fmt va m = Some (to_int32 (length t), m') \<and>
    (\<forall>a. let k = unat (a - buffer); n = min (length t) (unat count - 1)
         in m' a = (if k < n then t ! k else if k = n then 0 else m a))"
proof -
  let ?idx = "of_nat (length t) :: u64"
  let ?last = "if ?idx < count then ?idx else count - 1"
  obtain m1 where m1: "emits (\<lambda>c idx. out_buffer c buffer idx count) t (0, m) = Some (?idx, m1)"
    "\<forall>a. m1 a = (if unat (a - buffer) < length t \<and> unat (a - buffer) < unat count then t ! unat (a - buffer) else m a)"
    using out_buffer_emits [of 0 t buffer count m] assms(4) by (auto simp: Let_def)
  have i: "unat ?idx = length t" by (rule unat_of_nat_small [OF assms(4)])
  have c: "unat (count - 1) = unat count - 1" "0 < unat count" using assms(3) by (simp_all add: unat_minus_one unat_gt_0)
  have e: "unat ?last = min (length t) (unat count - 1)" "?last < count"
    using c by (auto simp: word_less_nat_alt i)
  let ?m = "m1(buffer + ?last := 0)"
  have "?m a = (if unat (a - buffer) < unat ?last then t ! unat (a - buffer) else if unat (a - buffer) = unat ?last then 0 else m a)" for a
  proof (cases "unat (a - buffer) = unat ?last")
    case True
    then have "a = buffer + ?last" by (metis word_unat_eq_iff add.commute diff_add_cancel)
    then show ?thesis using True by simp
  next
    case False
    then have "a \<noteq> buffer + ?last" by auto
    then have "?m a = m1 a" by (simp only: fun_upd_apply if_False)
    then show ?thesis unfolding m1(2) [rule_format] using False e(1) c by auto
  qed
  moreover have "vsnprintf_out out_buffer buffer count fmt va m = Some (to_int32 (length t), ?m)"
    using e(2) unfolding vsnprintf_out_text [OF assms(2)] assms(1) by (simp add: m1(1) out_buffer_def sint_ucast_length)
  ultimately show ?thesis unfolding Let_def e(1) by blast
qed

text \<open>
  C25: \<open>snprintf\<close> is safe and truncates as documented: for every format and arguments that have a text, it stores the first \<open>count - 1\<close> bytes of it (all of it, when it fits) followed by the
  terminator, changes no other byte of memory, in particular none outside the \<open>count\<close> bytes of the buffer, and returns the length of the whole text.
\<close>

theorem snprintf_bounded:
  assumes "format_text fmt va = Some t" and "buffer \<noteq> 0" and "count \<noteq> 0" and "length t < 2 ^ 31"
  shows "\<exists>m'. snprintf buffer count fmt va m = Some (int (length t), m') \<and>
    (let n = min (length t) (unat count - 1)
     in (\<forall>k < n. m' (buffer + of_nat k) = t ! k) \<and> m' (buffer + of_nat n) = 0 \<and>
        (\<forall>a. n < unat (a - buffer) \<longrightarrow> m' a = m a)) \<and>
    (\<forall>a. unat count \<le> unat (a - buffer) \<longrightarrow> m' a = m a)"
proof -
  define n where "n = min (length t) (unat count - 1)"
  obtain m' where m': "snprintf buffer count fmt va m = Some (to_int32 (length t), m')"
    "\<forall>a. m' a = (if unat (a - buffer) < n then t ! unat (a - buffer) else if unat (a - buffer) = n then 0 else m a)"
    using out_buffer_text [OF assms(1-3), of m] assms(4) unfolding snprintf_def Let_def n_def by auto
  have c: "n < unat count" using assms(3) by (simp add: unat_gt_0 min_less_iff_disj n_def)
  have u: "unat (of_nat k :: u64) = k" if "k \<le> n" for k
    using that assms(4) by (intro unat_of_nat_small) (simp add: n_def)
  have "m' (buffer + of_nat k) = t ! k" if "k < n" for k using m'(2) that u [of k] by simp
  moreover have "m' (buffer + of_nat n) = 0" using m'(2) u [of n] by simp
  moreover have "m' a = m a" if "n < unat (a - buffer)" for a using m'(2) that by simp
  ultimately show ?thesis unfolding Let_def n_def [symmetric] using m'(1) assms(4) c by (intro exI [of _ m']) auto
qed

text \<open>The format \<open>%5.2s|%x\<close> with the arguments \<open>abc\<close> and 255 prints \<open>   ab|ff\<close>; eight bytes of buffer hold seven of it.\<close>

definition sample_format :: bytes where
  "sample_format = [0x25, 0x35, 0x2E, 0x32, 0x73, 0x7C, 0x25, 0x78]"

definition sample_args :: "vararg list" where
  "sample_args = [Arg_str [0x61, 0x62, 0x63], Arg_word 255]"

lemma sample_text: "format_text sample_format sample_args = Some [0x20, 0x20, 0x20, 0x61, 0x62, 0x7C, 0x66, 0x66]"
  by (simp add: sample_format_def sample_args_def format_text.simps cur_def parse_directive_def parse_width_def parse_precision_def
      parse_length_def is_digit_def convert_text_def str_text_def int_text_def int_arg_def unsigned_arg_def ntoa_text_def
      ntoa_digits.simps ntoa_fill_def ntoa_sign_def zero_pad_eq rev_text_def int_base_def int_flags_def flag_values Let_def
      digit_char_def PRINTF_NTOA_BUFFER_SIZE_def numeral_3_eq_3)

theorem snprintf_bounded_witness:
  "\<exists>m'. snprintf 0x1000 8 sample_format sample_args (\<lambda>_. 0xAA) = Some (8, m') \<and> m' 0x1006 = 0x66 \<and> m' 0x1007 = 0 \<and> m' 0x1008 = 0xAA"
proof -
  from snprintf_bounded [OF sample_text, of "0x1000" 8 "\<lambda>_. 0xAA"] obtain m' where
    m': "snprintf 0x1000 8 sample_format sample_args (\<lambda>_. 0xAA) = Some (8, m')"
    "\<forall>k < 7. m' (0x1000 + of_nat k) = [0x20, 0x20, 0x20, 0x61, 0x62, 0x7C, 0x66, 0x66] ! k" "m' (0x1000 + of_nat 7) = 0"
    "\<forall>a. 7 < unat (a - 0x1000) \<longrightarrow> m' a = 0xAA" by (auto simp: Let_def)
  from m'(2) [rule_format, of 6] have "m' 0x1006 = 0x66" by simp
  moreover from m'(4) have "m' 0x1008 = 0xAA" by simp
  ultimately show ?thesis using m'(1,3) by simp
qed

section \<open>Printing on the console\<close>

lemma out_char_put:
  "out_char 0 buffer idx maxlen d = Some d"
  "c \<noteq> 0 \<Longrightarrow> \<not> dlab d \<Longrightarrow> out_char c buffer idx maxlen d = Some (d\<lparr>tx_line := tx_line d @ crlf c, tx_busy := tx_time d\<rparr>)"
  by (simp_all add: out_char_def putchar_def uart_putc_sends)

lemma out_char_emits:
  "\<not> dlab d \<Longrightarrow> \<exists>n. emits (\<lambda>c idx. out_char c buffer idx maxlen) t (i, d) =
    Some (i + of_nat (length t), d\<lparr>tx_line := tx_line d @ concat (map crlf (filter (\<lambda>c. c \<noteq> 0) t)), tx_busy := n\<rparr>)"
proof (induction t arbitrary: i d)
  case Nil
  show ?case by (rule exI [of _ "tx_busy d"]) simp
next
  case (Cons c t)
  show ?case
  proof (cases "c = 0")
    case True
    then show ?thesis using Cons.IH [OF Cons.prems, of "i + 1"] by (auto simp: out_char_put add.assoc)
  next
    case False
    let ?d = "d\<lparr>tx_line := tx_line d @ crlf c, tx_busy := tx_time d\<rparr>"
    have "\<not> dlab ?d" using Cons.prems by simp
    from Cons.IH [OF this, of "i + 1"] obtain n where
      "emits (\<lambda>c idx. out_char c buffer idx maxlen) t (i + 1, ?d) =
        Some (i + 1 + of_nat (length t), ?d\<lparr>tx_line := tx_line ?d @ concat (map crlf (filter (\<lambda>c. c \<noteq> 0) t)), tx_busy := n\<rparr>)" by blast
    then show ?thesis using Cons.prems False
      by (intro exI [of _ n]) (simp add: out_char_put add.assoc)
  qed
qed

lemma printf_sends:
  assumes "format_text fmt va = Some t" and "\<not> dlab d"
  shows "\<exists>d'. printf fmt va d = Some (to_int32 (length t), d') \<and>
    tx_line d' = tx_line d @ concat (map crlf (filter (\<lambda>c. c \<noteq> 0) t))"
proof -
  obtain n where "emits (\<lambda>c idx. out_char c 1 idx (- 1)) t (0, d) =
      Some (of_nat (length t), d\<lparr>tx_line := tx_line d @ concat (map crlf (filter (\<lambda>c. c \<noteq> 0) t)), tx_busy := n\<rparr>)"
    using out_char_emits [OF assms(2), of 1 "- 1" t 0] by auto
  then show ?thesis using assms(1)
    by (simp add: printf_def vsnprintf_out_text out_char_def sint_ucast_length)
qed

section \<open>Integers in text\<close>

text \<open>The numeral of a number, most significant digit first, and the text the C standard prescribes for an integer conversion.\<close>

definition digit :: "bool \<Rightarrow> nat \<Rightarrow> u8" where
  "digit up d = (if d < 10 then 0x30 + of_nat d else (if up then 0x41 else 0x61) + of_nat (d - 10))"

function numeral_text :: "nat \<Rightarrow> bool \<Rightarrow> nat \<Rightarrow> bytes" where
  "numeral_text b up n = (if b < 2 \<or> n < b then [digit up n] else numeral_text b up (n div b) @ [digit up (n mod b)])"
  by pat_completeness auto
termination by (relation "measure (\<lambda>(b, up, n). n)") auto

declare numeral_text.simps [simp del]

definition sign_text :: "int \<Rightarrow> u32 \<Rightarrow> bytes" where
  "sign_text v flags = (if v < 0 then [0x2D] else if has flags FLAGS_PLUS then [0x2B] else if has flags FLAGS_SPACE then [0x20] else [])"

definition digits_text :: "nat \<Rightarrow> bool \<Rightarrow> int \<Rightarrow> bool \<Rightarrow> nat \<Rightarrow> bytes" where
  "digits_text b up v given precision =
     (let ds = (if given \<and> v = 0 then [] else numeral_text b up (nat \<bar>v\<bar>))
      in replicate (precision - length ds) 0x30 @ ds)"

definition standard_text :: "bytes \<Rightarrow> bytes \<Rightarrow> nat \<Rightarrow> u32 \<Rightarrow> bytes" where
  "standard_text sign digits width flags =
     (let n = width - (length sign + length digits)
      in if has flags FLAGS_LEFT then sign @ digits @ replicate n 0x20
         else if has flags FLAGS_ZEROPAD then sign @ replicate n 0x30 @ digits
         else replicate n 0x20 @ sign @ digits)"

lemma digit_char_eq:
  assumes "unat base \<le> 16" and "base \<noteq> 0"
  shows "digit_char flags (ucast (val mod base)) = digit (has flags FLAGS_UPPERCASE) (unat val mod unat base)"
proof -
  let ?d = "unat val mod unat base"
  have b: "?d < 16" using assms by (metis mod_less_divisor less_le_trans unat_gt_0)
  have "(ucast (val mod base) :: u8) = of_nat ?d"
    by (metis of_nat_unat unat_mod)
  moreover have "(of_nat ?d :: u8) < 10 \<longleftrightarrow> ?d < 10"
    using b by (simp add: word_less_nat_alt unsigned_of_nat take_bit_nat_eq_self)
  moreover have "(of_nat (?d - 10) :: u8) = of_nat ?d - 10" if "\<not> ?d < 10" using that by (simp add: of_nat_diff)
  ultimately show ?thesis by (auto simp: digit_char_def digit_def algebra_simps)
qed

lemma ntoa_digits_eq:
  assumes "2 \<le> unat base" and "unat base \<le> 16" and "unat val < unat base ^ (32 - length buf)" and "length buf < 32"
  shows "ntoa_digits base flags val buf = buf @ rev (numeral_text (unat base) (has flags FLAGS_UPPERCASE) (unat val))"
  using assms
proof (induction base flags val buf rule: ntoa_digits.induct)
  case (1 base flags val buf)
  let ?c = "digit (has flags FLAGS_UPPERCASE) (unat val mod unat base)"
  have nz: "base \<noteq> 0" using 1(2) by auto
  note dc = digit_char_eq [OF 1(3) nz, of flags val]
  have q: "(val div base \<noteq> 0) = (\<not> unat val < unat base)"
    using 1(2) by (simp add: word_unat_eq_iff unat_div div_eq_0_iff not_less)
  show ?case
  proof (cases "unat val < unat base")
    case True
    then show ?thesis using q dc by (subst ntoa_digits.simps, subst numeral_text.simps) (simp add: Let_def)
  next
    case False
    have "length buf \<noteq> 31" using False 1(4) by auto
    then have len: "length buf + 1 < 32" using 1(5) by simp
    then have "unat base ^ (32 - length buf) = unat base ^ (32 - length (buf @ [?c])) * unat base"
      by (metis Suc_diff_Suc Suc_eq_plus1 Suc_lessD length_append_singleton mult.commute power_Suc)
    then have "unat (val div base) < unat base ^ (32 - length (buf @ [?c]))"
      using 1(4) 1(2) by (simp add: unat_div less_mult_imp_div_less)
    then have "ntoa_digits base flags (val div base) (buf @ [?c]) =
        (buf @ [?c]) @ rev (numeral_text (unat base) (has flags FLAGS_UPPERCASE) (unat (val div base)))"
      using 1(1) [OF refl refl] q False len 1(2,3) dc by (simp add: PRINTF_NTOA_BUFFER_SIZE_def)
    then show ?thesis using q False len dc 1(2)
      by (subst ntoa_digits.simps, subst numeral_text.simps) (simp add: Let_def PRINTF_NTOA_BUFFER_SIZE_def unat_div)
  qed
qed

lemma numeral_text_length:
  "2 \<le> b \<Longrightarrow> n < b ^ Suc k \<Longrightarrow> length (numeral_text b up n) \<le> Suc k"
proof (induction k arbitrary: n)
  case 0
  then show ?case by (subst numeral_text.simps) simp
next
  case (Suc k)
  then show ?case
    by (subst numeral_text.simps) (auto simp: less_mult_imp_div_less mult.commute)
qed

text \<open>
  Reading a printed decimal back with the parser of this library.
\<close>

lemma atoi_digit: "d < 10 \<Longrightarrow> is_digit (digit up d) \<and> (ucast (digit up d - 0x30) :: u32) = of_nat d"
  by (auto simp: is_digit_def digit_def word_le_nat_alt unat_word_ariths unsigned_of_nat take_bit_nat_eq_self take_bit_eq_mod)

lemma atoi_digits:
  "list_all is_digit ds \<Longrightarrow> atoi i (ds @ rest) = atoi (foldl (\<lambda>i c. i * 10 + ucast (c - 0x30)) i ds) rest"
  by (induction ds arbitrary: i) simp_all

lemma numeral_digits: "list_all is_digit (numeral_text 10 up n)"
proof (induction n rule: less_induct)
  case (less n)
  then show ?case using atoi_digit [of n up] atoi_digit [of "n mod 10" up] by (subst numeral_text.simps) simp
qed

lemma numeral_value:
  "foldl (\<lambda>i c. i * 10 + ucast (c - 0x30)) (i :: u32) (numeral_text 10 up n) = i * 10 ^ length (numeral_text 10 up n) + of_nat n"
proof (induction n rule: less_induct)
  case (less n)
  show ?case
  proof (cases "n < 10")
    case True
    then show ?thesis using atoi_digit [OF True, of up] by (subst (1 2) numeral_text.simps) simp
  next
    case False
    let ?t = "numeral_text 10 up (n div 10)"
    have t: "numeral_text 10 up n = ?t @ [digit up (n mod 10)]" using False by (subst numeral_text.simps) simp
    have "of_nat n = (of_nat (n div 10) * 10 + of_nat (n mod 10) :: u32)"
      by (metis of_nat_add of_nat_mult of_nat_numeral div_mult_mod_eq)
    then show ?thesis unfolding t using less.IH [of "n div 10"] False atoi_digit [of "n mod 10" up]
      by (simp add: algebra_simps)
  qed
qed

text \<open>
  What the library prints in decimal, its own parser reads back: \<open>_atoi\<close> on the numeral of a number below \<open>2\<^sup>3\<^sup>2\<close>, as \<open>_ntoa_long\<close> produces it, returns the number and
  stops at the first byte that is not a digit.
\<close>

lemma atoi_ntoa_roundtrip:
  assumes "unat val < 2 ^ 32" and "rest = [] \<or> is_digit (hd rest) = False"
  shows "atoi 0 (rev (ntoa_digits 10 0 val []) @ rest) = (ucast val, rest)"
proof -
  have "unat val < (10 :: nat) ^ 32" using assms(1) by simp
  then have "rev (ntoa_digits 10 0 val []) = numeral_text 10 False (unat val)" by (subst ntoa_digits_eq) simp_all
  moreover have "atoi j rest = (j, rest)" for j using assms(2) by (cases rest) auto
  ultimately show ?thesis using numeral_value [of 0 False "unat val"] numeral_digits [of False "unat val"] by (simp add: atoi_digits)
qed

lemma atoi_ntoa_roundtrip_example:
  "atoi 0 (rev (ntoa_digits 10 0 4096 []) @ [0x64, 0x31]) = (4096, [0x64, 0x31])"
  using atoi_ntoa_roundtrip [of 4096 "[0x64, 0x31]"] by (simp add: is_digit_def)

lemma value_magnitude:
  "unat (of_int \<bar>int_arg c flags x\<bar> :: u64) = nat \<bar>int_arg c flags x\<bar>" "(of_int \<bar>int_arg c flags x\<bar> :: u64) = 0 \<longleftrightarrow> int_arg c flags x = 0"
proof -
  have "\<bar>int_arg c flags x\<bar> < 2 ^ 64"
    using sint_greater_eq [of x] sint_less [of x] sint_greater_eq [of "ucast x :: u8"] sint_less [of "ucast x :: u8"]
      sint_greater_eq [of "ucast x :: u16"] sint_less [of "ucast x :: u16"] sint_greater_eq [of "ucast x :: u32"] sint_less [of "ucast x :: u32"]
      unsigned_less [where 'a = int, of x] unsigned_less [where 'a = int, of "ucast x :: u8"]
      unsigned_less [where 'a = int, of "ucast x :: u16"] unsigned_less [where 'a = int, of "ucast x :: u32"]
    by (auto simp: int_arg_def signed_arg_def unsigned_arg_def)
  then have "uint (of_int \<bar>int_arg c flags x\<bar> :: u64) = \<bar>int_arg c flags x\<bar>" by (simp add: unsigned_of_int take_bit_int_eq_self)
  then show u: "unat (of_int \<bar>int_arg c flags x\<bar> :: u64) = nat \<bar>int_arg c flags x\<bar>" by (metis nat_uint_eq)
  then show "(of_int \<bar>int_arg c flags x\<bar> :: u64) = 0 \<longleftrightarrow> int_arg c flags x = 0"
    unfolding unat_eq_zero [symmetric] u by auto
qed

definition is_int_conv :: "u8 \<Rightarrow> bool" where
  "is_int_conv c \<longleftrightarrow> c \<in> set [0x64, 0x69, 0x75, 0x78, 0x58, 0x6F]"

lemma int_digits:
  assumes "is_int_conv c"
  shows "ntoa_digits (int_base c) fl (of_int \<bar>int_arg c flags x\<bar>) [] =
      rev (numeral_text (unat (int_base c)) (has fl FLAGS_UPPERCASE) (nat \<bar>int_arg c flags x\<bar>))" (is ?digits)
    and "length (numeral_text (unat (int_base c)) up (nat \<bar>int_arg c flags x\<bar>)) \<le> 31"
proof -
  let ?b = "unat (int_base c)" and ?v = "nat \<bar>int_arg c flags x\<bar>"
  have b: "2 \<le> ?b" "?b \<le> 16" "8 \<le> ?b" using assms by (auto simp: int_base_def is_int_conv_def)
  have "(8 :: nat) ^ Suc 30 \<le> ?b ^ Suc 30" using b(3) by (rule power_mono) simp
  moreover have "(2 :: nat) ^ 64 \<le> 8 ^ Suc 30" by simp
  ultimately have mag: "?v < ?b ^ Suc 30"
    using unsigned_less [where 'a = nat, of "of_int \<bar>int_arg c flags x\<bar> :: u64"] value_magnitude(1) [of c flags x] by simp
  then show "length (numeral_text ?b up ?v) \<le> 31" using numeral_text_length [OF b(1) mag] by simp
  have "?b ^ Suc 30 \<le> ?b ^ 32" using b(1) by (intro power_increasing) auto
  then show ?digits
    using ntoa_digits_eq [OF b(1,2), of "of_int \<bar>int_arg c flags x\<bar>" "[]" fl] mag value_magnitude(1) [of c flags x] by simp
qed

text \<open>The buffer of \<open>_ntoa_format\<close>, for digits that leave room for the sign and without the alternative form.\<close>

lemma push_room: "length buf < 32 \<Longrightarrow> push c buf = buf @ [c]"
  by (simp add: push_def PRINTF_NTOA_BUFFER_SIZE_def)

lemma ntoa_sign_room: "length buf < 32 \<or> sign_text v flags = [] \<Longrightarrow> ntoa_sign (v < 0) flags buf = buf @ sign_text v flags"
  by (auto simp: ntoa_sign_def sign_text_def push_room split: if_splits)

lemma sign_text_length: "length (sign_text v flags) = (if v < 0 \<or> has flags (FLAGS_PLUS OR FLAGS_SPACE) then 1 else 0)"
proof -
  have "has flags (FLAGS_PLUS OR FLAGS_SPACE) = (has flags FLAGS_PLUS \<or> has flags FLAGS_SPACE)"
    by (simp add: bit.conj_disj_distrib or_eq_0_iff)
  then show ?thesis by (simp add: sign_text_def)
qed

lemma ntoa_fill_text:
  assumes "\<not> has flags FLAGS_HASH" and "length ds \<le> 31" and "unat precision \<le> 31"
    and "has flags FLAGS_ZEROPAD \<or> has flags FLAGS_LEFT \<Longrightarrow> precision = 0"
    and "has flags FLAGS_ZEROPAD \<Longrightarrow> \<not> has flags FLAGS_LEFT \<Longrightarrow> unat width \<le> 32"
  shows "(let (buf, width) = ntoa_fill (rev ds) (v < 0) base precision width flags in rev_text buf width flags) =
    standard_text (sign_text v flags) (replicate (unat precision - length ds) 0x30 @ ds) (unat width) flags"
proof -
  let ?sg = "sign_text v flags"
  have sg: "rev ?sg = ?sg" "length ?sg \<le> 1" by (simp_all add: sign_text_def)
  consider "has flags FLAGS_LEFT" | "\<not> has flags FLAGS_LEFT" "\<not> has flags FLAGS_ZEROPAD"
    | "\<not> has flags FLAGS_LEFT" "has flags FLAGS_ZEROPAD" by blast
  then show ?thesis
  proof cases
    case 1
    then have "ntoa_fill (rev ds) (v < 0) base precision width flags = (rev ds @ ?sg, width)"
      using assms(1,2) ntoa_sign_room [of "rev ds" v flags] by (simp add: ntoa_fill_def Let_def)
    then show ?thesis using 1 assms(4) sg by (simp add: rev_text_def standard_text_def Let_def add.commute)
  next
    case 2
    let ?z = "replicate (unat precision - length ds) 0x30"
    have room: "length (rev ds @ ?z) < 32 \<or> sign_text v flags = []" using assms(2,3) by auto
    have "ntoa_fill (rev ds) (v < 0) base precision width flags = ((rev ds @ ?z) @ ?sg, width)"
      using 2 assms(1,3) ntoa_sign_room [OF room] by (simp add: ntoa_fill_def Let_def zero_pad_eq)
    then show ?thesis using 2 sg by (simp add: rev_text_def standard_text_def Let_def add.commute add.left_commute)
  next
    case 3
    let ?w = "unat width - length ?sg"
    let ?z = "replicate (?w - length ds) 0x30"
    have w: "unat (if width \<noteq> 0 \<and> (v < 0 \<or> has flags (FLAGS_PLUS OR FLAGS_SPACE)) then width - 1 else width) = ?w"
      unfolding sign_text_length by (simp add: unat_minus_one)
    have room: "length (rev ds @ ?z) < 32 \<or> ?sg = []"
      using assms(2,5) 3 by (cases ?sg) auto
    have "?w \<le> 32" using assms(5) 3 by simp
    then have "fst (ntoa_fill (rev ds) (v < 0) base precision width flags) = (rev ds @ ?z) @ ?sg"
      using 3 assms(1,4) w ntoa_sign_room [OF room]
      by (simp add: ntoa_fill_def Let_def zero_pad_eq)
    then show ?thesis using 3 assms(4) sg
      by (simp add: rev_text_def standard_text_def Let_def split_beta)
  qed
qed

lemma int_text_standard:
  assumes "is_int_conv c"
    and "\<not> has (int_flags c flags) FLAGS_HASH" and "has flags FLAGS_PRECISION \<or> precision = 0" and "unat precision \<le> 31"
    and "\<not> (has flags FLAGS_LEFT \<and> has flags FLAGS_PRECISION)"
    and "has flags FLAGS_LEFT \<or> unat width \<le> 32 \<or> \<not> has (int_flags c flags) FLAGS_ZEROPAD"
  shows "int_text c flags width precision x =
    (let v = int_arg c flags x; fl = int_flags c flags
     in standard_text (sign_text v fl) (digits_text (unat (int_base c)) (has fl FLAGS_UPPERCASE) v (has fl FLAGS_PRECISION) (unat precision)) (unat width) fl)"
proof -
  let ?v = "int_arg c flags x" and ?fl = "int_flags c flags"
  let ?ds = "if has ?fl FLAGS_PRECISION \<and> ?v = 0 then [] else numeral_text (unat (int_base c)) (has ?fl FLAGS_UPPERCASE) (nat \<bar>?v\<bar>)"
  have fl0: "?fl AND NOT FLAGS_HASH = ?fl"
    using assms(2) by (intro bit_word_eqI) (auto simp: bit_and_iff bit_not_iff flag_bits has_bits)
  have prec: "has ?fl FLAGS_PRECISION = has flags FLAGS_PRECISION" "has ?fl FLAGS_LEFT = has flags FLAGS_LEFT"
    "has ?fl FLAGS_ZEROPAD \<Longrightarrow> \<not> has flags FLAGS_PRECISION"
    by (simp_all add: has_bits int_flags_bits)
  have len: "length ?ds \<le> 31" using int_digits(2) [OF assms(1)] by simp
  have "int_text c flags width precision x =
      (let (buf, width) = ntoa_fill (rev ?ds) (?v < 0) (int_base c) precision width ?fl in rev_text buf width ?fl)"
    unfolding int_text_def ntoa_text_def Let_def fl0 if_cancel int_digits(1) [OF assms(1)] value_magnitude(2) by auto
  also have "\<dots> = standard_text (sign_text ?v ?fl) (replicate (unat precision - length ?ds) 0x30 @ ?ds) (unat width) ?fl"
    using assms prec by (intro ntoa_fill_text len) auto
  finally show ?thesis by (simp add: Let_def digits_text_def)
qed

text \<open>
  C26: Integer conversions print what the C standard prescribes: for \<open>d\<close>, \<open>i\<close>, \<open>u\<close>, \<open>x\<close>, \<open>X\<close> and \<open>o\<close> of any length, the argument converted to its type is printed in its base with
  the sign, the leading zeros of the precision, and padded to the width with spaces on the left, spaces on the right (\<open>-\<close>) or zeros after the sign (\<open>0\<close>). The statement leaves out
  what the code does differently: the alternative form \<open>#\<close>, a precision together with \<open>-\<close>, which is ignored, and fields that exceed the 32 bytes of the conversion buffer.
\<close>

theorem integer_conversion_standard:
  assumes "is_int_conv c"
    and "\<not> has (int_flags c flags) FLAGS_HASH" and "has flags FLAGS_PRECISION \<or> precision = 0" and "unat precision \<le> 31"
    and "\<not> (has flags FLAGS_LEFT \<and> has flags FLAGS_PRECISION)"
    and "has flags FLAGS_LEFT \<or> unat width \<le> 32 \<or> \<not> has (int_flags c flags) FLAGS_ZEROPAD"
  shows "conv_int put c flags width precision (Arg_word x # va) st =
    map_option (Pair va) (emits put
      (let v = int_arg c flags x; fl = int_flags c flags
       in standard_text (sign_text v fl)
            (digits_text (unat (int_base c)) (has fl FLAGS_UPPERCASE) v (has fl FLAGS_PRECISION) (unat precision)) (unat width) fl) st)"
  unfolding conv_int_emits int_text_standard [OF assms] by simp

text \<open>\<open>%05hd\<close> with the argument \<open>0x1FFFE\<close> (as a \<open>short\<close>, -2) prints \<open>-0002\<close>.\<close>

theorem integer_conversion_standard_witness:
  "conv_int (\<lambda>c idx w. Some (w @ [c])) 0x64 0x81 5 0 [Arg_word 0x1FFFE] (0, []) = Some ([], 5, [0x2D, 0x30, 0x30, 0x30, 0x32])"
proof -
  have d: "numeral_text 10 False 2 = [0x32]" by (subst numeral_text.simps) (simp add: digit_def)
  have r: "replicate 3 (0x30 :: u8) = [0x30, 0x30, 0x30]" by (simp add: numeral_3_eq_3)
  show ?thesis
    using integer_conversion_standard [of "0x64" "0x81" 0 5 "\<lambda>c idx w. Some (w @ [c])" "0x1FFFE" "[]" "(0, [])"] d r
    by (simp add: int_flags_def int_base_def flag_values Let_def int_arg_def signed_arg_def sign_text_def digits_text_def standard_text_def is_int_conv_def)
qed

text \<open>Where the code differs: a precision together with \<open>-\<close> is ignored (\<open>%-.3d\<close> of 5 prints \<open>5\<close>).\<close>

lemma left_precision_ignored: "int_text 0x64 (FLAGS_LEFT OR FLAGS_PRECISION) 0 3 5 = [0x35]"
  by (simp add: int_text_def int_arg_def signed_arg_def ntoa_text_def ntoa_digits.simps ntoa_fill_def ntoa_sign_def rev_text_def
      int_base_def int_flags_def flag_values Let_def digit_char_def)

end
