(* ===== verification/Descriptors.thy ===== *)
theory Descriptors
  imports Prelude
begin

text \<open>
  Segment and interrupt descriptors: \<open>src/src/gdt.c\<close> and the table setup of \<open>src/src/int.c\<close>. Each processor has its own tables; their addresses, which the linker assigns, are
  fields of the state. Loading the table registers is an assignment to the register; the reload of the segment registers has no further effect in this model.

  The processor's reading of a descriptor (the layout in the Intel manual) is given by \<open>seg_base\<close>, \<open>seg_limit\<close>, \<open>seg_flags\<close> and \<open>gate_offset\<close>. The lemmas show that
  what \<open>create_descriptor\<close> and \<open>idt_set_descriptor\<close> encode is read back, that user code can reach the kernel only through the system call gate, and what is wrong with the task state
  segment descriptor and the table limit.
\<close>

section \<open>Segment descriptors\<close>

definition SEG_DESCTYPE :: "u16 \<Rightarrow> u16" where "SEG_DESCTYPE x = push_bit 0x04 x"
definition SEG_PRES :: "u16 \<Rightarrow> u16" where "SEG_PRES x = push_bit 0x07 x"
definition SEG_SAVL :: "u16 \<Rightarrow> u16" where "SEG_SAVL x = push_bit 0x0C x"
definition SEG_LONG :: "u16 \<Rightarrow> u16" where "SEG_LONG x = push_bit 0x0D x"
definition SEG_SIZE :: "u16 \<Rightarrow> u16" where "SEG_SIZE x = push_bit 0x0E x"
definition SEG_GRAN :: "u16 \<Rightarrow> u16" where "SEG_GRAN x = push_bit 0x0F x"
definition SEG_PRIV :: "u16 \<Rightarrow> u16" where "SEG_PRIV x = push_bit 0x05 (x AND 0x03)"
definition SEG_DATA_RDWR :: u16 where "SEG_DATA_RDWR = 0x02"
definition SEG_CODE_EXRD :: u16 where "SEG_CODE_EXRD = 0x0A"

definition GDT_CODE64_PL0 :: u16 where
  "GDT_CODE64_PL0 = SEG_DESCTYPE 1 OR SEG_PRES 1 OR SEG_SAVL 0 OR SEG_LONG 1 OR SEG_SIZE 0 OR SEG_GRAN 1 OR SEG_PRIV 0 OR SEG_CODE_EXRD"

definition GDT_DATA64_PL0 :: u16 where
  "GDT_DATA64_PL0 = SEG_DESCTYPE 1 OR SEG_PRES 1 OR SEG_SAVL 0 OR SEG_LONG 0 OR SEG_SIZE 1 OR SEG_GRAN 1 OR SEG_PRIV 0 OR SEG_DATA_RDWR"

definition GDT_CODE64_PL3 :: u16 where
  "GDT_CODE64_PL3 = SEG_DESCTYPE 1 OR SEG_PRES 1 OR SEG_SAVL 0 OR SEG_LONG 1 OR SEG_SIZE 0 OR SEG_GRAN 1 OR SEG_PRIV 3 OR SEG_CODE_EXRD"

definition GDT_DATA64_PL3 :: u16 where
  "GDT_DATA64_PL3 = SEG_DESCTYPE 1 OR SEG_PRES 1 OR SEG_SAVL 0 OR SEG_LONG 0 OR SEG_SIZE 1 OR SEG_GRAN 1 OR SEG_PRIV 3 OR SEG_DATA_RDWR"

definition create_descriptor :: "u32 \<Rightarrow> u32 \<Rightarrow> u16 \<Rightarrow> u64" where
  "create_descriptor base limit flag =
     (let descriptor = (ucast (limit AND 0x000F0000) :: u64);
          descriptor = descriptor OR ucast (push_bit 8 (ucast flag :: u32) AND 0x00F0FF00);
          descriptor = descriptor OR ucast (drop_bit 16 base AND 0x000000FF);
          descriptor = descriptor OR ucast (base AND 0xFF000000);
          descriptor = push_bit 32 descriptor;
          descriptor = descriptor OR ucast (push_bit 16 base)
      in descriptor OR ucast (limit AND 0x0000FFFF))"

text \<open>The segment a descriptor describes, as the processor reads it.\<close>

definition seg_base :: "u64 \<Rightarrow> u32" where
  "seg_base d = ucast (drop_bit 16 d AND mask 24) OR push_bit 24 (ucast (drop_bit 56 d))"

definition seg_limit :: "u64 \<Rightarrow> u32" where
  "seg_limit d = ucast (d AND mask 16) OR push_bit 16 (ucast (drop_bit 48 d AND mask 4))"

definition seg_flags :: "u64 \<Rightarrow> u16" where
  "seg_flags d = ucast (drop_bit 40 d AND mask 8) OR push_bit 12 (ucast (drop_bit 52 d AND mask 4))"

section \<open>The global descriptor table\<close>

record tss_entry =
  ts_rsp0 :: u64
  ts_rsp1 :: u64
  ts_rsp2 :: u64
  ts_ist1 :: u64
  ts_iomap_base :: u16

definition sizeof_tss_entry :: nat where "sizeof_tss_entry = 104"

record seg_tables =
  cpus :: nat
  gdt :: "nat \<Rightarrow> u64 list"
  tss :: "nat \<Rightarrow> tss_entry"
  gdt_addr :: "nat \<Rightarrow> u64"
  tss_addr :: "nat \<Rightarrow> u64"
  kernel_stack_top :: u64
  gdtr_limit :: "nat \<Rightarrow> u16"
  gdtr_base :: "nat \<Rightarrow> u64"
  task_register :: "nat \<Rightarrow> u16"

definition TSS_SELECTOR :: u16 where "TSS_SELECTOR = 0x28"
definition KCODE_SELECTOR :: u16 where "KCODE_SELECTOR = 0x08"
definition KDATA_SELECTOR :: u16 where "KDATA_SELECTOR = 0x10"
definition UCODE_SELECTOR :: u16 where "UCODE_SELECTOR = 0x18 OR 0x3"
definition UDATA_SELECTOR :: u16 where "UDATA_SELECTOR = 0x20 OR 0x3"

definition tss_low :: "u64 \<Rightarrow> u32 \<Rightarrow> u64" where
  "tss_low tss_base tss_limit =
     ucast (tss_limit AND 0xFFFF) OR push_bit 16 (tss_base AND 0xFFFFFF) OR push_bit 40 0x89 OR push_bit 48 (ucast (tss_limit AND 0xF0000))"

definition gdt_init :: "nat \<Rightarrow> seg_tables \<Rightarrow> seg_tables option" where
  "gdt_init cpuid s =
     (if cpus s \<le> cpuid then None
      else let t = (tss s cpuid)\<lparr>ts_rsp0 := kernel_stack_top s, ts_rsp1 := 0, ts_rsp2 := 0, ts_ist1 := 0, ts_iomap_base := of_nat sizeof_tss_entry\<rparr>;
               tss_base = tss_addr s cpuid;
               tss_limit = of_nat (sizeof_tss_entry - 1);
               table = [0, create_descriptor 0 0xfffff GDT_CODE64_PL0, create_descriptor 0 0xfffff GDT_DATA64_PL0,
                 create_descriptor 0 0xfffff GDT_CODE64_PL3, create_descriptor 0 0xfffff GDT_DATA64_PL3,
                 tss_low tss_base tss_limit, drop_bit 32 tss_base]
        in Some (s\<lparr>tss := (tss s)(cpuid := t), gdt := (gdt s)(cpuid := table),
             gdtr_limit := (gdtr_limit s)(cpuid := of_nat (7 * 8 * 8 - 1)), gdtr_base := (gdtr_base s)(cpuid := gdt_addr s cpuid),
             task_register := (task_register s)(cpuid := TSS_SELECTOR)\<rparr>))"

definition update_tss_rsp0 :: "nat \<Rightarrow> u64 \<Rightarrow> seg_tables \<Rightarrow> seg_tables option" where
  "update_tss_rsp0 cpuid rsp0 s =
     (if cpus s \<le> cpuid then None else Some (s\<lparr>tss := (tss s)(cpuid := (tss s cpuid)\<lparr>ts_rsp0 := rsp0\<rparr>)\<rparr>))"

section \<open>Interrupt gates\<close>

record idt_entry =
  isr_low :: u16
  kernel_cs :: u16
  ist :: u8
  attributes :: u8
  isr_mid :: u16
  isr_high :: u32
  reserved :: u32

definition IDT_FLAG_KERNEL_INT :: u8 where "IDT_FLAG_KERNEL_INT = 0x80 OR 0x00 OR 0x0E"
definition IDT_FLAG_USER_INT :: u8 where "IDT_FLAG_USER_INT = 0x80 OR 0x60 OR 0x0E"
definition X86_EXCEPT_DIVIDE_ERROR :: nat where "X86_EXCEPT_DIVIDE_ERROR = 0x00"
definition X86_EXCEPT_PAGE_FAULT :: nat where "X86_EXCEPT_PAGE_FAULT = 0x0E"
definition X86_IRQ_COM1 :: nat where "X86_IRQ_COM1 = 0x20 + 4"
definition X86_INT_SYSCALL :: nat where "X86_INT_SYSCALL = 0x80"
definition X86_APIC_TIMER_VECTOR :: nat where "X86_APIC_TIMER_VECTOR = 0xEF"

lemmas vector_defs = X86_EXCEPT_DIVIDE_ERROR_def X86_EXCEPT_PAGE_FAULT_def X86_IRQ_COM1_def X86_INT_SYSCALL_def X86_APIC_TIMER_VECTOR_def

definition idt_entry_of :: "u64 \<Rightarrow> u8 \<Rightarrow> idt_entry" where
  "idt_entry_of isr flags =
     \<lparr>isr_low = ucast (isr AND 0xFFFF), kernel_cs = KCODE_SELECTOR, ist = 0, attributes = flags,
      isr_mid = ucast (drop_bit 16 isr AND 0xFFFF), isr_high = ucast (drop_bit 32 isr AND 0xFFFFFFFF), reserved = 0\<rparr>"

text \<open>The handlers in \<open>isr_stubs.S\<close>, by their addresses.\<close>

record isr_stubs =
  isr_default_stub :: u64
  isr_divide_error_stub :: u64
  isr_page_fault_stub :: u64
  lapic_timer_stub :: u64
  isr_syscall_stub :: u64
  isr_com1_stub :: u64

record int_tables =
  int_cpus :: nat
  idt :: "nat \<Rightarrow> idt_entry list"
  idt_addr :: "nat \<Rightarrow> u64"
  idtr_limit :: "nat \<Rightarrow> u16"
  idtr_base :: "nat \<Rightarrow> u64"

definition idt_set_descriptor :: "nat \<Rightarrow> nat \<Rightarrow> u64 \<Rightarrow> u8 \<Rightarrow> int_tables \<Rightarrow> int_tables" where
  "idt_set_descriptor cpuid vector isr flags s = s\<lparr>idt := (idt s)(cpuid := (idt s cpuid)[vector := idt_entry_of isr flags])\<rparr>"

definition int_init :: "isr_stubs \<Rightarrow> nat \<Rightarrow> int_tables \<Rightarrow> int_tables option" where
  "int_init stubs cpuid s =
     (if int_cpus s \<le> cpuid then None
      else let s = fold (\<lambda>vector. idt_set_descriptor cpuid vector (isr_default_stub stubs) IDT_FLAG_KERNEL_INT) [0..<256] s;
               s = idt_set_descriptor cpuid X86_EXCEPT_DIVIDE_ERROR (isr_divide_error_stub stubs) IDT_FLAG_KERNEL_INT s;
               s = idt_set_descriptor cpuid X86_EXCEPT_PAGE_FAULT (isr_page_fault_stub stubs) IDT_FLAG_KERNEL_INT s;
               s = idt_set_descriptor cpuid X86_APIC_TIMER_VECTOR (lapic_timer_stub stubs) IDT_FLAG_KERNEL_INT s;
               s = idt_set_descriptor cpuid X86_INT_SYSCALL (isr_syscall_stub stubs) IDT_FLAG_USER_INT s;
               s = idt_set_descriptor cpuid X86_IRQ_COM1 (isr_com1_stub stubs) IDT_FLAG_KERNEL_INT s
        in Some (s\<lparr>idtr_base := (idtr_base s)(cpuid := idt_addr s cpuid), idtr_limit := (idtr_limit s)(cpuid := of_nat (256 * 16 - 1))\<rparr>))"

text \<open>What the processor does with a gate: where it jumps, and from which privilege level software may use it.\<close>

definition gate_offset :: "idt_entry \<Rightarrow> u64" where
  "gate_offset e = ucast (isr_low e) OR push_bit 16 (ucast (isr_mid e)) OR push_bit 32 (ucast (isr_high e))"

definition gate_present :: "idt_entry \<Rightarrow> bool" where
  "gate_present e \<longleftrightarrow> bit (attributes e) 7"

definition gate_dpl :: "idt_entry \<Rightarrow> u8" where
  "gate_dpl e = drop_bit 5 (attributes e) AND 3"

section \<open>What is encoded is read back\<close>

lemma seg_masks:
  "(0x000F0000 :: u32) = push_bit 16 (mask 4)" "(0x00F0FF00 :: u32) = push_bit 8 (mask 8) OR push_bit 20 (mask 4)"
  "(0x000000FF :: u32) = mask 8" "(0xFF000000 :: u32) = push_bit 24 (mask 8)" "(0x0000FFFF :: u32) = mask 16"
  by (simp_all add: mask_eq_exp_minus_1)

lemma descriptor_parts:
  "bit (ucast (limit AND push_bit 16 (mask 4) :: u32) :: u64) k \<longleftrightarrow> 16 \<le> k \<and> k < 20 \<and> bit limit k"
  "bit (ucast (push_bit 8 (ucast (flag :: u16) :: u32) AND (push_bit 8 (mask 8) OR push_bit 20 (mask 4))) :: u64) k \<longleftrightarrow>
    (8 \<le> k \<and> k < 16 \<or> 20 \<le> k \<and> k < 24) \<and> bit flag (k - 8)"
  "bit (ucast (drop_bit 16 (base :: u32) AND mask 8) :: u64) k \<longleftrightarrow> k < 8 \<and> bit base (k + 16)"
  "bit (ucast ((base :: u32) AND push_bit 24 (mask 8)) :: u64) k \<longleftrightarrow> 24 \<le> k \<and> k < 32 \<and> bit base k"
  "bit (ucast (push_bit 16 (base :: u32)) :: u64) k \<longleftrightarrow> 16 \<le> k \<and> k < 32 \<and> bit base (k - 16)"
  "bit (ucast (limit AND mask 16 :: u32) :: u64) k \<longleftrightarrow> k < 16 \<and> bit limit k"
  by (auto simp: bit_unsigned_iff bit_and_iff bit_or_iff bit_push_bit_iff bit_drop_bit_eq bit_mask_iff add.commute simp del: mask_numeral dest: bit_imp_le_length)

lemma create_descriptor_bits:
  "k < 16 \<Longrightarrow> bit (create_descriptor base limit flag) k = bit limit k"
  "16 \<le> k \<Longrightarrow> k < 40 \<Longrightarrow> bit (create_descriptor base limit flag) k = bit base (k - 16)"
  "40 \<le> k \<Longrightarrow> k < 48 \<Longrightarrow> bit (create_descriptor base limit flag) k = bit flag (k - 40)"
  "48 \<le> k \<Longrightarrow> k < 52 \<Longrightarrow> bit (create_descriptor base limit flag) k = bit limit (k - 32)"
  "52 \<le> k \<Longrightarrow> k < 56 \<Longrightarrow> bit (create_descriptor base limit flag) k = bit flag (k - 40)"
  "56 \<le> k \<Longrightarrow> k < 64 \<Longrightarrow> bit (create_descriptor base limit flag) k = bit base (k - 32)"
proof -
  let ?hi = "\<lambda>j. 16 \<le> j \<and> j < 20 \<and> bit limit j \<or> (8 \<le> j \<and> j < 16 \<or> 20 \<le> j \<and> j < 24) \<and> bit flag (j - 8) \<or>
    j < 8 \<and> bit base (j + 16) \<or> 24 \<le> j \<and> j < 32 \<and> bit base j"
  have d: "bit (create_descriptor base limit flag) k \<longleftrightarrow>
      32 \<le> k \<and> k < 64 \<and> ?hi (k - 32) \<or> 16 \<le> k \<and> k < 32 \<and> bit base (k - 16) \<or> k < 16 \<and> bit limit k" for k
    unfolding create_descriptor_def Let_def seg_masks bit_or_iff bit_push_bit_iff descriptor_parts by auto
  show "k < 16 \<Longrightarrow> bit (create_descriptor base limit flag) k = bit limit k" by (simp add: d)
  show "16 \<le> k \<Longrightarrow> k < 40 \<Longrightarrow> bit (create_descriptor base limit flag) k = bit base (k - 16)" by (cases "k < 32") (auto simp: d)
  show "40 \<le> k \<Longrightarrow> k < 48 \<Longrightarrow> bit (create_descriptor base limit flag) k = bit flag (k - 40)" by (auto simp: d)
  show "48 \<le> k \<Longrightarrow> k < 52 \<Longrightarrow> bit (create_descriptor base limit flag) k = bit limit (k - 32)" by (auto simp: d)
  show "52 \<le> k \<Longrightarrow> k < 56 \<Longrightarrow> bit (create_descriptor base limit flag) k = bit flag (k - 40)" by (auto simp: d)
  show "56 \<le> k \<Longrightarrow> k < 64 \<Longrightarrow> bit (create_descriptor base limit flag) k = bit base (k - 32)" by (auto simp: d)
qed

lemma seg_base_bits: "n < 32 \<Longrightarrow> bit (seg_base d) n = bit d (if n < 24 then n + 16 else n + 32)"
  by (auto simp: seg_base_def bit_or_iff bit_unsigned_iff bit_and_iff bit_drop_bit_eq bit_push_bit_iff bit_mask_iff add.commute
      simp del: mask_numeral dest: bit_imp_le_length)

lemma seg_limit_bits: "n < 32 \<Longrightarrow> bit (seg_limit d) n = (if n < 16 then bit d n else n < 20 \<and> bit d (n + 32))"
  by (auto simp: seg_limit_def bit_or_iff bit_unsigned_iff bit_and_iff bit_drop_bit_eq bit_push_bit_iff bit_mask_iff add.commute
      simp del: mask_numeral dest: bit_imp_le_length)

lemma seg_flags_bits: "n < 16 \<Longrightarrow> bit (seg_flags d) n = ((n < 8 \<or> 12 \<le> n) \<and> bit d (n + 40))"
  by (auto simp: seg_flags_def bit_or_iff bit_unsigned_iff bit_and_iff bit_drop_bit_eq bit_push_bit_iff bit_mask_iff add.commute
      simp del: mask_numeral dest: bit_imp_le_length)

lemma flag_mask: "(0xF0FF :: u16) = mask 8 OR push_bit 12 (mask 4)" and limit_mask: "(0xFFFFF :: u32) = mask 20"
  by (simp_all add: mask_eq_exp_minus_1)

lemma descriptor_flags: "seg_flags (create_descriptor base limit flag) = flag AND 0xF0FF"
proof (unfold flag_mask, rule bit_word_eqI)
  fix n assume n: "n < LENGTH(16)"
  then consider "n < 8" | "8 \<le> n" "n < 12" | "12 \<le> n" "n < 16" by fastforce
  then show "bit (seg_flags (create_descriptor base limit flag)) n = bit (flag AND (mask 8 OR push_bit 12 (mask 4))) n"
    by cases (auto simp: seg_flags_bits create_descriptor_bits bit_and_iff bit_or_iff bit_push_bit_iff bit_mask_iff simp del: mask_numeral)
qed

text \<open>
  Segment descriptors round-trip: from the descriptor that \<open>create_descriptor\<close> builds, the processor reads exactly the 32-bit base, the low 20 bits of the limit and the twelve flag bits it was given.
\<close>

lemma descriptor_roundtrip:
  "seg_base (create_descriptor base limit flag) = base \<and> seg_limit (create_descriptor base limit flag) = limit AND 0xFFFFF \<and>
   seg_flags (create_descriptor base limit flag) = flag AND 0xF0FF"
proof (intro conjI)
  show "seg_base (create_descriptor base limit flag) = base"
    by (rule bit_word_eqI) (auto simp: seg_base_bits create_descriptor_bits)
  show "seg_limit (create_descriptor base limit flag) = limit AND 0xFFFFF"
    unfolding limit_mask by (rule bit_word_eqI) (auto simp: seg_limit_bits create_descriptor_bits bit_and_iff bit_mask_iff simp del: mask_numeral)
  show "seg_flags (create_descriptor base limit flag) = flag AND 0xF0FF" by (rule descriptor_flags)
qed

text \<open>The descriptor of the task state segment loses bits 24 to 31 of its base.\<close>

lemma tss_low_base: "seg_base (tss_low base limit) = ucast (base AND 0xFFFFFF)"
proof (rule bit_word_eqI)
  fix n assume n: "n < LENGTH(32)"
  have m: "(0xFFFFFF :: u64) = mask 24" "(0xFFFF :: u32) = mask 16" "(0xF0000 :: u32) = push_bit 16 (mask 4)" by (simp_all add: mask_eq_exp_minus_1)
  have c: "bit (0x89 :: u64) k \<longleftrightarrow> k = 0 \<or> k = 3 \<or> k = 7" for k
  proof -
    have "(0x89 :: u64) = 2 ^ 0 OR 2 ^ 3 OR 2 ^ 7" by simp
    then show ?thesis by (simp only: bit_or_iff bit_2_pow_word) auto
  qed
  have t: "bit (tss_low base limit) k \<longleftrightarrow> k < 16 \<and> bit limit k \<or> 16 \<le> k \<and> k < 40 \<and> bit base (k - 16) \<or>
      k = 40 \<or> k = 43 \<or> k = 47" for k
  proof -
    have "bit (push_bit 16 (base AND mask 24)) k \<longleftrightarrow> 16 \<le> k \<and> k < 40 \<and> bit base (k - 16)"
      by (auto simp: bit_push_bit_iff bit_and_iff bit_mask_iff simp del: mask_numeral)
    moreover have "bit (push_bit 40 (0x89 :: u64)) k \<longleftrightarrow> k = 40 \<or> k = 43 \<or> k = 47"
      unfolding bit_push_bit_iff c by auto
    moreover have "\<not> bit (push_bit 48 (ucast (limit AND push_bit 16 (mask 4)) :: u64)) k"
      unfolding bit_push_bit_iff descriptor_parts by auto
    ultimately show ?thesis unfolding tss_low_def m bit_or_iff descriptor_parts by auto
  qed
  show "bit (seg_base (tss_low base limit)) n = bit (ucast (base AND 0xFFFFFF) :: u32) n"
    using n unfolding m(1) by (auto simp: seg_base_bits t bit_and_iff bit_unsigned_iff bit_mask_iff simp del: mask_numeral)
qed

lemma gdt_init_rings:
  assumes "gdt_init cpuid s = Some t"
  shows "map (\<lambda>d. drop_bit 5 (seg_flags d) AND 3) (take 5 (gdt t cpuid)) = [0, 0, 0, 3, 3]"
    and "map (\<lambda>d. bit (seg_flags d) 13) (take 5 (gdt t cpuid)) = [False, True, False, True, False]"
    and "gdtr_limit t cpuid = 447" "8 * length (gdt t cpuid) = 56"
proof -
  have z: "seg_flags 0 = 0" by (rule bit_word_eqI) (simp add: seg_flags_bits)
  show "map (\<lambda>d. drop_bit 5 (seg_flags d) AND 3) (take 5 (gdt t cpuid)) = [0, 0, 0, 3, 3]"
    and "map (\<lambda>d. bit (seg_flags d) 13) (take 5 (gdt t cpuid)) = [False, True, False, True, False]"
    and "gdtr_limit t cpuid = 447" "8 * length (gdt t cpuid) = 56"
    using assms descriptor_flags z
    by (auto simp: gdt_init_def Let_def GDT_CODE64_PL0_def GDT_DATA64_PL0_def GDT_CODE64_PL3_def GDT_DATA64_PL3_def
        SEG_DESCTYPE_def SEG_PRES_def SEG_SAVL_def SEG_LONG_def SEG_SIZE_def SEG_GRAN_def SEG_PRIV_def SEG_CODE_EXRD_def SEG_DATA_RDWR_def
        split: if_splits)
qed

section \<open>Interrupt gates\<close>

lemma gate_offset_of [simp]: "gate_offset (idt_entry_of isr flags) = isr"
proof -
  have m: "(0xFFFF :: u64) = mask 16" "(0xFFFFFFFF :: u64) = mask 32" by (simp_all add: mask_eq_exp_minus_1)
  show ?thesis
  proof (rule bit_word_eqI)
    fix n assume "n < LENGTH(64)"
    then consider "n < 16" | "16 \<le> n" "n < 32" | "32 \<le> n" "n < 64" by fastforce
    then show "bit (gate_offset (idt_entry_of isr flags)) n = bit isr n"
      by cases (auto simp: gate_offset_def idt_entry_of_def m bit_or_iff bit_and_iff bit_push_bit_iff bit_drop_bit_eq bit_unsigned_iff bit_mask_iff
          simp del: mask_numeral)
  qed
qed

lemma gate_attrs [simp]:
  "gate_present (idt_entry_of isr flags) = bit flags 7" "gate_dpl (idt_entry_of isr flags) = drop_bit 5 flags AND 3"
  "kernel_cs (idt_entry_of isr flags) = KCODE_SELECTOR"
  by (simp_all add: gate_present_def gate_dpl_def idt_entry_of_def)

text \<open>The handler a vector is meant to reach.\<close>

definition handler_of :: "isr_stubs \<Rightarrow> nat \<Rightarrow> u64" where
  "handler_of stubs v =
     (if v = X86_EXCEPT_DIVIDE_ERROR then isr_divide_error_stub stubs else if v = X86_EXCEPT_PAGE_FAULT then isr_page_fault_stub stubs
      else if v = X86_APIC_TIMER_VECTOR then lapic_timer_stub stubs else if v = X86_INT_SYSCALL then isr_syscall_stub stubs
      else if v = X86_IRQ_COM1 then isr_com1_stub stubs else isr_default_stub stubs)"

lemma idt_fill:
  "length (idt s c) = 256 \<Longrightarrow> n \<le> 256 \<Longrightarrow>
    idt (fold (\<lambda>v. idt_set_descriptor c v isr flags) [0..<n] s) c = replicate n (idt_entry_of isr flags) @ drop n (idt s c)"
proof (induction n)
  case (Suc n)
  let ?e = "idt_entry_of isr flags"
  have "(replicate n ?e @ drop n (idt s c))[n := ?e] = replicate n ?e @ ?e # drop (Suc n) (idt s c)"
    using Suc.prems by (simp add: list_update_append Cons_nth_drop_Suc [symmetric])
  then show ?case using Suc by (simp add: idt_set_descriptor_def replicate_append_same [symmetric])
qed simp

lemma idt_fill_frame:
  "int_cpus (fold (\<lambda>v. idt_set_descriptor c v isr flags) vs s) = int_cpus s" "idt_addr (fold (\<lambda>v. idt_set_descriptor c v isr flags) vs s) = idt_addr s"
  by (induction vs arbitrary: s) (simp_all add: idt_set_descriptor_def)

lemma int_init_gate:
  assumes "int_init stubs cpuid s = Some t" and "length (idt s cpuid) = 256" and "v < 256"
  shows "idt t cpuid ! v = idt_entry_of (handler_of stubs v) (if v = X86_INT_SYSCALL then IDT_FLAG_USER_INT else IDT_FLAG_KERNEL_INT)"
proof -
  let ?f = "fold (\<lambda>v. idt_set_descriptor cpuid v (isr_default_stub stubs) IDT_FLAG_KERNEL_INT) [0..<256] s"
  have f: "idt ?f cpuid = replicate 256 (idt_entry_of (isr_default_stub stubs) IDT_FLAG_KERNEL_INT)" using idt_fill [OF assms(2), of 256] assms(2) by simp
  have "idt t cpuid = (idt ?f cpuid)[X86_EXCEPT_DIVIDE_ERROR := idt_entry_of (isr_divide_error_stub stubs) IDT_FLAG_KERNEL_INT,
      X86_EXCEPT_PAGE_FAULT := idt_entry_of (isr_page_fault_stub stubs) IDT_FLAG_KERNEL_INT,
      X86_APIC_TIMER_VECTOR := idt_entry_of (lapic_timer_stub stubs) IDT_FLAG_KERNEL_INT,
      X86_INT_SYSCALL := idt_entry_of (isr_syscall_stub stubs) IDT_FLAG_USER_INT,
      X86_IRQ_COM1 := idt_entry_of (isr_com1_stub stubs) IDT_FLAG_KERNEL_INT]"
    using assms(1) by (auto simp: int_init_def Let_def idt_set_descriptor_def split: if_splits)
  then show ?thesis unfolding f using assms(3)
    by (auto simp: nth_list_update handler_of_def vector_defs)
qed

text \<open>
  C27: The interrupt table protects the kernel: after \<open>int_init\<close> every one of the 256 vectors has a present gate into the kernel code segment, whose target, put together by the processor from its three parts, is the
  handler meant for the vector, and the only gate user code may call is the system call vector \<open>0x80\<close>. The table register covers the whole table.
\<close>

theorem interrupt_gates:
  assumes "cpuid < int_cpus s" and "length (idt s cpuid) = 256"
  shows "\<exists>t. int_init stubs cpuid s = Some t \<and> length (idt t cpuid) = 256 \<and>
    (\<forall>v < 256. let e = idt t cpuid ! v in
       gate_present e \<and> kernel_cs e = KCODE_SELECTOR \<and> gate_offset e = handler_of stubs v \<and> (gate_dpl e = 3 \<longleftrightarrow> v = 0x80) \<and> (gate_dpl e = 0 \<longleftrightarrow> v \<noteq> 0x80)) \<and>
    unat (idtr_limit t cpuid) + 1 = 16 * length (idt t cpuid) \<and> idtr_base t cpuid = idt_addr s cpuid"
proof -
  obtain t where t: "int_init stubs cpuid s = Some t" using assms(1) by (auto simp: int_init_def Let_def)
  have len: "length (idt t cpuid) = 256" "idtr_limit t cpuid = 4095" "idtr_base t cpuid = idt_addr s cpuid"
    using t idt_fill [OF assms(2), of 256] idt_fill_frame(2) assms(2)
    by (auto simp: int_init_def Let_def idt_set_descriptor_def split: if_splits)
  have "gate_present (idt t cpuid ! v) \<and> kernel_cs (idt t cpuid ! v) = KCODE_SELECTOR \<and> gate_offset (idt t cpuid ! v) = handler_of stubs v \<and>
      (gate_dpl (idt t cpuid ! v) = 3 \<longleftrightarrow> v = 0x80) \<and> (gate_dpl (idt t cpuid ! v) = 0 \<longleftrightarrow> v \<noteq> 0x80)" if "v < 256" for v
    unfolding int_init_gate [OF t assms(2) that]
    by (auto simp: IDT_FLAG_USER_INT_def IDT_FLAG_KERNEL_INT_def X86_INT_SYSCALL_def)
  then show ?thesis using t len by (auto simp: Let_def)
qed

definition sample_tables :: int_tables where
  "sample_tables = \<lparr>int_cpus = 1, idt = (\<lambda>_. replicate 256 \<lparr>isr_low = 0, kernel_cs = 0, ist = 0, attributes = 0, isr_mid = 0, isr_high = 0, reserved = 0\<rparr>),
     idt_addr = (\<lambda>_. 0xFFFF800000105000), idtr_limit = (\<lambda>_. 0), idtr_base = (\<lambda>_. 0)\<rparr>"

definition sample_stubs :: isr_stubs where
  "sample_stubs = \<lparr>isr_default_stub = 0xFFFF800000100000, isr_divide_error_stub = 0xFFFF800000100040, isr_page_fault_stub = 0xFFFF800000100080,
     lapic_timer_stub = 0xFFFF8000001000C0, isr_syscall_stub = 0xFFFF800000100100, isr_com1_stub = 0xFFFF800000100140\<rparr>"

theorem interrupt_gates_witness:
  "\<exists>t. int_init sample_stubs 0 sample_tables = Some t \<and> gate_offset (idt t 0 ! 0x80) = 0xFFFF800000100100 \<and> gate_dpl (idt t 0 ! 0x80) = 3 \<and> gate_dpl (idt t 0 ! 0x0E) = 0"
proof -
  obtain t where t: "int_init sample_stubs 0 sample_tables = Some t"
    "\<forall>v < 256. gate_offset (idt t 0 ! v) = handler_of sample_stubs v \<and> (gate_dpl (idt t 0 ! v) = 3 \<longleftrightarrow> v = 0x80) \<and> (gate_dpl (idt t 0 ! v) = 0 \<longleftrightarrow> v \<noteq> 0x80)"
    using interrupt_gates [of 0 sample_tables sample_stubs] by (auto simp: sample_tables_def Let_def)
  from t(2) [rule_format, of "0x80"] t(2) [rule_format, of "0x0E"] t(1) show ?thesis
    by (simp add: handler_of_def vector_defs sample_stubs_def)
qed

end
