(* ===== verification/Firmware.thy ===== *)
theory Firmware
  imports CString
begin

text \<open>
  What the kernel reads from the firmware: the ACPI tables (\<open>src/src/acpi.c\<close>) and the memory map of the boot loader (\<open>src/src/multiboot2.c\<close>). The tables lie in a byte memory, at the
  virtual addresses at which the code reads them; a page that \<open>map_page\<close> maps is recorded in \<open>mapped\<close>. Tables are packed little-endian structures, read field by field. The walks over
  variable-length records may not end and are \<open>partial_function (option)\<close>; a null table pointer is a fault (\<open>None\<close>).

  The lemmas relate each walk to the list of records the memory holds: a walk returns, and finds the record a search of the list finds. They also show where the code leaves the
  table: the processor count walks 44 bytes past the end of the table, and the address of the I/O APIC is read with the field after it.
\<close>

section \<open>Little-endian fields\<close>

definition rd32 :: "mem \<Rightarrow> u64 \<Rightarrow> u32" where
  "rd32 m p = ucast (m p) OR push_bit 8 (ucast (m (p + 1))) OR push_bit 16 (ucast (m (p + 2))) OR push_bit 24 (ucast (m (p + 3)))"

definition rd64 :: "mem \<Rightarrow> u64 \<Rightarrow> u64" where
  "rd64 m p = ucast (rd32 m p) OR push_bit 32 (ucast (rd32 m (p + 4)))"

section \<open>The ACPI tables\<close>

record acpi =
  mcfg :: u64
  madt :: u64
  mapped :: "(u64 \<times> u64) list"

definition KERNEL_BASE :: u64 where "KERNEL_BASE = 0xffff800000000000"
definition sizeof_sdt_header :: u64 where "sizeof_sdt_header = 36"

definition acpi_find_mcfg_pci_mmio_base :: "mem \<Rightarrow> acpi \<Rightarrow> u64 \<Rightarrow> u64 option" where
  "acpi_find_mcfg_pci_mmio_base m s offset =
     (if mcfg s = 0 then None
      else let entries = (ucast (rd32 m (mcfg s + 4)) - sizeof_sdt_header - 8) div 16
        in if entries \<le> offset then Some (- 1) else Some (rd64 m (mcfg s + 44 + 16 * offset)))"

definition acpi_find_madt_lapic_base :: "mem \<Rightarrow> acpi \<Rightarrow> u64 option" where
  "acpi_find_madt_lapic_base m s = (if madt s = 0 then None else Some (ucast (rd32 m (madt s + 36))))"

definition madt_length :: "mem \<Rightarrow> acpi \<Rightarrow> u64" where
  "madt_length m s = ucast (rd32 m (madt s + 4))"

definition madt_entries :: "acpi \<Rightarrow> u64" where
  "madt_entries s = madt s + 44"

text \<open>The identifiers found so far are what has been written to \<open>ap_ids\<close>; there is no check against its size.\<close>

partial_function (option) smp_loop :: "mem \<Rightarrow> u64 \<Rightarrow> u64 \<Rightarrow> u32 list \<Rightarrow> u32 list option" where
  "smp_loop m ptr end ap_ids =
     (if ptr < end then
        let ap_ids = (if m ptr = 0 \<and> rd32 m (ptr + 4) AND 1 \<noteq> 0 then ap_ids @ [ucast (m (ptr + 2))] else ap_ids)
        in smp_loop m (ptr + ucast (m (ptr + 1))) end ap_ids
      else Some ap_ids)"

definition acpi_madt_smp_counter :: "mem \<Rightarrow> acpi \<Rightarrow> (u32 \<times> u32 list) option" where
  "acpi_madt_smp_counter m s =
     (if madt s = 0 then None
      else do {
        ap_ids \<leftarrow> smp_loop m (madt_entries s) (madt_entries s + madt_length m s) [];
        Some (of_nat (length ap_ids), ap_ids) })"

partial_function (option) ioapic_loop :: "mem \<Rightarrow> u64 \<Rightarrow> u64 \<Rightarrow> u64 option" where
  "ioapic_loop m ptr end =
     (if ptr < end then
        let type = m ptr; len = m (ptr + 1)
        in if len < 2 \<or> end < ptr + ucast len then Some 0
           else if type = 1 then Some (rd64 m (ptr + 4))
           else ioapic_loop m (ptr + ucast len) end
      else Some 0)"

definition acpi_find_madt_ioapic_base :: "mem \<Rightarrow> acpi \<Rightarrow> u64 option" where
  "acpi_find_madt_ioapic_base m s = (if madt s = 0 then None else ioapic_loop m (madt_entries s) (madt s + madt_length m s))"

partial_function (option) gsi_loop :: "mem \<Rightarrow> u8 \<Rightarrow> u64 \<Rightarrow> u64 \<Rightarrow> u32 option" where
  "gsi_loop m irq ptr end =
     (if ptr < end then
        let type = m ptr; len = m (ptr + 1)
        in if len < 2 \<or> end < ptr + ucast len then Some (ucast irq)
           else if type = 2 \<and> m (ptr + 3) = irq then Some (rd32 m (ptr + 4))
           else gsi_loop m irq (ptr + ucast len) end
      else Some (ucast irq))"

definition acpi_find_gsi_for_irq :: "mem \<Rightarrow> acpi \<Rightarrow> u8 \<Rightarrow> u32 option" where
  "acpi_find_gsi_for_irq m s irq = (if madt s = 0 then None else gsi_loop m irq (madt_entries s) (madt s + madt_length m s))"

text \<open>The comparison of \<open>n\<close> bytes with a literal that has no zero byte.\<close>

definition sig_at :: "mem \<Rightarrow> u64 \<Rightarrow> bytes \<Rightarrow> bool" where
  "sig_at m p sig \<longleftrightarrow> map (\<lambda>i. m (p + of_nat i)) [0..<length sig] = sig"

definition RSD_PTR :: bytes where "RSD_PTR = [0x52, 0x53, 0x44, 0x20, 0x50, 0x54, 0x52, 0x20]"
definition APIC_SIG :: bytes where "APIC_SIG = [0x41, 0x50, 0x49, 0x43]"
definition MCFG_SIG :: bytes where "MCFG_SIG = [0x4D, 0x43, 0x46, 0x47]"

function rsdp_loop :: "mem \<Rightarrow> nat \<Rightarrow> u64" where
  "rsdp_loop m ptr = (if ptr < 0xfffff then (if sig_at m (of_nat ptr) RSD_PTR then of_nat ptr else rsdp_loop m (ptr + 8)) else 0)"
  by pat_completeness auto
termination by (relation "measure (\<lambda>(m, ptr). 0xfffff - ptr)") auto

definition acpi_find_rsdp :: "mem \<Rightarrow> u64" where
  "acpi_find_rsdp m = rsdp_loop m 0xe0000"

definition scan_table :: "mem \<Rightarrow> u64 \<Rightarrow> nat \<Rightarrow> acpi \<Rightarrow> acpi" where
  "scan_table m rsdt i s =
     (let entry = ucast (rd32 m (rsdt + 36 + 4 * of_nat i));
          header = entry + KERNEL_BASE;
          s = s\<lparr>mapped := mapped s @ [(entry, header)]\<rparr>;
          s = (if sig_at m header APIC_SIG then s\<lparr>madt := header\<rparr> else s)
      in if sig_at m header MCFG_SIG then s\<lparr>mcfg := header\<rparr> else s)"

definition acpi_init :: "mem \<Rightarrow> acpi \<Rightarrow> acpi option" where
  "acpi_init m s =
     (let s = s\<lparr>mcfg := 0, madt := 0\<rparr>;
          rsdp = acpi_find_rsdp m
      in if rsdp = 0 then None
         else if 2 \<le> m (rsdp + 15) then
           (let xsdt = rd64 m (rsdp + 24) in Some (s\<lparr>mapped := mapped s @ [(xsdt, xsdt + KERNEL_BASE)]\<rparr>))
         else
           (let phys = ucast (rd32 m (rsdp + 16));
                rsdt = phys + KERNEL_BASE;
                s = s\<lparr>mapped := mapped s @ [(phys, rsdt)]\<rparr>;
                nr_rsdt_entry = (ucast (drop_bit 2 (ucast (rd32 m (rsdt + 4)) - sizeof_sdt_header)) :: u32)
            in Some (fold (scan_table m rsdt) [0..<unat nr_rsdt_entry] s)))"

section \<open>The memory map of the boot loader\<close>

definition MULTIBOOT2_TAG_MMAP :: u32 where "MULTIBOOT2_TAG_MMAP = 6"

partial_function (option) mmap_entries :: "mem \<Rightarrow> u64 \<Rightarrow> u64 \<Rightarrow> u64 \<Rightarrow> u64 option" where
  "mmap_entries m entry_ptr entry_end total_mem =
     (if entry_ptr < entry_end then
        mmap_entries m (entry_ptr + 24) entry_end (if rd32 m (entry_ptr + 16) = 1 then total_mem + rd64 m (entry_ptr + 8) else total_mem)
      else Some total_mem)"

partial_function (option) mbi_tags :: "mem \<Rightarrow> u64 \<Rightarrow> u64 \<Rightarrow> u64 \<Rightarrow> u64 option" where
  "mbi_tags m ptr end total_mem =
     (if ptr < end then
        let type = rd32 m ptr; size = rd32 m (ptr + 4)
        in if type = 0 then Some total_mem
           else do {
             total_mem \<leftarrow> (if type = MULTIBOOT2_TAG_MMAP then mmap_entries m (ptr + 16) (ptr + ucast size) total_mem else Some total_mem);
             mbi_tags m (ptr + ucast ((size + 7) AND NOT 7)) end total_mem }
      else Some total_mem)"

definition parse_multiboot2_mmap :: "mem \<Rightarrow> u64 \<Rightarrow> u64 \<Rightarrow> u64 option" where
  "parse_multiboot2_mmap m mbi_addr total_mem = mbi_tags m (mbi_addr + 8) (mbi_addr + ucast (rd32 m mbi_addr)) total_mem"

definition total_memory_init :: "mem \<Rightarrow> u32 \<Rightarrow> u32 \<Rightarrow> u64 \<Rightarrow> u64 option" where
  "total_memory_init m mboot_magic mboot_info total_mem =
     (if mboot_magic = 0x36d76289 then parse_multiboot2_mmap m (ucast mboot_info) total_mem else Some total_mem)"

section \<open>Memory that holds records\<close>

primrec holds :: "mem \<Rightarrow> u64 \<Rightarrow> bytes \<Rightarrow> bool" where
  "holds m p [] \<longleftrightarrow> True"
| "holds m p (c # bs) \<longleftrightarrow> m p = c \<and> holds m (p + 1) bs"

definition le32 :: "u32 \<Rightarrow> bytes" where
  "le32 v = [ucast v, ucast (drop_bit 8 v), ucast (drop_bit 16 v), ucast (drop_bit 24 v)]"

definition le64 :: "u64 \<Rightarrow> bytes" where
  "le64 v = le32 (ucast v) @ le32 (ucast (drop_bit 32 v))"

lemma length_le [simp]: "length (le32 v) = 4" "length (le64 w) = 8"
  by (simp_all add: le32_def le64_def)

lemma holds_append: "holds m p (a @ b) \<longleftrightarrow> holds m p a \<and> holds m (p + of_nat (length a)) b"
  by (induction a arbitrary: p) (simp_all add: add.assoc)

lemma holds_nth: "holds m p bs \<Longrightarrow> i < length bs \<Longrightarrow> m (p + of_nat i) = bs ! i"
proof (induction bs arbitrary: p i)
  case (Cons c bs)
  then show ?case by (cases i) (auto simp: add.assoc [symmetric] dest: Cons.IH [of "p + 1"])
qed simp

lemma unat_of_nat32: "k < 2 ^ 32 \<Longrightarrow> unat (of_nat k :: u32) = k"
  by (simp add: unsigned_of_nat take_bit_nat_eq_self)

lemma widen_of_nat: "k < 2 ^ 32 \<Longrightarrow> (ucast (of_nat k :: u32) :: u64) = of_nat k"
  by (simp add: unsigned_of_nat take_bit_nat_eq_self)

lemma rd32_le32: "holds m p (le32 v) \<Longrightarrow> rd32 m p = v"
proof (rule bit_word_eqI)
  fix n assume h: "holds m p (le32 v)" and n: "n < LENGTH(32)"
  have b: "m p = ucast v" "m (p + 1) = ucast (drop_bit 8 v)" "m (p + 2) = ucast (drop_bit 16 v)" "m (p + 3) = ucast (drop_bit 24 v)"
    using h by (simp_all add: le32_def add.assoc)
  from n consider "n < 8" | "8 \<le> n" "n < 16" | "16 \<le> n" "n < 24" | "24 \<le> n" "n < 32" by fastforce
  then show "bit (rd32 m p) n = bit v n" unfolding rd32_def b
    by cases (auto simp: bit_or_iff bit_push_bit_iff bit_unsigned_iff bit_drop_bit_eq)
qed

lemma rd64_le64: "holds m p (le64 v) \<Longrightarrow> rd64 m p = v"
proof (rule bit_word_eqI)
  fix n assume h: "holds m p (le64 v)" and n: "n < LENGTH(64)"
  have b: "rd32 m p = ucast v" "rd32 m (p + 4) = ucast (drop_bit 32 v)"
    using h by (simp_all add: le64_def holds_append rd32_le32)
  from n consider "n < 32" | "32 \<le> n" "n < 64" by fastforce
  then show "bit (rd64 m p) n = bit v n" unfolding rd64_def b
    by cases (auto simp: bit_or_iff bit_push_bit_iff bit_unsigned_iff bit_drop_bit_eq)
qed

section \<open>The interrupt controller table\<close>

text \<open>An entry of the table with its own length, long enough for the fields of its type.\<close>

definition entry_ok :: "bytes \<Rightarrow> bool" where
  "entry_ok e \<longleftrightarrow> 2 \<le> length e \<and> unat (e ! 1) = length e \<and>
    (e ! 0 = 0 \<longrightarrow> 8 \<le> length e) \<and> (e ! 0 = 1 \<longrightarrow> 12 \<le> length e) \<and> (e ! 0 = 2 \<longrightarrow> 10 \<le> length e)"

definition field32 :: "bytes \<Rightarrow> nat \<Rightarrow> u32" where
  "field32 e k = ucast (e ! k) OR push_bit 8 (ucast (e ! (k + 1))) OR push_bit 16 (ucast (e ! (k + 2))) OR push_bit 24 (ucast (e ! (k + 3)))"

lemma rd32_field: "holds m p e \<Longrightarrow> k + 4 \<le> length e \<Longrightarrow> rd32 m (p + of_nat k) = field32 e k"
  using holds_nth [of m p e k] holds_nth [of m p e "k + 1"] holds_nth [of m p e "k + 2"] holds_nth [of m p e "k + 3"]
  by (simp add: rd32_def field32_def add_ac)

definition walk_at :: "mem \<Rightarrow> u64 \<Rightarrow> u64 \<Rightarrow> bytes list \<Rightarrow> bool" where
  "walk_at m ptr end es \<longleftrightarrow> holds m ptr (concat es) \<and> list_all entry_ok es \<and> end = ptr + of_nat (length (concat es)) \<and>
    unat ptr + length (concat es) < 2 ^ 64"

lemma walk_Nil: "walk_at m ptr end [] \<Longrightarrow> \<not> ptr < end"
  by (simp add: walk_at_def)

lemma walk_Cons:
  assumes "walk_at m ptr end (e # es)"
  shows "ptr < end" "m ptr = e ! 0" "m (ptr + 1) = e ! 1" "\<not> e ! 1 < 2" "\<not> end < ptr + ucast (e ! 1)"
    "walk_at m (ptr + ucast (e ! 1)) end es" "holds m ptr e" "entry_ok e"
proof -
  have e: "holds m ptr e" "entry_ok e" "2 \<le> length e" "unat (e ! 1) = length e"
    and rest: "holds m (ptr + of_nat (length e)) (concat es)" "list_all entry_ok es"
    and "end": "end = ptr + of_nat (length e + length (concat es))" "unat ptr + (length e + length (concat es)) < 2 ^ 64"
    using assms by (simp_all add: walk_at_def holds_append entry_ok_def)
  have pos: "0 < length e" "1 < length e" using e(3) by linarith+
  have len: "(ucast (e ! 1) :: u64) = of_nat (length e)" using e(4) by (metis of_nat_unat)
  have u: "unat end = unat ptr + (length e + length (concat es))" unfolding "end"(1) by (rule unat_add_of_nat [OF "end"(2)])
  have v: "unat (ptr + of_nat (length e)) = unat ptr + length e" using "end"(2) by (intro unat_add_of_nat) simp
  show "holds m ptr e" "entry_ok e" by (rule e)+
  show "ptr < end" using u e(3) by (auto simp: word_less_nat_alt)
  show "m ptr = e ! 0" "m (ptr + 1) = e ! 1" using holds_nth [OF e(1) pos(1)] holds_nth [OF e(1) pos(2)] by simp_all
  show "\<not> e ! 1 < 2" using e(3,4) by (simp add: word_less_nat_alt)
  show "\<not> end < ptr + ucast (e ! 1)" unfolding len using u v by (simp add: word_less_nat_alt)
  show "walk_at m (ptr + ucast (e ! 1)) end es"
    unfolding len using rest "end" v by (simp add: walk_at_def algebra_simps)
qed

definition gsi_of :: "bytes list \<Rightarrow> u8 \<Rightarrow> u32" where
  "gsi_of es irq = (case find (\<lambda>e. e ! 0 = 2 \<and> e ! 3 = irq) es of Some e \<Rightarrow> field32 e 4 | None \<Rightarrow> ucast irq)"

lemma gsi_loop_spec: "walk_at m ptr end es \<Longrightarrow> gsi_loop m irq ptr end = Some (gsi_of es irq)"
proof (induction es arbitrary: ptr)
  case Nil
  then show ?case using walk_Nil [of m ptr "end"] by (subst gsi_loop.simps) (simp add: gsi_of_def)
next
  case (Cons e es)
  note w = walk_Cons [OF Cons.prems]
  have f: "m (ptr + 3) = e ! 3" "rd32 m (ptr + 4) = field32 e 4" if "e ! 0 = 2"
    using that w(8) holds_nth [OF w(7), of 3] rd32_field [OF w(7), of 4] by (simp_all add: entry_ok_def)
  show ?case using w(1-5) f Cons.IH [OF w(6)] by (subst gsi_loop.simps) (auto simp: Let_def gsi_of_def)
qed

text \<open>The address of the I/O APIC has eight bytes in the structure and four in the table: the upper half is the interrupt base.\<close>

lemma ioapic_loop_spec:
  "walk_at m ptr end es \<Longrightarrow> ioapic_loop m ptr end = Some (case find (\<lambda>e. e ! 0 = 1) es of
    Some e \<Rightarrow> ucast (field32 e 4) OR push_bit 32 (ucast (field32 e 8)) | None \<Rightarrow> 0)"
proof (induction es arbitrary: ptr)
  case Nil
  then show ?case using walk_Nil [of m ptr "end"] by (subst ioapic_loop.simps) simp
next
  case (Cons e es)
  note w = walk_Cons [OF Cons.prems]
  have "rd64 m (ptr + 4) = ucast (field32 e 4) OR push_bit 32 (ucast (field32 e 8))" if "e ! 0 = 1"
    using that w(8) rd32_field [OF w(7), of 4] rd32_field [OF w(7), of 8] by (simp add: entry_ok_def rd64_def add.assoc)
  then show ?case using w(1-5) Cons.IH [OF w(6)] by (subst ioapic_loop.simps) (auto simp: Let_def)
qed

definition cpu_ids :: "bytes list \<Rightarrow> u32 list" where
  "cpu_ids es = map (\<lambda>e. ucast (e ! 2)) (filter (\<lambda>e. e ! 0 = 0 \<and> field32 e 4 AND 1 \<noteq> 0) es)"

lemma smp_loop_spec: "walk_at m ptr end es \<Longrightarrow> smp_loop m ptr end ids = Some (ids @ cpu_ids es)"
proof (induction es arbitrary: ptr ids)
  case Nil
  then show ?case using walk_Nil [of m ptr "end"] by (subst smp_loop.simps) (simp add: cpu_ids_def)
next
  case (Cons e es)
  note w = walk_Cons [OF Cons.prems]
  have f: "m (ptr + 2) = e ! 2" "rd32 m (ptr + 4) = field32 e 4" if "e ! 0 = 0"
    using that w(8) holds_nth [OF w(7), of 2] rd32_field [OF w(7), of 4] by (simp_all add: entry_ok_def)
  show ?case using w(1-5) f Cons.IH [OF w(6)] by (subst smp_loop.simps) (auto simp: Let_def cpu_ids_def)
qed

definition madt_holds :: "mem \<Rightarrow> acpi \<Rightarrow> bytes list \<Rightarrow> bool" where
  "madt_holds m s es \<longleftrightarrow> madt s \<noteq> 0 \<and> holds m (madt s + 44) (concat es) \<and> list_all entry_ok es \<and>
    holds m (madt s + 4) (le32 (of_nat (44 + length (concat es)))) \<and> 44 + length (concat es) < 2 ^ 32 \<and>
    unat (madt s) + 44 + length (concat es) < 2 ^ 64"

lemma madt_walk:
  assumes "madt_holds m s es"
  shows "walk_at m (madt_entries s) (madt s + madt_length m s) es" "madt s \<noteq> 0" "madt_length m s = of_nat (44 + length (concat es))"
proof -
  have "rd32 m (madt s + 4) = of_nat (44 + length (concat es))" using assms by (intro rd32_le32) (simp add: madt_holds_def)
  then show len: "madt_length m s = of_nat (44 + length (concat es))"
    using assms by (simp only: madt_length_def madt_holds_def widen_of_nat)
  show "madt s \<noteq> 0" using assms by (simp add: madt_holds_def)
  have "unat (madt s + 44) = unat (madt s) + 44" using assms unat_add_of_nat [of "madt s" 44] by (simp add: madt_holds_def)
  then show "walk_at m (madt_entries s) (madt s + madt_length m s) es"
    using assms len by (simp add: walk_at_def madt_entries_def madt_holds_def)
qed

lemma madt_queries:
  assumes "madt_holds m s es"
  shows "acpi_find_gsi_for_irq m s irq = Some (gsi_of es irq)"
    and "acpi_find_madt_ioapic_base m s = Some (case find (\<lambda>e. e ! 0 = 1) es of
      Some e \<Rightarrow> ucast (field32 e 4) OR push_bit 32 (ucast (field32 e 8)) | None \<Rightarrow> 0)"
  using madt_walk(2) [OF assms] gsi_loop_spec [OF madt_walk(1) [OF assms], of irq] ioapic_loop_spec [OF madt_walk(1) [OF assms]]
  by (simp_all add: acpi_find_gsi_for_irq_def acpi_find_madt_ioapic_base_def)


text \<open>A table with one processor, an I/O APIC at \<open>0xFEC00000\<close> and the timer on interrupt 2.\<close>

definition sample_entries :: "bytes list" where
  "sample_entries = [[0, 8, 0, 0, 1, 0, 0, 0], [1, 12, 0, 0, 0, 0, 0xC0, 0xFE, 0, 0, 0, 0], [2, 10, 0, 0, 2, 0, 0, 0, 0, 0]]"

definition memory_of :: "u64 \<Rightarrow> bytes \<Rightarrow> mem" where
  "memory_of base bs p = (if unat (p - base) < length bs then bs ! unat (p - base) else 0)"

lemma holds_memory_of:
  assumes "length bs < 2 ^ 64" and "bs = xs @ ys @ zs"
  shows "holds (memory_of base bs) (base + of_nat (length xs)) ys"
  using assms(2)
proof (induction ys arbitrary: xs)
  case (Cons y ys)
  have "unat (of_nat (length xs) :: u64) = length xs" using assms(1) Cons.prems by (intro unat_of_nat_small) simp
  then have "memory_of base bs (base + of_nat (length xs)) = y" using Cons.prems by (simp add: memory_of_def)
  moreover have "holds (memory_of base bs) (base + of_nat (length (xs @ [y]))) ys" using Cons.IH [of "xs @ [y]"] Cons.prems by simp
  ultimately show ?case by (simp add: add.assoc add.commute add.left_commute)
qed simp

definition sample_table :: bytes where
  "sample_table = replicate 4 0 @ le32 74 @ replicate 36 0 @ concat sample_entries"

definition sample_acpi :: acpi where
  "sample_acpi = \<lparr>mcfg = 0, madt = 0x1000, mapped = []\<rparr>"

lemma sample_madt: "madt_holds (memory_of 0x1000 sample_table) sample_acpi sample_entries"
proof -
  have len: "length sample_table < 2 ^ 64" "length (concat sample_entries) = 30" by (simp_all add: sample_table_def sample_entries_def)
  have "holds (memory_of 0x1000 sample_table) (0x1000 + of_nat (length (replicate 4 0 @ le32 74 @ replicate 36 (0 :: u8)))) (concat sample_entries)"
    by (rule holds_memory_of [OF len(1), where zs = "[]"]) (simp add: sample_table_def)
  moreover have "holds (memory_of 0x1000 sample_table) (0x1000 + of_nat (length (replicate 4 (0 :: u8)))) (le32 74)"
    by (rule holds_memory_of [OF len(1), where zs = "replicate 36 0 @ concat sample_entries"]) (simp add: sample_table_def)
  ultimately show ?thesis using len(2)
    by (simp add: madt_holds_def sample_acpi_def) (simp add: sample_entries_def entry_ok_def)
qed


text \<open>
  The processor count walks as many bytes as the whole table has, starting behind its header: when the 44 bytes after the table look like entries, they are counted as well.
\<close>

lemma smp_counter_overrun:
  assumes "madt_holds m s es" and "holds m (madt_entries s + of_nat (length (concat es))) (concat js)" and "list_all entry_ok js"
    and "length (concat js) = 44" and "unat (madt s) + 88 + length (concat es) < 2 ^ 64"
  shows "acpi_madt_smp_counter m s = Some (of_nat (length (cpu_ids (es @ js))), cpu_ids (es @ js))"
proof -
  have u: "unat (madt_entries s) = unat (madt s) + 44"
    using assms(5) unat_add_of_nat [of "madt s" 44] by (simp add: madt_entries_def)
  have "walk_at m (madt_entries s) (madt_entries s + madt_length m s) (es @ js)"
    using assms(1-4) u assms(5) madt_walk(3) [OF assms(1)] madt_walk(1) [OF assms(1)]
    by (simp add: walk_at_def holds_append add_ac)
  then show ?thesis using smp_loop_spec [of m "madt_entries s" _ "es @ js" "[]"] madt_walk(2) [OF assms(1)]
    by (simp add: acpi_madt_smp_counter_def)
qed

section \<open>The memory map\<close>

text \<open>A tag of the boot information: a memory map with its entries (address, length, type), or another tag with its body.\<close>

datatype mtag = Mmap "(u64 \<times> u64 \<times> u32) list" | Other u32 bytes

fun mmap_entry :: "u64 \<times> u64 \<times> u32 \<Rightarrow> bytes" where
  "mmap_entry (addr, len, type) = le64 addr @ le64 len @ le32 type @ le32 0"

definition pad8 :: "nat \<Rightarrow> nat" where
  "pad8 n = (n + 7) div 8 * 8"

fun tag_size :: "mtag \<Rightarrow> nat" where
  "tag_size (Mmap es) = 16 + 24 * length es"
| "tag_size (Other t body) = 8 + length body"

fun tag_bytes :: "mtag \<Rightarrow> bytes" where
  "tag_bytes (Mmap es) = le32 6 @ le32 (of_nat (16 + 24 * length es)) @ le32 24 @ le32 0 @ concat (map mmap_entry es)"
| "tag_bytes (Other t body) = le32 t @ le32 (of_nat (8 + length body)) @ body @ replicate (pad8 (8 + length body) - (8 + length body)) 0"

fun tag_ok :: "mtag \<Rightarrow> bool" where
  "tag_ok (Mmap es) \<longleftrightarrow> 16 + 24 * length es < 2 ^ 31"
| "tag_ok (Other t body) \<longleftrightarrow> t \<noteq> 0 \<and> t \<noteq> 6 \<and> 8 + length body < 2 ^ 31"

fun tag_memory :: "mtag \<Rightarrow> u64" where
  "tag_memory (Mmap es) = sum_list (map (\<lambda>(addr, len, type). if type = 1 then len else 0) es)"
| "tag_memory (Other t body) = 0"

lemma length_mmap_entry [simp]: "length (mmap_entry e) = 24"
  by (cases e) simp

lemma length_mmap_entries [simp]: "length (concat (map mmap_entry es)) = 24 * length es"
  by (induction es) simp_all

lemma length_tag_bytes: "length (tag_bytes t) = pad8 (tag_size t)"
proof (cases t)
  case (Mmap es)
  have "pad8 (16 + 24 * length es) = 16 + 24 * length es" unfolding pad8_def by presburger
  then show ?thesis using Mmap by simp
next
  case (Other x b)
  have "8 + length b \<le> pad8 (8 + length b)" unfolding pad8_def by presburger
  then show ?thesis using Other by simp
qed

lemma mmap_entries_sum:
  "holds m p (concat (map mmap_entry es)) \<Longrightarrow> unat p + 24 * length es < 2 ^ 64 \<Longrightarrow>
    mmap_entries m p (p + of_nat (24 * length es)) acc = Some (acc + tag_memory (Mmap es))"
proof (induction es arbitrary: p acc)
  case Nil
  then show ?case by (subst mmap_entries.simps) simp
next
  case (Cons e es)
  obtain addr len type where e: "e = (addr, len, type)" by (cases e)
  have h: "holds m p (mmap_entry e)" "holds m (p + 24) (concat (map mmap_entry es))" using Cons.prems(1) by (simp_all add: holds_append)
  have f: "rd64 m (p + 8) = len" "rd32 m (p + 16) = type"
    using h(1) by (simp_all add: e holds_append rd64_le64 rd32_le32 add.commute)
  have u: "unat (p + 24) = unat p + 24" using Cons.prems(2) unat_add_of_nat [of p 24] by simp
  have lt: "p < p + of_nat (24 * length (e # es))"
    using unat_add_of_nat [OF Cons.prems(2)] by (simp add: word_less_nat_alt)
  have "mmap_entries m (p + 24) (p + 24 + of_nat (24 * length es)) a = Some (a + tag_memory (Mmap es))" for a
    using Cons.IH [OF h(2)] Cons.prems(2) u by simp
  then show ?case using lt f by (subst mmap_entries.simps) (simp add: e add_ac)
qed

lemma clear_low3: "(w :: u32) AND NOT 7 = push_bit 3 (drop_bit 3 w)"
proof -
  have "(7 :: u32) = mask 3" by (simp add: mask_eq_exp_minus_1)
  moreover have "w AND NOT (mask 3) = push_bit 3 (drop_bit 3 w)"
    by (rule bit_word_eqI) (auto simp: bit_and_iff bit_not_iff bit_mask_iff bit_push_bit_iff bit_drop_bit_eq simp del: mask_numeral)
  ultimately show ?thesis by (simp only:)
qed

lemma round_up8:
  assumes "n < 2 ^ 31"
  shows "(of_nat n + 7 :: u32) AND NOT 7 = of_nat (pad8 n)"
proof -
  have n7: "(of_nat n + 7 :: u32) = of_nat (n + 7)" by simp
  have p: "pad8 n < 2 ^ 32" using assms by (simp add: pad8_def)
  have u: "unat (of_nat (n + 7) :: u32) = n + 7" using assms by (intro unat_of_nat32) simp
  have "unat (push_bit 3 (drop_bit 3 (of_nat (n + 7) :: u32))) = pad8 n"
    using p by (simp add: unsigned_push_bit_eq unsigned_drop_bit_eq u take_bit_nat_eq_self push_bit_nat_def drop_bit_nat_def pad8_def del: of_nat_add)
  then have "push_bit 3 (drop_bit 3 (of_nat (n + 7) :: u32)) = of_nat (pad8 n)" by (metis of_nat_unat ucast_id)
  then show ?thesis unfolding clear_low3 n7 .
qed

lemma mbi_tags_sum:
  "holds m p (concat (map tag_bytes ts) @ le32 0 @ le32 8) \<Longrightarrow> list_all tag_ok ts \<Longrightarrow>
    unat p + length (concat (map tag_bytes ts)) < unat end \<Longrightarrow>
    mbi_tags m p end acc = Some (acc + sum_list (map tag_memory ts))"
proof (induction ts arbitrary: p acc)
  case Nil
  then have "rd32 m p = 0" "p < end" by (simp_all add: holds_append rd32_le32 word_less_nat_alt)
  then show ?case by (subst mbi_tags.simps) simp
next
  case (Cons t ts)
  have ok: "tag_ok t" "list_all tag_ok ts" using Cons.prems(2) by simp_all
  have small: "tag_size t < 2 ^ 31" using ok(1) by (cases t) simp_all
  have h: "holds m p (tag_bytes t)" "holds m (p + of_nat (pad8 (tag_size t))) (concat (map tag_bytes ts) @ le32 0 @ le32 8)"
    using Cons.prems(1) by (simp_all add: holds_append length_tag_bytes add.assoc)
  have fits: "unat p + pad8 (tag_size t) + length (concat (map tag_bytes ts)) < unat end"
    using Cons.prems(3) by (simp add: length_tag_bytes)
  have bound: "unat end < 2 ^ 64" using unsigned_less [where 'a = nat, of "end"] by simp
  have le: "tag_size t \<le> pad8 (tag_size t)" unfolding pad8_def by presburger
  have size: "rd32 m (p + 4) = of_nat (tag_size t)" and type: "rd32 m p = (case t of Mmap es \<Rightarrow> 6 | Other x b \<Rightarrow> x)"
    using h(1) by (cases t; simp add: holds_append rd32_le32)+
  have step: "ucast ((of_nat (tag_size t) + 7 :: u32) AND NOT 7) = (of_nat (pad8 (tag_size t)) :: u64)"
    unfolding round_up8 [OF small] using small by (intro widen_of_nat) (simp add: pad8_def)
  have next_tag: "mbi_tags m (p + of_nat (pad8 (tag_size t))) end a = Some (a + sum_list (map tag_memory ts))" for a
    using Cons.IH [OF h(2) ok(2)] fits bound by (simp add: unat_add_of_nat)
  have lt: "p < end" using fits by (simp add: word_less_nat_alt)
  have mm: "(if rd32 m p = MULTIBOOT2_TAG_MMAP then mmap_entries m (p + 16) (p + ucast (rd32 m (p + 4))) acc else Some acc) = Some (acc + tag_memory t)"
  proof (cases t)
    case (Mmap es)
    have "(ucast (of_nat (tag_size t) :: u32) :: u64) = of_nat (16 + 24 * length es)"
      using Mmap small widen_of_nat [of "tag_size t"] by simp
    then have e: "p + ucast (rd32 m (p + 4)) = (p + 16) + of_nat (24 * length es)" by (simp add: size add.assoc)
    have "unat (p + 16) = unat p + 16" using fits bound le Mmap unat_add_of_nat [of p 16] by simp
    moreover have "holds m (p + 16) (concat (map mmap_entry es))" using h(1) Mmap by (simp add: holds_append add.assoc)
    ultimately show ?thesis
      using Mmap fits bound le mmap_entries_sum [of m "p + 16" es acc] e type by (simp add: MULTIBOOT2_TAG_MMAP_def add.assoc)
  next
    case (Other x b)
    then show ?thesis using ok type by (simp add: MULTIBOOT2_TAG_MMAP_def)
  qed
  have "rd32 m p \<noteq> 0" using type ok(1) by (cases t) simp_all
  then have "mbi_tags m p end acc =
      Option.bind (if rd32 m p = MULTIBOOT2_TAG_MMAP then mmap_entries m (p + 16) (p + ucast (rd32 m (p + 4))) acc else Some acc)
        (\<lambda>a. mbi_tags m (p + ucast ((rd32 m (p + 4) + 7) AND NOT 7)) end a)"
    using lt by (subst mbi_tags.simps) (simp add: Let_def)
  then show ?case unfolding mm unfolding size step using next_tag by (simp add: add.assoc)
qed

text \<open>
  The size of the physical memory: when the boot information holds the tags \<open>ts\<close>, closed by the end tag, \<open>parse_multiboot2_mmap\<close> returns and has added the lengths of all available regions
  (type 1) of all memory maps among them to the total, and nothing for other tags.
\<close>

lemma memory_map_total:
  assumes "list_all tag_ok ts"
    and "holds m mbi (le32 (of_nat (16 + length (concat (map tag_bytes ts)))) @ le32 0 @ concat (map tag_bytes ts) @ le32 0 @ le32 8)"
    and "16 + length (concat (map tag_bytes ts)) < 2 ^ 32" and "unat mbi + 2 ^ 32 < 2 ^ 64"
  shows "parse_multiboot2_mmap m mbi tot =
    Some (tot + sum_list (map (\<lambda>t. case t of Mmap es \<Rightarrow> sum_list (map (\<lambda>(addr, len, type). if type = 1 then len else 0) es) | Other x b \<Rightarrow> 0) ts))"
proof -
  let ?n = "length (concat (map tag_bytes ts))"
  have "rd32 m mbi = of_nat (16 + ?n)" using assms(2) by (intro rd32_le32) (simp add: holds_append)
  then have e: "mbi + ucast (rd32 m mbi) = mbi + of_nat (16 + ?n)" using assms(3) by (simp only: widen_of_nat)
  have "holds m (mbi + 8) (concat (map tag_bytes ts) @ le32 0 @ le32 8)" using assms(2) by (simp add: holds_append add.assoc)
  moreover have "unat (mbi + 8) = unat mbi + 8" using assms(4) unat_add_of_nat [of mbi 8] by simp
  moreover have "unat (mbi + of_nat (16 + ?n)) = unat mbi + (16 + ?n)" using assms(3,4) by (intro unat_add_of_nat) simp
  ultimately have "parse_multiboot2_mmap m mbi tot = Some (tot + sum_list (map tag_memory ts))"
    unfolding parse_multiboot2_mmap_def e using assms(1) by (intro mbi_tags_sum) simp_all
  moreover have "tag_memory = (\<lambda>t. case t of Mmap es \<Rightarrow> sum_list (map (\<lambda>(addr, len, type). if type = 1 then len else 0) es) | Other x b \<Rightarrow> 0)"
    by (auto simp: fun_eq_iff split: mtag.splits)
  ultimately show ?thesis by (simp only:)
qed

definition sample_tags :: "mtag list" where
  "sample_tags = [Other 1 [0x71, 0], Mmap [(0, 0x9FC00, 1), (0xF0000, 0x10000, 2), (0x100000, 0x7EE0000, 1)]]"

definition sample_mbi :: bytes where
  "sample_mbi = le32 (of_nat (16 + length (concat (map tag_bytes sample_tags)))) @ le32 0 @ concat (map tag_bytes sample_tags) @ le32 0 @ le32 8"

lemma memory_map_total_example:
  "parse_multiboot2_mmap (memory_of 0x9000 sample_mbi) 0x9000 0 = Some 0x7F7FC00"
proof -
  have len: "length (concat (map tag_bytes sample_tags)) = 104" by (simp add: sample_tags_def pad8_def)
  have "length sample_mbi < 2 ^ 64" unfolding sample_mbi_def using len by simp
  from holds_memory_of [OF this, of "[]" sample_mbi "[]" "0x9000"]
  have "holds (memory_of 0x9000 sample_mbi) 0x9000 sample_mbi" by simp
  from memory_map_total [OF _ this [unfolded sample_mbi_def], folded sample_mbi_def, of 0] show ?thesis
    unfolding len by (simp add: sample_tags_def)
qed

end
