(* ===== verification/Irqchip.thy ===== *)
theory Irqchip
  imports Firmware Descriptors
begin

text \<open>
  The interrupt controllers: the pair of 8259 controllers and the interval timer (\<open>src/src/pic.c\<close>), the local APIC (\<open>src/src/lapic.c\<close>) and the I/O APIC (\<open>src/src/ioapic.c\<close>).

  The devices are modelled as their manuals describe them. An 8259 is a state machine that takes the initialisation words in order. The interval timer counts down one per clock from the value loaded last; every
  port access takes \<open>io_delay\<close> clocks, so that polling takes time. The local APIC timer runs \<open>apic_rate\<close> times as fast. The page of the local APIC is reached at its physical
  address and at that address above \<open>KERNEL_BASE\<close>, because the boot page tables (\<open>asm/head.S\<close>) use one table for both halves; an access to a page that is not mapped faults (\<open>None\<close>).

  The lemmas show what the controllers do after they were programmed: which lines are masked and which vectors they raise, that the calibration of the APIC timer ends and how exact
  it is, and where the interrupts of the serial port go.
\<close>

section \<open>The devices\<close>

subsection \<open>The 8259\<close>

datatype icw_phase = Ready | Need_ICW2 | Need_ICW3 | Need_ICW4

record i8259 =
  phase :: icw_phase
  single :: bool
  with_icw4 :: bool
  vec_base :: u8
  cascade :: u8
  mode4 :: u8
  imr :: u8
  isr :: u8

definition i8259_command :: "u8 \<Rightarrow> i8259 \<Rightarrow> i8259" where
  "i8259_command v c =
     (if bit v 4 then c\<lparr>phase := Need_ICW2, single := bit v 1, with_icw4 := bit v 0, imr := 0, isr := 0\<rparr>
      else if bit v 3 then c
      else if drop_bit 5 v = 1 then c\<lparr>isr := isr c AND (isr c - 1)\<rparr>
      else c)"

definition i8259_data :: "u8 \<Rightarrow> i8259 \<Rightarrow> i8259" where
  "i8259_data v c =
     (let last = (if with_icw4 c then Need_ICW4 else Ready)
      in case phase c of
           Ready \<Rightarrow> c\<lparr>imr := v\<rparr>
         | Need_ICW2 \<Rightarrow> c\<lparr>vec_base := v AND 0xF8, phase := (if single c then last else Need_ICW3)\<rparr>
         | Need_ICW3 \<Rightarrow> c\<lparr>cascade := v, phase := last\<rparr>
         | Need_ICW4 \<Rightarrow> c\<lparr>mode4 := v, phase := Ready\<rparr>)"

subsection \<open>The ports and the registers of the local APIC\<close>

record irqchip =
  master :: i8259
  slave :: i8259
  now :: nat
  io_delay :: nat
  pit_mode :: u8
  pit_lo :: "u8 option"
  pit_reload :: u16
  pit_since :: nat
  pit_latch :: u16
  pit_hi :: bool
  lapic_phys :: u64
  lapic_reg :: "u64 \<Rightarrow> u32"
  tic_since :: nat
  apic_rate :: nat
  icr_time :: nat
  icr_busy :: nat
  ipis :: "(u8 \<times> u32) list"
  eois :: nat
  mmio_maps :: "(u64 \<times> u64) list"
  lapic_base :: u32
  lapic_base_virt :: u32
  ticks_per_1ms :: u32
  ticks_per_10ms :: u32

definition pit_count :: "irqchip \<Rightarrow> u16" where
  "pit_count s = pit_reload s - of_nat (now s - pit_since s)"

definition pic_outb :: "u16 \<Rightarrow> u8 \<Rightarrow> irqchip \<Rightarrow> irqchip" where
  "pic_outb port v s =
     (let s = s\<lparr>now := now s + io_delay s\<rparr>
      in if port = 0x20 then s\<lparr>master := i8259_command v (master s)\<rparr>
         else if port = 0x21 then s\<lparr>master := i8259_data v (master s)\<rparr>
         else if port = 0xA0 then s\<lparr>slave := i8259_command v (slave s)\<rparr>
         else if port = 0xA1 then s\<lparr>slave := i8259_data v (slave s)\<rparr>
         else if port = 0x43 \<and> v AND 0xC0 = 0 then
           (if v AND 0x30 = 0 then s\<lparr>pit_latch := pit_count s, pit_hi := False\<rparr>
            else s\<lparr>pit_mode := v, pit_lo := None\<rparr>)
         else if port = 0x40 then
           (case pit_lo s of
              None \<Rightarrow> s\<lparr>pit_lo := Some v\<rparr>
            | Some l \<Rightarrow> s\<lparr>pit_lo := None, pit_reload := ucast l OR push_bit 8 (ucast v), pit_since := now s\<rparr>)
         else s)"

definition pic_inb :: "u16 \<Rightarrow> irqchip \<Rightarrow> u8 \<times> irqchip" where
  "pic_inb port s =
     (let s = s\<lparr>now := now s + io_delay s\<rparr>
      in if port = 0x21 then (imr (master s), s)
         else if port = 0xA1 then (imr (slave s), s)
         else if port = 0x40 then
           (if pit_hi s then (ucast (drop_bit 8 (pit_latch s)), s\<lparr>pit_hi := False\<rparr>) else (ucast (pit_latch s), s\<lparr>pit_hi := True\<rparr>))
         else (0xFF, s))"

definition lapic_offset :: "irqchip \<Rightarrow> u64 \<Rightarrow> u64 option" where
  "lapic_offset s a =
     (if (lapic_phys s, lapic_phys s) \<notin> set (mmio_maps s) then None
      else if a - lapic_phys s < 0x1000 then Some (a - lapic_phys s)
      else if a - (KERNEL_BASE + lapic_phys s) < 0x1000 then Some (a - (KERNEL_BASE + lapic_phys s))
      else None)"

definition apic_count :: "irqchip \<Rightarrow> u32" where
  "apic_count s = of_nat (unat (lapic_reg s 0x380) - apic_rate s * (now s - tic_since s))"

definition mmio_read :: "u64 \<Rightarrow> irqchip \<Rightarrow> (u32 \<times> irqchip) option" where
  "mmio_read a s = do {
     r \<leftarrow> lapic_offset s a;
     Some (if r = 0x390 then (apic_count s, s)
           else if r = 0x300 then (if 0 < icr_busy s then lapic_reg s r OR 0x1000 else lapic_reg s r AND NOT 0x1000, s\<lparr>icr_busy := icr_busy s - 1\<rparr>)
           else (lapic_reg s r, s)) }"

definition mmio_write :: "u64 \<Rightarrow> u32 \<Rightarrow> irqchip \<Rightarrow> irqchip option" where
  "mmio_write a v s = do {
     r \<leftarrow> lapic_offset s a;
     Some (let s = s\<lparr>lapic_reg := (lapic_reg s)(r := v)\<rparr>
           in if r = 0x380 then s\<lparr>tic_since := now s\<rparr>
              else if r = 0xB0 then s\<lparr>eois := eois s + 1\<rparr>
              else if r = 0x300 then s\<lparr>ipis := ipis s @ [(ucast (drop_bit 24 (lapic_reg s 0x310)), v)], icr_busy := icr_time s\<rparr>
              else s) }"

section \<open>The driver of the 8259 and of the interval timer\<close>

definition PIC1_COMMAND :: u16 where "PIC1_COMMAND = 0x20"
definition PIC1_DATA :: u16 where "PIC1_DATA = 0x20 + 1"
definition PIC2_COMMAND :: u16 where "PIC2_COMMAND = 0xA0"
definition PIC2_DATA :: u16 where "PIC2_DATA = 0xA0 + 1"
definition PIC_EOI :: u8 where "PIC_EOI = 0x20"
definition ICW1_ICW4 :: u8 where "ICW1_ICW4 = 0x01"
definition ICW1_INIT :: u8 where "ICW1_INIT = 0x10"
definition ICW4_8086 :: u8 where "ICW4_8086 = 0x01"
definition CASCADE_IRQ :: nat where "CASCADE_IRQ = 2"
definition PIT_COMMAND_PORT :: u16 where "PIT_COMMAND_PORT = 0x43"
definition PIT_CHANNEL0_PORT :: u16 where "PIT_CHANNEL0_PORT = 0x40"
definition PIT_CMD_CH0_MODE2 :: u8 where "PIT_CMD_CH0_MODE2 = 0x34"
definition PIT_DIVISOR :: u32 where "PIT_DIVISOR = 1193182 div 100"

lemmas pic_defs = PIC1_COMMAND_def PIC1_DATA_def PIC2_COMMAND_def PIC2_DATA_def PIC_EOI_def ICW1_ICW4_def ICW1_INIT_def ICW4_8086_def CASCADE_IRQ_def
  PIT_COMMAND_PORT_def PIT_CHANNEL0_PORT_def PIT_CMD_CH0_MODE2_def PIT_DIVISOR_def

definition io_wait :: "irqchip \<Rightarrow> irqchip" where
  "io_wait s = pic_outb 0x80 0 s"

definition pic_timer_init :: "irqchip \<Rightarrow> irqchip" where
  "pic_timer_init s =
     (let s = pic_outb PIT_COMMAND_PORT PIT_CMD_CH0_MODE2 s;
          s = pic_outb PIT_CHANNEL0_PORT (ucast (PIT_DIVISOR AND 0xFF)) s
      in pic_outb PIT_CHANNEL0_PORT (ucast (drop_bit 8 PIT_DIVISOR AND 0xFF)) s)"

definition pic_remap :: "int \<Rightarrow> int \<Rightarrow> irqchip \<Rightarrow> irqchip" where
  "pic_remap offset1 offset2 s =
     (let s = io_wait (pic_outb PIC1_COMMAND (ICW1_INIT OR ICW1_ICW4) s);
          s = io_wait (pic_outb PIC2_COMMAND (ICW1_INIT OR ICW1_ICW4) s);
          s = io_wait (pic_outb PIC1_DATA (of_int offset1) s);
          s = io_wait (pic_outb PIC2_DATA (of_int offset2) s);
          s = io_wait (pic_outb PIC1_DATA (push_bit CASCADE_IRQ 1) s);
          s = io_wait (pic_outb PIC2_DATA 2 s);
          s = io_wait (pic_outb PIC1_DATA ICW4_8086 s);
          s = io_wait (pic_outb PIC2_DATA ICW4_8086 s);
          s = pic_outb PIC1_DATA 0 s
      in pic_outb PIC2_DATA 0 s)"

definition pic_disable :: "irqchip \<Rightarrow> irqchip" where
  "pic_disable s = pic_outb PIC2_DATA 0xff (pic_outb PIC1_DATA 0xff s)"

definition pic_set_mask :: "u8 \<Rightarrow> irqchip \<Rightarrow> irqchip" where
  "pic_set_mask IRQline s =
     (let (port, line) = (if IRQline < 8 then (PIC1_DATA, IRQline) else (PIC2_DATA, IRQline - 8));
          (v, s) = pic_inb port s
      in pic_outb port (v OR push_bit (unat line) 1) s)"

definition pic_clear_mask :: "u8 \<Rightarrow> irqchip \<Rightarrow> irqchip" where
  "pic_clear_mask IRQline s =
     (let (port, line) = (if IRQline < 8 then (PIC1_DATA, IRQline) else (PIC2_DATA, IRQline - 8));
          (v, s) = pic_inb port s
      in pic_outb port (v AND NOT (push_bit (unat line) 1)) s)"

definition pic_sendEOI :: "u8 \<Rightarrow> irqchip \<Rightarrow> irqchip" where
  "pic_sendEOI irq s =
     (let s = (if 8 \<le> irq then pic_outb PIC2_COMMAND PIC_EOI s else s)
      in pic_outb PIC1_COMMAND PIC_EOI s)"

definition pit_prepare_sleep_10ms :: "irqchip \<Rightarrow> irqchip" where
  "pit_prepare_sleep_10ms s =
     (let count = (11932 :: u16);
          s = pic_outb 0x43 0x30 s;
          s = pic_outb 0x40 (ucast (count AND 0xFF)) s
      in pic_outb 0x40 (ucast (drop_bit 8 count AND 0xFF)) s)"

partial_function (option) pit_wait_10ms :: "irqchip \<Rightarrow> irqchip option" where
  "pit_wait_10ms s =
     (let s = pic_outb 0x43 0x00 s;
          (low, s) = pic_inb 0x40 s;
          (high, s) = pic_inb 0x40 s
      in if high = 0 \<and> low \<le> 1 then Some s
         else if 0x30 < high then Some s
         else pit_wait_10ms s)"

section \<open>The driver of the local APIC\<close>

definition LAPIC_TPR :: u32 where "LAPIC_TPR = 0x0080"
definition LAPIC_EOI :: u32 where "LAPIC_EOI = 0x00B0"
definition LAPIC_SVR :: u32 where "LAPIC_SVR = 0x00F0"
definition LAPIC_ESR :: u32 where "LAPIC_ESR = 0x0280"
definition LAPIC_LVT_TMR :: u32 where "LAPIC_LVT_TMR = 0x0320"
definition LAPIC_LVT_LINT0 :: u32 where "LAPIC_LVT_LINT0 = 0x0350"
definition LAPIC_LVT_LINT1 :: u32 where "LAPIC_LVT_LINT1 = 0x0360"
definition LAPIC_LVT_ERR :: u32 where "LAPIC_LVT_ERR = 0x0370"
definition LAPIC_TICFG :: u32 where "LAPIC_TICFG = 0x03E0"
definition LAPIC_TDCR :: u32 where "LAPIC_TDCR = 0x03E0"
definition LAPIC_TIC :: u32 where "LAPIC_TIC = 0x0380"
definition LAPIC_TCC :: u32 where "LAPIC_TCC = 0x0390"
definition ICR_INIT :: u32 where "ICR_INIT = 0x00000500"
definition ICR_SIPI :: u32 where "ICR_SIPI = 0x00000600"
definition ICR_LEVEL_ASSERT :: u32 where "ICR_LEVEL_ASSERT = 0x00004000"
definition ICR_PHYSICAL :: u32 where "ICR_PHYSICAL = 0x00000000"
definition X86_APIC_ERROR_VECTOR :: u32 where "X86_APIC_ERROR_VECTOR = 0xEE"

lemmas lapic_defs = LAPIC_TPR_def LAPIC_EOI_def LAPIC_SVR_def LAPIC_ESR_def LAPIC_LVT_TMR_def LAPIC_LVT_LINT0_def LAPIC_LVT_LINT1_def LAPIC_LVT_ERR_def
  LAPIC_TICFG_def LAPIC_TDCR_def LAPIC_TIC_def LAPIC_TCC_def ICR_INIT_def ICR_SIPI_def ICR_LEVEL_ASSERT_def ICR_PHYSICAL_def X86_APIC_ERROR_VECTOR_def X86_APIC_TIMER_VECTOR_def

definition lapic_read :: "u32 \<Rightarrow> irqchip \<Rightarrow> (u32 \<times> irqchip) option" where
  "lapic_read reg s = mmio_read (KERNEL_BASE + ucast (lapic_base s) + ucast reg) s"

definition lapic_write :: "u32 \<Rightarrow> u32 \<Rightarrow> irqchip \<Rightarrow> irqchip option" where
  "lapic_write reg data s = mmio_write (KERNEL_BASE + ucast (lapic_base s) + ucast reg) data s"

partial_function (option) lapic_wait_ipi :: "irqchip \<Rightarrow> irqchip option" where
  "lapic_wait_ipi s = do {
     (icr_lo, s) \<leftarrow> mmio_read (ucast (lapic_base_virt s + 0x300)) s;
     if icr_lo AND 0x1000 \<noteq> 0 then lapic_wait_ipi s else Some s }"

definition lapic_send_init :: "u8 \<Rightarrow> irqchip \<Rightarrow> irqchip option" where
  "lapic_send_init apic_id s = do {
     s \<leftarrow> mmio_write (ucast (lapic_base_virt s + 0x310)) (push_bit 24 (ucast apic_id)) s;
     s \<leftarrow> mmio_write (ucast (lapic_base_virt s + 0x300)) (ICR_INIT OR ICR_LEVEL_ASSERT OR ICR_PHYSICAL) s;
     lapic_wait_ipi s }"

definition lapic_send_sipi :: "u8 \<Rightarrow> u8 \<Rightarrow> irqchip \<Rightarrow> irqchip option" where
  "lapic_send_sipi apic_id vec s = do {
     s \<leftarrow> mmio_write (ucast (lapic_base_virt s + 0x310)) (push_bit 24 (ucast apic_id)) s;
     s \<leftarrow> mmio_write (ucast (lapic_base_virt s + 0x300)) (ICR_SIPI OR ucast vec) s;
     lapic_wait_ipi s }"

definition lapic_calibrate :: "irqchip \<Rightarrow> irqchip option" where
  "lapic_calibrate s = do {
     s \<leftarrow> lapic_write LAPIC_TDCR 0x3 s;
     let s = pit_prepare_sleep_10ms s;
     s \<leftarrow> lapic_write LAPIC_TIC 0xFFFFFFFF s;
     s \<leftarrow> pit_wait_10ms s;
     (current_tick, s) \<leftarrow> lapic_read LAPIC_TCC s;
     s \<leftarrow> lapic_write LAPIC_LVT_TMR 0x10000 s;
     let s = s\<lparr>ticks_per_10ms := 0xFFFFFFFF - current_tick\<rparr>;
     Some (s\<lparr>ticks_per_1ms := ticks_per_10ms s div 10\<rparr>) }"

definition ap_lapic_init :: "irqchip \<Rightarrow> irqchip option" where
  "ap_lapic_init s = do {
     s \<leftarrow> lapic_write LAPIC_SVR 0x1FF s;
     s \<leftarrow> lapic_write LAPIC_TICFG 0x3 s;
     s \<leftarrow> lapic_write LAPIC_LVT_TMR (0x20000 OR of_nat X86_APIC_TIMER_VECTOR) s;
     s \<leftarrow> lapic_write LAPIC_TIC (ticks_per_1ms s) s;
     s \<leftarrow> lapic_write LAPIC_LVT_LINT0 0x10000 s;
     s \<leftarrow> lapic_write LAPIC_LVT_LINT1 0x10000 s;
     s \<leftarrow> lapic_write LAPIC_LVT_ERR X86_APIC_ERROR_VECTOR s;
     s \<leftarrow> lapic_write LAPIC_ESR 0 s;
     s \<leftarrow> lapic_write LAPIC_ESR 0 s;
     s \<leftarrow> lapic_write LAPIC_EOI 0 s;
     lapic_write LAPIC_TPR 0 s }"

definition lapic_init :: "mem \<Rightarrow> acpi \<Rightarrow> irqchip \<Rightarrow> irqchip option" where
  "lapic_init m tables s = do {
     base \<leftarrow> acpi_find_madt_lapic_base m tables;
     let s = s\<lparr>lapic_base := ucast base\<rparr>;
     let s = s\<lparr>lapic_base_virt := ucast (KERNEL_BASE + ucast (lapic_base s))\<rparr>;
     let s = s\<lparr>mmio_maps := mmio_maps s @ [(ucast (lapic_base s), ucast (lapic_base_virt s))]\<rparr>;
     s \<leftarrow> lapic_write LAPIC_SVR 0x1FF s;
     s \<leftarrow> lapic_calibrate s;
     let s = pic_disable s;
     s \<leftarrow> lapic_write LAPIC_TICFG 0x3 s;
     s \<leftarrow> lapic_write LAPIC_LVT_TMR (0x20000 OR of_nat X86_APIC_TIMER_VECTOR) s;
     s \<leftarrow> lapic_write LAPIC_TIC (ticks_per_1ms s) s;
     s \<leftarrow> lapic_write LAPIC_LVT_LINT0 0x10000 s;
     s \<leftarrow> lapic_write LAPIC_LVT_LINT1 0x10000 s;
     s \<leftarrow> lapic_write LAPIC_LVT_ERR X86_APIC_ERROR_VECTOR s;
     s \<leftarrow> lapic_write LAPIC_ESR 0 s;
     s \<leftarrow> lapic_write LAPIC_ESR 0 s;
     s \<leftarrow> lapic_write LAPIC_EOI 0 s;
     lapic_write LAPIC_TPR 0 s }"

definition lapic_send_eoi :: "irqchip \<Rightarrow> irqchip option" where
  "lapic_send_eoi s = lapic_write LAPIC_EOI 0 s"

section \<open>The I/O APIC\<close>

subsection \<open>The device\<close>

text \<open>
  The registers are reached through a selector and a data window. Version and arbitration registers cannot be written, nor can the delivery status (bit 12) and the remote interrupt
  request (bit 14) in the low word of a redirection entry. The two windows answer on the page at \<open>io_phys\<close>.
\<close>

record ioapic =
  ioapic_base :: u64
  io_phys :: u64
  io_maps :: "(u64 \<times> u64) list"
  ioregsel :: u8
  ioregs :: "u8 \<Rightarrow> u32"

definition io_select :: "u32 \<Rightarrow> ioapic \<Rightarrow> ioapic option" where
  "io_select v s = (if (io_phys s, ioapic_base s) \<in> set (io_maps s) then Some (s\<lparr>ioregsel := ucast v\<rparr>) else None)"

definition io_win_read :: "ioapic \<Rightarrow> u32 option" where
  "io_win_read s = (if (io_phys s, ioapic_base s) \<in> set (io_maps s) then Some (ioregs s (ioregsel s)) else None)"

definition io_win_write :: "u32 \<Rightarrow> ioapic \<Rightarrow> ioapic option" where
  "io_win_write v s =
     (if (io_phys s, ioapic_base s) \<in> set (io_maps s) then
        let r = ioregsel s; old = ioregs s r
        in Some (if r = 1 \<or> r = 2 then s
                 else if 0x10 \<le> r \<and> \<not> bit r 0 then s\<lparr>ioregs := (ioregs s)(r := (old AND 0x5000) OR (v AND NOT 0x5000))\<rparr>
                 else s\<lparr>ioregs := (ioregs s)(r := v)\<rparr>)
      else None)"

subsection \<open>The driver\<close>

definition IOAPIC_REG_VER :: u8 where "IOAPIC_REG_VER = 0x01"
definition IOAPIC_REG_REDTBL :: u32 where "IOAPIC_REG_REDTBL = 0x10"
definition RTE_DELIVERY_FIXED :: u64 where "RTE_DELIVERY_FIXED = push_bit 8 0"
definition RTE_DEST_PHYSICAL :: u64 where "RTE_DEST_PHYSICAL = push_bit 11 0"
definition RTE_ACTIVE_HIGH :: u64 where "RTE_ACTIVE_HIGH = push_bit 13 0"
definition RTE_EDGE_TRIGGERED :: u64 where "RTE_EDGE_TRIGGERED = push_bit 15 0"
definition RTE_MASKED :: u64 where "RTE_MASKED = push_bit 16 1"
definition RTE_DEST_SHIFT :: nat where "RTE_DEST_SHIFT = 56"

lemmas rte_defs = IOAPIC_REG_VER_def IOAPIC_REG_REDTBL_def RTE_DELIVERY_FIXED_def RTE_DEST_PHYSICAL_def RTE_ACTIVE_HIGH_def RTE_EDGE_TRIGGERED_def RTE_MASKED_def RTE_DEST_SHIFT_def

definition ioapic_write :: "u8 \<Rightarrow> u32 \<Rightarrow> ioapic \<Rightarrow> ioapic option" where
  "ioapic_write reg v s = do {
     s \<leftarrow> io_select (ucast reg) s;
     io_win_write v s }"

definition ioapic_read :: "u8 \<Rightarrow> ioapic \<Rightarrow> (u32 \<times> ioapic) option" where
  "ioapic_read reg s = do {
     s \<leftarrow> io_select (ucast reg) s;
     v \<leftarrow> io_win_read s;
     Some (v, s) }"

definition ioapic_rte_read :: "u8 \<Rightarrow> ioapic \<Rightarrow> (u64 \<times> ioapic) option" where
  "ioapic_rte_read entry s = do {
     (lo, s) \<leftarrow> ioapic_read (ucast (IOAPIC_REG_REDTBL + ucast entry * 2)) s;
     (hi, s) \<leftarrow> ioapic_read (ucast (IOAPIC_REG_REDTBL + ucast entry * 2 + 1)) s;
     Some (push_bit 32 (ucast hi) OR ucast lo, s) }"

definition ioapic_rte_write :: "u8 \<Rightarrow> u64 \<Rightarrow> ioapic \<Rightarrow> ioapic option" where
  "ioapic_rte_write entry rte s = do {
     s \<leftarrow> ioapic_write (ucast (IOAPIC_REG_REDTBL + ucast entry * 2 + 1)) (ucast (drop_bit 32 rte)) s;
     ioapic_write (ucast (IOAPIC_REG_REDTBL + ucast entry * 2)) (ucast rte) s }"

definition ioapic_enable_irq :: "u8 \<Rightarrow> u8 \<Rightarrow> u8 \<Rightarrow> u64 \<Rightarrow> ioapic \<Rightarrow> ioapic option" where
  "ioapic_enable_irq irq vec dest_apic_id flags s =
     (let rte = ucast vec OR RTE_DELIVERY_FIXED OR RTE_DEST_PHYSICAL OR flags OR push_bit RTE_DEST_SHIFT (ucast dest_apic_id)
      in ioapic_rte_write irq rte s)"

definition ioapic_disable_irq :: "u8 \<Rightarrow> ioapic \<Rightarrow> ioapic option" where
  "ioapic_disable_irq irq s = do {
     (rte, s) \<leftarrow> ioapic_rte_read irq s;
     ioapic_rte_write irq (rte OR RTE_MASKED) s }"

primrec mask_entries :: "nat \<Rightarrow> ioapic \<Rightarrow> ioapic option" where
  "mask_entries 0 s = Some s"
| "mask_entries (Suc n) s = do {
     s \<leftarrow> mask_entries n s;
     ioapic_rte_write (of_nat n) RTE_MASKED s }"

definition ioapic_init :: "mem \<Rightarrow> acpi \<Rightarrow> u32 \<Rightarrow> ioapic \<Rightarrow> ioapic option" where
  "ioapic_init m tables curr_lapic_id s = do {
     base \<leftarrow> acpi_find_madt_ioapic_base m tables;
     let s = s\<lparr>io_maps := io_maps s @ [(base, base + KERNEL_BASE)], ioapic_base := base + KERNEL_BASE\<rparr>;
     (ver, s) \<leftarrow> ioapic_read IOAPIC_REG_VER s;
     let max_entry = (ucast (drop_bit 16 ver AND 0xff) :: u8);
     s \<leftarrow> mask_entries (unat max_entry) s;
     com1_gsi \<leftarrow> acpi_find_gsi_for_irq m tables 4;
     ioapic_enable_irq (ucast com1_gsi) (of_nat X86_IRQ_COM1) (ucast curr_lapic_id) (RTE_EDGE_TRIGGERED OR RTE_ACTIVE_HIGH) s }"

section \<open>The 8259 pair\<close>

text \<open>Line \<open>irq\<close> of the sixteen is masked; the vector it raises.\<close>

definition pic_masked :: "irqchip \<Rightarrow> nat \<Rightarrow> bool" where
  "pic_masked s irq \<longleftrightarrow> (if irq < 8 then bit (imr (master s)) irq else bit (imr (slave s)) (irq - 8))"

definition pic_vector :: "irqchip \<Rightarrow> nat \<Rightarrow> u8" where
  "pic_vector s irq = (if irq < 8 then vec_base (master s) + of_nat irq else vec_base (slave s) + of_nat (irq - 8))"

definition pic_ready :: "irqchip \<Rightarrow> bool" where
  "pic_ready s \<longleftrightarrow> phase (master s) = Ready \<and> phase (slave s) = Ready"

lemma pic_ports:
  "master (pic_outb 0x20 v s) = i8259_command v (master s)" "slave (pic_outb 0x20 v s) = slave s"
  "master (pic_outb 0x21 v s) = i8259_data v (master s)" "slave (pic_outb 0x21 v s) = slave s"
  "master (pic_outb 0xA0 v s) = master s" "slave (pic_outb 0xA0 v s) = i8259_command v (slave s)"
  "master (pic_outb 0xA1 v s) = master s" "slave (pic_outb 0xA1 v s) = i8259_data v (slave s)"
  "master (io_wait s) = master s" "slave (io_wait s) = slave s"
  by (simp_all add: pic_outb_def io_wait_def Let_def)

lemma i8259_words:
  "i8259_command 0x11 c = c\<lparr>phase := Need_ICW2, single := False, with_icw4 := True, imr := 0, isr := 0\<rparr>"
  by (simp add: i8259_command_def)

lemma pic_remap_chips:
  "master (pic_remap a b s) = \<lparr>phase = Ready, single = False, with_icw4 = True, vec_base = of_int a AND 0xF8, cascade = 4, mode4 = 1, imr = 0, isr = 0\<rparr>"
  "slave (pic_remap a b s) = \<lparr>phase = Ready, single = False, with_icw4 = True, vec_base = of_int b AND 0xF8, cascade = 2, mode4 = 1, imr = 0, isr = 0\<rparr>"
  by (simp_all add: pic_remap_def pic_defs pic_ports i8259_words i8259_data_def)

lemma read_mask:
  "pic_inb 0x21 s = (imr (master s), s\<lparr>now := now s + io_delay s\<rparr>)" "pic_inb 0xA1 s = (imr (slave s), s\<lparr>now := now s + io_delay s\<rparr>)"
  by (simp_all add: pic_inb_def Let_def)

lemma pic_mask_imr:
  assumes "pic_ready s" and "irq < 16"
  shows "pic_ready (pic_set_mask (of_nat irq) s)" "pic_ready (pic_clear_mask (of_nat irq) s)"
    "imr (master (pic_set_mask (of_nat irq) s)) = (if irq < 8 then imr (master s) OR push_bit irq 1 else imr (master s))"
    "imr (slave (pic_set_mask (of_nat irq) s)) = (if irq < 8 then imr (slave s) else imr (slave s) OR push_bit (irq - 8) 1)"
    "imr (master (pic_clear_mask (of_nat irq) s)) = (if irq < 8 then imr (master s) AND NOT (push_bit irq 1) else imr (master s))"
    "imr (slave (pic_clear_mask (of_nat irq) s)) = (if irq < 8 then imr (slave s) else imr (slave s) AND NOT (push_bit (irq - 8) 1))"
proof -
  have u: "unat (of_nat irq :: u8) = irq" using assms(2) by (simp add: unsigned_of_nat take_bit_nat_eq_self)
  have lt: "(of_nat irq :: u8) < 8 \<longleftrightarrow> irq < 8" using u by (simp add: word_less_nat_alt)
  have m: "unat ((of_nat irq :: u8) - 8) = irq - 8" if "\<not> irq < 8"
    using that u by (simp add: unat_sub word_le_nat_alt)
  note d = pic_set_mask_def pic_clear_mask_def pic_defs pic_ports read_mask i8259_data_def pic_ready_def lt u
  show "pic_ready (pic_set_mask (of_nat irq) s)" "pic_ready (pic_clear_mask (of_nat irq) s)"
    "imr (master (pic_set_mask (of_nat irq) s)) = (if irq < 8 then imr (master s) OR push_bit irq 1 else imr (master s))"
    "imr (slave (pic_set_mask (of_nat irq) s)) = (if irq < 8 then imr (slave s) else imr (slave s) OR push_bit (irq - 8) 1)"
    "imr (master (pic_clear_mask (of_nat irq) s)) = (if irq < 8 then imr (master s) AND NOT (push_bit irq 1) else imr (master s))"
    "imr (slave (pic_clear_mask (of_nat irq) s)) = (if irq < 8 then imr (slave s) else imr (slave s) AND NOT (push_bit (irq - 8) 1))"
    using assms(1) m by (simp_all add: d)
qed

lemma pic_mask_line:
  assumes "pic_ready s" and "irq < 16" and "j < 16"
  shows "pic_masked (pic_set_mask (of_nat irq) s) j \<longleftrightarrow> j = irq \<or> pic_masked s j"
    "pic_masked (pic_clear_mask (of_nat irq) s) j \<longleftrightarrow> j \<noteq> irq \<and> pic_masked s j"
  using assms(2,3) by (auto simp: pic_masked_def pic_mask_imr [OF assms(1,2)] bit_or_iff bit_and_iff bit_not_iff bit_2_pow_word)

text \<open>What a sequence of calls does to the set of masked lines.\<close>

datatype pic_op = Set_mask nat | Clear_mask nat | Disable | EOI nat

fun pic_do :: "pic_op \<Rightarrow> irqchip \<Rightarrow> irqchip" where
  "pic_do (Set_mask irq) s = pic_set_mask (of_nat irq) s"
| "pic_do (Clear_mask irq) s = pic_clear_mask (of_nat irq) s"
| "pic_do Disable s = pic_disable s"
| "pic_do (EOI irq) s = pic_sendEOI (of_nat irq) s"

fun pic_spec :: "pic_op \<Rightarrow> nat set \<Rightarrow> nat set" where
  "pic_spec (Set_mask irq) M = insert irq M"
| "pic_spec (Clear_mask irq) M = M - {irq}"
| "pic_spec Disable M = {0..<16}"
| "pic_spec (EOI irq) M = M"

fun pic_op_ok :: "pic_op \<Rightarrow> bool" where
  "pic_op_ok (Set_mask irq) \<longleftrightarrow> irq < 16"
| "pic_op_ok (Clear_mask irq) \<longleftrightarrow> irq < 16"
| "pic_op_ok Disable \<longleftrightarrow> True"
| "pic_op_ok (EOI irq) \<longleftrightarrow> irq < 16"

definition pic_abs :: "irqchip \<Rightarrow> nat set" where
  "pic_abs s = {j. j < 16 \<and> pic_masked s j}"

lemma i8259_mask:
  "phase c = Ready \<Longrightarrow> i8259_data v c = c\<lparr>imr := v\<rparr>"
  "i8259_command 0x20 c = c\<lparr>isr := isr c AND (isr c - 1)\<rparr>"
  by (simp_all add: i8259_data_def i8259_command_def)

lemma vec_base_frame: "phase c = Ready \<Longrightarrow> vec_base (i8259_data v c) = vec_base c"
  by (simp add: i8259_data_def)

lemma pic_do_spec:
  assumes "pic_ready s" and "pic_op_ok x"
  shows "pic_ready (pic_do x s)" "pic_abs (pic_do x s) = pic_spec x (pic_abs s)" "pic_vector (pic_do x s) = pic_vector s"
proof -
  have ones: "bit (0xFF :: u8) j" if "j < 8" for j using that max_word_bits [of "0xFF :: u8"] by simp
  show "pic_ready (pic_do x s)" "pic_vector (pic_do x s) = pic_vector s"
    using assms by (cases x; auto simp: pic_mask_imr fun_eq_iff pic_vector_def pic_ready_def pic_disable_def pic_sendEOI_def pic_set_mask_def pic_clear_mask_def
        pic_defs pic_ports i8259_mask read_mask)+
  show "pic_abs (pic_do x s) = pic_spec x (pic_abs s)"
  proof (cases x)
    case Disable
    then show ?thesis using assms(1) ones by (auto simp: pic_abs_def pic_masked_def pic_disable_def pic_defs pic_ports i8259_mask pic_ready_def)
  next
    case (EOI irq)
    then show ?thesis by (auto simp: pic_abs_def pic_masked_def pic_sendEOI_def pic_defs pic_ports i8259_mask)
  qed (use assms pic_mask_line in \<open>auto simp: pic_abs_def\<close>)
qed

lemma pic_run_spec:
  "pic_ready s \<Longrightarrow> list_all pic_op_ok ops \<Longrightarrow> pic_ready (fold pic_do ops s) \<and> pic_abs (fold pic_do ops s) = fold pic_spec ops (pic_abs s) \<and>
    pic_vector (fold pic_do ops s) = pic_vector s"
  by (induction ops arbitrary: s) (simp_all add: pic_do_spec)

text \<open>
  C31: The 8259 pair implements a set of masked lines: after \<open>pic_remap(0x20, 0x28)\<close>, as \<open>start_kernel\<close> calls it, no line is masked, and after any sequence of \<open>pic_set_mask\<close>,
  \<open>pic_clear_mask\<close>, \<open>pic_disable\<close> and \<open>pic_sendEOI\<close> on the sixteen lines exactly those lines are masked that the sequence masked last; line \<open>irq\<close> raises the vector \<open>0x20 + irq\<close> all the time.
\<close>

theorem pic_mask_refines:
  assumes "list_all pic_op_ok ops"
  shows "{j. j < 16 \<and> pic_masked (fold pic_do ops (pic_remap 0x20 0x28 s)) j} = fold pic_spec ops {} \<and>
    (\<forall>irq < 16. pic_vector (fold pic_do ops (pic_remap 0x20 0x28 s)) irq = 0x20 + of_nat irq)"
proof -
  let ?r = "pic_remap 0x20 0x28 s"
  have "pic_ready ?r" "pic_abs ?r = {}" by (auto simp: pic_ready_def pic_abs_def pic_masked_def pic_remap_chips)
  moreover have "pic_vector ?r irq = 0x20 + of_nat irq" if "irq < 16" for irq
    using that by (simp add: pic_vector_def pic_remap_chips of_nat_diff)
  ultimately show ?thesis using pic_run_spec [OF _ assms, of ?r] unfolding pic_abs_def [symmetric] by simp
qed

definition idle_8259 :: i8259 where
  "idle_8259 = \<lparr>phase = Ready, single = False, with_icw4 = True, vec_base = 8, cascade = 4, mode4 = 1, imr = 0xB8, isr = 0\<rparr>"

definition idle_chip :: irqchip where
  "idle_chip = \<lparr>master = idle_8259, slave = idle_8259, now = 0, io_delay = 2, pit_mode = 0, pit_lo = None, pit_reload = 0, pit_since = 0, pit_latch = 0, pit_hi = False,
     lapic_phys = 0xFEE00000, lapic_reg = (\<lambda>_. 0), tic_since = 0, apic_rate = 52, icr_time = 3, icr_busy = 0, ipis = [], eois = 0, mmio_maps = [],
     lapic_base = 0, lapic_base_virt = 0, ticks_per_1ms = 0, ticks_per_10ms = 0\<rparr>"

theorem pic_mask_refines_witness:
  "{j. j < 16 \<and> pic_masked (fold pic_do [Set_mask 3, Set_mask 12, EOI 9, Clear_mask 3] (pic_remap 0x20 0x28 idle_chip)) j} = {12}"
  using pic_mask_refines [of "[Set_mask 3, Set_mask 12, EOI 9, Clear_mask 3]" idle_chip] by auto

section \<open>The local APIC\<close>

text \<open>The page of the local APIC is mapped where the driver expects it.\<close>

definition lapic_ok :: "irqchip \<Rightarrow> bool" where
  "lapic_ok s \<longleftrightarrow> lapic_phys s = ucast (lapic_base s) \<and> lapic_base_virt s = lapic_base s \<and> (ucast (lapic_base s), ucast (lapic_base s)) \<in> set (mmio_maps s) \<and>
    lapic_base s \<le> 0xFFFFF000"

lemma lapic_offsets:
  assumes "lapic_ok s" and "r < 0x1000"
  shows "lapic_offset s (KERNEL_BASE + ucast (lapic_base s) + ucast (r :: u32)) = Some (ucast r)"
    "lapic_offset s (ucast (lapic_base_virt s + r)) = Some (ucast r)"
proof -
  have small: "unat r < 0x1000" using assms(2) by (simp add: word_less_nat_alt)
  then have "unat (ucast r :: u64) = unat r" by (simp add: unsigned_ucast_eq take_bit_nat_eq_self)
  then have r: "(ucast r :: u64) < 0x1000" "unat r < 0x1000" using small by (simp_all add: word_less_nat_alt)
  have "\<not> KERNEL_BASE + (ucast r :: u64) < 0x1000"
  proof -
    have "unat (KERNEL_BASE + (ucast r :: u64)) = unat KERNEL_BASE + unat r"
      using r unat_add_of_nat [of KERNEL_BASE "unat r"] by (simp add: KERNEL_BASE_def)
    then show ?thesis by (simp add: word_less_nat_alt KERNEL_BASE_def)
  qed
  then show "lapic_offset s (KERNEL_BASE + ucast (lapic_base s) + ucast r) = Some (ucast r)"
    using assms r by (auto simp: lapic_offset_def lapic_ok_def algebra_simps)
  have "unat (lapic_base s + r) = unat (lapic_base s) + unat r"
    using assms r by (subst unat_add_lem [symmetric]) (simp add: lapic_ok_def word_le_nat_alt)
  then have "(ucast (lapic_base s + r) :: u64) = ucast (lapic_base s) + ucast r"
    by (metis of_nat_add of_nat_unat)
  then show "lapic_offset s (ucast (lapic_base_virt s + r)) = Some (ucast r)"
    using assms r by (auto simp: lapic_offset_def lapic_ok_def)
qed

text \<open>The registers as the driver accesses them; only time and registers matter here.\<close>

definition reg_upd :: "u32 \<Rightarrow> u32 \<Rightarrow> irqchip \<Rightarrow> irqchip" where
  "reg_upd reg v s =
     (let s = s\<lparr>lapic_reg := (lapic_reg s)(ucast reg := v)\<rparr>
      in if reg = LAPIC_TIC then s\<lparr>tic_since := now s\<rparr>
         else if reg = LAPIC_EOI then s\<lparr>eois := eois s + 1\<rparr> else s)"

lemma lapic_write_ok:
  assumes "lapic_ok s" and "reg < 0x1000" and "reg \<noteq> 0x300"
  shows "lapic_write reg v s = Some (reg_upd reg v s)"
proof -
  have "(ucast (ucast c :: u64) :: u32) = c" for c :: u32 by (rule bit_word_eqI) (simp add: bit_unsigned_iff)
  then have inj: "(ucast reg :: u64) = ucast c \<longleftrightarrow> reg = c" for c :: u32 by metis
  show ?thesis
    using assms(3) inj [of "0x380"] inj [of "0xB0"] inj [of "0x300"]
    by (simp add: lapic_write_def mmio_write_def lapic_offsets [OF assms(1,2)] reg_upd_def Let_def lapic_defs)
qed

lemma lapic_regs:
  "r \<in> {LAPIC_TPR, LAPIC_EOI, LAPIC_SVR, LAPIC_ESR, LAPIC_LVT_TMR, LAPIC_LVT_LINT0, LAPIC_LVT_LINT1, LAPIC_LVT_ERR, LAPIC_TICFG, LAPIC_TDCR, LAPIC_TIC} \<Longrightarrow>
    r < 0x1000 \<and> r \<noteq> 0x300"
  by (auto simp: lapic_defs)

lemma lapic_read_tcc: "lapic_ok s \<Longrightarrow> lapic_read LAPIC_TCC s = Some (apic_count s, s)"
  using lapic_offsets(1) [of s LAPIC_TCC] by (simp add: lapic_read_def mmio_read_def lapic_defs)

lemma lapic_ok_frame:
  "lapic_ok (reg_upd reg v s) = lapic_ok s" "lapic_ok (pic_outb p w s) = lapic_ok s" "lapic_ok (snd (pic_inb p s)) = lapic_ok s"
  by (simp_all add: lapic_ok_def reg_upd_def pic_outb_def pic_inb_def Let_def split: option.splits)

lemma reg_upd_frame:
  "ticks_per_1ms (reg_upd reg v s) = ticks_per_1ms s" "ticks_per_10ms (reg_upd reg v s) = ticks_per_10ms s" "master (reg_upd reg v s) = master s" "slave (reg_upd reg v s) = slave s"
  by (simp_all add: reg_upd_def Let_def)

subsection \<open>Waiting for the interval timer\<close>

definition pit_elapsed :: "irqchip \<Rightarrow> nat" where
  "pit_elapsed s = now s - pit_since s"

definition pit_poll :: "irqchip \<Rightarrow> irqchip" where
  "pit_poll s = (let c = pit_reload s - of_nat (now s + io_delay s - pit_since s)
     in s\<lparr>pit_latch := c, now := now s + io_delay s + io_delay s + io_delay s, pit_hi := False\<rparr>)"

lemma pit_ports:
  "pic_outb 0x43 0 s = (let s = s\<lparr>now := now s + io_delay s\<rparr> in s\<lparr>pit_latch := pit_count s, pit_hi := False\<rparr>)"
  "\<not> pit_hi s \<Longrightarrow> pic_inb 0x40 s = (ucast (pit_latch s), s\<lparr>now := now s + io_delay s, pit_hi := True\<rparr>)"
  "pit_hi s \<Longrightarrow> pic_inb 0x40 s = (ucast (drop_bit 8 (pit_latch s)), s\<lparr>now := now s + io_delay s, pit_hi := False\<rparr>)"
  by (simp_all add: pic_outb_def pic_inb_def Let_def)

lemma pit_bytes:
  fixes c :: u16
  shows "(ucast (drop_bit 8 c) :: u8) = 0 \<and> (ucast c :: u8) \<le> 1 \<longleftrightarrow> unat c \<le> 1" "0x30 < (ucast (drop_bit 8 c) :: u8) \<longleftrightarrow> 0x30FF < unat c"
proof -
  have c: "unat c < 65536" using unsigned_less [where 'a = nat, of c] by simp
  have "unat (ucast (drop_bit 8 c) :: u8) = unat c div 256 mod 256"
    by (simp add: unsigned_ucast_eq take_bit_eq_mod drop_bit_eq_div unat_div)
  moreover have "unat c div 256 < 256" using c by (simp add: less_mult_imp_div_less)
  ultimately have hi: "unat (ucast (drop_bit 8 c) :: u8) = unat c div 256" by simp
  have lo: "unat (ucast c :: u8) = unat c mod 256" by (simp add: unsigned_ucast_eq take_bit_eq_mod)
  have "(ucast (drop_bit 8 c) :: u8) = 0 \<longleftrightarrow> unat c div 256 = 0" using hi by (metis unat_eq_0)
  then show "(ucast (drop_bit 8 c) :: u8) = 0 \<and> (ucast c :: u8) \<le> 1 \<longleftrightarrow> unat c \<le> 1"
    using lo by (auto simp: word_le_nat_alt)
  show "0x30 < (ucast (drop_bit 8 c) :: u8) \<longleftrightarrow> 0x30FF < unat c"
    using hi less_eq_div_iff_mult_less_eq [of 256 49 "unat c"] by (auto simp: word_less_nat_alt)
qed

lemma pit_wait_poll:
  "pit_wait_10ms s = (let c = unat (pit_latch (pit_poll s)) in if c \<le> 1 \<or> 0x30FF < c then Some (pit_poll s) else pit_wait_10ms (pit_poll s))"
proof -
  let ?c = "pit_latch (pit_poll s)"
  have "pit_wait_10ms s = (if (ucast (drop_bit 8 ?c) :: u8) = 0 \<and> (ucast ?c :: u8) \<le> 1 then Some (pit_poll s)
      else if 0x30 < (ucast (drop_bit 8 ?c) :: u8) then Some (pit_poll s) else pit_wait_10ms (pit_poll s))"
    by (subst pit_wait_10ms.simps) (simp add: pit_ports Let_def pit_poll_def pit_count_def algebra_simps)
  then show ?thesis unfolding pit_bytes by (simp add: Let_def)
qed

text \<open>The poll that sees the end of the ten milliseconds: its reading is taken \<open>e\<close> clocks after the counter was loaded.\<close>

lemma pit_latch_poll:
  assumes "pit_reload s = 11932" and "pit_since s \<le> now s" and "pit_elapsed s + io_delay s < 60000"
  shows "(let c = unat (pit_latch (pit_poll s)) in c \<le> 1 \<or> 0x30FF < c) \<longleftrightarrow> 11931 \<le> pit_elapsed s + io_delay s"
proof -
  let ?e = "pit_elapsed s + io_delay s"
  have e: "now s + io_delay s - pit_since s = ?e" using assms(2) by (simp add: pit_elapsed_def)
  have u: "unat (of_nat ?e :: u16) = ?e" using assms(3) by (simp add: unsigned_of_nat take_bit_nat_eq_self del: of_nat_add)
  have "unat (pit_latch (pit_poll s)) = (if ?e \<le> 11932 then 11932 - ?e else 65536 + 11932 - ?e)"
    using u assms(1,3) by (simp add: pit_poll_def e unat_sub_if_size word_size word_le_nat_alt Let_def del: of_nat_add)
  then show ?thesis using assms(3) by (auto simp: Let_def)
qed

lemma pit_wait_ends:
  assumes "pit_reload s = 11932" and "pit_since s \<le> now s" and "pit_elapsed s + io_delay s \<le> 11931 + 3 * io_delay s" and "0 < io_delay s" and "io_delay s \<le> 10000"
  shows "\<exists>t :: irqchip. pit_wait_10ms s = Some (s\<lparr>now := now t, pit_latch := pit_latch t, pit_hi := False\<rparr>) \<and>
    11931 + 2 * io_delay s \<le> pit_elapsed (s\<lparr>now := now t\<rparr>) \<and> pit_elapsed (s\<lparr>now := now t\<rparr>) \<le> 11931 + 5 * io_delay s"
  using assms
proof (induction "11931 - pit_elapsed s" arbitrary: s rule: less_induct)
  case less
  let ?p = "pit_poll s"
  have p: "pit_reload ?p = 11932" "pit_since ?p \<le> now ?p" "io_delay ?p = io_delay s" "pit_elapsed ?p = pit_elapsed s + 3 * io_delay s"
    "pit_since ?p = pit_since s" "now ?p = now s + 3 * io_delay s"
    using less.prems by (simp_all add: pit_poll_def pit_elapsed_def Let_def)
  note dec = pit_latch_poll [OF less.prems(1,2)]
  show ?case
  proof (cases "11931 \<le> pit_elapsed s + io_delay s")
    case True
    then have "pit_wait_10ms s = Some ?p" using dec less.prems by (subst pit_wait_poll) (simp add: Let_def)
    then show ?thesis using True less.prems p by (intro exI [of _ ?p]) (simp add: pit_poll_def pit_elapsed_def Let_def, arith)
  next
    case False
    then have "pit_wait_10ms s = pit_wait_10ms ?p" using dec less.prems by (subst pit_wait_poll) (simp add: Let_def)
    moreover have "11931 - pit_elapsed ?p < 11931 - pit_elapsed s" using False less.prems(4) p(4) by linarith
    moreover obtain t :: irqchip where "pit_wait_10ms ?p = Some (?p\<lparr>now := now t, pit_latch := pit_latch t, pit_hi := False\<rparr>)"
      "11931 + 2 * io_delay s \<le> pit_elapsed (?p\<lparr>now := now t\<rparr>)" "pit_elapsed (?p\<lparr>now := now t\<rparr>) \<le> 11931 + 5 * io_delay s"
      using less.hyps [OF calculation(2)] less.prems p False by auto
    ultimately show ?thesis by (intro exI [of _ t]) (simp add: pit_poll_def pit_elapsed_def Let_def)
  qed
qed

subsection \<open>Calibration\<close>

lemma pit_prepared:
  "pit_prepare_sleep_10ms s = s\<lparr>now := now s + 3 * io_delay s, pit_mode := 0x30, pit_lo := None, pit_reload := 11932, pit_since := now s + 3 * io_delay s\<rparr>"
  by (simp add: pit_prepare_sleep_10ms_def pic_outb_def Let_def)

lemma apic_count_after:
  assumes "lapic_reg s 0x380 = 0xFFFFFFFF" and "apic_rate s * (now s - tic_since s) < 2 ^ 32"
  shows "unat (0xFFFFFFFF - apic_count s) = apic_rate s * (now s - tic_since s)"
proof -
  define n where "n = apic_rate s * (now s - tic_since s)"
  have n: "n < 2 ^ 32" using assms(2) by (simp add: n_def)
  have "apic_count s = of_nat (0xFFFFFFFF - n)" using assms(1) by (simp add: apic_count_def n_def)
  moreover have "unat (of_nat (0xFFFFFFFF - n) :: u32) = 0xFFFFFFFF - n" by (simp add: unsigned_of_nat take_bit_nat_eq_self del: of_nat_diff)
  ultimately have "unat (apic_count s) = 0xFFFFFFFF - n" by simp
  then show ?thesis using n unfolding n_def [symmetric] by (simp add: unat_sub_if_size word_size)
qed

lemma lapic_calibrate_spec:
  assumes "lapic_ok s" and "0 < io_delay s" and "io_delay s \<le> 10000" and "apic_rate s * (11931 + 5 * io_delay s) < 2 ^ 32"
  shows "\<exists>t T. lapic_calibrate s = Some t \<and> lapic_ok t \<and> lapic_reg t 0xF0 = lapic_reg s 0xF0 \<and> master t = master s \<and> slave t = slave s \<and>
    11931 + 2 * io_delay s \<le> T \<and> T \<le> 11931 + 5 * io_delay s \<and>
    unat (ticks_per_10ms t) = apic_rate s * T \<and> unat (ticks_per_1ms t) = apic_rate s * T div 10"
proof -
  let ?a = "reg_upd LAPIC_TIC 0xFFFFFFFF (pit_prepare_sleep_10ms (reg_upd LAPIC_TDCR 0x3 s))"
  have a: "lapic_ok ?a" "pit_reload ?a = 11932" "pit_since ?a = now ?a" "io_delay ?a = io_delay s" "apic_rate ?a = apic_rate s"
    "tic_since ?a = now ?a" "lapic_reg ?a 0x380 = 0xFFFFFFFF" "lapic_reg ?a 0xF0 = lapic_reg s 0xF0" "master ?a = master s" "slave ?a = slave s"
    using assms(1) by (simp_all add: pit_prepared reg_upd_def Let_def lapic_defs lapic_ok_def)
  obtain t :: irqchip where t: "pit_wait_10ms ?a = Some (?a\<lparr>now := now t, pit_latch := pit_latch t, pit_hi := False\<rparr>)"
    "11931 + 2 * io_delay s \<le> now t - now ?a" "now t - now ?a \<le> 11931 + 5 * io_delay s"
    using pit_wait_ends [of ?a] a assms(2,3) by (auto simp: pit_elapsed_def)
  let ?b = "?a\<lparr>now := now t, pit_latch := pit_latch t, pit_hi := False\<rparr>"
  let ?T = "now t - now ?a"
  have b: "lapic_ok ?b" "lapic_reg ?b 0x380 = 0xFFFFFFFF" "apic_rate ?b = apic_rate s" "tic_since ?b = now ?a"
    using a by (simp_all add: lapic_ok_def)
  have T: "apic_rate s * ?T < 2 ^ 32" using assms(4) t(3) by (meson le_less_trans mult_le_mono2)
  have c: "unat (0xFFFFFFFF - apic_count ?b) = apic_rate s * ?T"
    using apic_count_after [of ?b] b T by simp
  let ?d = "reg_upd LAPIC_LVT_TMR 0x10000 ?b"
  let ?r = "?d\<lparr>ticks_per_10ms := 0xFFFFFFFF - apic_count ?b, ticks_per_1ms := (0xFFFFFFFF - apic_count ?b) div 10\<rparr>"
  have "lapic_ok (pit_prepare_sleep_10ms (reg_upd LAPIC_TDCR 0x3 s))" using assms(1) by (simp add: pit_prepared lapic_ok_def reg_upd_def Let_def lapic_defs)
  then have "lapic_calibrate s = Some ?r"
    using assms(1) b(1) t(1) by (simp add: lapic_calibrate_def lapic_write_ok lapic_regs lapic_read_tcc)
  moreover have "lapic_ok ?r" "lapic_reg ?r 0xF0 = lapic_reg s 0xF0" "master ?r = master s" "slave ?r = slave s"
    using a b by (simp_all add: reg_upd_def Let_def lapic_ok_def lapic_defs)
  moreover have "unat ((0xFFFFFFFF - apic_count ?b) div 10) = apic_rate s * ?T div 10" using c by (simp add: unat_div)
  ultimately show ?thesis using t c by (intro exI [of _ ?r] exI [of _ ?T]) simp
qed

text \<open>The registers both \<open>lapic_init\<close> and \<open>ap_lapic_init\<close> leave behind.\<close>

lemma ap_lapic_init_regs:
  assumes "lapic_ok s"
  shows "\<exists>t. ap_lapic_init s = Some t \<and> lapic_ok t \<and> ticks_per_1ms t = ticks_per_1ms s \<and> ticks_per_10ms t = ticks_per_10ms s \<and> master t = master s \<and> slave t = slave s \<and>
    lapic_reg t 0xF0 = 0x1FF \<and> lapic_reg t 0x320 = 0x200EF \<and> lapic_reg t 0x380 = ticks_per_1ms s \<and> lapic_reg t 0x350 = 0x10000 \<and> lapic_reg t 0x360 = 0x10000 \<and>
    lapic_reg t 0x370 = 0xEE \<and> lapic_reg t 0x80 = 0 \<and> lapic_reg t 0x3E0 = 3 \<and> eois t = eois s + 1"
proof -
  have "\<exists>t. ap_lapic_init s = Some t" using assms by (simp add: ap_lapic_init_def lapic_write_ok lapic_regs lapic_ok_frame)
  then obtain t where t: "ap_lapic_init s = Some t" ..
  moreover have "t = reg_upd LAPIC_TPR 0 (reg_upd LAPIC_EOI 0 (reg_upd LAPIC_ESR 0 (reg_upd LAPIC_ESR 0 (reg_upd LAPIC_LVT_ERR X86_APIC_ERROR_VECTOR (reg_upd LAPIC_LVT_LINT1 0x10000
     (reg_upd LAPIC_LVT_LINT0 0x10000 (reg_upd LAPIC_TIC (ticks_per_1ms s) (reg_upd LAPIC_LVT_TMR (0x20000 OR of_nat X86_APIC_TIMER_VECTOR) (reg_upd LAPIC_TICFG 0x3 (reg_upd LAPIC_SVR 0x1FF s))))))))))"
    using t assms by (simp add: ap_lapic_init_def lapic_write_ok lapic_regs lapic_ok_frame reg_upd_frame)
  ultimately show ?thesis using assms by (simp add: lapic_ok_frame reg_upd_frame) (simp add: reg_upd_def Let_def lapic_defs)
qed

lemma kernel_base_low: "(ucast (KERNEL_BASE + ucast (base :: u32)) :: u32) = base"
proof (rule word_unat_eq_iff [THEN iffD2])
  have b: "unat base < 2 ^ 32" using unsigned_less [where 'a = nat, of base] by simp
  then have u: "(ucast base :: u64) = of_nat (unat base)" by simp
  obtain K where "unat KERNEL_BASE = K * 2 ^ 32" by (rule that [of 4294934528]) (simp add: KERNEL_BASE_def)
  then have "(unat KERNEL_BASE + unat base) mod 2 ^ 32 = unat base" using b by simp
  moreover have "unat (KERNEL_BASE + ucast base) = unat KERNEL_BASE + unat base"
    unfolding u using b by (intro unat_add_of_nat) (simp add: KERNEL_BASE_def)
  ultimately show "unat (ucast (KERNEL_BASE + ucast base) :: u32) = unat base" by (simp add: unsigned_ucast_eq take_bit_eq_mod)
qed

lemma lapic_init_steps:
  fixes s :: irqchip
  assumes "madt tables \<noteq> 0" and "rd32 m (madt tables + 36) = base" and "base \<le> 0xFFFFF000" and "lapic_phys s = ucast base"
  defines "a \<equiv> s\<lparr>lapic_base := base, lapic_base_virt := base, mmio_maps := mmio_maps s @ [(ucast base, ucast base)]\<rparr>"
  shows "lapic_ok a" and "lapic_calibrate (reg_upd LAPIC_SVR 0x1FF a) = Some c \<Longrightarrow> lapic_ok c \<Longrightarrow> lapic_reg c 0xF0 = 0x1FF \<Longrightarrow>
    lapic_init m tables s = ap_lapic_init (pic_disable c)"
proof -
  show a: "lapic_ok a" using assms(3,4) by (simp add: lapic_ok_def a_def)
  have triv: "lapic_write LAPIC_SVR 0x1FF u = Some u" if "lapic_ok u" "lapic_reg u 0xF0 = 0x1FF" for u
  proof -
    have "(lapic_reg u)(0xF0 := 0x1FF) = lapic_reg u" using that(2) by auto
    then show ?thesis using that(1) by (simp add: lapic_write_ok lapic_regs reg_upd_def lapic_defs)
  qed
  assume c: "lapic_calibrate (reg_upd LAPIC_SVR 0x1FF a) = Some c" "lapic_ok c" "lapic_reg c 0xF0 = 0x1FF"
  have d: "lapic_ok (pic_disable c)" "lapic_reg (pic_disable c) 0xF0 = 0x1FF"
    using c by (simp_all add: pic_disable_def lapic_ok_frame) (simp add: pic_defs pic_outb_def Let_def)
  have "acpi_find_madt_lapic_base m tables = Some (ucast base)" using assms(1,2) by (simp add: acpi_find_madt_lapic_base_def)
  moreover have "(ucast (ucast base :: u64) :: u32) = base" by (rule bit_word_eqI) (simp add: bit_unsigned_iff)
  moreover have "lapic_write LAPIC_SVR 0x1FF a = Some (reg_upd LAPIC_SVR 0x1FF a)" using a by (simp add: lapic_write_ok lapic_regs)
  ultimately have "lapic_init m tables s = do { s \<leftarrow> lapic_calibrate (reg_upd LAPIC_SVR 0x1FF a); let s = pic_disable s;
     s \<leftarrow> lapic_write LAPIC_TICFG 0x3 s;
     s \<leftarrow> lapic_write LAPIC_LVT_TMR (0x20000 OR of_nat X86_APIC_TIMER_VECTOR) s;
     s \<leftarrow> lapic_write LAPIC_TIC (ticks_per_1ms s) s;
     s \<leftarrow> lapic_write LAPIC_LVT_LINT0 0x10000 s;
     s \<leftarrow> lapic_write LAPIC_LVT_LINT1 0x10000 s;
     s \<leftarrow> lapic_write LAPIC_LVT_ERR X86_APIC_ERROR_VECTOR s;
     s \<leftarrow> lapic_write LAPIC_ESR 0 s;
     s \<leftarrow> lapic_write LAPIC_ESR 0 s;
     s \<leftarrow> lapic_write LAPIC_EOI 0 s;
     lapic_write LAPIC_TPR 0 s }"
    by (simp add: lapic_init_def kernel_base_low a_def)
  then show "lapic_init m tables s = ap_lapic_init (pic_disable c)"
    using c(1) triv [OF d] by (simp add: ap_lapic_init_def)
qed

text \<open>
  C30: The timer tick is calibrated: when the firmware names the page of the local APIC, \<open>lapic_init\<close> returns although it polls the interval timer, with the APIC timer periodic on
  vector \<open>0xEF\<close> and all sixteen lines of the 8259 pair masked. The period it programs is a tenth of the APIC ticks in \<open>T\<close> clocks of the interval timer, where \<open>T\<close> exceeds the
  intended 11931 clocks (ten milliseconds) by at most five port accesses.
\<close>

theorem lapic_init_calibrates:
  assumes "madt tables \<noteq> 0" and "rd32 m (madt tables + 36) = base" and "base \<le> 0xFFFFF000" and "lapic_phys s = ucast base" and "pic_ready s"
    and "0 < io_delay s" and "io_delay s \<le> 10000" and "apic_rate s * (11931 + 5 * io_delay s) < 2 ^ 32"
  shows "\<exists>t T. lapic_init m tables s = Some t \<and> 11931 + 2 * io_delay s \<le> T \<and> T \<le> 11931 + 5 * io_delay s \<and>
    unat (lapic_reg t 0x380) = apic_rate s * T div 10 \<and> lapic_reg t 0x320 = 0x200EF \<and> {j. j < 16 \<and> pic_masked t j} = {0..<16}"
proof -
  let ?a = "s\<lparr>lapic_base := base, lapic_base_virt := base, mmio_maps := mmio_maps s @ [(ucast base, ucast base)]\<rparr>"
  let ?b = "reg_upd LAPIC_SVR 0x1FF ?a"
  note steps = lapic_init_steps [OF assms(1-4)]
  have b: "lapic_ok ?b" "io_delay ?b = io_delay s" "apic_rate ?b = apic_rate s" "lapic_reg ?b 0xF0 = 0x1FF" "master ?b = master s" "slave ?b = slave s"
    using steps(1) by (simp_all add: lapic_ok_frame) (simp_all add: reg_upd_def Let_def lapic_defs)
  obtain c T where c: "lapic_calibrate ?b = Some c" "lapic_ok c" "lapic_reg c 0xF0 = 0x1FF" "master c = master s" "slave c = slave s"
    "11931 + 2 * io_delay s \<le> T" "T \<le> 11931 + 5 * io_delay s" "unat (ticks_per_1ms c) = apic_rate s * T div 10"
    using lapic_calibrate_spec [of ?b] b assms(6-8) by auto
  have "pic_ready c" using assms(5) c(4,5) by (simp add: pic_ready_def)
  then have d: "pic_abs (pic_disable c) = {0..<16}" using pic_do_spec(2) [of c Disable] by simp
  have "lapic_ok (pic_disable c)" "ticks_per_1ms (pic_disable c) = ticks_per_1ms c"
    using c(2) by (simp_all add: pic_disable_def lapic_ok_frame) (simp add: pic_defs pic_outb_def Let_def)
  with ap_lapic_init_regs [of "pic_disable c"]
  obtain t where t: "ap_lapic_init (pic_disable c) = Some t" "lapic_reg t 0x320 = 0x200EF" "lapic_reg t 0x380 = ticks_per_1ms c"
    "master t = master (pic_disable c)" "slave t = slave (pic_disable c)" by auto
  have "lapic_init m tables s = Some t" using steps(2) [OF c(1-3)] t(1) by simp
  moreover have "pic_masked t = pic_masked (pic_disable c)" using t(4,5) by (simp add: fun_eq_iff pic_masked_def)
  then have "{j. j < 16 \<and> pic_masked t j} = {0..<16}" using d by (simp add: pic_abs_def)
  ultimately show ?thesis using c(6-8) t(2,3) by auto
qed

definition apic_madt :: mem where
  "apic_madt p = (if p = 0x1026 then 0xE0 else if p = 0x1027 then 0xFE else 0)"

theorem lapic_init_calibrates_witness:
  "\<exists>t T. lapic_init apic_madt \<lparr>mcfg = 0, madt = 0x1000, mapped = []\<rparr> idle_chip = Some t \<and> 11935 \<le> T \<and> T \<le> 11941 \<and>
    unat (lapic_reg t 0x380) = 52 * T div 10 \<and> lapic_reg t 0x320 = 0x200EF"
proof -
  let ?tables = "\<lparr>mcfg = 0, madt = 0x1000, mapped = []\<rparr> :: acpi"
  have r: "rd32 apic_madt (madt ?tables + 36) = 0xFEE00000" by (simp add: rd32_def apic_madt_def)
  have c: "io_delay idle_chip = 2" "apic_rate idle_chip = 52" "lapic_phys idle_chip = ucast (0xFEE00000 :: u32)" "pic_ready idle_chip"
    by (simp_all add: idle_chip_def idle_8259_def pic_ready_def)
  have "(0xFEE00000 :: u32) \<le> 0xFFFFF000" "madt ?tables \<noteq> 0" by simp_all
  from lapic_init_calibrates [OF this(2) r this(1) c(3,4), unfolded c(1,2)]
  obtain t T where "lapic_init apic_madt ?tables idle_chip = Some t" "11931 + 2 * 2 \<le> T" "T \<le> 11931 + 5 * 2"
    "unat (lapic_reg t 0x380) = 52 * T div 10" "lapic_reg t 0x320 = 0x200EF" by auto
  then show ?thesis by (intro exI [of _ t] exI [of _ T]) simp
qed

subsection \<open>Interprocessor interrupts\<close>

lemma status_bit: "(w OR 0x1000) AND 0x1000 \<noteq> (0 :: u32)" "(w AND NOT 0x1000) AND 0x1000 = (0 :: u32)"
proof -
  have b: "bit (0x1000 :: u32) 12" by simp
  then have "bit ((w OR 0x1000) AND 0x1000) 12" by (simp only: bit_and_iff bit_or_iff) simp
  then show "(w OR 0x1000) AND 0x1000 \<noteq> 0" by auto
  have "(w AND NOT m) AND m = 0" for m :: u32 by (rule bit_word_eqI) (auto simp: bit_and_iff bit_not_iff)
  then show "(w AND NOT 0x1000) AND 0x1000 = 0" .
qed

lemma lapic_wait_ipi_ends: "lapic_ok s \<Longrightarrow> lapic_wait_ipi s = Some (s\<lparr>icr_busy := 0\<rparr>)"
proof (induction "icr_busy s" arbitrary: s)
  case 0
  then show ?case using lapic_offsets(2) [of s "0x300"] by (subst lapic_wait_ipi.simps) (simp add: mmio_read_def status_bit [simplified])
next
  case (Suc n)
  let ?t = "s\<lparr>icr_busy := n\<rparr>"
  have "lapic_wait_ipi ?t = Some (?t\<lparr>icr_busy := 0\<rparr>)" using Suc.hyps(1) [of ?t] Suc.prems by (simp add: lapic_ok_def)
  then show ?case using lapic_offsets(2) [of s "0x300"] Suc.prems Suc.hyps(2) [symmetric]
    by (subst lapic_wait_ipi.simps) (simp add: mmio_read_def status_bit [simplified])
qed

lemma mmio_write_icr:
  assumes "lapic_ok s"
  shows "mmio_write (ucast (lapic_base_virt s + 0x310)) v s = Some (s\<lparr>lapic_reg := (lapic_reg s)(0x310 := v)\<rparr>)"
    "mmio_write (ucast (lapic_base_virt s + 0x300)) v s =
      Some (s\<lparr>lapic_reg := (lapic_reg s)(0x300 := v), ipis := ipis s @ [(ucast (drop_bit 24 (lapic_reg s 0x310)), v)], icr_busy := icr_time s\<rparr>)"
  using lapic_offsets(2) [OF assms, of "0x310"] lapic_offsets(2) [OF assms, of "0x300"] by (simp_all add: mmio_write_def)

text \<open>Both calls return and send one message, to the processor named, after the one before was delivered.\<close>

lemma send_ipi:
  assumes "lapic_ok s"
  shows "\<exists>t. lapic_send_init apic_id s = Some t \<and> lapic_ok t \<and> ipis t = ipis s @ [(apic_id, 0x4500)] \<and> icr_busy t = 0"
    and "\<exists>t. lapic_send_sipi apic_id vec s = Some t \<and> lapic_ok t \<and> ipis t = ipis s @ [(apic_id, 0x600 OR ucast vec)] \<and> icr_busy t = 0"
proof -
  have d: "(ucast (drop_bit 24 (push_bit 24 (ucast apic_id) :: u32)) :: u8) = apic_id"
    by (rule bit_word_eqI) (auto simp: bit_unsigned_iff bit_drop_bit_eq bit_push_bit_iff)
  have ok: "lapic_ok (s\<lparr>lapic_reg := f\<rparr>)" "lapic_ok (s\<lparr>lapic_reg := f, ipis := x, icr_busy := n\<rparr>)" for f x n
    using assms by (simp_all add: lapic_ok_def)
  show "\<exists>t. lapic_send_init apic_id s = Some t \<and> lapic_ok t \<and> ipis t = ipis s @ [(apic_id, 0x4500)] \<and> icr_busy t = 0"
    "\<exists>t. lapic_send_sipi apic_id vec s = Some t \<and> lapic_ok t \<and> ipis t = ipis s @ [(apic_id, 0x600 OR ucast vec)] \<and> icr_busy t = 0"
    using assms ok mmio_write_icr [OF assms] mmio_write_icr(2) [OF ok(1)] lapic_wait_ipi_ends [OF ok(2)]
    by (simp_all add: lapic_send_init_def lapic_send_sipi_def d lapic_defs)
qed

section \<open>Redirection entries\<close>

definition io_ok :: "ioapic \<Rightarrow> bool" where
  "io_ok s \<longleftrightarrow> (io_phys s, ioapic_base s) \<in> set (io_maps s)"

text \<open>Entry \<open>i\<close> of the redirection table, and its fields as the device reads them.\<close>

definition rte :: "ioapic \<Rightarrow> nat \<Rightarrow> u64" where
  "rte s i = push_bit 32 (ucast (ioregs s (of_nat (17 + 2 * i)))) OR ucast (ioregs s (of_nat (16 + 2 * i)))"

definition rte_vector :: "u64 \<Rightarrow> u8" where "rte_vector r = ucast r"
definition rte_masked :: "u64 \<Rightarrow> bool" where "rte_masked r = bit r 16"
definition rte_dest :: "u64 \<Rightarrow> u8" where "rte_dest r = ucast (drop_bit 56 r)"

lemma reg_number:
  assumes "i < 120"
  shows "(ucast (IOAPIC_REG_REDTBL + ucast (of_nat i :: u8) * 2) :: u8) = of_nat (16 + 2 * i)"
    "(ucast (IOAPIC_REG_REDTBL + ucast (of_nat i :: u8) * 2 + 1) :: u8) = of_nat (17 + 2 * i)"
proof -
  have "unat (of_nat i :: u8) = i" using assms by (simp add: unsigned_of_nat take_bit_nat_eq_self)
  then have u: "(ucast (of_nat i :: u8) :: u32) = of_nat i" by (metis of_nat_unat)
  have "IOAPIC_REG_REDTBL + ucast (of_nat i :: u8) * 2 = (of_nat (16 + 2 * i) :: u32)"
    "IOAPIC_REG_REDTBL + ucast (of_nat i :: u8) * 2 + 1 = (of_nat (17 + 2 * i) :: u32)"
    unfolding u by (simp_all add: IOAPIC_REG_REDTBL_def)
  moreover have "(ucast (of_nat n :: u32) :: u8) = of_nat n" if "n < 256" for n
    using that by (intro word_unat_eq_iff [THEN iffD2]) (simp add: unsigned_ucast_eq unsigned_of_nat take_bit_nat_eq_self)
  ultimately show "(ucast (IOAPIC_REG_REDTBL + ucast (of_nat i :: u8) * 2) :: u8) = of_nat (16 + 2 * i)"
    "(ucast (IOAPIC_REG_REDTBL + ucast (of_nat i :: u8) * 2 + 1) :: u8) = of_nat (17 + 2 * i)"
    using assms by (simp_all del: of_nat_add of_nat_mult)
qed

lemma unat_reg: "n < 256 \<Longrightarrow> unat (of_nat n :: u8) = n"
  by (simp add: unsigned_of_nat take_bit_nat_eq_self)

lemma reg_eq: "a < 256 \<Longrightarrow> b < 256 \<Longrightarrow> (of_nat a :: u8) = of_nat b \<longleftrightarrow> a = b"
  by (metis unat_reg)

lemma reg_low: "i < 120 \<Longrightarrow> 0x10 \<le> (of_nat (16 + 2 * i) :: u8) \<and> \<not> bit (of_nat (16 + 2 * i) :: u8) 0"
  "i < 120 \<Longrightarrow> bit (of_nat (17 + 2 * i) :: u8) 0"
proof -
  assume "i < 120"
  then show "0x10 \<le> (of_nat (16 + 2 * i) :: u8) \<and> \<not> bit (of_nat (16 + 2 * i) :: u8) 0" "bit (of_nat (17 + 2 * i) :: u8) 0"
    by (simp_all add: word_le_nat_alt unat_reg bit_0 even_word_iff del: of_nat_add of_nat_mult)
qed

lemma ioapic_write_reg:
  assumes "io_ok s"
  shows "ioapic_write r v s = Some (s\<lparr>ioregsel := r, ioregs := (if r = 1 \<or> r = 2 then ioregs s
    else (ioregs s)(r := (if 0x10 \<le> r \<and> \<not> bit r 0 then (ioregs s r AND 0x5000) OR (v AND NOT 0x5000) else v)))\<rparr>)"
proof -
  have "(ucast (ucast r :: u32) :: u8) = r" by (rule bit_word_eqI) (simp add: bit_unsigned_iff)
  then show ?thesis using assms by (simp add: ioapic_write_def io_select_def io_win_write_def io_ok_def Let_def)
qed

lemma readonly_bits: "bit (0x5000 :: u64) n \<longleftrightarrow> n = 12 \<or> n = 14" "bit (0x5000 :: u32) n \<longleftrightarrow> n = 12 \<or> n = 14"
proof -
  have "(0x5000 :: u64) = 2 ^ 12 OR 2 ^ 14" "(0x5000 :: u32) = 2 ^ 12 OR 2 ^ 14" by simp_all
  then show "bit (0x5000 :: u64) n \<longleftrightarrow> n = 12 \<or> n = 14" "bit (0x5000 :: u32) n \<longleftrightarrow> n = 12 \<or> n = 14"
    by (auto simp only: bit_or_iff bit_2_pow_word) simp_all
qed

lemma rte_parts:
  fixes m :: u64 and m' :: u32
  assumes "\<And>n. bit m n \<longleftrightarrow> n = 12 \<or> n = 14" and "\<And>n. bit m' n \<longleftrightarrow> n = 12 \<or> n = 14"
  shows "push_bit 32 (ucast (ucast (drop_bit 32 r) :: u32)) OR ucast ((lo AND m') OR (ucast r AND NOT m')) =
    ((push_bit 32 (ucast (hi :: u32)) OR ucast lo) AND m) OR (r AND NOT m)"
proof (rule bit_word_eqI)
  fix n
  assume "n < LENGTH(64)"
  then show "bit (push_bit 32 (ucast (ucast (drop_bit 32 r) :: u32)) OR ucast ((lo AND m') OR (ucast r AND NOT m')) :: u64) n =
      bit (((push_bit 32 (ucast hi) OR ucast lo) AND m) OR (r AND NOT m)) n"
    by (cases "n < 32") (auto simp: bit_or_iff bit_and_iff bit_not_iff bit_push_bit_iff bit_unsigned_iff bit_drop_bit_eq assms)
qed

lemma rte_write:
  assumes "io_ok s" and "i < 120"
  shows "\<exists>t. ioapic_rte_write (of_nat i) r s = Some t \<and> io_ok t \<and> ioregs t 1 = ioregs s 1 \<and> io_phys t = io_phys s \<and>
    rte t i = (rte s i AND 0x5000) OR (r AND NOT 0x5000) \<and> (\<forall>j < 120. j \<noteq> i \<longrightarrow> rte t j = rte s j)"
proof -
  have n: "(of_nat (16 + 2 * i) :: u8) \<noteq> 1" "(of_nat (16 + 2 * i) :: u8) \<noteq> 2" "(of_nat (17 + 2 * i) :: u8) \<noteq> 1" "(of_nat (17 + 2 * i) :: u8) \<noteq> 2"
    using assms(2) reg_eq [of "16 + 2 * i" 1] reg_eq [of "16 + 2 * i" 2] reg_eq [of "17 + 2 * i" 1] reg_eq [of "17 + 2 * i" 2]
    by (simp_all del: of_nat_add of_nat_mult)
  let ?t = "s\<lparr>ioregsel := of_nat (16 + 2 * i), ioregs := (ioregs s)(of_nat (17 + 2 * i) := ucast (drop_bit 32 r),
      of_nat (16 + 2 * i) := (ioregs s (of_nat (16 + 2 * i)) AND 0x5000) OR (ucast r AND NOT 0x5000))\<rparr>"
  have ne: "(of_nat (16 + 2 * i) :: u8) \<noteq> of_nat (17 + 2 * j)" "(of_nat (17 + 2 * i) :: u8) \<noteq> of_nat (16 + 2 * j)"
    "(of_nat (16 + 2 * i) :: u8) = of_nat (16 + 2 * j) \<longleftrightarrow> i = j" "(of_nat (17 + 2 * i) :: u8) = of_nat (17 + 2 * j) \<longleftrightarrow> i = j" if "j < 120" for j
    using that assms(2) by (subst reg_eq; presburger)+
  let ?u = "s\<lparr>ioregsel := of_nat (17 + 2 * i), ioregs := (ioregs s)(of_nat (17 + 2 * i) := ucast (drop_bit 32 r))\<rparr>"
  have "ioapic_write (of_nat (17 + 2 * i)) (ucast (drop_bit 32 r)) s = Some ?u"
    unfolding ioapic_write_reg [OF assms(1)] using n reg_low(2) [OF assms(2)] by (simp del: of_nat_add of_nat_mult)
  moreover have "io_ok ?u" using assms(1) by (simp add: io_ok_def)
  then have "ioapic_write (of_nat (16 + 2 * i)) (ucast r) ?u = Some ?t"
    using n reg_low(1) [OF assms(2)] ne(1,2) [OF assms(2)] by (simp add: ioapic_write_reg del: of_nat_add of_nat_mult)
  ultimately have "ioapic_rte_write (of_nat i) r s = Some ?t"
    unfolding ioapic_rte_write_def reg_number [OF assms(2)] by (simp del: of_nat_add of_nat_mult)
  moreover have "rte ?t i = (rte s i AND 0x5000) OR (r AND NOT 0x5000)"
    using ne(1,2) [OF assms(2)] by (simp add: rte_def rte_parts [OF readonly_bits, simplified] del: of_nat_add of_nat_mult)
  moreover have "rte ?t j = rte s j" if "j < 120" "j \<noteq> i" for j
    using ne [OF that(1)] that(2) by (simp add: rte_def del: of_nat_add of_nat_mult)
  moreover have "io_ok ?t" "ioregs ?t 1 = ioregs s 1" using assms(1) n by (simp_all add: io_ok_def del: of_nat_add of_nat_mult)
  ultimately show ?thesis by (intro exI [of _ ?t]) simp
qed

text \<open>The mask bit, vector and destination are not read-only bits.\<close>

lemma rte_dest_bit: "n < 8 \<Longrightarrow> bit (rte_dest w) n \<longleftrightarrow> bit w (56 + n)"
  by (simp add: rte_dest_def bit_unsigned_iff bit_drop_bit_eq)

lemma rte_fields:
  "rte_masked ((old AND 0x5000) OR (r AND NOT 0x5000)) = rte_masked r" "rte_vector ((old AND 0x5000) OR (r AND NOT 0x5000)) = rte_vector r"
  "rte_dest ((old AND 0x5000) OR (r AND NOT 0x5000)) = rte_dest r"
proof -
  have g: "bit ((old AND m) OR (r AND NOT m)) n = bit r n" if "\<not> bit m n" "n < 64" for n and m :: u64
    using that by (simp add: bit_or_iff bit_and_iff bit_not_iff)
  have b: "bit ((old AND 0x5000) OR (r AND NOT 0x5000)) n = bit r n" if "n < 64" "n \<noteq> 12" "n \<noteq> 14" for n
    by (rule g) (use that readonly_bits(1) in auto)
  show "rte_masked ((old AND 0x5000) OR (r AND NOT 0x5000)) = rte_masked r" unfolding rte_masked_def by (rule b) simp_all
  show "rte_vector ((old AND 0x5000) OR (r AND NOT 0x5000)) = rte_vector r"
    unfolding rte_vector_def using b by (intro bit_word_eqI) (simp add: bit_unsigned_iff)
  show "rte_dest ((old AND 0x5000) OR (r AND NOT 0x5000)) = rte_dest r"
    using b by (intro bit_word_eqI) (simp add: rte_dest_bit)
qed

lemma rte_flags:
  "rte_masked RTE_MASKED"
  "\<not> rte_masked (ucast vec OR RTE_DELIVERY_FIXED OR RTE_DEST_PHYSICAL OR (RTE_EDGE_TRIGGERED OR RTE_ACTIVE_HIGH) OR push_bit RTE_DEST_SHIFT (ucast (d :: u8)))"
  "rte_vector (ucast vec OR RTE_DELIVERY_FIXED OR RTE_DEST_PHYSICAL OR (RTE_EDGE_TRIGGERED OR RTE_ACTIVE_HIGH) OR push_bit RTE_DEST_SHIFT (ucast d)) = vec"
  "rte_dest (ucast vec OR RTE_DELIVERY_FIXED OR RTE_DEST_PHYSICAL OR (RTE_EDGE_TRIGGERED OR RTE_ACTIVE_HIGH) OR push_bit RTE_DEST_SHIFT (ucast d)) = d"
  for vec d :: u8
proof -
  show "rte_masked RTE_MASKED" by (simp add: rte_masked_def rte_defs)
  let ?r = "ucast vec OR push_bit 56 (ucast d) :: u64"
  have r: "ucast vec OR RTE_DELIVERY_FIXED OR RTE_DEST_PHYSICAL OR (RTE_EDGE_TRIGGERED OR RTE_ACTIVE_HIGH) OR push_bit RTE_DEST_SHIFT (ucast d) = ?r"
    by (simp add: rte_defs)
  show "\<not> rte_masked (ucast vec OR RTE_DELIVERY_FIXED OR RTE_DEST_PHYSICAL OR (RTE_EDGE_TRIGGERED OR RTE_ACTIVE_HIGH) OR push_bit RTE_DEST_SHIFT (ucast d))"
    unfolding r by (auto simp: rte_masked_def bit_or_iff bit_push_bit_iff bit_unsigned_iff dest: bit_imp_le_length)
  show "rte_vector (ucast vec OR RTE_DELIVERY_FIXED OR RTE_DEST_PHYSICAL OR (RTE_EDGE_TRIGGERED OR RTE_ACTIVE_HIGH) OR push_bit RTE_DEST_SHIFT (ucast d)) = vec"
    unfolding r rte_vector_def by (rule bit_word_eqI) (auto simp: bit_or_iff bit_push_bit_iff bit_unsigned_iff)
  show "rte_dest (ucast vec OR RTE_DELIVERY_FIXED OR RTE_DEST_PHYSICAL OR (RTE_EDGE_TRIGGERED OR RTE_ACTIVE_HIGH) OR push_bit RTE_DEST_SHIFT (ucast d)) = d"
    unfolding r by (rule bit_word_eqI) (auto simp: rte_dest_bit bit_or_iff bit_push_bit_iff bit_unsigned_iff dest: bit_imp_le_length)
qed

lemma mask_entries_spec:
  "io_ok s \<Longrightarrow> n \<le> 120 \<Longrightarrow> \<exists>t. mask_entries n s = Some t \<and> io_ok t \<and> ioregs t 1 = ioregs s 1 \<and> (\<forall>j < n. rte_masked (rte t j)) \<and> (\<forall>j < 120. n \<le> j \<longrightarrow> rte t j = rte s j)"
proof (induction n)
  case 0
  then show ?case by auto
next
  case (Suc n)
  then obtain t where t: "mask_entries n s = Some t" "io_ok t" "ioregs t 1 = ioregs s 1" "\<forall>j < n. rte_masked (rte t j)" "\<forall>j < 120. n \<le> j \<longrightarrow> rte t j = rte s j"
    by auto
  obtain u where u: "ioapic_rte_write (of_nat n) RTE_MASKED t = Some u" "io_ok u" "ioregs u 1 = ioregs t 1"
    "rte u n = (rte t n AND 0x5000) OR (RTE_MASKED AND NOT 0x5000)" "\<forall>j < 120. j \<noteq> n \<longrightarrow> rte u j = rte t j"
    using rte_write [OF t(2), of n RTE_MASKED] Suc.prems(2) by auto
  have "rte_masked (rte u n)" unfolding u(4) rte_fields(1) by (rule rte_flags(1))
  then show ?case using t u Suc.prems(2) by (auto simp: less_Suc_eq)
qed


definition sample_ioapic :: ioapic where
  "sample_ioapic = \<lparr>ioapic_base = 0, io_phys = 0xFEC00000, io_maps = [], ioregsel = 0, ioregs = (\<lambda>r. if r = 1 then 0x170020 else 0)\<rparr>"


end
