(* ===== verification/Ahci.thy ===== *)
theory Ahci
  imports Fat32 Printf Firmware
begin

text \<open>
  The disk path: the AHCI driver (\<open>src/src/ahci_block.c\<close>), the registry of block devices (\<open>src/src/block_device.c\<close>) and the functions FatFs calls to reach a disk (\<open>src/src/fs/diskio.c\<close>).

  The controller is modelled as its specification describes it. A port has its registers, the disk behind it, and the number of reads after which a status changes (\<open>busy\<close>, \<open>cmd_time\<close>, \<open>lag\<close>,
  \<open>reset_left\<close>). A command written to \<open>PxCI\<close> is executed from what the driver has put into memory: the header at the command list address of the port, the command FIS and the region
  descriptor of the command table the header points to. The static buffers of the driver are fields of the state, with their addresses; physical memory is a function from addresses to bytes, and \<open>pa\<close> is the
  translation \<open>get_physaddr\<close> yields. Waiting for a status that never comes does not return (\<open>None\<close>).

  The lemmas show that a transfer moves exactly the sectors asked for between the disk and the buffer, that theory \<open>Fat32\<close> reads and writes the disk through it, which ports \<open>ahci_init\<close> brings up, and what
  happens to counts the encoding cannot hold.
\<close>

section \<open>Structures\<close>

record fis_reg_h2d =
  fis_type :: u8
  pmport_c :: u8
  command :: u8
  features_low :: u8
  lba0 :: u8
  lba1 :: u8
  lba2 :: u8
  device :: u8
  lba3 :: u8
  lba4 :: u8
  lba5 :: u8
  features_high :: u8
  count_low :: u8
  count_high :: u8
  icc :: u8
  control :: u8

record ahci_cmd_list_entry =
  opts :: u16
  prdtl :: u16
  prdbc :: u32
  ctba :: u32
  ctbau :: u32

record ahci_prdt_entry =
  dba :: u32
  dbau :: u32
  dbc :: u32

datatype sata_dev_t = SATA_DEV_NONE | SATA_DEV_SATA | SATA_DEV_SATAPI | SATA_DEV_SEMB | SATA_DEV_PM

text \<open>A port: the registers the driver uses, and the state of the hardware behind them.\<close>

record sata_port =
  PxCLB :: u32
  PxCLBU :: u32
  PxFB :: u32
  PxFBU :: u32
  PxIS :: u32
  PxCMD :: u32
  PxSIG :: u32
  PxSSTS :: u32
  PxSERR :: u32
  PxCI :: u32
  sectors :: disk
  nr_sectors :: nat
  busy :: nat
  cmd_left :: nat
  cmd_time :: nat
  lag :: nat
  engine_lag :: nat

record block_device =
  bd_name :: bytes
  bd_port :: nat
  bd_id :: nat

record ahci =
  hba :: u64
  hba_maps :: "(u64 \<times> u64 \<times> nat) list"
  ghc :: u32
  cap :: u32
  pi :: u32
  reset_left :: nat
  reset_time :: nat
  ports :: "nat \<Rightarrow> sata_port"
  phys :: mem
  pa :: "u64 \<Rightarrow> u64"
  fis_buffer :: u64
  cl_buffer :: u64
  cmd_table_buffer :: u64
  cmd_hdr :: ahci_cmd_list_entry
  cfis :: fis_reg_h2d
  prdt :: ahci_prdt_entry
  sata_dev :: "nat option"
  g_sata_controller_port :: "nat option"
  blkdev_list :: "block_device list"
  next_bd :: nat
  aheap :: kheap

definition upd_port :: "nat \<Rightarrow> (sata_port \<Rightarrow> sata_port) \<Rightarrow> ahci \<Rightarrow> ahci" where
  "upd_port i f s = s\<lparr>ports := (ports s)(i := f (ports s i))\<rparr>"

definition join32 :: "u32 \<Rightarrow> u32 \<Rightarrow> u64" where
  "join32 lo hi = ucast lo OR push_bit 32 (ucast hi)"

section \<open>The controller\<close>

text \<open>The sector address and the number of sectors the command FIS asks for; a count of zero stands for 65536.\<close>

definition fis_lba :: "fis_reg_h2d \<Rightarrow> u64" where
  "fis_lba f = ucast (lba0 f) OR push_bit 8 (ucast (lba1 f)) OR push_bit 16 (ucast (lba2 f)) OR push_bit 24 (ucast (lba3 f)) OR push_bit 32 (ucast (lba4 f)) OR push_bit 40 (ucast (lba5 f))"

definition fis_count :: "fis_reg_h2d \<Rightarrow> nat" where
  "fis_count f = (let n = unat (count_low f) + 256 * unat (count_high f) in if n = 0 then 65536 else n)"

definition prd_bytes :: "ahci_prdt_entry \<Rightarrow> nat" where
  "prd_bytes d = unat (dbc d AND 0x3FFFFF) + 1"

definition mem_store :: "u64 \<Rightarrow> bytes \<Rightarrow> mem \<Rightarrow> mem" where
  "mem_store a bs m x = (if unat (x - a) < length bs then bs ! unat (x - a) else m x)"

definition mem_bytes :: "u64 \<Rightarrow> nat \<Rightarrow> mem \<Rightarrow> bytes" where
  "mem_bytes a n m = map (\<lambda>i. m (a + of_nat i)) [0..<n]"

text \<open>
  Execution of slot 0. A command the engine cannot fetch is never executed. An access beyond the disk raises the task file error (bit 30 of \<open>PxIS\<close>). A read delivers as many bytes as the
  region descriptor has room for; a write stores the whole sectors the region provides.
\<close>

definition fetchable :: "ahci \<Rightarrow> nat \<Rightarrow> bool" where
  "fetchable s i \<longleftrightarrow> bit (PxCMD (ports s i)) 0 \<and> join32 (PxCLB (ports s i)) (PxCLBU (ports s i)) = pa s (cl_buffer s) \<and>
     join32 (ctba (cmd_hdr s)) (ctbau (cmd_hdr s)) = pa s (cmd_table_buffer s) \<and> fis_type (cfis s) = 0x27 \<and> bit (pmport_c (cfis s)) 7 \<and> prdtl (cmd_hdr s) = 1"

definition hba_execute :: "nat \<Rightarrow> ahci \<Rightarrow> ahci" where
  "hba_execute i s =
     (let p = ports s i; f = cfis s; lba = fis_lba f; n = fis_count f;
          a = join32 (dba (prdt s)) (dbau (prdt s)); room = prd_bytes (prdt s)
      in if \<not> fetchable s i then s
         else if nr_sectors p < unat lba + n then upd_port i (\<lambda>p. p\<lparr>PxIS := PxIS p OR 0x40000000\<rparr>) s
         else if command f = 0x25 \<and> \<not> bit (opts (cmd_hdr s)) 6 then
           upd_port i (\<lambda>p. p\<lparr>cmd_left := Suc (cmd_time p)\<rparr>) (s\<lparr>phys := mem_store a (take room (disk_read (sectors p) lba n)) (phys s)\<rparr>)
         else if command f = 0x35 \<and> bit (opts (cmd_hdr s)) 6 then
           (let k = min n (room div 512)
            in upd_port i (\<lambda>p. p\<lparr>cmd_left := Suc (cmd_time p), sectors := disk_write (sectors p) lba k (mem_bytes a (512 * k) (phys s))\<rparr>) s)
         else s)"

text \<open>Register accesses with an effect.\<close>

definition read_PxTFD :: "nat \<Rightarrow> ahci \<Rightarrow> u32 \<times> ahci" where
  "read_PxTFD i s = (if 0 < busy (ports s i) then (0x80, upd_port i (\<lambda>p. p\<lparr>busy := busy p - 1\<rparr>) s) else (0x50, s))"

definition write_PxCI :: "nat \<Rightarrow> u32 \<Rightarrow> ahci \<Rightarrow> ahci" where
  "write_PxCI i v s =
     (let s = upd_port i (\<lambda>p. p\<lparr>PxCI := PxCI p OR v, cmd_left := 0\<rparr>) s
      in if bit v 0 then hba_execute i s else s)"

text \<open>A command that is executed counts down; when the count is over the bit is clear.\<close>

definition read_PxCI :: "nat \<Rightarrow> ahci \<Rightarrow> u32 \<times> ahci" where
  "read_PxCI i s =
     (let p = ports s i
      in if cmd_left p = 1 then (PxCI p AND NOT 1, upd_port i (\<lambda>p. p\<lparr>PxCI := PxCI p AND NOT 1, cmd_left := 0\<rparr>) s)
         else (PxCI p, upd_port i (\<lambda>p. p\<lparr>cmd_left := cmd_left p - 1\<rparr>) s))"

definition clear_bits :: "u32 \<Rightarrow> u32 \<Rightarrow> u32" where
  "clear_bits v r = r AND NOT v"

text \<open>The running bits 15 and 14 follow the start bits 0 and 4 with a delay and cannot be written.\<close>

definition set_running :: "u32 \<Rightarrow> u32" where
  "set_running v = (v AND NOT 0xC000) OR (if bit v 0 then 0x8000 else 0) OR (if bit v 4 then 0x4000 else 0)"

definition read_PxCMD :: "nat \<Rightarrow> ahci \<Rightarrow> u32 \<times> ahci" where
  "read_PxCMD i s =
     (let p = ports s i; p = (if lag p = 0 then p\<lparr>PxCMD := set_running (PxCMD p)\<rparr> else p\<lparr>lag := lag p - 1\<rparr>)
      in (PxCMD p, upd_port i (\<lambda>_. p) s))"

definition write_PxCMD :: "nat \<Rightarrow> u32 \<Rightarrow> ahci \<Rightarrow> ahci" where
  "write_PxCMD i v s = upd_port i (\<lambda>p. p\<lparr>PxCMD := (v AND NOT 0xC000) OR (PxCMD p AND 0xC000), lag := engine_lag p\<rparr>) s"

text \<open>Setting bit 0 of the global control register resets the controller; the bit reads as set until the reset is over.\<close>

definition write_ghc :: "u32 \<Rightarrow> ahci \<Rightarrow> ahci" where
  "write_ghc v s = (if bit v 0 then s\<lparr>ghc := v, reset_left := reset_time s\<rparr> else s\<lparr>ghc := v\<rparr>)"

definition reset_port :: "sata_port \<Rightarrow> sata_port" where
  "reset_port p = p\<lparr>PxCLB := 0, PxCLBU := 0, PxFB := 0, PxFBU := 0, PxIS := 0, PxCMD := 0, PxSERR := 0, PxCI := 0, lag := 0, cmd_left := 0\<rparr>"

definition read_ghc :: "ahci \<Rightarrow> u32 \<times> ahci" where
  "read_ghc s =
     (if bit (ghc s) 0 then
        (if 0 < reset_left s then (ghc s, s\<lparr>reset_left := reset_left s - 1\<rparr>)
         else let s = s\<lparr>ghc := 0, ports := (\<lambda>i. reset_port (ports s i))\<rparr> in (ghc s, s))
      else (ghc s, s))"

section \<open>Transfers\<close>

partial_function (option) wait_idle :: "nat \<Rightarrow> ahci \<Rightarrow> ahci option" where
  "wait_idle i s = (let (tfd, s) = read_PxTFD i s in if tfd AND (0x80 OR 0x08) \<noteq> 0 then wait_idle i s else Some s)"

partial_function (option) wait_done :: "nat \<Rightarrow> ahci \<Rightarrow> (int \<times> ahci) option" where
  "wait_done i s =
     (let (ci, s) = read_PxCI i s
      in if ci AND 1 = 0 then Some (0, s)
         else if PxIS (ports s i) AND 0x40000000 \<noteq> 0 then Some (- 1, s)
         else wait_done i s)"

definition zero_fis :: fis_reg_h2d where
  "zero_fis = \<lparr>fis_type = 0, pmport_c = 0, command = 0, features_low = 0, lba0 = 0, lba1 = 0, lba2 = 0, device = 0, lba3 = 0, lba4 = 0, lba5 = 0,
     features_high = 0, count_low = 0, count_high = 0, icc = 0, control = 0\<rparr>"

definition make_fis :: "int \<Rightarrow> u64 \<Rightarrow> u16 \<Rightarrow> fis_reg_h2d" where
  "make_fis wr lba count = zero_fis\<lparr>fis_type := 0x27, pmport_c := push_bit 7 1, command := (if wr \<noteq> 0 then 0x35 else 0x25), device := push_bit 6 1,
     lba0 := ucast (lba AND 0xFF), lba1 := ucast (drop_bit 8 lba AND 0xFF), lba2 := ucast (drop_bit 16 lba AND 0xFF), lba3 := ucast (drop_bit 24 lba AND 0xFF),
     lba4 := ucast (drop_bit 32 lba AND 0xFF), lba5 := ucast (drop_bit 40 lba AND 0xFF),
     count_low := ucast (count AND 0xFF), count_high := ucast (drop_bit 8 count AND 0xFF)\<rparr>"

definition make_prdt :: "u64 \<Rightarrow> u16 \<Rightarrow> ahci_prdt_entry" where
  "make_prdt target_phys count =
     \<lparr>dba = ucast (target_phys AND 0xFFFFFFFF), dbau = ucast (drop_bit 32 target_phys AND 0xFFFFFFFF),
      dbc = ((ucast count * 512 - 1) AND 0x3FFFFF) OR push_bit 31 1\<rparr>"

definition ahci_dma_transfer :: "int \<Rightarrow> nat \<Rightarrow> u64 \<Rightarrow> u16 \<Rightarrow> u64 \<Rightarrow> ahci \<Rightarrow> (int \<times> ahci) option" where
  "ahci_dma_transfer wr i lba count target_buf_virt s = do {
     let s = upd_port i (\<lambda>p. p\<lparr>PxIS := clear_bits 0xFFFFFFFF (PxIS p)\<rparr>) s;
     let s = s\<lparr>cmd_hdr := (cmd_hdr s)\<lparr>opts := 5 OR push_bit 6 (if wr \<noteq> 0 then 1 else 0), prdtl := 1, prdbc := 0\<rparr>\<rparr>;
     let s = s\<lparr>cfis := make_fis wr lba count\<rparr>;
     let target_phys = pa s target_buf_virt;
     let s = s\<lparr>prdt := make_prdt target_phys count\<rparr>;
     s \<leftarrow> wait_idle i s;
     let s = upd_port i (\<lambda>p. p\<lparr>PxSERR := clear_bits 0xFFFFFFFF (PxSERR p)\<rparr>) s;
     let s = write_PxCI i (push_bit 0 1) s;
     wait_done i s }"

definition ahci_read :: "nat \<Rightarrow> u64 \<Rightarrow> u16 \<Rightarrow> u64 \<Rightarrow> ahci \<Rightarrow> (int \<times> ahci) option" where
  "ahci_read i lba count target_buf_virt s = ahci_dma_transfer 0 i lba count target_buf_virt s"

definition ahci_write :: "nat \<Rightarrow> u64 \<Rightarrow> u16 \<Rightarrow> u64 \<Rightarrow> ahci \<Rightarrow> (int \<times> ahci) option" where
  "ahci_write i lba count target_buf_virt s = ahci_dma_transfer 1 i lba count target_buf_virt s"

definition blkdev_ahci_read :: "block_device \<Rightarrow> u64 \<Rightarrow> u32 \<Rightarrow> u64 \<Rightarrow> ahci \<Rightarrow> (int \<times> ahci) option" where
  "blkdev_ahci_read blkdev lba count target_buf_virt s = ahci_dma_transfer 0 (bd_port blkdev) lba (ucast count) target_buf_virt s"

definition blkdev_ahci_write :: "block_device \<Rightarrow> u64 \<Rightarrow> u32 \<Rightarrow> u64 \<Rightarrow> ahci \<Rightarrow> (int \<times> ahci) option" where
  "blkdev_ahci_write blkdev lba count target_buf_virt s = ahci_dma_transfer 1 (bd_port blkdev) lba (ucast count) target_buf_virt s"

section \<open>Block devices\<close>

definition blkdev_register :: "block_device \<Rightarrow> ahci \<Rightarrow> int \<times> ahci" where
  "blkdev_register blkdev s = (0, s\<lparr>blkdev_list := blkdev_list s @ [blkdev]\<rparr>)"

definition blkdev_unregister :: "block_device \<Rightarrow> ahci \<Rightarrow> ahci" where
  "blkdev_unregister blkdev s = s\<lparr>blkdev_list := remove1 blkdev (blkdev_list s)\<rparr>"

definition blkdev_destroy :: "block_device \<Rightarrow> ahci \<Rightarrow> ahci option" where
  "blkdev_destroy blkdev s = do {
     let s = s\<lparr>blkdev_list := remove1 blkdev (blkdev_list s)\<rparr>;
     h \<leftarrow> kh_free (aheap s);
     Some (s\<lparr>aheap := h\<rparr>) }"

definition blkdev_get_by_name :: "bytes option \<Rightarrow> ahci \<Rightarrow> block_device option" where
  "blkdev_get_by_name name s =
     (case name of
        None \<Rightarrow> None
      | Some n \<Rightarrow> if blkdev_list s = [] then None else find (\<lambda>bdev. n = bd_name bdev) (blkdev_list s))"

section \<open>Bringing up the controller\<close>

definition ahci_check_device_type :: "u32 \<Rightarrow> sata_dev_t" where
  "ahci_check_device_type signature =
     (if signature = 0x00000101 then SATA_DEV_SATA
      else if signature = 0xEB140101 then SATA_DEV_SATAPI
      else if signature = 0xC33C0101 then SATA_DEV_SEMB
      else if signature = 0x96690101 then SATA_DEV_PM
      else SATA_DEV_NONE)"

partial_function (option) wait_reset :: "ahci \<Rightarrow> ahci option" where
  "wait_reset s = (let (v, s) = read_ghc s in if v AND 1 \<noteq> 0 then wait_reset s else Some s)"

partial_function (option) wait_stopped :: "nat \<Rightarrow> ahci \<Rightarrow> ahci option" where
  "wait_stopped i s =
     (let (v, s) = read_PxCMD i s
      in if v AND 0x8000 \<noteq> 0 then wait_stopped i s
         else let (v, s) = read_PxCMD i s in if v AND 0x4000 \<noteq> 0 then wait_stopped i s else Some s)"

definition or_PxCMD :: "nat \<Rightarrow> u32 \<Rightarrow> ahci \<Rightarrow> ahci" where
  "or_PxCMD i b s = (let (v, s) = read_PxCMD i s in write_PxCMD i (v OR b) s)"

definition and_PxCMD :: "nat \<Rightarrow> u32 \<Rightarrow> ahci \<Rightarrow> ahci" where
  "and_PxCMD i b s = (let (v, s) = read_PxCMD i s in write_PxCMD i (v AND b) s)"

definition or_ghc :: "u32 \<Rightarrow> ahci \<Rightarrow> ahci" where
  "or_ghc b s = (let (v, s) = read_ghc s in write_ghc (v OR b) s)"

definition lo32 :: "u64 \<Rightarrow> u32" where "lo32 a = ucast (a AND 0xFFFFFFFF)"
definition hi32 :: "u64 \<Rightarrow> u32" where "hi32 a = ucast (drop_bit 32 a AND 0xFFFFFFFF)"

text \<open>The tables of a port whose engine has stopped, and the start of the engine.\<close>

definition start_port :: "nat \<Rightarrow> ahci \<Rightarrow> ahci" where
  "start_port i s =
     (let fis_phys = pa s (fis_buffer s);
          s = upd_port i (\<lambda>p. p\<lparr>PxFB := lo32 fis_phys, PxFBU := hi32 fis_phys\<rparr>) s;
          cl_phys = pa s (cl_buffer s);
          s = upd_port i (\<lambda>p. p\<lparr>PxCLB := lo32 cl_phys, PxCLBU := hi32 cl_phys\<rparr>) s;
          s = s\<lparr>cmd_hdr := \<lparr>opts = 0, prdtl = 0, prdbc = 0, ctba = 0, ctbau = 0\<rparr>\<rparr>;
          ctba_phys = pa s (cmd_table_buffer s);
          s = s\<lparr>cfis := zero_fis, prdt := \<lparr>dba = 0, dbau = 0, dbc = 0\<rparr>\<rparr>;
          s = s\<lparr>cmd_hdr := (cmd_hdr s)\<lparr>ctba := lo32 ctba_phys, ctbau := hi32 ctba_phys\<rparr>\<rparr>;
          s = upd_port i (\<lambda>p. p\<lparr>PxSERR := clear_bits 0xFFFFFFFF (PxSERR p)\<rparr>) s;
          s = or_PxCMD i (push_bit 4 1) s
      in or_PxCMD i (push_bit 0 1) s)"

text \<open>The disk is entered as \<open>sata_dev\<close> and as a block device; a failed allocation is a write through NULL.\<close>

definition register_port :: "nat \<Rightarrow> ahci \<Rightarrow> ahci option" where
  "register_port i s = do {
     (ok, h) \<leftarrow> kh_alloc (aheap s) 24;
     if \<not> ok then None else do {
     let s = s\<lparr>aheap := h, sata_dev := Some i\<rparr>;
     (ok, h) \<leftarrow> kh_alloc (aheap s) 40;
     if \<not> ok then None else do {
     (ok, h) \<leftarrow> kh_alloc h 72;
     if \<not> ok then None else do {
     name \<leftarrow> format_text [0x73, 0x61, 0x74, 0x61, 0x25, 0x64] [Arg_word (of_nat i)];
     let blkdev = \<lparr>bd_name = name, bd_port = i, bd_id = next_bd s\<rparr>;
     Some (snd (blkdev_register blkdev (s\<lparr>aheap := h, next_bd := Suc (next_bd s)\<rparr>))) }}}}"

definition init_port :: "nat \<Rightarrow> ahci \<Rightarrow> ahci option" where
  "init_port i s =
     (let s = or_PxCMD i (push_bit 4 1) s; p = ports s i
      in if PxSSTS p AND 0xf = 0x3 \<and> drop_bit 8 (PxSSTS p AND 0xf00) = 0x1 then
           (if ahci_check_device_type (PxSIG p) = SATA_DEV_SATA then do {
              let s = and_PxCMD i (NOT (push_bit 0 1)) s;
              let s = and_PxCMD i (NOT (push_bit 4 1)) s;
              s \<leftarrow> wait_stopped i s;
              let s = start_port i s;
              let (v, s) = read_PxCMD i s;
              let (w, s) = (if v AND 0x8000 \<noteq> 0 then read_PxCMD i s else (0, s));
              if w AND 0x4000 \<noteq> 0 then register_port i s else Some s }
            else Some s)
         else Some s)"

primrec init_ports :: "u32 \<Rightarrow> nat list \<Rightarrow> ahci \<Rightarrow> ahci option" where
  "init_ports port_implements [] s = Some s"
| "init_ports port_implements (i # is) s =
     (if port_implements AND push_bit i 1 = 0 then init_ports port_implements is s
      else do { s \<leftarrow> init_port i s; init_ports port_implements is s })"

definition sizeof_hba :: nat where "sizeof_hba = 0x1100"

definition ahci_init :: "u64 \<Rightarrow> ahci \<Rightarrow> ahci option" where
  "ahci_init ahci_base s = do {
     let s = s\<lparr>hba := ahci_base + KERNEL_BASE, hba_maps := hba_maps s @ [(ahci_base, ahci_base + KERNEL_BASE, sizeof_hba div 4096 + 1)]\<rparr>;
     let s = or_ghc (push_bit 31 1) s;
     let s = or_ghc (push_bit 0 1) s;
     s \<leftarrow> wait_reset s;
     let s = or_ghc (push_bit 31 1) s;
     let nr_ports = unat (cap s AND 0x1f) + 1;
     init_ports (pi s) [0..<nr_ports] s }"

section \<open>The disk functions of FatFs\<close>

definition get_host_bus_adapter :: "ahci \<Rightarrow> u64" where
  "get_host_bus_adapter s = hba s"

definition get_sata_device :: "ahci \<Rightarrow> nat option" where
  "get_sata_device s = sata_dev s"

definition disk_status :: "u8 \<Rightarrow> u8" where
  "disk_status pdrv = 0"

definition disk_initialize :: "u8 \<Rightarrow> ahci \<Rightarrow> (u8 \<times> ahci) option" where
  "disk_initialize pdrv s = do {
     i \<leftarrow> get_sata_device s;
     Some (0, s\<lparr>g_sata_controller_port := Some i\<rparr>) }"

definition diskio_read :: "u8 \<Rightarrow> u64 \<Rightarrow> u32 \<Rightarrow> u32 \<Rightarrow> ahci \<Rightarrow> (int \<times> ahci) option" where
  "diskio_read pdrv buff sector count s = do {
     i \<leftarrow> g_sata_controller_port s;
     (r, s) \<leftarrow> ahci_read i (ucast sector) (ucast count) buff s;
     Some (0, s) }"

definition diskio_write :: "u8 \<Rightarrow> u64 \<Rightarrow> u32 \<Rightarrow> u32 \<Rightarrow> ahci \<Rightarrow> (int \<times> ahci) option" where
  "diskio_write pdrv buff sector count s = do {
     i \<leftarrow> g_sata_controller_port s;
     (r, s) \<leftarrow> ahci_write i (ucast sector) (ucast count) buff s;
     Some (0, s) }"

definition disk_ioctl :: "u8 \<Rightarrow> u8 \<Rightarrow> int" where
  "disk_ioctl pdrv cmd = 4"

section \<open>The encoding of a command\<close>

lemma low_parts:
  "(ucast (w AND 0xFF) :: u8) = ucast w" "(ucast (w AND 0xFFFFFFFF) :: u32) = ucast w" "(ucast (c AND 0xFF) :: u8) = ucast c"
  for w :: u64 and c :: u16
proof -
  have m: "(0xFF :: u64) = mask 8" "(0xFFFFFFFF :: u64) = mask 32" "(0xFF :: u16) = mask 8" by (simp_all add: mask_eq_exp_minus_1)
  show "(ucast (w AND 0xFF) :: u8) = ucast w" unfolding m
    by (rule bit_word_eqI) (simp add: bit_unsigned_iff bit_and_iff bit_mask_iff del: mask_numeral)
  show "(ucast (w AND 0xFFFFFFFF) :: u32) = ucast w" unfolding m
    by (rule bit_word_eqI) (simp add: bit_unsigned_iff bit_and_iff bit_mask_iff del: mask_numeral)
  show "(ucast (c AND 0xFF) :: u8) = ucast c" unfolding m
    by (rule bit_word_eqI) (simp add: bit_unsigned_iff bit_and_iff bit_mask_iff del: mask_numeral)
qed

lemma fis_lba_make: "unat lba < 2 ^ 48 \<Longrightarrow> fis_lba (make_fis wr lba c) = lba"
proof (rule bit_word_eqI)
  fix n
  assume l: "unat lba < 2 ^ 48" and n: "n < LENGTH(64)"
  have hi: "\<not> bit lba n" if "48 \<le> n" using small_word_bits [OF l, of n] that by auto
  consider "n < 8" | "8 \<le> n" "n < 16" | "16 \<le> n" "n < 24" | "24 \<le> n" "n < 32" | "32 \<le> n" "n < 40" | "40 \<le> n" "n < 48" | "48 \<le> n" by linarith
  then show "bit (fis_lba (make_fis wr lba c)) n = bit lba n"
    using hi n by cases (auto simp: fis_lba_def make_fis_def low_parts bit_or_iff bit_push_bit_iff bit_unsigned_iff bit_drop_bit_eq)
qed

lemma fis_count_make: "fis_count (make_fis wr lba c) = (if c = 0 then 65536 else unat c)"
proof -
  have c: "unat c < 65536" using unsigned_less [where 'a = nat, of c] by simp
  then have d: "unat c div 256 < 256" by (simp add: less_mult_imp_div_less)
  have "unat (count_low (make_fis wr lba c)) = unat c mod 256" by (simp add: make_fis_def low_parts unsigned_ucast_eq take_bit_eq_mod)
  moreover have "unat (count_high (make_fis wr lba c)) = unat c div 256"
    using d by (simp add: make_fis_def low_parts unsigned_ucast_eq take_bit_eq_mod drop_bit_eq_div unat_div)
  ultimately have "unat (count_low (make_fis wr lba c)) + 256 * unat (count_high (make_fis wr lba c)) = unat c" by simp
  then show ?thesis by (simp add: fis_count_def Let_def unat_eq_0)
qed

lemma dbc_bytes: "prd_bytes (make_prdt a c) = unat (ucast c * 512 - 1 :: u32) mod 2 ^ 22 + 1"
proof -
  have m: "(0x3FFFFF :: u32) = mask 22" by (simp add: mask_eq_exp_minus_1)
  have "((x AND mask 22) OR push_bit k 1) AND mask 22 = (x AND mask 22 :: u32)" if "22 \<le> k" for x k
    using that by (intro bit_word_eqI) (auto simp: bit_or_iff bit_and_iff bit_mask_iff bit_push_bit_iff bit_1_iff bit_exp_iff simp del: mask_numeral)
  from this [of 31] have "((x AND mask 22) OR push_bit 31 1) AND mask 22 = (x AND mask 22 :: u32)" for x by simp
  then have "prd_bytes (make_prdt a c) = unat ((ucast c * 512 - 1 :: u32) AND mask 22) + 1"
    unfolding prd_bytes_def make_prdt_def m by simp
  also have "\<dots> = take_bit 22 (unat (ucast c * 512 - 1 :: u32)) + 1" unfolding take_bit_eq_mask [symmetric] unsigned_take_bit_eq ..
  finally show ?thesis by (simp add: take_bit_eq_mod)
qed

lemma prd_bytes_make: "c \<noteq> 0 \<Longrightarrow> unat c \<le> 8192 \<Longrightarrow> prd_bytes (make_prdt a c) = 512 * unat c"
proof -
  assume c: "c \<noteq> 0" "unat c \<le> 8192"
  then have "0 < unat c" by (simp add: unat_gt_0)
  have u: "unat (ucast c * 512 :: u32) = unat c * 512"
    using c by (simp add: unat_word_ariths unsigned_ucast_eq take_bit_nat_eq_self)
  then have "(ucast c * 512 :: u32) \<noteq> 0" using \<open>0 < unat c\<close> by (metis mult_is_0 not_gr_zero unat_0 zero_neq_numeral)
  then have "unat (ucast c * 512 - 1 :: u32) = unat c * 512 - 1" using u by (simp add: unat_minus_one)
  then show ?thesis using c \<open>0 < unat c\<close> by (simp add: dbc_bytes)
qed

lemma prd_bytes_zero: "prd_bytes (make_prdt a 0) = 2 ^ 22"
proof -
  have "unat (- 1 :: u32) mod 2 ^ 22 = 2 ^ 22 - 1" by (simp add: unsigned_minus_1_eq_mask mask_eq_exp_minus_1)
  then show ?thesis by (simp add: dbc_bytes)
qed

lemma lo_hi: "join32 (lo32 a) (hi32 a) = a" "join32 (dba (make_prdt a c)) (dbau (make_prdt a c)) = a"
proof -
  show "join32 (lo32 a) (hi32 a) = a"
  proof (rule bit_word_eqI)
    fix n
    assume "n < LENGTH(64)"
    then show "bit (join32 (lo32 a) (hi32 a)) n = bit a n"
      by (cases "n < 32") (auto simp: join32_def lo32_def hi32_def low_parts bit_or_iff bit_push_bit_iff bit_unsigned_iff bit_drop_bit_eq)
  qed
  then show "join32 (dba (make_prdt a c)) (dbau (make_prdt a c)) = a" by (simp add: make_prdt_def lo32_def hi32_def)
qed

section \<open>Waiting for the port\<close>

lemma upd_port_same [simp]: "ports (upd_port i f s) i = f (ports s i)"
  by (simp add: upd_port_def)

lemma upd_port_upd_port [simp]: "upd_port i f (upd_port i g s) = upd_port i (\<lambda>p. f (g p)) s"
  by (simp add: upd_port_def)

lemma upd_port_other [simp]: "j \<noteq> i \<Longrightarrow> ports (upd_port i f s) j = ports s j"
  by (simp add: upd_port_def)

lemma upd_port_frame [simp]:
  "cmd_hdr (upd_port i f s) = cmd_hdr s" "cfis (upd_port i f s) = cfis s" "prdt (upd_port i f s) = prdt s" "phys (upd_port i f s) = phys s"
  "pa (upd_port i f s) = pa s" "cl_buffer (upd_port i f s) = cl_buffer s" "cmd_table_buffer (upd_port i f s) = cmd_table_buffer s" "fis_buffer (upd_port i f s) = fis_buffer s"
  "aheap (upd_port i f s) = aheap s" "blkdev_list (upd_port i f s) = blkdev_list s" "sata_dev (upd_port i f s) = sata_dev s" "next_bd (upd_port i f s) = next_bd s"
  "g_sata_controller_port (upd_port i f s) = g_sata_controller_port s"
  "ghc (upd_port i f s) = ghc s" "pi (upd_port i f s) = pi s" "cap (upd_port i f s) = cap s" "hba (upd_port i f s) = hba s" "hba_maps (upd_port i f s) = hba_maps s"
  by (simp_all add: upd_port_def)

lemma and_1_iff: "(w :: u32) AND 1 = 0 \<longleftrightarrow> \<not> bit w 0"
  by (simp add: and_one_eq mod_2_eq_odd bit_0)

lemma clear_0: "\<not> bit ((w :: u32) AND - 2) 0"
  using bit_and_iff [of w "NOT 1" 0] by (simp add: bit_not_iff)

lemma port_noop: "cmd_left p = c \<Longrightarrow> p\<lparr>cmd_left := c\<rparr> = p" "busy p = b \<Longrightarrow> p\<lparr>busy := b\<rparr> = p"
  by (cases p, simp)+

lemma upd_port_noop: "f (ports s i) = ports s i \<Longrightarrow> upd_port i f s = s"
  by (simp add: upd_port_def)

lemma upd_port_cong: "f (ports s i) = g (ports s i) \<Longrightarrow> upd_port i f s = upd_port i g s"
  by (simp add: upd_port_def)

lemma wait_idle_returns: "wait_idle i s = Some (upd_port i (\<lambda>p. p\<lparr>busy := 0\<rparr>) s)"
proof (induction "busy (ports s i)" arbitrary: s)
  case 0
  then have "upd_port i (\<lambda>p. p\<lparr>busy := 0\<rparr>) s = s" by (intro upd_port_noop port_noop) simp
  then show ?case using 0 by (subst wait_idle.simps) (simp add: read_PxTFD_def)
next
  case (Suc b)
  define s' where "s' = upd_port i (\<lambda>p. p\<lparr>busy := busy p - 1\<rparr>) s"
  have "busy (ports s i) = Suc b" using Suc(2) by simp
  then have r: "read_PxTFD i s = (0x80, s')" by (simp add: read_PxTFD_def s'_def)
  have "b = busy (ports s' i)" using \<open>busy (ports s i) = Suc b\<close> by (simp add: s'_def)
  from Suc(1) [OF this] have "wait_idle i s' = Some (upd_port i (\<lambda>p. p\<lparr>busy := 0\<rparr>) s')" .
  then show ?case by (subst wait_idle.simps) (simp add: r, simp add: s'_def)
qed

lemma wait_done_returns:
  assumes "cmd_left (ports s i) = Suc k" "PxIS (ports s i) AND 0x40000000 = 0"
  shows "\<exists>r. wait_done i s = Some (0, upd_port i (\<lambda>p. p\<lparr>PxCI := PxCI p AND NOT 1, cmd_left := r\<rparr>) s)"
  using assms
proof (induction k arbitrary: s)
  case 0
  then show ?case by (subst wait_done.simps) (auto simp: read_PxCI_def Let_def and_1_iff clear_0)
next
  case (Suc k)
  define s' where "s' = upd_port i (\<lambda>p. p\<lparr>cmd_left := cmd_left p - 1\<rparr>) s"
  have r: "read_PxCI i s = (PxCI (ports s i), s')" using Suc(2) by (simp add: read_PxCI_def s'_def Let_def)
  have "cmd_left (ports s' i) = Suc k" "PxIS (ports s' i) AND 0x40000000 = 0" using Suc by (simp_all add: s'_def)
  from Suc(1) [OF this] obtain q where q: "wait_done i s' = Some (0, upd_port i (\<lambda>p. p\<lparr>PxCI := PxCI p AND NOT 1, cmd_left := q\<rparr>) s')" by blast
  show ?case
  proof (cases "PxCI (ports s i) AND 1 = 0")
    case True
    have "PxCI (ports s i) AND NOT 1 = PxCI (ports s i)"
    proof (rule bit_word_eqI)
      fix n show "bit (PxCI (ports s i) AND NOT 1) n = bit (PxCI (ports s i)) n" if "n < LENGTH(32)" for n
        using True that by (cases "n = 0") (auto simp: bit_and_iff bit_not_iff bit_1_iff and_1_iff)
    qed
    then have "s' = upd_port i (\<lambda>p. p\<lparr>PxCI := PxCI p AND NOT 1, cmd_left := Suc k\<rparr>) s" using Suc(2) by (simp add: s'_def upd_port_def)
    then show ?thesis using True by (subst wait_done.simps) (auto simp: r)
  next
    case False
    then have "wait_done i s = wait_done i s'" using Suc(3) by (subst wait_done.simps) (simp add: r s'_def)
    then show ?thesis using q by (auto simp: s'_def)
  qed
qed

lemma wait_done_error:
  assumes "cmd_left (ports s i) = 0" "bit (PxCI (ports s i)) 0" "PxIS (ports s i) AND 0x40000000 \<noteq> 0"
  shows "wait_done i s = Some (- 1, s)"
proof -
  have "read_PxCI i s = (PxCI (ports s i), s)" using assms(1) by (simp add: read_PxCI_def Let_def upd_port_noop port_noop)
  moreover have "PxCI (ports s i) AND 1 \<noteq> 0" using assms(2) by (simp add: and_1_iff)
  ultimately show ?thesis using assms(3) by (subst wait_done.simps) simp
qed

lemma wait_done_stuck:
  assumes "cmd_left (ports s i) = 0" "bit (PxCI (ports s i)) 0" "PxIS (ports s i) AND 0x40000000 = 0"
  shows "wait_done i s = None"
proof -
  have "\<not> (cmd_left (ports s i) = 0 \<and> bit (PxCI (ports s i)) 0 \<and> PxIS (ports s i) AND 0x40000000 = 0)" if "wait_done i s = Some r" for r
  proof (rule wait_done.raw_induct [OF _ that, where P = "\<lambda>i s _. \<not> (cmd_left (ports s i) = 0 \<and> bit (PxCI (ports s i)) 0 \<and> PxIS (ports s i) AND 0x40000000 = 0)"])
    fix f i s r
    assume IH: "\<And>i s r. f i s = Some r \<Longrightarrow> \<not> (cmd_left (ports s i) = 0 \<and> bit (PxCI (ports s i)) 0 \<and> PxIS (ports s i) AND 0x40000000 = 0)"
      and r: "(let (ci, s) = read_PxCI i s in if ci AND 1 = 0 then Some (0, s) else if PxIS (ports s i) AND 0x40000000 \<noteq> 0 then Some (- 1, s) else f i s) = Some r"
    show "\<not> (cmd_left (ports s i) = 0 \<and> bit (PxCI (ports s i)) 0 \<and> PxIS (ports s i) AND 0x40000000 = 0)"
    proof
      assume a: "cmd_left (ports s i) = 0 \<and> bit (PxCI (ports s i)) 0 \<and> PxIS (ports s i) AND 0x40000000 = 0"
      then have "read_PxCI i s = (PxCI (ports s i), s)" by (simp add: read_PxCI_def Let_def upd_port_noop port_noop)
      moreover have "PxCI (ports s i) AND 1 \<noteq> 0" using a by (simp add: and_1_iff)
      ultimately have "f i s = Some r" using a r by simp
      from IH [OF this] show False using a by simp
    qed
  qed
  then show ?thesis using assms by (cases "wait_done i s") auto
qed

section \<open>Transfers are correct\<close>

text \<open>
  A port is ready when its engine runs and its tables are the driver's; \<open>contiguous\<close> is what the single region descriptor of a transfer needs of a buffer; \<open>virt_bytes\<close> is what the kernel reads in it.
\<close>

definition port_ready :: "nat \<Rightarrow> ahci \<Rightarrow> bool" where
  "port_ready i s \<longleftrightarrow> bit (PxCMD (ports s i)) 0 \<and> join32 (PxCLB (ports s i)) (PxCLBU (ports s i)) = pa s (cl_buffer s) \<and>
     join32 (ctba (cmd_hdr s)) (ctbau (cmd_hdr s)) = pa s (cmd_table_buffer s)"

definition contiguous :: "u64 \<Rightarrow> nat \<Rightarrow> ahci \<Rightarrow> bool" where
  "contiguous buf n s \<longleftrightarrow> (\<forall>k < n. pa s (buf + of_nat k) = pa s buf + of_nat k)"

definition virt_bytes :: "u64 \<Rightarrow> nat \<Rightarrow> ahci \<Rightarrow> bytes" where
  "virt_bytes buf n s = map (\<lambda>k. phys s (pa s (buf + of_nat k))) [0..<n]"

definition prepared :: "int \<Rightarrow> nat \<Rightarrow> u64 \<Rightarrow> u16 \<Rightarrow> u64 \<Rightarrow> ahci \<Rightarrow> ahci" where
  "prepared wr i lba c buf s = upd_port i (\<lambda>p. p\<lparr>PxIS := 0, busy := 0, PxSERR := 0\<rparr>)
     (s\<lparr>cmd_hdr := (cmd_hdr s)\<lparr>opts := 5 OR push_bit 6 (if wr \<noteq> 0 then 1 else 0), prdtl := 1, prdbc := 0\<rparr>, cfis := make_fis wr lba c, prdt := make_prdt (pa s buf) c\<rparr>)"

lemma clear_all: "clear_bits 0xFFFFFFFF w = 0"
proof -
  have "clear_bits (mask 32) w = 0"
    unfolding clear_bits_def by (rule bit_word_eqI) (simp add: bit_and_iff bit_not_iff bit_mask_iff del: mask_numeral)
  then show ?thesis by (simp add: mask_eq_exp_minus_1)
qed

lemma ahci_dma_transfer_eq: "ahci_dma_transfer wr i lba c buf s = wait_done i (write_PxCI i 1 (prepared wr i lba c buf s))"
  unfolding ahci_dma_transfer_def Let_def wait_idle_returns prepared_def clear_all
  by (simp add: upd_port_def)

lemma prepared_fields [simp]:
  "cfis (prepared wr i lba c buf s) = make_fis wr lba c" "prdt (prepared wr i lba c buf s) = make_prdt (pa s buf) c"
  "pa (prepared wr i lba c buf s) = pa s" "phys (prepared wr i lba c buf s) = phys s"
  "cmd_hdr (prepared wr i lba c buf s) = (cmd_hdr s)\<lparr>opts := 5 OR push_bit 6 (if wr \<noteq> 0 then 1 else 0), prdtl := 1, prdbc := 0\<rparr>"
  "ports (prepared wr i lba c buf s) i = (ports s i)\<lparr>PxIS := 0, busy := 0, PxSERR := 0\<rparr>"
  by (simp_all add: prepared_def)

lemma opts_bit: "bit (5 :: u16) 6 = False" "bit (69 :: u16) 6" "bit (128 :: u8) 7"
  by (simp_all add: bit_numeral_rec)

lemma make_fis_fields [simp]:
  "fis_type (make_fis wr lba c) = 0x27" "pmport_c (make_fis wr lba c) = 128" "command (make_fis wr lba c) = (if wr \<noteq> 0 then 0x35 else 0x25)"
  by (simp_all add: make_fis_def)

lemma fetchable_prepared:
  "port_ready i s \<Longrightarrow> fetchable (upd_port i (\<lambda>p. p\<lparr>PxCI := v, cmd_left := l\<rparr>) (prepared wr i lba c buf s)) i"
  by (simp add: fetchable_def port_ready_def opts_bit) (simp add: prepared_def)

text \<open>The request lies on the disk and fits into one region descriptor.\<close>

definition on_disk :: "nat \<Rightarrow> u64 \<Rightarrow> u16 \<Rightarrow> ahci \<Rightarrow> bool" where
  "on_disk i lba c s \<longleftrightarrow> c \<noteq> 0 \<and> unat c \<le> 8192 \<and> unat lba + unat c \<le> nr_sectors (ports s i) \<and> nr_sectors (ports s i) \<le> 2 ^ 48"

definition done_port :: "nat \<Rightarrow> sata_port \<Rightarrow> sata_port" where
  "done_port r p = p\<lparr>PxIS := 0, busy := 0, PxSERR := 0, PxCI := (PxCI p OR 1) AND NOT 1, cmd_left := r\<rparr>"

lemma done_port_fields [simp]:
  "PxCMD (done_port r p) = PxCMD p" "PxCLB (done_port r p) = PxCLB p" "PxCLBU (done_port r p) = PxCLBU p" "sectors (done_port r p) = sectors p" "nr_sectors (done_port r p) = nr_sectors p"
  by (simp_all add: done_port_def)

lemma done_port_sectors: "done_port r (p\<lparr>sectors := d\<rparr>) = p\<lparr>PxIS := 0, busy := 0, PxSERR := 0, sectors := d, PxCI := (PxCI p OR 1) AND NOT 1, cmd_left := r\<rparr>"
  by (cases p) (simp add: done_port_def)

lemma on_disk_fis: "on_disk i lba c s \<Longrightarrow> fis_lba (make_fis wr lba c) = lba" "on_disk i lba c s \<Longrightarrow> fis_count (make_fis wr lba c) = unat c"
  "on_disk i lba c s \<Longrightarrow> prd_bytes (make_prdt a c) = 512 * unat c"
proof -
  assume a: "on_disk i lba c s"
  then have "0 < unat c" by (simp add: on_disk_def unat_gt_0)
  then have "unat lba < 2 ^ 48" using a unfolding on_disk_def by linarith
  then show "fis_lba (make_fis wr lba c) = lba" by (rule fis_lba_make)
  show "fis_count (make_fis wr lba c) = unat c" "prd_bytes (make_prdt a c) = 512 * unat c"
    using a by (simp_all add: on_disk_def fis_count_make prd_bytes_make)
qed

lemma length_disk_read: "(\<And>l. length (d l) = 512) \<Longrightarrow> length (disk_read d lba n) = 512 * n"
  by (simp add: disk_read_def length_concat o_def sum_list_triv)

lemma transfer_read:
  assumes "port_ready i s" "on_disk i lba c s" "\<And>l. length (sectors (ports s i) l) = 512"
  shows "\<exists>r. ahci_dma_transfer 0 i lba c buf s = Some (0, upd_port i (done_port r)
    ((prepared 0 i lba c buf s)\<lparr>phys := mem_store (pa s buf) (disk_read (sectors (ports s i)) lba (unat c)) (phys s)\<rparr>))"
proof -
  let ?t = "upd_port i (\<lambda>p. p\<lparr>PxCI := PxCI p OR 1, cmd_left := 0\<rparr>) (prepared 0 i lba c buf s)"
  have f: "fetchable ?t i" using fetchable_prepared [OF assms(1)] by (simp add: fetchable_def)
  have l: "length (disk_read (sectors (ports s i)) lba (unat c)) = 512 * unat c" using assms(3) by (rule length_disk_read)
  have "hba_execute i ?t = upd_port i (\<lambda>p. p\<lparr>PxCI := PxCI p OR 1, cmd_left := Suc (cmd_time p)\<rparr>)
      ((prepared 0 i lba c buf s)\<lparr>phys := mem_store (pa s buf) (disk_read (sectors (ports s i)) lba (unat c)) (phys s)\<rparr>)"
    using assms(2) f l by (simp add: hba_execute_def Let_def on_disk_fis [OF assms(2)] lo_hi opts_bit on_disk_def) (simp add: upd_port_def)
  then have w: "write_PxCI i 1 (prepared 0 i lba c buf s) = upd_port i (\<lambda>p. p\<lparr>PxCI := PxCI p OR 1, cmd_left := Suc (cmd_time p)\<rparr>)
      ((prepared 0 i lba c buf s)\<lparr>phys := mem_store (pa s buf) (disk_read (sectors (ports s i)) lba (unat c)) (phys s)\<rparr>)"
    by (simp add: write_PxCI_def Let_def)
  show ?thesis unfolding ahci_dma_transfer_eq w
    using wait_done_returns [of "upd_port i (\<lambda>p. p\<lparr>PxCI := PxCI p OR 1, cmd_left := Suc (cmd_time p)\<rparr>)
      ((prepared 0 i lba c buf s)\<lparr>phys := mem_store (pa s buf) (disk_read (sectors (ports s i)) lba (unat c)) (phys s)\<rparr>)" i]
    by (auto simp: done_port_def prepared_def upd_port_def)
qed

lemma transfer_write:
  assumes "port_ready i s" "on_disk i lba c s" "wr \<noteq> 0"
  shows "\<exists>r. ahci_dma_transfer wr i lba c buf s = Some (0, upd_port i (\<lambda>p. done_port r (p\<lparr>sectors := disk_write (sectors p) lba (unat c) (mem_bytes (pa s buf) (512 * unat c) (phys s))\<rparr>))
    (prepared wr i lba c buf s))"
proof -
  let ?t = "upd_port i (\<lambda>p. p\<lparr>PxCI := PxCI p OR 1, cmd_left := 0\<rparr>) (prepared wr i lba c buf s)"
  let ?u = "upd_port i (\<lambda>p. p\<lparr>PxCI := PxCI p OR 1, cmd_left := Suc (cmd_time p), sectors := disk_write (sectors p) lba (unat c) (mem_bytes (pa s buf) (512 * unat c) (phys s))\<rparr>)
      (prepared wr i lba c buf s)"
  have f: "fetchable ?t i" using fetchable_prepared [OF assms(1)] by (simp add: fetchable_def)
  have "hba_execute i ?t = ?u"
    using assms(2,3) f by (simp add: hba_execute_def Let_def on_disk_fis [OF assms(2)] lo_hi opts_bit on_disk_def)
  then have w: "write_PxCI i 1 (prepared wr i lba c buf s) = ?u" by (simp add: write_PxCI_def Let_def)
  show ?thesis unfolding ahci_dma_transfer_eq w using wait_done_returns [of ?u i]
    by (auto simp: done_port_sectors prepared_def upd_port_def)
qed

lemma transfer_error:
  assumes "port_ready i s" "unat lba < 2 ^ 48" "nr_sectors (ports s i) < unat lba + (if c = 0 then 65536 else unat c)"
  shows "ahci_dma_transfer wr i lba c buf s = Some (- 1, upd_port i (\<lambda>p. p\<lparr>PxCI := PxCI p OR 1, cmd_left := 0, PxIS := 0x40000000\<rparr>) (prepared wr i lba c buf s))"
proof -
  let ?t = "upd_port i (\<lambda>p. p\<lparr>PxCI := PxCI p OR 1, cmd_left := 0\<rparr>) (prepared wr i lba c buf s)"
  let ?u = "upd_port i (\<lambda>p. p\<lparr>PxCI := PxCI p OR 1, cmd_left := 0, PxIS := 0x40000000\<rparr>) (prepared wr i lba c buf s)"
  have f: "fetchable ?t i" using fetchable_prepared [OF assms(1)] by (simp add: fetchable_def)
  have "hba_execute i ?t = ?u"
    using assms f by (simp add: hba_execute_def Let_def fis_lba_make fis_count_make) (simp add: upd_port_def)
  then have w: "write_PxCI i 1 (prepared wr i lba c buf s) = ?u" by (simp add: write_PxCI_def Let_def)
  have "wait_done i ?u = Some (- 1, ?u)" by (rule wait_done_error) (simp_all add: bit_or_iff)
  then show ?thesis unfolding ahci_dma_transfer_eq w .
qed

text \<open>The disk as an array of sectors.\<close>

lemma disk_write_apply:
  assumes "n < 2 ^ 64"
  shows "disk_write d lba n buf l = (if unat (l - lba) < n then map (byte_at buf) [512 * unat (l - lba)..<512 * unat (l - lba) + 512] else d l)"
  using assms
proof (induction n)
  case 0
  then show ?case by (simp add: disk_write_def)
next
  case (Suc n)
  have eq: "l = lba + of_nat n \<longleftrightarrow> unat (l - lba) = n"
  proof
    assume "l = lba + of_nat n"
    then have "l - lba = of_nat n" by simp
    then show "unat (l - lba) = n" using Suc(2) by (simp only: unat_of_nat_small)
  next
    assume "unat (l - lba) = n"
    then have "of_nat (unat (l - lba)) = (of_nat n :: u64)" by simp
    then show "l = lba + of_nat n" by (simp add: algebra_simps)
  qed
  have "disk_write d lba (Suc n) buf = (disk_write d lba n buf)(lba + of_nat n := map (byte_at buf) [512 * n..<512 * n + 512])"
    by (simp add: disk_write_def)
  then show ?case using Suc eq by (auto simp: less_Suc_eq)
qed

lemma disk_read_write_same:
  assumes "length buf = 512 * n" "n < 2 ^ 64"
  shows "disk_read (disk_write d lba n buf) lba n = buf"
proof -
  have "disk_read (disk_write d lba n buf) lba n = concat (map (\<lambda>i. map (byte_at buf) [512 * i..<512 * i + 512]) [0..<n])"
    using assms(2) by (auto simp: disk_read_def disk_write_apply unat_of_nat_small intro!: arg_cong [where f = concat])
  also have "\<dots> = map (byte_at buf) [0..<512 * n]"
  proof (induction n)
    case (Suc n)
    have "[0..<512 * Suc n] = [0..<512 * n] @ [512 * n..<512 * n + 512]" using upt_add_eq_append [of 0 "512 * n" 512] by (simp add: add.commute)
    then have "map (byte_at buf) [0..<512 * Suc n] = map (byte_at buf) [0..<512 * n] @ map (byte_at buf) [512 * n..<512 * n + 512]" by (simp only: map_append)
    then show ?case using Suc by simp
  qed simp
  also have "\<dots> = buf" using assms(1) by (intro nth_equalityI) (simp_all add: byte_at_def)
  finally show ?thesis .
qed

lemma disk_read_write_other:
  assumes "unat lba + n < 2 ^ 64" "unat lba' + m < 2 ^ 64" "unat lba' + m \<le> unat lba \<or> unat lba + n \<le> unat lba'"
  shows "disk_read (disk_write d lba n buf) lba' m = disk_read d lba' m"
proof -
  have "disk_write d lba n buf (lba' + of_nat k) = d (lba' + of_nat k)" if "k < m" for k
  proof -
    have u: "unat (lba' + of_nat k) = unat lba' + k" using assms(2) that by (intro unat_add_of_nat) linarith
    have "\<not> unat (lba' + of_nat k - lba) < n"
    proof
      assume "unat (lba' + of_nat k - lba) < n"
      moreover from this have "unat (lba + of_nat (unat (lba' + of_nat k - lba))) = unat lba + unat (lba' + of_nat k - lba)"
        using assms(1) by (intro unat_add_of_nat) linarith
      ultimately show False using u assms(3) that by simp
    qed
    then show ?thesis using assms(1) by (subst disk_write_apply) auto
  qed
  then show ?thesis by (auto simp: disk_read_def intro!: arg_cong [where f = concat])
qed

lemma virt_bytes_contiguous: "contiguous buf n s \<Longrightarrow> virt_bytes buf n s = mem_bytes (pa s buf) n (phys s)"
  by (simp add: virt_bytes_def contiguous_def mem_bytes_def)

lemma mem_bytes_store: "length bs < 2 ^ 64 \<Longrightarrow> mem_bytes a (length bs) (mem_store a bs m) = bs"
  by (intro nth_equalityI) (simp_all add: mem_bytes_def mem_store_def unat_of_nat_small)

lemma prepared_frame [simp]:
  "port_ready j (prepared wr i lba c buf s) = port_ready j s" "sectors (ports (prepared wr i lba c buf s) j) = sectors (ports s j)" 
  "nr_sectors (ports (prepared wr i lba c buf s) j) = nr_sectors (ports s j)"
  by (simp_all add: port_ready_def prepared_def upd_port_def)

section \<open>Sector input and output as an interface\<close>

text \<open>
  What a client of a disk relies on: a request that fits returns success; a read delivers the sectors into the buffer and leaves the disk alone, a write stores the buffer on the disk and leaves memory alone.
\<close>

locale sector_io =
  fixes ready :: "'s \<Rightarrow> bool"
    and fits :: "u64 \<Rightarrow> nat \<Rightarrow> u64 \<Rightarrow> 's \<Rightarrow> bool"
    and contents :: "'s \<Rightarrow> disk"
    and buffer :: "u64 \<Rightarrow> nat \<Rightarrow> 's \<Rightarrow> bytes"
    and rd :: "u64 \<Rightarrow> nat \<Rightarrow> u64 \<Rightarrow> 's \<Rightarrow> (int \<times> 's) option"
    and wr :: "u64 \<Rightarrow> nat \<Rightarrow> u64 \<Rightarrow> 's \<Rightarrow> (int \<times> 's) option"
  assumes fits_bound: "ready s \<Longrightarrow> fits lba n buf s \<Longrightarrow> unat lba + n < 2 ^ 64"
    and buffer_length: "length (buffer buf n s) = 512 * n"
    and rd_returns: "ready s \<Longrightarrow> fits lba n buf s \<Longrightarrow>
      \<exists>s'. rd lba n buf s = Some (0, s') \<and> ready s' \<and> fits lba' n' buf' s' = fits lba' n' buf' s \<and> contents s' = contents s \<and> buffer buf n s' = disk_read (contents s) lba n"
    and wr_returns: "ready s \<Longrightarrow> fits lba n buf s \<Longrightarrow>
      \<exists>s'. wr lba n buf s = Some (0, s') \<and> ready s' \<and> fits lba' n' buf' s' = fits lba' n' buf' s \<and> contents s' = disk_write (contents s) lba n (buffer buf n s) \<and>
        buffer buf' n' s' = buffer buf' n' s"
begin

lemma write_read_back:
  assumes "ready s" "fits lba n buf s" "fits lba n buf' s"
  shows "\<exists>s1 s2. wr lba n buf s = Some (0, s1) \<and> rd lba n buf' s1 = Some (0, s2) \<and> buffer buf' n s2 = buffer buf n s"
proof -
  obtain s1 where s1: "wr lba n buf s = Some (0, s1)" "ready s1" "fits lba n buf' s1 = fits lba n buf' s" "contents s1 = disk_write (contents s) lba n (buffer buf n s)"
    using wr_returns [OF assms(1,2)] by blast
  moreover obtain s2 where "rd lba n buf' s1 = Some (0, s2)" "buffer buf' n s2 = disk_read (contents s1) lba n"
    using rd_returns [OF s1(2), of lba n buf'] s1(3) assms(3) by blast
  moreover have "n < 2 ^ 64" using fits_bound [OF assms(1,2)] by linarith
  ultimately show ?thesis by (auto simp: disk_read_write_same buffer_length)
qed

lemma write_read_other:
  assumes "ready s" "fits lba n buf s" "fits lba' m buf' s" "unat lba' + m \<le> unat lba \<or> unat lba + n \<le> unat lba'"
  shows "\<exists>s1 s2. wr lba n buf s = Some (0, s1) \<and> rd lba' m buf' s1 = Some (0, s2) \<and> buffer buf' m s2 = disk_read (contents s) lba' m"
proof -
  obtain s1 where s1: "wr lba n buf s = Some (0, s1)" "ready s1" "fits lba' m buf' s1 = fits lba' m buf' s" "contents s1 = disk_write (contents s) lba n (buffer buf n s)"
    using wr_returns [OF assms(1,2)] by blast
  moreover obtain s2 where "rd lba' m buf' s1 = Some (0, s2)" "buffer buf' m s2 = disk_read (contents s1) lba' m"
    using rd_returns [OF s1(2), of lba' m buf'] s1(3) assms(3) by blast
  ultimately show ?thesis using disk_read_write_other [OF fits_bound [OF assms(1,2)] fits_bound [OF assms(1,3)] assms(4)] by auto
qed

end

text \<open>The driver provides it for each port that is ready.\<close>

definition sata_ready :: "nat \<Rightarrow> ahci \<Rightarrow> bool" where
  "sata_ready i s \<longleftrightarrow> port_ready i s \<and> nr_sectors (ports s i) \<le> 2 ^ 48 \<and> (\<forall>l. length (sectors (ports s i) l) = 512)"

definition sata_fits :: "nat \<Rightarrow> u64 \<Rightarrow> nat \<Rightarrow> u64 \<Rightarrow> ahci \<Rightarrow> bool" where
  "sata_fits i lba n buf s \<longleftrightarrow> 0 < n \<and> n \<le> 8192 \<and> unat lba + n \<le> nr_sectors (ports s i) \<and> contiguous buf (512 * n) s"

lemma sata_fits_on_disk:
  assumes "sata_ready i s" "sata_fits i lba n buf s"
  shows "on_disk i lba (of_nat n) s" "unat (of_nat n :: u16) = n" "contiguous buf (512 * n) s"
proof -
  have "n < 2 ^ 16" using assms(2) by (simp add: sata_fits_def)
  then show u: "unat (of_nat n :: u16) = n" by (simp add: unat_of_nat take_bit_nat_eq_self)
  then have "(of_nat n :: u16) \<noteq> 0" using assms(2) by (metis not_gr_zero sata_fits_def unat_0)
  then show "on_disk i lba (of_nat n) s" using assms u by (simp add: on_disk_def sata_ready_def sata_fits_def)
  show "contiguous buf (512 * n) s" using assms(2) by (simp add: sata_fits_def)
qed

lemma ahci_read_returns:
  assumes "sata_ready i s" "sata_fits i lba n buf s"
  shows "\<exists>s'. ahci_read i lba (of_nat n) buf s = Some (0, s') \<and> sata_ready i s' \<and> sata_fits i lba' n' buf' s' = sata_fits i lba' n' buf' s \<and>
    sectors (ports s' i) = sectors (ports s i) \<and> virt_bytes buf (512 * n) s' = disk_read (sectors (ports s i)) lba n \<and>
    phys s' = mem_store (pa s buf) (disk_read (sectors (ports s i)) lba n) (phys s) \<and> g_sata_controller_port s' = g_sata_controller_port s"
proof -
  note f = sata_fits_on_disk [OF assms]
  have r: "port_ready i s" "\<And>l. length (sectors (ports s i) l) = 512" using assms(1) by (auto simp: sata_ready_def)
  obtain r where t: "ahci_dma_transfer 0 i lba (of_nat n) buf s = Some (0, upd_port i (done_port r)
    ((prepared 0 i lba (of_nat n) buf s)\<lparr>phys := mem_store (pa s buf) (disk_read (sectors (ports s i)) lba n) (phys s)\<rparr>))"
    using transfer_read [OF r(1) f(1) r(2)] f(2) by auto
  let ?s = "upd_port i (done_port r) ((prepared 0 i lba (of_nat n) buf s)\<lparr>phys := mem_store (pa s buf) (disk_read (sectors (ports s i)) lba n) (phys s)\<rparr>)"
  have l: "length (disk_read (sectors (ports s i)) lba n) = 512 * n" using r(2) by (rule length_disk_read)
  have n: "512 * n < 2 ^ 64" using assms(2) by (simp add: sata_fits_def)
  have "virt_bytes buf (512 * n) ?s = mem_bytes (pa s buf) (512 * n) (phys ?s)"
    using f(3) by (subst virt_bytes_contiguous) (simp_all add: contiguous_def)
  also have "\<dots> = disk_read (sectors (ports s i)) lba n" using mem_bytes_store [of "disk_read (sectors (ports s i)) lba n"] l n by simp
  finally have v: "virt_bytes buf (512 * n) ?s = disk_read (sectors (ports s i)) lba n" .
  have "sata_ready i ?s" "sata_fits i lba' n' buf' ?s = sata_fits i lba' n' buf' s"
    using assms(1) by (simp_all add: sata_ready_def sata_fits_def port_ready_def contiguous_def) (simp add: prepared_def)
  moreover have "g_sata_controller_port ?s = g_sata_controller_port s" by (simp add: prepared_def)
  ultimately show ?thesis unfolding ahci_read_def t using v by auto
qed

lemma ahci_write_returns:
  assumes "sata_ready i s" "sata_fits i lba n buf s"
  shows "\<exists>s'. ahci_write i lba (of_nat n) buf s = Some (0, s') \<and> sata_ready i s' \<and> sata_fits i lba' n' buf' s' = sata_fits i lba' n' buf' s \<and>
    sectors (ports s' i) = disk_write (sectors (ports s i)) lba n (virt_bytes buf (512 * n) s) \<and> virt_bytes buf' (512 * n') s' = virt_bytes buf' (512 * n') s \<and>
    phys s' = phys s \<and> g_sata_controller_port s' = g_sata_controller_port s"
proof -
  note f = sata_fits_on_disk [OF assms]
  have r: "port_ready i s" "\<And>l. length (sectors (ports s i) l) = 512" using assms(1) by (auto simp: sata_ready_def)
  obtain r where t: "ahci_dma_transfer 1 i lba (of_nat n) buf s =
    Some (0, upd_port i (\<lambda>p. done_port r (p\<lparr>sectors := disk_write (sectors p) lba n (virt_bytes buf (512 * n) s)\<rparr>)) (prepared 1 i lba (of_nat n) buf s))"
    using transfer_write [OF r(1) f(1), of 1 buf] f(2) virt_bytes_contiguous [OF f(3)] by auto
  let ?s = "upd_port i (\<lambda>p. done_port r (p\<lparr>sectors := disk_write (sectors p) lba n (virt_bytes buf (512 * n) s)\<rparr>)) (prepared 1 i lba (of_nat n) buf s)"
  have "n < 2 ^ 64" using assms(2) by (simp add: sata_fits_def)
  then have "\<forall>l. length (sectors (ports ?s i) l) = 512" using r(2) by (simp add: disk_write_apply)
  then have "sata_ready i ?s" "sata_fits i lba' n' buf' ?s = sata_fits i lba' n' buf' s"
    using assms(1) by (simp_all add: sata_ready_def sata_fits_def port_ready_def contiguous_def) (simp add: prepared_def)
  moreover have "g_sata_controller_port ?s = g_sata_controller_port s" by (simp add: prepared_def)
  ultimately show ?thesis unfolding ahci_write_def t by (auto simp: virt_bytes_def)
qed

interpretation sata: sector_io "sata_ready i" "sata_fits i" "\<lambda>s. sectors (ports s i)" "\<lambda>buf n. virt_bytes buf (512 * n)"
  "\<lambda>lba n buf. ahci_read i lba (of_nat n) buf" "\<lambda>lba n buf. ahci_write i lba (of_nat n) buf" for i
proof
  show "unat lba + n < 2 ^ 64" if "sata_ready i s" "sata_fits i lba n buf s" for s lba n buf
    using that unfolding sata_ready_def sata_fits_def by auto
  show "length (virt_bytes buf (512 * n) s) = 512 * n" for buf n s by (simp add: virt_bytes_def)
qed (use ahci_read_returns ahci_write_returns in blast)+

text \<open>The disk functions of FatFs provide it too, for sector numbers of 32 bits, once \<open>disk_initialize\<close> has found the disk.\<close>

definition fatfs_port :: "ahci \<Rightarrow> nat" where
  "fatfs_port s = the (g_sata_controller_port s)"

definition fatfs_ready :: "ahci \<Rightarrow> bool" where
  "fatfs_ready s \<longleftrightarrow> g_sata_controller_port s \<noteq> None \<and> sata_ready (fatfs_port s) s"

definition fatfs_fits :: "u64 \<Rightarrow> nat \<Rightarrow> u64 \<Rightarrow> ahci \<Rightarrow> bool" where
  "fatfs_fits lba n buf s \<longleftrightarrow> unat lba < 2 ^ 32 \<and> sata_fits (fatfs_port s) lba n buf s"

lemma ucast_narrow: "unat (w :: u64) < 2 ^ 32 \<Longrightarrow> (ucast (ucast w :: u32) :: u64) = w"
  by (rule word_unat_eq_iff [THEN iffD2]) (simp add: unsigned_ucast_eq unsigned_take_bit_eq take_bit_nat_eq_self)

lemma ucast_count: "n \<le> 8192 \<Longrightarrow> (ucast (of_nat n :: u32) :: u16) = of_nat n"
  by (rule word_unat_eq_iff [THEN iffD2]) (simp add: unsigned_ucast_eq unat_of_nat take_bit_nat_eq_self)

lemma diskio_eq:
  assumes "fatfs_fits lba n buf s" "g_sata_controller_port s = Some i"
  shows "diskio_read pdrv buf (ucast lba) (of_nat n) s = map_option (\<lambda>(r, s). (0, s)) (ahci_read i lba (of_nat n) buf s)"
    "diskio_write pdrv buf (ucast lba) (of_nat n) s = map_option (\<lambda>(r, s). (0, s)) (ahci_write i lba (of_nat n) buf s)"
proof -
  have l: "unat lba < 2 ^ 32" "n \<le> 8192" using assms(1) by (simp_all add: fatfs_fits_def sata_fits_def)
  show "diskio_read pdrv buf (ucast lba) (of_nat n) s = map_option (\<lambda>(r, s). (0, s)) (ahci_read i lba (of_nat n) buf s)"
    unfolding diskio_read_def ucast_narrow [OF l(1)] ucast_count [OF l(2)] using assms(2) by (cases "ahci_read i lba (of_nat n) buf s") auto
  show "diskio_write pdrv buf (ucast lba) (of_nat n) s = map_option (\<lambda>(r, s). (0, s)) (ahci_write i lba (of_nat n) buf s)"
    unfolding diskio_write_def ucast_narrow [OF l(1)] ucast_count [OF l(2)] using assms(2) by (cases "ahci_write i lba (of_nat n) buf s") auto
qed

interpretation fatfs_disk: sector_io fatfs_ready fatfs_fits "\<lambda>s. sectors (ports s (fatfs_port s))" "\<lambda>buf n. virt_bytes buf (512 * n)"
  "\<lambda>lba n buf. diskio_read pdrv buf (ucast lba) (of_nat n)" "\<lambda>lba n buf. diskio_write pdrv buf (ucast lba) (of_nat n)" for pdrv
proof
  fix s lba n buf lba' n' buf'
  assume r: "fatfs_ready s" and f: "fatfs_fits lba n buf s"
  then obtain i where i: "g_sata_controller_port s = Some i" by (auto simp: fatfs_ready_def)
  then have g: "fatfs_port s = i" by (simp add: fatfs_port_def)
  have s: "sata_ready i s" "sata_fits i lba n buf s" using r f by (simp_all add: fatfs_ready_def fatfs_fits_def g)
  show "unat lba + n < 2 ^ 64" using sata.fits_bound [OF s] .
  show "\<exists>s'. diskio_read pdrv buf (ucast lba) (of_nat n) s = Some (0, s') \<and> fatfs_ready s' \<and> fatfs_fits lba' n' buf' s' = fatfs_fits lba' n' buf' s \<and>
      sectors (ports s' (fatfs_port s')) = sectors (ports s (fatfs_port s)) \<and> virt_bytes buf (512 * n) s' = disk_read (sectors (ports s (fatfs_port s))) lba n"
    using ahci_read_returns [OF s, of lba' n' buf'] unfolding diskio_eq(1) [OF f i] fatfs_ready_def fatfs_fits_def fatfs_port_def i by auto
  show "\<exists>s'. diskio_write pdrv buf (ucast lba) (of_nat n) s = Some (0, s') \<and> fatfs_ready s' \<and> fatfs_fits lba' n' buf' s' = fatfs_fits lba' n' buf' s \<and>
      sectors (ports s' (fatfs_port s')) = disk_write (sectors (ports s (fatfs_port s))) lba n (virt_bytes buf (512 * n) s) \<and>
      virt_bytes buf' (512 * n') s' = virt_bytes buf' (512 * n') s"
    using ahci_write_returns [OF s, of lba' n' buf'] unfolding diskio_eq(2) [OF f i] fatfs_ready_def fatfs_fits_def fatfs_port_def i by auto
qed (simp add: virt_bytes_def)

text \<open>An access beyond the end of the disk: the driver reports it, with the disk and memory unchanged, and the disk functions of FatFs hide it.\<close>

lemma beyond_the_end:
  assumes "port_ready i s" "unat lba < 2 ^ 32" "0 < n" "n \<le> 8192" "nr_sectors (ports s i) < unat lba + n" "g_sata_controller_port s = Some i"
  shows "\<exists>s'. ahci_read i lba (of_nat n) buf s = Some (- 1, s') \<and> diskio_read pdrv buf (ucast lba) (of_nat n) s = Some (0, s') \<and>
    phys s' = phys s \<and> sectors (ports s' i) = sectors (ports s i)"
proof -
  have n: "unat (of_nat n :: u16) = n" using assms(4) by (simp add: unat_of_nat take_bit_nat_eq_self)
  then have "(of_nat n :: u16) \<noteq> 0" using assms(3) by (metis not_gr_zero unat_0)
  then have t: "ahci_dma_transfer 0 i lba (of_nat n) buf s = Some (- 1, upd_port i (\<lambda>p. p\<lparr>PxCI := PxCI p OR 1, cmd_left := 0, PxIS := 0x40000000\<rparr>) (prepared 0 i lba (of_nat n) buf s))"
    using assms n by (intro transfer_error) auto
  then show ?thesis
    unfolding diskio_read_def ucast_narrow [OF assms(2)] ucast_count [OF assms(4)] assms(6) ahci_read_def by simp
qed

text \<open>A count of zero moves 65536 sectors as far as the disk is concerned, and 4 MB as far as the descriptor is; from 8193 sectors on the descriptor has less room than the request.\<close>

lemma transfer_size:
  "fis_count (make_fis wr lba 0) = 65536" "prd_bytes (make_prdt a 0) = 8192 * 512"
  "8192 < unat c \<Longrightarrow> prd_bytes (make_prdt a c) < 512 * unat c"
proof -
  show "fis_count (make_fis wr lba 0) = 65536" "prd_bytes (make_prdt a 0) = 8192 * 512" by (simp_all add: fis_count_make prd_bytes_zero)
  assume "8192 < unat c"
  moreover have "unat (ucast c * 512 - 1 :: u32) mod 2 ^ 22 < 2 ^ 22" by simp
  ultimately show "prd_bytes (make_prdt a c) < 512 * unat c" unfolding dbc_bytes by simp
qed

section \<open>Bringing up the ports\<close>

lemma wait_reset_returns:
  assumes "bit (ghc s) 0"
  shows "wait_reset s = Some (s\<lparr>ghc := 0, reset_left := 0, ports := (\<lambda>i. reset_port (ports s i))\<rparr>)"
  using assms
proof (induction "reset_left s" arbitrary: s)
  case 0
  then have "s\<lparr>reset_left := 0\<rparr> = s" by (cases s) simp
  then have "s\<lparr>ghc := 0, reset_left := 0, ports := (\<lambda>i. reset_port (ports s i))\<rparr> = s\<lparr>ghc := 0, ports := (\<lambda>i. reset_port (ports s i))\<rparr>" by (cases s) simp
  then show ?case using 0 by (subst wait_reset.simps) (simp add: read_ghc_def Let_def)
next
  case (Suc k)
  have "ghc s AND 1 \<noteq> 0" using Suc(3) by (simp add: and_1_iff)
  then have "wait_reset s = wait_reset (s\<lparr>reset_left := k\<rparr>)" using Suc(2,3) by (subst wait_reset.simps) (simp add: read_ghc_def Suc(2) [symmetric])
  also have "\<dots> = Some ((s\<lparr>reset_left := k\<rparr>)\<lparr>ghc := 0, reset_left := 0, ports := (\<lambda>i. reset_port (ports s i))\<rparr>)"
    using Suc(1) [of "s\<lparr>reset_left := k\<rparr>"] Suc(3) by simp
  finally show ?case by simp
qed

lemma port_swap: "p\<lparr>lag := l, PxCMD := c\<rparr> = p\<lparr>PxCMD := c, lag := l\<rparr>"
  by (cases p) simp

lemma wait_stopped_returns:
  assumes "PxCMD (ports s i) = 0 \<or> PxCMD (ports s i) = 0x4000"
  shows "\<exists>l. wait_stopped i s = Some (upd_port i (\<lambda>p. p\<lparr>PxCMD := 0, lag := l\<rparr>) s)"
  using assms
proof (induction "lag (ports s i)" arbitrary: s rule: less_induct)
  case less
  have st: "set_running 0 = 0" "set_running 0x4000 = 0" by (simp_all add: set_running_def bit_numeral_rec)
  show ?case
  proof (cases "lag (ports s i)")
    case 0
    have "read_PxCMD i s = (0, upd_port i (\<lambda>p. p\<lparr>PxCMD := 0\<rparr>) s)" using less(2) 0 by (auto simp: read_PxCMD_def Let_def st upd_port_def)
    moreover have "read_PxCMD i (upd_port i (\<lambda>p. p\<lparr>PxCMD := 0\<rparr>) s) = (0, upd_port i (\<lambda>p. p\<lparr>PxCMD := 0\<rparr>) s)" using 0 by (simp add: read_PxCMD_def Let_def st upd_port_def)
    moreover have "upd_port i (\<lambda>p. p\<lparr>PxCMD := 0\<rparr>) s = upd_port i (\<lambda>p. p\<lparr>PxCMD := 0, lag := 0\<rparr>) s" using 0 by (intro upd_port_cong) (cases "ports s i"; simp)
    ultimately show ?thesis by (intro exI [of _ 0]) (subst wait_stopped.simps, simp)
  next
    case (Suc k)
    let ?t = "upd_port i (\<lambda>p. p\<lparr>lag := k\<rparr>) s"
    have r1: "read_PxCMD i s = (PxCMD (ports s i), ?t)" using Suc by (simp add: read_PxCMD_def Let_def upd_port_def)
    obtain c l where r2: "read_PxCMD i ?t = (c, upd_port i (\<lambda>p. p\<lparr>PxCMD := c, lag := l\<rparr>) s)" and c: "c = 0 \<or> c = 0x4000" and l: "l \<le> k"
    proof (cases k)
      case 0
      have "read_PxCMD i ?t = (0, upd_port i (\<lambda>p. p\<lparr>PxCMD := 0, lag := 0\<rparr>) s)"
        using 0 less(2) by (auto simp: read_PxCMD_def Let_def upd_port_def st port_swap)
      then show ?thesis using that by blast
    next
      case (Suc k')
      have "read_PxCMD i ?t = (PxCMD (ports s i), upd_port i (\<lambda>p. p\<lparr>lag := k'\<rparr>) s)" using Suc by (simp add: read_PxCMD_def Let_def upd_port_def)
      moreover have "upd_port i (\<lambda>p. p\<lparr>lag := k'\<rparr>) s = upd_port i (\<lambda>p. p\<lparr>PxCMD := PxCMD (ports s i), lag := k'\<rparr>) s" by (intro upd_port_cong) simp
      ultimately show ?thesis using that [of "PxCMD (ports s i)" k'] less(2) Suc by simp
    qed
    let ?u = "upd_port i (\<lambda>p. p\<lparr>PxCMD := c, lag := l\<rparr>) s"
    have w: "wait_stopped i s = (if c AND 0x4000 \<noteq> 0 then wait_stopped i ?u else Some ?u)"
      using less(2) by (subst wait_stopped.simps) (auto simp: r1 r2)
    show ?thesis
    proof (cases "c = 0")
      case True
      then show ?thesis unfolding w by auto
    next
      case False
      then have "wait_stopped i s = wait_stopped i ?u" using c w by simp
      moreover have "\<exists>l'. wait_stopped i ?u = Some (upd_port i (\<lambda>p. p\<lparr>PxCMD := 0, lag := l'\<rparr>) ?u)"
        using l c Suc by (intro less(1)) simp_all
      ultimately show ?thesis by auto
    qed
  qed
qed

text \<open>The steps on \<open>PxCMD\<close>, as what they do to the register.\<close>

definition sampled :: "sata_port \<Rightarrow> u32" where
  "sampled p = (if lag p = 0 then set_running (PxCMD p) else PxCMD p)"

lemma read_PxCMD_eq: "read_PxCMD i s = (sampled (ports s i), upd_port i (\<lambda>p. p\<lparr>PxCMD := sampled p, lag := lag p - 1\<rparr>) s)"
proof -
  have "p\<lparr>lag := lag p - 1\<rparr> = p\<lparr>PxCMD := PxCMD p, lag := lag p - 1\<rparr>" "lag p = 0 \<Longrightarrow> p\<lparr>PxCMD := c\<rparr> = p\<lparr>PxCMD := c, lag := lag p - 1\<rparr>" for p :: sata_port and c
    by (cases p, simp)+
  then show ?thesis by (auto simp: read_PxCMD_def Let_def sampled_def intro!: upd_port_cong)
qed

definition command_word :: "u32 \<Rightarrow> u32 \<Rightarrow> u32" where
  "command_word v c = (v AND NOT 0xC000) OR (c AND 0xC000)"

lemma or_PxCMD_eq: "or_PxCMD i b s = upd_port i (\<lambda>p. p\<lparr>PxCMD := command_word (sampled p OR b) (sampled p), lag := engine_lag p\<rparr>) s"
  by (auto simp: or_PxCMD_def read_PxCMD_eq write_PxCMD_def command_word_def intro!: upd_port_cong)

lemma and_PxCMD_eq: "and_PxCMD i b s = upd_port i (\<lambda>p. p\<lparr>PxCMD := command_word (sampled p AND b) (sampled p), lag := engine_lag p\<rparr>) s"
  by (auto simp: and_PxCMD_def read_PxCMD_eq write_PxCMD_def command_word_def intro!: upd_port_cong)

definition active_disk :: "sata_port \<Rightarrow> bool" where
  "active_disk p \<longleftrightarrow> PxSSTS p AND 0xf = 0x3 \<and> drop_bit 8 (PxSSTS p AND 0xf00) = 0x1 \<and> PxSIG p = 0x101"

text \<open>The port and the tables after a disk has been started.\<close>

definition started :: "nat \<Rightarrow> ahci \<Rightarrow> ahci" where
  "started i s = upd_port i (\<lambda>p. p\<lparr>PxFB := lo32 (pa s (fis_buffer s)), PxFBU := hi32 (pa s (fis_buffer s)), PxCLB := lo32 (pa s (cl_buffer s)), PxCLBU := hi32 (pa s (cl_buffer s)),
       PxSERR := 0, PxCMD := (if engine_lag p = 0 then 0xC011 else 0x11), lag := engine_lag p - 1\<rparr>)
     (s\<lparr>cmd_hdr := \<lparr>opts = 0, prdtl = 0, prdbc = 0, ctba = lo32 (pa s (cmd_table_buffer s)), ctbau = hi32 (pa s (cmd_table_buffer s))\<rparr>, cfis := zero_fis, prdt := \<lparr>dba = 0, dbau = 0, dbc = 0\<rparr>\<rparr>)"

lemma running_values:
  "set_running 0 = 0" "set_running 0x10 = 0x4010" "set_running 0x4010 = 0x4010" "set_running 0x4000 = 0" "set_running 0x11 = 0xC011" "set_running 0x4011 = 0xC011" "set_running 0xC011 = 0xC011"
  by (simp_all add: set_running_def bit_numeral_rec)

lemma start_port_eq:
  assumes "PxCMD (ports s i) = 0"
  shows "read_PxCMD i (start_port i s) = (if engine_lag (ports s i) = 0 then 0xC011 else 0x11, started i s)"
  using assms
  by (cases "engine_lag (ports s i) = 0")
    (simp_all add: start_port_def Let_def or_PxCMD_eq read_PxCMD_eq command_word_def sampled_def running_values started_def clear_all upd_port_def)

lemma started_running:
  "engine_lag (ports s i) = 0 \<Longrightarrow> read_PxCMD i (started i s) = (0xC011, started i s)"
  by (simp add: read_PxCMD_eq sampled_def started_def running_values upd_port_def)

text \<open>The name of a disk.\<close>

definition sata_name :: "nat \<Rightarrow> bytes" where
  "sata_name i = [0x73, 0x61, 0x74, 0x61] @ numeral_text 10 False i"

lemma format_sata_name:
  assumes "i < 32"
  shows "format_text [0x73, 0x61, 0x74, 0x61, 0x25, 0x64] [Arg_word (of_nat i)] = Some (sata_name i)"
proof -
  have "sint (of_nat i :: u32) = int i" using assms by (simp add: signed_of_nat take_bit_int_eq_self signed_take_bit_int_eq_self)
  moreover have "ucast (of_nat i :: u64) = (of_nat i :: u32)" using assms by (intro word_unat_eq_iff [THEN iffD2]) (simp add: unsigned_ucast_eq unat_of_nat take_bit_nat_eq_self)
  ultimately have v: "int_arg 0x64 0 (of_nat i) = int i" by (simp add: int_arg_def signed_arg_def flag_values)
  have t: "int_text 0x64 0 0 0 (of_nat i) = numeral_text 10 False i"
    using int_text_standard [of "0x64" 0 0 0 "of_nat i"] v
    by (simp add: is_int_conv_def int_flags_def int_base_def flag_values Let_def sign_text_def digits_text_def standard_text_def)
  show ?thesis
    using t by (simp add: format_text.simps cur_def parse_directive_def parse_width_def parse_precision_def parse_length_def is_digit_def convert_text_def flag_values Let_def sata_name_def)
qed

definition disk_entry :: "nat \<Rightarrow> nat \<Rightarrow> block_device" where
  "disk_entry n i = \<lparr>bd_name = sata_name i, bd_port = i, bd_id = n\<rparr>"

lemma register_port_roomy:
  assumes "roomy (aheap s)" "i < 32"
  shows "\<exists>h. roomy h \<and> register_port i s =
    Some (s\<lparr>sata_dev := Some i, aheap := h, next_bd := Suc (next_bd s), blkdev_list := blkdev_list s @ [disk_entry (next_bd s) i]\<rparr>)"
proof -
  obtain h1 where h1: "kh_alloc (aheap s) 24 = Some (True, h1)" "roomy h1" using kh_alloc_roomy [OF assms(1), of 24] by auto
  obtain h2 where h2: "kh_alloc h1 40 = Some (True, h2)" "roomy h2" using kh_alloc_roomy [OF h1(2), of 40] by auto
  obtain h3 where h3: "kh_alloc h2 72 = Some (True, h3)" "roomy h3" using kh_alloc_roomy [OF h2(2), of 72] by auto
  have "register_port i s = Some (s\<lparr>sata_dev := Some i, aheap := h3, next_bd := Suc (next_bd s), blkdev_list := blkdev_list s @ [disk_entry (next_bd s) i]\<rparr>)"
    using h1 h2 h3 by (simp add: register_port_def format_sata_name [OF assms(2)] Let_def disk_entry_def blkdev_register_def)
  then show ?thesis using h3(2) by blast
qed

definition fresh_port :: "sata_port \<Rightarrow> bool" where
  "fresh_port p \<longleftrightarrow> PxCMD p = 0 \<and> lag p = 0"

lemma init_port_other:
  assumes "fresh_port (ports s i)" "\<not> active_disk (ports s i)"
  shows "init_port i s = Some (upd_port i (\<lambda>p. p\<lparr>PxCMD := 0x10, lag := engine_lag p\<rparr>) s)"
proof -
  have "or_PxCMD i (push_bit 4 1) s = upd_port i (\<lambda>p. p\<lparr>PxCMD := 0x10, lag := engine_lag p\<rparr>) s"
    unfolding or_PxCMD_eq using assms(1) by (intro upd_port_cong) (simp add: fresh_port_def sampled_def running_values command_word_def)
  moreover have "ahci_check_device_type w = SATA_DEV_SATA \<longleftrightarrow> w = 0x101" for w by (simp add: ahci_check_device_type_def)
  ultimately show ?thesis using assms(2) by (auto simp: init_port_def Let_def active_disk_def)
qed

lemma init_port_disk:
  assumes "fresh_port (ports s i)" "active_disk (ports s i)"
  shows "init_port i s = (if engine_lag (ports s i) = 0 then register_port i (started i s) else Some (started i s))"
proof -
  let ?L = "engine_lag (ports s i)"
  let ?a = "or_PxCMD i (push_bit 4 1) s"
  let ?c = "and_PxCMD i (NOT (push_bit 4 1)) (and_PxCMD i (NOT (push_bit 0 1)) ?a)"
  have a: "?a = upd_port i (\<lambda>p. p\<lparr>PxCMD := 0x10, lag := engine_lag p\<rparr>) s"
    unfolding or_PxCMD_eq using assms(1) by (intro upd_port_cong) (simp add: fresh_port_def sampled_def running_values command_word_def)
  have c: "?c = upd_port i (\<lambda>p. p\<lparr>PxCMD := (if ?L = 0 then 0x4000 else 0), lag := ?L\<rparr>) s"
    unfolding a and_PxCMD_eq upd_port_upd_port by (intro upd_port_cong) (simp add: sampled_def running_values command_word_def)
  obtain l where w: "wait_stopped i ?c = Some (upd_port i (\<lambda>p. p\<lparr>PxCMD := 0, lag := l\<rparr>) s)"
    using wait_stopped_returns [of "upd_port i (\<lambda>p. p\<lparr>PxCMD := (if ?L = 0 then 0x4000 else 0), lag := ?L\<rparr>) s" i] unfolding c by (cases "?L = 0") auto
  let ?d = "upd_port i (\<lambda>p. p\<lparr>PxCMD := 0, lag := l\<rparr>) s"
  have "started i ?d = started i s"
    unfolding started_def by (simp add: upd_port_def)
  then have r: "read_PxCMD i (start_port i ?d) = (if ?L = 0 then 0xC011 else 0x11, started i s)" using start_port_eq [of ?d i] by simp
  have "PxSSTS (ports ?a i) = PxSSTS (ports s i)" "PxSIG (ports ?a i) = PxSIG (ports s i)" unfolding a by simp_all
  then have "init_port i s = wait_stopped i ?c \<bind> (\<lambda>s. let s = start_port i s; (v, s) = read_PxCMD i s; (w, s) = (if v AND 0x8000 \<noteq> 0 then read_PxCMD i s else (0, s))
      in if w AND 0x4000 \<noteq> 0 then register_port i s else Some s)"
    using assms(2) by (simp add: init_port_def Let_def active_disk_def ahci_check_device_type_def)
  then show ?thesis using started_running [of s i] by (simp add: w [simplified] r)
qed

text \<open>What a port goes through leaves the other ports alone, and a port that was ready stays ready.\<close>

definition same_disks :: "ahci \<Rightarrow> ahci \<Rightarrow> bool" where
  "same_disks s t \<longleftrightarrow> pa t = pa s \<and> cl_buffer t = cl_buffer s \<and> cmd_table_buffer t = cmd_table_buffer s \<and> phys t = phys s \<and>
     (\<forall>j. sectors (ports t j) = sectors (ports s j) \<and> nr_sectors (ports t j) = nr_sectors (ports s j))"

lemma started_ready: "port_ready i (started i s)"
  by (simp add: port_ready_def started_def lo_hi bit_numeral_rec)

lemma started_other: "j \<noteq> i \<Longrightarrow> port_ready j s \<Longrightarrow> port_ready j (started i s)" "j \<noteq> i \<Longrightarrow> ports (started i s) j = ports s j"
  by (simp_all add: port_ready_def started_def lo_hi)

lemma started_frame [simp]:
  "same_disks s (started i s)" "aheap (started i s) = aheap s" "blkdev_list (started i s) = blkdev_list s" "sata_dev (started i s) = sata_dev s" "next_bd (started i s) = next_bd s"
  by (simp_all add: same_disks_def started_def upd_port_def)

definition disk_found :: "sata_port \<Rightarrow> bool" where
  "disk_found p \<longleftrightarrow> active_disk p \<and> engine_lag p = 0"

lemma init_port_effect:
  assumes "fresh_port (ports s i)" "roomy (aheap s)" "i < 32"
  shows "\<exists>t. init_port i s = Some t \<and> roomy (aheap t) \<and> same_disks s t \<and> (\<forall>j. j \<noteq> i \<longrightarrow> ports t j = ports s j \<and> (port_ready j s \<longrightarrow> port_ready j t)) \<and>
    (if disk_found (ports s i)
     then port_ready i t \<and> sata_dev t = Some i \<and> next_bd t = Suc (next_bd s) \<and> blkdev_list t = blkdev_list s @ [disk_entry (next_bd s) i]
     else sata_dev t = sata_dev s \<and> next_bd t = next_bd s \<and> blkdev_list t = blkdev_list s)"
proof (cases "active_disk (ports s i)")
  case False
  have "same_disks s (upd_port i (\<lambda>p. p\<lparr>PxCMD := 0x10, lag := engine_lag p\<rparr>) s)" by (simp add: same_disks_def upd_port_def)
  then show ?thesis using False assms(2) by (simp add: init_port_other [OF assms(1) False] disk_found_def port_ready_def)
next
  case True
  note d = init_port_disk [OF assms(1) True]
  show ?thesis
  proof (cases "engine_lag (ports s i) = 0")
    case False
    then show ?thesis unfolding d using assms(2) started_other [of _ i s] by (simp add: disk_found_def)
  next
    case lag: True
    obtain h where h: "roomy h" "register_port i (started i s) = Some ((started i s)\<lparr>sata_dev := Some i, aheap := h, next_bd := Suc (next_bd s), blkdev_list := blkdev_list s @ [disk_entry (next_bd s) i]\<rparr>)"
      using register_port_roomy [of "started i s" i] assms(2,3) by auto
    let ?t = "(started i s)\<lparr>sata_dev := Some i, aheap := h, next_bd := Suc (next_bd s), blkdev_list := blkdev_list s @ [disk_entry (next_bd s) i]\<rparr>"
    have "same_disks s ?t" using started_frame(1) [of s i] by (simp add: same_disks_def)
    moreover have "port_ready j ?t = port_ready j (started i s)" for j by (simp add: port_ready_def)
    ultimately show ?thesis unfolding d using True lag h started_ready [of i s] started_other [of _ i s] by (simp add: disk_found_def)
  qed
qed

lemma same_disks_trans: "same_disks s t \<Longrightarrow> same_disks t u \<Longrightarrow> same_disks s u"
  by (simp add: same_disks_def)

text \<open>The ports on which the loop finds a disk, and what it does with them.\<close>

definition found_ports :: "u32 \<Rightarrow> nat list \<Rightarrow> ahci \<Rightarrow> nat list" where
  "found_ports pim is s = filter (\<lambda>i. pim AND push_bit i 1 \<noteq> 0 \<and> disk_found (ports s i)) is"

abbreviation registry :: "ahci \<Rightarrow> (bytes \<times> nat) list" where
  "registry s \<equiv> map (\<lambda>b. (bd_name b, bd_port b)) (blkdev_list s)"

definition brought_up :: "nat list \<Rightarrow> ahci \<Rightarrow> ahci \<Rightarrow> bool" where
  "brought_up found s t \<longleftrightarrow> same_disks s t \<and> (\<forall>i \<in> set found. port_ready i t) \<and> sata_dev t = (if found = [] then sata_dev s else Some (last found)) \<and>
     registry t = registry s @ map (\<lambda>i. (sata_name i, i)) found"

lemma found_ports_cong: "(\<And>j. j \<in> set js \<Longrightarrow> ports u j = ports s j) \<Longrightarrow> found_ports pim js u = found_ports pim js s"
  unfolding found_ports_def by (intro filter_cong) auto

lemma init_ports_effect:
  assumes "distinct is" "\<And>i. i \<in> set is \<Longrightarrow> fresh_port (ports s i) \<and> i < 32" "roomy (aheap s)"
  shows "\<exists>t. init_ports pim is s = Some t \<and> roomy (aheap t) \<and> (\<forall>j. j \<notin> set is \<and> port_ready j s \<longrightarrow> port_ready j t) \<and> brought_up (found_ports pim is s) s t"
  using assms
proof (induction "is" arbitrary: s)
  case Nil
  then show ?case by (simp add: brought_up_def same_disks_def found_ports_def)
next
  case (Cons i js)
  show ?case
  proof (cases "pim AND push_bit i 1 = 0")
    case True
    then have "found_ports pim (i # js) s = found_ports pim js s" by (simp add: found_ports_def)
    then show ?thesis using Cons(1) [of s] Cons(2-4) True by auto
  next
    case False
    have i: "fresh_port (ports s i)" "i < 32" using Cons(3) by auto
    obtain u where u: "init_port i s = Some u" "roomy (aheap u)" "same_disks s u" "\<And>j. j \<noteq> i \<Longrightarrow> ports u j = ports s j \<and> (port_ready j s \<longrightarrow> port_ready j u)"
      and e: "if disk_found (ports s i)
        then port_ready i u \<and> sata_dev u = Some i \<and> next_bd u = Suc (next_bd s) \<and> blkdev_list u = blkdev_list s @ [disk_entry (next_bd s) i]
        else sata_dev u = sata_dev s \<and> next_bd u = next_bd s \<and> blkdev_list u = blkdev_list s"
      using init_port_effect [OF i(1) Cons(4) i(2)] by blast
    have same: "ports u j = ports s j" if "j \<in> set js" for j using u(4) [of j] that Cons(2) by (cases "j = i") auto
    have "\<And>i. i \<in> set js \<Longrightarrow> fresh_port (ports u i) \<and> i < 32" using Cons(3) same by auto
    have found: "found_ports pim js u = found_ports pim js s" by (rule found_ports_cong) (rule same)
    from Cons(1) [OF _ \<open>\<And>i. i \<in> set js \<Longrightarrow> fresh_port (ports u i) \<and> i < 32\<close> u(2)] Cons(2) obtain t where t: "init_ports pim js u = Some t" "roomy (aheap t)" "\<forall>j. j \<notin> set js \<and> port_ready j u \<longrightarrow> port_ready j t"
      "brought_up (found_ports pim js s) u t" unfolding found by auto
    have "init_ports pim (i # js) s = Some t" using False u(1) t(1) by simp
    moreover have "brought_up (found_ports pim (i # js) s) s t"
      using e t(3,4) Cons(2) False same_disks_trans [OF u(3)] unfolding brought_up_def found_ports_def by (auto simp: disk_entry_def)
    ultimately show ?thesis using t(2,3) u(4) by auto
  qed
qed

lemma or_ghc_clear: "\<not> bit (ghc s) 0 \<Longrightarrow> or_ghc b s = write_ghc (ghc s OR b) s"
  by (simp add: or_ghc_def read_ghc_def)

lemma nr_ports_bound: "unat (cap s AND 0x1f) < 32"
proof -
  have "cap s AND 0x1f = take_bit 5 (cap s)" by (simp add: take_bit_eq_mask mask_eq_exp_minus_1)
  then show ?thesis using take_bit_nat_less_exp [of 5 "unat (cap s)"] by (simp add: unsigned_take_bit_eq del: take_bit_nat_less_exp)
qed

lemma sata_name_inj: "i < 32 \<Longrightarrow> j < 32 \<Longrightarrow> sata_name i = sata_name j \<longleftrightarrow> i = j"
proof
  assume b: "i < 32" "j < 32" and "sata_name i = sata_name j"
  then have "(of_nat i :: u32) = of_nat j" using numeral_value [of 0 False i] numeral_value [of 0 False j] by (simp add: sata_name_def)
  then have "unat (of_nat i :: u32) = unat (of_nat j :: u32)" by simp
  then show "i = j" using b by (simp add: unat_of_nat take_bit_nat_eq_self)
qed simp

lemma find_registered:
  assumes "map (\<lambda>b. (bd_name b, bd_port b)) bs = map (\<lambda>i. (sata_name i, i)) is" "i \<in> set is" "\<And>j. j \<in> set is \<Longrightarrow> j < 32"
  shows "\<exists>b. find (\<lambda>b. sata_name i = bd_name b) bs = Some b \<and> bd_port b = i"
  using assms
proof (induction "is" arbitrary: bs)
  case (Cons j js)
  then obtain b bs' where bs: "bs = b # bs'" "bd_name b = sata_name j" "bd_port b = j" "map (\<lambda>b. (bd_name b, bd_port b)) bs' = map (\<lambda>i. (sata_name i, i)) js"
    by (auto simp: map_eq_Cons_conv)
  show ?case using Cons bs sata_name_inj [of i j] by (cases "i = j") auto
qed simp

lemma ahci_init_effect:
  assumes "roomy (aheap s)" "\<not> bit (ghc s) 0"
  shows "\<exists>t. ahci_init base s = Some t \<and> brought_up (found_ports (pi s) [0..<unat (cap s AND 0x1f) + 1] s) s t"
proof -
  let ?u = "s\<lparr>hba := base + KERNEL_BASE, hba_maps := hba_maps s @ [(base, base + KERNEL_BASE, sizeof_hba div 4096 + 1)],
    reset_left := 0, ports := (\<lambda>i. reset_port (ports s i)), ghc := push_bit 31 1\<rparr>"
  have b: "\<not> bit (push_bit 31 1 :: u32) 0" "\<not> bit (ghc s OR push_bit 31 1) 0" "bit ((ghc s OR push_bit 31 1) OR push_bit 0 1) 0"
    using assms(2) by (simp_all add: bit_or_iff bit_push_bit_iff bit_numeral_rec)
  have "ahci_init base s = init_ports (pi s) [0..<unat (cap s AND 0x1f) + 1] ?u"
    using assms(2) b by (simp add: ahci_init_def Let_def or_ghc_clear write_ghc_def wait_reset_returns)
  moreover have "\<And>i. i \<in> set [0..<unat (cap s AND 0x1f) + 1] \<Longrightarrow> fresh_port (ports ?u i) \<and> i < 32"
    using nr_ports_bound [of s] by (auto simp: fresh_port_def reset_port_def)
  moreover have "roomy (aheap ?u)" using assms(1) by simp
  moreover have "found_ports (pi s) js ?u = found_ports (pi s) js s" for js
    by (simp add: found_ports_def disk_found_def active_disk_def reset_port_def)
  moreover have "brought_up f ?u t = brought_up f s t" for f t by (simp add: brought_up_def same_disks_def reset_port_def)
  ultimately show ?thesis using init_ports_effect [of "[0..<unat (cap s AND 0x1f) + 1]" ?u "pi s"] by auto
qed

section \<open>The properties of the disk path\<close>

text \<open>A controller with one disk of 16 sectors behind port 0, after the driver has started it, and a buffer that is mapped at its physical address.\<close>

definition sample_disk_port :: sata_port where
  "sample_disk_port = \<lparr>PxCLB = 0x2000, PxCLBU = 0, PxFB = 0x1000, PxFBU = 0, PxIS = 0, PxCMD = 0xC011, PxSIG = 0x101, PxSSTS = 0x113, PxSERR = 0, PxCI = 0,
     sectors = (\<lambda>l. replicate 512 (ucast l)), nr_sectors = 16, busy = 2, cmd_left = 0, cmd_time = 3, lag = 0, engine_lag = 0\<rparr>"

definition sample_ahci :: ahci where
  "sample_ahci = \<lparr>hba = 0, hba_maps = [], ghc = 0, cap = 1, pi = 3, reset_left = 0, reset_time = 2,
     ports = (\<lambda>i. if i = 0 then sample_disk_port else sample_disk_port\<lparr>PxSIG := 0xEB140101\<rparr>), phys = (\<lambda>a. ucast (drop_bit 8 a)), pa = (\<lambda>a. a),
     fis_buffer = 0x1000, cl_buffer = 0x2000, cmd_table_buffer = 0x3000, cmd_hdr = \<lparr>opts = 0, prdtl = 0, prdbc = 0, ctba = 0x3000, ctbau = 0\<rparr>,
     cfis = zero_fis, prdt = \<lparr>dba = 0, dbau = 0, dbc = 0\<rparr>, sata_dev = Some 0, g_sata_controller_port = None, blkdev_list = [], next_bd = 0, aheap = fresh_heap\<rparr>"

lemma sample_ready: "sata_ready 0 sample_ahci" "sata_fits 0 3 2 buf sample_ahci"
  by (simp_all add: sata_ready_def port_ready_def sample_ahci_def sample_disk_port_def join32_def bit_numeral_rec sata_fits_def contiguous_def)

text \<open>
  C32: A transfer moves exactly the sectors that are asked for and always comes to an end. On a port that is ready, for at most 8192 sectors that lie on the disk and a buffer that is contiguous in
  physical memory, \<open>ahci_read\<close> returns 0, leaves the sectors in the buffer, writes no other byte of memory and leaves the disk as it is; \<open>ahci_write\<close> returns 0, puts the contents of the buffer
  into those sectors and into no other, and leaves memory as it is.
\<close>

theorem ahci_moves_sectors:
  assumes "sata_ready i s" and "sata_fits i lba n buf s"
  shows "(\<exists>s'. ahci_read i lba (of_nat n) buf s = Some (0, s') \<and> virt_bytes buf (512 * n) s' = disk_read (sectors (ports s i)) lba n \<and>
      (\<forall>x. phys s' x = phys s x \<or> unat (x - pa s buf) < 512 * n) \<and> sectors (ports s' i) = sectors (ports s i)) \<and>
    (\<exists>s'. ahci_write i lba (of_nat n) buf s = Some (0, s') \<and> disk_read (sectors (ports s' i)) lba n = virt_bytes buf (512 * n) s \<and>
      (\<forall>l. sectors (ports s' i) l = sectors (ports s i) l \<or> unat (l - lba) < n) \<and> phys s' = phys s)"
proof
  have l: "length (disk_read (sectors (ports s i)) lba n) = 512 * n" using assms(1) by (intro length_disk_read) (simp add: sata_ready_def)
  obtain s' where "ahci_read i lba (of_nat n) buf s = Some (0, s')" "sectors (ports s' i) = sectors (ports s i)"
    "virt_bytes buf (512 * n) s' = disk_read (sectors (ports s i)) lba n" "phys s' = mem_store (pa s buf) (disk_read (sectors (ports s i)) lba n) (phys s)"
    using ahci_read_returns [OF assms] by blast
  then show "\<exists>s'. ahci_read i lba (of_nat n) buf s = Some (0, s') \<and> virt_bytes buf (512 * n) s' = disk_read (sectors (ports s i)) lba n \<and>
      (\<forall>x. phys s' x = phys s x \<or> unat (x - pa s buf) < 512 * n) \<and> sectors (ports s' i) = sectors (ports s i)"
    using l by (simp add: mem_store_def)
  have n: "n < 2 ^ 64" using assms(2) by (simp add: sata_fits_def)
  obtain s' where "ahci_write i lba (of_nat n) buf s = Some (0, s')" "phys s' = phys s" "sectors (ports s' i) = disk_write (sectors (ports s i)) lba n (virt_bytes buf (512 * n) s)"
    using ahci_write_returns [OF assms] by blast
  then show "\<exists>s'. ahci_write i lba (of_nat n) buf s = Some (0, s') \<and> disk_read (sectors (ports s' i)) lba n = virt_bytes buf (512 * n) s \<and>
      (\<forall>l. sectors (ports s' i) l = sectors (ports s i) l \<or> unat (l - lba) < n) \<and> phys s' = phys s"
    using n by (simp add: disk_write_apply disk_read_write_same sata.buffer_length)
qed

theorem ahci_moves_sectors_witness:
  "\<exists>s'. ahci_read 0 3 2 0x8000 sample_ahci = Some (0, s') \<and> virt_bytes 0x8000 1024 s' = replicate 512 3 @ replicate 512 4 \<and> phys s' 0x8400 = 0x84"
proof -
  obtain s' where r: "ahci_read 0 3 2 0x8000 sample_ahci = Some (0, s')"
    and v: "virt_bytes 0x8000 (512 * 2) s' = disk_read (sectors (ports sample_ahci 0)) 3 2"
    and x: "\<And>x. phys s' x = phys sample_ahci x \<or> unat (x - pa sample_ahci 0x8000) < 512 * 2"
    using conjunct1 [OF ahci_moves_sectors [OF sample_ready, of "0x8000"]] unfolding of_nat_numeral by blast
  have d: "disk_read (sectors (ports sample_ahci 0)) 3 2 = replicate 512 3 @ replicate 512 4"
    by (simp add: disk_read_def sample_ahci_def sample_disk_port_def upt_conv_Cons)
  have "phys s' 0x8400 = 0x84" using x [of "0x8400"] by (simp add: sample_ahci_def)
  then show ?thesis using r v d by simp
qed

text \<open>
  C33: Through the functions FatFs uses, what is written to a disk is read back. After \<open>disk_initialize\<close> on a disk that \<open>ahci_init\<close> has found, \<open>disk_write\<close> and then \<open>disk_read\<close> of the same sectors
  both return \<open>RES_OK\<close>, and the second buffer holds what the first one held; a range that does not overlap what was written reads as before.
\<close>

theorem disk_functions_roundtrip:
  assumes "get_sata_device s = Some i" and "sata_ready i s" and "unat lba < 2 ^ 32" and "unat lba' < 2 ^ 32"
    and "sata_fits i lba n buf s" and "sata_fits i lba n buf2 s" and "sata_fits i lba' m buf2 s"
    and "unat lba' + m \<le> unat lba \<or> unat lba + n \<le> unat lba'"
  shows "\<exists>s0 s1 s2 s3. disk_initialize pdrv s = Some (0, s0) \<and> diskio_write pdrv buf (ucast lba) (of_nat n) s0 = Some (0, s1) \<and>
    diskio_read pdrv buf2 (ucast lba) (of_nat n) s1 = Some (0, s2) \<and> virt_bytes buf2 (512 * n) s2 = virt_bytes buf (512 * n) s \<and>
    diskio_read pdrv buf2 (ucast lba') (of_nat m) s1 = Some (0, s3) \<and> virt_bytes buf2 (512 * m) s3 = disk_read (sectors (ports s i)) lba' m"
proof -
  define s0 where "s0 = s\<lparr>g_sata_controller_port := Some i\<rparr>"
  have init: "disk_initialize pdrv s = Some (0, s0)" using assms(1) by (simp add: disk_initialize_def s0_def)
  have r: "fatfs_ready s0" using assms(2) by (simp add: s0_def fatfs_ready_def fatfs_port_def sata_ready_def port_ready_def)
  have f: "fatfs_fits l k b s0" if "unat l < 2 ^ 32" "sata_fits i l k b s" for l k b
    using that by (simp add: s0_def fatfs_fits_def fatfs_port_def sata_fits_def contiguous_def)
  have c: "sectors (ports s0 (fatfs_port s0)) = sectors (ports s i)" "virt_bytes buf (512 * n) s0 = virt_bytes buf (512 * n) s"
    by (simp_all add: s0_def fatfs_port_def virt_bytes_def)
  show ?thesis
    using init c fatfs_disk.write_read_back [OF r f f, OF assms(3,5,3,6), of pdrv] fatfs_disk.write_read_other [OF r f f assms(8), OF assms(3,5,4,7), of pdrv]
    by auto
qed

theorem disk_functions_roundtrip_witness:
  "\<exists>s0 s1 s2 s3. disk_initialize 0 sample_ahci = Some (0, s0) \<and> diskio_write 0 0x8000 3 2 s0 = Some (0, s1) \<and>
    diskio_read 0 0xA000 3 2 s1 = Some (0, s2) \<and> virt_bytes 0xA000 (512 * 2) s2 = virt_bytes 0x8000 (512 * 2) sample_ahci \<and>
    diskio_read 0 0xA000 5 1 s1 = Some (0, s3) \<and> virt_bytes 0xA000 (512 * 1) s3 = replicate 512 5"
proof -
  have "get_sata_device sample_ahci = Some 0" by (simp add: get_sata_device_def sample_ahci_def)
  moreover have "sata_fits 0 5 1 0xA000 sample_ahci" by (simp add: sample_ahci_def sample_disk_port_def sata_fits_def contiguous_def)
  moreover have "disk_read (sectors (ports sample_ahci 0)) 5 1 = replicate 512 5" by (simp add: disk_read_def sample_ahci_def sample_disk_port_def)
  ultimately show ?thesis
    using disk_functions_roundtrip [of sample_ahci 0 3 5 2 "0x8000" "0xA000" 1 0] sample_ready by (simp del: mult_1_right)
qed

text \<open>
  \<open>ahci_init\<close> finds the disks and brings them up. When memory does not run out, it returns, whatever the reset and the engines take; the block devices it registers are, in the order of the ports,
  those of the implemented ports that have an active link and the signature of a disk and whose engine reports that it runs when it is asked once. They are named \<open>sata\<close> and the number of the port, each
  name leads to its port, the port is ready for transfers, and \<open>get_sata_device\<close> is the last of them. The contents of the disks and of memory are as before.
\<close>

lemma ahci_init_finds_disks:
  assumes "roomy (aheap s)" and "\<not> bit (ghc s) 0" and "blkdev_list s = []"
  shows "\<exists>t. ahci_init base s = Some t \<and>
    (let found = filter (\<lambda>i. pi s AND push_bit i 1 \<noteq> 0 \<and> active_disk (ports s i) \<and> engine_lag (ports s i) = 0) [0..<unat (cap s AND 0x1f) + 1]
     in map (\<lambda>b. (bd_name b, bd_port b)) (blkdev_list t) = map (\<lambda>i. (sata_name i, i)) found \<and>
        (\<forall>i \<in> set found. port_ready i t \<and> map_option bd_port (blkdev_get_by_name (Some (sata_name i)) t) = Some i) \<and>
        get_sata_device t = (if found = [] then sata_dev s else Some (last found)) \<and> same_disks s t)"
proof -
  let ?found = "filter (\<lambda>i. pi s AND push_bit i 1 \<noteq> 0 \<and> active_disk (ports s i) \<and> engine_lag (ports s i) = 0) [0..<unat (cap s AND 0x1f) + 1]"
  have "?found = found_ports (pi s) [0..<unat (cap s AND 0x1f) + 1] s" by (simp add: found_ports_def disk_found_def)
  then obtain t where t: "ahci_init base s = Some t" "brought_up ?found s t" using ahci_init_effect [OF assms(1,2)] by auto
  have reg: "map (\<lambda>b. (bd_name b, bd_port b)) (blkdev_list t) = map (\<lambda>i. (sata_name i, i)) ?found"
    using t(2) assms(3) unfolding brought_up_def by simp
  have "map_option bd_port (blkdev_get_by_name (Some (sata_name i)) t) = Some i" if "i \<in> set ?found" for i
  proof -
    have "\<And>j. j \<in> set ?found \<Longrightarrow> j < 32" using nr_ports_bound [of s] by (auto simp del: upt_Suc)
    from find_registered [OF reg that this] obtain b where "find (\<lambda>b. sata_name i = bd_name b) (blkdev_list t) = Some b" "bd_port b = i" by blast
    moreover from this have "blkdev_list t \<noteq> []" by auto
    ultimately show ?thesis by (simp add: blkdev_get_by_name_def)
  qed
  then show ?thesis using t reg unfolding brought_up_def get_sata_device_def by (simp add: Let_def)
qed

lemma ahci_init_finds_disks_example:
  "\<exists>t. ahci_init 0xFEBF1000 sample_ahci = Some t \<and> map bd_port (blkdev_list t) = [0] \<and> port_ready 0 t \<and> get_sata_device t = Some 0"
proof -
  have f: "filter (\<lambda>i. pi sample_ahci AND push_bit i 1 \<noteq> 0 \<and> active_disk (ports sample_ahci i) \<and> engine_lag (ports sample_ahci i) = 0) [0..<unat (cap sample_ahci AND 0x1f) + 1] = [0]"
    by (simp add: sample_ahci_def sample_disk_port_def active_disk_def)
  have "\<And>t. map (\<lambda>b. (bd_name b, bd_port b)) (blkdev_list t) = [(sata_name 0, 0)] \<Longrightarrow> map bd_port (blkdev_list t) = [0]" by auto
  moreover have "roomy (aheap sample_ahci)" "\<not> bit (ghc sample_ahci) 0" "blkdev_list sample_ahci = []" by (simp_all add: sample_ahci_def)
  ultimately show ?thesis using ahci_init_finds_disks [of sample_ahci "0xFEBF1000"] unfolding f by (auto simp: Let_def)
qed

end
