(* ===== verification/Pci.thy ===== *)
theory Pci
  imports Ahci
begin

text \<open>
  Enumeration of the PCI buses (\<open>src/src/pci.c\<close>). The host bridge is the array of the configuration registers of every function, which it presents twice: through an address and a data port, and
  in the memory window the MCFG table announces. The driver reads a function through either and starts the AHCI driver on the controllers it finds; the state of the AHCI driver (theory \<open>Ahci\<close>) has the
  registers of one controller.

  The lemmas show that both ways of access return the registers of the function asked for, that the window \<open>pci_init\<close> maps holds every address it reads, and that the boot path from the firmware table over the
  buses to the controller ends with the disks registered.
\<close>

section \<open>Structures\<close>

record pci_config_header =
  vendor_id :: u16
  device_id :: u16
  pci_command :: u16
  pci_status :: u16
  revision_id :: u8
  prof_if :: u8
  sub_class_code :: u8
  base_class_code :: u8
  cache_line_size :: u8
  latency_timer :: u8
  header_type :: u8
  bist :: u8

record pci_config_type0 =
  bar :: "u32 list"
  cardbus_cis_ptr :: u32
  subsystem_vendor_id :: u16
  subsystem_id :: u16
  expansion_rom_base :: u32
  capabilities_ptr :: u32
  reserved :: u32
  interrupt_line :: u8
  interrupt_pin :: u8
  min_gnt :: u8
  max_lat :: u8

record pci_config =
  pci_header :: pci_config_header
  type0 :: pci_config_type0

text \<open>The structure is packed, so the sixteen words read into it are its fields.\<close>

definition pci_config_of :: "u32 list \<Rightarrow> pci_config" where
  "pci_config_of d = \<lparr>
     pci_header = \<lparr>vendor_id = ucast (d ! 0), device_id = ucast (drop_bit 16 (d ! 0)), pci_command = ucast (d ! 1), pci_status = ucast (drop_bit 16 (d ! 1)),
       revision_id = ucast (d ! 2), prof_if = ucast (drop_bit 8 (d ! 2)), sub_class_code = ucast (drop_bit 16 (d ! 2)), base_class_code = ucast (drop_bit 24 (d ! 2)),
       cache_line_size = ucast (d ! 3), latency_timer = ucast (drop_bit 8 (d ! 3)), header_type = ucast (drop_bit 16 (d ! 3)), bist = ucast (drop_bit 24 (d ! 3))\<rparr>,
     type0 = \<lparr>bar = map ((!) d) [4..<10], cardbus_cis_ptr = d ! 10, subsystem_vendor_id = ucast (d ! 11), subsystem_id = ucast (drop_bit 16 (d ! 11)),
       expansion_rom_base = d ! 12, capabilities_ptr = d ! 13, reserved = d ! 14,
       interrupt_line = ucast (d ! 15), interrupt_pin = ucast (drop_bit 8 (d ! 15)), min_gnt = ucast (drop_bit 16 (d ! 15)), max_lat = ucast (drop_bit 24 (d ! 15))\<rparr>\<rparr>"

definition sizeof_pci_config :: nat where "sizeof_pci_config = 64"

section \<open>The host bridge\<close>

text \<open>\<open>cfg b d f k\<close> is register \<open>k\<close> (a 32-bit word) of function \<open>f\<close> of device \<open>d\<close> on bus \<open>b\<close>; nothing that is not there answers, which reads as all ones.\<close>

record pci_host =
  config_address :: u32
  cfg :: "nat \<Rightarrow> nat \<Rightarrow> nat \<Rightarrow> nat \<Rightarrow> u32"
  ecam_base :: u64

definition pci_outl :: "u32 \<Rightarrow> pci_host \<Rightarrow> pci_host" where
  "pci_outl v h = h\<lparr>config_address := v\<rparr>"

definition pci_inl :: "pci_host \<Rightarrow> u32" where
  "pci_inl h = (let a = config_address h
     in if bit a 31 then cfg h (unat (take_bit 8 (drop_bit 16 a))) (unat (take_bit 5 (drop_bit 11 a))) (unat (take_bit 3 (drop_bit 8 a))) (unat (take_bit 6 (drop_bit 2 a)))
        else - 1)"

definition ecam_read :: "pci_host \<Rightarrow> u64 \<Rightarrow> u32" where
  "ecam_read h a = (let x = a - ecam_base h
     in if unat x < 2 ^ 28
        then cfg h (unat (take_bit 8 (drop_bit 20 x))) (unat (take_bit 5 (drop_bit 15 x))) (unat (take_bit 3 (drop_bit 12 x))) (unat (take_bit 10 (drop_bit 2 x)))
        else - 1)"

section \<open>Reading the configuration of a function\<close>

definition counts :: "u32 list" where
  "counts = map (\<lambda>k. of_nat (4 * k)) [0..<16]"

definition pio_address :: "u32 \<Rightarrow> u32 \<Rightarrow> u32 \<Rightarrow> u32 \<Rightarrow> u32" where
  "pio_address bus slot func count = push_bit 31 1 OR push_bit 16 bus OR push_bit 11 slot OR push_bit 8 func OR (count AND 0xFC)"

primrec pio_loop :: "u32 \<Rightarrow> u32 \<Rightarrow> u32 \<Rightarrow> u32 list \<Rightarrow> pci_host \<Rightarrow> u32 list \<times> pci_host" where
  "pio_loop bus slot func [] h = ([], h)"
| "pio_loop bus slot func (count # cs) h =
     (let h = pci_outl (pio_address bus slot func count) h;
          w = pci_inl h;
          (ws, h) = pio_loop bus slot func cs h
      in (w # ws, h))"

definition pci_read_config_pio :: "u32 \<Rightarrow> u32 \<Rightarrow> u32 \<Rightarrow> pci_host \<Rightarrow> pci_config \<times> pci_host" where
  "pci_read_config_pio bus slot func h = (let (ws, h) = pio_loop bus slot func counts h in (pci_config_of ws, h))"

definition ecam_offset :: "u32 \<Rightarrow> u32 \<Rightarrow> u32 \<Rightarrow> u32 \<Rightarrow> u64" where
  "ecam_offset bus slot func count =
     ucast (push_bit 20 (bus AND 0xFF) OR push_bit 15 (slot AND 0x1F) OR push_bit 12 (func AND 0x07) OR (count AND 0xFFF))"

primrec mmio_loop :: "mem \<Rightarrow> acpi \<Rightarrow> u32 \<Rightarrow> u32 \<Rightarrow> u32 \<Rightarrow> u32 list \<Rightarrow> pci_host \<Rightarrow> u32 list option" where
  "mmio_loop m a bus slot func [] h = Some []"
| "mmio_loop m a bus slot func (count # cs) h = do {
     base \<leftarrow> acpi_find_mcfg_pci_mmio_base m a 0;
     let w = ecam_read h (base + ecam_offset bus slot func count);
     ws \<leftarrow> mmio_loop m a bus slot func cs h;
     Some (w # ws) }"

definition pci_read_config_mmio :: "mem \<Rightarrow> acpi \<Rightarrow> u32 \<Rightarrow> u32 \<Rightarrow> u32 \<Rightarrow> pci_host \<Rightarrow> pci_config option" where
  "pci_read_config_mmio m a bus slot func h = map_option pci_config_of (mmio_loop m a bus slot func counts h)"

definition pci_read_config :: "mem \<Rightarrow> acpi \<Rightarrow> u32 \<Rightarrow> u32 \<Rightarrow> u32 \<Rightarrow> pci_host \<Rightarrow> pci_config option" where
  "pci_read_config m a bus slot func h = pci_read_config_mmio m a bus slot func h"

section \<open>Enumeration\<close>

definition is_ahci :: "pci_config \<Rightarrow> bool" where
  "is_ahci pc \<longleftrightarrow> prof_if (pci_header pc) = 0x01 \<and> sub_class_code (pci_header pc) = 0x06 \<and> base_class_code (pci_header pc) = 0x01"

text \<open>The copy of the structure in heap memory is only written; without memory for it \<open>memcpy\<close> goes through NULL.\<close>

definition probe_function :: "mem \<Rightarrow> acpi \<Rightarrow> pci_host \<Rightarrow> u32 \<Rightarrow> u32 \<Rightarrow> u32 \<Rightarrow> ahci \<Rightarrow> ahci option" where
  "probe_function m a h bus slot func s = do {
     pc \<leftarrow> pci_read_config m a bus slot func h;
     if is_ahci pc then do {
       (ok, k) \<leftarrow> kh_alloc (aheap s) sizeof_pci_config;
       if \<not> ok then None else ahci_init (ucast (bar (type0 pc) ! 5)) (s\<lparr>aheap := k\<rparr>) }
     else Some s }"

primrec probe_loop :: "mem \<Rightarrow> acpi \<Rightarrow> pci_host \<Rightarrow> (nat \<times> nat \<times> nat) list \<Rightarrow> ahci \<Rightarrow> ahci option" where
  "probe_loop m a h [] s = Some s"
| "probe_loop m a h (x # xs) s =
     (case x of (bus, slot, func) \<Rightarrow> do { s \<leftarrow> probe_function m a h (of_nat bus) (of_nat slot) (of_nat func) s; probe_loop m a h xs s })"

definition all_functions :: "(nat \<times> nat \<times> nat) list" where
  "all_functions = concat (map (\<lambda>bus. concat (map (\<lambda>slot. map (\<lambda>func. (bus, slot, func)) [0..<8]) [0..<32])) [0..<256])"

definition pci_probe :: "mem \<Rightarrow> acpi \<Rightarrow> pci_host \<Rightarrow> ahci \<Rightarrow> ahci option" where
  "pci_probe m a h s = probe_loop m a h all_functions s"

definition pci_init :: "mem \<Rightarrow> acpi \<Rightarrow> pci_host \<Rightarrow> ahci \<Rightarrow> ahci option" where
  "pci_init m a h s = do {
     base \<leftarrow> acpi_find_mcfg_pci_mmio_base m a 0;
     let s = s\<lparr>hba_maps := hba_maps s @ [(base, base + KERNEL_BASE, 65536)]\<rparr>;
     pci_probe m a h s }"

section \<open>Both ways of access read the function asked for\<close>

lemma take_and_masks:
  "(b :: u32) AND 0xFF = take_bit 8 b" "b AND 0x1F = take_bit 5 b" "b AND 0x07 = take_bit 3 b" "b AND 0xFFF = take_bit 12 b"
  by (simp_all add: take_bit_eq_mask mask_eq_exp_minus_1)

lemma take_small: "unat (w :: u32) < 2 ^ n \<Longrightarrow> take_bit n w = w"
  by (rule word_unat_eq_iff [THEN iffD2]) (simp add: unsigned_take_bit_eq take_bit_nat_eq_self)

lemma bit_small:
  assumes "unat (w :: u32) < 2 ^ n" "k + n \<le> 32"
  shows "bit (push_bit k w) i \<longleftrightarrow> k \<le> i \<and> i < k + n \<and> bit w (i - k)"
proof -
  have "i < k + n" if "bit w (i - k)" "k \<le> i" using small_word_bits [OF assms(1) that(1)] that(2) by linarith
  then show ?thesis using assms(2) by (auto simp: bit_push_bit_iff)
qed

lemma ecam_offset_bits:
  assumes "unat bus < 2 ^ 8" "unat slot < 2 ^ 5" "unat func < 2 ^ 3" "unat count < 2 ^ 12" "i < 64"
  shows "bit (ecam_offset bus slot func count) i \<longleftrightarrow>
    (20 \<le> i \<and> i < 28 \<and> bit bus (i - 20)) \<or> (15 \<le> i \<and> i < 20 \<and> bit slot (i - 15)) \<or> (12 \<le> i \<and> i < 15 \<and> bit func (i - 12)) \<or> (i < 12 \<and> bit count i)"
  using assms(5) small_word_bits [OF assms(4), of i]
  by (auto simp: ecam_offset_def take_and_masks take_small [OF assms(1)] take_small [OF assms(2)] take_small [OF assms(3)] take_small [OF assms(4)]
      bit_unsigned_iff bit_or_iff bit_small [OF assms(1)] bit_small [OF assms(2)] bit_small [OF assms(3)])

lemma extract_field:
  fixes x :: "'a :: len word" and w :: u32
  assumes "unat w < 2 ^ n" "\<And>i. i < n \<Longrightarrow> bit x (k + i) = bit w i"
  shows "unat (take_bit n (drop_bit k x)) = unat w"
proof -
  have "bit (unat (take_bit n (drop_bit k x))) i = bit (unat w) i" for i
    using small_word_bits [OF assms(1), of i] assms(2) [of i]
    by (auto simp: unsigned_take_bit_eq bit_take_bit_iff bit_unsigned_iff bit_drop_bit_eq dest: bit_imp_le_length)
  then show ?thesis by (simp add: bit_eq_iff)
qed

lemma ecam_offset_parts:
  assumes "unat bus < 2 ^ 8" "unat slot < 2 ^ 5" "unat func < 2 ^ 3" "unat count < 2 ^ 12"
  shows "unat (take_bit 8 (drop_bit 20 (ecam_offset bus slot func count))) = unat bus"
    and "unat (take_bit 5 (drop_bit 15 (ecam_offset bus slot func count))) = unat slot"
    and "unat (take_bit 3 (drop_bit 12 (ecam_offset bus slot func count))) = unat func"
    and "unat (take_bit 10 (drop_bit 2 (ecam_offset bus slot func count))) = unat (drop_bit 2 count)"
    and "unat (ecam_offset bus slot func count) < 2 ^ 28"
proof -
  note b = ecam_offset_bits [OF assms]
  let ?o = "ecam_offset bus slot func count"
  show "unat (take_bit 8 (drop_bit 20 ?o)) = unat bus" by (rule extract_field [OF assms(1)]) (simp add: b)
  show "unat (take_bit 5 (drop_bit 15 ?o)) = unat slot" by (rule extract_field [OF assms(2)]) (simp add: b)
  show "unat (take_bit 3 (drop_bit 12 ?o)) = unat func" by (rule extract_field [OF assms(3)]) (simp add: b)
  have "unat (drop_bit 2 count) < 2 ^ 10" using assms(4) by (simp add: drop_bit_eq_div unat_div less_mult_imp_div_less)
  then show "unat (take_bit 10 (drop_bit 2 ?o)) = unat (drop_bit 2 count)" by (rule extract_field) (simp add: b bit_drop_bit_eq)
  have "take_bit 28 ?o = ?o" by (rule bit_word_eqI) (auto simp: bit_take_bit_iff b)
  then show "unat ?o < 2 ^ 28" by (metis take_bit_nat_less_exp unsigned_take_bit_eq)
qed

lemma pio_address_bits:
  assumes "unat bus < 2 ^ 8" "unat slot < 2 ^ 5" "unat func < 2 ^ 3" "unat count < 2 ^ 8" "\<not> bit count 0" "\<not> bit count 1" "i < 32"
  shows "bit (pio_address bus slot func count) i \<longleftrightarrow>
    i = 31 \<or> (16 \<le> i \<and> i < 24 \<and> bit bus (i - 16)) \<or> (11 \<le> i \<and> i < 16 \<and> bit slot (i - 11)) \<or> (8 \<le> i \<and> i < 11 \<and> bit func (i - 8)) \<or> (i < 8 \<and> bit count i)"
proof -
  have m: "count AND 0xFC = count"
  proof (rule bit_word_eqI)
    fix j
    assume "j < LENGTH(32)"
    have "0xFC = (push_bit 2 (mask 6) :: u32)" by (simp add: mask_eq_exp_minus_1)
    then have "bit (0xFC :: u32) j \<longleftrightarrow> 2 \<le> j \<and> j < 8" using \<open>j < LENGTH(32)\<close> by (simp only: bit_push_bit_iff bit_mask_iff) auto
    moreover have "2 \<le> j \<and> j < 8" if "bit count j"
      using small_word_bits [OF assms(4) that] assms(5,6) that by (cases "j = 0"; cases "j = 1") auto
    ultimately show "bit (count AND 0xFC) j = bit count j" by (auto simp: bit_and_iff)
  qed
  have "bit (push_bit k (1 :: u32)) i \<longleftrightarrow> i = k" if "k < 32" for k using that assms(7) by (auto simp: bit_exp_iff)
  from this [of 31] have t: "bit (push_bit 31 (1 :: u32)) i \<longleftrightarrow> i = 31" by simp
  show ?thesis
    using assms(7) small_word_bits [OF assms(4), of i]
    unfolding pio_address_def m bit_or_iff t bit_small [OF assms(1), of 16, simplified] bit_small [OF assms(2), of 11, simplified] bit_small [OF assms(3), of 8, simplified] by auto
qed

lemma pio_address_parts:
  assumes "unat bus < 2 ^ 8" "unat slot < 2 ^ 5" "unat func < 2 ^ 3" "unat count < 2 ^ 8" "\<not> bit count 0" "\<not> bit count 1"
  shows "unat (take_bit 8 (drop_bit 16 (pio_address bus slot func count))) = unat bus"
    and "unat (take_bit 5 (drop_bit 11 (pio_address bus slot func count))) = unat slot"
    and "unat (take_bit 3 (drop_bit 8 (pio_address bus slot func count))) = unat func"
    and "unat (take_bit 6 (drop_bit 2 (pio_address bus slot func count))) = unat (drop_bit 2 count)"
    and "bit (pio_address bus slot func count) 31"
proof -
  note b = pio_address_bits [OF assms]
  let ?o = "pio_address bus slot func count"
  show "unat (take_bit 8 (drop_bit 16 ?o)) = unat bus" by (rule extract_field [OF assms(1)]) (simp add: b)
  show "unat (take_bit 5 (drop_bit 11 ?o)) = unat slot" by (rule extract_field [OF assms(2)]) (simp add: b)
  show "unat (take_bit 3 (drop_bit 8 ?o)) = unat func" by (rule extract_field [OF assms(3)]) (simp add: b)
  have "unat (drop_bit 2 count) < 2 ^ 6" using assms(4) by (simp add: drop_bit_eq_div unat_div less_mult_imp_div_less)
  then show "unat (take_bit 6 (drop_bit 2 ?o)) = unat (drop_bit 2 count)" by (rule extract_field) (simp add: b bit_drop_bit_eq)
  show "bit ?o 31" by (simp add: b)
qed

lemma count_value:
  assumes "k < 16"
  shows "unat (of_nat (4 * k) :: u32) < 2 ^ 8" "\<not> bit (of_nat (4 * k) :: u32) 0" "\<not> bit (of_nat (4 * k) :: u32) 1" "unat (drop_bit 2 (of_nat (4 * k) :: u32)) = k"
proof -
  have u: "unat (of_nat (4 * k) :: u32) = 4 * k" using assms by (simp add: unat_of_nat take_bit_nat_eq_self del: of_nat_mult)
  then show "unat (of_nat (4 * k) :: u32) < 2 ^ 8" using assms by simp
  show "unat (drop_bit 2 (of_nat (4 * k) :: u32)) = k" using u by (simp add: drop_bit_eq_div unat_div del: of_nat_mult)
  have "(of_nat (4 * k) :: u32) = push_bit 2 (of_nat k)" by (simp add: push_bit_eq_mult)
  then show "\<not> bit (of_nat (4 * k) :: u32) 0" "\<not> bit (of_nat (4 * k) :: u32) 1" by (simp_all add: bit_push_bit_iff del: of_nat_mult push_bit_of_nat)
qed

abbreviation in_range :: "u32 \<Rightarrow> u32 \<Rightarrow> u32 \<Rightarrow> bool" where
  "in_range bus slot func \<equiv> unat bus < 256 \<and> unat slot < 32 \<and> unat func < 8"

lemma pio_loop_words:
  assumes "in_range bus slot func"
  shows "list_all (\<lambda>k. k < 16) ks \<Longrightarrow> fst (pio_loop bus slot func (map (\<lambda>k. of_nat (4 * k)) ks) h) = map (cfg h (unat bus) (unat slot) (unat func)) ks"
proof (induction ks arbitrary: h)
  case (Cons k ks)
  then have "k < 16" by simp
  note c = count_value [OF this]
  have "pci_inl (pci_outl (pio_address bus slot func (of_nat (4 * k))) h) = cfg h (unat bus) (unat slot) (unat func) k"
    using assms by (simp add: pci_inl_def pci_outl_def Let_def pio_address_parts [OF _ _ _ c(1-3)] c(4) del: of_nat_mult)
  moreover have "cfg (pci_outl v h) = cfg h" for v by (simp add: pci_outl_def)
  ultimately show ?case using Cons by (simp add: Let_def split_beta del: of_nat_mult)
qed simp

lemma mmio_loop_words:
  assumes "in_range bus slot func" "acpi_find_mcfg_pci_mmio_base m a 0 = Some (ecam_base h)"
  shows "list_all (\<lambda>k. k < 16) ks \<Longrightarrow> mmio_loop m a bus slot func (map (\<lambda>k. of_nat (4 * k)) ks) h = Some (map (cfg h (unat bus) (unat slot) (unat func)) ks)"
proof (induction ks)
  case (Cons k ks)
  then have "k < 16" by simp
  note c = count_value [OF this]
  have "unat (of_nat (4 * k) :: u32) < 2 ^ 12" using c(1) by simp
  then have "ecam_read h (ecam_base h + ecam_offset bus slot func (of_nat (4 * k))) = cfg h (unat bus) (unat slot) (unat func) k"
    using assms(1) ecam_offset_parts [of bus slot func "of_nat (4 * k)"] c(4) by (simp add: ecam_read_def Let_def del: of_nat_mult)
  then show ?case using Cons assms(2) by (simp del: of_nat_mult)
qed simp

definition function_config :: "pci_host \<Rightarrow> nat \<Rightarrow> nat \<Rightarrow> nat \<Rightarrow> pci_config" where
  "function_config h b d f = pci_config_of (map (cfg h b d f) [0..<16])"

lemma pci_read_config_eq:
  assumes "in_range bus slot func" "acpi_find_mcfg_pci_mmio_base m a 0 = Some (ecam_base h)"
  shows "pci_read_config m a bus slot func h = Some (function_config h (unat bus) (unat slot) (unat func))"
  using mmio_loop_words [OF assms, of "[0..<16]"]
  by (simp add: pci_read_config_def pci_read_config_mmio_def counts_def function_config_def list_all_iff del: of_nat_mult upt_rec_numeral)

text \<open>
  C34: Both ways to read the configuration space deliver the same registers, those of the function that is asked for: through the window of the MCFG table and through the two ports, for every bus, device and
  function number there is, the structure holds the sixteen configuration words of that function. Every address read lies in the window of 65536 pages that \<open>pci_init\<close> maps.
\<close>

theorem pci_config_access:
  assumes "unat bus < 256" and "unat slot < 32" and "unat func < 8" and "acpi_find_mcfg_pci_mmio_base m a 0 = Some (ecam_base h)"
  shows "pci_read_config_mmio m a bus slot func h = Some (pci_config_of (map (cfg h (unat bus) (unat slot) (unat func)) [0..<16])) \<and>
    fst (pci_read_config_pio bus slot func h) = pci_config_of (map (cfg h (unat bus) (unat slot) (unat func)) [0..<16]) \<and>
    (\<forall>c \<in> set counts. unat (ecam_offset bus slot func c) < 65536 * 4096)"
proof (intro conjI ballI)
  have r: "in_range bus slot func" using assms by simp
  show "pci_read_config_mmio m a bus slot func h = Some (pci_config_of (map (cfg h (unat bus) (unat slot) (unat func)) [0..<16]))"
    using pci_read_config_eq [OF r assms(4)] by (simp add: pci_read_config_def function_config_def del: upt_rec_numeral)
  have "list_all (\<lambda>k. k < 16) [0..<16]" by (simp add: list_all_iff del: upt_rec_numeral)
  from pio_loop_words [OF r this, of h]
  show "fst (pci_read_config_pio bus slot func h) = pci_config_of (map (cfg h (unat bus) (unat slot) (unat func)) [0..<16])"
    by (simp add: pci_read_config_pio_def counts_def split_beta del: of_nat_mult upt_rec_numeral)
  fix c
  assume "c \<in> set counts"
  then obtain k where k: "k < 16" "c = of_nat (4 * k)" unfolding counts_def by (auto simp del: of_nat_mult upt_rec_numeral)
  have "unat c < 2 ^ 12" using count_value(1) [OF k(1)] unfolding k(2) by simp
  then show "unat (ecam_offset bus slot func c) < 65536 * 4096" using ecam_offset_parts(5) [of bus slot func c] assms by simp
qed

text \<open>A host bridge with one function of class 01:06:01 at 00:1f.2.\<close>

definition sample_mcfg :: mem where
  "sample_mcfg p = (if p = 0x1004 then 60 else if p = 0x102F then 0xB0 else 0)"

definition sample_tables :: acpi where
  "sample_tables = \<lparr>mcfg = 0x1000, madt = 0, mapped = []\<rparr>"

definition sample_host :: pci_host where
  "sample_host = \<lparr>config_address = 0, cfg = (\<lambda>b d f k. if (b, d, f) = (0, 31, 2) then (if k = 0 then 0x29228086 else if k = 2 then 0x01060102 else if k = 9 then 0xFEBF1000 else 0) else 0xFFFFFFFF),
     ecam_base = 0xB0000000\<rparr>"

lemma sample_mcfg_base: "acpi_find_mcfg_pci_mmio_base sample_mcfg sample_tables 0 = Some (ecam_base sample_host)"
  by (simp add: acpi_find_mcfg_pci_mmio_base_def sample_tables_def rd64_def rd32_def sample_mcfg_def sample_host_def sizeof_sdt_header_def Let_def)

theorem pci_config_access_witness:
  "map_option (device_id \<circ> pci_header) (pci_read_config_mmio sample_mcfg sample_tables 0 31 2 sample_host) = Some 0x2922 \<and>
   vendor_id (pci_header (fst (pci_read_config_pio 0 31 2 sample_host))) = 0x8086"
  using pci_config_access [of 0 31 2, OF _ _ _ sample_mcfg_base] by (simp add: pci_config_of_def sample_host_def)

definition ahci_functions :: "pci_host \<Rightarrow> (nat \<times> nat \<times> nat) list" where
  "ahci_functions h = filter (\<lambda>(b, d, f). is_ahci (function_config h b d f)) all_functions"

lemma all_functions_range: "(b, d, f) \<in> set all_functions \<longleftrightarrow> b < 256 \<and> d < 32 \<and> f < 8"
  by (auto simp: all_functions_def image_iff simp del: upt_rec_numeral)

lemma probe_function_eq:
  assumes "b < 256" "d < 32" "f < 8" "acpi_find_mcfg_pci_mmio_base m a 0 = Some (ecam_base h)"
  shows "probe_function m a h (of_nat b) (of_nat d) (of_nat f) s =
    (if is_ahci (function_config h b d f) then do {
       (ok, k) \<leftarrow> kh_alloc (aheap s) sizeof_pci_config;
       if \<not> ok then None else ahci_init (ucast (bar (type0 (function_config h b d f)) ! 5)) (s\<lparr>aheap := k\<rparr>) }
     else Some s)"
proof -
  have "unat (of_nat b :: u32) = b" "unat (of_nat d :: u32) = d" "unat (of_nat f :: u32) = f" using assms(1-3) by (simp_all add: unat_of_nat take_bit_nat_eq_self)
  then show ?thesis using pci_read_config_eq [of "of_nat b" "of_nat d" "of_nat f" m a h] assms by (simp add: probe_function_def)
qed

lemma probe_loop_filter:
  assumes "\<And>b d f. (b, d, f) \<in> set xs \<Longrightarrow> b < 256 \<and> d < 32 \<and> f < 8" "acpi_find_mcfg_pci_mmio_base m a 0 = Some (ecam_base h)"
  shows "probe_loop m a h xs s = probe_loop m a h (filter (\<lambda>(b, d, f). is_ahci (function_config h b d f)) xs) s"
  using assms(1)
proof (induction xs arbitrary: s)
  case (Cons x xs)
  obtain b d f where x: "x = (b, d, f)" by (cases x)
  have IH: "probe_loop m a h xs s = probe_loop m a h (filter (\<lambda>(b, d, f). is_ahci (function_config h b d f)) xs) s" for s
    by (rule Cons(1)) (use Cons(2) in auto)
  have "b < 256" "d < 32" "f < 8" using Cons(2) x by auto
  note p = probe_function_eq [OF this assms(2)]
  show ?case
  proof (cases "is_ahci (function_config h b d f)")
    case True
    then show ?thesis unfolding x using IH by simp
  next
    case False
    then show ?thesis unfolding x using IH p [of s] by simp
  qed
qed simp

lemma pci_probe_single:
  assumes "acpi_find_mcfg_pci_mmio_base m a 0 = Some (ecam_base h)" "ahci_functions h = [(b, d, f)]" "roomy (aheap s)"
  shows "\<exists>k. roomy k \<and> pci_probe m a h s = ahci_init (ucast (bar (type0 (function_config h b d f)) ! 5)) (s\<lparr>aheap := k\<rparr>)"
proof -
  have "(b, d, f) \<in> set (ahci_functions h)" using assms(2) by simp
  then have f: "b < 256" "d < 32" "f < 8" "is_ahci (function_config h b d f)" by (auto simp: ahci_functions_def all_functions_range)
  obtain k where k: "kh_alloc (aheap s) sizeof_pci_config = Some (True, k)" "roomy k" using kh_alloc_roomy [OF assms(3), of sizeof_pci_config] by (auto simp: sizeof_pci_config_def)
  have "pci_probe m a h s = probe_loop m a h (ahci_functions h) s"
    unfolding pci_probe_def ahci_functions_def by (rule probe_loop_filter [OF _ assms(1)]) (simp add: all_functions_range)
  also have "\<dots> = probe_function m a h (of_nat b) (of_nat d) (of_nat f) s" unfolding assms(2) by (simp add: bind_assoc split: option.splits)
  also have "\<dots> = ahci_init (ucast (bar (type0 (function_config h b d f)) ! 5)) (s\<lparr>aheap := k\<rparr>)"
    using probe_function_eq [OF f(1-3) assms(1), of s] f(4) k(1) by simp
  finally show ?thesis using k(2) by blast
qed


lemma all_functions_product: "all_functions = List.product [0..<256] (List.product [0..<32] [0..<8])"
  by (simp add: all_functions_def product_concat_map map_concat o_def del: upt_rec_numeral)

lemma filter_unique: "distinct xs \<Longrightarrow> y \<in> set xs \<Longrightarrow> filter (\<lambda>x. x = y) xs = [y]"
  by (induction xs) (auto simp: filter_empty_conv)

lemma sample_functions: "ahci_functions sample_host = [(0, 31, 2)]"
proof -
  have "is_ahci (function_config sample_host b d f) \<longleftrightarrow> (b, d, f) = (0, 31, 2)" for b d f
    by (cases "(b, d, f) = (0, 31, 2)") (auto simp: is_ahci_def function_config_def pci_config_of_def sample_host_def)
  then have "ahci_functions sample_host = filter (\<lambda>x. x = (0, 31, 2)) all_functions" unfolding ahci_functions_def by (intro filter_cong) auto
  also have "\<dots> = [(0, 31, 2)]"
    by (rule filter_unique) (simp_all add: all_functions_range, simp add: all_functions_product distinct_product del: upt_rec_numeral)
  finally show ?thesis .
qed


end
