(* ===== verification/UserSpace.thy ===== *)
theory UserSpace
  imports Sched Descriptors
begin

text \<open>
  The address space of a new program: \<open>__usertask_create\<close> of \<open>src/src/task.c\<close>. The function works through the live page tables: it maps the frames of the new tables into a window at
  \<open>0x700000000000\<close>, fills them through the window, writes the first frame of the task through the loader's mapping of its stack, and removes the window. All of this is performed on the memory and
  the walk of theory \<open>PageTable\<close>; a page fault is \<open>None\<close>.

  The lemmas show what the new tables contain, and that the address space they describe has the program's pages at the addresses at which the loader had put them, and the kernel's half of the old one.
\<close>

section \<open>The state\<close>

record uproc =
  u_vm :: vm_state
  u_sched :: sched
  u_task :: task_struct

definition URSP0_SIZE :: nat where "URSP0_SIZE = 16 * 1024"
definition USTACK_SIZE :: u64 where "USTACK_SIZE = 512 * 1024"
definition USER_SPACE_PML4_BASE :: u64 where "USER_SPACE_PML4_BASE = 0x0000700000000000"
definition USER_SPACE_PDPT_BASE :: u64 where "USER_SPACE_PDPT_BASE = 0x0000700000001000"
definition USER_SPACE_PD_BASE :: u64 where "USER_SPACE_PD_BASE = 0x0000700000002000"
definition USER_SPACE_PT_BASE :: u64 where "USER_SPACE_PT_BASE = 0x0000700000003000"
definition MAP_USER_RW :: u64 where "MAP_USER_RW = 7"

section \<open>The page tables of a new address space\<close>

text \<open>Frames for one level of the tables, entered into the window.\<close>

definition user_level :: "u64 \<Rightarrow> nat \<Rightarrow> vm_state \<Rightarrow> (u64 \<times> nat \<times> vm_state) option" where
  "user_level window count s = do {
     let order = size_to_order (wrap64 (count * 8));
     (phys, bmp) \<leftarrow> alloc_pages (page_alloc_bitmap s) order;
     (_, s) \<leftarrow> map_page_range (s\<lparr>page_alloc_bitmap := bmp\<rparr>) phys window MAP_USER_RW count;
     Some (phys, order, s) }"

definition copy_kernel_half :: "vm_state \<Rightarrow> vm_state option" where
  "copy_kernel_half s =
     fold (\<lambda>index so. do {
        s \<leftarrow> so;
        e \<leftarrow> load64 s (push_bit PAGE_SHIFT PML4_BASE + 8 * of_nat index);
        store64 s (USER_SPACE_PML4_BASE + 8 * of_nat index) e }) [256..<511] (Some s)"

definition fill_tables :: "u64 \<Rightarrow> u64 \<Rightarrow> u64 \<Rightarrow> nat \<Rightarrow> vm_state \<Rightarrow> vm_state option" where
  "fill_tables table idx below count s =
     fold (\<lambda>i so. do { s \<leftarrow> so; store64 s (table + 8 * (idx + of_nat i)) ((below + of_nat (i * PAGE_SIZE)) OR MAP_USER_RW) }) [0..<count] (Some s)"

definition fill_pages :: "u64 \<Rightarrow> u64 \<Rightarrow> u64 \<Rightarrow> nat \<Rightarrow> vm_state \<Rightarrow> vm_state option" where
  "fill_pages table idx start count s =
     fold (\<lambda>i so. do {
        s \<leftarrow> so;
        phys \<leftarrow> get_physaddr s (start + of_nat (i * PAGE_SIZE));
        store64 s (table + 8 * (idx + of_nat i)) (phys OR MAP_USER_RW) }) [0..<count] (Some s)"

text \<open>The first frame of the new task: the registers (of which only \<open>rdi\<close> is written), the return into \<open>switch_to_user\<close>, and the frame of \<open>iretq\<close>.\<close>

definition sizeof_init_stack :: u64 where "sizeof_init_stack = 128 + 8 + 40"

definition init_stack :: "u64 \<Rightarrow> u64 \<Rightarrow> u64 \<Rightarrow> u64 \<Rightarrow> u64 \<Rightarrow> vm_state \<Rightarrow> vm_state option" where
  "init_stack rsp stack_end entry switch_to_user args s = do {
     s \<leftarrow> store64 s (rsp + 168) (ucast UDATA_SELECTOR);
     s \<leftarrow> store64 s (rsp + 160) stack_end;
     s \<leftarrow> store64 s (rsp + 152) 0x202;
     s \<leftarrow> store64 s (rsp + 144) (ucast UCODE_SELECTOR);
     s \<leftarrow> store64 s (rsp + 136) entry;
     s \<leftarrow> store64 s (rsp + 128) switch_to_user;
     store64 s (rsp + 72) args }"

definition usertask_create :: "u64 \<Rightarrow> u64 \<Rightarrow> u64 \<Rightarrow> u64 \<Rightarrow> u64 \<Rightarrow> uproc \<Rightarrow> (int \<times> uproc) option" where
  "usertask_create switch_to_user stack_end start entry args u = do {
     let nr_pages = unat (drop_bit PAGE_SHIFT (stack_end - start));
     let (pml4_count, pdpt_count, pd_count, pt_count) = calc_page_table_counts nr_pages;
     (pml4_phys, pml4_order, v) \<leftarrow> user_level USER_SPACE_PML4_BASE pml4_count (u_vm u);
     (pdpt_phys, pdpt_order, v) \<leftarrow> user_level USER_SPACE_PDPT_BASE pdpt_count v;
     (pd_phys, pd_order, v) \<leftarrow> user_level USER_SPACE_PD_BASE pd_count v;
     (pt_phys, pt_order, v) \<leftarrow> user_level USER_SPACE_PT_BASE pt_count v;
     let task = (u_task u)\<lparr>user_phys := [pml4_phys, pdpt_phys, pd_phys, pt_phys], user_order := [pml4_order, pdpt_order, pd_order, pt_order], pml4 := pml4_phys\<rparr>;
     v \<leftarrow> copy_kernel_half v;
     v \<leftarrow> store64 v (USER_SPACE_PML4_BASE + 8 * 511) (pml4_phys OR MAP_USER_RW);
     v \<leftarrow> fill_tables USER_SPACE_PML4_BASE (tbl_idx 39 start) pdpt_phys pml4_count v;
     v \<leftarrow> fill_tables USER_SPACE_PDPT_BASE (tbl_idx 30 start) pd_phys pdpt_count v;
     v \<leftarrow> fill_tables USER_SPACE_PD_BASE (tbl_idx 21 start) pt_phys pd_count v;
     v \<leftarrow> fill_pages USER_SPACE_PT_BASE (tbl_idx 12 start) start pt_count v;
     (base, s) \<leftarrow> alloc_block URSP0_SIZE (u_sched u);
     let rsp = stack_end - sizeof_init_stack;
     let task = task\<lparr>rsp0_base := base, rsp0 := base + of_nat URSP0_SIZE, t_stack := stack_end, t_rsp := rsp\<rparr>;
     v \<leftarrow> init_stack rsp stack_end entry switch_to_user args v;
     (_, v) \<leftarrow> unmap_page_range v USER_SPACE_PML4_BASE pml4_count;
     (_, v) \<leftarrow> unmap_page_range v USER_SPACE_PDPT_BASE pdpt_count;
     (_, v) \<leftarrow> unmap_page_range v USER_SPACE_PD_BASE pd_count;
     (_, v) \<leftarrow> unmap_page_range v USER_SPACE_PT_BASE pt_count;
     Some (0, u\<lparr>u_vm := v, u_sched := s, u_task := task\<rparr>) }"

section \<open>Writing to frames that are no tables\<close>

text \<open>Two states with the same tables have the same translations.\<close>

definition same_tables :: "nat set \<Rightarrow> vm_state \<Rightarrow> vm_state \<Rightarrow> bool" where
  "same_tables R s t \<longleftrightarrow> page_alloc_bitmap t = page_alloc_bitmap s \<and> vm_state.cr3 t = vm_state.cr3 s \<and> (\<forall>f \<in> table_frames R s. pmem t f = pmem s f)"

definition put_frame :: "vm_state \<Rightarrow> u64 \<Rightarrow> (nat \<Rightarrow> u64) \<Rightarrow> vm_state" where
  "put_frame s f g = s\<lparr>pmem := (pmem s)(f := g)\<rparr>"

lemma put_frame_simps [simp]:
  "pmem (put_frame s f g) = (pmem s)(f := g)" "vm_state.cr3 (put_frame s f g) = vm_state.cr3 s" "page_alloc_bitmap (put_frame s f g) = page_alloc_bitmap s"
  "put_frame (put_frame s f g) f h = put_frame s f h"
  by (simp_all add: put_frame_def)

lemma same_tables_put: "f \<notin> table_frames R s \<Longrightarrow> same_tables R s (put_frame s f g)"
  by (auto simp: same_tables_def)

lemma same_tables_tbl: "same_tables R s t \<Longrightarrow> table_path R p \<Longrightarrow> tbl t p = tbl s p"
proof (induction p)
  case (Cons i p)
  have p: "table_path R p" using Cons.prems(2) by (rule table_path_tl)
  note IH = Cons.IH [OF Cons.prems(1) p]
  show ?case
  proof (cases "tbl s p")
    case (Some f)
    then have "pmem t f = pmem s f" using Cons.prems(1) p by (auto simp: same_tables_def table_frames_def)
    then show ?thesis using IH Some by (simp add: next_table_def)
  qed (simp add: IH)
qed (simp add: same_tables_def)

lemma same_tables_frames: "same_tables R s t \<Longrightarrow> table_frames R t = table_frames R s"
  unfolding table_frames_def using same_tables_tbl by metis

lemma same_tables_trans: "same_tables R s t \<Longrightarrow> same_tables R t u \<Longrightarrow> same_tables R s u"
  using same_tables_frames [of R s t] unfolding same_tables_def by auto

lemma same_tables_refl [simp]: "same_tables R s s"
  by (simp add: same_tables_def)

lemma same_tables_leaf: "same_tables R s t \<Longrightarrow> leaf_path R q \<Longrightarrow> leaf t q = leaf s q"
proof -
  assume a: "same_tables R s t" "leaf_path R q"
  have q: "table_path R (tl q)" using leaf_path_tl [OF a(2)] by simp
  show ?thesis
  proof (cases "tbl s (tl q)")
    case (Some f)
    then have "pmem t f = pmem s f" using a(1) q by (auto simp: same_tables_def table_frames_def)
    then show ?thesis using Some same_tables_tbl [OF a(1) q] by (simp add: leaf_def)
  qed (simp add: leaf_def same_tables_tbl [OF a(1) q])
qed

lemma root_table: "frame_of (vm_state.cr3 s) \<in> table_frames R s"
  unfolding table_frames_def by (auto intro!: exI [of _ "[]"] simp: table_path_def)

lemma same_tables_wf: "pt_wf R s \<Longrightarrow> same_tables R s t \<Longrightarrow> pt_wf R t"
proof -
  assume a: "pt_wf R s" "same_tables R s t"
  have "recursive t"
    by (rule recursive_cong [OF pt_wf_recursive [OF a(1)]]) (use a(2) root_table [of s R] in \<open>auto simp: same_tables_def\<close>)
  moreover have "page_alloc_bitmap t = page_alloc_bitmap s" using a(2) by (simp add: same_tables_def)
  ultimately show ?thesis using a(1) same_tables_tbl [OF a(2)] unfolding pt_wf_def by metis
qed

text \<open>A page of the kernel's address space as an array of 512 words.\<close>

lemma page_byte:
  assumes "va AND 0xFFF = 0" "x < 4096"
  shows "path (va + of_nat x) = path va" "unat (tbl_idx 3 (va + of_nat x)) = x div 8" "unat (va + of_nat x) mod 8 = x mod 8"
proof -
  have "take_bit 12 va = 0" using assms(1) by (simp add: take_bit_eq_mask low_mask del: mask_numeral)
  then have "take_bit 12 (unat va) = 0" by (metis unsigned_0 unsigned_take_bit_eq)
  then obtain q where q: "unat va = 4096 * q" by (auto simp: take_bit_eq_mod)
  have b: "unat va < 2 ^ 64" using unsigned_less [where 'a = nat, of va] by simp
  then have "q < 2 ^ 52" using q by simp
  then have "unat va + x < 2 ^ 64" using q assms(2) by simp
  then have u: "unat (va + of_nat x) = 4096 * q + x" using unat_add_of_nat [of va x] q by simp
  have "(4096 * q + x) div 2 ^ 12 = q" using assms(2) by simp
  then have d: "(4096 * q + x) div 2 ^ (12 + k) = 4096 * q div 2 ^ (12 + k)" for k
    by (simp only: power_add div_mult2_eq) simp
  have "tbl_idx (12 + k) (va + of_nat x) = tbl_idx (12 + k) va" for k
    by (rule word_unat_eq_iff [THEN iffD2]) (simp only: tbl_idx_unat u q d)
  from this [of 0] this [of 9] this [of 18] this [of 27] show "path (va + of_nat x) = path va" by (simp add: path_def)
  have "(4096 * q + x) div 2 ^ 3 = 512 * q + x div 8" by simp
  moreover have "x div 8 < 512" using assms(2) by simp
  ultimately show "unat (tbl_idx 3 (va + of_nat x)) = x div 8" by (simp only: tbl_idx_unat u) simp
  have "4096 * q + x = x + 8 * (512 * q)" by simp
  then show "unat (va + of_nat x) mod 8 = x mod 8" unfolding u by (simp only: mod_mult_self2)
qed

lemma aligned_slot:
  assumes "va AND 0xFFF = 0" "j < 512"
  shows "path (va + 8 * of_nat j) = path va" "unat (tbl_idx 3 (va + 8 * of_nat j)) = j"
  using page_byte(1,2) [OF assms(1), of "8 * j"] assms(2) by simp_all

lemma store_window:
  assumes "leaf s (path va) = Some e" "va AND 0xFFF = 0" "j < 512"
  shows "store64 s (va + 8 * of_nat j) v = Some (put_frame s (frame_of e) ((pmem s (frame_of e))(j := v)))"
  using assms(1) aligned_slot [OF assms(2,3)] by (simp add: store64_def translate_leaf put_frame_def)

lemma load_window:
  assumes "leaf s (path va) = Some e" "va AND 0xFFF = 0" "j < 512"
  shows "load64 s (va + 8 * of_nat j) = Some (pmem s (frame_of e) j)"
  using assms(1) aligned_slot [OF assms(2,3)] by (simp add: load64_def translate_leaf)

text \<open>A loop that stores into consecutive slots of a window.\<close>

lemma window_fill:
  assumes "leaf s (path va) = Some e" "leaf_path R (path va)" "va AND 0xFFF = 0" "frame_of e \<notin> table_frames R s" "a + n \<le> 512"
    and "\<And>h i. i < n \<Longrightarrow> g (put_frame s (frame_of e) h) i = Some (w i)"
  shows "fold (\<lambda>i so. do { s \<leftarrow> so; v \<leftarrow> g s i; store64 s (va + 8 * (of_nat a + of_nat i)) v }) [0..<n] (Some s) =
    Some (put_frame s (frame_of e) (\<lambda>j. if a \<le> j \<and> j < a + n then w (j - a) else pmem s (frame_of e) j))"
  using assms(5,6)
proof (induction n)
  case 0
  have "put_frame s (frame_of e) (\<lambda>j. if a \<le> j \<and> j < a + 0 then w (j - a) else pmem s (frame_of e) j) = put_frame s (frame_of e) (pmem s (frame_of e))" by (intro arg_cong [where f = "put_frame s (frame_of e)"] ext) auto
  also have "\<dots> = s" by (simp add: put_frame_def)
  finally have "put_frame s (frame_of e) (\<lambda>j. if a \<le> j \<and> j < a + 0 then w (j - a) else pmem s (frame_of e) j) = s" .
  then show ?case by simp
next
  case (Suc n)
  let ?h = "\<lambda>j. if a \<le> j \<and> j < a + n then w (j - a) else pmem s (frame_of e) j"
  let ?t = "put_frame s (frame_of e) ?h"
  have "leaf ?t (path va) = Some e" using same_tables_leaf [OF same_tables_put [OF assms(4)] assms(2)] assms(1) by simp
  then have "store64 ?t (va + 8 * of_nat (a + n)) (w n) = Some (put_frame s (frame_of e) (?h(a + n := w n)))"
    using Suc.prems(1) by (subst store_window [OF _ assms(3)]) (auto simp del: of_nat_add)
  moreover have "?h(a + n := w n) = (\<lambda>j. if a \<le> j \<and> j < a + Suc n then w (j - a) else pmem s (frame_of e) j)" by (auto simp: fun_eq_iff)
  ultimately show ?case using Suc by simp
qed

text \<open>The loops of \<open>__usertask_create\<close>, each on a window that shows one frame.\<close>

lemma load_root:
  assumes "pt_wf R s" "j < 512"
  shows "load64 s (push_bit PAGE_SHIFT PML4_BASE + 8 * of_nat j) = Some (pmem s (frame_of (vm_state.cr3 s)) j)"
proof -
  have "push_bit PAGE_SHIFT PML4_BASE = map_pml4" by (simp add: map_pml4_def PAGE_SHIFT_def)
  then show ?thesis using translate_tables(1) [OF pt_wf_recursive [OF assms(1)], of 0 0 0 j] assms(2) by (simp add: load64_def)
qed

lemma copy_kernel_half_eq:
  assumes "pt_wf R s" "leaf s (path USER_SPACE_PML4_BASE) = Some e" "leaf_path R (path USER_SPACE_PML4_BASE)" "frame_of e \<notin> table_frames R s"
  shows "copy_kernel_half s = Some (put_frame s (frame_of e) (\<lambda>j. if 256 \<le> j \<and> j < 511 then pmem s (frame_of (vm_state.cr3 s)) j else pmem s (frame_of e) j))"
proof -
  let ?step = "\<lambda>i so. do { s \<leftarrow> so; v \<leftarrow> load64 s (push_bit PAGE_SHIFT PML4_BASE + 8 * of_nat (256 + i)); store64 s (USER_SPACE_PML4_BASE + 8 * (of_nat 256 + of_nat i)) v }"
  have l: "[256..<511] = map (\<lambda>i. i + 256) [0..<255]" by (simp add: map_add_upt del: upt_rec_numeral)
  have "copy_kernel_half s = fold ?step [0..<255] (Some s)"
    unfolding copy_kernel_half_def l fold_map by (simp add: o_def add.commute del: upt_rec_numeral)
  also have "\<dots> = Some (put_frame s (frame_of e) (\<lambda>j. if 256 \<le> j \<and> j < 256 + 255 then pmem s (frame_of (vm_state.cr3 s)) (256 + (j - 256)) else pmem s (frame_of e) j))"
  proof (rule window_fill [OF assms(2,3) _ assms(4)])
    fix h i
    assume "i < (255 :: nat)"
    moreover have "frame_of (vm_state.cr3 s) \<noteq> frame_of e" using assms(4) root_table [of s R] by auto
    moreover have "pt_wf R (put_frame s (frame_of e) h)" by (rule same_tables_wf [OF assms(1) same_tables_put [OF assms(4)]])
    ultimately show "load64 (put_frame s (frame_of e) h) (push_bit PAGE_SHIFT PML4_BASE + 8 * of_nat (256 + i)) = Some (pmem s (frame_of (vm_state.cr3 s)) (256 + i))"
      using load_root [of R "put_frame s (frame_of e) h" "256 + i"] by (simp del: of_nat_add)
  qed (simp_all add: USER_SPACE_PML4_BASE_def)
  finally show ?thesis by (auto intro!: arg_cong [where f = "put_frame s (frame_of e)"] simp: fun_eq_iff)
qed

lemma fill_tables_eq:
  assumes "leaf s (path va) = Some e" "leaf_path R (path va)" "va AND 0xFFF = 0" "frame_of e \<notin> table_frames R s" "unat idx + n \<le> 512"
  shows "fill_tables va idx below n s =
    Some (put_frame s (frame_of e) (\<lambda>j. if unat idx \<le> j \<and> j < unat idx + n then (below + of_nat ((j - unat idx) * PAGE_SIZE)) OR MAP_USER_RW else pmem s (frame_of e) j))"
  using window_fill [OF assms, where g = "\<lambda>s i. Some ((below + of_nat (i * PAGE_SIZE)) OR MAP_USER_RW)" and w = "\<lambda>i. (below + of_nat (i * PAGE_SIZE)) OR MAP_USER_RW"]
  by (simp add: fill_tables_def)

lemma fill_pages_eq:
  assumes "leaf s (path va) = Some e" "leaf_path R (path va)" "va AND 0xFFF = 0" "frame_of e \<notin> table_frames R s" "unat idx + n \<le> 512" "pt_wf R s"
    and "\<And>k. k < n \<Longrightarrow> unat (tbl_idx 39 (page_at start k)) \<in> R \<and> leaf s (path (page_at start k)) = Some (l k) \<and> page_at start k AND 0xFFF = 0"
  shows "fill_pages va idx start n s =
    Some (put_frame s (frame_of e) (\<lambda>j. if unat idx \<le> j \<and> j < unat idx + n then (l (j - unat idx) AND NOT 0xFFF) OR MAP_USER_RW else pmem s (frame_of e) j))"
proof -
  have p: "start + of_nat (i * PAGE_SIZE) = page_at start i" for i by (simp add: page_at_def PAGE_SIZE_def)
  have "do { phys \<leftarrow> get_physaddr (put_frame s (frame_of e) h) (start + of_nat (i * PAGE_SIZE)); Some (phys OR MAP_USER_RW) } = Some ((l i AND NOT 0xFFF) OR MAP_USER_RW)"
    if "i < n" for h i
  proof -
    have st: "same_tables R s (put_frame s (frame_of e) h)" by (rule same_tables_put [OF assms(4)])
    have "leaf (put_frame s (frame_of e) h) (path (page_at start i)) = Some (l i)"
      using same_tables_leaf [OF st leaf_path_path] assms(7) [OF that] by simp
    then show ?thesis unfolding p using get_physaddr_leaf [OF pt_wf_recursive [OF same_tables_wf [OF assms(6) st]], of "page_at start i"] assms(7) [OF that]
      by simp
  qed
  from window_fill [OF assms(1-5), where g = "\<lambda>s i. do { phys \<leftarrow> get_physaddr s (start + of_nat (i * PAGE_SIZE)); Some (phys OR MAP_USER_RW) }"
      and w = "\<lambda>i. (l i AND NOT 0xFFF) OR MAP_USER_RW", OF this]
  show ?thesis by (simp add: fill_pages_def Option.bind_assoc)
qed

text \<open>One level: a fresh frame that is no table, shown in its window.\<close>

lemma enlarges_alloc:
  assumes "bmp_size b = bmp_size (page_alloc_bitmap s)" "\<And>j. bitmap_test (page_alloc_bitmap s) j \<Longrightarrow> bitmap_test b j"
  shows "enlarges R s (s\<lparr>page_alloc_bitmap := b\<rparr>)"
  using assms by (simp add: enlarges_def)

lemma pt_wf_grow:
  assumes "pt_wf R s" "bmp_size b = bmp_size (page_alloc_bitmap s)" "\<And>j. bitmap_test (page_alloc_bitmap s) j \<Longrightarrow> bitmap_test b j"
  shows "pt_wf R (s\<lparr>page_alloc_bitmap := b\<rparr>)"
  using pt_wf_bitmap [OF assms(1,2)] pt_wf_table_used [OF assms(1)] assms(3) by blast

definition data_frame :: "nat set \<Rightarrow> vm_state \<Rightarrow> u64 \<Rightarrow> bool" where
  "data_frame R s f \<longleftrightarrow> bitmap_test (page_alloc_bitmap s) (unat f) \<and> f \<notin> table_frames R s"

lemma data_frame_enlarges: "enlarges R s t \<Longrightarrow> data_frame R s f \<Longrightarrow> data_frame R t f \<and> pmem t f = pmem s f"
  unfolding enlarges_def data_frame_def by auto

lemma data_frame_same: "same_tables R s t \<Longrightarrow> data_frame R t f = data_frame R s f"
  using same_tables_frames [of R s t] by (auto simp: data_frame_def same_tables_def)

lemma data_frame_not_free: "data_frame R s f \<Longrightarrow> k < 2 ^ 31 \<Longrightarrow> \<not> bitmap_test (page_alloc_bitmap s) k \<Longrightarrow> of_nat k \<noteq> f"
  by (auto simp: data_frame_def unat_of_nat_small)

lemma small_order: "0 < c \<Longrightarrow> c \<le> 512 \<Longrightarrow> size_to_order (wrap64 (c * 8)) = 0"
  by (simp add: size_to_order_def PAGE_SIZE_def PAGE_SHIFT_def Let_def fls_def fls_loop.simps)

lemma user_level_spec:
  assumes "pt_wf R s" "0 < c" "c \<le> 512" "3 * c + 1 \<le> free_count (page_alloc_bitmap s)"
    and "\<forall>k < c. unat (tbl_idx 39 (page_at va k)) \<in> R \<and> leaf s (path (page_at va k)) = None"
  obtains k t where "user_level va c s = Some (page_addr k, 0, t)" "pt_wf R t" "k < 2 ^ 31"
    "\<forall>i < c. leaf t (path (page_at va i)) = Some ((page_at (page_addr k) i AND NOT 0xFFF) OR MAP_USER_RW OR 1)"
    "\<forall>q. leaf_path R q \<longrightarrow> q \<notin> (\<lambda>i. path (page_at va i)) ` {..<c} \<longrightarrow> leaf t q = leaf s q"
    "enlarges R s t" "free_count (page_alloc_bitmap s) - (3 * c + 1) \<le> free_count (page_alloc_bitmap t)"
    "data_frame R t (of_nat k)" "\<not> bitmap_test (page_alloc_bitmap s) k" "pmem t (of_nat k) = pmem s (of_nat k)"
proof -
  obtain k b where k: "alloc_pages (page_alloc_bitmap s) 0 = Some (page_addr k, b)" "k < 2 ^ 31" "bmp_size b = bmp_size (page_alloc_bitmap s)"
    "\<not> bitmap_test (page_alloc_bitmap s) k" "\<And>j. bitmap_test b j \<longleftrightarrow> bitmap_test (page_alloc_bitmap s) j \<or> j = k" "free_count b = free_count (page_alloc_bitmap s) - 1"
    using alloc_page_fresh [OF assms(1)] assms(4) by (metis add_gr_0 less_le_trans zero_less_one)
  let ?s = "s\<lparr>page_alloc_bitmap := b\<rparr>"
  have b: "\<And>j. bitmap_test (page_alloc_bitmap s) j \<Longrightarrow> bitmap_test b j" using k(5) by simp
  have wf: "pt_wf R ?s" by (rule pt_wf_grow [OF assms(1) k(3) b])
  have fl: "flags_ok MAP_USER_RW" by (simp add: flags_ok_def MAP_USER_RW_def)
  have pages: "\<forall>k < c. unat (tbl_idx 39 (page_at va k)) \<in> R \<and> leaf ?s (path (page_at va k)) = None" using assms(5) by simp
  have c: "c < 2 ^ 31" "3 * c \<le> free_count (page_alloc_bitmap ?s)" using assms(3,4) k(6) by auto
  obtain t where t: "map_page_range ?s (page_addr k) va MAP_USER_RW c = Some (int c, t)" "pt_wf R t"
    "\<forall>i < c. leaf t (path (page_at va i)) = Some ((page_at (page_addr k) i AND NOT 0xFFF) OR MAP_USER_RW OR 1)"
    "\<forall>q. leaf_path R q \<longrightarrow> q \<notin> (\<lambda>i. path (page_at va i)) ` {..<c} \<longrightarrow> leaf t q = leaf ?s q"
    "enlarges R ?s t" "free_count (page_alloc_bitmap ?s) - 3 * c \<le> free_count (page_alloc_bitmap t)"
    using map_page_range_full [OF wf fl c pages, where pa = "page_addr k"] extendsD(1) by metis
  have "user_level va c s = Some (page_addr k, 0, t)" using small_order [OF assms(2,3)] k(1) t(1) by (simp add: user_level_def)
  moreover have u: "unat (of_nat k :: u64) = k" using k(2) by (intro unat_of_nat_small) simp
  have "of_nat k \<notin> table_frames R s" using pt_wf_table_used [OF assms(1), of "of_nat k"] k(4) u by auto
  then have d: "data_frame R ?s (of_nat k)" using k(5) u by (simp add: data_frame_def)
  note D = data_frame_enlarges [OF t(5) d]
  moreover have "enlarges R s t" by (rule enlarges_trans [OF enlarges_alloc [OF k(3) b] t(5)])
  ultimately show thesis using that t k(2,4,6) by auto
qed

section \<open>The windows\<close>

abbreviation window :: "nat \<Rightarrow> u64" where
  "window k \<equiv> page_at USER_SPACE_PML4_BASE k"

lemma windows: "USER_SPACE_PML4_BASE = window 0" "USER_SPACE_PDPT_BASE = window 1" "USER_SPACE_PD_BASE = window 2" "page_at USER_SPACE_PT_BASE k = window (3 + k)"
  by (simp_all add: page_at_def USER_SPACE_PML4_BASE_def USER_SPACE_PDPT_BASE_def USER_SPACE_PD_BASE_def USER_SPACE_PT_BASE_def)

lemma window_slot: "k < 1024 \<Longrightarrow> unat (tbl_idx 39 (window k)) = 224"
proof -
  assume k: "k < 1024"
  have "window k = of_nat (123145302310912 + k * 4096)" by (simp add: page_at_def USER_SPACE_PML4_BASE_def)
  moreover have "unat (of_nat (123145302310912 + k * 4096) :: u64) = 123145302310912 + k * 4096" using k by (intro unat_of_nat_small) simp
  ultimately have u: "unat (window k) = 123145302310912 + k * 4096" by simp
  have "(123145302310912 + k * 4096) div 2 ^ 39 = 224"
    using k by (intro div_nat_eqI) simp_all
  then show ?thesis by (simp only: tbl_idx_unat u) simp
qed

lemma window_inj: "j < 1024 \<Longrightarrow> k < 1024 \<Longrightarrow> path (window j) = path (window k) \<longleftrightarrow> j = k"
  using path_page_at_inj [of USER_SPACE_PML4_BASE j k] by auto

lemma frame_of_page_addr: "k < 2 ^ 40 \<Longrightarrow> frame_of (page_addr k) = of_nat k"
proof -
  assume k: "k < 2 ^ 40"
  have fl: "flags_ok 1" by (simp add: flags_ok_def)
  show ?thesis using frame_of_new_entry [OF k fl] frame_of_mapped [OF fl, of "page_addr k"] page_addr_base [of k] by simp
qed

lemma window_entry: "k < 2 ^ 31 \<Longrightarrow> frame_of ((page_at (page_addr k) 0 AND NOT 0xFFF) OR MAP_USER_RW OR 1) = of_nat k"
proof -
  assume k: "k < 2 ^ 31"
  have "flags_ok MAP_USER_RW" by (simp add: flags_ok_def MAP_USER_RW_def)
  then show ?thesis using frame_of_mapped [of MAP_USER_RW "page_addr k"] frame_of_page_addr [of k] k by simp
qed

text \<open>The four levels, for a program of \<open>n\<close> pages that needs one table of each kind.\<close>

lemma levels:
  assumes wf: "pt_wf R s" and R: "224 \<in> R" and n: "0 < n" "n \<le> 512" and free: "3 * (3 + n) + 4 \<le> free_count (page_alloc_bitmap s)"
    and un: "\<forall>k < 3 + n. leaf s (path (window k)) = None"
  obtains k4 k3 k2 k1 s1 s2 s3 t where
    "user_level USER_SPACE_PML4_BASE 1 s = Some (page_addr k4, 0, s1)" "user_level USER_SPACE_PDPT_BASE 1 s1 = Some (page_addr k3, 0, s2)"
    "user_level USER_SPACE_PD_BASE 1 s2 = Some (page_addr k2, 0, s3)" "user_level USER_SPACE_PT_BASE n s3 = Some (page_addr k1, 0, t)"
    "pt_wf R t" "enlarges R s t" "distinct [k4, k3, k2, k1]" "\<forall>k \<in> {k4, k3, k2, k1}. k < 2 ^ 31 \<and> data_frame R t (of_nat k) \<and> \<not> bitmap_test (page_alloc_bitmap s) k" "pmem t (of_nat k4) = pmem s (of_nat k4)"
    "\<exists>e. leaf t (path (window 0)) = Some e \<and> frame_of e = of_nat k4" "\<exists>e. leaf t (path (window 1)) = Some e \<and> frame_of e = of_nat k3"
    "\<exists>e. leaf t (path (window 2)) = Some e \<and> frame_of e = of_nat k2" "\<exists>e. leaf t (path (window 3)) = Some e \<and> frame_of e = of_nat k1"
    "\<forall>k < 3 + n. leaf t (path (window k)) \<noteq> None" "\<forall>q. leaf_path R q \<longrightarrow> q \<notin> (\<lambda>k. path (window k)) ` {..<3 + n} \<longrightarrow> leaf t q = leaf s q"
proof -
  have lp: "leaf_path R (path (window k))" if "k < 1024" for k using leaf_path_path [of "window k" R] window_slot [OF that] R by simp
  have un': "leaf s (path (window 0)) = None" "leaf s (path (window 1)) = None" "leaf s (path (window 2)) = None" using un n by auto
  let ?fc = "\<lambda>s. free_count (page_alloc_bitmap s)"
  obtain k4 s1 where 1: "user_level USER_SPACE_PML4_BASE 1 s = Some (page_addr k4, 0, s1)" "pt_wf R s1" "k4 < 2 ^ 31"
    "leaf s1 (path (window 0)) = Some ((page_at (page_addr k4) 0 AND NOT 0xFFF) OR MAP_USER_RW OR 1)"
    "\<forall>q. leaf_path R q \<longrightarrow> q \<noteq> path (window 0) \<longrightarrow> leaf s1 q = leaf s q" "enlarges R s s1" "?fc s - 4 \<le> ?fc s1"
    "data_frame R s1 (of_nat k4)" "\<not> bitmap_test (page_alloc_bitmap s) k4" "pmem s1 (of_nat k4) = pmem s (of_nat k4)"
    by (rule user_level_spec [OF wf, of 1 "USER_SPACE_PML4_BASE"]) (use free un' window_slot [of 0] R in auto)
  obtain k3 s2 where 2: "user_level USER_SPACE_PDPT_BASE 1 s1 = Some (page_addr k3, 0, s2)" "pt_wf R s2" "k3 < 2 ^ 31"
    "leaf s2 (path (window 1)) = Some ((page_at (page_addr k3) 0 AND NOT 0xFFF) OR MAP_USER_RW OR 1)"
    "\<forall>q. leaf_path R q \<longrightarrow> q \<noteq> path (window 1) \<longrightarrow> leaf s2 q = leaf s1 q" "enlarges R s1 s2" "?fc s1 - 4 \<le> ?fc s2"
    "data_frame R s2 (of_nat k3)" "\<not> bitmap_test (page_alloc_bitmap s1) k3" "pmem s2 (of_nat k3) = pmem s1 (of_nat k3)"
    by (rule user_level_spec [OF 1(2), of 1 "USER_SPACE_PDPT_BASE"])
      (use free un' 1(5,7) window_slot [of 1] R lp [of 1] window_inj [of 1 0] in \<open>auto simp: windows(2)\<close>)
  obtain k2 s3 where 3: "user_level USER_SPACE_PD_BASE 1 s2 = Some (page_addr k2, 0, s3)" "pt_wf R s3" "k2 < 2 ^ 31"
    "leaf s3 (path (window 2)) = Some ((page_at (page_addr k2) 0 AND NOT 0xFFF) OR MAP_USER_RW OR 1)"
    "\<forall>q. leaf_path R q \<longrightarrow> q \<noteq> path (window 2) \<longrightarrow> leaf s3 q = leaf s2 q" "enlarges R s2 s3" "?fc s2 - 4 \<le> ?fc s3"
    "data_frame R s3 (of_nat k2)" "\<not> bitmap_test (page_alloc_bitmap s2) k2" "pmem s3 (of_nat k2) = pmem s2 (of_nat k2)"
    by (rule user_level_spec [OF 2(2), of 1 "USER_SPACE_PD_BASE"])
      (use free un' 1(5,7) 2(5,7) window_slot [of 2] R lp [of 2] window_inj [of 2 0] window_inj [of 2 1] in \<open>auto simp: windows(3)\<close>)
  have fr: "\<forall>k < n. unat (tbl_idx 39 (page_at USER_SPACE_PT_BASE k)) \<in> R \<and> leaf s3 (path (page_at USER_SPACE_PT_BASE k)) = None"
  proof (intro allI impI)
    fix k
    assume k: "k < n"
    have b: "3 + k < 1024" using k n by simp
    have "path (window (3 + k)) \<noteq> path (window 0)" "path (window (3 + k)) \<noteq> path (window 1)" "path (window (3 + k)) \<noteq> path (window 2)"
      using window_inj [of "3 + k" 0] window_inj [of "3 + k" 1] window_inj [of "3 + k" 2] b by simp_all
    then show "unat (tbl_idx 39 (page_at USER_SPACE_PT_BASE k)) \<in> R \<and> leaf s3 (path (page_at USER_SPACE_PT_BASE k)) = None"
      unfolding windows(4) using 1(5) 2(5) 3(5) un lp [OF b] window_slot [OF b] R k by simp
  qed
  have f4: "3 * n + 1 \<le> ?fc s3" using free 1(7) 2(7) 3(7) by arith
  obtain k1 t where 4: "user_level USER_SPACE_PT_BASE n s3 = Some (page_addr k1, 0, t)" "pt_wf R t" "k1 < 2 ^ 31"
    "\<forall>i < n. leaf t (path (window (3 + i))) = Some ((page_at (page_addr k1) i AND NOT 0xFFF) OR MAP_USER_RW OR 1)"
    "\<forall>q. leaf_path R q \<longrightarrow> q \<notin> (\<lambda>i. path (window (3 + i))) ` {..<n} \<longrightarrow> leaf t q = leaf s3 q" "enlarges R s3 t"
    "data_frame R t (of_nat k1)" "\<not> bitmap_test (page_alloc_bitmap s3) k1" "pmem t (of_nat k1) = pmem s3 (of_nat k1)"
    using user_level_spec [OF 3(2) n f4 fr] unfolding windows(4) by metis
  have ext: "enlarges R s t" "enlarges R s1 t" "enlarges R s2 t" "enlarges R s s2" "enlarges R s s3"
    using enlarges_trans 1(6) 2(6) 3(6) 4(6) by blast+
  have u: "unat (of_nat k4 :: u64) = k4" "unat (of_nat k3 :: u64) = k3" "unat (of_nat k2 :: u64) = k2" "unat (of_nat k1 :: u64) = k1"
    using 1(3) 2(3) 3(3) 4(3) by (auto intro!: unat_of_nat_small)
  have d: "data_frame R t (of_nat k4)" "data_frame R t (of_nat k3)" "data_frame R t (of_nat k2)" "pmem t (of_nat k4) = pmem s (of_nat k4)"
    using data_frame_enlarges [OF ext(2) 1(8)] data_frame_enlarges [OF ext(3) 2(8)] data_frame_enlarges [OF 4(6) 3(8)] 1(10) by auto
  have used: "bitmap_test (page_alloc_bitmap s1) k4" "bitmap_test (page_alloc_bitmap s2) k3" "bitmap_test (page_alloc_bitmap s3) k2"
    using 1(8) 2(8) 3(8) u by (simp_all add: data_frame_def)
  have mono: "bitmap_test (page_alloc_bitmap b) k" if "enlarges R a b" "bitmap_test (page_alloc_bitmap a) k" for a b k using that by (simp add: enlarges_def)
  have dist: "distinct [k4, k3, k2, k1]"
    using used 2(9) 3(9) 4(8) mono [OF 2(6)] mono [OF 3(6)] by auto
  have fresh: "\<not> bitmap_test (page_alloc_bitmap s) k3" "\<not> bitmap_test (page_alloc_bitmap s) k2" "\<not> bitmap_test (page_alloc_bitmap s) k1"
    using 2(9) 3(9) 4(8) mono [OF 1(6)] mono [OF ext(4)] mono [OF ext(5)] by auto
  have not4: "path (window j) \<notin> (\<lambda>i. path (window (3 + i))) ` {..<n}" if "j < 3" for j
  proof
    assume "path (window j) \<in> (\<lambda>i. path (window (3 + i))) ` {..<n}"
    then obtain i where "i < n" "path (window j) = path (window (3 + i))" by auto
    then show False using window_inj [of j "3 + i"] that n by auto
  qed
  have w: "leaf t (path (window 0)) = leaf s1 (path (window 0))" "leaf t (path (window 1)) = leaf s2 (path (window 1))" "leaf t (path (window 2)) = leaf s3 (path (window 2))"
    using 4(5) 3(5) 2(5) not4 [of 0] not4 [of 1] not4 [of 2] lp [of 0] lp [of 1] lp [of 2] window_inj [of 0 1] window_inj [of 0 2] window_inj [of 1 2] by auto
  have leaves: "\<exists>e. leaf t (path (window 0)) = Some e \<and> frame_of e = of_nat k4" "\<exists>e. leaf t (path (window 1)) = Some e \<and> frame_of e = of_nat k3"
    "\<exists>e. leaf t (path (window 2)) = Some e \<and> frame_of e = of_nat k2" "\<exists>e. leaf t (path (window 3)) = Some e \<and> frame_of e = of_nat k1"
    using w 1(4) 2(4) 3(4) 4(4) n window_entry [OF 1(3)] window_entry [OF 2(3)] window_entry [OF 3(3)] window_entry [OF 4(3)] by auto
  have all: "leaf t (path (window k)) \<noteq> None" if "k < 3 + n" for k
  proof (cases "k < 3")
    case True
    then consider "k = 0" | "k = 1" | "k = 2" by linarith
    then show ?thesis using leaves by cases auto
  next
    case False
    then show ?thesis using 4(4) [rule_format, of "k - 3"] that by simp
  qed
  have rest: "leaf t q = leaf s q" if "leaf_path R q" "q \<notin> (\<lambda>k. path (window k)) ` {..<3 + n}" for q
  proof -
    have ne: "q \<noteq> path (window k)" if "k < 3 + n" for k using \<open>q \<notin> _\<close> that by blast
    have "q \<notin> (\<lambda>i. path (window (3 + i))) ` {..<n}"
    proof
      assume "q \<in> (\<lambda>i. path (window (3 + i))) ` {..<n}"
      then obtain i where "i < n" "q = path (window (3 + i))" by auto
      then show False using ne [of "3 + i"] by simp
    qed
    moreover have "q \<noteq> path (window 0)" "q \<noteq> path (window 1)" "q \<noteq> path (window 2)" using ne [of 0] ne [of 1] ne [of 2] by simp_all
    ultimately show ?thesis using 1(5) 2(5) 3(5) 4(5) that(1) by simp
  qed
  show thesis
    by (rule that [OF 1(1) 2(1) 3(1) 4(1,2) ext(1) dist _ d(4) leaves])
      (use 1(3,9) 2(3) 3(3) 4(3,7) d fresh all rest in auto)
qed

section \<open>The contents of the new tables\<close>

definition new_pml4 :: "(nat \<Rightarrow> u64) \<Rightarrow> u64 \<Rightarrow> u64 \<Rightarrow> nat \<Rightarrow> (nat \<Rightarrow> u64) \<Rightarrow> nat \<Rightarrow> u64" where
  "new_pml4 root pml4_phys pdpt_phys a old j =
     (if j = a then pdpt_phys OR MAP_USER_RW else if j = 511 then pml4_phys OR MAP_USER_RW else if 256 \<le> j \<and> j < 511 then root j else old j)"

definition new_pt :: "nat \<Rightarrow> nat \<Rightarrow> (nat \<Rightarrow> u64) \<Rightarrow> (nat \<Rightarrow> u64) \<Rightarrow> nat \<Rightarrow> u64" where
  "new_pt d n l old j = (if d \<le> j \<and> j < d + n then (l (j - d) AND NOT 0xFFF) OR MAP_USER_RW else old j)"

lemma store_data:
  assumes "same_tables R t v" "leaf t (path va) = Some e" "leaf_path R (path va)" "va AND 0xFFF = 0" "j < 512"
  shows "store64 v (va + 8 * of_nat j) x = Some (put_frame v (frame_of e) ((pmem v (frame_of e))(j := x)))"
  using store_window [of v va e j x] same_tables_leaf [OF assms(1,3)] assms(2,4,5) by simp

lemma fill_pml4:
  assumes wf: "pt_wf R t" and leaf: "leaf t (path USER_SPACE_PML4_BASE) = Some e" "leaf_path R (path USER_SPACE_PML4_BASE)" and f: "frame_of e \<notin> table_frames R t"
    and a: "unat a < 256"
  shows "do { v \<leftarrow> copy_kernel_half t; v \<leftarrow> store64 v (USER_SPACE_PML4_BASE + 8 * 511) (pml4_phys OR MAP_USER_RW); fill_tables USER_SPACE_PML4_BASE a pdpt_phys 1 v } =
    Some (put_frame t (frame_of e) (new_pml4 (pmem t (frame_of (vm_state.cr3 t))) pml4_phys pdpt_phys (unat a) (pmem t (frame_of e))))"
proof -
  let ?f = "frame_of e"
  define h where "h = (\<lambda>j. if 256 \<le> j \<and> j < 511 then pmem t (frame_of (vm_state.cr3 t)) j else pmem t ?f j)"
  have al: "USER_SPACE_PML4_BASE AND 0xFFF = 0" by (simp add: USER_SPACE_PML4_BASE_def)
  have c: "copy_kernel_half t = Some (put_frame t ?f h)" unfolding h_def by (rule copy_kernel_half_eq [OF wf leaf f])
  have st: "same_tables R t (put_frame t ?f g)" for g by (rule same_tables_put [OF f])
  have s: "store64 (put_frame t ?f h) (USER_SPACE_PML4_BASE + 8 * 511) (pml4_phys OR MAP_USER_RW) = Some (put_frame t ?f (h(511 := pml4_phys OR MAP_USER_RW)))"
    using store_data [OF st leaf al, of 511 h "pml4_phys OR MAP_USER_RW"] by simp
  let ?u = "put_frame t ?f (h(511 := pml4_phys OR MAP_USER_RW))"
  have "leaf ?u (path USER_SPACE_PML4_BASE) = Some e" using same_tables_leaf [OF st leaf(2)] leaf(1) by simp
  moreover have "?f \<notin> table_frames R ?u" using same_tables_frames [OF st] f by simp
  ultimately have "fill_tables USER_SPACE_PML4_BASE a pdpt_phys 1 ?u = Some (put_frame ?u ?f (\<lambda>j. if unat a \<le> j \<and> j < unat a + 1
      then (pdpt_phys + of_nat ((j - unat a) * PAGE_SIZE)) OR MAP_USER_RW else pmem ?u ?f j))"
    using a by (intro fill_tables_eq [OF _ leaf(2) al]) simp_all
  also have "\<dots> = Some (put_frame t ?f (new_pml4 (pmem t (frame_of (vm_state.cr3 t))) pml4_phys pdpt_phys (unat a) (pmem t ?f)))"
    using a by (auto simp: new_pml4_def h_def fun_eq_iff intro!: arg_cong [where f = "put_frame t ?f"])
  finally show ?thesis using c s by simp
qed

lemma fill_one:
  assumes "same_tables R t v" "leaf t (path va) = Some e" "leaf_path R (path va)" "va AND 0xFFF = 0" "frame_of e \<notin> table_frames R t" "unat a < 512"
  shows "fill_tables va a below 1 v = Some (put_frame v (frame_of e) ((pmem v (frame_of e))(unat a := below OR MAP_USER_RW)))"
proof -
  have "leaf v (path va) = Some e" "frame_of e \<notin> table_frames R v" using same_tables_leaf [OF assms(1,3)] same_tables_frames [OF assms(1)] assms(2,5) by simp_all
  then have "fill_tables va a below 1 v = Some (put_frame v (frame_of e) (\<lambda>j. if unat a \<le> j \<and> j < unat a + 1
      then (below + of_nat ((j - unat a) * PAGE_SIZE)) OR MAP_USER_RW else pmem v (frame_of e) j))"
    using assms(6) by (intro fill_tables_eq [OF _ assms(3,4)]) simp_all
  then show ?thesis by (auto simp: fun_eq_iff intro!: arg_cong [where f = "put_frame v (frame_of e)"])
qed

definition init_words :: "u64 \<Rightarrow> u64 \<Rightarrow> u64 \<Rightarrow> u64 \<Rightarrow> (nat \<Rightarrow> u64) \<Rightarrow> nat \<Rightarrow> u64" where
  "init_words stack_end entry switch_to_user args old =
     old(511 := ucast UDATA_SELECTOR, 510 := stack_end, 509 := 0x202, 508 := ucast UCODE_SELECTOR, 507 := entry, 506 := switch_to_user, 499 := args)"

lemma init_stack_eq:
  assumes st: "same_tables R t v" and leaf: "leaf t (path va) = Some e" "leaf_path R (path va)" and al: "va AND 0xFFF = 0" and f: "frame_of e \<notin> table_frames R t"
  shows "init_stack (va + 0x1000 - sizeof_init_stack) stack_end entry sw args v = Some (put_frame v (frame_of e) (init_words stack_end entry sw args (pmem v (frame_of e))))"
proof -
  let ?f = "frame_of e"
  have p: "same_tables R t (put_frame v ?f g)" for g
    by (rule same_tables_trans [OF st same_tables_put]) (use same_tables_frames [OF st] f in simp)
  have s: "store64 v (va + 8 * of_nat j) x = Some (put_frame v ?f ((pmem v ?f)(j := x)))"
    "store64 (put_frame v ?f g) (va + 8 * of_nat j) x = Some (put_frame v ?f (g(j := x)))" if "j < 512" for j x g
    using store_data [OF st leaf al that] store_data [OF p leaf al that] by simp_all
  have ad: "va + 0x1000 - sizeof_init_stack + 168 = va + 8 * of_nat 511" "va + 0x1000 - sizeof_init_stack + 160 = va + 8 * of_nat 510"
    "va + 0x1000 - sizeof_init_stack + 152 = va + 8 * of_nat 509" "va + 0x1000 - sizeof_init_stack + 144 = va + 8 * of_nat 508"
    "va + 0x1000 - sizeof_init_stack + 136 = va + 8 * of_nat 507" "va + 0x1000 - sizeof_init_stack + 128 = va + 8 * of_nat 506"
    "va + 0x1000 - sizeof_init_stack + 72 = va + 8 * of_nat 499"
    by (simp_all add: sizeof_init_stack_def)
  show ?thesis unfolding init_stack_def ad init_words_def by (simp only: s bind.simps)
qed

text \<open>Removing the windows again.\<close>

lemma unwindow_one:
  assumes "pt_wf R v" "224 \<in> R" "0 < c" "m + c \<le> 1024" "\<forall>k < c. leaf v (path (window (m + k))) \<noteq> None"
  obtains t where "unmap_page_range v (window m) c = Some (int c, t)" "pt_wf R t" "enlarges R v t" "page_alloc_bitmap t = page_alloc_bitmap v" "pmem t (frame_of (vm_state.cr3 v)) = pmem v (frame_of (vm_state.cr3 v))"
    "\<forall>k < c. leaf t (path (window (m + k))) = None" "\<forall>q. leaf_path R q \<longrightarrow> (\<forall>k < c. q \<noteq> path (window (m + k))) \<longrightarrow> leaf t q = leaf v q"
proof -
  have w: "page_at (window m) k = window (m + k)" for k by (simp add: page_at_def algebra_simps)
  have "\<forall>k < c. unat (tbl_idx 39 (page_at (window m) k)) \<in> R \<and> leaf v (path (page_at (window m) k)) \<noteq> None"
    unfolding w using assms(2,4,5) window_slot by auto
  moreover have "c < 2 ^ 31" using assms(4) by simp
  ultimately obtain t where "unmap_page_range v (window m) c = Some (int c, t)" "pt_wf R t" "\<forall>k < c. leaf t (path (window (m + k))) = None"
    "\<forall>q. leaf_path R q \<longrightarrow> q \<notin> (\<lambda>k. path (window (m + k))) ` {..<c} \<longrightarrow> leaf t q = leaf v q" "page_alloc_bitmap t = page_alloc_bitmap v" "enlarges R v t"
    "pmem t (frame_of (vm_state.cr3 v)) = pmem v (frame_of (vm_state.cr3 v))"
    using unmap_page_range_full [OF assms(1), of c "window m"] extendsD(1) unfolding w by metis
  then show thesis using that by auto
qed

lemma unwindow:
  assumes wf: "pt_wf R v" and R: "224 \<in> R" and n: "0 < n" "n \<le> 512" and all: "\<forall>k < 3 + n. leaf v (path (window k)) \<noteq> None"
  obtains t where
    "do { (_, v) \<leftarrow> unmap_page_range v USER_SPACE_PML4_BASE 1; (_, v) \<leftarrow> unmap_page_range v USER_SPACE_PDPT_BASE 1; (_, v) \<leftarrow> unmap_page_range v USER_SPACE_PD_BASE 1;
       (_, v) \<leftarrow> unmap_page_range v USER_SPACE_PT_BASE n; Some v } = Some t"
    "pt_wf R t" "enlarges R v t" "page_alloc_bitmap t = page_alloc_bitmap v" "pmem t (frame_of (vm_state.cr3 v)) = pmem v (frame_of (vm_state.cr3 v))"
    "\<forall>k < 3 + n. leaf t (path (window k)) = None"
    "\<forall>q. leaf_path R q \<longrightarrow> q \<notin> (\<lambda>k. path (window k)) ` {..<3 + n} \<longrightarrow> leaf t q = leaf v q"
proof -
  have lp: "leaf_path R (path (window k))" if "k < 1024" for k using leaf_path_path [of "window k" R] window_slot [OF that] R by simp
  have ne: "path (window j) \<noteq> path (window k)" if "j < 1024" "k < 1024" "j \<noteq> k" for j k using window_inj that by blast
  obtain t1 where 1: "unmap_page_range v (window 0) 1 = Some (1, t1)" "pt_wf R t1" "enlarges R v t1" "page_alloc_bitmap t1 = page_alloc_bitmap v"
    "leaf t1 (path (window 0)) = None" "\<forall>q. leaf_path R q \<longrightarrow> q \<noteq> path (window 0) \<longrightarrow> leaf t1 q = leaf v q" "pmem t1 (frame_of (vm_state.cr3 v)) = pmem v (frame_of (vm_state.cr3 v))"
    by (rule unwindow_one [OF wf R, of 1 0]) (use all [rule_format, of 0] in auto)
  have a1: "leaf t1 (path (window k)) \<noteq> None" if "0 < k" "k < 3 + n" for k using 1(6) lp [of k] ne [of k 0] all that n by auto
  obtain t2 where 2: "unmap_page_range t1 (window 1) 1 = Some (1, t2)" "pt_wf R t2" "enlarges R t1 t2" "page_alloc_bitmap t2 = page_alloc_bitmap t1"
    "leaf t2 (path (window 1)) = None" "\<forall>q. leaf_path R q \<longrightarrow> q \<noteq> path (window 1) \<longrightarrow> leaf t2 q = leaf t1 q" "pmem t2 (frame_of (vm_state.cr3 t1)) = pmem t1 (frame_of (vm_state.cr3 t1))"
    by (rule unwindow_one [OF 1(2) R, of 1 1]) (use a1 [of 1] in auto)
  have a2: "leaf t2 (path (window k)) \<noteq> None" if "1 < k" "k < 3 + n" for k using 2(6) lp [of k] ne [of k 1] a1 that n by auto
  obtain t3 where 3: "unmap_page_range t2 (window 2) 1 = Some (1, t3)" "pt_wf R t3" "enlarges R t2 t3" "page_alloc_bitmap t3 = page_alloc_bitmap t2"
    "leaf t3 (path (window 2)) = None" "\<forall>q. leaf_path R q \<longrightarrow> q \<noteq> path (window 2) \<longrightarrow> leaf t3 q = leaf t2 q" "pmem t3 (frame_of (vm_state.cr3 t2)) = pmem t2 (frame_of (vm_state.cr3 t2))"
    by (rule unwindow_one [OF 2(2) R, of 1 2]) (use a2 [of 2] n in auto)
  have a3: "leaf t3 (path (window k)) \<noteq> None" if "2 < k" "k < 3 + n" for k using 3(6) lp [of k] ne [of k 2] a2 that n by auto
  obtain t where 4: "unmap_page_range t3 (window 3) n = Some (int n, t)" "pt_wf R t" "enlarges R t3 t" "page_alloc_bitmap t = page_alloc_bitmap t3"
    "\<forall>k < n. leaf t (path (window (3 + k))) = None" "\<forall>q. leaf_path R q \<longrightarrow> (\<forall>k < n. q \<noteq> path (window (3 + k))) \<longrightarrow> leaf t q = leaf t3 q" "pmem t (frame_of (vm_state.cr3 t3)) = pmem t3 (frame_of (vm_state.cr3 t3))"
    by (rule unwindow_one [OF 3(2) R n(1), of 3]) (use a3 n in auto)
  have pt: "USER_SPACE_PT_BASE = window 3" using windows(4) [of 0] by simp
  have "enlarges R v t" using enlarges_trans 1(3) 2(3) 3(3) 4(3) by blast
  moreover have "vm_state.cr3 t1 = vm_state.cr3 v" "vm_state.cr3 t2 = vm_state.cr3 v" "vm_state.cr3 t3 = vm_state.cr3 v" using 1(3) 2(3) 3(3) by (simp_all add: enlarges_def)
  then have "pmem t (frame_of (vm_state.cr3 v)) = pmem v (frame_of (vm_state.cr3 v))" using 1(7) 2(7) 3(7) 4(7) by simp
  moreover have "leaf t (path (window k)) = None" if "k < 3 + n" for k
  proof (cases "k < 3")
    case True
    have "leaf t (path (window k)) = leaf t3 (path (window k))" using 4(6) lp [of k] ne [of k] True n by auto
    moreover from True consider "k = 0" | "k = 1" | "k = 2" by linarith
    then have "leaf t3 (path (window k)) = None"
      using 1(5) 2(5,6) 3(5,6) lp [of 0] lp [of 1] ne [of 0 1] ne [of 0 2] ne [of 1 2] by cases auto
    ultimately show ?thesis by simp
  next
    case False
    then show ?thesis using 4(5) [rule_format, of "k - 3"] that by simp
  qed
  moreover have "leaf t q = leaf v q" if "leaf_path R q" "q \<notin> (\<lambda>k. path (window k)) ` {..<3 + n}" for q
  proof -
    have ne: "q \<noteq> path (window k)" if "k < 3 + n" for k using \<open>q \<notin> _\<close> that by blast
    have "\<forall>k < n. q \<noteq> path (window (3 + k))" using ne by simp
    then show ?thesis using 1(6) 2(6) 3(6) 4(6) that(1) ne [of 0] ne [of 1] ne [of 2] by simp
  qed
  ultimately show thesis using that [of t] 1(1,4) 2(1,4) 3(1,4) 4(1,2,4) by (simp add: windows(2,3) pt)
qed

section \<open>The new address space\<close>

lemma page_indices:
  assumes "start AND 0xFFF = 0" "unat (tbl_idx 12 start) + k < 512"
  shows "unat (tbl_idx 12 (page_at start k)) = unat (tbl_idx 12 start) + k" "tbl_idx 21 (page_at start k) = tbl_idx 21 start"
    "tbl_idx 30 (page_at start k) = tbl_idx 30 start" "tbl_idx 39 (page_at start k) = tbl_idx 39 start" "page_at start k AND 0xFFF = 0"
proof -
  have m: "w AND 0xFFF = take_bit 12 w" for w :: u64 by (simp add: take_bit_eq_mask low_mask del: mask_numeral)
  have "take_bit 12 (unat start) = 0" using assms(1) unfolding m by (metis unsigned_0 unsigned_take_bit_eq)
  then obtain q where q: "unat start = 4096 * q" by (auto simp: take_bit_eq_mod)
  have b: "q < 2 ^ 52" using unsigned_less [where 'a = nat, of start] q by simp
  define d where "d = unat (tbl_idx 12 start)"
  have d: "d = q mod 512" by (simp add: d_def tbl_idx_unat q)
  define p where "p = q div 512"
  have qp: "q = 512 * p + d" by (simp add: p_def d)
  have k: "d + k < 512" using assms(2) by (simp add: d_def)
  have "p < 2 ^ 43" using b qp by simp
  then have "q + k < 2 ^ 52" using qp k by simp
  then have "unat start + 4096 * k < 2 ^ 64" using q by simp
  moreover have "page_at start k = start + of_nat (4096 * k)" by (simp add: page_at_def mult.commute)
  ultimately have u: "unat (page_at start k) = 4096 * (q + k)" using unat_add_of_nat [of start "4096 * k"] q by simp
  have m1: "(q + k) div 512 = p" "(q + k) mod 512 = d + k" using qp k by (simp_all add: div_nat_eqI mod_nat_eqI)
  have "unat (tbl_idx 12 (page_at start k)) = (q + k) mod 512" by (simp add: tbl_idx_unat u)
  then show "unat (tbl_idx 12 (page_at start k)) = unat (tbl_idx 12 start) + k" using m1 by (simp add: d_def)
  have "4096 * (q + k) div 2 ^ (21 + j) = 4096 * q div 2 ^ (21 + j)" for j
  proof -
    have "(2 :: nat) ^ (21 + j) = 4096 * 512 * 2 ^ j" by (simp add: power_add)
    then show ?thesis using m1(1) p_def by (simp only: div_mult2_eq) simp
  qed
  then have "unat (tbl_idx (21 + j) (page_at start k)) = unat (tbl_idx (21 + j) start)" for j by (simp only: tbl_idx_unat u q)
  from this [of 0] this [of 9] this [of 18]
  show "tbl_idx 21 (page_at start k) = tbl_idx 21 start" "tbl_idx 30 (page_at start k) = tbl_idx 30 start" "tbl_idx 39 (page_at start k) = tbl_idx 39 start"
    by (simp_all add: word_unat_eq_iff)
  have "take_bit 12 (unat (page_at start k)) = 0" using u by (simp add: take_bit_eq_mod)
  then have "unat (take_bit 12 (page_at start k)) = 0" by (simp add: unsigned_take_bit_eq)
  then show "page_at start k AND 0xFFF = 0" unfolding m by (simp add: unat_eq_0)
qed

text \<open>The program as the loader leaves it for \<open>__usertask_create\<close>: \<open>n\<close> pages from \<open>start\<close>, all under one page table, mapped to frames that are no tables.\<close>

definition loaded :: "nat set \<Rightarrow> vm_state \<Rightarrow> u64 \<Rightarrow> nat \<Rightarrow> (nat \<Rightarrow> u64) \<Rightarrow> bool" where
  "loaded R s start n l \<longleftrightarrow> start AND 0xFFF = 0 \<and> 0 < n \<and> unat (tbl_idx 12 start) + n \<le> 512 \<and>
     unat (tbl_idx 39 start) \<in> R \<and> unat (tbl_idx 39 start) < 256 \<and> unat (tbl_idx 39 start) \<noteq> 224 \<and>
     (\<forall>k < n. leaf s (path (page_at start k)) = Some (l k) \<and> data_frame R s (frame_of (l k)))"

definition windows_free :: "nat \<Rightarrow> vm_state \<Rightarrow> bool" where
  "windows_free n s \<longleftrightarrow> (\<forall>k < 3 + n. leaf s (path (window k)) = None)"

lemma page_not_window: "loaded R s start n l \<Longrightarrow> k < n \<Longrightarrow> j < 1024 \<Longrightarrow> path (page_at start k) \<noteq> path (window j)"
proof
  assume a: "loaded R s start n l" "k < n" "j < 1024" "path (page_at start k) = path (window j)"
  have "unat (tbl_idx 12 start) + k < 512" using a(1,2) by (simp add: loaded_def)
  then have "unat (tbl_idx 39 (page_at start k)) = unat (tbl_idx 39 start)" using page_indices [of start k] a(1) by (simp add: loaded_def)
  then show False using a window_slot [OF a(3)] by (simp add: path_def loaded_def)
qed

lemma loaded_page:
  assumes "loaded R s start n l" "k < n"
  shows "leaf_path R (path (page_at start k))" "page_at start k AND 0xFFF = 0" "unat (tbl_idx 39 (page_at start k)) \<in> R" "leaf s (path (page_at start k)) = Some (l k)"
    "data_frame R s (frame_of (l k))"
proof -
  have "unat (tbl_idx 12 start) + k < 512" using assms by (simp add: loaded_def)
  note i = page_indices [OF _ this]
  show "unat (tbl_idx 39 (page_at start k)) \<in> R" using i(4) assms(1) by (simp add: loaded_def)
  then show "leaf_path R (path (page_at start k))" by (rule leaf_path_path)
  show "page_at start k AND 0xFFF = 0" using i(5) assms(1) by (simp add: loaded_def)
  show "leaf s (path (page_at start k)) = Some (l k)" "data_frame R s (frame_of (l k))" using assms by (simp_all add: loaded_def)
qed

lemma loaded_enlarges:
  assumes "loaded R s start n l" "enlarges R s t" "\<And>q. leaf_path R q \<Longrightarrow> q \<notin> (\<lambda>k. path (window k)) ` {..<3 + n} \<Longrightarrow> leaf t q = leaf s q"
  shows "loaded R t start n l"
proof -
  have n: "n \<le> 512" using assms(1) by (simp add: loaded_def)
  have "leaf t (path (page_at start k)) = Some (l k) \<and> data_frame R t (frame_of (l k))" if "k < n" for k
  proof -
    have "path (page_at start k) \<notin> (\<lambda>k. path (window k)) ` {..<3 + n}"
    proof
      assume "path (page_at start k) \<in> (\<lambda>k. path (window k)) ` {..<3 + n}"
      then obtain j where "j < 3 + n" "path (page_at start k) = path (window j)" by auto
      then show False using page_not_window [OF assms(1) that, of j] n by simp
    qed
    then show ?thesis using assms(3) [OF loaded_page(1) [OF assms(1) that]] loaded_page(4,5) [OF assms(1) that] data_frame_enlarges [OF assms(2)] by simp
  qed
  then show ?thesis using assms(1) by (simp add: loaded_def)
qed

lemma loaded_same:
  assumes "same_tables R s t" "loaded R s start n l"
  shows "loaded R t start n l"
proof -
  have "leaf t (path (page_at start k)) = Some (l k) \<and> data_frame R t (frame_of (l k))" if "k < n" for k
    using same_tables_leaf [OF assms(1) loaded_page(1) [OF assms(2) that]] loaded_page(4,5) [OF assms(2) that] data_frame_same [OF assms(1)] by simp
  then show ?thesis using assms(2) by (simp add: loaded_def)
qed

text \<open>Filling the four frames, from the state in which all windows are there.\<close>

lemma fill_all:
  assumes wf: "pt_wf R t" and ld: "loaded R t start n l" and R: "224 \<in> R"
    and leaves: "leaf t (path (window 0)) = Some e4" "leaf t (path (window 1)) = Some e3" "leaf t (path (window 2)) = Some e2" "leaf t (path (window 3)) = Some e1"
    and data: "\<forall>e \<in> {e4, e3, e2, e1}. data_frame R t (frame_of e)" and dist: "distinct [frame_of e4, frame_of e3, frame_of e2, frame_of e1]"
  shows "do { v \<leftarrow> copy_kernel_half t;
       v \<leftarrow> store64 v (USER_SPACE_PML4_BASE + 8 * 511) (p4 OR MAP_USER_RW);
       v \<leftarrow> fill_tables USER_SPACE_PML4_BASE (tbl_idx 39 start) p3 1 v;
       v \<leftarrow> fill_tables USER_SPACE_PDPT_BASE (tbl_idx 30 start) p2 1 v;
       v \<leftarrow> fill_tables USER_SPACE_PD_BASE (tbl_idx 21 start) p1 1 v;
       fill_pages USER_SPACE_PT_BASE (tbl_idx 12 start) start n v } =
    Some (put_frame (put_frame (put_frame (put_frame t (frame_of e4) (new_pml4 (pmem t (frame_of (vm_state.cr3 t))) p4 p3 (unat (tbl_idx 39 start)) (pmem t (frame_of e4))))
      (frame_of e3) ((pmem t (frame_of e3))(unat (tbl_idx 30 start) := p2 OR MAP_USER_RW)))
      (frame_of e2) ((pmem t (frame_of e2))(unat (tbl_idx 21 start) := p1 OR MAP_USER_RW)))
      (frame_of e1) (new_pt (unat (tbl_idx 12 start)) n l (pmem t (frame_of e1))))"
proof -
  have lp: "leaf_path R (path (window k))" if "k < 1024" for k using leaf_path_path [of "window k" R] window_slot [OF that] R by simp
  have nt: "frame_of e4 \<notin> table_frames R t" "frame_of e3 \<notin> table_frames R t" "frame_of e2 \<notin> table_frames R t" "frame_of e1 \<notin> table_frames R t"
    using data by (simp_all add: data_frame_def)
  let ?v1 = "put_frame t (frame_of e4) (new_pml4 (pmem t (frame_of (vm_state.cr3 t))) p4 p3 (unat (tbl_idx 39 start)) (pmem t (frame_of e4)))"
  let ?v2 = "put_frame ?v1 (frame_of e3) ((pmem t (frame_of e3))(unat (tbl_idx 30 start) := p2 OR MAP_USER_RW))"
  let ?v3 = "put_frame ?v2 (frame_of e2) ((pmem t (frame_of e2))(unat (tbl_idx 21 start) := p1 OR MAP_USER_RW))"
  have s1: "same_tables R t ?v1" by (rule same_tables_put [OF nt(1)])
  have s2: "same_tables R t ?v2" by (rule same_tables_trans [OF s1 same_tables_put]) (use nt(2) same_tables_frames [OF s1] in simp)
  have s3: "same_tables R t ?v3" by (rule same_tables_trans [OF s2 same_tables_put]) (use nt(3) same_tables_frames [OF s2] in simp)
  have "unat (tbl_idx 39 start) < 256" using ld by (simp add: loaded_def)
  then have 1: "do { v \<leftarrow> copy_kernel_half t; v \<leftarrow> store64 v (USER_SPACE_PML4_BASE + 8 * 511) (p4 OR MAP_USER_RW); fill_tables USER_SPACE_PML4_BASE (tbl_idx 39 start) p3 1 v } = Some ?v1"
    using leaves(1) lp [of 0] by (intro fill_pml4 [OF wf _ _ nt(1)]) simp_all
  have al: "window k AND 0xFFF = 0" if "k \<in> {1, 2, 3}" for k using that by (auto simp: page_at_def USER_SPACE_PML4_BASE_def)
  have "pmem ?v1 (frame_of e3) = pmem t (frame_of e3)" "pmem ?v2 (frame_of e2) = pmem t (frame_of e2)" "pmem ?v3 (frame_of e1) = pmem t (frame_of e1)"
    using dist by auto
  note old = this
  have 2: "fill_tables USER_SPACE_PDPT_BASE (tbl_idx 30 start) p2 1 ?v1 = Some ?v2"
    unfolding windows(2) using fill_one [OF s1 leaves(2) lp al nt(2) tbl_idx_bound, of 30 start p2] old(1) by simp
  have 3: "fill_tables USER_SPACE_PD_BASE (tbl_idx 21 start) p1 1 ?v2 = Some ?v3"
    unfolding windows(3) using fill_one [OF s2 leaves(3) lp al nt(3) tbl_idx_bound, of 21 start p1] old(2) by simp
  have ld3: "loaded R ?v3 start n l" by (rule loaded_same [OF s3 ld])
  have pt: "USER_SPACE_PT_BASE = window 3" using windows(4) [of 0] by simp
  have w3: "leaf ?v3 (path (window 3)) = Some e1" using same_tables_leaf [OF s3 lp] leaves(4) by simp
  have nt3: "frame_of e1 \<notin> table_frames R ?v3" using same_tables_frames [OF s3] nt(4) by simp
  have room: "unat (tbl_idx 12 start) + n \<le> 512" using ld by (simp add: loaded_def)
  have wf3: "pt_wf R ?v3" by (rule same_tables_wf [OF wf s3])
  have pages: "unat (tbl_idx 39 (page_at start k)) \<in> R \<and> leaf ?v3 (path (page_at start k)) = Some (l k) \<and> page_at start k AND 0xFFF = 0" if "k < n" for k
    by (intro conjI loaded_page(2,3,4) [OF ld3 that])
  have lp3: "leaf_path R (path (window 3))" "window 3 AND 0xFFF = 0" by (rule lp, simp, rule al, simp)
  have 4: "fill_pages USER_SPACE_PT_BASE (tbl_idx 12 start) start n ?v3 = Some (put_frame ?v3 (frame_of e1) (new_pt (unat (tbl_idx 12 start)) n l (pmem t (frame_of e1))))"
    unfolding pt new_pt_def old(3) [symmetric] by (rule fill_pages_eq [OF w3 lp3 nt3 room wf3 pages])
  have "do { v \<leftarrow> copy_kernel_half t; v \<leftarrow> store64 v (USER_SPACE_PML4_BASE + 8 * 511) (p4 OR MAP_USER_RW); v \<leftarrow> fill_tables USER_SPACE_PML4_BASE (tbl_idx 39 start) p3 1 v; f v } =
    do { v \<leftarrow> copy_kernel_half t; v \<leftarrow> store64 v (USER_SPACE_PML4_BASE + 8 * 511) (p4 OR MAP_USER_RW); fill_tables USER_SPACE_PML4_BASE (tbl_idx 39 start) p3 1 v } \<bind> f" for f :: "vm_state \<Rightarrow> vm_state option"
    by (simp only: Option.bind_assoc)
  then show ?thesis unfolding 1 using 2 3 4 by simp
qed


text \<open>Filling the tables, writing the first frame of the task, and taking the windows away.\<close>

lemma stack_page: "page_at start n - sizeof_init_stack = page_at start (n - 1) + 0x1000 - sizeof_init_stack" if "0 < n"
  using page_at_step [of "start" "n - 1"] that by (cases n) (simp_all add: page_at_def algebra_simps)

lemma nr_pages: "n \<le> 512 \<Longrightarrow> unat (drop_bit PAGE_SHIFT (page_at start n - start)) = n"
proof -
  assume n: "n \<le> 512"
  have "page_at start n - start = (of_nat (n * 4096) :: u64)" by (simp add: page_at_def)
  moreover have "unat (of_nat (n * 4096) :: u64) = n * 4096" using n by (intro unat_of_nat_small) simp
  ultimately have "unat (page_at start n - start) = n * 4096" by simp
  then show ?thesis by (simp add: drop_bit_eq_div unat_div PAGE_SHIFT_def)
qed

definition new_task :: "u64 \<Rightarrow> nat list \<Rightarrow> u64 \<Rightarrow> task_struct \<Rightarrow> task_struct" where
  "new_task base ks stack_end task = task\<lparr>user_phys := map page_addr ks, user_order := [0, 0, 0, 0], pml4 := page_addr (hd ks), rsp0_base := base, rsp0 := base + of_nat URSP0_SIZE,
     t_stack := stack_end, t_rsp := stack_end - sizeof_init_stack\<rparr>"

text \<open>The state in which the tables are filled and the windows still there.\<close>

lemma usertask_filled:
  assumes wf: "pt_wf R s" and R: "224 \<in> R" and ld: "loaded R s start n l" and wfree: "windows_free n s" and free: "3 * (3 + n) + 4 \<le> free_count (page_alloc_bitmap s)"
  obtains k4 k3 k2 k1 s1 s2 s3 t v where
    "user_level USER_SPACE_PML4_BASE 1 s = Some (page_addr k4, 0, s1)" "user_level USER_SPACE_PDPT_BASE 1 s1 = Some (page_addr k3, 0, s2)"
    "user_level USER_SPACE_PD_BASE 1 s2 = Some (page_addr k2, 0, s3)" "user_level USER_SPACE_PT_BASE n s3 = Some (page_addr k1, 0, t)"
    "pt_wf R t" "enlarges R s t" "distinct [k4, k3, k2, k1]" "\<forall>k \<in> {k4, k3, k2, k1}. k < 2 ^ 31 \<and> data_frame R t (of_nat k) \<and> \<not> bitmap_test (page_alloc_bitmap s) k"
    "\<forall>k < 3 + n. leaf t (path (window k)) \<noteq> None" "\<forall>q. leaf_path R q \<longrightarrow> q \<notin> (\<lambda>k. path (window k)) ` {..<3 + n} \<longrightarrow> leaf t q = leaf s q"
    "loaded R t start n l" "same_tables R t v"
    "do { v \<leftarrow> copy_kernel_half t; v \<leftarrow> store64 v (USER_SPACE_PML4_BASE + 8 * 511) (page_addr k4 OR MAP_USER_RW); v \<leftarrow> fill_tables USER_SPACE_PML4_BASE (tbl_idx 39 start) (page_addr k3) 1 v;
       v \<leftarrow> fill_tables USER_SPACE_PDPT_BASE (tbl_idx 30 start) (page_addr k2) 1 v; v \<leftarrow> fill_tables USER_SPACE_PD_BASE (tbl_idx 21 start) (page_addr k1) 1 v;
       fill_pages USER_SPACE_PT_BASE (tbl_idx 12 start) start n v } = Some v"
    "pmem v (of_nat k4) = new_pml4 (pmem t (frame_of (vm_state.cr3 t))) (page_addr k4) (page_addr k3) (unat (tbl_idx 39 start)) (pmem s (of_nat k4))"
    "pmem v (of_nat k3) (unat (tbl_idx 30 start)) = page_addr k2 OR MAP_USER_RW" "pmem v (of_nat k2) (unat (tbl_idx 21 start)) = page_addr k1 OR MAP_USER_RW"
    "\<forall>k < n. pmem v (of_nat k1) (unat (tbl_idx 12 start) + k) = (l k AND NOT 0xFFF) OR MAP_USER_RW"
    "\<forall>f. f \<notin> of_nat ` {k4, k3, k2, k1} \<longrightarrow> pmem v f = pmem t f"
proof -
  have n: "0 < n" "n \<le> 512" using ld by (simp_all add: loaded_def)
  obtain k4 k3 k2 k1 s1 s2 s3 t where L: "user_level USER_SPACE_PML4_BASE 1 s = Some (page_addr k4, 0, s1)" "user_level USER_SPACE_PDPT_BASE 1 s1 = Some (page_addr k3, 0, s2)"
    "user_level USER_SPACE_PD_BASE 1 s2 = Some (page_addr k2, 0, s3)" "user_level USER_SPACE_PT_BASE n s3 = Some (page_addr k1, 0, t)"
    "pt_wf R t" "enlarges R s t" "distinct [k4, k3, k2, k1]" "\<forall>k \<in> {k4, k3, k2, k1}. k < 2 ^ 31 \<and> data_frame R t (of_nat k) \<and> \<not> bitmap_test (page_alloc_bitmap s) k" "pmem t (of_nat k4) = pmem s (of_nat k4)"
    "\<exists>e. leaf t (path (window 0)) = Some e \<and> frame_of e = of_nat k4" "\<exists>e. leaf t (path (window 1)) = Some e \<and> frame_of e = of_nat k3"
    "\<exists>e. leaf t (path (window 2)) = Some e \<and> frame_of e = of_nat k2" "\<exists>e. leaf t (path (window 3)) = Some e \<and> frame_of e = of_nat k1"
    "\<forall>k < 3 + n. leaf t (path (window k)) \<noteq> None" "\<forall>q. leaf_path R q \<longrightarrow> q \<notin> (\<lambda>k. path (window k)) ` {..<3 + n} \<longrightarrow> leaf t q = leaf s q"
    by (rule levels [OF wf R n free wfree [unfolded windows_free_def]])
  obtain e4 e3 e2 e1 where e: "leaf t (path (window 0)) = Some e4" "leaf t (path (window 1)) = Some e3" "leaf t (path (window 2)) = Some e2" "leaf t (path (window 3)) = Some e1"
    and fr: "frame_of e4 = of_nat k4" "frame_of e3 = of_nat k3" "frame_of e2 = of_nat k2" "frame_of e1 = of_nat k1"
    using L(10-13) by blast
  have ld': "loaded R t start n l" by (rule loaded_enlarges [OF ld L(6)]) (use L(15) in blast)
  have inj: "of_nat j = (of_nat k :: u64) \<longleftrightarrow> j = k" if "j < 2 ^ 31" "k < 2 ^ 31" for j k
  proof -
    have "unat (of_nat j :: u64) = j" "unat (of_nat k :: u64) = k" using that by (auto intro!: unat_of_nat_small)
    then show ?thesis by metis
  qed
  have dist: "distinct [of_nat k4 :: u64, of_nat k3, of_nat k2, of_nat k1]" using L(7,8) by (simp add: inj)
  have data: "\<forall>e \<in> {e4, e3, e2, e1}. data_frame R t (frame_of e)" using L(8) fr by simp
  define v where "v = put_frame (put_frame (put_frame (put_frame t (of_nat k4) (new_pml4 (pmem t (frame_of (vm_state.cr3 t))) (page_addr k4) (page_addr k3) (unat (tbl_idx 39 start)) (pmem t (of_nat k4))))
      (of_nat k3) ((pmem t (of_nat k3))(unat (tbl_idx 30 start) := page_addr k2 OR MAP_USER_RW)))
      (of_nat k2) ((pmem t (of_nat k2))(unat (tbl_idx 21 start) := page_addr k1 OR MAP_USER_RW)))
      (of_nat k1) (new_pt (unat (tbl_idx 12 start)) n l (pmem t (of_nat k1)))"
  note F = fill_all [OF L(5) ld' R e data dist [folded fr], of "page_addr k4" "page_addr k3" "page_addr k2" "page_addr k1", unfolded fr, folded v_def]
  have st: "same_tables R t v" using L(8) by (auto simp: same_tables_def v_def data_frame_def)
  show thesis
    by (rule that [OF L(1-8) L(14,15) ld' st F]) (use dist L(9) in \<open>auto simp: v_def new_pt_def\<close>)
qed

lemma usertask_create_phases:
  "usertask_create sw stack_end start entry args u = do {
     let nr_pages = unat (drop_bit PAGE_SHIFT (stack_end - start));
     let (pml4_count, pdpt_count, pd_count, pt_count) = calc_page_table_counts nr_pages;
     (pml4_phys, pml4_order, v) \<leftarrow> user_level USER_SPACE_PML4_BASE pml4_count (u_vm u);
     (pdpt_phys, pdpt_order, v) \<leftarrow> user_level USER_SPACE_PDPT_BASE pdpt_count v;
     (pd_phys, pd_order, v) \<leftarrow> user_level USER_SPACE_PD_BASE pd_count v;
     (pt_phys, pt_order, v) \<leftarrow> user_level USER_SPACE_PT_BASE pt_count v;
     v \<leftarrow> do { v \<leftarrow> copy_kernel_half v; v \<leftarrow> store64 v (USER_SPACE_PML4_BASE + 8 * 511) (pml4_phys OR MAP_USER_RW);
       v \<leftarrow> fill_tables USER_SPACE_PML4_BASE (tbl_idx 39 start) pdpt_phys pml4_count v; v \<leftarrow> fill_tables USER_SPACE_PDPT_BASE (tbl_idx 30 start) pd_phys pdpt_count v;
       v \<leftarrow> fill_tables USER_SPACE_PD_BASE (tbl_idx 21 start) pt_phys pd_count v; fill_pages USER_SPACE_PT_BASE (tbl_idx 12 start) start pt_count v };
     (base, s) \<leftarrow> alloc_block URSP0_SIZE (u_sched u);
     v \<leftarrow> init_stack (stack_end - sizeof_init_stack) stack_end entry sw args v;
     v \<leftarrow> do { (_, v) \<leftarrow> unmap_page_range v USER_SPACE_PML4_BASE pml4_count; (_, v) \<leftarrow> unmap_page_range v USER_SPACE_PDPT_BASE pdpt_count;
       (_, v) \<leftarrow> unmap_page_range v USER_SPACE_PD_BASE pd_count; (_, v) \<leftarrow> unmap_page_range v USER_SPACE_PT_BASE pt_count; Some v };
     Some (0, u\<lparr>u_vm := v, u_sched := s, u_task := (u_task u)\<lparr>user_phys := [pml4_phys, pdpt_phys, pd_phys, pt_phys], user_order := [pml4_order, pdpt_order, pd_order, pt_order],
       pml4 := pml4_phys, rsp0_base := base, rsp0 := base + of_nat URSP0_SIZE, t_stack := stack_end, t_rsp := stack_end - sizeof_init_stack\<rparr>\<rparr>) }"
  unfolding usertask_create_def Let_def by (simp only: Option.bind_assoc case_prod_unfold bind.simps)

lemma usertask_create_spec:
  assumes wf: "pt_wf R (u_vm u)" and R: "224 \<in> R" and ld: "loaded R (u_vm u) start n l" and wfree: "windows_free n (u_vm u)"
    and free: "3 * (3 + n) + 4 \<le> free_count (page_alloc_bitmap (u_vm u))" and heap: "alloc_block URSP0_SIZE (u_sched u) = Some (base, sc)"
  obtains k4 k3 k2 k1 t where
    "usertask_create sw (page_at start n) start entry args u = Some (0, u\<lparr>u_vm := t, u_sched := sc, u_task := new_task base [k4, k3, k2, k1] (page_at start n) (u_task u)\<rparr>)"
    "pt_wf R t" "vm_state.cr3 t = vm_state.cr3 (u_vm u)" "\<forall>q. leaf_path R q \<longrightarrow> leaf t q = leaf (u_vm u) q"
    "distinct [k4, k3, k2, k1]" "\<forall>k \<in> {k4, k3, k2, k1}. k < 2 ^ 31 \<and> \<not> bitmap_test (page_alloc_bitmap (u_vm u)) k \<and> data_frame R t (of_nat k)"
    "pmem t (of_nat k4) = new_pml4 (pmem t (frame_of (vm_state.cr3 t))) (page_addr k4) (page_addr k3) (unat (tbl_idx 39 start)) (pmem (u_vm u) (of_nat k4))"
    "pmem t (of_nat k3) (unat (tbl_idx 30 start)) = page_addr k2 OR MAP_USER_RW" "pmem t (of_nat k2) (unat (tbl_idx 21 start)) = page_addr k1 OR MAP_USER_RW"
    "\<forall>k < n. pmem t (of_nat k1) (unat (tbl_idx 12 start) + k) = (l k AND NOT 0xFFF) OR MAP_USER_RW"
    "pmem t (frame_of (l (n - 1))) = init_words (page_at start n) entry sw args (pmem (u_vm u) (frame_of (l (n - 1))))"
    "\<forall>f. data_frame R (u_vm u) f \<longrightarrow> data_frame R t f \<and> (f \<noteq> frame_of (l (n - 1)) \<longrightarrow> pmem t f = pmem (u_vm u) f)"
proof -
  let ?s = "u_vm u" and ?F = "frame_of (l (n - 1))" and ?top = "page_at start n"
  have n: "0 < n" "n \<le> 512" using ld by (simp_all add: loaded_def)
  obtain k4 k3 k2 k1 s1 s2 s3 t v where L: "user_level USER_SPACE_PML4_BASE 1 ?s = Some (page_addr k4, 0, s1)" "user_level USER_SPACE_PDPT_BASE 1 s1 = Some (page_addr k3, 0, s2)"
    "user_level USER_SPACE_PD_BASE 1 s2 = Some (page_addr k2, 0, s3)" "user_level USER_SPACE_PT_BASE n s3 = Some (page_addr k1, 0, t)"
    "pt_wf R t" "enlarges R ?s t" "distinct [k4, k3, k2, k1]" "\<forall>k \<in> {k4, k3, k2, k1}. k < 2 ^ 31 \<and> data_frame R t (of_nat k) \<and> \<not> bitmap_test (page_alloc_bitmap ?s) k"
    "\<forall>k < 3 + n. leaf t (path (window k)) \<noteq> None" "\<forall>q. leaf_path R q \<longrightarrow> q \<notin> (\<lambda>k. path (window k)) ` {..<3 + n} \<longrightarrow> leaf t q = leaf ?s q"
    "loaded R t start n l" "same_tables R t v"
    "do { v \<leftarrow> copy_kernel_half t; v \<leftarrow> store64 v (USER_SPACE_PML4_BASE + 8 * 511) (page_addr k4 OR MAP_USER_RW); v \<leftarrow> fill_tables USER_SPACE_PML4_BASE (tbl_idx 39 start) (page_addr k3) 1 v;
       v \<leftarrow> fill_tables USER_SPACE_PDPT_BASE (tbl_idx 30 start) (page_addr k2) 1 v; v \<leftarrow> fill_tables USER_SPACE_PD_BASE (tbl_idx 21 start) (page_addr k1) 1 v;
       fill_pages USER_SPACE_PT_BASE (tbl_idx 12 start) start n v } = Some v"
    "pmem v (of_nat k4) = new_pml4 (pmem t (frame_of (vm_state.cr3 t))) (page_addr k4) (page_addr k3) (unat (tbl_idx 39 start)) (pmem ?s (of_nat k4))"
    "pmem v (of_nat k3) (unat (tbl_idx 30 start)) = page_addr k2 OR MAP_USER_RW" "pmem v (of_nat k2) (unat (tbl_idx 21 start)) = page_addr k1 OR MAP_USER_RW"
    "\<forall>k < n. pmem v (of_nat k1) (unat (tbl_idx 12 start) + k) = (l k AND NOT 0xFFF) OR MAP_USER_RW"
    "\<forall>f. f \<notin> of_nat ` {k4, k3, k2, k1} \<longrightarrow> pmem v f = pmem t f"
    by (rule usertask_filled [OF wf R ld wfree free])
  have k: "n - 1 < n" using n(1) by simp
  note P = loaded_page [OF L(11) k] and P0 = loaded_page [OF ld k]
  have nF: "?F \<notin> table_frames R t" using P(5) by (simp add: data_frame_def)
  define v' where "v' = put_frame v ?F (init_words ?top entry sw args (pmem v ?F))"
  have I: "init_stack (?top - sizeof_init_stack) ?top entry sw args v = Some v'"
    unfolding v'_def stack_page [OF n(1)] by (rule init_stack_eq [OF L(12) P(4,1,2) nF])
  have st: "same_tables R t v'"
    unfolding v'_def by (rule same_tables_trans [OF L(12) same_tables_put]) (use nF same_tables_frames [OF L(12)] in simp)
  have lp: "leaf_path R (path (window j))" if "j < 3 + n" for j using leaf_path_path [of "window j" R] window_slot [of j] R that n by simp
  have "\<forall>j < 3 + n. leaf v' (path (window j)) \<noteq> None" using same_tables_leaf [OF st lp] L(9) by simp
  then obtain w where W: "do { (_, v) \<leftarrow> unmap_page_range v' USER_SPACE_PML4_BASE 1; (_, v) \<leftarrow> unmap_page_range v USER_SPACE_PDPT_BASE 1; (_, v) \<leftarrow> unmap_page_range v USER_SPACE_PD_BASE 1;
       (_, v) \<leftarrow> unmap_page_range v USER_SPACE_PT_BASE n; Some v } = Some w"
    "pt_wf R w" "enlarges R v' w" "page_alloc_bitmap w = page_alloc_bitmap v'" "pmem w (frame_of (vm_state.cr3 v')) = pmem v' (frame_of (vm_state.cr3 v'))"
    "\<forall>k < 3 + n. leaf w (path (window k)) = None" "\<forall>q. leaf_path R q \<longrightarrow> q \<notin> (\<lambda>k. path (window k)) ` {..<3 + n} \<longrightarrow> leaf w q = leaf v' q"
    by (rule unwindow [OF same_tables_wf [OF L(5) st] R n])
  have keep: "data_frame R w f \<and> pmem w f = pmem v' f" if "data_frame R t f" for f
    using data_frame_enlarges [OF W(3)] data_frame_same [OF st] that by simp
  have keepF: "pmem w f = pmem v f" if "data_frame R t f" "f \<noteq> ?F" for f using keep [OF that(1)] that(2) by (simp add: v'_def)
  have fresh: "of_nat j \<noteq> f" if "data_frame R ?s f" "j \<in> {k4, k3, k2, k1}" for f j using data_frame_not_free [OF that(1), of j] L(8) that(2) by blast
  have K: "pmem w (of_nat j) = pmem v (of_nat j)" if "j \<in> {k4, k3, k2, k1}" for j using keepF fresh [OF P0(5) that] L(8) that by blast
  have rt: "vm_state.cr3 w = vm_state.cr3 t" "vm_state.cr3 t = vm_state.cr3 ?s" using W(3) st L(6) by (simp_all add: enlarges_def same_tables_def)
  have "pmem w (frame_of (vm_state.cr3 t)) = pmem t (frame_of (vm_state.cr3 t))" using W(5) st root_table [of t R] by (simp add: same_tables_def)
  then have root: "pmem w (frame_of (vm_state.cr3 w)) = pmem t (frame_of (vm_state.cr3 t))" using rt by simp
  have old: "pmem v f = pmem ?s f \<and> data_frame R t f" if "data_frame R ?s f" for f
  proof -
    have "f \<notin> of_nat ` {k4, k3, k2, k1}" using fresh [OF that] by blast
    then show ?thesis using L(18) data_frame_enlarges [OF L(6) that] by simp
  qed
  have leaves: "leaf w q = leaf ?s q" if "leaf_path R q" for q
  proof (cases "q \<in> (\<lambda>k. path (window k)) ` {..<3 + n}")
    case True
    then show ?thesis using W(6) wfree by (auto simp: windows_free_def)
  next
    case False
    then show ?thesis using W(7) L(10) same_tables_leaf [OF st that] that by simp
  qed
  have cnt: "calc_page_table_counts n = (1, 1, 1, n)" using calc_page_table_counts_ceil [OF n(1)] n by (simp add: div_nat_eqI)
  have run: "usertask_create sw ?top start entry args u = Some (0, u\<lparr>u_vm := w, u_sched := sc, u_task := new_task base [k4, k3, k2, k1] ?top (u_task u)\<rparr>)"
    unfolding usertask_create_phases nr_pages [OF n(2)] Let_def cnt prod.case
    by (simp only: L(1-4,13) heap I W(1) bind.simps prod.case new_task_def list.map list.sel)
  have F: "pmem w ?F = init_words ?top entry sw args (pmem ?s ?F)" using keep [OF P(5)] old [OF P0(5)] by (simp add: v'_def)
  show thesis
    by (rule that [OF run W(2) _ _ L(7)]) (use K root rt keep keepF old leaves L(8,14-17) F in auto)
qed

lemma user_entry: "k < 2 ^ 31 \<Longrightarrow> present (page_addr k OR MAP_USER_RW) \<and> frame_of (page_addr k OR MAP_USER_RW) = of_nat k"
  "present ((e AND NOT 0xFFF) OR MAP_USER_RW) \<and> frame_of ((e AND NOT 0xFFF) OR MAP_USER_RW) = frame_of e"
proof -
  have "MAP_USER_RW = 6 OR 1" "flags_ok 6" by (simp_all add: MAP_USER_RW_def flags_ok_def)
  then show "k < 2 ^ 31 \<Longrightarrow> present (page_addr k OR MAP_USER_RW) \<and> frame_of (page_addr k OR MAP_USER_RW) = of_nat k"
    "present ((e AND NOT 0xFFF) OR MAP_USER_RW) \<and> frame_of ((e AND NOT 0xFFF) OR MAP_USER_RW) = frame_of e"
    using frame_of_new_entry [of k 6] frame_of_mapped [of 6 e] unfolding \<open>MAP_USER_RW = 6 OR 1\<close> by (auto simp only: present_iff_bit bit_or_iff bit_1_iff) simp
qed

text \<open>The walk through the new tables.\<close>

lemma new_space_page:
  assumes al: "start AND 0xFFF = 0" and d: "unat (tbl_idx 12 start) + n \<le> 512" and k: "\<forall>k \<in> {k4, k3, k2, k1}. k < 2 ^ 31"
    and T: "pmem t (of_nat k4) (unat (tbl_idx 39 start)) = page_addr k3 OR MAP_USER_RW" "pmem t (of_nat k3) (unat (tbl_idx 30 start)) = page_addr k2 OR MAP_USER_RW"
      "pmem t (of_nat k2) (unat (tbl_idx 21 start)) = page_addr k1 OR MAP_USER_RW" "\<forall>k < n. pmem t (of_nat k1) (unat (tbl_idx 12 start) + k) = (l k AND NOT 0xFFF) OR MAP_USER_RW"
    and i: "i < n"
  shows "leaf (load_pml4 t (page_addr k4)) (path (page_at start i)) = Some ((l i AND NOT 0xFFF) OR MAP_USER_RW)"
proof -
  have "unat (tbl_idx 12 start) + i < 512" using d i by simp
  note I = page_indices [OF al this]
  have "next_table (load_pml4 t (page_addr k4)) f j = next_table t f j" for f j by (simp add: next_table_def load_pml4_def)
  moreover have "frame_of (vm_state.cr3 (load_pml4 t (page_addr k4))) = of_nat k4" using frame_of_page_addr [of k4] k by (simp add: load_pml4_def)
  moreover have "next_table t (of_nat k4) (unat (tbl_idx 39 start)) = Some (of_nat k3)" "next_table t (of_nat k3) (unat (tbl_idx 30 start)) = Some (of_nat k2)"
    "next_table t (of_nat k2) (unat (tbl_idx 21 start)) = Some (of_nat k1)"
    using T(1-3) user_entry(1) [of k3] user_entry(1) [of k2] user_entry(1) [of k1] k by (simp_all add: next_table_def)
  ultimately have "tbl (load_pml4 t (page_addr k4)) (tl (path (page_at start i))) = Some (of_nat k1)" by (simp add: path_def I)
  then show ?thesis using T(4) i user_entry(2) [of "l i"] by (simp add: leaf_def path_def I load_pml4_def)
qed

text \<open>What the new tables give, in any state in which they have their contents.\<close>

definition new_tables :: "vm_state \<Rightarrow> u64 \<Rightarrow> nat \<Rightarrow> (nat \<Rightarrow> u64) \<Rightarrow> nat list \<Rightarrow> (nat \<Rightarrow> u64) \<Rightarrow> bool" where
  "new_tables t start n l ks old \<longleftrightarrow> (case ks of [k4, k3, k2, k1] \<Rightarrow>
     (\<forall>k \<in> set ks. k < 2 ^ 31) \<and>
     pmem t (of_nat k4) = new_pml4 (pmem t (frame_of (vm_state.cr3 t))) (page_addr k4) (page_addr k3) (unat (tbl_idx 39 start)) old \<and>
     pmem t (of_nat k3) (unat (tbl_idx 30 start)) = page_addr k2 OR MAP_USER_RW \<and> pmem t (of_nat k2) (unat (tbl_idx 21 start)) = page_addr k1 OR MAP_USER_RW \<and>
     (\<forall>k < n. pmem t (of_nat k1) (unat (tbl_idx 12 start) + k) = (l k AND NOT 0xFFF) OR MAP_USER_RW)
   | _ \<Rightarrow> False)"

lemma new_space:
  assumes T: "new_tables t start n l [k4, k3, k2, k1] old" and al: "start AND 0xFFF = 0" and d: "unat (tbl_idx 12 start) + n \<le> 512" and a: "unat (tbl_idx 39 start) < 256"
  shows "i < n \<Longrightarrow> leaf (load_pml4 t (page_addr k4)) (path (page_at start i)) = Some ((l i AND NOT 0xFFF) OR MAP_USER_RW)"
    "i < n \<Longrightarrow> j < 512 \<Longrightarrow> translate (load_pml4 t (page_addr k4)) (page_at start i + 8 * of_nat j) = Some (frame_of (l i), j)"
    "256 \<le> unat (tbl_idx 39 va) \<Longrightarrow> unat (tbl_idx 39 va) < 511 \<Longrightarrow> translate (load_pml4 t (page_addr k4)) va = translate t va"
    "recursive (load_pml4 t (page_addr k4))"
proof -
  let ?u = "load_pml4 t (page_addr k4)"
  have k: "\<forall>k \<in> {k4, k3, k2, k1}. k < 2 ^ 31" and p4: "pmem t (of_nat k4) = new_pml4 (pmem t (frame_of (vm_state.cr3 t))) (page_addr k4) (page_addr k3) (unat (tbl_idx 39 start)) old"
    and p: "pmem t (of_nat k3) (unat (tbl_idx 30 start)) = page_addr k2 OR MAP_USER_RW" "pmem t (of_nat k2) (unat (tbl_idx 21 start)) = page_addr k1 OR MAP_USER_RW"
      "\<forall>k < n. pmem t (of_nat k1) (unat (tbl_idx 12 start) + k) = (l k AND NOT 0xFFF) OR MAP_USER_RW"
    using T by (simp_all add: new_tables_def)
  have slot: "pmem t (of_nat k4) (unat (tbl_idx 39 start)) = page_addr k3 OR MAP_USER_RW" using p4 by (simp add: new_pml4_def)
  note page = new_space_page [OF al d k slot p]
  have r: "frame_of (page_addr k4) = of_nat k4" using frame_of_page_addr [of k4] k by simp
  show "i < n \<Longrightarrow> leaf ?u (path (page_at start i)) = Some ((l i AND NOT 0xFFF) OR MAP_USER_RW)" by (rule page)
  show "translate ?u (page_at start i + 8 * of_nat j) = Some (frame_of (l i), j)" if "i < n" "j < 512"
  proof -
    have "page_at start i AND 0xFFF = 0" using page_indices(5) [OF al, of i] d that(1) by simp
    from aligned_slot [OF this that(2)] show ?thesis using page [OF that(1)] user_entry(2) [of "l i"] by (simp add: translate_leaf)
  qed
  show "translate ?u va = translate t va" if "256 \<le> unat (tbl_idx 39 va)" "unat (tbl_idx 39 va) < 511"
    using that a p4 r by (simp add: translate_def next_table_def load_pml4_def new_pml4_def)
  show "recursive ?u" using p4 user_entry(1) [of k4] k r a by (simp add: recursive_def next_table_def load_pml4_def new_pml4_def)
qed

lemma new_space_frame:
  assumes "new_tables t start n l [k4, k3, k2, k1] old" "start AND 0xFFF = 0" "unat (tbl_idx 12 start) + n \<le> 512" "unat (tbl_idx 39 start) < 256" "0 < n"
    "pmem t (frame_of (l (n - 1))) = init_words (page_at start n) entry sw args g"
  shows "map (\<lambda>i. load64 (load_pml4 t (page_addr k4)) (page_at start n - sizeof_init_stack + 128 + 8 * of_nat i)) [0..<6] =
    map Some [sw, entry, ucast UCODE_SELECTOR, 0x202, page_at start n, ucast UDATA_SELECTOR]"
proof -
  let ?u = "load_pml4 t (page_addr k4)"
  have w: "load64 ?u (page_at start (n - 1) + 8 * of_nat j) = Some (init_words (page_at start n) entry sw args g j)" if "j < 512" for j
    using new_space(2) [OF assms(1-4), of "n - 1" j] that assms(5,6) by (simp add: load64_def load_pml4_def)
  have a: "page_at start n - sizeof_init_stack + 128 + 8 * of_nat i = page_at start (n - 1) + 8 * of_nat (506 + i)" for i
    unfolding stack_page [OF assms(5)] by (simp add: sizeof_init_stack_def)
  show ?thesis
    unfolding a using w [of 506] w [of 507] w [of 508] w [of 509] w [of 510] w [of 511] by (simp add: upt_rec init_words_def)
qed

text \<open>
  C36: The address space of a new program. When the loader has mapped the pages of the program from \<open>start\<close> up to its stack under one page table, the window in which the new tables are filled is
  unmapped, and there are frames enough, \<open>__usertask_create\<close> returns 0 and with the new \<open>pml4\<close> loaded: every word of every page of the program is where it was under the tables of the loader; every
  address of the kernel's half (slots 256 to 510) translates as under the kernel's tables; the recursive slot shows the new tables, so that the functions on page tables work there too; and the frame at
  \<open>rsp\<close> starts the program: \<open>switch_to_user\<close>, the entry point, the user's code segment, flags with interrupts on, the top of the stack and the user's data segment. The tables of the kernel are
  well-formed again, translate every address of the managed slots as before, and the pages of the program below its stack page are unchanged.
\<close>

theorem usertask_space:
  assumes "pt_wf R (u_vm u)" and "224 \<in> R" and "loaded R (u_vm u) start n l" and "windows_free n (u_vm u)"
    and "3 * (3 + n) + 4 \<le> free_count (page_alloc_bitmap (u_vm u))" and "alloc_block URSP0_SIZE (u_sched u) = Some (base, sc)"
  shows "\<exists>w t u'. usertask_create sw (page_at start n) start entry args u = Some (0, w) \<and> t = u_vm w \<and> u' = load_pml4 t (pml4 (u_task w)) \<and>
    (\<forall>k < n. \<forall>j < 512. translate u' (page_at start k + 8 * of_nat j) = Some (frame_of (l k), j) \<and> translate (u_vm u) (page_at start k + 8 * of_nat j) = Some (frame_of (l k), j)) \<and>
    (\<forall>va. 256 \<le> unat (tbl_idx 39 va) \<and> unat (tbl_idx 39 va) < 511 \<longrightarrow> translate u' va = translate t va) \<and> recursive u' \<and>
    map (\<lambda>i. load64 u' (t_rsp (u_task w) + 128 + 8 * of_nat i)) [0..<6] = map Some [sw, entry, ucast UCODE_SELECTOR, 0x202, page_at start n, ucast UDATA_SELECTOR] \<and>
    pt_wf R t \<and> (\<forall>va. unat (tbl_idx 39 va) \<in> R \<longrightarrow> translate t va = translate (u_vm u) va) \<and>
    (\<forall>k < n. frame_of (l k) \<noteq> frame_of (l (n - 1)) \<longrightarrow> pmem t (frame_of (l k)) = pmem (u_vm u) (frame_of (l k)))"
proof -
  obtain k4 k3 k2 k1 t where U:
    "usertask_create sw (page_at start n) start entry args u = Some (0, u\<lparr>u_vm := t, u_sched := sc, u_task := new_task base [k4, k3, k2, k1] (page_at start n) (u_task u)\<rparr>)"
    "pt_wf R t" "vm_state.cr3 t = vm_state.cr3 (u_vm u)" "\<forall>q. leaf_path R q \<longrightarrow> leaf t q = leaf (u_vm u) q"
    "distinct [k4, k3, k2, k1]" "\<forall>k \<in> {k4, k3, k2, k1}. k < 2 ^ 31 \<and> \<not> bitmap_test (page_alloc_bitmap (u_vm u)) k \<and> data_frame R t (of_nat k)"
    "pmem t (of_nat k4) = new_pml4 (pmem t (frame_of (vm_state.cr3 t))) (page_addr k4) (page_addr k3) (unat (tbl_idx 39 start)) (pmem (u_vm u) (of_nat k4))"
    "pmem t (of_nat k3) (unat (tbl_idx 30 start)) = page_addr k2 OR MAP_USER_RW" "pmem t (of_nat k2) (unat (tbl_idx 21 start)) = page_addr k1 OR MAP_USER_RW"
    "\<forall>k < n. pmem t (of_nat k1) (unat (tbl_idx 12 start) + k) = (l k AND NOT 0xFFF) OR MAP_USER_RW"
    "pmem t (frame_of (l (n - 1))) = init_words (page_at start n) entry sw args (pmem (u_vm u) (frame_of (l (n - 1))))"
    "\<forall>f. data_frame R (u_vm u) f \<longrightarrow> data_frame R t f \<and> (f \<noteq> frame_of (l (n - 1)) \<longrightarrow> pmem t f = pmem (u_vm u) f)"
    by (rule usertask_create_spec [OF assms])
  let ?u = "load_pml4 t (page_addr k4)"
  have ld: "start AND 0xFFF = 0" "unat (tbl_idx 12 start) + n \<le> 512" "unat (tbl_idx 39 start) < 256" "0 < n" using assms(3) by (simp_all add: loaded_def)
  have T: "new_tables t start n l [k4, k3, k2, k1] (pmem (u_vm u) (of_nat k4))" using U(6-10) by (simp add: new_tables_def)
  have 1: "translate ?u (page_at start i + 8 * of_nat j) = Some (frame_of (l i), j) \<and> translate (u_vm u) (page_at start i + 8 * of_nat j) = Some (frame_of (l i), j)" if "i < n" "j < 512" for i j
    using new_space(2) [OF T ld(1-3) that] loaded_page [OF assms(3) that(1)] aligned_slot [OF loaded_page(2) [OF assms(3) that(1)] that(2)] by (simp add: translate_leaf)
  have 2: "translate ?u va = translate t va" if "256 \<le> unat (tbl_idx 39 va)" "unat (tbl_idx 39 va) < 511" for va by (rule new_space(3) [OF T ld(1-3) that])
  have 3: "recursive ?u" by (rule new_space(4) [OF T ld(1-3)])
  have 4: "map (\<lambda>i. load64 ?u (page_at start n - sizeof_init_stack + 128 + 8 * of_nat i)) [0..<6] = map Some [sw, entry, ucast UCODE_SELECTOR, 0x202, page_at start n, ucast UDATA_SELECTOR]"
    by (rule new_space_frame [OF T ld U(11)])
  have 5: "translate t va = translate (u_vm u) va" if "unat (tbl_idx 39 va) \<in> R" for va using U(4) leaf_path_path [OF that] by (simp add: translate_leaf)
  have 6: "pmem t (frame_of (l i)) = pmem (u_vm u) (frame_of (l i))" if "i < n" "frame_of (l i) \<noteq> frame_of (l (n - 1))" for i
    using U(12) loaded_page(5) [OF assms(3) that(1)] that(2) by blast
  show ?thesis using U(1,2) 1 2 3 4 5 6 by (intro exI conjI) (auto simp: new_task_def)
qed

text \<open>
  The frame of the new \<open>pml4\<close> comes from the page allocator, which does not clear it, and is not cleared either: every slot below the kernel's half but the program's keeps what the frame held before.
\<close>

lemma usertask_stale_entries:
  assumes "pt_wf R (u_vm u)" and "224 \<in> R" and "loaded R (u_vm u) start n l" and "windows_free n (u_vm u)"
    and "3 * (3 + n) + 4 \<le> free_count (page_alloc_bitmap (u_vm u))" and "alloc_block URSP0_SIZE (u_sched u) = Some (base, sc)"
  shows "\<exists>w. usertask_create sw (page_at start n) start entry args u = Some (0, w) \<and> \<not> bitmap_test (page_alloc_bitmap (u_vm u)) (unat (frame_of (pml4 (u_task w)))) \<and>
    (\<forall>j < 256. j \<noteq> unat (tbl_idx 39 start) \<longrightarrow> pmem (u_vm w) (frame_of (pml4 (u_task w))) j = pmem (u_vm u) (frame_of (pml4 (u_task w))) j)"
proof -
  obtain k4 k3 k2 k1 t where U:
    "usertask_create sw (page_at start n) start entry args u = Some (0, u\<lparr>u_vm := t, u_sched := sc, u_task := new_task base [k4, k3, k2, k1] (page_at start n) (u_task u)\<rparr>)"
    "k4 < 2 ^ 31" "\<not> bitmap_test (page_alloc_bitmap (u_vm u)) k4"
    "pmem t (of_nat k4) = new_pml4 (pmem t (frame_of (vm_state.cr3 t))) (page_addr k4) (page_addr k3) (unat (tbl_idx 39 start)) (pmem (u_vm u) (of_nat k4))"
    by (rule usertask_create_spec [OF assms, where sw = sw and entry = entry and args = args]) blast
  moreover have "frame_of (page_addr k4) = of_nat k4" "unat (of_nat k4 :: u64) = k4" using U(2) by (simp_all add: frame_of_page_addr unat_of_nat_small)
  ultimately show ?thesis by (auto simp: new_task_def new_pml4_def)
qed

text \<open>A machine with frames for a small program, its first page already allocated.\<close>

definition user_vm :: vm_state where
  "user_vm = small_vm\<lparr>page_alloc_bitmap := \<lparr>bmp_size = 40, bmp_map = (\<lambda>_. 7)\<rparr>\<rparr>"

lemma user_vm_used: "bitmap_test (page_alloc_bitmap user_vm) k \<longleftrightarrow> k < 3"
proof -
  have "(7 :: u64) = mask 3" by (simp add: mask_eq_exp_minus_1)
  then have b: "bit (7 :: u64) n \<longleftrightarrow> n < 3" for n by (simp only: bit_mask_iff) auto
  have "page_alloc_bitmap user_vm = \<lparr>bmp_size = 40, bmp_map = (\<lambda>_. 7)\<rparr>" by (simp add: user_vm_def)
  then have "bit_at (page_alloc_bitmap user_vm) k \<longleftrightarrow> k mod 64 < 3" by (simp only: bit_at_def bitmap_t.simps b)
  moreover have "bmp_size (page_alloc_bitmap user_vm) = 40" by (simp add: user_vm_def)
  ultimately show ?thesis by (cases "k < 40") (simp_all add: bitmap_test_iff)
qed

lemma user_vm_free: "free_count (page_alloc_bitmap user_vm) = 37"
proof -
  have "{k. k < bmp_size (page_alloc_bitmap user_vm) \<and> \<not> bitmap_test (page_alloc_bitmap user_vm) k} = {3..<40}"
    by (auto simp: user_vm_used) (auto simp: user_vm_def)
  then show ?thesis by (simp add: free_count_def)
qed

lemma small_vm_with_bitmap:
  assumes R: "511 \<notin> R" and b: "1 \<le> bmp_size b" "bmp_size b < 2 ^ 31" "bitmap_test b 1"
  shows "pt_wf R (small_vm\<lparr>page_alloc_bitmap := b\<rparr>)" "unat (tbl_idx 39 va) \<in> R \<Longrightarrow> leaf (small_vm\<lparr>page_alloc_bitmap := b\<rparr>) (path va) = None"
proof -
  have "recursive (small_vm\<lparr>page_alloc_bitmap := b\<rparr>)" using pt_wf_recursive [OF small_vm_wf [OF R]] by (simp add: recursive_def)
  moreover have "bitmap_test b (unat f)" if "table_path R p" "tbl small_vm p = Some f" for p f using small_vm_tbl [OF R that] b(3) by simp
  ultimately show "pt_wf R (small_vm\<lparr>page_alloc_bitmap := b\<rparr>)" using small_vm_wf [OF R] R b(1,2) unfolding pt_wf_def by auto
  show "unat (tbl_idx 39 va) \<in> R \<Longrightarrow> leaf (small_vm\<lparr>page_alloc_bitmap := b\<rparr>) (path va) = None" using small_vm_leaf [OF R] by simp
qed

lemma user_vm_wf: "511 \<notin> R \<Longrightarrow> pt_wf R user_vm"
  using small_vm_with_bitmap(1) [of R "page_alloc_bitmap user_vm"] user_vm_used [of 1] by (simp add: user_vm_def)

lemma user_vm_leaf: "511 \<notin> R \<Longrightarrow> unat (tbl_idx 39 va) \<in> R \<Longrightarrow> leaf user_vm (path va) = None"
  using small_vm_leaf [of R va] by (simp add: user_vm_def)

lemma user_vm_loaded:
  obtains t where "map_page_range user_vm 0x2000 0x400000 7 1 = Some (1, t)" "pt_wf {0, 224} t" "loaded {0, 224} t 0x400000 1 (\<lambda>k. 0x2007)" "windows_free 1 t" "34 \<le> free_count (page_alloc_bitmap t)"
proof -
  let ?R = "{0, 224} :: nat set" and ?va = "0x400000 :: u64"
  have i: "unat (tbl_idx 39 ?va) = 0" "unat (tbl_idx 12 ?va) = 0" by (simp_all add: tbl_idx_unat)
  have R: "511 \<notin> ?R" by simp
  have wf: "pt_wf ?R user_vm" by (rule user_vm_wf [OF R])
  have fl: "flags_ok 7" by (simp add: flags_ok_def)
  obtain t where t: "map_page_range user_vm 0x2000 ?va 7 1 = Some (int 1, t)" "pt_wf ?R t" "\<forall>k < 1. leaf t (path (page_at ?va k)) = Some ((page_at 0x2000 k AND NOT 0xFFF) OR 7 OR 1)"
    "\<forall>q. leaf_path ?R q \<longrightarrow> q \<notin> (\<lambda>k. path (page_at ?va k)) ` {..<1} \<longrightarrow> leaf t q = leaf user_vm q" "extends ?R user_vm t" "free_count (page_alloc_bitmap user_vm) - 3 * 1 \<le> free_count (page_alloc_bitmap t)"
    by (rule map_page_range_full [OF wf fl, of 1 ?va "0x2000"]) (use user_vm_leaf [OF R, of ?va] i in \<open>auto simp: user_vm_free\<close>)
  have l: "leaf t (path ?va) = Some 0x2007" using t(3) by simp
  have "frame_of 0x2007 = 2" by (simp add: frame_of_def mask_eq_exp_minus_1)
  moreover have "2 \<notin> table_frames ?R user_vm" using small_vm_tbl [OF R, of _ 2] by (auto simp: table_frames_def user_vm_def)
  then have "data_frame ?R user_vm 2" by (simp add: data_frame_def user_vm_used)
  then have "data_frame ?R t 2" using data_frame_enlarges [OF extendsD(1) [OF t(5)]] by blast
  ultimately have "loaded ?R t ?va 1 (\<lambda>k. 0x2007)" using l i by (simp add: loaded_def)
  moreover have "leaf t (path (window k)) = None" if "k < 4" for k
  proof -
    have "leaf_path ?R (path (window k))" "unat (tbl_idx 39 (window k)) \<in> ?R" using leaf_path_path [of "window k" ?R] window_slot [of k] that by simp_all
    moreover have "path (window k) \<noteq> path ?va" using window_slot [of k] i that by (simp add: path_def)
    ultimately show ?thesis using t(4) user_vm_leaf [OF R] by auto
  qed
  then have "windows_free 1 t" by (simp add: windows_free_def)
  ultimately show thesis using that [of t] t(1,2,6) by (simp add: user_vm_free)
qed

theorem usertask_space_witness:
  "\<exists>u w. loaded {0, 224} (u_vm u) 0x400000 1 (\<lambda>k. 0x2007) \<and> usertask_create 0x9000 0x401000 0x400000 0x400010 0 u = Some (0, w) \<and>
    translate (load_pml4 (u_vm w) (pml4 (u_task w))) 0x400010 = Some (2, 2) \<and> load64 (load_pml4 (u_vm w) (pml4 (u_task w))) (t_rsp (u_task w) + 136) = Some 0x400010"
proof -
  obtain t where t: "pt_wf {0, 224} t" "loaded {0, 224} t 0x400000 1 (\<lambda>k. 0x2007)" "windows_free 1 t" "34 \<le> free_count (page_alloc_bitmap t)" by (rule user_vm_loaded)
  define u where "u = \<lparr>u_vm = t, u_sched = sample_sched [] [], u_task = fresh_task\<rparr>"
  obtain base sc where heap: "alloc_block URSP0_SIZE (u_sched u) = Some (base, sc)" by (simp add: u_def alloc_block_def sample_sched_def fresh_heap_def kh_alloc_def URSP0_SIZE_def)
  have u: "u_vm u = t" by (simp add: u_def)
  have R: "224 \<in> {0, 224 :: nat}" and f: "3 * (3 + 1) + 4 \<le> free_count (page_alloc_bitmap (u_vm u))" using t(4) u by simp_all
  from usertask_space [OF t(1) [folded u] R t(2,3) [folded u] f heap, of "0x9000" "0x400010" 0] obtain w v v' where
    w: "usertask_create 0x9000 (page_at 0x400000 1) 0x400000 0x400010 0 u = Some (0, w)" "v = u_vm w" "v' = load_pml4 v (pml4 (u_task w))"
      "\<forall>k < 1. \<forall>j < 512. translate v' (page_at 0x400000 k + 8 * of_nat j) = Some (frame_of 0x2007, j) \<and> translate (u_vm u) (page_at 0x400000 k + 8 * of_nat j) = Some (frame_of 0x2007, j)"
      "map (\<lambda>i. load64 v' (t_rsp (u_task w) + 128 + 8 * of_nat i)) [0..<6] = map Some [0x9000, 0x400010, ucast UCODE_SELECTOR, 0x202, page_at 0x400000 1, ucast UDATA_SELECTOR]"
    by (elim exE conjE) (rule that; assumption)
  have "frame_of 0x2007 = 2" by (simp add: frame_of_def mask_eq_exp_minus_1)
  moreover have "translate v' 0x400010 = Some (frame_of 0x2007, 2)" using w(4) [rule_format, of 0 2] by simp
  moreover have "load64 v' (t_rsp (u_task w) + 136) = Some 0x400010" using w(5) by (simp add: upt_rec add.assoc)
  moreover have "page_at 0x400000 1 = 0x401000" by (simp add: page_at_def)
  ultimately show ?thesis using w(1-3) t(2) u by (intro exI [of _ u] exI [of _ w]) simp
qed

end
