(* ===== verification/Loader.thy ===== *)
theory Loader
  imports UserSpace Firmware Vfs
begin

text \<open>
  Starting a program: the ELF loader of \<open>src/src/task.c\<close> (\<open>make_elf64_task\<close>) and \<open>run_process\<close>, which reads the program from the file system and hands the new task to the scheduler.

  The loader maps frames at the addresses the program is linked for, copies the segments through these mappings, maps the stack behind the last of them, lets \<open>__usertask_create\<close> build the tables of
  the program, and removes the mappings. The image of the file is read from the byte memory \<open>m\<close> at address \<open>elf\<close>. Reading \<open>last_vaddr\<close> when no segment has been loaded, which the code leaves
  uninitialised, has no result.

  The lemmas show that a program whose segments are adjacent, as the loader assumes, is in its address space byte for byte where the file says.
\<close>

section \<open>Program files\<close>

record elf64_ehdr =
  e_ident :: "u8 list"
  e_type :: u16
  e_machine :: u16
  e_version :: u32
  e_entry :: u64
  e_phoff :: u64
  e_shoff :: u64
  e_flags :: u32
  e_ehsize :: u16
  e_phentsize :: u16
  e_phnum :: u16
  e_shentsize :: u16
  e_shnum :: u16
  e_shstrndx :: u16

record elf64_phdr =
  p_type :: u32
  p_flags :: u32
  p_offset :: u64
  p_vaddr :: u64
  p_paddr :: u64
  p_filesz :: u64
  p_memsz :: u64
  p_align :: u64

definition rd16 :: "mem \<Rightarrow> u64 \<Rightarrow> u16" where
  "rd16 m p = ucast (m p) OR push_bit 8 (ucast (m (p + 1)))"

definition ehdr_at :: "mem \<Rightarrow> u64 \<Rightarrow> elf64_ehdr" where
  "ehdr_at m p = \<lparr>e_ident = map (\<lambda>i. m (p + of_nat i)) [0..<16], e_type = rd16 m (p + 16), e_machine = rd16 m (p + 18), e_version = rd32 m (p + 20), e_entry = rd64 m (p + 24), e_phoff = rd64 m (p + 32), e_shoff = rd64 m (p + 40),
     e_flags = rd32 m (p + 48), e_ehsize = rd16 m (p + 52), e_phentsize = rd16 m (p + 54), e_phnum = rd16 m (p + 56), e_shentsize = rd16 m (p + 58), e_shnum = rd16 m (p + 60),
     e_shstrndx = rd16 m (p + 62)\<rparr>"

definition phdr_at :: "mem \<Rightarrow> u64 \<Rightarrow> elf64_phdr" where
  "phdr_at m p = \<lparr>p_type = rd32 m p, p_flags = rd32 m (p + 4), p_offset = rd64 m (p + 8), p_vaddr = rd64 m (p + 16), p_paddr = rd64 m (p + 24), p_filesz = rd64 m (p + 32),
     p_memsz = rd64 m (p + 40), p_align = rd64 m (p + 48)\<rparr>"

definition PT_LOAD :: u32 where "PT_LOAD = 1"
definition ELFCLASS32 :: u8 where "ELFCLASS32 = 1"
definition ELFCLASS64 :: u8 where "ELFCLASS64 = 2"
definition FA_READ :: u32 where "FA_READ = 1"

text \<open>Bytes in virtual memory, within the 64-bit words of the memory of theory \<open>PageTable\<close>, and \<open>memcpy\<close> from kernel memory into them.\<close>

definition set_byte :: "nat \<Rightarrow> u8 \<Rightarrow> u64 \<Rightarrow> u64" where
  "set_byte k b w = (w AND NOT (push_bit (8 * k) 0xFF)) OR push_bit (8 * k) (ucast b)"

definition get_byte :: "nat \<Rightarrow> u64 \<Rightarrow> u8" where
  "get_byte k w = ucast (drop_bit (8 * k) w)"

definition load8 :: "vm_state \<Rightarrow> u64 \<Rightarrow> u8 option" where
  "load8 s va = do { (f, i) \<leftarrow> translate s va; Some (get_byte (unat va mod 8) (pmem s f i)) }"

definition store8 :: "vm_state \<Rightarrow> u64 \<Rightarrow> u8 \<Rightarrow> vm_state option" where
  "store8 s va b = do {
     (f, i) \<leftarrow> translate s va;
     Some (s\<lparr>pmem := (pmem s)(f := (pmem s f)(i := set_byte (unat va mod 8) b (pmem s f i)))\<rparr>) }"

definition copy_in :: "mem \<Rightarrow> u64 \<Rightarrow> u64 \<Rightarrow> nat \<Rightarrow> vm_state \<Rightarrow> vm_state option" where
  "copy_in m dst src n s = fold (\<lambda>i so. do { s \<leftarrow> so; store8 s (dst + of_nat i) (m (src + of_nat i)) }) [0..<n] (Some s)"

section \<open>The loader\<close>

definition segment_pages :: "elf64_phdr \<Rightarrow> nat" where
  "segment_pages ph = unat (drop_bit PAGE_SHIFT (ALIGN_UP (p_memsz ph) (of_nat PAGE_SIZE)))"

definition load_segment :: "mem \<Rightarrow> u64 \<Rightarrow> elf64_phdr \<Rightarrow> uproc \<Rightarrow> uproc option" where
  "load_segment m elf ph u = do {
     let order = size_to_order (unat (ALIGN_UP (p_memsz ph) (of_nat PAGE_SIZE)));
     (phys, bmp) \<leftarrow> alloc_pages (page_alloc_bitmap (u_vm u)) order;
     (_, v) \<leftarrow> map_page_range ((u_vm u)\<lparr>page_alloc_bitmap := bmp\<rparr>) phys (p_vaddr ph) 0x7 (segment_pages ph);
     v \<leftarrow> copy_in m (p_vaddr ph) (elf + p_offset ph) (unat (p_filesz ph)) v;
     (a, s) \<leftarrow> alloc_block 24 (u_sched u);
     if a = 0 then None
     else Some (u\<lparr>u_vm := v, u_sched := s, u_task := (u_task u)\<lparr>ls_addr := ls_addr (u_task u) @ [(phys, order)]\<rparr>\<rparr>) }"

text \<open>The loop over the program headers; it carries \<open>last_vaddr\<close> and \<open>last_memsz\<close>. The result says whether the loop ended (\<open>Inr\<close>) or returned \<open>-1\<close> (\<open>Inl\<close>).\<close>

primrec load_loop :: "mem \<Rightarrow> u64 \<Rightarrow> elf64_phdr list \<Rightarrow> (u64 \<times> u64) option \<Rightarrow> uproc \<Rightarrow> (uproc + (u64 \<times> u64) option \<times> uproc) option" where
  "load_loop m elf [] prev u = Some (Inr (prev, u))"
| "load_loop m elf (ph # phs) prev u =
     (if p_type ph = PT_LOAD then
        if KERNEL_BASE \<le> p_vaddr ph then Some (Inl u)
        else do { u \<leftarrow> load_segment m elf ph u; load_loop m elf phs (Some (p_vaddr ph, p_memsz ph)) u }
      else load_loop m elf phs prev u)"

primrec unload_loop :: "elf64_phdr list \<Rightarrow> vm_state \<Rightarrow> vm_state option" where
  "unload_loop [] s = Some s"
| "unload_loop (ph # phs) s =
     (if p_type ph = PT_LOAD then do { (_, s) \<leftarrow> unmap_page_range s (p_vaddr ph) (segment_pages ph); unload_loop phs s }
      else unload_loop phs s)"

definition phdrs :: "mem \<Rightarrow> u64 \<Rightarrow> elf64_phdr list" where
  "phdrs m elf = map (\<lambda>i. phdr_at m (elf + e_phoff (ehdr_at m elf) + 56 * of_nat i)) [0..<unat (e_phnum (ehdr_at m elf))]"

definition make_elf64_task :: "u64 \<Rightarrow> mem \<Rightarrow> u64 \<Rightarrow> bytes \<Rightarrow> uproc \<Rightarrow> (int \<times> uproc) option" where
  "make_elf64_task switch_to_user m elf pathname u = do {
     let ehdr = ehdr_at m elf;
     r \<leftarrow> load_loop m elf (phdrs m elf) None u;
     case r of Inl u \<Rightarrow> Some (- 1, u)
     | Inr (prev, u) \<Rightarrow> do {
         (last_vaddr, last_memsz) \<leftarrow> prev;
         let stack_down = ALIGN_UP (last_vaddr + last_memsz) (of_nat PAGE_SIZE);
         let stack_top = stack_down + USTACK_SIZE;
         let stack_size = stack_top - stack_down;
         let s_order = size_to_order (unat stack_size);
         (stack_phys, bmp) \<leftarrow> alloc_pages (page_alloc_bitmap (u_vm u)) s_order;
         (_, v) \<leftarrow> map_page_range ((u_vm u)\<lparr>page_alloc_bitmap := bmp\<rparr>) stack_phys stack_down 0x7 (unat (drop_bit PAGE_SHIFT stack_size));
         let start = p_vaddr (phdr_at m (elf + e_phoff ehdr));
         (_, u) \<leftarrow> usertask_create switch_to_user stack_top start (e_entry ehdr) 0 (u\<lparr>u_vm := v\<rparr>);
         let task = (u_task u)\<lparr>stack_basephys := stack_phys, stack_order := s_order, t_flags := TASK_FLAGS_USER, t_status := TASK_READY, t_name := take 31 pathname\<rparr>;
         v \<leftarrow> unload_loop (phdrs m elf) (u_vm u);
         (_, v) \<leftarrow> unmap_page_range v stack_down (unat (drop_bit PAGE_SHIFT stack_size));
         Some (0, u\<lparr>u_vm := v, u_task := task\<rparr>) } }"

definition make_elf32_task :: "int" where
  "make_elf32_task = 0"

section \<open>Starting a program\<close>

text \<open>
  The whole state: the file system, the tables, the scheduler and the byte memory of the kernel. The file system and the scheduler see the same heap, and the loader and the scheduler the same page bitmap;
  they are carried from one to the other.
\<close>

record 'f kstate =
  k_vfs :: "'f vfs"
  k_vm :: vm_state
  k_sched :: sched
  k_mem :: mem

definition on_vfs :: "('f vfs \<Rightarrow> ('r \<times> 'f vfs) option) \<Rightarrow> 'f kstate \<Rightarrow> ('r \<times> 'f kstate) option" where
  "on_vfs f k = do {
     (r, v) \<leftarrow> f ((k_vfs k)\<lparr>vheap := sheap (k_sched k)\<rparr>);
     Some (r, k\<lparr>k_vfs := v, k_sched := (k_sched k)\<lparr>sheap := vheap v\<rparr>\<rparr>) }"

definition set_irq :: "nat \<Rightarrow> bool \<Rightarrow> 'f kstate \<Rightarrow> 'f kstate" where
  "set_irq c b k = k\<lparr>k_sched := (k_sched k)\<lparr>irq_on := (irq_on (k_sched k))(c := b)\<rparr>\<rparr>"

definition set_lock :: "u64 \<Rightarrow> 'f kstate \<Rightarrow> 'f kstate" where
  "set_lock l k = k\<lparr>k_sched := (k_sched k)\<lparr>run_process_spinlock := l\<rparr>\<rparr>"

definition release_lock :: "'f kstate \<Rightarrow> 'f kstate" where
  "release_lock k = set_lock (spinlock_unlock (run_process_spinlock (k_sched k))) k"

definition write_mem :: "u64 \<Rightarrow> bytes \<Rightarrow> mem \<Rightarrow> mem" where
  "write_mem p bs m x = (if unat (x - p) < length bs then bs ! unat (x - p) else m x)"

definition k_free :: "'f kstate \<Rightarrow> 'f kstate option" where
  "k_free k = do { h \<leftarrow> kh_free (sheap (k_sched k)); Some (k\<lparr>k_sched := (k_sched k)\<lparr>sheap := h\<rparr>\<rparr>) }"

definition k_alloc :: "nat \<Rightarrow> 'f kstate \<Rightarrow> (u64 \<times> 'f kstate) option" where
  "k_alloc n k = do { (a, s) \<leftarrow> alloc_block n (k_sched k); Some (a, k\<lparr>k_sched := s, k_mem := (if a = 0 then k_mem k else write_mem a (replicate n 0) (k_mem k))\<rparr>) }"

definition make_task :: "u64 \<Rightarrow> u64 \<Rightarrow> u64 \<Rightarrow> bytes \<Rightarrow> 'f kstate \<Rightarrow> (int \<times> task_struct \<times> 'f kstate) option" where
  "make_task switch_to_user elf task pathname k =
     (if k_mem k (elf + 4) = ELFCLASS32 then Some (make_elf32_task, fresh_task, k)
      else if k_mem k (elf + 4) = ELFCLASS64 then
        if task = 0 then None
        else do {
          (ret, u) \<leftarrow> make_elf64_task switch_to_user (k_mem k) elf pathname
            \<lparr>u_vm = (k_vm k)\<lparr>page_alloc_bitmap := frames (k_sched k)\<rparr>, u_sched = k_sched k, u_task = fresh_task\<rparr>;
          Some (ret, u_task u, k\<lparr>k_vm := u_vm u, k_sched := (u_sched u)\<lparr>frames := page_alloc_bitmap (u_vm u)\<rparr>\<rparr>) }
      else Some (- 1, fresh_task, k))"

definition run_process_err :: "nat \<Rightarrow> int \<Rightarrow> 'f kstate \<Rightarrow> (int \<times> 'f kstate) option" where
  "run_process_err c fd k = do {
     (_, k) \<leftarrow> on_vfs (\<lambda>s. sys_close s fd) k;
     k \<leftarrow> k_free k;
     Some (- 1, set_irq c True (release_lock k)) }"

definition run_process :: "nat \<Rightarrow> u64 \<Rightarrow> bytes \<Rightarrow> 'f kstate \<Rightarrow> (int \<times> 'f kstate) option" where
  "run_process c switch_to_user pathname k = do {
     let k = set_irq c False k;
     l \<leftarrow> spinlock_lock 0 (run_process_spinlock (k_sched k));
     let k = set_lock l k;
     ((ret, sb), k) \<leftarrow> on_vfs (\<lambda>s. map_option (\<lambda>(r, sb, s). ((r, sb), s)) (sys_stat s pathname)) k;
     if ret < 0 then Some (- 1, set_irq c True k)
     else do {
     st_size \<leftarrow> sb;
     (elf, k) \<leftarrow> k_alloc st_size k;
     if elf = 0 then Some (- 1, set_irq c True k)
     else do {
     (fd, k) \<leftarrow> on_vfs (\<lambda>s. sys_open s pathname FA_READ) k;
     if fd < 0 then run_process_err c fd k
     else do {
     (task, k) \<leftarrow> k_alloc 192 k;
     ((_, data), k) \<leftarrow> on_vfs (\<lambda>s. map_option (\<lambda>(r, d, s). ((r, d), s)) (sys_read s fd st_size)) k;
     let k = k\<lparr>k_mem := write_mem elf data (k_mem k)\<rparr>;
     (ret, x, k) \<leftarrow> make_task switch_to_user elf task pathname k;
     if ret < 0 then run_process_err c fd k
     else do {
     (_, k) \<leftarrow> on_vfs (\<lambda>s. sys_close s fd) k;
     k \<leftarrow> k_free k;
     if task = 0 then None
     else do {
     let t = next_task (k_sched k);
     s \<leftarrow> sched_enqueue_balanced t ((k_sched k)\<lparr>tasks := (tasks (k_sched k))(t \<mapsto> x), next_task := Suc t\<rparr>);
     Some (0, set_irq c True (release_lock (k\<lparr>k_sched := s\<rparr>))) }}}}}}"


section \<open>Bytes of a page\<close>

definition byte_at :: "vm_state \<Rightarrow> u64 \<Rightarrow> nat \<Rightarrow> u8" where
  "byte_at s f x = get_byte (x mod 8) (pmem s f (x div 8))"

lemma get_set_byte: "k < 8 \<Longrightarrow> j < 8 \<Longrightarrow> get_byte j (set_byte k b w) = (if j = k then b else get_byte j w)"
proof (rule bit_word_eqI)
  fix i
  assume a: "k < 8" "j < 8" "i < LENGTH(8)"
  define M :: u64 where "M = 0xFF"
  have "M = mask 8" by (simp add: M_def mask_eq_exp_minus_1)
  then have m: "bit M n \<longleftrightarrow> n < 8" for n by (simp only: bit_mask_iff) auto
  have "8 * j + i < 64" using a by simp
  moreover have "8 * k \<le> 8 * j + i \<and> 8 * j + i - 8 * k < 8 \<longleftrightarrow> j = k" using a by auto
  ultimately show "bit (get_byte j (set_byte k b w)) i = bit (if j = k then b else get_byte j w) i"
    using a unfolding get_byte_def set_byte_def M_def [symmetric] by (auto simp: bit_simps m bit_ucast_iff dest: bit_imp_le_length)
qed

lemma store8_page:
  assumes "leaf s (path va) = Some e" "va AND 0xFFF = 0" "x < 4096"
  shows "store8 s (va + of_nat x) b = Some (put_frame s (frame_of e) ((pmem s (frame_of e))(x div 8 := set_byte (x mod 8) b (pmem s (frame_of e) (x div 8)))))"
  using assms(1) page_byte [OF assms(2,3)] by (simp add: store8_def translate_leaf put_frame_def)

lemma load8_page:
  assumes "leaf s (path va) = Some e" "va AND 0xFFF = 0" "x < 4096"
  shows "load8 s (va + of_nat x) = Some (byte_at s (frame_of e) x)"
  using assms(1) page_byte [OF assms(2,3)] by (simp add: load8_def translate_leaf byte_at_def)

lemma byte_at_put: "byte_at (put_frame s f ((pmem s f)(x div 8 := set_byte (x mod 8) b (pmem s f (x div 8))))) g y = (if g = f \<and> y = x then b else byte_at s g y)"
proof -
  have "y = x \<longleftrightarrow> y div 8 = x div 8 \<and> y mod 8 = x mod 8" by (metis div_mult_mod_eq)
  then show ?thesis by (auto simp: byte_at_def get_set_byte)
qed

text \<open>\<open>memcpy\<close> to consecutive mapped pages.\<close>

definition backs :: "nat set \<Rightarrow> vm_state \<Rightarrow> u64 \<Rightarrow> nat \<Rightarrow> (nat \<Rightarrow> u64) \<Rightarrow> bool" where
  "backs R s va n l \<longleftrightarrow> (\<forall>k < n. leaf_path R (path (page_at va k)) \<and> page_at va k AND 0xFFF = 0 \<and> leaf s (path (page_at va k)) = Some (l k) \<and> data_frame R s (frame_of (l k))) \<and>
     inj_on (\<lambda>k. frame_of (l k)) {..<n}"

lemma backs_same: "same_tables R s t \<Longrightarrow> backs R s va n l \<Longrightarrow> backs R t va n l"
  using same_tables_leaf [of R s t] data_frame_same [of R s t] by (simp add: backs_def)

lemma byte_index: "dst + of_nat i = page_at dst (i div 4096) + of_nat (i mod 4096)"
proof -
  have "of_nat i = (of_nat (i div 4096 * 4096 + i mod 4096) :: u64)" by simp
  then show ?thesis unfolding page_at_def by (simp only: of_nat_add of_nat_mult) simp
qed

lemma copy_in_spec:
  assumes "backs R s dst k l" "n \<le> 4096 * k"
  obtains t where "copy_in m dst src n s = Some t" "same_tables R s t" "\<forall>f. f \<notin> (\<lambda>i. frame_of (l i)) ` {..<k} \<longrightarrow> pmem t f = pmem s f"
    "\<forall>i < 4096 * k. byte_at t (frame_of (l (i div 4096))) (i mod 4096) = (if i < n then m (src + of_nat i) else byte_at s (frame_of (l (i div 4096))) (i mod 4096))"
proof -
  have "\<exists>t. copy_in m dst src n s = Some t \<and> same_tables R s t \<and> (\<forall>f. f \<notin> (\<lambda>i. frame_of (l i)) ` {..<k} \<longrightarrow> pmem t f = pmem s f) \<and>
    (\<forall>i < 4096 * k. byte_at t (frame_of (l (i div 4096))) (i mod 4096) = (if i < n then m (src + of_nat i) else byte_at s (frame_of (l (i div 4096))) (i mod 4096)))"
    using assms(2)
  proof (induction n)
    case (Suc n)
    obtain t where t: "copy_in m dst src n s = Some t" "same_tables R s t" "\<forall>f. f \<notin> (\<lambda>i. frame_of (l i)) ` {..<k} \<longrightarrow> pmem t f = pmem s f"
      "\<forall>i < 4096 * k. byte_at t (frame_of (l (i div 4096))) (i mod 4096) = (if i < n then m (src + of_nat i) else byte_at s (frame_of (l (i div 4096))) (i mod 4096))"
      using Suc.IH Suc.prems by auto
    let ?q = "n div 4096" and ?x = "n mod 4096"
    let ?f = "frame_of (l ?q)"
    have q: "?q < k" using Suc.prems by (simp add: less_mult_imp_div_less)
    have H: "leaf_path R (path (page_at dst ?q))" "page_at dst ?q AND 0xFFF = 0" "leaf t (path (page_at dst ?q)) = Some (l ?q)" "data_frame R t ?f"
      using backs_same [OF t(2) assms(1)] q by (simp_all add: backs_def)
    let ?u = "put_frame t ?f ((pmem t ?f)(?x div 8 := set_byte (?x mod 8) (m (src + of_nat n)) (pmem t ?f (?x div 8))))"
    have st: "store8 t (dst + of_nat n) (m (src + of_nat n)) = Some ?u" unfolding byte_index [of dst n] by (rule store8_page [OF H(3,2)]) simp
    have "copy_in m dst src (Suc n) s = Some ?u" using t(1) st by (simp add: copy_in_def)
    moreover have "same_tables R s ?u" by (rule same_tables_trans [OF t(2) same_tables_put]) (use H(4) in \<open>simp add: data_frame_def\<close>)
    moreover have "pmem ?u f = pmem s f" if "f \<notin> (\<lambda>i. frame_of (l i)) ` {..<k}" for f using t(3) that q by auto
    moreover have "byte_at ?u (frame_of (l (i div 4096))) (i mod 4096) = (if i < Suc n then m (src + of_nat i) else byte_at s (frame_of (l (i div 4096))) (i mod 4096))" if i: "i < 4096 * k" for i
    proof -
      have "i div 4096 < k" using i by (simp add: less_mult_imp_div_less)
      then have "frame_of (l (i div 4096)) = ?f \<longleftrightarrow> i div 4096 = ?q" using assms(1) q by (auto simp: backs_def inj_on_def)
      moreover have "i = n \<longleftrightarrow> i div 4096 = ?q \<and> i mod 4096 = ?x" by (metis div_mult_mod_eq)
      ultimately show ?thesis unfolding byte_at_put using t(4) i by (auto simp: less_Suc_eq)
    qed
    ultimately show ?case by blast
  qed (simp add: copy_in_def)
  then show thesis using that by blast
qed

section \<open>Runs of free frames\<close>

definition has_run :: "bitmap_t \<Rightarrow> nat \<Rightarrow> bool" where
  "has_run b n \<longleftrightarrow> (\<exists>p. p + n \<le> bmp_size b \<and> free_run b p n)"

lemma has_run_free_count: "has_run b n \<Longrightarrow> n \<le> free_count b"
proof -
  assume "has_run b n"
  then obtain p where p: "p + n \<le> bmp_size b" "free_run b p n" by (auto simp: has_run_def)
  have "{p..<p + n} \<subseteq> {k. k < bmp_size b \<and> \<not> bitmap_test b k}" using p free_run_free [OF p(2)] by auto
  then have "card {p..<p + n} \<le> free_count b" unfolding free_count_def by (intro card_mono) auto
  then show ?thesis by simp
qed

lemma has_run_block:
  assumes "has_run b n" "c \<le> n" "0 < c" "\<forall>q < p. \<not> free_run b q c" "bmp_size b' = bmp_size b" "\<forall>j. bitmap_test b' j \<longleftrightarrow> bitmap_test b j \<or> (p \<le> j \<and> j < p + c)"
  shows "has_run b' (n - c)"
proof -
  obtain a where a: "a + n \<le> bmp_size b" "free_run b a n" using assms(1) by (auto simp: has_run_def)
  have "free_run b a c" using a(2) assms(2) by (simp add: free_run_def)
  then have "p \<le> a" using assms(4) by (metis not_le)
  then have "free_run b' (a + c) (n - c)" using a(2) assms(2,6) by (auto simp: free_run_def add.assoc)
  then show ?thesis using a(1) assms(2,5) by (auto simp: has_run_def intro!: exI [of _ "a + c"])
qed

lemma has_run_low_fill:
  assumes "has_run b n" "bmp_size b' = bmp_size b" "\<And>j. bitmap_test b j \<Longrightarrow> bitmap_test b' j" "low_fill b b'" "free_count b - c \<le> free_count b'"
  shows "has_run b' (n - c)"
proof -
  obtain a where a: "a + n \<le> bmp_size b" "free_run b a n" using assms(1) by (auto simp: has_run_def)
  define U where "U = {k \<in> {a..<a + n}. bitmap_test b' k}"
  let ?F = "{k. k < bmp_size b \<and> \<not> bitmap_test b k}" and ?F' = "{k. k < bmp_size b' \<and> \<not> bitmap_test b' k}"
  have fin: "finite U" by (simp add: U_def)
  have "U \<subseteq> ?F" "U \<inter> ?F' = {}" "?F' \<subseteq> ?F" using a free_run_free [OF a(2)] assms(2,3) by (auto simp: U_def)
  then have "card U + card ?F' \<le> card ?F" using fin card_Un_disjoint [of U ?F'] card_mono [of ?F "U \<union> ?F'"] by simp
  then have u: "card U \<le> c" using assms(5) by (simp add: free_count_def)
  have free: "\<not> bitmap_test b' k" if "a + card U \<le> k" "k < a + n" for k
  proof
    assume k: "bitmap_test b' k"
    have nk: "\<not> bitmap_test b k" using free_run_free [OF a(2), of k] that by simp
    have "j \<in> U" if "j \<in> {a..k}" for j
    proof (cases "j = k")
      case False
      then have "bitmap_test b' j" using assms(4) k nk that unfolding low_fill_def by (metis atLeastAtMost_iff le_neq_implies_less)
      then show ?thesis using that \<open>k < a + n\<close> by (simp add: U_def)
    qed (use k that \<open>k < a + n\<close> in \<open>simp add: U_def\<close>)
    then have "card {a..k} \<le> card U" using fin by (intro card_mono) auto
    then show False using that by simp
  qed
  have "\<not> bitmap_test b' (a + card U + i)" if "i < n - c" for i by (rule free) (use that u in simp_all)
  then have "free_run b' (a + card U) (n - c)" by (simp add: free_run_def)
  moreover have "card U \<le> n" using card_mono [of "{a..<a + n}" U] unfolding U_def by fastforce
  ultimately show ?thesis using a(1) u assms(2) unfolding has_run_def by (intro exI [of _ "a + card U"]) simp
qed

section \<open>Mapping a block of frames\<close>

lemma map_block:
  assumes wf: "pt_wf R s" and n: "0 < n" "n \<le> 2 ^ order" "order < 31" and run: "has_run (page_alloc_bitmap s) (2 ^ order + 3 * n + y)"
    and pages: "\<forall>i < n. unat (tbl_idx 39 (page_at va i)) \<in> R \<and> leaf s (path (page_at va i)) = None \<and> page_at va i AND 0xFFF = 0"
    and inj: "inj_on (\<lambda>i. path (page_at va i)) {..<n}"
  obtains k b t where "alloc_pages (page_alloc_bitmap s) order = Some (page_addr k, b)" "map_page_range (s\<lparr>page_alloc_bitmap := b\<rparr>) (page_addr k) va 7 n = Some (int n, t)"
    "pt_wf R t" "enlarges R s t" "has_run (page_alloc_bitmap t) y" "backs R t va n (\<lambda>i. page_addr (k + i) OR MAP_USER_RW)"
    "\<forall>i < n. k + i < 2 ^ 31 \<and> \<not> bitmap_test (page_alloc_bitmap s) (k + i)"
    "\<forall>q. leaf_path R q \<longrightarrow> q \<notin> (\<lambda>i. path (page_at va i)) ` {..<n} \<longrightarrow> leaf t q = leaf s q"
proof -
  let ?b = "page_alloc_bitmap s" and ?c = "2 ^ order :: nat"
  have sz: "bmp_size ?b < 2 ^ 31" using wf by (simp add: pt_wf_def)
  have c: "?c < 2 ^ 31" "0 < ?c" using power_strict_increasing [OF n(3), of "2 :: nat"] by simp_all
  have n31: "n < 2 ^ 31" using n(2) c(1) by simp
  obtain p where p: "p + (?c + 3 * n + y) \<le> bmp_size ?b" "free_run ?b p (?c + 3 * n + y)" using run by (auto simp: has_run_def)
  have p': "p + ?c \<le> bmp_size ?b" "free_run ?b p ?c" using p by (simp_all add: free_run_def)
  have o: "order < 64" "?c \<le> bmp_size ?b" using n(3) p'(1) by auto
  obtain k b where A: "alloc_pages ?b order = Some (page_addr k, b)" "k + ?c \<le> bmp_size ?b" "free_run ?b k ?c" "\<forall>q < k. \<not> free_run ?b q ?c"
      "bmp_size b = bmp_size ?b" "\<forall>j. bitmap_test b j \<longleftrightarrow> bitmap_test ?b j \<or> (k \<le> j \<and> j < k + ?c)"
    by (rule_tac alloc_pages_cases [OF sz o]) (use p' in blast)+
  let ?s = "s\<lparr>page_alloc_bitmap := b\<rparr>"
  have mono: "\<And>j. bitmap_test ?b j \<Longrightarrow> bitmap_test b j" using A(6) by simp
  have wf': "pt_wf R ?s" by (rule pt_wf_grow [OF wf A(5) mono])
  have run': "has_run b (3 * n + y)" using has_run_block [OF run _ c(2) A(4,5,6)] by (simp add: algebra_simps)
  have fc: "3 * n \<le> free_count (page_alloc_bitmap ?s)" using has_run_free_count [OF run'] by simp
  have fl: "flags_ok 7" by (simp add: flags_ok_def)
  have un: "\<forall>i < n. unat (tbl_idx 39 (page_at va i)) \<in> R \<and> leaf ?s (path (page_at va i)) = None" using pages by simp
  obtain t where T: "map_page_range ?s (page_addr k) va 7 n = Some (int n, t)" "pt_wf R t"
    "\<forall>i < n. leaf t (path (page_at va i)) = Some ((page_at (page_addr k) i AND NOT 0xFFF) OR 7 OR 1)"
    "\<forall>q. leaf_path R q \<longrightarrow> q \<notin> (\<lambda>i. path (page_at va i)) ` {..<n} \<longrightarrow> leaf t q = leaf ?s q" "extends R ?s t" "free_count (page_alloc_bitmap ?s) - 3 * n \<le> free_count (page_alloc_bitmap t)"
    by (rule map_page_range_full [OF wf' fl n31 fc un])
  have g: "enlarges R s t" by (rule enlarges_trans [OF enlarges_alloc [OF A(5) mono] extendsD(1) [OF T(5)]])
  have "has_run (page_alloc_bitmap t) (3 * n + y - 3 * n)"
    by (rule has_run_low_fill [OF run']) (use T(5,6) in \<open>auto simp: extends_def enlarges_def\<close>)
  moreover have new: "k + i < 2 ^ 31 \<and> \<not> bitmap_test ?b (k + i) \<and> bitmap_test b (k + i)" if "i < n" for i
    using free_run_free [OF A(3), of "k + i"] A(2,6) that n(2) sz by auto
  moreover have e: "(page_at (page_addr k) i AND NOT 0xFFF) OR 7 OR 1 = page_addr (k + i) OR MAP_USER_RW" for i
    unfolding page_at_page_addr page_addr_base by (simp add: MAP_USER_RW_def)
  have "backs R t va n (\<lambda>i. page_addr (k + i) OR MAP_USER_RW)"
  proof -
    have fr: "frame_of (page_addr (k + i) OR MAP_USER_RW) = of_nat (k + i)" "unat (of_nat (k + i) :: u64) = k + i" if "i < n" for i
      using user_entry(1) [of "k + i"] new [OF that] unat_of_nat_small [of "k + i"] by (simp_all del: of_nat_add)
    have "data_frame R ?s (of_nat (k + i))" if "i < n" for i
      using new [OF that] fr(2) [OF that] pt_wf_table_used [OF wf, of "of_nat (k + i)"] by (auto simp: data_frame_def simp del: of_nat_add)
    then have "data_frame R t (of_nat (k + i))" if "i < n" for i using data_frame_enlarges [OF extendsD(1) [OF T(5)]] that by blast
    moreover have "inj_on (\<lambda>i. frame_of (page_addr (k + i) OR MAP_USER_RW)) {..<n}"
      by (rule inj_onI) (metis add_left_cancel fr lessThan_iff)
    ultimately show ?thesis using T(3) pages fr(1) leaf_path_path unfolding backs_def e by simp
  qed
  ultimately show thesis using that [OF A(1) T(1,2) g] T(4) by simp
qed

section \<open>Sizes of segments\<close>

lemma page_floor: "w AND NOT 0xFFF = (of_nat (unat w div 4096 * 4096) :: u64)"
proof -
  have "w AND NOT 0xFFF = push_bit 12 (drop_bit 12 w)"
    by (rule bit_word_eqI) (auto simp: low_mask bit_simps simp del: mask_numeral)
  moreover have "unat (push_bit 12 (drop_bit 12 w)) = unat w div 4096 * 4096"
  proof -
    have "unat w div 4096 * 4096 < 2 ^ 64" using unsigned_less [where 'a = nat, of w] by (simp add: div_times_less_eq_dividend le_less_trans)
    then show ?thesis by (simp add: push_bit_eq_mult drop_bit_eq_div unat_word_ariths unat_div)
  qed
  ultimately show ?thesis by (metis of_nat_unat ucast_id)
qed

lemma align_up: "ALIGN_UP z (of_nat PAGE_SIZE) = of_nat (unat (z + 0x1000) div 4096 * 4096)"
  using page_floor [of "z + 0x1000"] by (simp add: ALIGN_UP_def PAGE_SIZE_def)

lemma segment_size:
  assumes "unat (p_memsz ph) < 2 ^ 63"
  shows "segment_pages ph = unat (p_memsz ph) div 4096 + 1" "unat (ALIGN_UP (p_memsz ph) (of_nat PAGE_SIZE)) = segment_pages ph * 4096"
proof -
  have "unat (p_memsz ph + of_nat 4096) = unat (p_memsz ph) + 4096" by (rule unat_add_of_nat) (use assms in simp)
  moreover have "(unat (p_memsz ph) + 4096) div 4096 = unat (p_memsz ph) div 4096 + 1" by simp
  ultimately have a: "ALIGN_UP (p_memsz ph) (of_nat PAGE_SIZE) = of_nat ((unat (p_memsz ph) div 4096 + 1) * 4096)"
    unfolding align_up by (simp only: of_nat_numeral)
  have "unat (p_memsz ph) div 4096 < 2 ^ 51" using assms by (simp add: less_mult_imp_div_less)
  then have b: "(unat (p_memsz ph) div 4096 + 1) * 4096 < 2 ^ 64" by simp
  have u: "unat (ALIGN_UP (p_memsz ph) (of_nat PAGE_SIZE)) = (unat (p_memsz ph) div 4096 + 1) * 4096" unfolding a using b by (intro unat_of_nat_small) simp
  then show "segment_pages ph = unat (p_memsz ph) div 4096 + 1" by (simp add: segment_pages_def drop_bit_eq_div unat_div PAGE_SHIFT_def)
  with u show "unat (ALIGN_UP (p_memsz ph) (of_nat PAGE_SIZE)) = segment_pages ph * 4096" by simp
qed

lemma behind_segment:
  assumes "p_vaddr ph AND 0xFFF = 0" "unat (p_vaddr ph) + unat (p_memsz ph) + 4096 < 2 ^ 64" "unat (p_memsz ph) < 2 ^ 63"
  shows "ALIGN_UP (p_vaddr ph + p_memsz ph) (of_nat PAGE_SIZE) = page_at (p_vaddr ph) (segment_pages ph)"
proof -
  have "take_bit 12 (p_vaddr ph) = 0" using assms(1) by (simp add: take_bit_eq_mask low_mask del: mask_numeral)
  then have "take_bit 12 (unat (p_vaddr ph)) = 0" by (metis unsigned_0 unsigned_take_bit_eq)
  then obtain q where q: "unat (p_vaddr ph) = 4096 * q" by (auto simp: take_bit_eq_mod)
  have "unat (p_vaddr ph + of_nat (unat (p_memsz ph) + 4096)) = unat (p_vaddr ph) + (unat (p_memsz ph) + 4096)" by (rule unat_add_of_nat) (use assms(2) in simp)
  then have u: "unat (p_vaddr ph + p_memsz ph + 0x1000) = 4096 * q + (unat (p_memsz ph) + 4096)" using q by (simp add: add.assoc)
  have "(4096 * q + (unat (p_memsz ph) + 4096)) div 4096 = q + segment_pages ph" using segment_size(1) [OF assms(3)] by simp
  then have "ALIGN_UP (p_vaddr ph + p_memsz ph) (of_nat PAGE_SIZE) = of_nat ((q + segment_pages ph) * 4096)" unfolding align_up u by (simp only:)
  also have "\<dots> = of_nat (unat (p_vaddr ph)) + of_nat (segment_pages ph) * 0x1000" unfolding q by (simp add: algebra_simps)
  finally show ?thesis by (simp add: page_at_def)
qed

lemma segment_order:
  assumes "unat (p_memsz ph) < 2 ^ 32"
  defines "order \<equiv> size_to_order (unat (ALIGN_UP (p_memsz ph) (of_nat PAGE_SIZE)))"
  shows "order < 31" "segment_pages ph \<le> 2 ^ order" "2 ^ order \<le> 2 * segment_pages ph"
proof -
  have m: "unat (p_memsz ph) < 2 ^ 63" using assms(1) by simp
  note S = segment_size [OF m]
  have n: "0 < segment_pages ph" "segment_pages ph \<le> 2 ^ 20" using S(1) assms(1) by (auto simp: less_mult_imp_div_less Suc_le_eq)
  have o: "order < 64" "segment_pages ph \<le> 2 ^ order" "order \<noteq> 0 \<longrightarrow> 2 ^ (order - 1) < segment_pages ph"
    using size_to_order_spec [of "segment_pages ph * 4096"] n unfolding order_def S(2) by (auto simp: PAGE_SIZE_def)
  show "segment_pages ph \<le> 2 ^ order" by (rule o(2))
  show "2 ^ order \<le> 2 * segment_pages ph" using o(3) n(1) by (cases order) simp_all
  then have "(2 :: nat) ^ order \<le> 2 ^ 21" using n(2) by simp
  then show "order < 31" using power_le_imp_le_exp [of "2 :: nat" order 21] by simp
qed

section \<open>Loading the segments\<close>

definition good_heap :: "sched \<Rightarrow> bool" where
  "good_heap sc \<longleftrightarrow> roomy (sheap sc) \<and> (\<forall>k. alloc_at sc k \<noteq> 0)"

lemma good_heap_alloc: "good_heap sc \<Longrightarrow> 0 < n \<Longrightarrow> \<exists>a sc'. alloc_block n sc = Some (a, sc') \<and> a \<noteq> 0 \<and> good_heap sc'"
  using kh_alloc_roomy [of "sheap sc" n] by (auto simp: good_heap_def alloc_block_def)

lemma has_run_mono: "has_run b n \<Longrightarrow> m \<le> n \<Longrightarrow> has_run b m"
  unfolding has_run_def free_run_def by (meson add_le_mono dual_order.trans le_refl less_le_trans)

lemma enlarges_fresh:
  assumes "enlarges R s v" "same_tables R v t" "\<And>f. bitmap_test (page_alloc_bitmap s) (unat f) \<Longrightarrow> pmem t f = pmem v f"
  shows "enlarges R s t"
  using assms same_tables_frames [OF assms(2)] unfolding enlarges_def by (auto simp: same_tables_def)

lemma load_segment_spec:
  assumes wf: "pt_wf R (u_vm u)" and sz: "unat (p_memsz ph) < 2 ^ 32" "p_filesz ph \<le> p_memsz ph" and heap: "good_heap (u_sched u)"
    and run: "has_run (page_alloc_bitmap (u_vm u)) (5 * segment_pages ph + y)"
    and pages: "\<forall>i < segment_pages ph. unat (tbl_idx 39 (page_at (p_vaddr ph) i)) \<in> R \<and> leaf (u_vm u) (path (page_at (p_vaddr ph) i)) = None \<and> page_at (p_vaddr ph) i AND 0xFFF = 0"
  obtains t sc ls l where "load_segment m elf ph u = Some (u\<lparr>u_vm := t, u_sched := sc, u_task := (u_task u)\<lparr>ls_addr := ls\<rparr>\<rparr>)" "good_heap sc"
    "pt_wf R t" "enlarges R (u_vm u) t" "has_run (page_alloc_bitmap t) y" "backs R t (p_vaddr ph) (segment_pages ph) l"
    "\<forall>i < segment_pages ph. \<not> bitmap_test (page_alloc_bitmap (u_vm u)) (unat (frame_of (l i)))"
    "\<forall>i < unat (p_filesz ph). byte_at t (frame_of (l (i div 4096))) (i mod 4096) = m (elf + p_offset ph + of_nat i)"
    "\<forall>q. leaf_path R q \<longrightarrow> q \<notin> (\<lambda>i. path (page_at (p_vaddr ph) i)) ` {..<segment_pages ph} \<longrightarrow> leaf t q = leaf (u_vm u) q"
proof -
  let ?n = "segment_pages ph" and ?o = "size_to_order (unat (ALIGN_UP (p_memsz ph) (of_nat PAGE_SIZE)))"
  have m63: "unat (p_memsz ph) < 2 ^ 63" using sz(1) by simp
  note S = segment_size [OF m63] and O = segment_order [OF sz(1)]
  have n: "0 < ?n" "?n \<le> 2 ^ 20" using S(1) sz(1) by (auto simp: less_mult_imp_div_less Suc_le_eq)
  have run': "has_run (page_alloc_bitmap (u_vm u)) (2 ^ ?o + 3 * ?n + y)" by (rule has_run_mono [OF run]) (use O(3) in simp)
  have inj: "inj_on (\<lambda>i. path (page_at (p_vaddr ph) i)) {..<?n}" by (rule inj_onI, rule path_page_at_inj) (use n(2) in auto)
  obtain k b v where V: "alloc_pages (page_alloc_bitmap (u_vm u)) ?o = Some (page_addr k, b)" "map_page_range ((u_vm u)\<lparr>page_alloc_bitmap := b\<rparr>) (page_addr k) (p_vaddr ph) 7 ?n = Some (int ?n, v)"
    "pt_wf R v" "enlarges R (u_vm u) v" "has_run (page_alloc_bitmap v) y" "backs R v (p_vaddr ph) ?n (\<lambda>i. page_addr (k + i) OR MAP_USER_RW)"
    "\<forall>i < ?n. k + i < 2 ^ 31 \<and> \<not> bitmap_test (page_alloc_bitmap (u_vm u)) (k + i)"
    "\<forall>q. leaf_path R q \<longrightarrow> q \<notin> (\<lambda>i. path (page_at (p_vaddr ph) i)) ` {..<?n} \<longrightarrow> leaf v q = leaf (u_vm u) q"
    by (rule map_block [OF wf n(1) O(2,1) run' pages inj])
  let ?l = "\<lambda>i. page_addr (k + i) OR MAP_USER_RW"
  have "unat (p_filesz ph) \<le> unat (p_memsz ph)" using sz(2) by (simp add: word_le_nat_alt)
  then have fz: "unat (p_filesz ph) \<le> 4096 * ?n" unfolding S(1) by (simp add: dividend_less_times_div le_less_trans less_imp_le)
  obtain t where T: "copy_in m (p_vaddr ph) (elf + p_offset ph) (unat (p_filesz ph)) v = Some t" "same_tables R v t" "\<forall>f. f \<notin> (\<lambda>i. frame_of (?l i)) ` {..<?n} \<longrightarrow> pmem t f = pmem v f"
    "\<forall>i < 4096 * ?n. byte_at t (frame_of (?l (i div 4096))) (i mod 4096) = (if i < unat (p_filesz ph) then m (elf + p_offset ph + of_nat i) else byte_at v (frame_of (?l (i div 4096))) (i mod 4096))"
    by (rule copy_in_spec [OF V(6) fz])
  have new: "\<not> bitmap_test (page_alloc_bitmap (u_vm u)) (unat (frame_of (?l i)))" if "i < ?n" for i
  proof -
    have "k + i < 2 ^ 31" "\<not> bitmap_test (page_alloc_bitmap (u_vm u)) (k + i)" using V(7) that by blast+
    then show ?thesis using user_entry(1) [of "k + i"] unat_of_nat_small [of "k + i"] by (simp del: of_nat_add)
  qed
  have "f \<notin> (\<lambda>i. frame_of (?l i)) ` {..<?n}" if "bitmap_test (page_alloc_bitmap (u_vm u)) (unat f)" for f using new that by blast
  then have "enlarges R (u_vm u) t" by (intro enlarges_fresh [OF V(4) T(2)]) (use T(3) in blast)
  moreover obtain a sc where A: "alloc_block 24 (u_sched u) = Some (a, sc)" "a \<noteq> 0" "good_heap sc" using good_heap_alloc [OF heap, of 24] by auto
  have "load_segment m elf ph u = Some (u\<lparr>u_vm := t, u_sched := sc, u_task := (u_task u)\<lparr>ls_addr := ls_addr (u_task u) @ [(page_addr k, ?o)]\<rparr>\<rparr>)"
    using V(1,2) T(1) A(1,2) by (simp add: load_segment_def Let_def)
  moreover have "pt_wf R t" by (rule same_tables_wf [OF V(3) T(2)])
  moreover have "has_run (page_alloc_bitmap t) y" using V(5) T(2) by (simp add: same_tables_def)
  moreover have "backs R t (p_vaddr ph) ?n ?l" by (rule backs_same [OF T(2) V(6)])
  moreover have "leaf t q = leaf (u_vm u) q" if "leaf_path R q" "q \<notin> (\<lambda>i. path (page_at (p_vaddr ph) i)) ` {..<?n}" for q
    using same_tables_leaf [OF T(2) that(1)] V(8) that by simp
  moreover have "byte_at t (frame_of (?l (i div 4096))) (i mod 4096) = m (elf + p_offset ph + of_nat i)" if "i < unat (p_filesz ph)" for i
    using T(4) that fz by simp
  ultimately show thesis using that [where t = t and sc = sc and l = ?l] new A(3) by blast
qed

text \<open>The place of a program: pages that lie under one page table, in a slot of the lower half that is not the one of the windows.\<close>

definition area :: "nat set \<Rightarrow> u64 \<Rightarrow> nat \<Rightarrow> bool" where
  "area R start n \<longleftrightarrow> start AND 0xFFF = 0 \<and> unat (tbl_idx 12 start) + n \<le> 512 \<and> unat (tbl_idx 39 start) \<in> R \<and> unat (tbl_idx 39 start) < 256 \<and> unat (tbl_idx 39 start) \<noteq> 224"

lemma area_page:
  assumes "area R start n" "k < n"
  shows "unat (tbl_idx 39 (page_at start k)) \<in> R" "leaf_path R (path (page_at start k))" "page_at start k AND 0xFFF = 0"
proof -
  have "unat (tbl_idx 12 start) + k < 512" using assms by (simp add: area_def)
  note i = page_indices [OF _ this]
  show "unat (tbl_idx 39 (page_at start k)) \<in> R" using i(4) assms(1) by (simp add: area_def)
  then show "leaf_path R (path (page_at start k))" by (rule leaf_path_path)
  show "page_at start k AND 0xFFF = 0" using i(5) assms(1) by (simp add: area_def)
qed

lemma area_inj: "area R start n \<Longrightarrow> j < n \<Longrightarrow> k < n \<Longrightarrow> path (page_at start j) = path (page_at start k) \<longleftrightarrow> j = k"
  using path_page_at_inj [of start j k] by (auto simp: area_def)

text \<open>The segments to load, in adjacent pages from page \<open>k\<close> of the program on, as the loader assumes.\<close>

definition segments :: "elf64_phdr list \<Rightarrow> elf64_phdr list" where
  "segments phs = filter (\<lambda>ph. p_type ph = PT_LOAD) phs"

definition pages_of :: "elf64_phdr list \<Rightarrow> nat" where
  "pages_of phs = sum_list (map segment_pages (segments phs))"

fun adjacent :: "u64 \<Rightarrow> nat \<Rightarrow> elf64_phdr list \<Rightarrow> bool" where
  "adjacent start k [] = True"
| "adjacent start k (ph # phs) \<longleftrightarrow> p_vaddr ph = page_at start k \<and> p_vaddr ph < KERNEL_BASE \<and> p_filesz ph \<le> p_memsz ph \<and> unat (p_memsz ph) < 2 ^ 32 \<and>
     adjacent start (k + segment_pages ph) phs"

text \<open>The bytes of the segments are in the frames \<open>l\<close>.\<close>

fun segment_bytes :: "mem \<Rightarrow> u64 \<Rightarrow> vm_state \<Rightarrow> (nat \<Rightarrow> u64) \<Rightarrow> nat \<Rightarrow> elf64_phdr list \<Rightarrow> bool" where
  "segment_bytes m elf s l k [] = True"
| "segment_bytes m elf s l k (ph # phs) \<longleftrightarrow>
     (\<forall>i < unat (p_filesz ph). byte_at s (frame_of (l (k + i div 4096))) (i mod 4096) = m (elf + p_offset ph + of_nat i)) \<and> segment_bytes m elf s l (k + segment_pages ph) phs"

lemma segment_simps [simp]:
  "segments [] = []" "pages_of [] = 0"
  "segments (ph # phs) = (if p_type ph = PT_LOAD then ph # segments phs else segments phs)"
  "pages_of (ph # phs) = (if p_type ph = PT_LOAD then segment_pages ph + pages_of phs else pages_of phs)"
  by (simp_all add: segments_def pages_of_def)

lemma backs_append:
  assumes "backs R s va k l" "backs R s (page_at va k) n l'" "\<forall>i < k. \<forall>j < n. frame_of (l i) \<noteq> frame_of (l' j)"
  shows "backs R s va (k + n) (\<lambda>i. if i < k then l i else l' (i - k))"
proof -
  let ?l = "\<lambda>i. if i < k then l i else l' (i - k)"
  have "leaf_path R (path (page_at va i)) \<and> page_at va i AND 0xFFF = 0 \<and> leaf s (path (page_at va i)) = Some (?l i) \<and> data_frame R s (frame_of (?l i))" if "i < k + n" for i
  proof (cases "i < k")
    case True
    then show ?thesis using assms(1) by (simp add: backs_def)
  next
    case False
    then have "i - k < n" "page_at (page_at va k) (i - k) = page_at va i" using that by (auto simp: page_at_add)
    then show ?thesis using assms(2) False unfolding backs_def by auto
  qed
  moreover have "inj_on (\<lambda>i. frame_of (?l i)) {..<k + n}"
  proof (rule inj_onI)
    fix i j
    assume a: "i \<in> {..<k + n}" "j \<in> {..<k + n}" "frame_of (?l i) = frame_of (?l j)"
    have i1: "i = j" if "i < k" "j < k" "frame_of (l i) = frame_of (l j)" using assms(1) that by (auto simp: backs_def inj_on_def)
    have i2: "i - k = j - k" if "\<not> i < k" "\<not> j < k" "frame_of (l' (i - k)) = frame_of (l' (j - k))"
      using assms(2) that a(1,2) by (auto simp: backs_def inj_on_def)
    show "i = j"
    proof (cases "i < k"; cases "j < k")
      assume "i < k" "\<not> j < k"
      moreover from this have "j - k < n" using a(2) by auto
      ultimately show ?thesis using a(3) assms(3) by simp
    next
      assume "\<not> i < k" "j < k"
      moreover from this have "i - k < n" using a(1) by auto
      ultimately show ?thesis using a(3) assms(3) [rule_format, of j "i - k"] by simp
    qed (use a i1 i2 in auto)
  qed
  ultimately show ?thesis by (simp add: backs_def)
qed

lemma segment_bytes_cong:
  assumes "segment_bytes m elf s l k phs" "\<And>i. k \<le> i \<Longrightarrow> i < k + sum_list (map segment_pages phs) \<Longrightarrow> l' i = l i \<and> pmem t (frame_of (l i)) = pmem s (frame_of (l i))"
    and "\<forall>ph \<in> set phs. unat (p_memsz ph) < 2 ^ 32 \<and> p_filesz ph \<le> p_memsz ph"
  shows "segment_bytes m elf t l' k phs"
  using assms
proof (induction phs arbitrary: k)
  case (Cons ph phs)
  have sz: "unat (p_filesz ph) \<le> 4096 * segment_pages ph" using segment_size(1) [of ph] Cons.prems(3)
    by (auto simp: word_le_nat_alt dividend_less_times_div le_less_trans less_imp_le)
  have "byte_at t (frame_of (l' (k + i div 4096))) (i mod 4096) = m (elf + p_offset ph + of_nat i)" if "i < unat (p_filesz ph)" for i
  proof -
    have "i < segment_pages ph * 4096" using that sz by simp
    then have "i div 4096 < segment_pages ph" by (rule less_mult_imp_div_less)
    then have "l' (k + i div 4096) = l (k + i div 4096) \<and> pmem t (frame_of (l (k + i div 4096))) = pmem s (frame_of (l (k + i div 4096)))" using Cons.prems(2) [of "k + i div 4096"] by simp
    then show ?thesis using Cons.prems(1) that by (simp add: byte_at_def)
  qed
  moreover have "segment_bytes m elf t l' (k + segment_pages ph) phs"
    by (rule Cons.IH) (use Cons.prems in auto)
  ultimately show ?case by simp
qed simp

lemma backs_enlarges:
  assumes "enlarges R s t" "backs R s va k l" "\<And>i. i < k \<Longrightarrow> leaf t (path (page_at va i)) = leaf s (path (page_at va i))"
  shows "backs R t va k l"
  using assms(2,3) data_frame_enlarges [OF assms(1)] by (simp add: backs_def)

lemma adjacent_sizes: "adjacent start k phs \<Longrightarrow> \<forall>ph \<in> set phs. unat (p_memsz ph) < 2 ^ 32 \<and> p_filesz ph \<le> p_memsz ph"
  by (induction phs arbitrary: k) auto

text \<open>One segment, loaded behind the \<open>k\<close> pages that are already there.\<close>

lemma load_step:
  assumes ar: "area R start n" and wf: "pt_wf R (u_vm u)" and H: "backs R (u_vm u) start k l" and ph: "p_vaddr ph = page_at start k" "unat (p_memsz ph) < 2 ^ 32" "p_filesz ph \<le> p_memsz ph"
    and k: "k + segment_pages ph \<le> n" and vacant: "\<forall>j. k \<le> j \<and> j < n \<longrightarrow> leaf (u_vm u) (path (page_at start j)) = None"
    and run: "has_run (page_alloc_bitmap (u_vm u)) (5 * segment_pages ph + y)" and heap: "good_heap (u_sched u)"
  obtains t sc ls l' where "load_segment m elf ph u = Some (u\<lparr>u_vm := t, u_sched := sc, u_task := (u_task u)\<lparr>ls_addr := ls\<rparr>\<rparr>)" "good_heap sc"
    "pt_wf R t" "enlarges R (u_vm u) t" "has_run (page_alloc_bitmap t) y" "backs R t start (k + segment_pages ph) l'" "\<forall>i < k. l' i = l i"
    "\<forall>i < unat (p_filesz ph). byte_at t (frame_of (l' (k + i div 4096))) (i mod 4096) = m (elf + p_offset ph + of_nat i)"
    "\<forall>q. leaf_path R q \<longrightarrow> (\<forall>j. k \<le> j \<and> j < k + segment_pages ph \<longrightarrow> q \<noteq> path (page_at start j)) \<longrightarrow> leaf t q = leaf (u_vm u) q"
proof -
  let ?p = "segment_pages ph"
  have pg: "page_at (p_vaddr ph) i = page_at start (k + i)" for i by (simp add: ph(1) page_at_add)
  have "\<forall>i < ?p. unat (tbl_idx 39 (page_at (p_vaddr ph) i)) \<in> R \<and> leaf (u_vm u) (path (page_at (p_vaddr ph) i)) = None \<and> page_at (p_vaddr ph) i AND 0xFFF = 0"
    unfolding pg using area_page [OF ar] vacant k by simp
  from load_segment_spec [OF wf ph(2,3) heap run this]
  obtain t sc ls g where T: "load_segment m elf ph u = Some (u\<lparr>u_vm := t, u_sched := sc, u_task := (u_task u)\<lparr>ls_addr := ls\<rparr>\<rparr>)" "good_heap sc"
    "pt_wf R t" "enlarges R (u_vm u) t" "has_run (page_alloc_bitmap t) y" "backs R t (p_vaddr ph) ?p g"
    "\<forall>i < ?p. \<not> bitmap_test (page_alloc_bitmap (u_vm u)) (unat (frame_of (g i)))"
    "\<forall>i < unat (p_filesz ph). byte_at t (frame_of (g (i div 4096))) (i mod 4096) = m (elf + p_offset ph + of_nat i)"
    "\<forall>q. leaf_path R q \<longrightarrow> q \<notin> (\<lambda>i. path (page_at (p_vaddr ph) i)) ` {..<?p} \<longrightarrow> leaf t q = leaf (u_vm u) q"
    by metis
  have same: "leaf t q = leaf (u_vm u) q" if "leaf_path R q" "\<And>j. k \<le> j \<Longrightarrow> j < k + ?p \<Longrightarrow> q \<noteq> path (page_at start j)" for q
  proof -
    note ne = that(2)
    have "q \<noteq> path (page_at (p_vaddr ph) i)" if "i < ?p" for i unfolding pg using ne [of "k + i"] that by simp
    then show ?thesis using T(9) that(1) by blast
  qed
  have "backs R t start k l"
  proof (rule backs_enlarges [OF T(4) H])
    fix i
    assume i: "i < k"
    then show "leaf t (path (page_at start i)) = leaf (u_vm u) (path (page_at start i))"
      using k area_page(2) [OF ar] area_inj [OF ar] by (intro same) auto
  qed
  moreover have "frame_of (l i) \<noteq> frame_of (g j)" if "i < k" "j < ?p" for i j
    using H T(7) that by (metis data_frame_def backs_def)
  ultimately have h: "backs R t start (k + ?p) (\<lambda>i. if i < k then l i else g (i - k))" using T(6) unfolding ph(1) by (intro backs_append) auto
  show thesis by (rule that [OF T(1-5) h]) (use T(8) same in auto)
qed

text \<open>The loop, from a state in which \<open>k\<close> pages of the program are there.\<close>

lemma load_loop_spec:
  assumes "area R start n" "pt_wf R (u_vm u)" "backs R (u_vm u) start k l" "adjacent start k (segments phs)" "k + pages_of phs \<le> n"
    "\<forall>j. k \<le> j \<and> j < n \<longrightarrow> leaf (u_vm u) (path (page_at start j)) = None" "has_run (page_alloc_bitmap (u_vm u)) (5 * pages_of phs + y)" "good_heap (u_sched u)"
  shows "\<exists>prev' t sc ls l'. load_loop m elf phs prev u = Some (Inr (prev', u\<lparr>u_vm := t, u_sched := sc, u_task := (u_task u)\<lparr>ls_addr := ls\<rparr>\<rparr>)) \<and>
    (if segments phs = [] then prev' = prev else \<exists>v z. prev' = Some (v, z) \<and> ALIGN_UP (v + z) (of_nat PAGE_SIZE) = page_at start (k + pages_of phs)) \<and>
    good_heap sc \<and> pt_wf R t \<and> enlarges R (u_vm u) t \<and> has_run (page_alloc_bitmap t) y \<and> backs R t start (k + pages_of phs) l' \<and> (\<forall>i < k. l' i = l i) \<and>
    segment_bytes m elf t l' k (segments phs) \<and>
    (\<forall>q. leaf_path R q \<longrightarrow> (\<forall>j. k \<le> j \<and> j < k + pages_of phs \<longrightarrow> q \<noteq> path (page_at start j)) \<longrightarrow> leaf t q = leaf (u_vm u) q)"
  using assms
proof (induction phs arbitrary: u k l prev)
  case Nil
  have "u = u\<lparr>u_vm := u_vm u, u_sched := u_sched u, u_task := (u_task u)\<lparr>ls_addr := ls_addr (u_task u)\<rparr>\<rparr>" by simp
  then show ?case using Nil.prems by (intro exI [of _ prev] exI [of _ "u_vm u"] exI [of _ "u_sched u"] exI [of _ "ls_addr (u_task u)"] exI [of _ l]) (simp add: enlarges_refl)
next
  case (Cons ph phs)
  show ?case
  proof (cases "p_type ph = PT_LOAD")
    case False
    then have e: "segments (ph # phs) = segments phs" "pages_of (ph # phs) = pages_of phs" "load_loop m elf (ph # phs) prev u = load_loop m elf phs prev u" by simp_all
    show ?thesis unfolding e by (rule Cons.IH [OF Cons.prems [unfolded e]])
  next
    case True
    let ?p = "segment_pages ph"
    have A: "p_vaddr ph = page_at start k" "p_vaddr ph < KERNEL_BASE" "p_filesz ph \<le> p_memsz ph" "unat (p_memsz ph) < 2 ^ 32" "adjacent start (k + ?p) (segments phs)" "k + ?p \<le> n"
      "has_run (page_alloc_bitmap (u_vm u)) (5 * ?p + (5 * pages_of phs + y))"
      using Cons.prems(4,5,7) True by (auto simp: algebra_simps)
    obtain t sc ls l' where T: "load_segment m elf ph u = Some (u\<lparr>u_vm := t, u_sched := sc, u_task := (u_task u)\<lparr>ls_addr := ls\<rparr>\<rparr>)" "good_heap sc"
      "pt_wf R t" "enlarges R (u_vm u) t" "has_run (page_alloc_bitmap t) (5 * pages_of phs + y)" "backs R t start (k + ?p) l'" "\<forall>i < k. l' i = l i"
      "\<forall>i < unat (p_filesz ph). byte_at t (frame_of (l' (k + i div 4096))) (i mod 4096) = m (elf + p_offset ph + of_nat i)"
      "\<forall>q. leaf_path R q \<longrightarrow> (\<forall>j. k \<le> j \<and> j < k + ?p \<longrightarrow> q \<noteq> path (page_at start j)) \<longrightarrow> leaf t q = leaf (u_vm u) q"
      by (rule load_step [OF Cons.prems(1-3) A(1,4,3,6) Cons.prems(6) A(7) Cons.prems(8), of m elf])
    let ?u = "u\<lparr>u_vm := t, u_sched := sc, u_task := (u_task u)\<lparr>ls_addr := ls\<rparr>\<rparr>"
    have vac: "\<forall>j. k + ?p \<le> j \<and> j < n \<longrightarrow> leaf (u_vm ?u) (path (page_at start j)) = None"
      using T(9) Cons.prems(6) area_page(2) [OF Cons.prems(1)] area_inj [OF Cons.prems(1)] A(6) by simp
    have IH: "\<exists>prev' t' sc' ls' l''. load_loop m elf phs (Some (p_vaddr ph, p_memsz ph)) ?u = Some (Inr (prev', ?u\<lparr>u_vm := t', u_sched := sc', u_task := (u_task ?u)\<lparr>ls_addr := ls'\<rparr>\<rparr>)) \<and>
      (if segments phs = [] then prev' = Some (p_vaddr ph, p_memsz ph) else \<exists>v z. prev' = Some (v, z) \<and> ALIGN_UP (v + z) (of_nat PAGE_SIZE) = page_at start (k + ?p + pages_of phs)) \<and>
      good_heap sc' \<and> pt_wf R t' \<and> enlarges R (u_vm ?u) t' \<and> has_run (page_alloc_bitmap t') y \<and> backs R t' start (k + ?p + pages_of phs) l'' \<and> (\<forall>i < k + ?p. l'' i = l' i) \<and>
      segment_bytes m elf t' l'' (k + ?p) (segments phs) \<and>
      (\<forall>q. leaf_path R q \<longrightarrow> (\<forall>j. k + ?p \<le> j \<and> j < k + ?p + pages_of phs \<longrightarrow> q \<noteq> path (page_at start j)) \<longrightarrow> leaf t' q = leaf (u_vm ?u) q)"
      by (rule Cons.IH [OF Cons.prems(1) _ _ A(5) _ vac]) (use T(2,3,5,6) Cons.prems(5) True in \<open>simp_all add: algebra_simps\<close>)
    then obtain prev' t' sc' ls' l'' where I: "load_loop m elf phs (Some (p_vaddr ph, p_memsz ph)) ?u = Some (Inr (prev', ?u\<lparr>u_vm := t', u_sched := sc', u_task := (u_task ?u)\<lparr>ls_addr := ls'\<rparr>\<rparr>))"
      "if segments phs = [] then prev' = Some (p_vaddr ph, p_memsz ph) else \<exists>v z. prev' = Some (v, z) \<and> ALIGN_UP (v + z) (of_nat PAGE_SIZE) = page_at start (k + ?p + pages_of phs)"
      "good_heap sc'" "pt_wf R t'" "enlarges R t t'" "has_run (page_alloc_bitmap t') y" "backs R t' start (k + ?p + pages_of phs) l''" "\<forall>i < k + ?p. l'' i = l' i"
      "segment_bytes m elf t' l'' (k + ?p) (segments phs)"
      "\<forall>q. leaf_path R q \<longrightarrow> (\<forall>j. k + ?p \<le> j \<and> j < k + ?p + pages_of phs \<longrightarrow> q \<noteq> path (page_at start j)) \<longrightarrow> leaf t' q = leaf t q"
      by (elim exE conjE) (rule that; simp)
    have "unat (p_vaddr ph) + unat (p_memsz ph) + 4096 < 2 ^ 64" using A(2,4) by (simp add: word_less_nat_alt KERNEL_BASE_def)
    then have "ALIGN_UP (p_vaddr ph + p_memsz ph) (of_nat PAGE_SIZE) = page_at start (k + ?p)"
      using behind_segment [of ph] area_page(3) [OF Cons.prems(1), of k] A(1,4,6) segment_size(1) [of ph] by (simp add: page_at_add)
    then have prev: "\<exists>v z. prev' = Some (v, z) \<and> ALIGN_UP (v + z) (of_nat PAGE_SIZE) = page_at start (k + (?p + pages_of phs))"
      using I(2) by (auto simp: add.assoc pages_of_def split: if_splits)
    have bytes: "byte_at t' (frame_of (l'' (k + i div 4096))) (i mod 4096) = m (elf + p_offset ph + of_nat i)" if "i < unat (p_filesz ph)" for i
    proof -
      have "i < segment_pages ph * 4096" using that A(3,4) segment_size(1) [of ph] by (auto simp: word_le_nat_alt dividend_less_times_div algebra_simps)
      then have j: "k + i div 4096 < k + ?p" by (simp add: less_mult_imp_div_less)
      then have "pmem t' (frame_of (l' (k + i div 4096))) = pmem t (frame_of (l' (k + i div 4096)))" using data_frame_enlarges [OF I(5)] T(6) unfolding backs_def by blast
      then show ?thesis using I(8) j T(8) that by (simp add: byte_at_def)
    qed
    have rest: "leaf t' q = leaf (u_vm u) q" if "leaf_path R q" "\<forall>j. k \<le> j \<and> j < k + (?p + pages_of phs) \<longrightarrow> q \<noteq> path (page_at start j)" for q
      using T(9) I(10) that by simp
    show ?thesis using True A(2) T(1,4,7) I bytes rest prev enlarges_trans [OF T(4) I(5)]
      by (intro exI [of _ prev'] exI [of _ t'] exI [of _ sc'] exI [of _ ls'] exI [of _ l'']) (simp add: add.assoc not_le)
  qed
qed

section \<open>Removing the mappings\<close>

text \<open>Unmapping pages \<open>k\<close> to \<open>k + p\<close> of the program.\<close>

definition unmapped :: "nat set \<Rightarrow> u64 \<Rightarrow> nat \<Rightarrow> nat \<Rightarrow> vm_state \<Rightarrow> vm_state \<Rightarrow> bool" where
  "unmapped R start k p s t \<longleftrightarrow> pt_wf R t \<and> enlarges R s t \<and> page_alloc_bitmap t = page_alloc_bitmap s \<and> pmem t (frame_of (vm_state.cr3 s)) = pmem s (frame_of (vm_state.cr3 s)) \<and>
     (\<forall>j. k \<le> j \<and> j < k + p \<longrightarrow> leaf t (path (page_at start j)) = None) \<and>
     (\<forall>q. leaf_path R q \<longrightarrow> (\<forall>j. k \<le> j \<and> j < k + p \<longrightarrow> q \<noteq> path (page_at start j)) \<longrightarrow> leaf t q = leaf s q)"

lemma unmapped_trans:
  assumes "area R start n" "k + p + p' \<le> n" "unmapped R start k p s t" "unmapped R start (k + p) p' t v"
  shows "unmapped R start k (p + p') s v"
proof -
  have "leaf v (path (page_at start j)) = None" if "k \<le> j" "j < k + (p + p')" for j
  proof (cases "j < k + p")
    case True
    then have "\<forall>i. k + p \<le> i \<and> i < k + p + p' \<longrightarrow> path (page_at start j) \<noteq> path (page_at start i)" using area_inj [OF assms(1), of j] assms(2) that by auto
    then have "leaf v (path (page_at start j)) = leaf t (path (page_at start j))" using assms(4) area_page(2) [OF assms(1), of j] that assms(2) by (simp add: unmapped_def)
    then show ?thesis using assms(3) True that by (simp add: unmapped_def)
  qed (use assms(4) that in \<open>simp add: unmapped_def\<close>)
  moreover have "leaf v q = leaf s q" if "leaf_path R q" "\<forall>j. k \<le> j \<and> j < k + (p + p') \<longrightarrow> q \<noteq> path (page_at start j)" for q
    using assms(3,4) that by (simp add: unmapped_def)
  moreover have "vm_state.cr3 t = vm_state.cr3 s" using assms(3) by (simp add: unmapped_def enlarges_def)
  ultimately show ?thesis using assms(3,4) enlarges_trans [of R s t v] by (simp add: unmapped_def)
qed

lemma unmap_block:
  assumes "area R start n" "k + p \<le> n" "pt_wf R s" "\<forall>j. k \<le> j \<and> j < k + p \<longrightarrow> leaf s (path (page_at start j)) \<noteq> None"
  obtains t where "unmap_page_range s (page_at start k) p = Some (int p, t)" "unmapped R start k p s t"
proof -
  have pg: "page_at (page_at start k) i = page_at start (k + i)" for i by (simp add: page_at_add)
  have "p < 2 ^ 31" using assms(1,2) by (simp add: area_def)
  moreover have "\<forall>i < p. unat (tbl_idx 39 (page_at (page_at start k) i)) \<in> R \<and> leaf s (path (page_at (page_at start k) i)) \<noteq> None"
    unfolding pg using area_page(1) [OF assms(1)] assms(2,4) by simp
  ultimately obtain t where t: "unmap_page_range s (page_at start k) p = Some (int p, t)" "pt_wf R t" "\<forall>i < p. leaf t (path (page_at start (k + i))) = None"
    "\<forall>q. leaf_path R q \<longrightarrow> q \<notin> (\<lambda>i. path (page_at start (k + i))) ` {..<p} \<longrightarrow> leaf t q = leaf s q" "page_alloc_bitmap t = page_alloc_bitmap s" "extends R s t"
    "pmem t (frame_of (vm_state.cr3 s)) = pmem s (frame_of (vm_state.cr3 s))"
    using unmap_page_range_full [OF assms(3), of p "page_at start k"] unfolding pg by metis
  have "leaf t (path (page_at start j)) = None" if "k \<le> j" "j < k + p" for j
    using t(3) [rule_format, of "j - k"] that by simp
  moreover have "leaf t q = leaf s q" if "leaf_path R q" "\<forall>j. k \<le> j \<and> j < k + p \<longrightarrow> q \<noteq> path (page_at start j)" for q
  proof -
    have "q \<noteq> path (page_at start (k + i))" if "i < p" for i using \<open>\<forall>j. k \<le> j \<and> j < k + p \<longrightarrow> q \<noteq> path (page_at start j)\<close> that by simp
    then have "q \<notin> (\<lambda>i. path (page_at start (k + i))) ` {..<p}" by blast
    then show ?thesis using t(4) that(1) by blast
  qed
  ultimately have "unmapped R start k p s t" using t(2,5,6,7) extendsD(1) by (simp add: unmapped_def)
  then show thesis using that t(1) by blast
qed

lemma unload_loop_spec:
  assumes "area R start n" "pt_wf R s" "adjacent start k (segments phs)" "k + pages_of phs \<le> n" "\<forall>j. k \<le> j \<and> j < k + pages_of phs \<longrightarrow> leaf s (path (page_at start j)) \<noteq> None"
  shows "\<exists>t. unload_loop phs s = Some t \<and> unmapped R start k (pages_of phs) s t"
  using assms
proof (induction phs arbitrary: s k)
  case Nil
  then show ?case by (auto simp: unmapped_def enlarges_refl)
next
  case (Cons ph phs)
  show ?case
  proof (cases "p_type ph = PT_LOAD")
    case False
    then show ?thesis using Cons.IH [of s k] Cons.prems by simp
  next
    case True
    let ?p = "segment_pages ph"
    have A: "p_vaddr ph = page_at start k" "adjacent start (k + ?p) (segments phs)" "k + ?p \<le> n" "\<forall>j. k \<le> j \<and> j < k + ?p \<longrightarrow> leaf s (path (page_at start j)) \<noteq> None"
      using Cons.prems(3-5) True by auto
    obtain t where t: "unmap_page_range s (page_at start k) ?p = Some (int ?p, t)" "unmapped R start k ?p s t" by (rule unmap_block [OF Cons.prems(1) A(3) Cons.prems(2) A(4)])
    have "leaf t (path (page_at start j)) \<noteq> None" if "k + ?p \<le> j" "j < k + ?p + pages_of phs" for j
    proof -
      have "\<forall>i. k \<le> i \<and> i < k + ?p \<longrightarrow> path (page_at start j) \<noteq> path (page_at start i)" using area_inj [OF Cons.prems(1), of j] Cons.prems(4) that True by auto
      then have "leaf t (path (page_at start j)) = leaf s (path (page_at start j))" using t(2) area_page(2) [OF Cons.prems(1), of j] that Cons.prems(4) True by (simp add: unmapped_def)
      then show ?thesis using Cons.prems(5) that True by simp
    qed
    then obtain v where v: "unload_loop phs t = Some v" "unmapped R start (k + ?p) (pages_of phs) t v"
      using Cons.IH [OF Cons.prems(1), of t "k + ?p"] t(2) A(2) Cons.prems(4) True by (auto simp: unmapped_def)
    moreover have "unmapped R start k (?p + pages_of phs) s v" by (rule unmapped_trans [OF Cons.prems(1) _ t(2) v(2)]) (use Cons.prems(4) True in simp)
    ultimately show ?thesis using t(1) A(1) True by simp
  qed
qed

section \<open>The whole program\<close>

definition program_fits :: "nat set \<Rightarrow> mem \<Rightarrow> u64 \<Rightarrow> nat \<Rightarrow> u64 \<Rightarrow> bool" where
  "program_fits R m elf n start \<longleftrightarrow> phdrs m elf \<noteq> [] \<and> p_type (hd (phdrs m elf)) = PT_LOAD \<and> start = p_vaddr (hd (phdrs m elf)) \<and>
     adjacent start 0 (segments (phdrs m elf)) \<and> n = pages_of (phdrs m elf) + 128 \<and> area R start n"

lemma ustack: "size_to_order (unat USTACK_SIZE) = 7" "unat (drop_bit PAGE_SHIFT USTACK_SIZE) = 128" "page_at start k + USTACK_SIZE = page_at start (k + 128)"
proof -
  show "size_to_order (unat USTACK_SIZE) = 7" using size_to_order_pow [of 7] by (simp add: USTACK_SIZE_def PAGE_SIZE_def)
  show "unat (drop_bit PAGE_SHIFT USTACK_SIZE) = 128" by (simp add: USTACK_SIZE_def PAGE_SHIFT_def drop_bit_eq_div unat_div)
  show "page_at start k + USTACK_SIZE = page_at start (k + 128)" by (simp add: page_at_def USTACK_SIZE_def algebra_simps)
qed

text \<open>Loading: the segments and the stack.\<close>

lemma load_program:
  assumes wf: "pt_wf R (u_vm u)" and fits: "program_fits R m elf n start" and vacant: "\<forall>j < n. leaf (u_vm u) (path (page_at start j)) = None"
    and run: "has_run (page_alloc_bitmap (u_vm u)) (8 * n + 13)" and heap: "good_heap (u_sched u)"
  obtains lv lz v0 sc ls ks b v l where
    "load_loop m elf (phdrs m elf) None u = Some (Inr (Some (lv, lz), u\<lparr>u_vm := v0, u_sched := sc, u_task := (u_task u)\<lparr>ls_addr := ls\<rparr>\<rparr>))"
    "ALIGN_UP (lv + lz) (of_nat PAGE_SIZE) = page_at start (n - 128)" "alloc_pages (page_alloc_bitmap v0) 7 = Some (page_addr ks, b)"
    "map_page_range (v0\<lparr>page_alloc_bitmap := b\<rparr>) (page_addr ks) (page_at start (n - 128)) 7 128 = Some (128, v)"
    "good_heap sc" "pt_wf R v" "has_run (page_alloc_bitmap v) (3 * n + 13)" "backs R v start n l" "segment_bytes m elf v l 0 (segments (phdrs m elf))"
    "\<forall>q. leaf_path R q \<longrightarrow> (\<forall>j < n. q \<noteq> path (page_at start j)) \<longrightarrow> leaf v q = leaf (u_vm u) q"
proof -
  let ?phs = "phdrs m elf"
  define P where "P = pages_of ?phs"
  have F: "?phs \<noteq> []" "p_type (hd ?phs) = PT_LOAD" "adjacent start 0 (segments ?phs)" "n = P + 128" "area R start n" using fits unfolding program_fits_def P_def by blast+
  have seg: "segments ?phs \<noteq> []" using F(1,2) by (cases ?phs) simp_all
  have run1: "has_run (page_alloc_bitmap (u_vm u)) (5 * pages_of ?phs + (2 ^ 7 + 3 * 128 + (3 * n + 13)))" by (rule has_run_mono [OF run]) (simp add: F(4) P_def)
  have "backs R (u_vm u) start 0 (\<lambda>_. 0)" by (simp add: backs_def)
  from load_loop_spec [OF F(5) wf this F(3) _ _ run1 heap, of m elf None]
  obtain prev v0 sc ls l0 where L: "load_loop m elf ?phs None u = Some (Inr (prev, u\<lparr>u_vm := v0, u_sched := sc, u_task := (u_task u)\<lparr>ls_addr := ls\<rparr>\<rparr>))"
    "\<exists>lv lz. prev = Some (lv, lz) \<and> ALIGN_UP (lv + lz) (of_nat PAGE_SIZE) = page_at start (n - 128)" "good_heap sc" "pt_wf R v0" "has_run (page_alloc_bitmap v0) (2 ^ 7 + 3 * 128 + (3 * n + 13))"
    "backs R v0 start P l0" "segment_bytes m elf v0 l0 0 (segments ?phs)" "\<forall>q. leaf_path R q \<longrightarrow> (\<forall>j < P. q \<noteq> path (page_at start j)) \<longrightarrow> leaf v0 q = leaf (u_vm u) q"
    using seg vacant F(4) by (auto simp: P_def)
  have pg: "page_at (page_at start P) i = page_at start (P + i)" for i by (simp add: page_at_add)
  have pages: "\<forall>i < 128. unat (tbl_idx 39 (page_at (page_at start P) i)) \<in> R \<and> leaf v0 (path (page_at (page_at start P) i)) = None \<and> page_at (page_at start P) i AND 0xFFF = 0"
    unfolding pg using area_page [OF F(5)] L(8) area_inj [OF F(5)] vacant F(4) by simp
  have inj: "inj_on (\<lambda>i. path (page_at (page_at start P) i)) {..<128}" by (rule inj_onI, rule path_page_at_inj) auto
  have side: "0 < (128 :: nat)" "(128 :: nat) \<le> 2 ^ 7" "(7 :: nat) < 31" by simp_all
  obtain ks b v where V: "alloc_pages (page_alloc_bitmap v0) 7 = Some (page_addr ks, b)" "map_page_range (v0\<lparr>page_alloc_bitmap := b\<rparr>) (page_addr ks) (page_at start P) 7 128 = Some (int 128, v)"
    "pt_wf R v" "enlarges R v0 v" "has_run (page_alloc_bitmap v) (3 * n + 13)" "backs R v (page_at start P) 128 (\<lambda>i. page_addr (ks + i) OR MAP_USER_RW)"
    "\<forall>i < 128. ks + i < 2 ^ 31 \<and> \<not> bitmap_test (page_alloc_bitmap v0) (ks + i)"
    "\<forall>q. leaf_path R q \<longrightarrow> q \<notin> (\<lambda>i. path (page_at (page_at start P) i)) ` {..<128} \<longrightarrow> leaf v q = leaf v0 q"
    by (rule map_block [OF L(4) side L(5) pages inj])
  let ?l = "\<lambda>i. if i < P then l0 i else page_addr (ks + (i - P)) OR MAP_USER_RW"
  have same: "leaf v q = leaf v0 q" if "leaf_path R q" "\<And>i. i < 128 \<Longrightarrow> q \<noteq> path (page_at start (P + i))" for q
    using V(8) that(1,2) unfolding pg by (metis (no_types, lifting) imageE lessThan_iff)
  have d: "data_frame R v0 (frame_of (l0 i))" if "i < P" for i using L(6) that by (simp add: backs_def)
  have b0: "backs R v start P l0"
    by (rule backs_enlarges [OF V(4) L(6)]) (use same area_page(2) [OF F(5)] area_inj [OF F(5)] F(4) in simp)
  have "frame_of (l0 i) \<noteq> frame_of (page_addr (ks + j) OR MAP_USER_RW)" if "i < P" "j < 128" for i j
  proof -
    have "ks + j < 2 ^ 31" "\<not> bitmap_test (page_alloc_bitmap v0) (ks + j)" using V(7) that(2) by blast+
    then show ?thesis using data_frame_not_free [OF d [OF that(1)], of "ks + j"] user_entry(1) [of "ks + j"] by auto
  qed
  then have bk: "backs R v start n ?l" unfolding F(4) by (intro backs_append b0 V(6)) simp
  have sb: "segment_bytes m elf v ?l 0 (segments ?phs)"
    by (rule segment_bytes_cong [OF L(7)]) (use data_frame_enlarges [OF V(4) d] adjacent_sizes [OF F(3)] in \<open>auto simp: P_def pages_of_def\<close>)
  have rest: "leaf v q = leaf (u_vm u) q" if "leaf_path R q" "\<forall>j < n. q \<noteq> path (page_at start j)" for q
    using same [OF that(1)] L(8) that F(4) by simp
  have P: "n - 128 = P" using F(4) by simp
  obtain lv lz where prev: "prev = Some (lv, lz)" "ALIGN_UP (lv + lz) (of_nat PAGE_SIZE) = page_at start (n - 128)" using L(2) by blast
  show thesis
    by (rule that [OF L(1) [unfolded prev(1)] prev(2) V(1) _ L(3) V(3,5) bk sb]) (use V(2) rest P in auto)
qed

lemma segment_bytes_load8:
  assumes "segment_bytes m elf s l k phs" "adjacent start k phs" "pmem u = pmem s"
    "\<And>i. i < k + sum_list (map segment_pages phs) \<Longrightarrow> \<exists>e. leaf u (path (page_at start i)) = Some e \<and> frame_of e = frame_of (l i) \<and> page_at start i AND 0xFFF = 0"
    "ph \<in> set phs" "i < unat (p_filesz ph)"
  shows "load8 u (p_vaddr ph + of_nat i) = Some (m (elf + p_offset ph + of_nat i))"
  using assms
proof (induction phs arbitrary: k)
  case (Cons p phs)
  show ?case
  proof (cases "ph = p")
    case True
    have A: "p_vaddr ph = page_at start k" "unat (p_memsz ph) < 2 ^ 32" "p_filesz ph \<le> p_memsz ph" using Cons.prems(2) True by simp_all
    have "i < segment_pages ph * 4096" using Cons.prems(6) A(2,3) segment_size(1) [of ph] by (auto simp: word_le_nat_alt dividend_less_times_div algebra_simps)
    then have "i div 4096 < segment_pages ph" by (rule less_mult_imp_div_less)
    then obtain e where e: "leaf u (path (page_at start (k + i div 4096))) = Some e" "frame_of e = frame_of (l (k + i div 4096))" "page_at start (k + i div 4096) AND 0xFFF = 0"
      using Cons.prems(4) [of "k + i div 4096"] True by auto
    have "p_vaddr ph + of_nat i = page_at start (k + i div 4096) + of_nat (i mod 4096)" using byte_index [of "p_vaddr ph" i] by (simp add: A(1) page_at_add)
    then have "load8 u (p_vaddr ph + of_nat i) = Some (byte_at s (frame_of (l (k + i div 4096))) (i mod 4096))"
      using load8_page [OF e(1,3), of "i mod 4096"] e(2) Cons.prems(3) by (simp add: byte_at_def)
    then show ?thesis using Cons.prems(1,6) True by simp
  next
    case False
    show ?thesis by (rule Cons.IH [of "k + segment_pages p"]) (use Cons.prems False in \<open>auto simp: add.assoc\<close>)
  qed
qed simp

lemma windows_free_kept:
  assumes "area R start n" "224 \<in> R" "windows_free n s" "\<forall>q. leaf_path R q \<longrightarrow> (\<forall>j < n. q \<noteq> path (page_at start j)) \<longrightarrow> leaf v q = leaf s q"
  shows "windows_free n v"
proof -
  have "leaf v (path (window k)) = None" if "k < 3 + n" for k
  proof -
    have k: "k < 1024" using that assms(1) by (simp add: area_def)
    have "path (window k) \<noteq> path (page_at start j)" if "j < n" for j
    proof -
      have "unat (tbl_idx 12 start) + j < 512" using assms(1) that by (simp add: area_def)
      then have "unat (tbl_idx 39 (page_at start j)) \<noteq> 224" using page_indices(4) [of start j] assms(1) by (simp add: area_def)
      then show ?thesis using window_slot [OF k] by (auto simp: path_def)
    qed
    then have "leaf v (path (window k)) = leaf s (path (window k))" using assms(4) leaf_path_path [of "window k" R] window_slot [OF k] assms(2) by simp
    then show ?thesis using assms(3) that by (simp add: windows_free_def)
  qed
  then show ?thesis by (simp add: windows_free_def)
qed

text \<open>Removing the mappings of the segments and of the stack.\<close>

lemma unload_program:
  assumes ar: "area R start n" and wf: "pt_wf R t" and adj: "adjacent start 0 (segments phs)" and n: "n = pages_of phs + 128" and all: "\<forall>j < n. leaf t (path (page_at start j)) \<noteq> None"
  obtains t1 w where "unload_loop phs t = Some t1" "unmap_page_range t1 (page_at start (n - 128)) 128 = Some (128, w)" "unmapped R start 0 n t w"
proof -
  let ?P = "pages_of phs"
  obtain t1 where t1: "unload_loop phs t = Some t1" "unmapped R start 0 ?P t t1" using unload_loop_spec [OF ar wf adj] n all by auto
  have "leaf t1 (path (page_at start j)) \<noteq> None" if "?P \<le> j" "j < ?P + 128" for j
  proof -
    have "\<forall>i. 0 \<le> i \<and> i < 0 + ?P \<longrightarrow> path (page_at start j) \<noteq> path (page_at start i)" using area_inj [OF ar, of j] n that by auto
    then have "leaf t1 (path (page_at start j)) = leaf t (path (page_at start j))" using t1(2) area_page(2) [OF ar, of j] that n unfolding unmapped_def by blast
    then show ?thesis using all that n by simp
  qed
  then obtain w where w: "unmap_page_range t1 (page_at start ?P) 128 = Some (int 128, w)" "unmapped R start ?P 128 t1 w"
    using unmap_block [OF ar, of ?P 128 t1] t1(2) n unfolding unmapped_def by auto
  have "unmapped R start 0 (?P + 128) t w" by (rule unmapped_trans [OF ar _ t1(2)]) (use w(2) n in simp_all)
  then show thesis using that t1(1) w(1) n by simp
qed

lemma first_header: "phdrs m elf \<noteq> [] \<Longrightarrow> phdr_at m (elf + e_phoff (ehdr_at m elf)) = hd (phdrs m elf)"
  by (simp add: phdrs_def hd_map hd_upt)

text \<open>The three phases of \<open>make_elf64_task\<close>.\<close>

lemma make_elf64_task_phases:
  assumes "load_loop m elf (phdrs m elf) None u = Some (Inr (Some (lv, lz), u1))" "ALIGN_UP (lv + lz) (of_nat PAGE_SIZE) = page_at start k" "alloc_pages (page_alloc_bitmap (u_vm u1)) 7 = Some (sp, b)"
    "map_page_range ((u_vm u1)\<lparr>page_alloc_bitmap := b\<rparr>) sp (page_at start k) 7 128 = Some (r, v)" "phdrs m elf \<noteq> []" "start = p_vaddr (hd (phdrs m elf))"
    "usertask_create sw (page_at start (k + 128)) start (e_entry (ehdr_at m elf)) 0 (u1\<lparr>u_vm := v\<rparr>) = Some (r', u2)"
    "unload_loop (phdrs m elf) (u_vm u2) = Some t1" "unmap_page_range t1 (page_at start k) 128 = Some (r'', w)"
  shows "make_elf64_task sw m elf name u = Some (0, u2\<lparr>u_vm := w,
    u_task := (u_task u2)\<lparr>stack_basephys := sp, stack_order := 7, t_flags := TASK_FLAGS_USER, t_status := TASK_READY, t_name := take 31 name\<rparr>\<rparr>)"
proof -
  have s: "page_at start (k + 128) - page_at start k = USTACK_SIZE" using ustack(3) [of start k] by (simp add: algebra_simps)
  have h: "p_vaddr (phdr_at m (elf + e_phoff (ehdr_at m elf))) = start" using first_header [OF assms(5)] assms(6) by simp
  show ?thesis
    unfolding make_elf64_task_def Let_def assms(1) bind.simps sum.case prod.case assms(2) ustack(3) s ustack(1,2) h using assms(3,4,7-9) by simp
qed

lemma make_elf64_task_spec:
  assumes wf: "pt_wf R (u_vm u)" and R: "224 \<in> R" and fits: "program_fits R m elf n start" and vacant: "\<forall>j < n. leaf (u_vm u) (path (page_at start j)) = None"
    and wfree: "windows_free n (u_vm u)" and run: "has_run (page_alloc_bitmap (u_vm u)) (8 * n + 13)" and heap: "good_heap (u_sched u)"
  obtains w ks l old g where "make_elf64_task sw m elf name u = Some (0, w)" "pml4 (u_task w) = page_addr (hd ks)" "t_rsp (u_task w) = page_at start n - sizeof_init_stack"
    "t_flags (u_task w) = TASK_FLAGS_USER" "t_status (u_task w) = TASK_READY" "t_name (u_task w) = take 31 name"
    "length ks = 4" "new_tables (u_vm w) start n l ks old" "pmem (u_vm w) (frame_of (l (n - 1))) = init_words (page_at start n) (e_entry (ehdr_at m elf)) sw 0 g"
    "segment_bytes m elf (u_vm w) l 0 (segments (phdrs m elf))" "pt_wf R (u_vm w)" "\<forall>q. leaf_path R q \<longrightarrow> leaf (u_vm w) q = leaf (u_vm u) q"
proof -
  have F: "phdrs m elf \<noteq> []" "start = p_vaddr (hd (phdrs m elf))" "adjacent start 0 (segments (phdrs m elf))" "n = pages_of (phdrs m elf) + 128" "area R start n" using fits unfolding program_fits_def by blast+
  obtain lv lz v0 sc ls ks b v l where L:
    "load_loop m elf (phdrs m elf) None u = Some (Inr (Some (lv, lz), u\<lparr>u_vm := v0, u_sched := sc, u_task := (u_task u)\<lparr>ls_addr := ls\<rparr>\<rparr>))"
    "ALIGN_UP (lv + lz) (of_nat PAGE_SIZE) = page_at start (n - 128)" "alloc_pages (page_alloc_bitmap v0) 7 = Some (page_addr ks, b)"
    "map_page_range (v0\<lparr>page_alloc_bitmap := b\<rparr>) (page_addr ks) (page_at start (n - 128)) 7 128 = Some (128, v)"
    "good_heap sc" "pt_wf R v" "has_run (page_alloc_bitmap v) (3 * n + 13)" "backs R v start n l" "segment_bytes m elf v l 0 (segments (phdrs m elf))"
    "\<forall>q. leaf_path R q \<longrightarrow> (\<forall>j < n. q \<noteq> path (page_at start j)) \<longrightarrow> leaf v q = leaf (u_vm u) q"
    by (rule load_program [OF wf fits vacant run heap])
  let ?u1 = "u\<lparr>u_vm := v0, u_sched := sc, u_task := (u_task u)\<lparr>ls_addr := ls\<rparr>\<rparr>" and ?top = "page_at start n"
  let ?u2 = "?u1\<lparr>u_vm := v\<rparr>"
  have ld: "loaded R v start n l" using L(8) F(4,5) by (simp add: loaded_def backs_def area_def)
  have fr: "3 * (3 + n) + 4 \<le> free_count (page_alloc_bitmap v)" using has_run_free_count [OF L(7)] by simp
  obtain base sc' where A: "alloc_block URSP0_SIZE sc = Some (base, sc')" using good_heap_alloc [OF L(5), of URSP0_SIZE] by (auto simp: URSP0_SIZE_def)
  obtain k4 k3 k2 k1 t where U:
    "usertask_create sw ?top start (e_entry (ehdr_at m elf)) 0 ?u2 = Some (0, ?u2\<lparr>u_vm := t, u_sched := sc', u_task := new_task base [k4, k3, k2, k1] ?top (u_task ?u2)\<rparr>)"
    "pt_wf R t" "vm_state.cr3 t = vm_state.cr3 (u_vm ?u2)" "\<forall>q. leaf_path R q \<longrightarrow> leaf t q = leaf (u_vm ?u2) q"
    "distinct [k4, k3, k2, k1]" "\<forall>k \<in> {k4, k3, k2, k1}. k < 2 ^ 31 \<and> \<not> bitmap_test (page_alloc_bitmap (u_vm ?u2)) k \<and> data_frame R t (of_nat k)"
    "pmem t (of_nat k4) = new_pml4 (pmem t (frame_of (vm_state.cr3 t))) (page_addr k4) (page_addr k3) (unat (tbl_idx 39 start)) (pmem (u_vm ?u2) (of_nat k4))"
    "pmem t (of_nat k3) (unat (tbl_idx 30 start)) = page_addr k2 OR MAP_USER_RW" "pmem t (of_nat k2) (unat (tbl_idx 21 start)) = page_addr k1 OR MAP_USER_RW"
    "\<forall>k < n. pmem t (of_nat k1) (unat (tbl_idx 12 start) + k) = (l k AND NOT 0xFFF) OR MAP_USER_RW"
    "pmem t (frame_of (l (n - 1))) = init_words ?top (e_entry (ehdr_at m elf)) sw 0 (pmem (u_vm ?u2) (frame_of (l (n - 1))))"
    "\<forall>f. data_frame R (u_vm ?u2) f \<longrightarrow> data_frame R t f \<and> (f \<noteq> frame_of (l (n - 1)) \<longrightarrow> pmem t f = pmem (u_vm ?u2) f)"
    by (rule usertask_create_spec [where u = ?u2, OF _ R]) (use L(6) ld fr A windows_free_kept [OF F(5) R wfree L(10)] in simp_all)
  have "\<forall>j < n. leaf t (path (page_at start j)) \<noteq> None" using U(4) loaded_page(1,4) [OF ld] by simp
  then obtain t1 w where W: "unload_loop (phdrs m elf) t = Some t1" "unmap_page_range t1 (page_at start (n - 128)) 128 = Some (128, w)" "unmapped R start 0 n t w"
    by (rule unload_program [OF F(5) U(2) F(3,4)])
  have keep: "pmem w f = pmem t f" if "data_frame R t f" for f using data_frame_enlarges [of R t w f] W(3) that by (simp add: unmapped_def)
  have cr: "vm_state.cr3 w = vm_state.cr3 t" "pmem w (frame_of (vm_state.cr3 w)) = pmem t (frame_of (vm_state.cr3 t))" using W(3) by (auto simp: unmapped_def enlarges_def)
  have K: "pmem w (of_nat k) = pmem t (of_nat k)" if "k \<in> {k4, k3, k2, k1}" for k using keep U(6) that by blast
  have T: "new_tables w start n l [k4, k3, k2, k1] (pmem v (of_nat k4))" using U(6-10) K cr(2) by (simp add: new_tables_def)
  have pg: "data_frame R v (frame_of (l i)) \<and> data_frame R t (frame_of (l i))" if "i < n" for i using loaded_page(5) [OF ld that] U(12) by simp
  have fw: "pmem w (frame_of (l (n - 1))) = init_words ?top (e_entry (ehdr_at m elf)) sw 0 (pmem v (frame_of (l (n - 1))))" using keep pg [of "n - 1"] U(11) F(4) by simp
  have "pmem w (frame_of (l i)) = pmem v (frame_of (l i))" if "i < pages_of (phdrs m elf)" for i
  proof -
    have i: "i \<noteq> n - 1" "i < n" "n - 1 < n" using that F(4) by auto
    have "inj_on (\<lambda>k. frame_of (l k)) {..<n}" using L(8) by (simp add: backs_def)
    from inj_onD [OF this, of i "n - 1"] have "frame_of (l i) \<noteq> frame_of (l (n - 1))" using i by auto
    then show ?thesis using U(12) pg [of i] keep that F(4) by simp
  qed
  then have sb: "segment_bytes m elf w l 0 (segments (phdrs m elf))"
    by (intro segment_bytes_cong [OF L(9)]) (use adjacent_sizes [OF F(3)] in \<open>auto simp: pages_of_def\<close>)
  have rest: "leaf w q = leaf (u_vm u) q" if "leaf_path R q" for q
  proof (cases "\<exists>j < n. q = path (page_at start j)")
    case True
    then show ?thesis using W(3) vacant by (auto simp: unmapped_def)
  next
    case False
    then show ?thesis using W(3) U(4) L(10) that by (simp add: unmapped_def)
  qed
  have top: "page_at start (n - 128 + 128) = ?top" using F(4) by simp
  let ?t = "(new_task base [k4, k3, k2, k1] ?top (u_task ?u2))\<lparr>stack_basephys := page_addr ks, stack_order := 7, t_flags := TASK_FLAGS_USER, t_status := TASK_READY, t_name := take 31 name\<rparr>"
  let ?w = "?u2\<lparr>u_vm := w, u_sched := sc', u_task := ?t\<rparr>"
  have "make_elf64_task sw m elf name u = Some (0, ?w)"
    using make_elf64_task_phases [OF L(1,2) _ _ F(1,2) _ _ W(2), of "page_addr ks" b 128 v sw 0 "?u2\<lparr>u_vm := t, u_sched := sc', u_task := new_task base [k4, k3, k2, k1] ?top (u_task ?u2)\<rparr>" name] L(3,4) U(1) W(1)
    unfolding top by simp
  then show thesis using that [of ?w "[k4, k3, k2, k1]" l "pmem v (of_nat k4)"] T fw sb rest W(3) by (simp add: new_task_def unmapped_def)
qed


text \<open>A program of one segment with two bytes.\<close>

definition sample_elf :: mem where
  "sample_elf = (\<lambda>_. 0)(26 := 0x40, 32 := 64, 56 := 1, 64 := 1, 72 := 120, 82 := 0x40, 96 := 2, 104 := 16, 120 := 0xEB, 121 := 0xFE)"

lemma sample_elf_headers:
  "e_entry (ehdr_at sample_elf 0) = 0x400000" "phdrs sample_elf 0 = [\<lparr>p_type = 1, p_flags = 0, p_offset = 120, p_vaddr = 0x400000, p_paddr = 0, p_filesz = 2, p_memsz = 16, p_align = 0\<rparr>]"
  by (simp_all add: ehdr_at_def phdrs_def phdr_at_def rd16_def rd32_def rd64_def sample_elf_def)

lemma sample_elf_fits: "program_fits {0, 224} sample_elf 0 129 0x400000"
proof -
  have "ALIGN_UP 16 (of_nat PAGE_SIZE) = 0x1000" by (simp add: ALIGN_UP_def PAGE_SIZE_def)
  then show ?thesis
    by (simp add: program_fits_def sample_elf_headers PT_LOAD_def area_def tbl_idx_unat KERNEL_BASE_def pages_of_def segments_def segment_pages_def PAGE_SHIFT_def drop_bit_eq_div unat_div)
qed

definition load_vm :: vm_state where
  "load_vm = small_vm\<lparr>page_alloc_bitmap := \<lparr>bmp_size = 2048, bmp_map = (\<lambda>w. if w = 0 then 3 else 0)\<rparr>\<rparr>"

lemma load_vm_used: "bitmap_test (page_alloc_bitmap load_vm) k \<longleftrightarrow> k < 2"
proof -
  have "(3 :: u64) = mask 2" by (simp add: mask_eq_exp_minus_1)
  then have b: "bit (3 :: u64) n \<longleftrightarrow> n < 2" for n by (simp only: bit_mask_iff) auto
  have v: "page_alloc_bitmap load_vm = \<lparr>bmp_size = 2048, bmp_map = (\<lambda>w. if w = 0 then 3 else 0)\<rparr>" by (simp add: load_vm_def)
  have "bit_at (page_alloc_bitmap load_vm) k \<longleftrightarrow> k div 64 = 0 \<and> k mod 64 < 2" by (simp only: v bit_at_def bitmap_t.simps b if_distrib [of "\<lambda>w. bit w _"]) (simp only: bit_0_eq bot_fun_def, simp)
  then show ?thesis using v by (cases "k < 64") (auto simp: bitmap_test_iff div_eq_0_iff)
qed

lemma load_vm:
  assumes "511 \<notin> R"
  shows "pt_wf R load_vm" "unat (tbl_idx 39 va) \<in> R \<Longrightarrow> leaf load_vm (path va) = None" "has_run (page_alloc_bitmap load_vm) 1045"
proof -
  have "page_alloc_bitmap load_vm = \<lparr>bmp_size = 2048, bmp_map = (\<lambda>w. if w = 0 then 3 else 0)\<rparr>" "load_vm = small_vm\<lparr>page_alloc_bitmap := page_alloc_bitmap load_vm\<rparr>"
    by (simp_all add: load_vm_def)
  then show "pt_wf R load_vm" "unat (tbl_idx 39 va) \<in> R \<Longrightarrow> leaf load_vm (path va) = None"
    using small_vm_with_bitmap [OF assms, where b = "page_alloc_bitmap load_vm"] load_vm_used [of 1] by simp_all
  show "has_run (page_alloc_bitmap load_vm) 1045"
    unfolding has_run_def by (intro exI [of _ 2]) (simp add: free_run_def load_vm_used, simp add: load_vm_def)
qed


section \<open>Starting a program\<close>

text \<open>
  Two of the error returns of \<open>run_process\<close>, for a file that cannot be found and for a file there is no memory for, leave its lock held: no later call returns.
\<close>

lemma run_process_lock_held:
  assumes "run_process_spinlock (k_sched k) \<noteq> 0"
  shows "run_process c sw p k = None"
  using spinlock_lock_held [of 0 "run_process_spinlock (k_sched k)"] assms by (simp add: run_process_def set_irq_def Let_def)

lemma run_process_stat_error:
  assumes "run_process_spinlock (k_sched k) = 0" "sys_stat ((k_vfs k)\<lparr>vheap := sheap (k_sched k)\<rparr>) p = Some (r, sb, v)" "r < 0"
  shows "\<exists>k'. run_process c sw p k = Some (- 1, k') \<and> irq_on (k_sched k') c \<and> (\<forall>c' sw' p'. run_process c' sw' p' k' = None)"
proof -
  let ?k = "k\<lparr>k_vfs := v, k_sched := (k_sched k)\<lparr>sheap := vheap v, irq_on := (irq_on (k_sched k))(c := True), run_process_spinlock := 1\<rparr>\<rparr>"
  have u: "(k_sched k)\<lparr>irq_on := i, run_process_spinlock := l, sheap := h, irq_on := j\<rparr> = (k_sched k)\<lparr>sheap := h, irq_on := j, run_process_spinlock := l\<rparr>" for i j l h
    by (cases "k_sched k") simp
  have "run_process c sw p k = Some (- 1, ?k)"
    using assms spinlock_lock_free [of 0] by (simp add: run_process_def on_vfs_def set_irq_def set_lock_def Let_def u)
  moreover have "run_process c' sw' p' ?k = None" for c' sw' p' by (rule run_process_lock_held) simp
  ultimately show ?thesis by (intro exI [of _ ?k]) simp
qed

lemma run_process_err_releases: "run_process_err c fd k = Some (r, k') \<Longrightarrow> run_process_spinlock (k_sched k') = 0 \<and> irq_on (k_sched k') c"
  by (auto simp: run_process_err_def set_irq_def release_lock_def set_lock_def spinlock_unlock_def atomic_store_def split: Option.bind_splits prod.splits)

text \<open>When it starts the program, the lock is free again and interrupts are on.\<close>

lemma run_process_started:
  assumes "run_process c sw p k = Some (0, k')"
  shows "run_process_spinlock (k_sched k') = 0 \<and> irq_on (k_sched k') c"
  using assms unfolding run_process_def Let_def
  by (auto simp: set_irq_def release_lock_def set_lock_def spinlock_unlock_def atomic_store_def dest: run_process_err_releases split: Option.bind_splits prod.splits if_splits)

end
