(* ===== verification/Tsc.thy ===== *)
theory Tsc
  imports Prelude
begin

text \<open>
  Time: the time stamp counter (\<open>src/src/tsc.c\<close>) and the waits on the tick counter (\<open>mdelay\<close> and \<open>sdelay\<close> of \<open>src/src/timer.c\<close>).

  Both counters are advanced from outside, the one by the processor and the other by the timer interrupt. The state therefore has the values they show at the instants at which the code looks at them,
  and the number of instants that have passed; nothing is assumed of the values. A busy wait looks again and again; if no later look shows the target it does not return. \<open>__cpuid\<close> is an argument, the
  four registers the processor gives for a leaf. A division by zero has no result. Console messages are left out.

  The lemmas say when a wait returns, what frequency \<open>tsc_init\<close> finds, and in which range and in which unit the readings are right.
\<close>

section \<open>The counters\<close>

record timebase =
  tsc_value :: "nat \<Rightarrow> u64"
  jiffies_value :: "nat \<Rightarrow> u64"
  instant :: nat
  tsc_freq_hz :: u64
  tsc_freq_khz :: u64
  invariant_tsc_supported :: u32

type_synonym cpuid = "u32 \<Rightarrow> u32 \<times> u32 \<times> u32 \<times> u32"

definition rdtsc :: "timebase \<Rightarrow> u64 \<times> timebase" where
  "rdtsc s = (tsc_value s (instant s), s\<lparr>instant := Suc (instant s)\<rparr>)"

definition rdtscp :: "timebase \<Rightarrow> u64 \<times> timebase" where
  "rdtscp s = (tsc_value s (instant s), s\<lparr>instant := Suc (instant s)\<rparr>)"

definition read_jiffies :: "timebase \<Rightarrow> u64 \<times> timebase" where
  "read_jiffies s = (jiffies_value s (instant s), s\<lparr>instant := Suc (instant s)\<rparr>)"

section \<open>Waiting for ticks\<close>

partial_function (option) wait_jiffies :: "u64 \<Rightarrow> timebase \<Rightarrow> timebase option" where
  "wait_jiffies target s = (let (j, s) = read_jiffies s in if j < target then wait_jiffies target s else Some s)"

definition mdelay :: "u32 \<Rightarrow> timebase \<Rightarrow> timebase option" where
  "mdelay ms s = (let (j, s) = read_jiffies s in wait_jiffies (j + ucast ms) s)"

definition sdelay :: "u32 \<Rightarrow> timebase \<Rightarrow> timebase option" where
  "sdelay sec s = (let (j, s) = read_jiffies s in wait_jiffies (j + ucast (sec * 1000)) s)"

section \<open>The frequency of the counter\<close>

definition tsc_calibrate_lapic :: "timebase \<Rightarrow> (u64 \<times> timebase) option" where
  "tsc_calibrate_lapic s = do {
     let (t1, s) = rdtsc s;
     s \<leftarrow> mdelay 500 s;
     let (t2, s) = rdtscp s;
     Some ((t2 - t1) * (1000 div 500), s) }"

definition tsc_freq_from_cpuid :: "cpuid \<Rightarrow> u64" where
  "tsc_freq_from_cpuid cpuid =
     (let (eax, ebx, ecx, edx) = cpuid 0x15
      in if eax \<noteq> 0 \<and> ebx \<noteq> 0 \<and> ecx \<noteq> 0 then (ucast ecx * ucast ebx) div ucast eax
         else let (eax, ebx, ecx, edx) = cpuid 0x16
              in if eax \<noteq> 0 then ucast (eax AND 0xFFFF) * 1000000 else 0)"

definition tsc_init :: "cpuid \<Rightarrow> timebase \<Rightarrow> (int \<times> timebase) option" where
  "tsc_init cpuid s =
     (let (eax, ebx, ecx, edx) = cpuid 0x80000007
      in if edx AND push_bit 8 1 = 0 then Some (- 1, s)
         else do {
           let s = s\<lparr>invariant_tsc_supported := 1\<rparr>;
           let s = s\<lparr>tsc_freq_hz := tsc_freq_from_cpuid cpuid\<rparr>;
           s \<leftarrow> if tsc_freq_hz s = 0 then do { (f, s) \<leftarrow> tsc_calibrate_lapic s; Some (s\<lparr>tsc_freq_hz := f\<rparr>) } else Some s;
           if tsc_freq_hz s = 0 then Some (- 1, s)
           else Some (0, s\<lparr>tsc_freq_khz := tsc_freq_hz s div 1000\<rparr>) })"

section \<open>Readings and waits\<close>

definition tsc_read :: "timebase \<Rightarrow> u64 \<times> timebase" where
  "tsc_read s = rdtsc s"

definition div_u64 :: "u64 \<Rightarrow> u64 \<Rightarrow> u64 option" where
  "div_u64 a b = (if b = 0 then None else Some (a div b))"

definition tsc_read_ns :: "timebase \<Rightarrow> (u64 \<times> timebase) option" where
  "tsc_read_ns s =
     (if invariant_tsc_supported s \<noteq> 0 then do { let (t, s) = rdtsc s; r \<leftarrow> div_u64 (t * 1000000000) (tsc_freq_hz s); Some (r, s) } else Some (0, s))"

definition tsc_read_us :: "timebase \<Rightarrow> (u64 \<times> timebase) option" where
  "tsc_read_us s =
     (if invariant_tsc_supported s \<noteq> 0 then do { let (t, s) = rdtsc s; r \<leftarrow> div_u64 t (tsc_freq_khz s); Some (r, s) } else Some (0, s))"

definition tsc_read_ms :: "timebase \<Rightarrow> (u64 \<times> timebase) option" where
  "tsc_read_ms s =
     (if invariant_tsc_supported s \<noteq> 0 then do { let (t, s) = rdtsc s; r \<leftarrow> div_u64 t (tsc_freq_khz s * 1000); Some (r, s) } else Some (0, s))"

partial_function (option) wait_tsc :: "u64 \<Rightarrow> timebase \<Rightarrow> timebase option" where
  "wait_tsc target s = (let (t, s) = rdtsc s in if t < target then wait_tsc target s else Some s)"

definition tsc_delay_us :: "u64 \<Rightarrow> timebase \<Rightarrow> timebase option" where
  "tsc_delay_us us s =
     (if invariant_tsc_supported s \<noteq> 0 then let (t, s) = rdtsc s in wait_tsc (t + us * tsc_freq_khz s) s else Some s)"

definition tsc_delay_ns :: "u64 \<Rightarrow> timebase \<Rightarrow> timebase option" where
  "tsc_delay_ns ns s =
     (if invariant_tsc_supported s \<noteq> 0 then let cycles = ns * tsc_freq_hz s div 1000000000; (t, s) = rdtsc s in wait_tsc (t + cycles) s else Some s)"

section \<open>When a wait returns\<close>

text \<open>A wait returns at the first look that shows the target, and only then.\<close>

definition first_look :: "(nat \<Rightarrow> u64) \<Rightarrow> u64 \<Rightarrow> nat \<Rightarrow> nat \<Rightarrow> bool" where
  "first_look f target i j \<longleftrightarrow> i \<le> j \<and> target \<le> f j \<and> (\<forall>k. i \<le> k \<and> k < j \<longrightarrow> f k < target)"

lemma first_look_exists: "i \<le> j \<Longrightarrow> target \<le> f j \<Longrightarrow> \<exists>k \<le> j. first_look f target i k"
proof (induction "j - i" arbitrary: i)
  case 0
  then show ?case by (intro exI [of _ j]) (auto simp: first_look_def)
next
  case (Suc d)
  show ?case
  proof (cases "target \<le> f i")
    case True
    then show ?thesis using Suc.prems by (intro exI [of _ i]) (auto simp: first_look_def)
  next
    case False
    have "d = j - Suc i" "Suc i \<le> j" using Suc.hyps(2) Suc.prems(1) by auto
    then obtain k where k: "k \<le> j" "first_look f target (Suc i) k" using Suc.hyps(1) [of "Suc i"] Suc.prems(2) by blast
    have "f m < target" if "i \<le> m" "m < k" for m using k(2) False that by (cases "m = i") (auto simp: first_look_def not_le)
    then have "first_look f target i k" using k(2) by (auto simp: first_look_def)
    then show ?thesis using k(1) by blast
  qed
qed

text \<open>Both waits poll one of the counters in the same way.\<close>

locale polling =
  fixes value_at :: "timebase \<Rightarrow> nat \<Rightarrow> u64" and wait :: "u64 \<Rightarrow> timebase \<Rightarrow> timebase option"
  assumes look: "wait target s = (if value_at s (instant s) < target then wait target (s\<lparr>instant := Suc (instant s)\<rparr>) else Some (s\<lparr>instant := Suc (instant s)\<rparr>))"
    and value_instant [simp]: "value_at (s\<lparr>instant := i\<rparr>) = value_at s"
    and returns_when: "wait target s = Some r \<Longrightarrow> \<exists>j \<ge> instant s. target \<le> value_at s j"
begin

lemma wait_first: "first_look (value_at s) target (instant s) j \<Longrightarrow> wait target s = Some (s\<lparr>instant := Suc j\<rparr>)"
proof (induction "j - instant s" arbitrary: s)
  case 0
  then have "j = instant s" "\<not> value_at s (instant s) < target" by (auto simp: first_look_def not_less)
  then show ?case by (subst look) simp
next
  case (Suc d)
  let ?s = "s\<lparr>instant := Suc (instant s)\<rparr>"
  have "value_at s (instant s) < target" using Suc.prems Suc.hyps(2) by (simp add: first_look_def)
  moreover have "wait target ?s = Some (?s\<lparr>instant := Suc j\<rparr>)"
    by (rule Suc.hyps(1)) (use Suc.prems Suc.hyps(2) in \<open>auto simp: first_look_def\<close>)
  ultimately show ?case by (subst look) simp
qed

lemma wait_returns_iff: "(\<exists>r. wait target s = Some r) \<longleftrightarrow> (\<exists>j \<ge> instant s. target \<le> value_at s j)"
  using returns_when wait_first first_look_exists by meson

lemma wait_stuck: "(\<And>j. instant s \<le> j \<Longrightarrow> value_at s j < target) \<Longrightarrow> wait target s = None"
  using returns_when [of target s] by (cases "wait target s") (auto simp: not_le [symmetric])

end

lemma wait_tsc_returns:
  assumes r: "wait_tsc target s = Some r"
  shows "\<exists>j \<ge> instant s. target \<le> tsc_value s j"
proof (rule wait_tsc.raw_induct [where P = "\<lambda>target s r. \<exists>j \<ge> instant s. target \<le> tsc_value s j", OF _ r])
  fix rec :: "u64 \<Rightarrow> timebase \<Rightarrow> timebase option" and target s r
  assume IH: "\<And>target s r. rec target s = Some r \<Longrightarrow> \<exists>j \<ge> instant s. target \<le> tsc_value s j"
    and r: "(let (t, s) = rdtsc s in if t < target then rec target s else Some s) = Some r"
  show "\<exists>j \<ge> instant s. target \<le> tsc_value s j"
  proof (cases "tsc_value s (instant s) < target")
    case True
    then have "rec target (s\<lparr>instant := Suc (instant s)\<rparr>) = Some r" using r by (simp add: rdtsc_def)
    from IH [OF this] show ?thesis by (auto dest: Suc_leD)
  qed (auto simp: not_less)
qed

lemma wait_jiffies_returns:
  assumes r: "wait_jiffies target s = Some r"
  shows "\<exists>j \<ge> instant s. target \<le> jiffies_value s j"
proof (rule wait_jiffies.raw_induct [where P = "\<lambda>target s r. \<exists>j \<ge> instant s. target \<le> jiffies_value s j", OF _ r])
  fix rec :: "u64 \<Rightarrow> timebase \<Rightarrow> timebase option" and target s r
  assume IH: "\<And>target s r. rec target s = Some r \<Longrightarrow> \<exists>j \<ge> instant s. target \<le> jiffies_value s j"
    and r: "(let (t, s) = read_jiffies s in if t < target then rec target s else Some s) = Some r"
  show "\<exists>j \<ge> instant s. target \<le> jiffies_value s j"
  proof (cases "jiffies_value s (instant s) < target")
    case True
    then have "rec target (s\<lparr>instant := Suc (instant s)\<rparr>) = Some r" using r by (simp add: read_jiffies_def)
    from IH [OF this] show ?thesis by (auto dest: Suc_leD)
  qed (auto simp: not_less)
qed

interpretation tsc_poll: polling tsc_value wait_tsc
  by unfold_locales (subst wait_tsc.simps, simp add: rdtsc_def, simp, rule wait_tsc_returns)

interpretation jiffies_poll: polling jiffies_value wait_jiffies
  by unfold_locales (subst wait_jiffies.simps, simp add: read_jiffies_def, simp, rule wait_jiffies_returns)

text \<open>\<open>mdelay\<close> waits until the tick counter has advanced by the number of milliseconds. While interrupts are off the counter stands still, and it waits for ever.\<close>

lemma mdelay_returns:
  assumes "first_look (jiffies_value s) (jiffies_value s (instant s) + ucast ms) (Suc (instant s)) j"
  shows "mdelay ms s = Some (s\<lparr>instant := Suc j\<rparr>)"
  using jiffies_poll.wait_first [of "s\<lparr>instant := Suc (instant s)\<rparr>"] assms by (simp add: mdelay_def read_jiffies_def)

lemma unat_widen [simp]: "unat (ucast (w :: u32) :: u64) = unat w"
proof -
  have "unat w < 2 ^ 32" using unsigned_less [where 'a = nat, of w] by simp
  then have "take_bit 64 (unat w) = unat w" by (intro take_bit_nat_eq_self) simp
  then show ?thesis by (simp add: unsigned_ucast_eq)
qed

lemma mdelay_stuck:
  assumes "\<And>i. jiffies_value s i = j" "0 < ms" "unat j + unat ms < 2 ^ 64"
  shows "mdelay ms s = None"
proof -
  have "unat (j + of_nat (unat ms)) = unat j + unat ms" by (rule unat_add_of_nat) (use assms(3) in simp)
  then have "unat (j + ucast ms) = unat j + unat ms" by simp
  moreover have "0 < unat ms" using assms(2) by (simp add: word_less_nat_alt)
  ultimately have "j < j + ucast ms" by (simp add: word_less_nat_alt)
  then show ?thesis using jiffies_poll.wait_stuck [of "s\<lparr>instant := Suc (instant s)\<rparr>" "j + ucast ms"] assms(1) by (simp add: mdelay_def read_jiffies_def)
qed

section \<open>The frequency found\<close>

text \<open>The frequency the processor reports, as a number.\<close>

definition cpuid_hz :: "cpuid \<Rightarrow> nat" where
  "cpuid_hz cpuid =
     (let (eax, ebx, ecx, edx) = cpuid 0x15; (eax', ebx', ecx', edx') = cpuid 0x16
      in if eax \<noteq> 0 \<and> ebx \<noteq> 0 \<and> ecx \<noteq> 0 then unat ecx * unat ebx div unat eax else unat eax' mod 65536 * 1000000)"

lemma tsc_freq_from_cpuid_hz: "unat (tsc_freq_from_cpuid cpuid) = cpuid_hz cpuid"
proof -
  obtain a b c d where 1: "cpuid 0x15 = (a, b, c, d)" by (cases "cpuid 0x15") auto
  obtain a' b' c' d' where 2: "cpuid 0x16 = (a', b', c', d')" by (cases "cpuid 0x16") auto
  have b32: "unat w < 2 ^ 32" for w :: u32 using unsigned_less [where 'a = nat, of w] by simp
  have "unat c * unat b < 2 ^ 32 * 2 ^ 32" by (rule mult_strict_mono [OF b32 b32]) simp_all
  then have p: "unat (ucast c * ucast b :: u64) = unat c * unat b" by (simp add: unat_word_ariths unat_widen)
  have "a' AND 0xFFFF = take_bit 16 a'" by (simp add: take_bit_eq_mask mask_eq_exp_minus_1)
  then have m: "unat (a' AND 0xFFFF) = unat a' mod 65536" by (simp add: take_bit_eq_mod unat_mod)
  have "unat a' mod 65536 < 65536" by simp
  then have "unat a' mod 65536 * 1000000 < 2 ^ 64" by (simp add: less_imp_le mult_less_le_imp_less)
  then have q: "unat (ucast (a' AND 0xFFFF) * 1000000 :: u64) = unat a' mod 65536 * 1000000" by (simp add: unat_word_ariths unat_widen m)
  show ?thesis by (simp add: tsc_freq_from_cpuid_def cpuid_hz_def 1 2 unat_div unat_widen p q)
qed

text \<open>The cycles counted over the 500 ticks, as a frequency.\<close>

definition measured_hz :: "timebase \<Rightarrow> nat \<Rightarrow> u64" where
  "measured_hz s j = 2 * (tsc_value s (Suc j) - tsc_value s (instant s))"

lemma tsc_calibrate_lapic_measures:
  assumes "first_look (jiffies_value s) (jiffies_value s (Suc (instant s)) + 500) (instant s + 2) j"
  shows "tsc_calibrate_lapic s = Some (measured_hz s j, s\<lparr>instant := j + 2\<rparr>)"
  using mdelay_returns [of "s\<lparr>instant := Suc (instant s)\<rparr>" 500 j] assms
  by (simp add: tsc_calibrate_lapic_def rdtsc_def rdtscp_def measured_hz_def mult.commute)

lemma cpuid_hz_zero: "tsc_freq_from_cpuid cpuid = 0 \<longleftrightarrow> cpuid_hz cpuid = 0"
  by (simp add: tsc_freq_from_cpuid_hz [symmetric] unsigned_eq_0_iff)

text \<open>
  \<open>tsc_init\<close> finds the frequency of the counter. On a processor whose counter is not invariant the result is \<open>-1\<close> and nothing changes. When the processor reports a frequency, by leaf 0x15 or else by
  leaf 0x16, exactly that is stored, with no overflow on the way, and the result is 0. When it reports none, the counter is measured over 500 ticks of the timer and the frequency is twice the cycles
  counted; a counter that stood still is an error, with the counter left marked as supported.
\<close>

lemma tsc_init_frequency:
  fixes cpuid :: cpuid
  assumes "cpuid 0x80000007 = (a, b, c, edx)"
    and "first_look (jiffies_value s) (jiffies_value s (Suc (instant s)) + 500) (instant s + 2) j"
  shows "cpuid_hz cpuid < 2 ^ 64 \<and>
    tsc_init cpuid s =
      (if \<not> bit edx 8 then Some (- 1, s)
       else if cpuid_hz cpuid \<noteq> 0
       then Some (0, s\<lparr>tsc_freq_hz := of_nat (cpuid_hz cpuid), tsc_freq_khz := of_nat (cpuid_hz cpuid div 1000), invariant_tsc_supported := 1\<rparr>)
       else if measured_hz s j \<noteq> 0
       then Some (0, s\<lparr>instant := j + 2, tsc_freq_hz := measured_hz s j, tsc_freq_khz := measured_hz s j div 1000, invariant_tsc_supported := 1\<rparr>)
       else Some (- 1, s\<lparr>instant := j + 2, tsc_freq_hz := 0, invariant_tsc_supported := 1\<rparr>))"
proof
  show "cpuid_hz cpuid < 2 ^ 64" using unsigned_less [where 'a = nat, of "tsc_freq_from_cpuid cpuid"] by (simp add: tsc_freq_from_cpuid_hz)
  have f: "tsc_freq_from_cpuid cpuid = of_nat (cpuid_hz cpuid)" by (simp add: tsc_freq_from_cpuid_hz [symmetric])
  have k: "tsc_freq_from_cpuid cpuid div 1000 = of_nat (cpuid_hz cpuid div 1000)"
    using of_nat_unat [of "tsc_freq_from_cpuid cpuid div 1000", where 'a = "64 word"] by (simp add: unat_div tsc_freq_from_cpuid_hz ucast_id)
  have e: "edx AND push_bit 8 1 = 0 \<longleftrightarrow> \<not> bit edx 8" using and_exp_eq_0_iff_not_bit [of edx 8] by simp
  show "tsc_init cpuid s = (if \<not> bit edx 8 then Some (- 1, s)
       else if cpuid_hz cpuid \<noteq> 0
       then Some (0, s\<lparr>tsc_freq_hz := of_nat (cpuid_hz cpuid), tsc_freq_khz := of_nat (cpuid_hz cpuid div 1000), invariant_tsc_supported := 1\<rparr>)
       else if measured_hz s j \<noteq> 0
       then Some (0, s\<lparr>instant := j + 2, tsc_freq_hz := measured_hz s j, tsc_freq_khz := measured_hz s j div 1000, invariant_tsc_supported := 1\<rparr>)
       else Some (- 1, s\<lparr>instant := j + 2, tsc_freq_hz := 0, invariant_tsc_supported := 1\<rparr>))" (is "_ = ?r")
  proof (cases "bit edx 8")
    case False
    then show ?thesis using e by (simp add: tsc_init_def assms(1))
  next
    case True
    let ?s = "s\<lparr>invariant_tsc_supported := 1, tsc_freq_hz := 0\<rparr>"
    have m: "measured_hz ?s j = measured_hz s j" by (simp add: measured_hz_def)
    have "tsc_calibrate_lapic ?s = Some (measured_hz s j, ?s\<lparr>instant := j + 2\<rparr>)"
      using tsc_calibrate_lapic_measures [of ?s j] assms(2) m by simp
    then show ?thesis using True e f k cpuid_hz_zero [of cpuid] by (auto simp: tsc_init_def assms(1))
  qed
qed

text \<open>A processor that reports nothing, with a counter of 3 MHz and a tick every 1000 looks, and the same processor with leaf 0x15.\<close>

definition plain_cpuid :: cpuid where
  "plain_cpuid leaf = (if leaf = 0x80000007 then (0, 0, 0, 0x100) else (0, 0, 0, 0))"

definition example_time :: timebase where
  "example_time = \<lparr>tsc_value = (\<lambda>i. of_nat (3000 * i)), jiffies_value = of_nat, instant = 0, tsc_freq_hz = 0, tsc_freq_khz = 0, invariant_tsc_supported = 0\<rparr>"

lemma example_first: "first_look (jiffies_value example_time) (jiffies_value example_time (Suc (instant example_time)) + 500) (instant example_time + 2) 501"
proof -
  have "of_nat k < (501 :: u64)" if "k < 501" for k
  proof -
    have "unat (of_nat k :: u64) = k" using that by (simp add: unsigned_of_nat take_bit_nat_eq_self)
    then show ?thesis using that by (simp add: word_less_nat_alt)
  qed
  then show ?thesis by (simp add: first_look_def example_time_def)
qed

lemma tsc_init_frequency_example:
  "tsc_init plain_cpuid example_time =
     Some (0, example_time\<lparr>instant := 503, tsc_freq_hz := 3012000, tsc_freq_khz := 3012, invariant_tsc_supported := 1\<rparr>)"
proof -
  have z: "cpuid_hz plain_cpuid = 0" by (simp add: cpuid_hz_def plain_cpuid_def)
  have m: "measured_hz example_time 501 = 3012000" by (simp add: measured_hz_def example_time_def)
  have k: "(3012000 :: u64) div 1000 = 3012" by code_simp
  have "plain_cpuid 0x80000007 = (0, 0, 0, 0x100)" by (simp add: plain_cpuid_def)
  from tsc_init_frequency [of plain_cpuid, OF this example_first] show ?thesis using z m k by (simp add: bit_numeral_rec)
qed

text \<open>
  In \<open>start_kernel\<close> interrupts are off while \<open>tsc_init\<close> runs, and the tick counter stands still: on a processor that reports no frequency the measurement does not end.
\<close>

lemma tsc_init_stuck:
  assumes "cpuid 0x80000007 = (a, b, c, edx)" "bit edx 8" "cpuid_hz cpuid = 0" "\<And>i. jiffies_value s i = 0"
  shows "tsc_init cpuid s = None"
proof -
  have "mdelay 500 (s\<lparr>invariant_tsc_supported := 1, tsc_freq_hz := 0, instant := Suc (instant s)\<rparr>) = None"
    by (rule mdelay_stuck [where j = 0]) (use assms(4) in simp_all)
  moreover have "edx AND push_bit 8 1 \<noteq> 0" using and_exp_eq_0_iff_not_bit [of edx 8] assms(2) by simp
  ultimately show ?thesis using assms(1,3) cpuid_hz_zero [of cpuid] by (simp add: tsc_init_def tsc_calibrate_lapic_def rdtsc_def)
qed

section \<open>Readings\<close>

text \<open>\<open>tsc_read_ns\<close> is right as long as the product with \<open>10 ^ 9\<close> fits in 64 bits, which is the case for the first \<open>2 ^ 64 div 10 ^ 9\<close> cycles only: about six seconds at 3 GHz.\<close>

lemma tsc_read_ns_exact:
  assumes "invariant_tsc_supported s \<noteq> 0" "tsc_freq_hz s \<noteq> 0" "unat (tsc_value s (instant s)) * 1000000000 < 2 ^ 64"
  shows "\<exists>r. tsc_read_ns s = Some (r, s\<lparr>instant := Suc (instant s)\<rparr>) \<and> unat r = unat (tsc_value s (instant s)) * 1000000000 div unat (tsc_freq_hz s)"
proof -
  have "unat (tsc_value s (instant s) * 1000000000) = unat (tsc_value s (instant s)) * 1000000000" using assms(3) by (simp add: unat_word_ariths)
  then show ?thesis using assms(1,2) by (simp add: tsc_read_ns_def rdtsc_def div_u64_def unat_div)
qed

text \<open>At 3 GHz the reading after seven seconds is less than one second.\<close>

lemma tsc_read_ns_wraps:
  "tsc_read_ns (example_time\<lparr>tsc_value := \<lambda>_. 21000000000, tsc_freq_hz := 3000000000, invariant_tsc_supported := 1\<rparr>) =
     Some (851085308, example_time\<lparr>tsc_value := \<lambda>_. 21000000000, instant := 1, tsc_freq_hz := 3000000000, invariant_tsc_supported := 1\<rparr>)"
proof -
  have "(21000000000 * 1000000000 :: u64) div 3000000000 = 851085308" by code_simp
  then show ?thesis by (simp add: tsc_read_ns_def rdtsc_def div_u64_def example_time_def)
qed

text \<open>A counter of \<open>khz\<close> kilohertz that has run for \<open>n\<close> milliseconds: \<open>tsc_read_us\<close> gives \<open>n\<close>, that is milliseconds, and \<open>tsc_read_ms\<close> the seconds.\<close>

lemma tsc_read_us_is_ms:
  assumes "invariant_tsc_supported s \<noteq> 0" "tsc_freq_khz s \<noteq> 0" "unat (tsc_value s (instant s)) = n * unat (tsc_freq_khz s) + r" "r < unat (tsc_freq_khz s)"
  shows "\<exists>v. tsc_read_us s = Some (v, s\<lparr>instant := Suc (instant s)\<rparr>) \<and> unat v = n"
  using assms by (simp add: tsc_read_us_def rdtsc_def div_u64_def unat_div)

lemma tsc_read_ms_is_seconds:
  assumes "invariant_tsc_supported s \<noteq> 0" "tsc_freq_khz s \<noteq> 0" "unat (tsc_freq_khz s) * 1000 < 2 ^ 64"
    and "unat (tsc_value s (instant s)) = n * unat (tsc_freq_khz s) + r" "r < unat (tsc_freq_khz s)"
  shows "\<exists>v. tsc_read_ms s = Some (v, s\<lparr>instant := Suc (instant s)\<rparr>) \<and> unat v = n div 1000"
proof -
  have k: "unat (tsc_freq_khz s * 1000) = unat (tsc_freq_khz s) * 1000" using assms(3) by (simp add: unat_word_ariths)
  have "0 < unat (tsc_freq_khz s)" using assms(2) by (simp add: unsigned_eq_0_iff zero_less_iff_neq_zero)
  then have "tsc_freq_khz s * 1000 \<noteq> 0" using k by (metis mult_eq_0_iff neq0_conv unsigned_0 zero_neq_numeral)
  moreover have "unat (tsc_value s (instant s)) div unat (tsc_freq_khz s * 1000) = n div 1000" using k assms(4,5) by (simp add: div_mult2_eq)
  ultimately show ?thesis using assms(1) by (simp add: tsc_read_ms_def rdtsc_def div_u64_def unat_div)
qed

section \<open>Waits on the counter\<close>

text \<open>
  C40: \<open>tsc_delay_ns\<close> waits the requested time and returns. When neither the product of the nanoseconds and the frequency nor the target overflows, and some later look shows the counter
  \<open>ns * hz / 10 ^ 9\<close> cycles on, the wait ends, and it ends at the first such look: at least that many cycles have then passed since it began, and at every look before it fewer had.
\<close>

theorem tsc_delay_ns_waits:
  assumes "invariant_tsc_supported s \<noteq> 0" "unat ns * unat (tsc_freq_hz s) < 2 ^ 64"
    and "unat (tsc_value s (instant s)) + unat ns * unat (tsc_freq_hz s) div 1000000000 < 2 ^ 64"
    and "instant s < later" "unat (tsc_value s (instant s)) + unat ns * unat (tsc_freq_hz s) div 1000000000 \<le> unat (tsc_value s later)"
  shows "\<exists>j. instant s < j \<and> j \<le> later \<and> tsc_delay_ns ns s = Some (s\<lparr>instant := Suc j\<rparr>) \<and>
    unat ns * unat (tsc_freq_hz s) div 1000000000 \<le> unat (tsc_value s j) - unat (tsc_value s (instant s)) \<and>
    (\<forall>k. instant s < k \<and> k < j \<longrightarrow> unat (tsc_value s k) < unat (tsc_value s (instant s)) + unat ns * unat (tsc_freq_hz s) div 1000000000)"
proof -
  let ?c = "ns * tsc_freq_hz s div 1000000000" and ?t = "tsc_value s (instant s)"
  have c: "unat ?c = unat ns * unat (tsc_freq_hz s) div 1000000000" using assms(2) by (simp add: unat_div unat_word_ariths)
  then have t: "unat (?t + ?c) = unat ?t + unat ns * unat (tsc_freq_hz s) div 1000000000" using assms(3) by (simp add: unat_word_ariths)
  have "?t + ?c \<le> tsc_value s later" using assms(5) by (simp add: word_le_nat_alt t)
  then obtain j where j: "j \<le> later" "first_look (tsc_value s) (?t + ?c) (Suc (instant s)) j"
    using first_look_exists [of "Suc (instant s)" later "?t + ?c" "tsc_value s"] assms(4) by auto
  have "tsc_delay_ns ns s = Some (s\<lparr>instant := Suc j\<rparr>)"
    using tsc_poll.wait_first [of "s\<lparr>instant := Suc (instant s)\<rparr>"] j(2) assms(1) by (simp add: tsc_delay_ns_def rdtsc_def)
  then show ?thesis using j t by (intro exI [of _ j]) (auto simp: first_look_def word_le_nat_alt word_less_nat_alt Suc_le_eq)
qed

theorem tsc_delay_ns_waits_witness:
  "\<exists>j. 0 < j \<and> j \<le> 1 \<and> tsc_delay_ns 1000 (example_time\<lparr>tsc_freq_hz := 3000000000, invariant_tsc_supported := 1\<rparr>) =
     Some (example_time\<lparr>tsc_freq_hz := 3000000000, invariant_tsc_supported := 1, instant := Suc j\<rparr>)"
proof -
  let ?s = "example_time\<lparr>tsc_freq_hz := 3000000000, invariant_tsc_supported := 1\<rparr>"
  have "\<exists>j. instant ?s < j \<and> j \<le> 1 \<and> tsc_delay_ns 1000 ?s = Some (?s\<lparr>instant := Suc j\<rparr>) \<and>
    unat (1000 :: u64) * unat (tsc_freq_hz ?s) div 1000000000 \<le> unat (tsc_value ?s j) - unat (tsc_value ?s (instant ?s)) \<and>
    (\<forall>k. instant ?s < k \<and> k < j \<longrightarrow> unat (tsc_value ?s k) < unat (tsc_value ?s (instant ?s)) + unat (1000 :: u64) * unat (tsc_freq_hz ?s) div 1000000000)"
    by (rule tsc_delay_ns_waits) (simp_all add: example_time_def)
  then show ?thesis by (auto simp: example_time_def)
qed

text \<open>\<open>tsc_delay_us\<close> adds the number of cycles of a millisecond for every unit of its argument: the wait lasts a thousand times too long.\<close>

lemma tsc_delay_us_waits_ms:
  assumes "invariant_tsc_supported s \<noteq> 0" "unat (tsc_value s (instant s)) + unat us * unat (tsc_freq_khz s) < 2 ^ 64" "tsc_delay_us us s = Some r"
  shows "\<exists>j > instant s. unat (tsc_value s (instant s)) + unat us * unat (tsc_freq_khz s) \<le> unat (tsc_value s j)"
proof -
  have "unat us * unat (tsc_freq_khz s) < 2 ^ 64" using assms(2) by simp
  then have t: "unat (tsc_value s (instant s) + us * tsc_freq_khz s) = unat (tsc_value s (instant s)) + unat us * unat (tsc_freq_khz s)"
    using assms(2) by (simp add: unat_word_ariths)
  have "wait_tsc (tsc_value s (instant s) + us * tsc_freq_khz s) (s\<lparr>instant := Suc (instant s)\<rparr>) = Some r"
    using assms(1,3) by (simp add: tsc_delay_us_def rdtsc_def)
  from wait_tsc_returns [OF this] t show ?thesis by (auto simp: word_le_nat_alt Suc_le_eq)
qed

text \<open>The seconds of \<open>sdelay\<close> are multiplied in 32 bits: beyond 4294967 seconds the product wraps.\<close>

lemma sdelay_as_mdelay: "sdelay sec s = mdelay (of_nat (unat sec * 1000 mod 2 ^ 32)) s"
proof -
  have "sec * 1000 = of_nat (unat sec * 1000 mod 2 ^ 32)" using of_nat_unat [of "sec * 1000", where 'a = "32 word"] by (simp add: unat_word_ariths ucast_id)
  then show ?thesis by (simp add: sdelay_def mdelay_def)
qed

end
