(* ===== verification/Interrupts.thy ===== *)
theory Interrupts
  imports Loader Irqchip Uart
begin

text \<open>
  The interrupt and system call handlers (\<open>src/src/int.c\<close>), where the components meet: a system call reads its arguments from the saved registers and from memory, runs a call of the virtual file
  system or ends the current task, and acknowledges the local APIC; the timer interrupt runs the scheduler; the serial interrupt fills the receive buffer.

  The registers are those the assembly stub has saved. A handler either returns, and the interrupted program resumes with the saved registers, or has switched to another task. \<open>hlt\<close> continues when an
  interrupt arrives, so with interrupts off it does not return. Console messages are left out.

  The lemmas say what a system call may change, that every handler keeps the invariants of the virtual file system, of the scheduler and of the receive buffer, and when \<open>exit\<close> does not come back.
\<close>

section \<open>Saved registers and the machine\<close>

record saved_regs =
  r15 :: u64
  r14 :: u64
  r13 :: u64
  r12 :: u64
  r11 :: u64
  r10 :: u64
  r9 :: u64
  r8 :: u64
  rbp :: u64
  rdi :: u64
  rsi :: u64
  rdx :: u64
  rcx :: u64
  rbx :: u64
  rax :: u64
  rflags :: u64

record 'f machine =
  m_kernel :: "'f kstate"
  m_chip :: irqchip
  m_uart :: uart

datatype 'f trap = Resumes saved_regs "'f machine" | Switched "'f machine"

primrec trap_machine :: "'f trap \<Rightarrow> 'f machine" where
  "trap_machine (Resumes ctx m) = m"
| "trap_machine (Switched m) = m"

definition SYS_OPEN :: u64 where "SYS_OPEN = 0"
definition SYS_CLOSE :: u64 where "SYS_CLOSE = 1"
definition SYS_READ :: u64 where "SYS_READ = 2"
definition SYS_WRITE :: u64 where "SYS_WRITE = 3"
definition SYS_STAT :: u64 where "SYS_STAT = 4"
definition SYS_SYNC :: u64 where "SYS_SYNC = 5"
definition SYS_EXIT :: u64 where "SYS_EXIT = 6"

lemmas sys_numbers = SYS_OPEN_def SYS_CLOSE_def SYS_READ_def SYS_WRITE_def SYS_STAT_def SYS_SYNC_def SYS_EXIT_def

text \<open>The bytes at an address, and the string there up to its terminator.\<close>

definition read_mem :: "mem \<Rightarrow> u64 \<Rightarrow> nat \<Rightarrow> bytes" where
  "read_mem m p n = map (\<lambda>i. m (p + of_nat i)) [0..<n]"

definition c_string :: "mem \<Rightarrow> u64 \<Rightarrow> bytes option" where
  "c_string m p = map_option (read_mem m p) (strlen m p)"

section \<open>The handlers\<close>

definition hlt :: "nat \<Rightarrow> 'f machine \<Rightarrow> 'f machine option" where
  "hlt c m = (if irq_on (k_sched (m_kernel m)) c then Some m else None)"

definition send_eoi :: "'f machine \<Rightarrow> 'f machine option" where
  "send_eoi m = map_option (\<lambda>chip. m\<lparr>m_chip := chip\<rparr>) (lapic_send_eoi (m_chip m))"

definition isr_divide_error_handler :: "'f machine \<Rightarrow> 'f machine option" where
  "isr_divide_error_handler m = send_eoi m"

definition isr_page_fault_handler :: "nat \<Rightarrow> u64 \<Rightarrow> u64 \<Rightarrow> 'f machine \<Rightarrow> 'f machine option" where
  "isr_page_fault_handler c error pagefault_addr m = hlt c m"

definition isr_com1_handler :: "'f machine \<Rightarrow> 'f machine option" where
  "isr_com1_handler m = do {
     u \<leftarrow> uart_isr_receive (m_uart m);
     send_eoi (m\<lparr>m_uart := u\<rparr>) }"

definition timer_interrupt :: "nat \<Rightarrow> 'f machine \<Rightarrow> 'f machine option" where
  "timer_interrupt c m = do {
     m \<leftarrow> send_eoi m;
     s \<leftarrow> lapic_timer_handler c (k_sched (m_kernel m));
     Some (m\<lparr>m_kernel := (m_kernel m)\<lparr>k_sched := s\<rparr>\<rparr>) }"

text \<open>The end of the handler, with the result of the call in \<open>rax\<close>.\<close>

definition syscall_done :: "saved_regs \<Rightarrow> 'f machine \<Rightarrow> 'f kstate \<Rightarrow> 'f trap option" where
  "syscall_done ctx m k = do { m \<leftarrow> send_eoi (m\<lparr>m_kernel := k\<rparr>); Some (Resumes ctx m) }"

text \<open>
  \<open>sys_exit\<close> comes back to the handler only if the scheduler found no other task to switch to.
\<close>

definition isr_syscall_handler :: "nat \<Rightarrow> saved_regs \<Rightarrow> 'f machine \<Rightarrow> 'f trap option" where
  "isr_syscall_handler c ctx m =
     (let nr = rax ctx; k = m_kernel m
      in if nr = SYS_OPEN then do {
           p \<leftarrow> c_string (k_mem k) (rdi ctx);
           (r, k) \<leftarrow> on_vfs (\<lambda>s. sys_open s p (ucast (rsi ctx))) k;
           syscall_done (ctx\<lparr>rax := word_of_int r\<rparr>) m k }
         else if nr = SYS_CLOSE then do {
           (r, k) \<leftarrow> on_vfs (\<lambda>s. sys_close s (sint (ucast (rdi ctx) :: u32))) k;
           syscall_done (ctx\<lparr>rax := word_of_int r\<rparr>) m k }
         else if nr = SYS_READ then do {
           ((r, d), k) \<leftarrow> on_vfs (\<lambda>s. map_option (\<lambda>(r, d, s). ((r, d), s)) (sys_read s (sint (ucast (rdi ctx) :: u32)) (unat (rdx ctx)))) k;
           syscall_done (ctx\<lparr>rax := word_of_int r\<rparr>) m (k\<lparr>k_mem := write_mem (rsi ctx) d (k_mem k)\<rparr>) }
         else if nr = SYS_WRITE then do {
           (r, k) \<leftarrow> on_vfs (\<lambda>s. sys_write s (sint (ucast (rdi ctx) :: u32)) (read_mem (k_mem k) (rsi ctx) (unat (rdx ctx)))) k;
           syscall_done (ctx\<lparr>rax := word_of_int r\<rparr>) m k }
         else if nr = SYS_SYNC then do {
           (_, k) \<leftarrow> on_vfs (\<lambda>s. map_option (\<lambda>s. ((), s)) (sys_sync s)) k;
           syscall_done ctx m k }
         else if nr = SYS_EXIT then do {
           s \<leftarrow> usertask_exit c (k_sched k);
           let k' = k\<lparr>k_sched := s\<rparr>;
           if task_readyqueue (k_sched k) c = [] then syscall_done ctx m k' else Some (Switched (m\<lparr>m_kernel := k'\<rparr>)) }
         else syscall_done (ctx\<lparr>rax := - 1\<rparr>) m k)"

section \<open>What a handler may change\<close>

lemma send_eoi_Some:
  assumes "send_eoi m = Some m'"
  shows "m_kernel m' = m_kernel m" "m_uart m' = m_uart m" "lapic_send_eoi (m_chip m) = Some (m_chip m')"
  using assms by (auto simp: send_eoi_def)

lemma send_eoi_ok: "lapic_ok (m_chip m) \<Longrightarrow> \<exists>m'. send_eoi m = Some m' \<and> lapic_ok (m_chip m') \<and> eois (m_chip m') = eois (m_chip m) + 1"
  using lapic_offsets(1) [of "m_chip m" "0xB0"]
  by (auto simp: send_eoi_def lapic_send_eoi_def lapic_write_def mmio_write_def lapic_defs lapic_ok_def)

lemma syscall_done_Some:
  assumes "syscall_done ctx m k = Some t"
  obtains m' where "t = Resumes ctx m'" "m_kernel m' = k" "m_uart m' = m_uart m" "lapic_send_eoi (m_chip m) = Some (m_chip m')"
  using assms send_eoi_Some [of "m\<lparr>m_kernel := k\<rparr>"] by (auto simp: syscall_done_def split: Option.bind_splits)

lemma syscall_done_ok:
  assumes "lapic_ok (m_chip m)"
  shows "\<exists>m'. syscall_done ctx m k = Some (Resumes ctx m') \<and> m_kernel m' = k"
proof -
  obtain m' where "send_eoi (m\<lparr>m_kernel := k\<rparr>) = Some m'" using send_eoi_ok [of "m\<lparr>m_kernel := k\<rparr>"] assms by auto
  then show ?thesis using send_eoi_Some(1) [of "m\<lparr>m_kernel := k\<rparr>" m'] by (simp add: syscall_done_def)
qed

lemma on_vfs_Some:
  assumes "on_vfs f k = Some (r, k')"
  obtains v where "f ((k_vfs k)\<lparr>vheap := sheap (k_sched k)\<rparr>) = Some (r, v)" "k' = k\<lparr>k_vfs := v, k_sched := (k_sched k)\<lparr>sheap := vheap v\<rparr>\<rparr>"
  using assms by (auto simp: on_vfs_def split: Option.bind_splits)

text \<open>The kernel states one file system call apart: the file system has made a step, and of the rest only the heap and, for a read, the buffer have changed.\<close>

definition fs_call :: "'f kstate \<Rightarrow> 'f kstate \<Rightarrow> bool" where
  "fs_call k k' \<longleftrightarrow> vfs_step ((k_vfs k)\<lparr>vheap := sheap (k_sched k)\<rparr>) (k_vfs k') \<and> k_vm k' = k_vm k \<and> k_sched k' = (k_sched k)\<lparr>sheap := vheap (k_vfs k')\<rparr>"

lemma on_vfs_call:
  assumes "on_vfs f k = Some (r, k')" and "\<And>s v. f s = Some (r, v) \<Longrightarrow> fd_count s = fd_count (k_vfs k) \<Longrightarrow> vfs_step s v"
  shows "fs_call k k' \<and> k_mem k' = k_mem k"
  using assms(1) by (rule on_vfs_Some) (auto simp: fs_call_def intro!: assms(2))

text \<open>The cases of a system call: a call of the file system, \<open>exit\<close>, or an unknown number.\<close>

lemma isr_syscall_cases:
  assumes t: "isr_syscall_handler c ctx m = Some t" and fd: "unat (fd_count (k_vfs (m_kernel m))) + 1 < 2 ^ 32"
  obtains
    (fs) v k' where "rax ctx \<in> {SYS_OPEN, SYS_CLOSE, SYS_READ, SYS_WRITE, SYS_SYNC}" "fs_call (m_kernel m) k'"
      "rax ctx \<noteq> SYS_READ \<longrightarrow> k_mem k' = k_mem (m_kernel m)" "syscall_done (ctx\<lparr>rax := v\<rparr>) m k' = Some t" "rax ctx = SYS_SYNC \<longrightarrow> v = rax ctx"
  | (exit) s where "rax ctx = SYS_EXIT" "usertask_exit c (k_sched (m_kernel m)) = Some s"
      "if task_readyqueue (k_sched (m_kernel m)) c = [] then syscall_done ctx m ((m_kernel m)\<lparr>k_sched := s\<rparr>) = Some t
       else t = Switched (m\<lparr>m_kernel := (m_kernel m)\<lparr>k_sched := s\<rparr>\<rparr>)"
  | (unknown) "rax ctx \<notin> {SYS_OPEN, SYS_CLOSE, SYS_READ, SYS_WRITE, SYS_SYNC, SYS_EXIT}" "syscall_done (ctx\<lparr>rax := - 1\<rparr>) m (m_kernel m) = Some t"
proof -
  consider "rax ctx = SYS_OPEN" | "rax ctx = SYS_CLOSE" | "rax ctx = SYS_READ" | "rax ctx = SYS_WRITE" | "rax ctx = SYS_SYNC" | "rax ctx = SYS_EXIT"
    | "rax ctx \<notin> {SYS_OPEN, SYS_CLOSE, SYS_READ, SYS_WRITE, SYS_SYNC, SYS_EXIT}" by blast
  then show ?thesis
  proof cases
    case 1
    obtain p r k' where c: "on_vfs (\<lambda>s. sys_open s p (ucast (rsi ctx))) (m_kernel m) = Some (r, k')" "syscall_done (ctx\<lparr>rax := word_of_int r\<rparr>) m k' = Some t"
      using t 1 by (auto simp: isr_syscall_handler_def sys_numbers Let_def split: Option.bind_splits)
    have "fs_call (m_kernel m) k' \<and> k_mem k' = k_mem (m_kernel m)" by (rule on_vfs_call [OF c(1)]) (use fd in \<open>auto intro: vfs_step.open_call\<close>)
    then show ?thesis using fs [of k'] c(2) 1 by (auto simp: sys_numbers)
  next
    case 2
    obtain r k' where c: "on_vfs (\<lambda>s. sys_close s (sint (ucast (rdi ctx) :: u32))) (m_kernel m) = Some (r, k')" "syscall_done (ctx\<lparr>rax := word_of_int r\<rparr>) m k' = Some t"
      using t 2 by (auto simp: isr_syscall_handler_def sys_numbers Let_def split: Option.bind_splits)
    have "fs_call (m_kernel m) k' \<and> k_mem k' = k_mem (m_kernel m)" by (rule on_vfs_call [OF c(1)]) (rule vfs_step.close_call)
    then show ?thesis using fs [of k'] c(2) 2 by (auto simp: sys_numbers)
  next
    case 3
    obtain r d k' where c: "on_vfs (\<lambda>s. map_option (\<lambda>(r, d, s). ((r, d), s)) (sys_read s (sint (ucast (rdi ctx) :: u32)) (unat (rdx ctx)))) (m_kernel m) = Some ((r, d), k')"
      "syscall_done (ctx\<lparr>rax := word_of_int r\<rparr>) m (k'\<lparr>k_mem := write_mem (rsi ctx) d (k_mem k')\<rparr>) = Some t"
      using t 3 by (auto simp: isr_syscall_handler_def sys_numbers Let_def split: Option.bind_splits)
    have "fs_call (m_kernel m) k' \<and> k_mem k' = k_mem (m_kernel m)" by (rule on_vfs_call [OF c(1)]) (auto intro: vfs_step.read_call)
    then have "fs_call (m_kernel m) (k'\<lparr>k_mem := write_mem (rsi ctx) d (k_mem k')\<rparr>)" by (simp add: fs_call_def)
    then show ?thesis using fs [OF _ _ _ c(2)] 3 by (auto simp: sys_numbers)
  next
    case 4
    obtain r k' where c: "on_vfs (\<lambda>s. sys_write s (sint (ucast (rdi ctx) :: u32)) (read_mem (k_mem (m_kernel m)) (rsi ctx) (unat (rdx ctx)))) (m_kernel m) = Some (r, k')"
      "syscall_done (ctx\<lparr>rax := word_of_int r\<rparr>) m k' = Some t"
      using t 4 by (auto simp: isr_syscall_handler_def sys_numbers Let_def split: Option.bind_splits)
    have "fs_call (m_kernel m) k' \<and> k_mem k' = k_mem (m_kernel m)" by (rule on_vfs_call [OF c(1)]) (rule vfs_step.write_call)
    then show ?thesis using fs [of k'] c(2) 4 by (auto simp: sys_numbers)
  next
    case 5
    obtain k' where c: "on_vfs (\<lambda>s. map_option (\<lambda>s. ((), s)) (sys_sync s)) (m_kernel m) = Some ((), k')" "syscall_done ctx m k' = Some t"
      using t 5 by (auto simp: isr_syscall_handler_def sys_numbers Let_def split: Option.bind_splits)
    have "fs_call (m_kernel m) k' \<and> k_mem k' = k_mem (m_kernel m)" by (rule on_vfs_call [OF c(1)]) (auto intro: vfs_step.sync_call)
    moreover have "syscall_done (ctx\<lparr>rax := rax ctx\<rparr>) m k' = Some t" using c(2) by simp
    ultimately show ?thesis using fs 5 by blast
  next
    case 6
    then obtain s where s: "usertask_exit c (k_sched (m_kernel m)) = Some s"
      using t by (auto simp: isr_syscall_handler_def sys_numbers Let_def split: Option.bind_splits)
    then show ?thesis using t 6 exit [OF 6 s] by (simp add: isr_syscall_handler_def sys_numbers Let_def split: if_splits)
  next
    case 7
    then show ?thesis using t unknown by (simp add: isr_syscall_handler_def)
  qed
qed

section \<open>The invariant of the machine\<close>

definition machine_inv :: "'f machine \<Rightarrow> bool" where
  "machine_inv m \<longleftrightarrow> vfs_inv (k_vfs (m_kernel m)) \<and> sched_inv (k_sched (m_kernel m)) \<and> ring_wf (m_uart m) \<and> lapic_ok (m_chip m)"

lemma vfs_inv_heap [simp]: "vfs_inv (s\<lparr>vheap := h\<rparr>) = vfs_inv s"
  by (simp add: vfs_inv_def refs_ok_def)

lemma sched_inv_heap [simp]: "sched_inv (s\<lparr>sheap := h\<rparr>) = sched_inv s"
  by (simp add: sched_inv_def cpu_places_def)

lemma lapic_eoi_ok: "lapic_ok a \<Longrightarrow> lapic_send_eoi a = Some b \<Longrightarrow> lapic_ok b \<and> eois b = eois a + 1"
  using lapic_offsets(1) [of a "0xB0"] by (auto simp: lapic_send_eoi_def lapic_write_def mmio_write_def lapic_defs lapic_ok_def)

lemma fs_call_inv:
  assumes "fs_call k k'" "vfs_inv (k_vfs k)" "sched_inv (k_sched k)"
  shows "vfs_inv (k_vfs k')" "sched_inv (k_sched k')"
  using assms vfs_step_inv [of "(k_vfs k)\<lparr>vheap := sheap (k_sched k)\<rparr>" "k_vfs k'"] by (simp_all add: fs_call_def)

lemma set_status_inv:
  assumes "set_status t st s = Some s'"
  shows "sched_inv s' = sched_inv s" "max_cpus s' = max_cpus s" "current s' = current s" "task_readyqueue s' = task_readyqueue s" "task_exitqueue s' = task_exitqueue s"
    "sheap s' = sheap s" "\<exists>x. tasks s t = Some x \<and> tasks s' = (tasks s)(t \<mapsto> x\<lparr>t_status := st\<rparr>)"
proof -
  obtain x where x: "tasks s t = Some x" "s' = s\<lparr>tasks := (tasks s)(t \<mapsto> x\<lparr>t_status := st\<rparr>)\<rparr>" using assms by (auto simp: set_status_def split: option.splits)
  then have "tasks s' u = None \<longleftrightarrow> tasks s u = None" for u by simp
  moreover show "max_cpus s' = max_cpus s" "current s' = current s" "task_readyqueue s' = task_readyqueue s" "task_exitqueue s' = task_exitqueue s" "sheap s' = sheap s"
    "\<exists>x. tasks s t = Some x \<and> tasks s' = (tasks s)(t \<mapsto> x\<lparr>t_status := st\<rparr>)" using x by simp_all
  ultimately show "sched_inv s' = sched_inv s" by (simp add: sched_inv_def cpu_places_def)
qed

lemma scheduler_inv:
  assumes "sched_inv s" "\<not> mm_held (sheap s)" "scheduler c s = Some s'"
  shows "sched_inv s'"
proof (cases "current s c")
  case None
  then show ?thesis using assms(1,3) by (simp add: scheduler_def split: if_splits)
next
  case (Some old)
  have "c < max_cpus s" using assms(3) by (simp add: scheduler_def split: if_splits)
  then show ?thesis using scheduler_places [OF assms(1) _ Some assms(2)] assms(3) by auto
qed

lemma usertask_exit_inv:
  assumes "sched_inv s" "\<not> mm_held (sheap s)" "usertask_exit c s = Some s'"
  shows "sched_inv s'"
proof -
  obtain old s1 where "set_status old TASK_EXIT s = Some s1" "scheduler c s1 = Some s'" using assms(3) by (auto simp: usertask_exit_def split: Option.bind_splits)
  then show ?thesis using assms(1,2) scheduler_inv [of s1 c s'] by (simp add: set_status_inv)
qed

lemma syscall_done_inv:
  assumes "syscall_done ctx m k = Some t" "ring_wf (m_uart m)" "lapic_ok (m_chip m)" "vfs_inv (k_vfs k)" "sched_inv (k_sched k)"
  shows "machine_inv (trap_machine t)"
proof -
  obtain m' where "t = Resumes ctx m'" "m_kernel m' = k" "m_uart m' = m_uart m" "lapic_send_eoi (m_chip m) = Some (m_chip m')" by (rule syscall_done_Some [OF assms(1)])
  then show ?thesis using assms(2-5) lapic_eoi_ok [of "m_chip m" "m_chip m'"] by (simp add: machine_inv_def)
qed

lemma syscall_keeps:
  assumes "isr_syscall_handler c ctx m = Some t" "machine_inv m" "\<not> mm_held (sheap (k_sched (m_kernel m)))" "unat (fd_count (k_vfs (m_kernel m))) + 1 < 2 ^ 32"
  shows "machine_inv (trap_machine t)"
  using assms(1,4)
proof (cases rule: isr_syscall_cases)
  case (fs v k')
  then show ?thesis using fs_call_inv [OF fs(2)] assms(2) by (intro syscall_done_inv [OF fs(4)]) (simp_all add: machine_inv_def)
next
  case (exit s)
  have "sched_inv s" using usertask_exit_inv [OF _ _ exit(2)] assms(2,3) by (simp add: machine_inv_def)
  then show ?thesis using exit(3) assms(2) syscall_done_inv [of ctx m "(m_kernel m)\<lparr>k_sched := s\<rparr>" t] by (auto simp: machine_inv_def split: if_splits)
next
  case unknown
  then show ?thesis using assms(2) by (intro syscall_done_inv [OF unknown(2)]) (simp_all add: machine_inv_def)
qed

lemma timer_keeps:
  assumes "timer_interrupt c m = Some m'" "machine_inv m" "\<not> mm_held (sheap (k_sched (m_kernel m)))"
  shows "machine_inv m'"
proof -
  let ?s = "k_sched (m_kernel m)"
  let ?j = "?s\<lparr>jiffies := (jiffies ?s)(c := jiffies ?s c + 1)\<rparr>"
  obtain m1 s where m1: "send_eoi m = Some m1" and s: "lapic_timer_handler c (k_sched (m_kernel m1)) = Some s" and m': "m' = m1\<lparr>m_kernel := (m_kernel m1)\<lparr>k_sched := s\<rparr>\<rparr>"
    using assms(1) by (auto simp: timer_interrupt_def split: Option.bind_splits)
  note e = send_eoi_Some [OF m1]
  have "scheduler c ?j = Some s" using s e(1) by (simp add: lapic_timer_handler_def split: if_splits)
  then have "sched_inv s" using scheduler_inv [of ?j c s] assms(2,3) by (simp add: machine_inv_def)
  then show ?thesis using e m' assms(2) lapic_eoi_ok [OF _ e(3)] by (simp add: machine_inv_def)
qed

lemma com1_keeps:
  assumes "isr_com1_handler m = Some m'" "machine_inv m"
  shows "machine_inv m'"
proof -
  obtain u where u: "uart_isr_receive (m_uart m) = Some u" "send_eoi (m\<lparr>m_uart := u\<rparr>) = Some m'" using assms(1) by (auto simp: isr_com1_handler_def split: Option.bind_splits)
  have "ring_wf u" using uart_isr_receive_spec [of "m_uart m"] u(1) assms(2) by (auto simp: machine_inv_def)
  then show ?thesis using send_eoi_Some [OF u(2)] lapic_eoi_ok [of "m_chip m" "m_chip m'"] assms(2) by (simp add: machine_inv_def)
qed

text \<open>
  The machine between interrupts: programs call the kernel, ticks and bytes arrive, in any order and on any processor, as long as the lock of the heap is free and the counter of descriptors has not
  run out.
\<close>

inductive machine_step :: "'f machine \<Rightarrow> 'f machine \<Rightarrow> bool" where
  system_call: "isr_syscall_handler c ctx m = Some t \<Longrightarrow> \<not> mm_held (sheap (k_sched (m_kernel m))) \<Longrightarrow> unat (fd_count (k_vfs (m_kernel m))) + 1 < 2 ^ 32 \<Longrightarrow>
    machine_step m (trap_machine t)"
| tick: "timer_interrupt c m = Some m' \<Longrightarrow> \<not> mm_held (sheap (k_sched (m_kernel m))) \<Longrightarrow> machine_step m m'"
| serial: "isr_com1_handler m = Some m' \<Longrightarrow> machine_step m m'"
| input: "machine_step m (m\<lparr>m_uart := (m_uart m)\<lparr>com := (com (m_uart m))\<lparr>rx_fifo := rx_fifo (com (m_uart m)) @ [b]\<rparr>\<rparr>\<rparr>)"
| divide_error: "isr_divide_error_handler m = Some m' \<Longrightarrow> machine_step m m'"

inductive_cases machine_stepE: "machine_step m m'"

lemma machine_step_inv: "machine_step m m' \<Longrightarrow> machine_inv m \<Longrightarrow> machine_inv m'"
proof (induction rule: machine_step.induct)
  case (divide_error m m')
  then show ?case using send_eoi_Some [of m m'] lapic_eoi_ok [of "m_chip m" "m_chip m'"] by (simp add: isr_divide_error_handler_def machine_inv_def)
next
  case (input m b)
  then show ?case by (simp add: machine_inv_def ring_wf_def)
qed (blast intro: syscall_keeps timer_keeps com1_keeps)+

lemma machine_steps_inv: "machine_step\<^sup>*\<^sup>* m m' \<Longrightarrow> machine_inv m \<Longrightarrow> machine_inv m'"
  by (induction rule: rtranclp_induct) (auto intro: machine_step_inv)



section \<open>The end of a program\<close>

text \<open>
  \<open>exit\<close> ends a program only if another task is ready on its processor. Then the handler does not come back: the first ready task runs, and the program waits to be released, and for nothing else.
  Otherwise the handler returns to the program with the registers it had, and the program runs on although it is marked as having exited.
\<close>

lemma exit_trap:
  assumes "machine_inv m" "\<not> mm_held (sheap (k_sched (m_kernel m)))" "c < max_cpus (k_sched (m_kernel m))" "current (k_sched (m_kernel m)) c = Some old" "rax ctx = SYS_EXIT"
  shows "case task_readyqueue (k_sched (m_kernel m)) c of
      [] \<Rightarrow> \<exists>m' x. isr_syscall_handler c ctx m = Some (Resumes ctx m') \<and> current (k_sched (m_kernel m')) c = Some old \<and>
        tasks (k_sched (m_kernel m')) old = Some x \<and> t_status x = TASK_EXIT
    | new # rest \<Rightarrow> \<exists>m'. isr_syscall_handler c ctx m = Some (Switched m') \<and> current (k_sched (m_kernel m')) c = Some new \<and>
        task_readyqueue (k_sched (m_kernel m')) c = rest \<and> task_exitqueue (k_sched (m_kernel m')) c = [old]"
proof -
  let ?s = "k_sched (m_kernel m)"
  have inv: "sched_inv ?s" "lapic_ok (m_chip m)" using assms(1) by (simp_all add: machine_inv_def)
  then have "tasks ?s old \<noteq> None" using assms(3,4) by (auto simp: sched_inv_def cpu_places_def)
  then obtain s1 where s1: "set_status old TASK_EXIT ?s = Some s1" by (auto simp: set_status_def)
  note st = set_status_inv [OF s1]
  obtain x1 where x1: "tasks s1 old = Some x1" "t_status x1 = TASK_EXIT" using st(7) by auto
  obtain s' s2 x where s': "scheduler c s1 = Some s'" "reaped (set (task_exitqueue s1 c)) s1 s2" "tasks s1 old = Some x" "tasks s2 old = Some x"
    "case task_readyqueue s1 c of [] \<Rightarrow> s' = s2\<lparr>task_exitqueue := (task_exitqueue s2)(c := [])\<rparr>
     | new # rest \<Rightarrow> switched c old (t_status x) new rest (s2\<lparr>task_exitqueue := (task_exitqueue s2)(c := [])\<rparr>) s'"
    using scheduler_cases [of s1 c old] inv(1) assms(2-4) st by auto
  have e: "usertask_exit c ?s = Some s'" using assms(3,4) s1 s'(1) by (simp add: usertask_exit_def get_current_def)
  show ?thesis
  proof (cases "task_readyqueue ?s c")
    case Nil
    obtain m' where "syscall_done ctx m ((m_kernel m)\<lparr>k_sched := s'\<rparr>) = Some (Resumes ctx m')" "m_kernel m' = (m_kernel m)\<lparr>k_sched := s'\<rparr>"
      using syscall_done_ok [OF inv(2)] by blast
    then show ?thesis using Nil e s'(2-5) st x1 assms(4,5) by (simp add: isr_syscall_handler_def sys_numbers Let_def reaped_def)
  next
    case (Cons new rest)
    then show ?thesis using e s'(2,3,5) st x1 assms(5) by (simp add: isr_syscall_handler_def sys_numbers Let_def reaped_def switched_def)
  qed
qed

text \<open>A page fault halts the processor, since the gate has turned interrupts off.\<close>

lemma page_fault_halts: "\<not> irq_on (k_sched (m_kernel m)) c \<Longrightarrow> isr_page_fault_handler c error addr m = None"
  by (simp add: isr_page_fault_handler_def hlt_def)

text \<open>\<open>stat\<close> has a number but no case: the call fails whatever its arguments.\<close>

lemma stat_not_dispatched: "rax ctx = SYS_STAT \<Longrightarrow> isr_syscall_handler c ctx m = syscall_done (ctx\<lparr>rax := - 1\<rparr>) m (m_kernel m)"
  by (simp add: isr_syscall_handler_def sys_numbers)

section \<open>An example\<close>

definition sample_machine :: "nat list \<Rightarrow> bytes list machine" where
  "sample_machine ready = \<lparr>m_kernel = \<lparr>k_vfs = sample_vfs, k_vm = small_vm, k_sched = sample_sched ready [], k_mem = (\<lambda>_. 0)\<rparr>,
     m_chip = idle_chip\<lparr>lapic_base := 0xFEE00000, lapic_base_virt := 0xFEE00000, mmio_maps := [(0xFEE00000, 0xFEE00000)]\<rparr>, m_uart = idle_port\<rparr>"

definition regs_with :: "u64 \<Rightarrow> saved_regs" where
  "regs_with nr = \<lparr>r15 = 15, r14 = 14, r13 = 13, r12 = 12, r11 = 11, r10 = 10, r9 = 9, r8 = 8, rbp = 0, rdi = 1, rsi = 2, rdx = 3, rcx = 4, rbx = 5, rax = nr, rflags = 0x202\<rparr>"

lemma sample_machine_inv: "distinct (0 # ready) \<Longrightarrow> machine_inv (sample_machine ready)"
proof -
  assume "distinct (0 # ready)"
  then have "sched_inv (sample_sched ready [])" by (intro sample_sched_inv) simp
  moreover have "vfs_inv sample_vfs" by (rule no_files_inv) (simp add: no_files_def sample_vfs_def)
  moreover have "lapic_ok (m_chip (sample_machine ready))" by (simp add: sample_machine_def lapic_ok_def idle_chip_def)
  ultimately show ?thesis by (simp add: machine_inv_def sample_machine_def)
qed

lemma sample_machine_free:
  "\<not> mm_held (sheap (k_sched (m_kernel (sample_machine ready))))" "unat (fd_count (k_vfs (m_kernel (sample_machine ready)))) + 1 < 2 ^ 32"
  "0 < max_cpus (k_sched (m_kernel (sample_machine ready)))" "current (k_sched (m_kernel (sample_machine ready))) 0 = Some 0" "lapic_ok (m_chip (sample_machine ready))"
  by (simp_all add: sample_machine_def sample_sched_def fresh_heap_def sample_vfs_def lapic_ok_def idle_chip_def)

lemma exit_trap_example:
  "(\<exists>m'. isr_syscall_handler 0 (regs_with 6) (sample_machine [4]) = Some (Switched m') \<and> current (k_sched (m_kernel m')) 0 = Some 4) \<and>
   (\<exists>m'. isr_syscall_handler 0 (regs_with 6) (sample_machine []) = Some (Resumes (regs_with 6) m'))"
proof -
  have r: "rax (regs_with 6) = SYS_EXIT" by (simp add: regs_with_def SYS_EXIT_def)
  have q: "task_readyqueue (k_sched (m_kernel (sample_machine ready))) 0 = ready" for ready by (simp add: sample_machine_def sample_sched_def)
  have "machine_inv (sample_machine [4])" "machine_inv (sample_machine [])" by (simp_all add: sample_machine_inv)
  with exit_trap [OF _ sample_machine_free(1,3,4) r] q show ?thesis by fastforce
qed



end
