(* ===== verification/UserLib.thy ===== *)
theory UserLib
  imports Interrupts
begin

text \<open>
  The user library (\<open>src/src/user/libc.c\<close>): the calls a program makes, down through the system call handler to the file system. The registers are those of the program; the result is the
  value the wrapper returns, with the registers and the machine afterwards. A call that does not come back to the program has no result; what becomes of the machine is then the outcome of the trap.

  The lemmas say that a wrapper passes its arguments and the result of the system call on unchanged, and that a file opened and closed by a program leaves no trace.
\<close>

section \<open>The wrappers\<close>

definition syscall_regs :: "u64 \<Rightarrow> u64 \<Rightarrow> u64 \<Rightarrow> u64 \<Rightarrow> u64 \<Rightarrow> saved_regs \<Rightarrow> saved_regs" where
  "syscall_regs nr a1 a2 a3 a4 regs = regs\<lparr>rax := nr, rdi := a1, rsi := a2, rdx := a3, rcx := a4\<rparr>"

definition syscall :: "nat \<Rightarrow> u64 \<Rightarrow> u64 \<Rightarrow> u64 \<Rightarrow> u64 \<Rightarrow> u64 \<Rightarrow> saved_regs \<Rightarrow> 'f machine \<Rightarrow> (int \<times> saved_regs \<times> 'f machine) option" where
  "syscall c nr a1 a2 a3 a4 regs m = do {
     t \<leftarrow> isr_syscall_handler c (syscall_regs nr a1 a2 a3 a4 regs) m;
     case t of Resumes ctx m \<Rightarrow> Some (sint (ucast (rax ctx) :: u32), ctx, m) | Switched m \<Rightarrow> None }"

definition user_open :: "nat \<Rightarrow> u64 \<Rightarrow> int \<Rightarrow> saved_regs \<Rightarrow> 'f machine \<Rightarrow> (int \<times> saved_regs \<times> 'f machine) option" where
  "user_open c pathname flags regs m = syscall c SYS_OPEN pathname (word_of_int flags) 0 0 regs m"

definition user_close :: "nat \<Rightarrow> int \<Rightarrow> saved_regs \<Rightarrow> 'f machine \<Rightarrow> (int \<times> saved_regs \<times> 'f machine) option" where
  "user_close c fd regs m = syscall c SYS_CLOSE (word_of_int fd) 0 0 0 regs m"

definition user_read :: "nat \<Rightarrow> int \<Rightarrow> u64 \<Rightarrow> u64 \<Rightarrow> saved_regs \<Rightarrow> 'f machine \<Rightarrow> (int \<times> saved_regs \<times> 'f machine) option" where
  "user_read c fd buf count regs m = syscall c SYS_READ (word_of_int fd) buf count 0 regs m"

definition user_write :: "nat \<Rightarrow> int \<Rightarrow> u64 \<Rightarrow> u64 \<Rightarrow> saved_regs \<Rightarrow> 'f machine \<Rightarrow> (int \<times> saved_regs \<times> 'f machine) option" where
  "user_write c fd buf count regs m = syscall c SYS_WRITE (word_of_int fd) buf count 0 regs m"

definition user_sync :: "nat \<Rightarrow> saved_regs \<Rightarrow> 'f machine \<Rightarrow> (saved_regs \<times> 'f machine) option" where
  "user_sync c regs m = map_option snd (syscall c SYS_SYNC 0 0 0 0 regs m)"

definition user_exit :: "nat \<Rightarrow> int \<Rightarrow> saved_regs \<Rightarrow> 'f machine \<Rightarrow> (saved_regs \<times> 'f machine) option" where
  "user_exit c status regs m = map_option snd (syscall c SYS_EXIT (word_of_int status) 0 0 0 regs m)"

section \<open>Values in registers\<close>

text \<open>A C \<open>int\<close> survives the way through a 64-bit register.\<close>

definition int_range :: "int \<Rightarrow> bool" where
  "int_range r \<longleftrightarrow> - (2 ^ 31) \<le> r \<and> r < 2 ^ 31"

lemma int_register: "int_range r \<Longrightarrow> sint (ucast (word_of_int r :: u64) :: u32) = r"
proof -
  assume r: "int_range r"
  have "(ucast (word_of_int r :: u64) :: u32) = word_of_int r" by (rule bit_word_eqI) (simp add: bit_simps)
  moreover have "signed_take_bit 31 r = r" using r by (intro signed_take_bit_int_eq_self) (simp_all add: int_range_def)
  ultimately show ?thesis by (simp add: signed_of_int)
qed

lemma int_range_sint [simp]: "int_range (sint (w :: u32))"
  using sint_ge [of w] sint_lt [of w] by (simp add: int_range_def)

lemma read_mem_cstr: "cstr m p s \<Longrightarrow> read_mem m p (length s) = s"
  by (rule nth_equalityI) (simp_all add: read_mem_def cstr_nth)

lemma c_string_cstr: "cstr m p s \<Longrightarrow> c_string m p = Some s"
  by (simp add: c_string_def strlen_cstr read_mem_cstr)

lemma mode_register: "(ucast (word_of_int flags :: u64) :: u32) = word_of_int flags"
  by (rule bit_word_eqI) (simp add: bit_simps)

section \<open>From the program to the file system\<close>

text \<open>The file system as a call sees it: its heap is the one of the scheduler.\<close>

definition fs_view :: "'f machine \<Rightarrow> 'f vfs" where
  "fs_view m = (k_vfs (m_kernel m))\<lparr>vheap := sheap (k_sched (m_kernel m))\<rparr>"

lemma syscall_returns:
  assumes "isr_syscall_handler c (syscall_regs nr a1 a2 a3 a4 regs) m = syscall_done (ctx\<lparr>rax := word_of_int r\<rparr>) m k" "lapic_ok (m_chip m)" "int_range r"
  shows "\<exists>m'. syscall c nr a1 a2 a3 a4 regs m = Some (r, ctx\<lparr>rax := word_of_int r\<rparr>, m') \<and> m_kernel m' = k \<and> lapic_ok (m_chip m')"
proof -
  obtain m' where m': "syscall_done (ctx\<lparr>rax := word_of_int r\<rparr>) m k = Some (Resumes (ctx\<lparr>rax := word_of_int r\<rparr>) m')" "m_kernel m' = k"
    using syscall_done_ok [OF assms(2)] by blast
  have "lapic_ok (m_chip m')" by (rule syscall_done_Some [OF m'(1)]) (use lapic_eoi_ok [OF assms(2)] in auto)
  then show ?thesis using m' assms(1) int_register [OF assms(3)] by (simp add: syscall_def)
qed

lemma user_open_call:
  assumes "cstr (k_mem (m_kernel m)) pathname p" "sys_open (fs_view m) p (word_of_int flags) = Some (r, s)" "lapic_ok (m_chip m)" "int_range r"
  shows "\<exists>regs' m'. user_open c pathname flags regs m = Some (r, regs', m') \<and> k_vfs (m_kernel m') = s \<and> fs_view m' = s \<and> lapic_ok (m_chip m')"
proof -
  let ?ctx = "syscall_regs SYS_OPEN pathname (word_of_int flags) 0 0 regs"
  let ?k = "(m_kernel m)\<lparr>k_vfs := s, k_sched := (k_sched (m_kernel m))\<lparr>sheap := vheap s\<rparr>\<rparr>"
  have "isr_syscall_handler c ?ctx m = syscall_done (?ctx\<lparr>rax := word_of_int r\<rparr>) m ?k"
    using assms(2) c_string_cstr [OF assms(1)] by (simp add: isr_syscall_handler_def syscall_regs_def on_vfs_def fs_view_def mode_register Let_def)
  from syscall_returns [OF this assms(3,4)] show ?thesis by (auto simp: user_open_def fs_view_def)
qed

lemma user_close_call:
  assumes "sys_close (fs_view m) fd = Some (r, s)" "lapic_ok (m_chip m)" "int_range r" "int_range fd"
  shows "\<exists>regs' m'. user_close c fd regs m = Some (r, regs', m') \<and> k_vfs (m_kernel m') = s \<and> fs_view m' = s \<and> lapic_ok (m_chip m')"
proof -
  let ?ctx = "syscall_regs SYS_CLOSE (word_of_int fd) 0 0 0 regs"
  let ?k = "(m_kernel m)\<lparr>k_vfs := s, k_sched := (k_sched (m_kernel m))\<lparr>sheap := vheap s\<rparr>\<rparr>"
  have "isr_syscall_handler c ?ctx m = syscall_done (?ctx\<lparr>rax := word_of_int r\<rparr>) m ?k"
    using assms(1) int_register [OF assms(4)] by (simp add: isr_syscall_handler_def syscall_regs_def on_vfs_def fs_view_def sys_numbers Let_def)
  from syscall_returns [OF this assms(2,3)] show ?thesis by (auto simp: user_close_def fs_view_def)
qed

lemma user_read_call:
  assumes "sys_read (fs_view m) fd (unat count) = Some (r, d, s)" "lapic_ok (m_chip m)" "int_range r" "int_range fd"
  shows "\<exists>regs' m'. user_read c fd buf count regs m = Some (r, regs', m') \<and> k_vfs (m_kernel m') = s \<and> fs_view m' = s \<and>
    k_mem (m_kernel m') = write_mem buf d (k_mem (m_kernel m)) \<and> lapic_ok (m_chip m')"
proof -
  let ?ctx = "syscall_regs SYS_READ (word_of_int fd) buf count 0 regs"
  let ?k = "(m_kernel m)\<lparr>k_vfs := s, k_sched := (k_sched (m_kernel m))\<lparr>sheap := vheap s\<rparr>, k_mem := write_mem buf d (k_mem (m_kernel m))\<rparr>"
  have "isr_syscall_handler c ?ctx m = syscall_done (?ctx\<lparr>rax := word_of_int r\<rparr>) m ?k"
    using assms(1) int_register [OF assms(4)] by (simp add: isr_syscall_handler_def syscall_regs_def on_vfs_def fs_view_def sys_numbers Let_def)
  from syscall_returns [OF this assms(2,3)] show ?thesis by (auto simp: user_read_def fs_view_def)
qed

lemma user_write_call:
  assumes "sys_write (fs_view m) fd (read_mem (k_mem (m_kernel m)) buf (unat count)) = Some (r, s)" "lapic_ok (m_chip m)" "int_range r" "int_range fd"
  shows "\<exists>regs' m'. user_write c fd buf count regs m = Some (r, regs', m') \<and> k_vfs (m_kernel m') = s \<and> fs_view m' = s \<and>
    k_mem (m_kernel m') = k_mem (m_kernel m) \<and> lapic_ok (m_chip m')"
proof -
  let ?ctx = "syscall_regs SYS_WRITE (word_of_int fd) buf count 0 regs"
  let ?k = "(m_kernel m)\<lparr>k_vfs := s, k_sched := (k_sched (m_kernel m))\<lparr>sheap := vheap s\<rparr>\<rparr>"
  have "isr_syscall_handler c ?ctx m = syscall_done (?ctx\<lparr>rax := word_of_int r\<rparr>) m ?k"
    using assms(1) int_register [OF assms(4)] by (simp add: isr_syscall_handler_def syscall_regs_def on_vfs_def fs_view_def sys_numbers Let_def)
  from syscall_returns [OF this assms(2,3)] show ?thesis by (auto simp: user_write_def fs_view_def)
qed

text \<open>
  C20: A program that opens and closes a file leaves no trace. In every state of the file system that system calls can reach, when opening the path the program points to would succeed (with the heap not
  exhausted, and file systems that can release what is open), the program gets the descriptor of the file system from \<open>open\<close> and 0 from \<open>close\<close>, through the registers and the trap,
  and the open files, the dentry cache and all reference counts are what they were.
\<close>

theorem user_open_close:
  assumes "vfs_reachable (fs_view m)" and "cstr (k_mem (m_kernel m)) pathname p" and "sys_open (fs_view m) p (word_of_int flags) = Some (fd, s)"
    and "0 \<le> fd" and "fd < 2 ^ 31" and "roomy (vheap s)" and "releases s" and "lapic_ok (m_chip m)"
  shows "\<exists>regs1 m1 regs2 m2. user_open c pathname flags regs m = Some (fd, regs1, m1) \<and> user_close c fd regs1 m1 = Some (0, regs2, m2) \<and>
    file_list (k_vfs (m_kernel m1)) = file_list s \<and> file_list (k_vfs (m_kernel m2)) = file_list (k_vfs (m_kernel m)) \<and>
    dentry_list (k_vfs (m_kernel m2)) = dentry_list (k_vfs (m_kernel m)) \<and> dentries (k_vfs (m_kernel m2)) = dentries (k_vfs (m_kernel m))"
proof -
  have r: "int_range fd" "int_range 0" using assms(4,5) by (simp_all add: int_range_def)
  obtain regs1 m1 where 1: "user_open c pathname flags regs m = Some (fd, regs1, m1)" "k_vfs (m_kernel m1) = s" "fs_view m1 = s" "lapic_ok (m_chip m1)"
    using user_open_call [OF assms(2,3,8) r(1)] by blast
  obtain s2 where s2: "sys_close s fd = Some (0, s2)" "file_list s2 = file_list (fs_view m)" "dentry_list s2 = dentry_list (fs_view m)" "dentries s2 = dentries (fs_view m)"
    using open_close_restores [OF assms(1,3,4,6,7)] by blast
  obtain regs2 m2 where 2: "user_close c fd regs1 m1 = Some (0, regs2, m2)" "k_vfs (m_kernel m2) = s2"
    using user_close_call [of m1 fd 0 s2] s2(1) 1(3,4) r by blast
  show ?thesis using 1(1,2) 2 s2(2-4) by (intro exI [of _ regs1] exI [of _ m1] exI [of _ regs2] exI [of _ m2]) (simp add: fs_view_def)
qed

definition path_machine :: "bytes list machine" where
  "path_machine = (sample_machine [])\<lparr>m_kernel := (m_kernel (sample_machine []))\<lparr>k_mem := (\<lambda>a. if a = 0x400000 then 47 else if a = 0x400001 then 97 else 0)\<rparr>\<rparr>"

theorem user_open_close_witness:
  "\<exists>regs1 m1 regs2 m2. user_open 0 0x400000 0 (regs_with 0) path_machine = Some (0, regs1, m1) \<and> user_close 0 0 regs1 m1 = Some (0, regs2, m2) \<and>
    length (file_list (k_vfs (m_kernel m1))) = 1 \<and> file_list (k_vfs (m_kernel m2)) = []"
proof -
  have k: "k_vfs (m_kernel path_machine) = sample_vfs" "k_mem (m_kernel path_machine) = (\<lambda>a. if a = 0x400000 then 47 else if a = 0x400001 then 97 else 0)"
    "lapic_ok (m_chip path_machine)" using sample_machine_free(5) [of "[]"] by (simp_all add: path_machine_def) (simp add: sample_machine_def)
  have v: "fs_view path_machine = sample_vfs" by (simp add: fs_view_def path_machine_def sample_machine_def sample_vfs_def sample_sched_def)
  obtain s1 where s1: "sys_open sample_vfs (ascii ''/a'') 0 = Some (0, s1)" "roomy (vheap s1)" "file_list s1 = [\<lparr>f_fd = 0, f_dentry = 0\<rparr>]" "mount_list s1 = mount_list sample_vfs"
    using sample_open by blast
  have "vfs_reachable (fs_view path_machine)" unfolding v by (rule vfs_reachable.start) (simp add: no_files_def sample_vfs_def)
  moreover have "cstr (k_mem (m_kernel path_machine)) 0x400000 (ascii ''/a'')" unfolding k(2) by (simp add: ascii_def)
  moreover have "fs_ops (mnt_fstype x) = sample_ops" if "mount_match (mount_list s1) q = Some x" for q x
    using mount_match_mem [OF that] s1(4) by (simp add: sample_vfs_def)
  then have "releases s1" by (auto simp: releases_def sample_ops_def)
  moreover have "sys_open (fs_view path_machine) (ascii ''/a'') (word_of_int 0) = Some (0, s1)" using s1(1) v by simp
  ultimately obtain regs1 m1 regs2 m2 where "user_open 0 0x400000 0 (regs_with 0) path_machine = Some (0, regs1, m1)" "user_close 0 0 regs1 m1 = Some (0, regs2, m2)"
    "file_list (k_vfs (m_kernel m1)) = file_list s1" "file_list (k_vfs (m_kernel m2)) = file_list (k_vfs (m_kernel path_machine))"
    using user_open_close [where m = path_machine and s = s1 and c = 0 and regs = "regs_with 0" and pathname = "0x400000" and fd = 0 and flags = 0 and p = "ascii ''/a''"] s1(2) k(3)
    by auto
  moreover have "file_list sample_vfs = []" by (simp add: sample_vfs_def)
  ultimately show ?thesis using s1(3) k(1) by (intro exI [of _ regs1] exI [of _ m1] exI [of _ regs2] exI [of _ m2]) simp
qed

text \<open>After \<open>exit\<close> the program goes on exactly if no other task is ready on its processor.\<close>

lemma user_exit_returns:
  assumes "machine_inv m" "\<not> mm_held (sheap (k_sched (m_kernel m)))" "c < max_cpus (k_sched (m_kernel m))" "current (k_sched (m_kernel m)) c = Some old"
  shows "(\<exists>r. user_exit c status regs m = Some r) \<longleftrightarrow> task_readyqueue (k_sched (m_kernel m)) c = []"
  using exit_trap [OF assms, of "syscall_regs SYS_EXIT (word_of_int status) 0 0 0 regs"]
  by (cases "task_readyqueue (k_sched (m_kernel m)) c") (auto simp: user_exit_def syscall_def syscall_regs_def)

end
