(* ===== verification/Initcalls.thy ===== *)
theory Initcalls
  imports Prelude
begin

text \<open>
  Initialisation and exit calls (\<open>src/src/init.c\<close>, \<open>src/inc/init.h\<close>, and the sections of \<open>src/linker.ld\<close>). A driver puts a pointer to its function into the section of its level; the linker places
  the sections one behind the other, in the order 0 to 7 for the initialisation calls and 7 to 0 for the exit calls; the kernel calls the functions through the pointers. The functions are arguments: they
  change a state of any type, and may not return. The console is the list of the messages written to it.

  The lemmas say that the initialisation calls run in the order of their levels, each once, and are announced with their level, whereas every exit call is announced with level 7.
\<close>

section \<open>Sections and calls\<close>

datatype message = Initcall nat nat | Initcall_error u64 int | Exitcall nat nat

type_synonym 's initcall = "'s \<Rightarrow> (int \<times> 's) option"
type_synonym 's exitcall = "'s \<Rightarrow> 's option"

text \<open>The address of section number \<open>n\<close> in the order of the linker script, for the lengths of the sections in that order.\<close>

definition section_start :: "u64 \<Rightarrow> nat list \<Rightarrow> nat \<Rightarrow> u64" where
  "section_start base lens n = base + of_nat (8 * sum_list (take n lens))"

definition get_initcall_level :: "(nat \<Rightarrow> u64) \<Rightarrow> u64 \<Rightarrow> nat" where
  "get_initcall_level start fn =
     (if start 7 \<le> fn then 7
      else if start 6 \<le> fn then 6
      else if start 5 \<le> fn then 5
      else if start 4 \<le> fn then 4
      else if start 3 \<le> fn then 3
      else if start 2 \<le> fn then 2
      else if start 1 \<le> fn then 1
      else 0)"

definition get_exitcall_level :: "(nat \<Rightarrow> u64) \<Rightarrow> u64 \<Rightarrow> nat" where
  "get_exitcall_level start fn =
     (if start 7 \<le> fn then 7
      else if start 6 \<le> fn then 6
      else if start 5 \<le> fn then 5
      else if start 4 \<le> fn then 4
      else if start 3 \<le> fn then 3
      else if start 2 \<le> fn then 2
      else if start 1 \<le> fn then 1
      else 0)"

text \<open>The table holds, at the address of a pointer, the function it points to and that function's address.\<close>

partial_function (option) initcalls_loop ::
  "(u64 \<Rightarrow> ('s initcall \<times> u64) option) \<Rightarrow> (nat \<Rightarrow> u64) \<Rightarrow> u64 \<Rightarrow> u64 \<Rightarrow> nat \<Rightarrow> 's \<Rightarrow> message list \<Rightarrow> ('s \<times> message list) option" where
  "initcalls_loop table start last_fn fn count s out =
     (if fn < last_fn then do {
        (f, a) \<leftarrow> table fn;
        (ret, s) \<leftarrow> f s;
        let out = out @ [Initcall count (get_initcall_level start fn)];
        let out = (if ret \<noteq> 0 then out @ [Initcall_error a ret] else out);
        initcalls_loop table start last_fn (fn + 8) (wrap64 (count + 1)) s out }
      else Some (s, out))"

definition do_initcalls :: "(u64 \<Rightarrow> ('s initcall \<times> u64) option) \<Rightarrow> (nat \<Rightarrow> u64) \<Rightarrow> u64 \<Rightarrow> 's \<Rightarrow> ('s \<times> message list) option" where
  "do_initcalls table start last_fn s = initcalls_loop table start last_fn (start 0) 0 s []"

partial_function (option) exitcalls_loop ::
  "(u64 \<Rightarrow> 's exitcall option) \<Rightarrow> (nat \<Rightarrow> u64) \<Rightarrow> u64 \<Rightarrow> u64 \<Rightarrow> nat \<Rightarrow> 's \<Rightarrow> message list \<Rightarrow> ('s \<times> message list) option" where
  "exitcalls_loop table start last_fn fn count s out =
     (if fn < last_fn then do {
        let out = out @ [Exitcall count (get_exitcall_level start fn)];
        f \<leftarrow> table fn;
        s \<leftarrow> f s;
        exitcalls_loop table start last_fn (fn + 8) (wrap64 (count + 1)) s out }
      else Some (s, out))"

definition do_exitcalls :: "(u64 \<Rightarrow> 's exitcall option) \<Rightarrow> (nat \<Rightarrow> u64) \<Rightarrow> u64 \<Rightarrow> u64 \<Rightarrow> 's \<Rightarrow> ('s \<times> message list) option" where
  "do_exitcalls table start first_fn last_fn s = exitcalls_loop table start last_fn first_fn 0 s []"

section \<open>The order of the calls\<close>

text \<open>The intended meaning: the calls of all levels in a row, each with its level.\<close>

definition by_level :: "'a list list \<Rightarrow> (nat \<times> 'a) list" where
  "by_level secs = concat (map (\<lambda>i. map (Pair i) (secs ! i)) [0..<length secs])"

primrec run_initcalls :: "(nat \<times> 's initcall \<times> u64) list \<Rightarrow> nat \<Rightarrow> 's \<Rightarrow> message list \<Rightarrow> ('s \<times> message list) option" where
  "run_initcalls [] count s out = Some (s, out)"
| "run_initcalls (c # cs) count s out =
     (case c of (level, f, a) \<Rightarrow> do {
        (ret, s) \<leftarrow> f s;
        run_initcalls cs (Suc count) s (out @ Initcall count level # (if ret = 0 then [] else [Initcall_error a ret])) })"

primrec run_exitcalls :: "'s exitcall list \<Rightarrow> nat \<Rightarrow> 's \<Rightarrow> message list \<Rightarrow> ('s \<times> message list) option" where
  "run_exitcalls [] count s out = Some (s, out)"
| "run_exitcalls (f # fs) count s out = do { s \<leftarrow> f s; run_exitcalls fs (Suc count) s (out @ [Exitcall count 7]) }"

text \<open>Pointers in a row from an address on.\<close>

definition holds_pointers :: "(u64 \<Rightarrow> 'a option) \<Rightarrow> u64 \<Rightarrow> 'a list \<Rightarrow> bool" where
  "holds_pointers table base xs \<longleftrightarrow> (\<forall>k < length xs. table (base + of_nat (8 * k)) = Some (xs ! k))"

lemma length_by_level: "length (by_level secs) = sum_list (map length secs)"
proof -
  have "map (\<lambda>i. length (secs ! i)) [0..<length secs] = map length secs" by (rule nth_equalityI) simp_all
  then show ?thesis by (simp add: by_level_def length_concat comp_def)
qed

lemma by_level_snoc: "by_level (secs @ [xs]) = by_level secs @ map (Pair (length secs)) xs"
proof -
  have "map (\<lambda>i. map (Pair i) ((secs @ [xs]) ! i)) [0..<length secs] = map (\<lambda>i. map (Pair i) (secs ! i)) [0..<length secs]" by (rule map_cong) (simp_all add: nth_append)
  then show ?thesis by (simp add: by_level_def del: map_eq_conv)
qed

lemma by_level_snd: "map snd (by_level secs) = concat secs"
  by (induction secs rule: rev_induct) (simp add: by_level_def, simp add: by_level_snoc comp_def)

text \<open>The level of the \<open>k\<close>th call is the last section that does not start behind it.\<close>

lemma by_level_nth:
  "k < length (by_level secs) \<Longrightarrow> fst (by_level secs ! k) < length secs \<and>
    sum_list (take (fst (by_level secs ! k)) (map length secs)) \<le> k \<and> k < sum_list (take (Suc (fst (by_level secs ! k))) (map length secs))"
proof (induction secs rule: rev_induct)
  case Nil
  then show ?case by (simp add: by_level_def)
next
  case (snoc xs secs)
  show ?case
  proof (cases "k < length (by_level secs)")
    case True
    then show ?thesis using snoc.IH by (simp add: by_level_snoc nth_append)
  next
    case False
    have "k < length (by_level secs) + length xs" using snoc.prems by (simp add: by_level_snoc)
    moreover from this False have "fst (by_level (secs @ [xs]) ! k) = length secs" by (simp add: by_level_snoc nth_append)
    ultimately show ?thesis using False by (simp add: length_by_level)
  qed
qed

lemma sum_take_mono: "i \<le> j \<Longrightarrow> sum_list (take i ns) \<le> sum_list (take j (ns :: nat list))"
proof -
  assume "i \<le> j"
  then have "take j ns = take i ns @ take (j - i) (drop i ns)" by (metis le_add_diff_inverse take_add)
  then show ?thesis by simp
qed

lemma section_compare:
  assumes "unat base + 8 * sum_list lens < 2 ^ 64" "k < sum_list lens"
  shows "section_start base lens n \<le> base + of_nat (8 * k) \<longleftrightarrow> sum_list (take n lens) \<le> k"
proof -
  have "sum_list (take n lens) \<le> sum_list lens" using sum_take_mono [of n "max n (length lens)" lens] by simp
  then have "unat (section_start base lens n) = unat base + 8 * sum_list (take n lens)"
    using assms(1) unfolding section_start_def by (intro unat_add_of_nat) simp
  moreover have "unat (base + of_nat (8 * k)) = unat base + 8 * k" using assms by (intro unat_add_of_nat) simp
  ultimately show ?thesis by (simp add: word_le_nat_alt)
qed

lemma get_initcall_level_correct:
  assumes "length secs = 8" "unat base + 8 * length (by_level secs) < 2 ^ 64" "k < length (by_level secs)"
  shows "get_initcall_level (section_start base (map length secs)) (base + of_nat (8 * k)) = fst (by_level secs ! k)"
proof -
  let ?i = "fst (by_level secs ! k)"
  note i = by_level_nth [OF assms(3)]
  have "section_start base (map length secs) n \<le> base + of_nat (8 * k) \<longleftrightarrow> n \<le> ?i" for n
  proof -
    have "sum_list (take n (map length secs)) \<le> k \<longleftrightarrow> n \<le> ?i"
      using i sum_take_mono [of n ?i "map length secs"] sum_take_mono [of "Suc ?i" n "map length secs"] by (cases "n \<le> ?i") auto
    then show ?thesis using section_compare [of base "map length secs" k n] assms(2,3) by (simp add: length_by_level)
  qed
  then show ?thesis using i assms(1) by (auto simp: get_initcall_level_def)
qed

lemma pointer_bound:
  assumes "unat base + 8 * n < 2 ^ 64" "k \<le> n"
  shows "base + of_nat (8 * k) < base + of_nat (8 * n) \<longleftrightarrow> k < n" "base + of_nat (8 * k) + 8 = base + (of_nat (8 * Suc k) :: u64)"
proof -
  have "unat (base + of_nat (8 * k)) = unat base + 8 * k" "unat (base + of_nat (8 * n)) = unat base + 8 * n"
    using assms by (intro unat_add_of_nat; simp)+
  then show "base + of_nat (8 * k) < base + of_nat (8 * n) \<longleftrightarrow> k < n" by (simp add: word_less_nat_alt)
  show "base + of_nat (8 * k) + 8 = base + (of_nat (8 * Suc k) :: u64)" by (simp add: algebra_simps)
qed

lemma next_pointer: "base + of_nat (8 * Suc k) = base + (8 + of_nat (8 * k) :: u64)"
  by simp

lemma initcalls_loop_run:
  assumes "length secs = 8" "unat base + 8 * length (by_level secs) < 2 ^ 64" "holds_pointers table base (concat secs)" "k \<le> length (by_level secs)"
  shows "initcalls_loop table (section_start base (map length secs)) (base + of_nat (8 * length (by_level secs))) (base + of_nat (8 * k)) k s out =
    run_initcalls (drop k (by_level secs)) k s out"
  using assms(4)
proof (induction "length (by_level secs) - k" arbitrary: k s out)
  case 0
  then have "k = length (by_level secs)" by simp
  then show ?case using pointer_bound(1) [OF assms(2), of k] by (subst initcalls_loop.simps) simp
next
  case (Suc n)
  have k: "k < length (by_level secs)" using Suc.hyps(2) by simp
  obtain l f a where c: "by_level secs ! k = (l, f, a)" by (cases "by_level secs ! k") auto
  have d: "drop k (by_level secs) = (l, f, a) # drop (Suc k) (by_level secs)" using k c by (simp add: Cons_nth_drop_Suc [symmetric])
  have len: "length (concat secs) = length (by_level secs)" by (simp add: by_level_snd [symmetric])
  have t: "table (base + of_nat (8 * k)) = Some (f, a)"
    using assms(3) k c len by (simp add: holds_pointers_def by_level_snd [symmetric])
  have l: "get_initcall_level (section_start base (map length secs)) (base + of_nat (8 * k)) = l" using get_initcall_level_correct [OF assms(1,2) k] c by simp
  have w: "wrap64 (Suc k) = Suc k" using k assms(2) by simp
  have IH: "initcalls_loop table (section_start base (map length secs)) (base + of_nat (8 * length (by_level secs))) (base + of_nat (8 * Suc k)) (Suc k) s out =
    run_initcalls (drop (Suc k) (by_level secs)) (Suc k) s out" for s out by (rule Suc.hyps(1)) (use Suc.hyps(2) in simp_all)
  have o: "(if ret \<noteq> 0 then (out @ [x]) @ [y] else out @ [x]) = out @ x # (if ret = 0 then [] else [y])" for ret :: int and x y by simp
  show ?case
    using k by (subst initcalls_loop.simps) (simp add: pointer_bound [OF assms(2)] t l w IH [unfolded next_pointer] d o Let_def del: of_nat_mult of_nat_Suc)
qed

text \<open>
  C39: The initialisation calls run in the order of their levels. With the sections laid out as the linker does, \<open>do_initcalls\<close> calls the functions of level 0, then of level 1, up to level 7, within a level in
  the order of the pointers, each exactly once; it announces each with its own level, also when sections are empty, and an error return is reported and does not keep the later calls from
  running. It returns if all of the functions do.
\<close>

theorem do_initcalls_order:
  assumes "length secs = 8" "unat base + 8 * length (concat secs) < 2 ^ 64" "holds_pointers table base (concat secs)"
  shows "do_initcalls table (section_start base (map length secs)) (base + of_nat (8 * length (concat secs))) s = run_initcalls (by_level secs) 0 s []"
proof -
  have len: "length (concat secs) = length (by_level secs)" by (simp add: by_level_snd [symmetric])
  have "section_start base (map length secs) 0 = base + of_nat (8 * 0)" by (simp add: section_start_def)
  then show ?thesis using initcalls_loop_run [OF assms(1) _ assms(3), of 0 s "[]"] assms(2) len by (simp add: do_initcalls_def)
qed

text \<open>Two functions, one in level 4 that fails and one in level 6, on a counter.\<close>

definition two_calls :: "nat initcall list" where
  "two_calls = [\<lambda>s. Some (- 5, s + 1), \<lambda>s. Some (0, s * 10)]"

definition two_table :: "u64 \<Rightarrow> (nat initcall \<times> u64) option" where
  "two_table p = (if p = 0x1000 then Some (two_calls ! 0, 0x77) else if p = 0x1008 then Some (two_calls ! 1, 0x88) else None)"

theorem do_initcalls_order_witness:
  "do_initcalls two_table (section_start 0x1000 [0, 0, 0, 0, 1, 0, 1, 0]) 0x1010 2 = Some (30, [Initcall 0 4, Initcall_error 0x77 (- 5), Initcall 1 6])"
proof -
  let ?secs = "[[], [], [], [], [(two_calls ! 0, 0x77)], [], [(two_calls ! 1, 0x88)], []] :: (nat initcall \<times> u64) list list"
  have "holds_pointers two_table 0x1000 (concat ?secs)" by (simp add: holds_pointers_def two_table_def less_Suc_eq)
  from do_initcalls_order [of ?secs, OF _ _ this, of 2] have "do_initcalls two_table (section_start 0x1000 [0, 0, 0, 0, 1, 0, 1, 0]) 0x1010 2 = run_initcalls (by_level ?secs) 0 2 []"
    by simp
  also have "by_level ?secs = [(4, two_calls ! 0, 0x77), (6, two_calls ! 1, 0x88)]" by (simp add: by_level_def upt_rec)
  finally show ?thesis by (simp add: two_calls_def)
qed

section \<open>Exit calls\<close>

text \<open>
  The exit sections lie in the order 7 to 0, so section 7 starts where the table does and \<open>get_exitcall_level\<close> finds level 7 for every pointer: the calls run in the right order, but every one is announced
  as a late one.
\<close>

definition exit_start :: "u64 \<Rightarrow> nat list \<Rightarrow> nat \<Rightarrow> u64" where
  "exit_start base lens n = section_start base lens (7 - n)"

lemma exitcall_level_always_7:
  assumes "unat base + 8 * sum_list lens < 2 ^ 64" "k < sum_list lens"
  shows "get_exitcall_level (exit_start base lens) (base + of_nat (8 * k)) = 7"
  using section_compare [OF assms, of 0] by (simp add: get_exitcall_level_def exit_start_def)

lemma exitcalls_loop_run:
  assumes "unat base + 8 * length (concat secs) < 2 ^ 64" "holds_pointers table base (concat secs)" "k \<le> length (concat secs)"
  shows "exitcalls_loop table (exit_start base (map length secs)) (base + of_nat (8 * length (concat secs))) (base + of_nat (8 * k)) k s out =
    run_exitcalls (drop k (concat secs)) k s out"
  using assms(3)
proof (induction "length (concat secs) - k" arbitrary: k s out)
  case 0
  then have "k = length (concat secs)" by simp
  then show ?case using pointer_bound(1) [OF assms(1), of k] by (subst exitcalls_loop.simps) simp
next
  case (Suc n)
  have k: "k < length (concat secs)" using Suc.hyps(2) by simp
  have d: "drop k (concat secs) = concat secs ! k # drop (Suc k) (concat secs)" using k by (simp add: Cons_nth_drop_Suc [symmetric])
  have t: "table (base + of_nat (8 * k)) = Some (concat secs ! k)" using assms(2) k by (simp add: holds_pointers_def)
  have l: "get_exitcall_level (exit_start base (map length secs)) (base + of_nat (8 * k)) = 7"
    using exitcall_level_always_7 [of base "map length secs" k] assms(1) k by (simp add: length_concat)
  have w: "wrap64 (Suc k) = Suc k" using k assms(1) by simp
  have IH: "exitcalls_loop table (exit_start base (map length secs)) (base + of_nat (8 * length (concat secs))) (base + of_nat (8 * Suc k)) (Suc k) s out =
    run_exitcalls (drop (Suc k) (concat secs)) (Suc k) s out" for s out by (rule Suc.hyps(1)) (use Suc.hyps(2) in simp_all)
  show ?case
    using k by (subst exitcalls_loop.simps) (simp add: pointer_bound [OF assms(1)] t l w IH [unfolded next_pointer] d Let_def del: of_nat_mult of_nat_Suc length_concat)
qed

lemma do_exitcalls_order:
  assumes "unat base + 8 * length (concat secs) < 2 ^ 64" "holds_pointers table base (concat secs)"
  shows "do_exitcalls table (exit_start base (map length secs)) base (base + of_nat (8 * length (concat secs))) s = run_exitcalls (concat secs) 0 s []"
  using exitcalls_loop_run [OF assms, of 0 s "[]"] by (simp add: do_exitcalls_def)

end
