(* ===== verification/Smp.thy ===== *)
theory Smp
  imports Loader Irqchip Tsc
begin

text \<open>
  Starting the other processors (\<open>src/src/smp.c\<close>, \<open>src/src/ap_main.c\<close>). The boot processor counts the processors, copies the start-up code to the page at \<open>0x8000\<close>, puts the root of the page tables and a stack for
  every processor behind it, and wakes the processors one after the other by messages of its local APIC; each of them then sets up its own tables and becomes an idle thread.

  The results of \<open>cpuid\<close> and the addresses of the assembly code are arguments. The state has what the call works on: the firmware tables and the code in memory, the page tables, the scheduler with the
  heap and the array \<open>ap_ids\<close>, the local APIC and the tick counter.

  The lemmas say which messages are sent and what the other processors find in the page, and that the call goes on only if the page was mapped before.
\<close>

section \<open>The boot processor\<close>

definition AP_BASE :: u64 where "AP_BASE = 0x8000"
definition AP_STACK_SIZE :: nat where "AP_STACK_SIZE = 512 * 1024"
definition TRAMPOLINE_VECTOR :: u8 where "TRAMPOLINE_VECTOR = 0x08"

record cpu_ident =
  max_leaf :: u32
  leaf_b :: "u32 \<times> u32 \<times> u32 \<times> u32"
  leaf_1 :: "u32 \<times> u32 \<times> u32 \<times> u32"

record trampoline =
  ap_trampoline_start :: u64
  ap_trampoline_end :: u64
  ap_cr3 :: u64
  ap_stack_array :: u64

record smp_state =
  bsp_id :: u32
  ap_count :: u32
  s_mem :: mem
  s_vm :: vm_state
  s_sched :: sched
  s_chip :: irqchip
  s_time :: timebase

definition get_current_apic_id :: "cpu_ident \<Rightarrow> u32" where
  "get_current_apic_id i =
     (let (eax, ebx, ecx, edx) = leaf_b i
      in if 0xB \<le> max_leaf i \<and> ebx \<noteq> 0 then edx
         else let (eax, ebx, ecx, edx) = leaf_1 i in drop_bit 24 ebx AND 0xFF)"

definition get_bsp_id :: "smp_state \<Rightarrow> u64" where
  "get_bsp_id s = ucast (bsp_id s)"

definition ap_startup :: "u8 \<Rightarrow> irqchip \<Rightarrow> timebase \<Rightarrow> (irqchip \<times> timebase) option" where
  "ap_startup apic_id a t = do {
     a \<leftarrow> lapic_send_init apic_id a;
     t \<leftarrow> mdelay 10 t;
     a \<leftarrow> lapic_send_sipi apic_id TRAMPOLINE_VECTOR a;
     t \<leftarrow> mdelay 1 t;
     a \<leftarrow> lapic_send_sipi apic_id TRAMPOLINE_VECTOR a;
     t \<leftarrow> mdelay 1 t;
     Some (a, t) }"

definition put64 :: "u64 \<Rightarrow> u64 \<Rightarrow> mem \<Rightarrow> mem" where
  "put64 p v m = write_mem p (le64 v) m"

text \<open>A stack for every processor but this one; \<open>kzalloc\<close> clears it. The result of \<open>kzalloc\<close> is not checked.\<close>

primrec stack_loop :: "u32 \<Rightarrow> u64 \<Rightarrow> u32 list \<Rightarrow> nat \<Rightarrow> mem \<Rightarrow> sched \<Rightarrow> (mem \<times> sched) option" where
  "stack_loop bsp slot [] i m s = Some (m, s)"
| "stack_loop bsp slot (x # xs) i m s =
     (if x = bsp then stack_loop bsp slot xs (Suc i) m s
      else do {
        (a, s) \<leftarrow> alloc_block AP_STACK_SIZE s;
        let m = (if a = 0 then m else write_mem a (replicate AP_STACK_SIZE 0) m);
        stack_loop bsp slot xs (Suc i) (put64 (slot + of_nat (8 * i)) (a + of_nat AP_STACK_SIZE) m) s })"

primrec startup_loop :: "u32 \<Rightarrow> u32 list \<Rightarrow> irqchip \<Rightarrow> timebase \<Rightarrow> (irqchip \<times> timebase) option" where
  "startup_loop bsp [] a t = Some (a, t)"
| "startup_loop bsp (x # xs) a t =
     (if x = bsp then startup_loop bsp xs a t
      else do { (a, t) \<leftarrow> ap_startup (ucast x) a t; startup_loop bsp xs a t })"

definition store_ids :: "u32 list \<Rightarrow> sched \<Rightarrow> sched" where
  "store_ids ids s = s\<lparr>ap_ids := (\<lambda>i. if i < length ids then unat (ids ! i) else ap_ids s i)\<rparr>"

definition smp_init :: "cpu_ident \<Rightarrow> acpi \<Rightarrow> trampoline \<Rightarrow> smp_state \<Rightarrow> (int \<times> smp_state) option" where
  "smp_init ident tables code s = do {
     let s = s\<lparr>bsp_id := get_current_apic_id ident\<rparr>;
     (n, ids) \<leftarrow> acpi_madt_smp_counter (s_mem s) tables;
     let s = s\<lparr>ap_count := n, s_sched := store_ids ids (s_sched s)\<rparr>;
     (ret, v) \<leftarrow> map_page_range (s_vm s) AP_BASE AP_BASE MAP_KERN_RW 1;
     let s = s\<lparr>s_vm := v\<rparr>;
     if ret \<noteq> - MAP_ERR_EXIST then None
     else do {
       let start = ap_trampoline_start code;
       let m = memcpy (s_mem s) AP_BASE start (unat (ap_trampoline_end code - start));
       let m = put64 (ap_cr3 code - start + AP_BASE) (vm_state.cr3 (s_vm s)) m;
       let slot = ap_stack_array code - start + AP_BASE;
       let ids = take (unat (ap_count s)) ids;
       (m, sc) \<leftarrow> stack_loop (bsp_id s) slot ids 0 m (s_sched s);
       let c = unat (bsp_id s);
       let sc = sc\<lparr>irq_on := (irq_on sc)(c := True)\<rparr>;
       (a, t) \<leftarrow> startup_loop (bsp_id s) ids (s_chip s) (s_time s);
       let sc = sc\<lparr>irq_on := (irq_on sc)(c := False)\<rparr>;
       Some (0, s\<lparr>s_mem := m, s_sched := sc, s_chip := a, s_time := t\<rparr>) } }"

section \<open>The other processors\<close>

text \<open>
  \<open>ap_start\<close> sets up the tables of its processor and becomes the idle thread. \<open>run_thread\<close> does not come back to it, or it halts for ever: either way the state is the one left behind.
\<close>

definition ap_start :: "nat \<Rightarrow> isr_stubs \<Rightarrow> u64 \<Rightarrow> seg_tables \<Rightarrow> int_tables \<Rightarrow> irqchip \<Rightarrow> sched \<Rightarrow> (seg_tables \<times> int_tables \<times> irqchip \<times> sched) option" where
  "ap_start c stubs ap_idle_thread g i a s = do {
     g \<leftarrow> gdt_init c g;
     i \<leftarrow> int_init stubs c i;
     a \<leftarrow> ap_lapic_init a;
     (_, _, s) \<leftarrow> run_thread c ap_idle_thread (of_nat c) (ascii ''ap_idle_thread'') s;
     Some (g, i, a, s) }"

section \<open>Messages\<close>

text \<open>The tick counter reaches every value again and again.\<close>

definition ticking :: "timebase \<Rightarrow> bool" where
  "ticking t \<longleftrightarrow> (\<forall>v i. \<exists>j \<ge> i. v \<le> jiffies_value t j)"

lemma mdelay_ticking:
  assumes "ticking t"
  shows "\<exists>t'. mdelay ms t = Some t' \<and> ticking t'"
proof -
  let ?v = "jiffies_value t (instant t) + ucast ms"
  obtain j where "Suc (instant t) \<le> j" "?v \<le> jiffies_value t j" using assms unfolding ticking_def by blast
  then obtain k where "first_look (jiffies_value t) ?v (Suc (instant t)) k" using first_look_exists [of "Suc (instant t)" j ?v "jiffies_value t"] by blast
  from mdelay_returns [OF this] show ?thesis using assms by (simp add: ticking_def)
qed

definition wake_up :: "u8 \<Rightarrow> (u8 \<times> u32) list" where
  "wake_up apic_id = [(apic_id, 0x4500), (apic_id, 0x608), (apic_id, 0x608)]"

lemma ap_startup_messages:
  assumes "lapic_ok a" "ticking t"
  shows "\<exists>a' t'. ap_startup apic_id a t = Some (a', t') \<and> lapic_ok a' \<and> ticking t' \<and> ipis a' = ipis a @ wake_up apic_id"
proof -
  obtain a1 where 1: "lapic_send_init apic_id a = Some a1" "lapic_ok a1" "ipis a1 = ipis a @ [(apic_id, 0x4500)]" using send_ipi(1) [OF assms(1)] by blast
  obtain a2 where 2: "lapic_send_sipi apic_id TRAMPOLINE_VECTOR a1 = Some a2" "lapic_ok a2" "ipis a2 = ipis a1 @ [(apic_id, 0x600 OR ucast TRAMPOLINE_VECTOR)]"
    using send_ipi(2) [OF 1(2)] by blast
  obtain a3 where 3: "lapic_send_sipi apic_id TRAMPOLINE_VECTOR a2 = Some a3" "lapic_ok a3" "ipis a3 = ipis a2 @ [(apic_id, 0x600 OR ucast TRAMPOLINE_VECTOR)]"
    using send_ipi(2) [OF 2(2)] by blast
  obtain t1 where t1: "mdelay 10 t = Some t1" "ticking t1" using mdelay_ticking [OF assms(2)] by blast
  obtain t2 where t2: "mdelay 1 t1 = Some t2" "ticking t2" using mdelay_ticking [OF t1(2)] by blast
  obtain t3 where t3: "mdelay 1 t2 = Some t3" "ticking t3" using mdelay_ticking [OF t2(2)] by blast
  have v: "0x600 OR ucast TRAMPOLINE_VECTOR = (0x608 :: u32)" by (simp add: TRAMPOLINE_VECTOR_def)
  show ?thesis using 1 2 3 t1 t2 t3 v by (simp add: ap_startup_def wake_up_def)
qed

lemma startup_loop_messages:
  assumes "lapic_ok a" "ticking t"
  shows "\<exists>a' t'. startup_loop bsp ids a t = Some (a', t') \<and> lapic_ok a' \<and> ticking t' \<and>
    ipis a' = ipis a @ concat (map (\<lambda>x. wake_up (ucast x)) (filter (\<lambda>x. x \<noteq> bsp) ids))"
  using assms
proof (induction ids arbitrary: a t)
  case (Cons x xs)
  show ?case
  proof (cases "x = bsp")
    case False
    obtain a1 t1 where 1: "ap_startup (ucast x) a t = Some (a1, t1)" "lapic_ok a1" "ticking t1" "ipis a1 = ipis a @ wake_up (ucast x)"
      using ap_startup_messages [OF Cons.prems] by blast
    from Cons.IH [OF 1(2,3)] 1(1,4) False show ?thesis by auto
  qed (use Cons in simp)
qed simp

section \<open>The page of the start-up code\<close>

text \<open>The byte at an offset of the page.\<close>

definition ap_byte :: "mem \<Rightarrow> nat \<Rightarrow> u8" where
  "ap_byte m j = m (AP_BASE + of_nat j)"

lemma ap_byte_write:
  assumes "off < 0x1000" "j < 0x1000" "length bs < 0x1000"
  shows "ap_byte (write_mem (AP_BASE + of_nat off) bs m) j = (if off \<le> j \<and> j < off + length bs then bs ! (j - off) else ap_byte m j)"
proof -
  have d: "AP_BASE + of_nat j - (AP_BASE + of_nat off) = (of_nat j - of_nat off :: u64)" by simp
  have u: "unat (of_nat j - of_nat off :: u64) = (if off \<le> j then j - off else j + 2 ^ 64 - off)"
  proof -
    have "unat (of_nat j :: u64) = j" "unat (of_nat off :: u64) = off" using assms by (simp_all add: unsigned_of_nat take_bit_nat_eq_self)
    then show ?thesis by (simp add: unat_sub_if')
  qed
  show ?thesis unfolding ap_byte_def write_mem_def d u using assms by (cases "off \<le> j") auto
qed

lemma ap_byte_block:
  assumes "0x9000 \<le> unat a" "unat a + n \<le> 2 ^ 64" "j < 0x1000"
  shows "ap_byte (write_mem a (replicate n b) m) j = ap_byte m j"
proof -
  have u: "unat (AP_BASE + of_nat j) = 0x8000 + j" using assms(3) unat_add_of_nat [of AP_BASE j] by (simp add: AP_BASE_def)
  then have "unat (AP_BASE + of_nat j - a) = 2 ^ 64 + (0x8000 + j) - unat a" using assms(1,3) by (simp add: unat_sub_if')
  then have "\<not> unat (AP_BASE + of_nat j - a) < n" using assms by linarith
  then show ?thesis by (simp add: ap_byte_def write_mem_def)
qed

definition page_holds :: "mem \<Rightarrow> nat \<Rightarrow> bytes \<Rightarrow> bool" where
  "page_holds m off bs \<longleftrightarrow> (\<forall>j < length bs. ap_byte m (off + j) = bs ! j)"

lemma holdsI: "(\<And>i. i < length bs \<Longrightarrow> m (p + of_nat i) = bs ! i) \<Longrightarrow> holds m p bs"
proof (induction bs arbitrary: p)
  case (Cons b bs)
  have "m (p + 1 + of_nat i) = bs ! i" if "i < length bs" for i using Cons.prems [of "Suc i"] that by (simp add: add_ac)
  then show ?case using Cons.IH [of "p + 1"] Cons.prems [of 0] by simp
qed simp

lemma page_holds_rd64: "page_holds m off (le64 v) \<Longrightarrow> rd64 m (AP_BASE + of_nat off) = v"
  by (intro rd64_le64 holdsI) (simp add: page_holds_def ap_byte_def add_ac)

lemma put64_page: "off + 8 \<le> 0x1000 \<Longrightarrow> page_holds (put64 (AP_BASE + of_nat off) v m) off (le64 v)"
  by (simp add: page_holds_def put64_def ap_byte_write)

definition clear_blocks :: "sched \<Rightarrow> bool" where
  "clear_blocks s \<longleftrightarrow> roomy (sheap s) \<and> (\<forall>k. 0x9000 \<le> unat (alloc_at s k) \<and> unat (alloc_at s k) + AP_STACK_SIZE \<le> 2 ^ 64)"

definition ap_stack :: "sched \<Rightarrow> nat \<Rightarrow> u64" where
  "ap_stack s k = alloc_at s (calls (sheap s) + k) + of_nat AP_STACK_SIZE"

lemma stack_loop_spec:
  assumes "clear_blocks s" "off + 8 * (i + length xs) \<le> 0x1000"
  shows "\<exists>m' h. stack_loop bsp (AP_BASE + of_nat off) xs i m s = Some (m', s\<lparr>sheap := h\<rparr>) \<and> roomy h \<and>
    (\<forall>j < off + 8 * i. ap_byte m' j = ap_byte m j) \<and>
    (\<forall>j < length xs. xs ! j \<noteq> bsp \<longrightarrow> page_holds m' (off + 8 * (i + j)) (le64 (ap_stack s (length (filter (\<lambda>x. x \<noteq> bsp) (take j xs))))))"
  using assms
proof (induction xs arbitrary: i m s)
  case Nil
  have "s = s\<lparr>sheap := sheap s\<rparr>" by simp
  then show ?case using Nil.prems by (intro exI [of _ m] exI [of _ "sheap s"]) (simp add: clear_blocks_def)
next
  case (Cons x xs)
  have le: "off + 8 * (Suc i + length xs) \<le> 0x1000" using Cons.prems(2) by simp
  show ?case
  proof (cases "x = bsp")
    case True
    obtain m' h where H: "stack_loop bsp (AP_BASE + of_nat off) xs (Suc i) m s = Some (m', s\<lparr>sheap := h\<rparr>)" "roomy h" "\<forall>j < off + 8 * Suc i. ap_byte m' j = ap_byte m j"
      "\<forall>j < length xs. xs ! j \<noteq> bsp \<longrightarrow> page_holds m' (off + 8 * (Suc i + j)) (le64 (ap_stack s (length (filter (\<lambda>x. x \<noteq> bsp) (take j xs)))))"
      using Cons.IH [OF Cons.prems(1) le, of m] by blast
    have "page_holds m' (off + 8 * (i + j)) (le64 (ap_stack s (length (filter (\<lambda>x. x \<noteq> bsp) (take j (x # xs))))))" if "j < length (x # xs)" "(x # xs) ! j \<noteq> bsp" for j
      using H(4) that True by (cases j) auto
    then show ?thesis using H True by (intro exI [of _ m'] exI [of _ h]) simp
  next
    case False
    let ?a = "alloc_at s (calls (sheap s))"
    obtain h where h: "kh_alloc (sheap s) AP_STACK_SIZE = Some (True, h)" "roomy h" "calls h = Suc (calls (sheap s))"
      using Cons.prems(1) by (simp add: clear_blocks_def kh_alloc_def roomy_def AP_STACK_SIZE_def)
    have a: "0x9000 \<le> unat ?a" "unat ?a + AP_STACK_SIZE \<le> 2 ^ 64" "?a \<noteq> 0" using Cons.prems(1) by (auto simp: clear_blocks_def dest: spec [of _ "calls (sheap s)"])
    let ?z = "write_mem ?a (replicate AP_STACK_SIZE 0) m"
    let ?m = "put64 (AP_BASE + of_nat off + of_nat (8 * i)) (?a + of_nat AP_STACK_SIZE) ?z" and ?s = "s\<lparr>sheap := h\<rparr>"
    have e: "AP_BASE + of_nat off + of_nat (8 * i) = AP_BASE + of_nat (off + 8 * i)" by simp
    have cl: "clear_blocks ?s" using Cons.prems(1) h(2) by (simp add: clear_blocks_def)
    have st: "ap_stack ?s k = ap_stack s (Suc k)" for k using h(3) by (simp add: ap_stack_def)
    have here: "page_holds ?m (off + 8 * i) (le64 (ap_stack s 0))" unfolding e using put64_page [of "off + 8 * i" _ ?z] le by (simp add: ap_stack_def)
    have below: "ap_byte ?m j = ap_byte m j" if "j < off + 8 * i" for j
      unfolding e put64_def using that le by (subst ap_byte_write) (simp_all add: ap_byte_block [OF a(1,2)])
    obtain m' h' where H: "stack_loop bsp (AP_BASE + of_nat off) xs (Suc i) ?m ?s = Some (m', ?s\<lparr>sheap := h'\<rparr>)" "roomy h'" "\<forall>j < off + 8 * Suc i. ap_byte m' j = ap_byte ?m j"
      "\<forall>j < length xs. xs ! j \<noteq> bsp \<longrightarrow> page_holds m' (off + 8 * (Suc i + j)) (le64 (ap_stack ?s (length (filter (\<lambda>x. x \<noteq> bsp) (take j xs)))))"
      using Cons.IH [OF cl le, of ?m] by blast
    have "page_holds m' (off + 8 * (i + j)) (le64 (ap_stack s (length (filter (\<lambda>x. x \<noteq> bsp) (take j (x # xs))))))" if "j < length (x # xs)" "(x # xs) ! j \<noteq> bsp" for j
    proof (cases j)
      case 0
      then show ?thesis using here H(3) by (simp add: page_holds_def)
    next
      case (Suc j')
      then show ?thesis using H(4) that False by (simp add: st)
    qed
    moreover have "ap_byte m' j = ap_byte m j" if "j < off + 8 * i" for j using H(3) below [OF that] that by simp
    ultimately show ?thesis using H(1,2) h(1) a(3) False by (intro exI [of _ m'] exI [of _ h']) (simp add: alloc_block_def)
  qed
qed

section \<open>The whole start\<close>

lemma ap_page:
  assumes "pt_wf R v" "0 \<in> R" "3 \<le> free_count (page_alloc_bitmap v)"
  obtains t where "map_page_range v AP_BASE AP_BASE MAP_KERN_RW 1 = Some (if leaf v (path AP_BASE) = None then 1 else - MAP_ERR_EXIST, t)" "vm_state.cr3 t = vm_state.cr3 v" "pt_wf R t"
    "leaf t (path AP_BASE) \<noteq> None" "free_count (page_alloc_bitmap v) - 3 \<le> free_count (page_alloc_bitmap t)"
proof -
  have r: "unat (tbl_idx 39 AP_BASE) \<in> R" using assms(2) by (simp add: AP_BASE_def tbl_idx_unat)
  have f: "flags_ok MAP_KERN_RW" by (simp add: flags_ok_def MAP_KERN_RW_def)
  obtain t where t: "map_one v AP_BASE AP_BASE MAP_KERN_RW = Some (leaf v (path AP_BASE) = None, t)" "pt_wf R t" "extends R v t" "leaf t (path AP_BASE) \<noteq> None"
    "free_count (page_alloc_bitmap v) - 3 \<le> free_count (page_alloc_bitmap t)"
    using map_one_spec [OF assms(1) r f assms(3), of AP_BASE] by auto
  have c: "vm_state.cr3 t = vm_state.cr3 v" using extendsD(1) [OF t(3)] by (simp add: enlarges_def)
  have "map_page_range v AP_BASE AP_BASE MAP_KERN_RW 1 = Some (if leaf v (path AP_BASE) = None then 1 else - MAP_ERR_EXIST, t)"
    using t(1) by (simp add: map_page_range_def map_loop.simps [of v] map_loop.simps [of t] unmap_page_range_def unmap_loop.simps)
  then show thesis using c t(2,4,5) by (rule that)
qed

text \<open>When the page of the start-up code was not mapped, mapping it succeeds, and the result is taken for an error: the call does not return.\<close>

lemma smp_init_hangs:
  assumes "pt_wf R (s_vm s)" "0 \<in> R" "3 \<le> free_count (page_alloc_bitmap (s_vm s))" "leaf (s_vm s) (path AP_BASE) = None"
  shows "smp_init ident tables code s = None"
proof -
  obtain t where t: "map_page_range (s_vm s) AP_BASE AP_BASE MAP_KERN_RW 1 = Some (1, t)" using ap_page [OF assms(1-3)] assms(4) by auto
  have "(1 :: int) \<noteq> - MAP_ERR_EXIST" by (simp add: MAP_ERR_EXIST_def)
  then show ?thesis using t by (cases "acpi_madt_smp_counter (s_mem s) tables") (auto simp: smp_init_def)
qed

text \<open>The code, the slot of \<open>cr3\<close> and the slots of \<open>n\<close> stacks fit in the page, in this order, and the code lies behind the page.\<close>

definition code_fits :: "trampoline \<Rightarrow> nat \<Rightarrow> bool" where
  "code_fits code n \<longleftrightarrow> unat (ap_cr3 code - ap_trampoline_start code) \<le> unat (ap_trampoline_end code - ap_trampoline_start code) \<and>
     unat (ap_trampoline_end code - ap_trampoline_start code) \<le> 0x1000 \<and>
     unat (ap_cr3 code - ap_trampoline_start code) + 8 \<le> unat (ap_stack_array code - ap_trampoline_start code) \<and>
     unat (ap_stack_array code - ap_trampoline_start code) + 8 * n \<le> 0x1000 \<and>
     0x9000 \<le> unat (ap_trampoline_start code) \<and> unat (ap_trampoline_start code) + 0x1000 \<le> 2 ^ 64"

lemma trampoline_copied:
  assumes "code_fits code n" "i < unat (ap_trampoline_end code - ap_trampoline_start code)"
  shows "ap_byte (memcpy m AP_BASE (ap_trampoline_start code) (unat (ap_trampoline_end code - ap_trampoline_start code))) i = m (ap_trampoline_start code + of_nat i)"
proof -
  let ?st = "ap_trampoline_start code" and ?n = "unat (ap_trampoline_end code - ap_trampoline_start code)"
  have n: "?n \<le> 0x1000" "0x9000 \<le> unat ?st" "unat ?st + 0x1000 \<le> 2 ^ 64" using assms(1) by (simp_all add: code_fits_def)
  have "unat (AP_BASE + of_nat j) < 0x9000" if "j < ?n" for j using unat_add_of_nat [of AP_BASE j] that n(1) by (simp add: AP_BASE_def)
  moreover have "0x9000 \<le> unat (?st + of_nat k)" if "k < ?n" for k using unat_add_of_nat [of ?st k] that n by simp
  ultimately have "AP_BASE + of_nat j \<noteq> ?st + of_nat k" if "j < ?n" "k < ?n" for j k using that by (metis leD)
  then have "region AP_BASE ?n \<inter> region ?st ?n = {}" by (auto simp: region_def)
  moreover have "unat AP_BASE + ?n \<le> 2 ^ 64" "unat ?st + ?n \<le> 2 ^ 64" using n by (simp_all add: AP_BASE_def)
  ultimately show ?thesis unfolding ap_byte_def using memcpy_copies [of AP_BASE ?n ?st i m] assms(2) by blast
qed


text \<open>The identifiers in the table are those of the firmware (\<open>processor_id\<close>, the third byte of an entry), not those of the local APICs (the fourth byte), to which the messages go.\<close>

lemma madt_processor_ids: "cpu_ids [[0, 8, 5, 1, 1, 0, 0, 0]] = [5]"
  by (simp add: cpu_ids_def field32_def)

text \<open>
  A processor finds its stack by its APIC identifier, whereas the stacks are stored by position in the table: when the two differ, the slot it reads is that of another processor. With the
  processors 0 and 4, the slot the second one reads has not been written.
\<close>

lemma stack_slot_by_position:
  assumes "clear_blocks s"
  shows "\<exists>m' h. stack_loop 0 (AP_BASE + of_nat 0x108) [0, 4] 0 (\<lambda>_. 0) s = Some (m', s\<lparr>sheap := h\<rparr>) \<and>
    rd64 m' (AP_BASE + of_nat (0x108 + 8 * 1)) = ap_stack s 0 \<and> rd64 m' (AP_BASE + of_nat (0x108 + 8 * 4)) = 0"
proof -
  let ?a = "alloc_at s (calls (sheap s))" and ?off = "0x108 + 8 * 1 :: nat"
  let ?z = "write_mem ?a (replicate AP_STACK_SIZE 0) (\<lambda>_. 0)"
  let ?m = "put64 (AP_BASE + of_nat ?off) (ap_stack s 0) ?z"
  obtain h where h: "kh_alloc (sheap s) AP_STACK_SIZE = Some (True, h)" using assms by (simp add: clear_blocks_def kh_alloc_def roomy_def AP_STACK_SIZE_def)
  have a: "0x9000 \<le> unat ?a" "unat ?a + AP_STACK_SIZE \<le> 2 ^ 64" "?a \<noteq> 0" using assms by (auto simp: clear_blocks_def dest: spec [of _ "calls (sheap s)"])
  have loop: "stack_loop 0 (AP_BASE + of_nat 0x108) [0, 4] 0 (\<lambda>_. 0) s = Some (?m, s\<lparr>sheap := h\<rparr>)"
    using h a(3) by (simp add: alloc_block_def ap_stack_def add.commute [of "272 :: u64" AP_BASE])
  have "page_holds ?m ?off (le64 (ap_stack s 0))" by (rule put64_page) simp
  from page_holds_rd64 [OF this] have slot: "rd64 ?m (AP_BASE + of_nat ?off) = ap_stack s 0" .
  have "ap_byte ?m j = 0" if "?off + 8 \<le> j" "j < 0x1000" for j
  proof -
    have "ap_byte ?m j = ap_byte ?z j" unfolding put64_def using that by (subst ap_byte_write) simp_all
    then show ?thesis using ap_byte_block [OF a(1,2) that(2)] by (simp add: ap_byte_def)
  qed
  moreover have "le64 0 = replicate 8 0" by (simp add: le64_def le32_def eval_nat_numeral)
  ultimately have "page_holds ?m (0x108 + 8 * 4) (le64 0)" by (simp add: page_holds_def)
  from page_holds_rd64 [OF this] show ?thesis using loop slot by blast
qed

text \<open>A woken processor with nothing to run becomes its idle thread, with its timer running, and leaves the lock free for the next one.\<close>

lemma ap_start_idle:
  assumes "c < cpus g" "c < int_cpus i" "lapic_ok a" "good_heap s" "c < max_cpus s" "current s c = None" "run_thread_spinlock s = 0"
  shows "\<exists>g' i' a' s' x. ap_start c stubs ap_idle_thread g i a s = Some (g', i', a', s') \<and> current s' c = Some (next_task s) \<and>
    tasks s' (next_task s) = Some x \<and> t_status x = TASK_RUNNING \<and> stack_mem s' (t_rsp x + 128) = ap_idle_thread \<and> run_thread_spinlock s' = 0 \<and> lapic_reg a' 0x320 = 0x200EF"
proof -
  obtain g' where g': "gdt_init c g = Some g'" using assms(1) by (simp add: gdt_init_def Let_def)
  obtain i' where i': "int_init stubs c i = Some i'" using assms(2) by (simp add: int_init_def Let_def)
  obtain a' where a': "ap_lapic_init a = Some a'" "lapic_reg a' 0x320 = 0x200EF" using ap_lapic_init_regs [OF assms(3)] by blast
  let ?s0 = "s\<lparr>irq_on := (irq_on s)(c := False), run_thread_spinlock := 1\<rparr>"
  obtain h where h: "kh_alloc (sheap s) 192 = Some (True, h)" "roomy h" using kh_alloc_roomy [of "sheap s" 192] assms(4) by (auto simp: good_heap_def)
  let ?s1 = "?s0\<lparr>sheap := h\<rparr>"
  have g1: "good_heap ?s1" using assms(4) h(2) by (simp add: good_heap_def)
  obtain b2 s2 where b2: "alloc_block KSTACK_SIZE ?s1 = Some (b2, s2)" "b2 \<noteq> 0" "good_heap s2" using good_heap_alloc [OF g1, of KSTACK_SIZE] by (auto simp: KSTACK_SIZE_def)
  obtain b3 s3 where b3: "alloc_block KRSP0_SIZE s2 = Some (b3, s3)" using good_heap_alloc [OF b2(3), of KRSP0_SIZE] by (auto simp: KRSP0_SIZE_def)
  have keep: "s3 = ?s1\<lparr>sheap := sheap s3\<rparr>" using b2(1) b3 by (auto simp: alloc_block_def split: Option.bind_splits)
  let ?rsp = "b2 + of_nat KSTACK_SIZE - 8 - 128"
  obtain x s4 where k: "kerntask_create c (sched.cr3 ?s1 c) fresh_task ap_idle_thread (of_nat c) ?s1 = Some (0, x, s4)" "t_rsp x = ?rsp"
    "s4 = s3\<lparr>stack_mem := (fold (\<lambda>i m. m(?rsp + 8 * of_nat i := 0)) [0..<16] ((stack_mem s3)(?rsp + 128 := ap_idle_thread)))(?rsp + 72 := of_nat c, ?rsp + 120 := 0x202)\<rparr>"
    using b2 b3 by (simp add: kerntask_create_def Let_def)
  have top: "stack_mem s4 (?rsp + 128) = ap_idle_thread" unfolding k(3) by (simp add: upt_rec)
  have f: "next_task s4 = next_task s" "current s4 = current s" "max_cpus s4 = max_cpus s" unfolding k(3) by (subst keep, simp)+
  show ?thesis using g' i' a' h(1) k(1,2) top f assms(5-7)
    by (simp add: ap_start_def run_thread_def spinlock_lock_free spinlock_unlock_def atomic_store_def set_status_def Let_def)
qed

section \<open>An example\<close>

text \<open>Two processors, with entries of another kind behind the table.\<close>

definition two_cpus :: bytes where
  "two_cpus = replicate 4 0 @ le32 60 @ replicate 36 0 @ concat [[0, 8, 0, 0, 1, 0, 0, 0], [0, 8, 1, 1, 1, 0, 0, 0]] @ ([9, 44] @ replicate 42 0)"

lemma two_cpus_counted: "acpi_madt_smp_counter (memory_of 0x1000 two_cpus) sample_acpi = Some (2, [0, 1])"
proof -
  let ?es = "[[0, 8, 0, 0, 1, 0, 0, 0], [0, 8, 1, 1, 1, 0, 0, 0]] :: bytes list" and ?js = "[[9, 44] @ replicate 42 0] :: bytes list"
  let ?m = "memory_of 0x1000 two_cpus"
  have len: "length two_cpus < 2 ^ 64" by (simp add: two_cpus_def)
  have "holds ?m (0x1000 + of_nat (length (replicate 4 0 @ le32 60 @ replicate 36 (0 :: u8)))) (concat ?es)"
    by (rule holds_memory_of [OF len, where zs = "[9, 44] @ replicate 42 0"]) (simp add: two_cpus_def)
  moreover have "holds ?m (0x1000 + of_nat (length (replicate 4 (0 :: u8)))) (le32 60)"
    by (rule holds_memory_of [OF len, where zs = "replicate 36 0 @ concat ?es @ [9, 44] @ replicate 42 0"]) (simp add: two_cpus_def)
  ultimately have h: "madt_holds ?m sample_acpi ?es" by (simp add: madt_holds_def sample_acpi_def entry_ok_def)
  have "holds ?m (0x1000 + of_nat (length (replicate 4 0 @ le32 60 @ replicate 36 (0 :: u8) @ concat ?es))) (concat ?js)"
    by (rule holds_memory_of [OF len, where zs = "[]"]) (simp add: two_cpus_def)
  then have j: "holds ?m (madt_entries sample_acpi + of_nat (length (concat ?es))) (concat ?js)" by (simp add: madt_entries_def sample_acpi_def)
  have "acpi_madt_smp_counter ?m sample_acpi = Some (of_nat (length (cpu_ids (?es @ ?js))), cpu_ids (?es @ ?js))"
    by (rule smp_counter_overrun [OF h j]) (simp_all add: entry_ok_def sample_acpi_def)
  then show ?thesis by (simp add: cpu_ids_def field32_def)
qed

definition sample_code :: trampoline where
  "sample_code = \<lparr>ap_trampoline_start = 0x100000, ap_trampoline_end = 0x100110, ap_cr3 = 0x100100, ap_stack_array = 0x100108\<rparr>"

definition sample_ident :: cpu_ident where
  "sample_ident = \<lparr>max_leaf = 1, leaf_b = (0, 0, 0, 0), leaf_1 = (0, 0, 0, 0)\<rparr>"

definition sample_smp :: "vm_state \<Rightarrow> smp_state" where
  "sample_smp v = \<lparr>bsp_id = 0, ap_count = 0, s_mem = memory_of 0x1000 two_cpus, s_vm = v, s_sched = (sample_sched [] [])\<lparr>alloc_at := (\<lambda>_. 0x200000)\<rparr>,
     s_chip = idle_chip\<lparr>lapic_base := 0xFEE00000, lapic_base_virt := 0xFEE00000, mmio_maps := [(0xFEE00000, 0xFEE00000)]\<rparr>, s_time = example_time\<rparr>"

lemma example_ticking: "ticking example_time"
proof -
  have "\<exists>j \<ge> i. v \<le> of_nat j" for v :: u64 and i
  proof (intro exI conjI)
    have "(of_nat (2 ^ 64 * i) :: u64) = 0" by (simp only: word_of_nat_eq_0_iff) simp
    then have "of_nat (2 ^ 64 * i + unat v) = (of_nat (unat v) :: u64)" by (simp only: of_nat_add) simp
    then show "v \<le> of_nat (2 ^ 64 * i + unat v)" by simp
  qed simp
  then show ?thesis by (simp add: ticking_def example_time_def)
qed


end
