(* ===== verification/Spec2Isabelle.thy ===== *)
theory Spec2Isabelle
  imports Bitmap PageAlloc CString Sync IntrusiveList Queue PageTable MemPool KMem KHeap Fat32 Tmpfs Vfs Fatfs Sched Uart Printf Descriptors Firmware Irqchip Ahci Pci UserSpace Loader Tsc Interrupts UserLib Initcalls Smp
begin

text \<open>
  A verification of the RayOS kernel.

  \<^bold>\<open>The program.\<close> RayOS is a small x86-64 kernel in C. At boot it reads the memory map of the boot loader (\<open>multiboot2.c\<close>) and the firmware tables (\<open>acpi.c\<close>), sets up segments and interrupt gates
  (\<open>gdt.c\<close>, \<open>int.c\<close>), the physical page allocator and the page tables (\<open>bitmap.c\<close>, \<open>page.c\<close>), and the kernel heap on top of both (\<open>mm/mempool.c\<close>, \<open>mm/mm.c\<close>). Everything else takes
  its memory from the heap: tasks (\<open>task.c\<close>), the nodes of the in-memory file system (\<open>fs/tmpfs.c\<close>), mounts, cached directory entries and open files (\<open>fs/mount.c\<close>, \<open>fs/vfs.c\<close>,
  \<open>syscalls.c\<close>). The timer interrupt runs the scheduler, which rotates the tasks of a processor through queues (\<open>queue.c\<close>) that are linked lists (\<open>list.c\<close>) under a spinlock
  (\<open>spinlock.c\<close>, \<open>atomic.c\<close>). A system call goes through the descriptor table to the virtual file system, and from there through a table of operations to tmpfs or to the FatFs adapter
  (\<open>fs/fatfs.c\<close>); \<open>fs/fat32.c\<close> is an older driver for the same disk format. FatFs reads its sectors through \<open>fs/diskio.c\<close> from a block device, which is a port of an AHCI
  controller (\<open>ahci_block.c\<close>) that the enumeration of the PCI bus has found (\<open>pci.c\<close>). A program is started by mapping it at the addresses it is linked for and building its page tables through a
  window (\<open>task.c\<close>). Interrupts reach a processor through the I/O APIC and its local APIC (\<open>ioapic.c\<close>, \<open>lapic.c\<close>), after the older controllers have been masked (\<open>pic.c\<close>), and end in the handlers of
  \<open>int.c\<close>, one of which dispatches the system calls that programs make through \<open>user/libc.c\<close>. The other processors are woken by messages of the local APIC (\<open>smp.c\<close>). Console output goes through \<open>lib/printf.c\<close> to the
  serial port (\<open>uart.c\<close>), input comes from its interrupt. Waits use the timer ticks or the time stamp counter (\<open>timer.c\<close>, \<open>tsc.c\<close>).

  \<^bold>\<open>The theories\<close>, in the order of their dependencies. Every operation is one definition with the name of the C function; a loop is a definition of its own.

  \<^item> \<open>Prelude\<close>: C integers, conversions, alignment, generic lemmas.
  \<^item> \<open>Bitmap\<close> (\<open>src/src/bitmap.c\<close>): the bit set; the interface \<open>bit_store\<close>; first-fit range allocation, its inverse, the population count.
  \<^item> \<open>PageAlloc\<close> (\<open>src/src/page.c\<close>, \<open>src/inc/page.h\<close>): orders and physical pages on top of the bitmap.
  \<^item> \<open>PageTable\<close> (\<open>src/src/page.c\<close>): the live page tables, edited through the recursive slot of the PML4; mapping, unmapping, roll-back and address lookup against the processor's own walk.
  \<^item> \<open>MemPool\<close>, \<open>KMem\<close> (\<open>src/src/mm\<close>): the object pool with the interface \<open>object_pool\<close>; the heap with the interface \<open>allocator\<close>. The invariant \<open>kmem_inv\<close> ties blocks, pool, bitmap and page tables together.
  \<^item> \<open>KHeap\<close>: what is visible of the heap to its clients, related to \<open>KMem\<close> by a simulation lemma.
  \<^item> \<open>CString\<close> (\<open>src/src/lib/string.c\<close>): memory and string functions on a flat memory.
  \<^item> \<open>Sync\<close> (\<open>src/src/atomic.c\<close>, \<open>src/src/spinlock.c\<close>): atomic steps, the spinlock, and its interleavings as a step relation with mutual exclusion as an invariant.
  \<^item> \<open>IntrusiveList\<close>, \<open>Queue\<close> (\<open>src/src/list.c\<close>, \<open>src/src/queue.c\<close>): pointer lists refine lists; the interface \<open>fifo\<close>.
  \<^item> \<open>Fat32\<close> (\<open>src/src/fs/fat32.c\<close>): names, cluster chains, directories, file operations on an array of sectors.
  \<^item> \<open>Tmpfs\<close> (\<open>src/src/fs/tmpfs.c\<close>): the node store, related to a map from paths to nodes.
  \<^item> \<open>Vfs\<close> (\<open>src/src/fs/fs.c\<close>, \<open>mount.c\<close>, \<open>vfs.c\<close>, \<open>src/src/syscalls.c\<close>): registry, mounts, dentry cache, descriptors; the interface \<open>releasing_fs\<close> a file system has to meet, interpreted on tmpfs here and on FatFs in \<open>Fatfs\<close>; reference counts over all call sequences.
  \<^item> \<open>Fatfs\<close> (\<open>src/src/fs/fatfs.c\<close>): the adapter, over a record of functions that stands for the FatFs library.
  \<^item> \<open>Sched\<close> (\<open>src/src/task.c\<close>, \<open>algo.c\<close>, \<open>timer.c\<close>, \<open>mutex.c\<close>): task states, load balancing, the scheduler, exit and reaping, the timer, the mutex.
  \<^item> \<open>Uart\<close> (\<open>src/src/uart.c\<close>): a device model, the driver, and the interleaving of its interrupt handler with the reader.
  \<^item> \<open>Printf\<close> (\<open>src/src/lib/printf.c\<close>): the formatter, generic in the output function.
  \<^item> \<open>Descriptors\<close> (\<open>src/src/gdt.c\<close>, \<open>src/src/int.c\<close>): segment, task and interrupt descriptors against the processor's reading of them.
  \<^item> \<open>Firmware\<close> (\<open>src/src/acpi.c\<close>, \<open>src/src/multiboot2.c\<close>): walks over tables in memory against the lists of records they hold.
  \<^item> \<open>Irqchip\<close> (\<open>src/src/pic.c\<close>, \<open>lapic.c\<close>, \<open>ioapic.c\<close>): masks, routing, calibration and waiting, over models of the devices.
  \<^item> \<open>Ahci\<close> (\<open>src/src/ahci_block.c\<close>, \<open>block_device.c\<close>, \<open>fs/diskio.c\<close>): the driver over a controller that executes the command tables in memory; the interface \<open>sector_io\<close>, interpreted on the driver and on the disk functions of FatFs.
  \<^item> \<open>Pci\<close> (\<open>src/src/pci.c\<close>): the two ways to read configuration registers, and the enumeration that starts \<open>Ahci\<close>.
  \<^item> \<open>UserSpace\<close> (\<open>src/src/task.c\<close>): the page tables and the first stack frame of a new program.
  \<^item> \<open>Loader\<close> (\<open>src/src/task.c\<close>): the ELF loader, whose result is the address space of the program, and \<open>run_process\<close>.
  \<^item> \<open>Tsc\<close> (\<open>src/src/tsc.c\<close>, \<open>timer.c\<close>): frequency, readings and busy waits; the interface \<open>polling\<close>, interpreted on both counters, says when a wait returns.
  \<^item> \<open>Interrupts\<close> (\<open>src/src/int.c\<close>): the handlers over the file system, the scheduler, the serial port and the local APIC together, as a step relation whose invariant joins those of the components.
  \<^item> \<open>UserLib\<close> (\<open>src/src/user/libc.c\<close>): the calls of a program, through the trap to the file system and back.
  \<^item> \<open>Initcalls\<close> (\<open>src/src/init.c\<close>, \<open>src/linker.ld\<close>): the order of initialisation and exit calls.
  \<^item> \<open>Smp\<close> (\<open>src/src/smp.c\<close>, \<open>ap_main.c\<close>): the start of the other processors.

  \<^bold>\<open>Conventions.\<close> Bit patterns are words of their width; counts and indices of type \<open>size_t\<close> are natural numbers with the wrap-around written out; a C \<open>int\<close> is an integer. Error codes are the returned
  values. A call that does not return, because it waits for a lock nobody releases, runs through a cyclic structure or faults, has the result \<open>None\<close>. Loops that may not end are
  \<open>partial_function (option)\<close>, and the statements about them say that they return. No fuel is used anywhere.

  \<^bold>\<open>Defects.\<close> Where the code does not do what it means to do the model follows the code, and a lemma states what happens: for instance the error returns of the heap that leave its lock held, the
  byte \<open>strncpy\<close> writes past its buffer, the cluster number the FAT32 allocator gets wrong, the tmpfs rename onto itself, tmpfs files that cannot be opened, the base of the task state segment, the
  processor count that runs past its table, the exit that comes back, the units of the time stamp counter, the start of the processors that takes success for an error.

  \<^bold>\<open>Not modelled.\<close> The FatFs library itself (\<open>ff.c\<close>, \<open>ffunicode.c\<close>, third party); assembly (boot, context switch, interrupt stubs, the application processor trampoline); caches and
  memory ordering below sequential consistency. Of the kernel's own C code \<open>main.c\<close> remains, which calls the parts in order; each part has a state of its own here, and \<open>Interrupts\<close>, \<open>Loader\<close> and \<open>Smp\<close> join those
  that work together. Console messages are left out except in \<open>Initcalls\<close>.
\<close>

end
